(* ===== verification/Prelude.thy ===== *)
theory Prelude
  imports Main "HOL-Library.Word"
begin

text \<open>
  Shared vocabulary of the development: the C integer types as words, the outcome of a
  kernel routine (a value, a kernel panic, a wild access or an endless loop), its
  sequencing operator, and general facts on words and function updates.
\<close>

unbundle bit_operations_syntax

section \<open>Machine types\<close>

text \<open>\<open>unsigned char\<close>, \<open>unsigned short\<close>, \<open>unsigned int\<close> and \<open>unsigned long\<close> of the lp64d ABI.\<close>

type_synonym u8 = "8 word"
type_synonym u16 = "16 word"
type_synonym u32 = "32 word"
type_synonym u64 = "64 word"

section \<open>Outcomes\<close>

text \<open>
  \<open>Panic c a\<close> is the call \<open>kpanic(c, a)\<close>, which never returns. \<open>Fault a\<close> is a load or
  store through a null pointer at field address \<open>a\<close>, which the hardware turns into a page
  fault. \<open>Hang\<close> is a loop that never ends (a spinlock that is already held, a list walk
  that runs out of fuel).
\<close>

datatype 'a outcome = Ret 'a | Panic u64 u64 | Fault u64 | Hang

primrec bindO :: "'a outcome \<Rightarrow> ('a \<Rightarrow> 'b outcome) \<Rightarrow> 'b outcome" where
  "bindO (Ret x) f = f x"
| "bindO (Panic c a) f = Panic c a"
| "bindO (Fault a) f = Fault a"
| "bindO Hang f = Hang"

lemma bindO_Ret_iff [simp]: "bindO m f = Ret y \<longleftrightarrow> (\<exists>x. m = Ret x \<and> f x = Ret y)"
  by (cases m) auto

lemma bindO_assoc: "bindO (bindO m f) g = bindO m (\<lambda>x. bindO (f x) g)"
  by (cases m) auto

lemma bindO_cong [fundef_cong]:
  "m = m' \<Longrightarrow> (\<And>x. m' = Ret x \<Longrightarrow> f x = f' x) \<Longrightarrow> bindO m f = bindO m' f'"
  by (cases m') auto

lemma bindO_Ret_right [simp]: "bindO m Ret = m"
  by (cases m) auto

text \<open>A counted loop that cannot be left early: the body runs for every index in turn.\<close>

primrec forO :: "'i list \<Rightarrow> ('i \<Rightarrow> 's \<Rightarrow> 's outcome) \<Rightarrow> 's \<Rightarrow> 's outcome" where
  "forO [] body s = Ret s"
| "forO (i # is) body s = bindO (body i s) (forO is body)"

lemma forO_append: "forO (xs @ ys) body s = bindO (forO xs body s) (forO ys body)"
proof (induction xs arbitrary: s)
  case (Cons x xs)
  then have "forO (xs @ ys) body = (\<lambda>s. bindO (forO xs body s) (forO ys body))" by auto
  then show ?case by (simp add: bindO_assoc)
qed simp

section \<open>Collections of proof rules\<close>

named_theorems field_upd \<open>a field selector after an update of one heap object\<close>
named_theorems blocks \<open>facts on power-of-two blocks of page indices\<close>

section \<open>Words\<close>

lemma unat_lt_imp_add: "unat (a :: 'a::len word) + n < 2 ^ LENGTH('a) \<Longrightarrow> unat (a + of_nat n) = unat a + n"
  by (simp add: unat_word_ariths unat_of_nat)

lemma word_add_eq_or:
  fixes a b :: "'a::len word"
  assumes "a AND b = 0"
  shows "a + b = a OR b"
  using assms by (rule disjunctive_add_eq_or)

text \<open>The C expression \<open>1UL << k\<close>.\<close>

definition shl1 :: "nat \<Rightarrow> u64" where
  "shl1 k = push_bit k 1"

lemma bit_shl1: "bit (shl1 k) n \<longleftrightarrow> n = k \<and> n < 64"
  by (auto simp: shl1_def bit_simps)

lemma zero_bits: "(a :: u64) = 0 \<longleftrightarrow> (\<forall>n. \<not> bit a n)"
  by (auto intro: bit_eqI)

lemma shl1_test: "i < 64 \<Longrightarrow> b AND shl1 i \<noteq> 0 \<longleftrightarrow> bit b i"
  by (auto simp: zero_bits [of "b AND shl1 i"] bit_and_iff bit_shl1)

lemma unat64_less: "unat (z :: u64) < 2 ^ 64"
  using unsigned_less [where w = z] by simp

text \<open>Page arithmetic: 4096-byte pages, their offsets and their indices.\<close>

lemma unat_and_FFF: "unat ((a :: u64) AND 0xFFF) = unat a mod 4096"
proof -
  have "(0xFFF :: u64) = mask 12" by (simp add: mask_eq_exp_minus_1)
  then have "a AND 0xFFF = take_bit 12 a" by (simp only: take_bit_eq_mask)
  then have "unat (a AND 0xFFF) = take_bit 12 (unat a)" by (simp only: unsigned_take_bit_eq)
  then show ?thesis by (simp add: take_bit_eq_mod)
qed

lemma and_FFF_0_iff: "(a :: u64) AND 0xFFF = 0 \<longleftrightarrow> unat a mod 4096 = 0"
  by (metis unat_and_FFF unat_eq_0)

lemma unat_add_page: "unat ((a :: u64) + i * 4096) mod 4096 = unat a mod 4096"
proof -
  have "unat (a + i * 4096) = (unat a + unat i * 4096) mod 2 ^ 64"
    by (simp add: unat_word_ariths mod_simps)
  moreover have "(unat a + unat i * 4096) mod 2 ^ 64 mod 4096 = (unat a + unat i * 4096) mod 4096"
    by (rule mod_mod_cancel) simp
  ultimately show ?thesis by simp
qed

lemma page_index_bound: "i < (z :: u64) div 4096 \<Longrightarrow> unat i * 4096 + 4096 \<le> unat z"
  by (simp add: word_less_nat_alt unat_div)

lemma unat_page_offset: "i < (z :: u64) div 4096 \<Longrightarrow> unat (i * 4096) = unat i * 4096"
proof -
  assume "i < z div 4096"
  then have "unat i * 4096 < 2 ^ 64"
    using page_index_bound [of i z] unat64_less [of z] by simp
  then show ?thesis by (simp add: unat_word_ariths)
qed

lemma page_index: "i < (z :: u64) div 4096 \<Longrightarrow> (a + i * 4096 - a) div 4096 = i"
proof -
  assume "i < z div 4096"
  then have "unat ((i * 4096) div 4096) = unat i" by (simp add: unat_div unat_page_offset)
  then have "(i * 4096) div 4096 = i" by (simp only: word_unat_eq_iff)
  then show ?thesis by (simp only: add_diff_cancel_left')
qed

section \<open>Function updates seen through a selector\<close>

lemma sel_upd: "(\<lambda>x. g ((f(a := v)) x)) = (\<lambda>x. g (f x))(a := g v)"
  by (rule ext) simp

lemma comp_upd: "g \<circ> (f(a := v)) = (g \<circ> f)(a := g v)"
  by (rule ext) simp

end
