(* ===== verification/DList.thy ===== *)
theory DList
  imports Prelude
begin

text \<open>
  Doubly linked lists over a successor field \<open>nx\<close> and a predecessor field \<open>pv\<close>, both
  functions from addresses to addresses. The kernel uses two kinds: lists that end in a null
  value (the allocator's free lists, the slab lists, the wait lists of the scheduler) and
  circles (the active processes of one priority). Both are cut out of paths.
\<close>

section \<open>Paths\<close>

primrec dpath :: "('a \<Rightarrow> 'a) \<Rightarrow> ('a \<Rightarrow> 'a) \<Rightarrow> 'a \<Rightarrow> 'a \<Rightarrow> 'a list \<Rightarrow> 'a \<Rightarrow> bool" where
  "dpath nx pv p h [] t \<longleftrightarrow> h = t"
| "dpath nx pv p h (x # xs) t \<longleftrightarrow> h = x \<and> pv x = p \<and> dpath nx pv x (nx x) xs t"

lemma dpath_append:
  "dpath nx pv p h (xs @ ys) t \<longleftrightarrow>
     (\<exists>m. dpath nx pv p h xs m \<and> dpath nx pv (last (p # xs)) m ys t)"
  by (induction xs arbitrary: p h) auto

lemma dpath_upd_nx [simp]: "a \<notin> set xs \<Longrightarrow> dpath (nx(a := v)) pv p h xs t = dpath nx pv p h xs t"
  by (induction xs arbitrary: p h) auto

lemma dpath_upd_pv [simp]: "a \<notin> set xs \<Longrightarrow> dpath nx (pv(a := v)) p h xs t = dpath nx pv p h xs t"
  by (induction xs arbitrary: p h) auto

lemma dpath_cong:
  "(\<And>x. x \<in> set xs \<Longrightarrow> nx x = nx' x) \<Longrightarrow> (\<And>x. x \<in> set xs \<Longrightarrow> pv x = pv' x) \<Longrightarrow>
   dpath nx pv p h xs t = dpath nx' pv' p h xs t"
  by (induction xs arbitrary: p h) auto

lemma dpath_head: "dpath nx pv p h xs t \<Longrightarrow> h = (if xs = [] then t else hd xs)"
  by (cases xs) auto

lemma dpath_set_tail:
  assumes "dpath nx pv p h (xs @ [y]) t" and "y \<notin> set xs"
  shows "dpath (nx(y := t')) pv p h (xs @ [y]) t'"
  using assms by (auto simp: dpath_append)

lemma dpath_set_prev:
  assumes "dpath nx pv p h (x # xs) t" and "x \<notin> set xs"
  shows "dpath nx (pv(x := p')) p' h (x # xs) t"
  using assms by auto

section \<open>Lists that end in a null value\<close>

definition dlist :: "'a \<Rightarrow> ('a \<Rightarrow> 'a) \<Rightarrow> ('a \<Rightarrow> 'a) \<Rightarrow> 'a \<Rightarrow> 'a list \<Rightarrow> bool" where
  "dlist nil nx pv h xs \<longleftrightarrow> dpath nx pv nil h xs nil \<and> distinct xs \<and> nil \<notin> set xs"

lemma dlist_Nil [simp]: "dlist nil nx pv h [] \<longleftrightarrow> h = nil"
  by (simp add: dlist_def)

lemma dlist_head: "dlist nil nx pv h xs \<Longrightarrow> h = (if xs = [] then nil else hd xs)"
  unfolding dlist_def by (auto dest: dpath_head)

lemma dlist_nil_head: "dlist nil nx pv nil xs \<Longrightarrow> xs = []"
  by (cases xs) (auto simp: dlist_def)

lemma dlist_nonempty: "dlist nil nx pv h xs \<Longrightarrow> h \<noteq> nil \<Longrightarrow> \<exists>ys. xs = h # ys"
  by (cases xs) (auto simp: dlist_def)

lemma dlist_upd_nx [simp]: "a \<notin> set xs \<Longrightarrow> dlist nil (nx(a := v)) pv h xs = dlist nil nx pv h xs"
  by (simp add: dlist_def)

lemma dlist_upd_pv [simp]: "a \<notin> set xs \<Longrightarrow> dlist nil nx (pv(a := v)) h xs = dlist nil nx pv h xs"
  by (simp add: dlist_def)

lemma dlist_cong:
  "(\<And>x. x \<in> set xs \<Longrightarrow> nx x = nx' x) \<Longrightarrow> (\<And>x. x \<in> set xs \<Longrightarrow> pv x = pv' x) \<Longrightarrow>
   dlist nil nx pv h xs = dlist nil nx' pv' h xs"
  unfolding dlist_def using dpath_cong [of xs nx nx' pv pv'] by simp

lemma dlist_distinct: "dlist nil nx pv h xs \<Longrightarrow> distinct xs"
  by (simp add: dlist_def)

text \<open>The list a head pointer denotes is unique.\<close>

lemma dpath_unique:
  "dpath nx pv p h xs t \<Longrightarrow> dpath nx pv' p' h ys t \<Longrightarrow> t \<notin> set xs \<Longrightarrow> t \<notin> set ys \<Longrightarrow> xs = ys"
proof (induction xs arbitrary: p p' h ys)
  case Nil
  then show ?case by (cases ys) auto
next
  case (Cons x xs)
  then show ?case by (cases ys) auto
qed

lemma dlist_unique: "dlist nil nx pv h xs \<Longrightarrow> dlist nil nx pv' h ys \<Longrightarrow> xs = ys"
  unfolding dlist_def using dpath_unique by metis

text \<open>Pushing an element at the front, as every list of the kernel does it.\<close>

lemma dlist_push:
  assumes "dlist nil nx pv h xs" and "x \<notin> set xs" and "x \<noteq> nil"
  shows "dlist nil (nx(x := h)) ((if h \<noteq> nil then pv(h := x) else pv)(x := nil)) x (x # xs)"
proof (cases xs)
  case Nil
  with assms show ?thesis by (simp add: dlist_def)
next
  case (Cons y ys)
  with assms have "h = y" "y \<noteq> nil" "y \<noteq> x" "y \<notin> set ys" "x \<notin> set ys"
    by (auto simp: dlist_def)
  with assms Cons show ?thesis
    by (auto simp: dlist_def fun_upd_twist)
qed

text \<open>Removing the first element: the new head loses its predecessor.\<close>

lemma dlist_pop:
  assumes "dlist nil nx pv h (x # xs)"
  shows "h = x" and "dlist nil nx (if nx x \<noteq> nil then pv(nx x := nil) else pv) (nx x) xs"
proof -
  show "h = x" using assms by (simp add: dlist_def)
  show "dlist nil nx (if nx x \<noteq> nil then pv(nx x := nil) else pv) (nx x) xs"
    using assms by (cases xs) (auto simp: dlist_def)
qed

text \<open>Neighbours of an element inside a list.\<close>

lemma dlist_split_fields:
  assumes "dlist nil nx pv h (xs @ y # ys)"
  shows "pv y = last (nil # xs)" and "nx y = hd (ys @ [nil])"
    and "pv y = nil \<longleftrightarrow> xs = []" and "nx y = nil \<longleftrightarrow> ys = []"
proof -
  from assms have p: "dpath nx pv (last (nil # xs)) y (y # ys) nil"
    by (auto simp: dlist_def dpath_append)
  from assms have n: "nil \<notin> set xs" "nil \<notin> set ys" by (auto simp: dlist_def)
  from p show "pv y = last (nil # xs)" by simp
  then show "pv y = nil \<longleftrightarrow> xs = []" using n by (cases xs rule: rev_cases) auto
  from p show "nx y = hd (ys @ [nil])" by (cases ys) auto
  then show "nx y = nil \<longleftrightarrow> ys = []" using n by (cases ys) auto
qed

text \<open>Unlinking an element by its neighbours' fields.\<close>

lemma dlist_unlink:
  assumes "dlist nil nx pv h (xs @ y # ys)"
  shows "dlist nil (if pv y \<noteq> nil then nx(pv y := nx y) else nx)
                   (if nx y \<noteq> nil then pv(nx y := pv y) else pv)
                   (if pv y = nil then nx y else h) (xs @ ys)"
proof -
  note f = dlist_split_fields [OF assms]
  from assms have d: "distinct (xs @ y # ys)" "nil \<notin> set (xs @ y # ys)"
    and p1: "dpath nx pv nil h xs y"
    and p2: "dpath nx pv y (nx y) ys nil"
    by (auto simp: dlist_def dpath_append)
  show ?thesis
  proof (cases xs rule: rev_cases)
    case Nil
    with f p2 d show ?thesis by (cases ys) (auto simp: dlist_def)
  next
    case (snoc zs z)
    have pz: "pv y = z" "z \<noteq> nil" using f snoc d by auto
    have "dpath (nx(z := nx y)) pv nil h xs (nx y)"
      using p1 d unfolding snoc by (intro dpath_set_tail) auto
    moreover have "dpath (nx(z := nx y)) (if nx y \<noteq> nil then pv(nx y := z) else pv) z (nx y) ys nil"
      using p2 d f snoc by (cases ys) auto
    moreover have "nx y \<noteq> nil \<Longrightarrow> nx y \<notin> set xs"
      using f d by (cases ys) auto
    ultimately show ?thesis
      using d pz snoc by (auto simp: dlist_def dpath_append)
  qed
qed

section \<open>Circles\<close>

text \<open>A non-empty list closed to a circle, seen from its first element.\<close>

definition circ :: "('a \<Rightarrow> 'a) \<Rightarrow> ('a \<Rightarrow> 'a) \<Rightarrow> 'a list \<Rightarrow> bool" where
  "circ nx pv xs \<longleftrightarrow> xs \<noteq> [] \<and> distinct xs \<and> dpath nx pv (last xs) (hd xs) xs (hd xs)"

lemma circ_upd_nx [simp]: "a \<notin> set xs \<Longrightarrow> circ (nx(a := v)) pv xs = circ nx pv xs"
  by (simp add: circ_def)

lemma circ_upd_pv [simp]: "a \<notin> set xs \<Longrightarrow> circ nx (pv(a := v)) xs = circ nx pv xs"
  by (simp add: circ_def)

lemma circ_single [simp]: "circ nx pv [a] \<longleftrightarrow> nx a = a \<and> pv a = a"
  by (auto simp: circ_def)

lemma circ_cong:
  "(\<And>x. x \<in> set xs \<Longrightarrow> nx x = nx' x) \<Longrightarrow> (\<And>x. x \<in> set xs \<Longrightarrow> pv x = pv' x) \<Longrightarrow>
   circ nx pv xs = circ nx' pv' xs"
  unfolding circ_def using dpath_cong [of xs nx nx' pv pv'] by simp

lemma circ_rotate: "circ nx pv (xs @ ys) \<Longrightarrow> circ nx pv (ys @ xs)"
proof (cases "xs = [] \<or> ys = []")
  case False
  assume c: "circ nx pv (xs @ ys)"
  then have d: "distinct (xs @ ys)" by (simp add: circ_def)
  from c False obtain m where
    m: "dpath nx pv (last ys) (hd xs) xs m" "dpath nx pv (last xs) m ys (hd xs)"
    by (auto simp: circ_def dpath_append)
  then have "m = hd ys" using dpath_head False by metis
  with m False d show ?thesis by (auto simp: circ_def dpath_append)
qed auto

lemma circ_fields:
  assumes "circ nx pv (xs @ a # ys)"
  shows "nx a = hd (ys @ xs @ [a])" and "pv a = last (a # ys @ xs)"
proof -
  have "circ nx pv (a # ys @ xs)" using circ_rotate [OF assms] by simp
  then have "dpath nx pv (last (a # ys @ xs)) a (a # ys @ xs) a" by (simp add: circ_def)
  then have "pv a = last (a # ys @ xs)" "dpath nx pv a (nx a) (ys @ xs) a" by simp_all
  then show "pv a = last (a # ys @ xs)" "nx a = hd (ys @ xs @ [a])"
    using dpath_head [of nx pv a "nx a" "ys @ xs" a] by (auto simp: hd_append)
qed

lemma circ_hd_last:
  assumes "circ nx pv xs"
  shows "pv (hd xs) = last xs" and "nx (last xs) = hd xs"
proof -
  from assms have "xs \<noteq> []" by (simp add: circ_def)
  then obtain a ys zs b where x: "xs = a # ys" "xs = zs @ [b]" by (metis list.exhaust rev_exhaust)
  have "pv a = last (a # ys @ [])" using circ_fields(2) [of nx pv "[]" a ys] assms x(1) by simp
  then show "pv (hd xs) = last xs" using x(1) by simp
  have "nx b = hd (zs @ [b])" using circ_fields(1) [of nx pv zs b "[]"] assms x(2) by simp
  then show "nx (last xs) = hd xs" using x(2) by simp
qed

text \<open>Closing a circle over the gap that its first element leaves.\<close>

lemma circ_remove_hd:
  assumes "circ nx pv (a # xs)" and "xs \<noteq> []"
  shows "circ (nx(last xs := hd xs)) (pv(hd xs := last xs)) xs"
proof -
  have d: "distinct (a # xs)" and p: "dpath nx pv a (nx a) xs a"
    using assms by (auto simp: circ_def)
  have "nx a = hd xs" using p assms(2) dpath_head by metis
  with p have p: "dpath nx pv a (hd xs) xs a" by simp
  obtain ys b where x: "xs = ys @ [b]" using assms(2) by (metis rev_exhaust)
  have "dpath (nx(b := hd xs)) pv a (hd xs) (ys @ [b]) (hd xs)"
    using p d x by (intro dpath_set_tail [where t = a]) auto
  then have q: "dpath (nx(last xs := hd xs)) pv a (hd xs) xs (hd xs)" using x by simp
  obtain c zs where z: "xs = c # zs" using assms(2) by (cases xs) auto
  have "dpath (nx(last xs := hd xs)) (pv(c := last xs)) (last xs) (hd xs) (c # zs) (hd xs)"
    using q d z by (intro dpath_set_prev) auto
  then show ?thesis using d z by (simp add: circ_def)
qed

text \<open>Unlinking any element of a larger circle by its neighbours' fields.\<close>

lemma circ_remove:
  assumes "circ nx pv (xs @ a # ys)" and "xs @ ys \<noteq> []"
  shows "circ (nx(pv a := nx a)) (pv(nx a := pv a)) (xs @ ys)"
proof -
  have c: "circ nx pv (a # ys @ xs)" using circ_rotate [OF assms(1)] by simp
  have ne: "ys @ xs \<noteq> []" using assms(2) by auto
  have "nx a = hd (ys @ xs)" "pv a = last (ys @ xs)"
    using circ_fields [OF assms(1)] ne by (auto simp: hd_append)
  then have "circ (nx(pv a := nx a)) (pv(nx a := pv a)) (ys @ xs)"
    using circ_remove_hd [OF c ne] by simp
  then show ?thesis by (rule circ_rotate)
qed

text \<open>Appending an element: it goes between the last and the first.\<close>

lemma circ_append:
  assumes "circ nx pv xs" and "a \<notin> set xs"
  shows "circ (nx(a := hd xs, last xs := a)) (pv(a := last xs, hd xs := a)) (xs @ [a])"
proof -
  have d: "distinct xs" and ne: "xs \<noteq> []" and p: "dpath nx pv (last xs) (hd xs) xs (hd xs)"
    using assms(1) by (auto simp: circ_def)
  obtain ys b where x: "xs = ys @ [b]" using ne by (metis rev_exhaust)
  have "dpath (nx(b := a)) pv (last xs) (hd xs) (ys @ [b]) a"
    using p d x by (intro dpath_set_tail [where t = "hd xs"]) auto
  then have q: "dpath (nx(last xs := a)) pv (last xs) (hd xs) xs a" using x by simp
  obtain c zs where z: "xs = c # zs" using ne by (cases xs) auto
  have "dpath (nx(last xs := a)) (pv(c := a)) a (hd xs) (c # zs) a"
    using q d z by (intro dpath_set_prev) auto
  then have q2: "dpath (nx(last xs := a)) (pv(hd xs := a)) a (hd xs) xs a" using z by simp
  have "a \<noteq> hd xs" "a \<noteq> last xs" using assms(2) ne by auto
  moreover have "dpath (nx(a := hd xs, last xs := a)) (pv(a := last xs, hd xs := a)) a (hd xs) xs a"
    using q2 assms(2)
    by (simp add: fun_upd_twist [OF \<open>a \<noteq> hd xs\<close>] fun_upd_twist [OF \<open>a \<noteq> last xs\<close>])
  ultimately show ?thesis
    using d ne assms(2) by (auto simp: circ_def dpath_append)
qed

end
