(* ===== verification/Blocks.thy ===== *)
theory Blocks
  imports Prelude
begin

text \<open>
  Power-of-two blocks of page indices: the specification side of the buddy allocator. A block
  of order \<open>k\<close> at index \<open>i\<close> is the set of indices that agree with \<open>i\<close> above bit \<open>k\<close>; its
  buddy differs from it in bit \<open>k\<close> alone. Splitting and merging keep a partition of the
  managed indices.
\<close>

section \<open>Blocks and buddies\<close>

definition blk :: "nat \<Rightarrow> u64 \<Rightarrow> u64 set" where
  "blk k i = {j. drop_bit k j = drop_bit k i}"

definition aligned :: "nat \<Rightarrow> u64 \<Rightarrow> bool" where
  "aligned k i \<longleftrightarrow> take_bit k i = 0"

definition buddy :: "nat \<Rightarrow> u64 \<Rightarrow> u64" where
  "buddy k i = i XOR shl1 k"

lemma mem_blk: "j \<in> blk k i \<longleftrightarrow> (\<forall>n\<ge>k. bit j n \<longleftrightarrow> bit i n)"
proof
  assume "j \<in> blk k i"
  then have eq: "drop_bit k j = drop_bit k i" by (simp add: blk_def)
  show "\<forall>n\<ge>k. bit j n \<longleftrightarrow> bit i n"
  proof (intro allI impI)
    fix n assume "k \<le> n"
    then obtain m where n: "n = k + m" by (auto simp: le_iff_add)
    from eq have "bit (drop_bit k j) m = bit (drop_bit k i) m" by simp
    then show "bit j n \<longleftrightarrow> bit i n" by (simp add: n bit_simps)
  qed
next
  assume "\<forall>n\<ge>k. bit j n \<longleftrightarrow> bit i n"
  then have "drop_bit k j = drop_bit k i" by (intro bit_eqI) (simp add: bit_simps)
  then show "j \<in> blk k i" by (simp add: blk_def)
qed

lemma aligned_bits: "aligned k i \<longleftrightarrow> (\<forall>n<k. \<not> bit i n)"
proof
  assume "aligned k i"
  then have "take_bit k i = 0" by (simp add: aligned_def)
  then have "\<And>n. bit (take_bit k i) n = bit (0::u64) n" by simp
  then show "\<forall>n<k. \<not> bit i n" by (simp add: bit_simps)
next
  assume "\<forall>n<k. \<not> bit i n"
  then show "aligned k i" unfolding aligned_def by (intro bit_eqI) (auto simp: bit_simps)
qed

lemma bit_buddy: "bit (buddy k i) n \<longleftrightarrow> (if n = k \<and> n < 64 then \<not> bit i n else bit i n)"
  by (auto simp: buddy_def bit_simps bit_shl1)

lemma bit_clear: "bit (i AND NOT (shl1 k)) n \<longleftrightarrow> bit i n \<and> n \<noteq> k"
proof (cases "n < 64")
  case True
  then show ?thesis by (auto simp: bit_simps bit_shl1)
next
  case False
  then show ?thesis by (auto dest: bit_imp_le_length)
qed

lemma self_in_blk [simp, blocks]: "i \<in> blk k i"
  by (simp add: mem_blk)

lemma blk_buddy_disjoint [blocks]: "k < 64 \<Longrightarrow> blk k i \<inter> blk k (buddy k i) = {}"
  by (force simp: mem_blk bit_buddy)

lemma blk_Suc [blocks]: "k < 64 \<Longrightarrow> blk (Suc k) i = blk k i \<union> blk k (buddy k i)"
proof (rule set_eqI)
  fix j assume k: "k < 64"
  show "j \<in> blk (Suc k) i \<longleftrightarrow> j \<in> blk k i \<union> blk k (buddy k i)"
  proof (cases "bit j k = bit i k")
    case True
    then have "j \<in> blk (Suc k) i \<longleftrightarrow> j \<in> blk k i"
      unfolding mem_blk by (metis Suc_leI Suc_leD le_eq_less_or_eq)
    moreover have "j \<notin> blk k (buddy k i)" using True k by (force simp: mem_blk bit_buddy)
    ultimately show ?thesis by simp
  next
    case False
    then have "j \<in> blk (Suc k) i \<longleftrightarrow> j \<in> blk k (buddy k i)"
      using k unfolding mem_blk bit_buddy
      by (metis Suc_leI Suc_leD le_eq_less_or_eq not_less_eq_eq order_refl)
    moreover have "j \<notin> blk k i" using False by (auto simp: mem_blk)
    ultimately show ?thesis by simp
  qed
qed

lemma blk_clear [blocks]: "blk (Suc k) (i AND NOT (shl1 k)) = blk (Suc k) i"
  by (auto simp: mem_blk bit_clear)

lemma aligned_clear [blocks]: "aligned k i \<Longrightarrow> aligned (Suc k) (i AND NOT (shl1 k))"
  by (auto simp: aligned_bits bit_clear less_Suc_eq)

lemma aligned_buddy [blocks]: "aligned k i \<Longrightarrow> aligned k (buddy k i)"
  by (auto simp: aligned_bits bit_buddy)

lemma aligned_SucD [blocks]: "aligned (Suc k) i \<Longrightarrow> aligned k i"
  by (simp add: aligned_bits)

lemma buddy_add [blocks]:
  assumes "aligned (Suc k) i"
  shows "i + shl1 k = buddy k i"
proof -
  have "i AND shl1 k = 0"
    using assms by (intro bit_eqI) (auto simp: bit_simps bit_shl1 aligned_bits)
  then have "i + shl1 k = i OR shl1 k" by (rule word_add_eq_or)
  also have "\<dots> = buddy k i"
    using assms by (intro bit_eqI) (auto simp: bit_simps bit_shl1 bit_buddy aligned_bits)
  finally show ?thesis .
qed

lemma buddy_buddy [simp]: "buddy k (buddy k i) = i"
  by (intro bit_eqI) (auto simp: bit_buddy)

lemma clear_buddy: "buddy k i AND NOT (shl1 k) = i AND NOT (shl1 k)"
  by (intro bit_eqI) (auto simp: bit_clear bit_buddy)

lemma clear_cases: "i AND NOT (shl1 k) = i \<or> i AND NOT (shl1 k) = buddy k i"
proof (cases "bit i k")
  case True
  then have "i AND NOT (shl1 k) = buddy k i"
    by (intro bit_eqI) (auto simp: bit_clear bit_buddy)
  then show ?thesis ..
next
  case False
  then have "i AND NOT (shl1 k) = i"
    by (intro bit_eqI) (auto simp: bit_clear)
  then show ?thesis ..
qed

lemma buddy_neq: "k < 64 \<Longrightarrow> buddy k i \<noteq> i"
  by (metis bit_buddy)

lemma blk_0 [simp]: "blk 0 i = {i}"
  by (auto simp: blk_def)

lemma blk_eq: "j \<in> blk k i \<Longrightarrow> blk k j = blk k i"
  by (auto simp: blk_def)

text \<open>An aligned block is an interval of \<open>2 ^ k\<close> indices.\<close>

lemma unat_div_drop: "unat (drop_bit k (j::u64)) = unat j div 2 ^ k"
  by (simp only: unat_drop_bit_eq drop_bit_eq_div [of k "unat j"])

lemma aligned_dvd: "aligned k i \<longleftrightarrow> 2 ^ k dvd unat i"
proof -
  have "aligned k i \<longleftrightarrow> unat (take_bit k i) = 0" by (simp add: aligned_def unat_eq_0)
  also have "unat (take_bit k i) = unat i mod 2 ^ k"
    by (simp only: unsigned_take_bit_eq take_bit_eq_mod [of k "unat i"])
  finally show ?thesis by (simp add: mod_eq_0_iff_dvd)
qed

lemma blk_interval:
  assumes "aligned k i"
  shows "blk k i = {j. unat i \<le> unat j \<and> unat j < unat i + 2 ^ k}"
proof -
  from assms obtain q where q: "unat i = 2 ^ k * q" by (auto simp: aligned_dvd)
  have "\<And>j. j \<in> blk k i \<longleftrightarrow> unat j div 2 ^ k = unat i div 2 ^ k"
    by (simp add: blk_def word_unat_eq_iff unat_div_drop)
  moreover have "\<And>n. n div 2 ^ k = q \<longleftrightarrow> 2 ^ k * q \<le> n \<and> n < 2 ^ k * q + 2 ^ k"
  proof -
    fix n :: nat
    have "n div 2 ^ k = q \<longleftrightarrow> q * 2 ^ k \<le> n \<and> n < Suc q * 2 ^ k"
      by (auto simp: split_div' algebra_simps dividend_less_times_div div_nat_eqI)
    then show "n div 2 ^ k = q \<longleftrightarrow> 2 ^ k * q \<le> n \<and> n < 2 ^ k * q + 2 ^ k"
      by (simp add: algebra_simps)
  qed
  ultimately show ?thesis by (auto simp: q)
qed

section \<open>Partitions into blocks\<close>

definition blk_of :: "u64 \<times> nat \<Rightarrow> u64 set" where
  "blk_of p = blk (snd p) (fst p)"

definition partitioned :: "(u64 \<times> nat) set \<Rightarrow> u64 set \<Rightarrow> bool" where
  "partitioned P U \<longleftrightarrow>
     (\<forall>p\<in>P. snd p < 12 \<and> aligned (snd p) (fst p)) \<and>
     pairwise (\<lambda>p q. blk_of p \<inter> blk_of q = {}) P \<and>
     \<Union>(blk_of ` P) = U"

lemma partitioned_order [blocks]: "partitioned P U \<Longrightarrow> (i, k) \<in> P \<Longrightarrow> k < 12"
  by (force simp: partitioned_def)

lemma partitioned_aligned [blocks]: "partitioned P U \<Longrightarrow> (i, k) \<in> P \<Longrightarrow> aligned k i"
  by (force simp: partitioned_def)

lemma partitioned_subset [blocks]: "partitioned P U \<Longrightarrow> (i, k) \<in> P \<Longrightarrow> blk k i \<subseteq> U"
  by (force simp: partitioned_def blk_of_def)

lemma partitioned_mem [blocks]: "partitioned P U \<Longrightarrow> (i, k) \<in> P \<Longrightarrow> i \<in> U"
  using partitioned_subset by fastforce

lemma partitioned_disjoint [blocks]:
  "partitioned P U \<Longrightarrow> (i, k) \<in> P \<Longrightarrow> (j, m) \<in> P \<Longrightarrow> (i, k) \<noteq> (j, m) \<Longrightarrow> blk k i \<inter> blk m j = {}"
  by (force simp: partitioned_def pairwise_def blk_of_def)

lemma partitioned_functional [blocks]:
  "partitioned P U \<Longrightarrow> (i, k) \<in> P \<Longrightarrow> (i, m) \<in> P \<Longrightarrow> k = m"
  using partitioned_disjoint self_in_blk by (metis IntI Pair_inject empty_iff)

lemma partitioned_not_in_blk:
  "partitioned P U \<Longrightarrow> (i, k) \<in> P \<Longrightarrow> (j, m) \<in> P \<Longrightarrow> j \<in> blk k i \<Longrightarrow> i = j"
  using partitioned_disjoint self_in_blk by (metis IntI Pair_inject empty_iff)

text \<open>Adding or removing one block.\<close>

lemma partitioned_insert:
  assumes n: "p \<notin> P"
  shows "partitioned (insert p P) U \<longleftrightarrow>
    snd p < 12 \<and> aligned (snd p) (fst p) \<and> blk_of p \<subseteq> U \<and> partitioned P (U - blk_of p)"
    (is "?l \<longleftrightarrow> ?r")
proof
  assume l: ?l
  then have d: "\<And>q. q \<in> P \<Longrightarrow> blk_of p \<inter> blk_of q = {}"
    using n by (auto simp: partitioned_def pairwise_insert)
  with l have "\<Union>(blk_of ` P) = U - blk_of p" by (auto simp: partitioned_def)
  then show ?r using l by (auto simp: partitioned_def pairwise_insert)
next
  assume r: ?r
  then have "\<And>q. q \<in> P \<Longrightarrow> blk_of p \<inter> blk_of q = {}"
    by (auto simp: partitioned_def)
  with r show ?l by (auto simp: partitioned_def pairwise_insert)
qed

lemma blk_of_pair: "blk_of (i, k) = blk k i"
  by (simp add: blk_of_def)

text \<open>Splitting a block into its two halves.\<close>

lemma partitioned_split:
  assumes p: "partitioned (insert (i, Suc k) P) U" and n: "(i, Suc k) \<notin> P"
    and n': "(i, k) \<notin> P" "(buddy k i, k) \<notin> P"
  shows "partitioned (insert (i, k) (insert (buddy k i, k) P)) U"
proof -
  from p n have k: "Suc k < 12" and a: "aligned (Suc k) i"
    and r: "blk (Suc k) i \<subseteq> U" "partitioned P (U - blk (Suc k) i)"
    by (simp_all add: partitioned_insert blk_of_pair)
  have b: "blk (Suc k) i = blk k i \<union> blk k (buddy k i)" using k by (simp add: blk_Suc)
  have d: "blk k i \<inter> blk k (buddy k i) = {}" using k by (simp add: blk_buddy_disjoint)
  have m: "(i, k) \<notin> insert (buddy k i, k) P" using n' k buddy_neq [of k i] by auto
  have "U - blk k i - blk k (buddy k i) = U - blk (Suc k) i" by (auto simp: b)
  then show ?thesis
    using r k d a n' m by (auto simp: partitioned_insert blk_of_pair b intro: aligned_SucD aligned_buddy)
qed

text \<open>Merging two buddies.\<close>

lemma partitioned_merge:
  assumes p: "partitioned (insert (i, k) (insert (buddy k i, k) P)) U" and k: "Suc k < 12"
    and n: "(i, k) \<notin> P" "(buddy k i, k) \<notin> P" "(i AND NOT (shl1 k), Suc k) \<notin> P"
  shows "partitioned (insert (i AND NOT (shl1 k), Suc k) P) U"
proof -
  have b: "blk (Suc k) (i AND NOT (shl1 k)) = blk k i \<union> blk k (buddy k i)"
    using k by (simp only: blk_clear blk_Suc)
  have m: "(i, k) \<notin> insert (buddy k i, k) P" using n k buddy_neq [of k i] by auto
  have "aligned k i" using p by (auto simp: partitioned_def)
  then have a: "aligned (Suc k) (i AND NOT (shl1 k))" by (rule aligned_clear)
  have "U - blk k i - blk k (buddy k i) = U - blk (Suc k) (i AND NOT (shl1 k))" by (auto simp: b)
  then show ?thesis
    using p k n m a by (auto simp: partitioned_insert blk_of_pair b)
qed

end
