(* ===== verification/Kalloc.thy ===== *)
theory Kalloc
  imports DList Blocks
begin

text \<open>
  The physical page allocator of \<open>kernel/kalloc.c\<close>: a binary buddy allocator over the page
  metadata array, with one doubly linked free list per order. Orders are natural numbers
  (the code panics from 12 on, so an \<open>unsigned int\<close> order never wraps); page indices,
  addresses and sizes are 64-bit words. The spinlock is a field of the state: acquiring it
  while it is held is an endless loop for the only hart that runs.
\<close>

abbreviation MAX_ORDER :: nat where "MAX_ORDER \<equiv> 12"

text \<open>The null index of the free lists.\<close>

abbreviation NIL :: u64 where "NIL \<equiv> 0xFFFFFFFF"

section \<open>State\<close>

record page =
  order :: nat
  flag :: u32
  next_idx :: u64
  prev_idx :: u64
  alloc_caller :: u64

text \<open>
  \<open>ram\<close> of \<open>dtb.c\<close> (\<open>ram_base\<close>, \<open>ram_size\<close>), the globals \<open>page_array\<close> and \<open>free_lists\<close>
  of \<open>kalloc.c\<close>, and \<open>kalloc_lock\<close> of \<open>smp.c\<close>.
\<close>

record kmem =
  ram_base :: u64
  ram_size :: u64
  page_array :: "u64 \<Rightarrow> page"
  free_lists :: "nat \<Rightarrow> u64"
  kalloc_lock :: u64

definition total_pages :: "'a kmem_scheme \<Rightarrow> u64" where
  "total_pages s = ram_size s div 4096"

definition upd_page :: "u64 \<Rightarrow> (page \<Rightarrow> page) \<Rightarrow> 'a kmem_scheme \<Rightarrow> 'a kmem_scheme" where
  "upd_page i f s = s\<lparr>page_array := (page_array s)(i := f (page_array s i))\<rparr>"

definition set_free_list :: "nat \<Rightarrow> u64 \<Rightarrow> 'a kmem_scheme \<Rightarrow> 'a kmem_scheme" where
  "set_free_list k i s = s\<lparr>free_lists := (free_lists s)(k := i)\<rparr>"

text \<open>
  \<open>amoswap.d.aq\<close> in a loop until the old value is zero: with no other hart to release it, a
  held lock is spun on for ever.
\<close>

definition spinlock_acquire :: "u64 \<Rightarrow> u64 outcome" where
  "spinlock_acquire l = (if l \<noteq> 0 then Hang else Ret 1)"

definition spinlock_release :: "u64 \<Rightarrow> u64" where
  "spinlock_release l = 0"

section \<open>Allocation\<close>

text \<open>The loop that looks for a non-empty list, from the requested order upwards.\<close>

function kalloc_search :: "'a kmem_scheme \<Rightarrow> nat \<Rightarrow> u64 \<Rightarrow> (nat \<times> u64) outcome" where
  "kalloc_search s curr_order idx =
     (if idx = NIL then
        (if Suc curr_order \<ge> MAX_ORDER then Panic 101 0
         else kalloc_search s (Suc curr_order) (free_lists s (Suc curr_order)))
      else Ret (curr_order, idx))"
  by pat_completeness auto
termination
  by (relation "measure (\<lambda>(s, k, i). MAX_ORDER - k)") auto

declare kalloc_search.simps [simp del]

text \<open>Taking the head off a free list.\<close>

definition kalloc_pop :: "nat \<Rightarrow> u64 \<Rightarrow> 'a kmem_scheme \<Rightarrow> 'a kmem_scheme" where
  "kalloc_pop curr_order idx s =
     (let s = set_free_list curr_order (next_idx (page_array s idx)) s;
          curr_head = free_lists s curr_order
      in if curr_head \<noteq> NIL then upd_page curr_head (\<lambda>p. p\<lparr>prev_idx := NIL\<rparr>) s else s)"

text \<open>One round of the splitting loop: the upper half goes to the list below.\<close>

definition kalloc_split_step :: "u64 \<Rightarrow> nat \<Rightarrow> 'a kmem_scheme \<Rightarrow> 'a kmem_scheme" where
  "kalloc_split_step idx curr_order s =
     (let buddy_idx = idx + shl1 curr_order;
          s = upd_page buddy_idx (\<lambda>p. p\<lparr>order := curr_order\<rparr>) s;
          s = upd_page buddy_idx (\<lambda>p. p\<lparr>flag := 0\<rparr>) s;
          s = upd_page buddy_idx (\<lambda>p. p\<lparr>next_idx := free_lists s curr_order\<rparr>) s;
          s = set_free_list curr_order buddy_idx s;
          prev_page = next_idx (page_array s buddy_idx);
          s = (if prev_page \<noteq> NIL then upd_page prev_page (\<lambda>p. p\<lparr>prev_idx := buddy_idx\<rparr>) s else s)
      in upd_page buddy_idx (\<lambda>p. p\<lparr>prev_idx := NIL\<rparr>) s)"

fun kalloc_split :: "u64 \<Rightarrow> nat \<Rightarrow> nat \<Rightarrow> 'a kmem_scheme \<Rightarrow> 'a kmem_scheme" where
  "kalloc_split idx req 0 s = s"
| "kalloc_split idx req (Suc curr_order) s =
     (if Suc curr_order > req
      then kalloc_split idx req curr_order (kalloc_split_step idx curr_order s)
      else s)"

text \<open>Marking the block as allocated.\<close>

definition kalloc_take :: "u64 \<Rightarrow> nat \<Rightarrow> u64 \<Rightarrow> 'a kmem_scheme \<Rightarrow> 'a kmem_scheme" where
  "kalloc_take idx k caller s =
     upd_page idx (\<lambda>p. p\<lparr>flag := 1, order := k, next_idx := NIL, prev_idx := NIL,
       alloc_caller := caller\<rparr>) s"

definition kalloc :: "nat \<Rightarrow> u64 \<Rightarrow> 'a kmem_scheme \<Rightarrow> (u64 \<times> 'a kmem_scheme) outcome" where
  "kalloc ord caller s =
     bindO (spinlock_acquire (kalloc_lock s)) (\<lambda>l.
     let s = s\<lparr>kalloc_lock := l\<rparr> in
     if ord \<ge> MAX_ORDER then Panic 100 (of_nat ord)
     else bindO (kalloc_search s ord (free_lists s ord)) (\<lambda>(curr_order, idx).
       let s = kalloc_pop curr_order idx s;
           s = kalloc_split idx ord curr_order s;
           s = kalloc_take idx ord caller s;
           phys_addr = ram_base s + idx * 4096
       in Ret (phys_addr, s\<lparr>kalloc_lock := spinlock_release (kalloc_lock s)\<rparr>)))"

section \<open>Release\<close>

text \<open>Unlinking a free buddy and clearing its metadata.\<close>

definition kfree_unlink :: "u64 \<Rightarrow> nat \<Rightarrow> 'a kmem_scheme \<Rightarrow> 'a kmem_scheme" where
  "kfree_unlink b k s =
     (let s = (if prev_idx (page_array s b) = NIL
               then set_free_list k (next_idx (page_array s b)) s else s);
          s = (if prev_idx (page_array s b) \<noteq> NIL
               then upd_page (prev_idx (page_array s b))
                      (\<lambda>p. p\<lparr>next_idx := next_idx (page_array s b)\<rparr>) s else s);
          s = (if next_idx (page_array s b) \<noteq> NIL
               then upd_page (next_idx (page_array s b))
                      (\<lambda>p. p\<lparr>prev_idx := prev_idx (page_array s b)\<rparr>) s else s)
      in upd_page b (\<lambda>p. p\<lparr>flag := 2, order := 0, prev_idx := NIL, next_idx := NIL,
           alloc_caller := 0\<rparr>) s)"

text \<open>The coalescing loop: the block grows while its buddy is a free block of the same order.\<close>

function kfree_merge :: "u64 \<Rightarrow> nat \<Rightarrow> 'a kmem_scheme \<Rightarrow> (u64 \<times> nat \<times> 'a kmem_scheme)" where
  "kfree_merge idx k s =
     (if k < MAX_ORDER - 1 then
        (let buddy_idx = idx XOR shl1 k in
         if buddy_idx \<ge> total_pages s then (idx, k, s)
         else if flag (page_array s buddy_idx) \<noteq> 0 then (idx, k, s)
         else if order (page_array s buddy_idx) \<noteq> k then (idx, k, s)
         else kfree_merge (idx AND NOT (shl1 k)) (Suc k) (kfree_unlink buddy_idx k s))
      else (idx, k, s))"
  by pat_completeness auto
termination
  by (relation "measure (\<lambda>(i, k, s). MAX_ORDER - k)") auto

declare kfree_merge.simps [simp del]

text \<open>Putting the grown block at the front of its list.\<close>

definition kfree_insert :: "u64 \<Rightarrow> nat \<Rightarrow> 'a kmem_scheme \<Rightarrow> 'a kmem_scheme" where
  "kfree_insert idx k s =
     (let s = upd_page idx (\<lambda>p. p\<lparr>flag := 0, order := k, next_idx := free_lists s k\<rparr>) s;
          prev_page = next_idx (page_array s idx);
          s = (if prev_page \<noteq> NIL then upd_page prev_page (\<lambda>p. p\<lparr>prev_idx := idx\<rparr>) s else s);
          s = set_free_list k idx s
      in upd_page idx (\<lambda>p. p\<lparr>prev_idx := NIL, alloc_caller := 0\<rparr>) s)"

definition kfree :: "u64 \<Rightarrow> 'a kmem_scheme \<Rightarrow> 'a kmem_scheme outcome" where
  "kfree phys_addr s =
     bindO (spinlock_acquire (kalloc_lock s)) (\<lambda>l.
     let s = s\<lparr>kalloc_lock := l\<rparr> in
     if phys_addr AND 0xFFF \<noteq> 0 then Panic 104 phys_addr
     else
       let idx = (phys_addr - ram_base s) div 4096 in
       if idx \<ge> total_pages s then Panic 102 phys_addr
       else if flag (page_array s idx) = 0 then Panic 103 phys_addr
       else if flag (page_array s idx) = 2 then Panic 105 phys_addr
       else
         let (idx, k, s) = kfree_merge idx (order (page_array s idx)) s;
             s = kfree_insert idx k s
         in Ret (s\<lparr>kalloc_lock := spinlock_release (kalloc_lock s)\<rparr>))"

section \<open>Initialisation\<close>

text \<open>
  \<open>kalloc_init\<close> after \<open>dtb_parser_ram\<close> has set \<open>ram\<close>; \<open>bss_end\<close> is the linker's \<open>_bss_end\<close>.
  The first loop writes every page's metadata, the second every list head, so both are the
  functions they compute.
\<close>

definition metadata_start :: "u64 \<Rightarrow> u64" where
  "metadata_start bss_end = (bss_end + 0xFFF) AND NOT 0xFFF"

definition metadata_blob_size :: "u64 \<Rightarrow> u64" where
  "metadata_blob_size npages = npages * 32 + 12 * 16"

definition max_block_size :: u64 where
  "max_block_size = shl1 (MAX_ORDER - 1) * 4096"

definition free_pool_start :: "u64 \<Rightarrow> 'a kmem_scheme \<Rightarrow> u64" where
  "free_pool_start bss_end s =
     (let metadata_end = metadata_start bss_end + metadata_blob_size (total_pages s);
          alignment_mask = max_block_size - 1
      in (metadata_end + alignment_mask) AND NOT alignment_mask)"

definition kalloc_init_arrays :: "'a kmem_scheme \<Rightarrow> 'a kmem_scheme" where
  "kalloc_init_arrays s =
     s\<lparr>page_array := (\<lambda>i. if i < total_pages s
         then (page_array s i)\<lparr>order := 0, flag := 2, next_idx := NIL, prev_idx := NIL\<rparr>
         else page_array s i),
       free_lists := (\<lambda>k. if k < MAX_ORDER then NIL else free_lists s k)\<rparr>"

definition kalloc_init_push :: "u64 \<Rightarrow> 'a kmem_scheme \<Rightarrow> 'a kmem_scheme" where
  "kalloc_init_push idx s =
     (let s = upd_page idx (\<lambda>p. p\<lparr>flag := 0, order := MAX_ORDER - 1,
                next_idx := free_lists s (MAX_ORDER - 1)\<rparr>) s;
          prev_page = next_idx (page_array s idx);
          s = set_free_list (MAX_ORDER - 1) idx s;
          s = (if prev_page \<noteq> NIL then upd_page prev_page (\<lambda>p. p\<lparr>prev_idx := idx\<rparr>) s else s)
      in upd_page idx (\<lambda>p. p\<lparr>prev_idx := NIL\<rparr>) s)"

text \<open>The pool loop, with one unit of fuel per maximal block up to the horizon.\<close>

fun kalloc_init_pool :: "nat \<Rightarrow> u64 \<Rightarrow> u64 \<Rightarrow> 'a kmem_scheme \<Rightarrow> 'a kmem_scheme outcome" where
  "kalloc_init_pool 0 cur horizon s = (if cur < horizon then Hang else Ret s)"
| "kalloc_init_pool (Suc fuel) cur horizon s =
     (if cur < horizon
      then kalloc_init_pool fuel (cur + max_block_size) horizon
             (kalloc_init_push ((cur - ram_base s) div 4096) s)
      else Ret s)"

definition kalloc_init :: "u64 \<Rightarrow> 'a kmem_scheme \<Rightarrow> 'a kmem_scheme outcome" where
  "kalloc_init bss_end s =
     (let start = free_pool_start bss_end s;
          pool_horizon = ram_base s + ram_size s
      in if start \<ge> pool_horizon then Panic 106 start
         else kalloc_init_pool (Suc (unat (pool_horizon - start) div unat max_block_size))
                start pool_horizon (kalloc_init_arrays s))"

end
