(* ===== verification/Memory.thy ===== *)
theory Memory
  imports Prelude
begin

text \<open>
  Physical memory as bytes, with the little-endian loads and stores of the target. The kernel
  addresses memory through identity mappings, so a C pointer is its address here. Two 64-bit
  accesses are independent when their addresses are at least eight bytes apart.
\<close>

type_synonym memory = "u64 \<Rightarrow> u8"

section \<open>Loads and stores\<close>

text \<open>\<open>n\<close> bytes from address \<open>a\<close> on, the first one least significant.\<close>

fun ld_bytes :: "nat \<Rightarrow> memory \<Rightarrow> u64 \<Rightarrow> u64" where
  "ld_bytes 0 m a = 0"
| "ld_bytes (Suc n) m a = ucast (m a) OR push_bit 8 (ld_bytes n m (a + 1))"

definition ld64 :: "memory \<Rightarrow> u64 \<Rightarrow> u64" where
  "ld64 m a = ld_bytes 8 m a"

definition byte_of :: "u64 \<Rightarrow> nat \<Rightarrow> u8" where
  "byte_of v k = ucast (drop_bit (8 * k) v)"

definition st64 :: "u64 \<Rightarrow> u64 \<Rightarrow> memory \<Rightarrow> memory" where
  "st64 a v m = (\<lambda>b. if b - a < 8 then byte_of v (unat (b - a)) else m b)"

text \<open>Clearing \<open>n\<close> consecutive 64-bit cells, the loop that every new page table runs.\<close>

fun zero64 :: "nat \<Rightarrow> u64 \<Rightarrow> memory \<Rightarrow> memory" where
  "zero64 0 a m = m"
| "zero64 (Suc n) a m = zero64 n (a + 8) (st64 a 0 m)"

text \<open>Narrow loads, and the byte loops of the program loader.\<close>

definition ld32 :: "memory \<Rightarrow> u64 \<Rightarrow> u32" where
  "ld32 m a = ucast (ld_bytes 4 m a)"

definition ld16 :: "memory \<Rightarrow> u64 \<Rightarrow> u16" where
  "ld16 m a = ucast (ld_bytes 2 m a)"

fun copy_bytes :: "nat \<Rightarrow> u64 \<Rightarrow> u64 \<Rightarrow> memory \<Rightarrow> memory" where
  "copy_bytes 0 dst src m = m"
| "copy_bytes (Suc n) dst src m = copy_bytes n (dst + 1) (src + 1) (m(dst := m src))"

definition st32 :: "u64 \<Rightarrow> u32 \<Rightarrow> memory \<Rightarrow> memory" where
  "st32 a v m = (\<lambda>b. if b - a < 4 then byte_of (ucast v) (unat (b - a)) else m b)"

fun put_bytes :: "u64 \<Rightarrow> u8 list \<Rightarrow> memory \<Rightarrow> memory" where
  "put_bytes a [] m = m"
| "put_bytes a (x # xs) m = put_bytes (a + 1) xs (m(a := x))"

fun fill_bytes :: "nat \<Rightarrow> u64 \<Rightarrow> memory \<Rightarrow> memory" where
  "fill_bytes 0 dst m = m"
| "fill_bytes (Suc n) dst m = fill_bytes n (dst + 1) (m(dst := 0))"

section \<open>A load after a store\<close>

lemma ld_bytes_numeral:
  "ld_bytes (numeral k) m a = ucast (m a) OR push_bit 8 (ld_bytes (pred_numeral k) m (a + 1))"
  by (simp add: numeral_eq_Suc)

lemma bit_ld_bytes:
  "k \<le> 8 \<Longrightarrow> bit (ld_bytes k m a) n \<longleftrightarrow>
     n < 8 * k \<and> bit (m (a + of_nat (n div 8))) (n mod 8)"
proof (induction k arbitrary: a n)
  case (Suc k)
  show ?case
  proof (cases "n < 8")
    case True
    then show ?thesis using Suc.prems by (auto simp: bit_simps)
  next
    case False
    then have n: "n = 8 + (n - 8)" "n div 8 = Suc ((n - 8) div 8)" "n mod 8 = (n - 8) mod 8"
      by (auto simp: div_if [of n] mod_if [of n])
    have "\<not> bit (m a) n" using False by (auto dest: bit_imp_le_length)
    then have "bit (ld_bytes (Suc k) m a) n \<longleftrightarrow> n < 64 \<and> bit (ld_bytes k m (a + 1)) (n - 8)"
      using False by (auto simp: bit_simps)
    also have "\<dots> \<longleftrightarrow> n - 8 < 8 * k \<and> bit (m (a + 1 + of_nat ((n - 8) div 8))) ((n - 8) mod 8)"
      using Suc by (subst Suc.IH) auto
    also have "a + 1 + of_nat ((n - 8) div 8) = a + of_nat (n div 8)"
      by (simp add: n(2))
    finally show ?thesis using False by (simp add: n(3) [symmetric]) auto
  qed
qed simp

lemma bit_ld64: "bit (ld64 m a) n \<longleftrightarrow> n < 64 \<and> bit (m (a + of_nat (n div 8))) (n mod 8)"
  by (simp add: ld64_def bit_ld_bytes)

lemma bit_byte_of: "bit (byte_of v k) n \<longleftrightarrow> n < 8 \<and> bit v (8 * k + n)"
  by (simp add: byte_of_def bit_simps)

lemma ld64_st64_same [simp]: "ld64 (st64 a v m) a = v"
proof (rule bit_word_eqI)
  fix n assume "n < LENGTH(64)"
  then have n: "n < 64" by simp
  then have d: "n div 8 < 8" by auto
  then have u: "unat (of_nat (n div 8) :: u64) = n div 8" by (simp add: unat_of_nat)
  then have "(of_nat (n div 8) :: u64) < 8" using d by (simp add: word_less_nat_alt)
  then show "bit (ld64 (st64 a v m) a) n \<longleftrightarrow> bit v n"
    using n u by (simp add: bit_ld64 st64_def bit_byte_of)
qed

text \<open>Independent cells.\<close>

definition apart :: "u64 \<Rightarrow> u64 \<Rightarrow> bool" where
  "apart a b \<longleftrightarrow> 8 \<le> b - a \<and> 8 \<le> a - b"

lemma apart_sym: "apart a b \<longleftrightarrow> apart b a"
  by (auto simp: apart_def)

lemma apart_byte:
  assumes "apart a b" and "k < 8"
  shows "\<not> b + of_nat k - a < 8"
proof
  let ?k = "of_nat k :: u64"
  assume l: "b + ?k - a < 8"
  have k: "unat ?k = k" using assms(2) by (simp add: unat_of_nat)
  have l': "unat (b + ?k - a) < 8" using l by (simp add: word_less_nat_alt)
  show False
  proof (cases "?k \<le> b + ?k - a")
    case True
    have "unat (b - a) = unat ((b + ?k - a) - ?k)" by (simp add: algebra_simps)
    also have "\<dots> = unat (b + ?k - a) - k" using unat_sub [OF True] by (simp add: k)
    finally have u: "unat (b - a) = unat (b + ?k - a) - k" .
    have "8 \<le> unat (b - a)" using assms(1) by (simp add: apart_def word_le_nat_alt)
    then show False using u l' by linarith
  next
    case False
    then have le: "b + ?k - a \<le> ?k" by simp
    have "unat (a - b) = unat (?k - (b + ?k - a))" by (simp add: algebra_simps)
    also have "\<dots> = k - unat (b + ?k - a)" using unat_sub [OF le] by (simp add: k)
    finally have u: "unat (a - b) = k - unat (b + ?k - a)" .
    have "8 \<le> unat (a - b)" using assms(1) by (simp add: apart_def word_le_nat_alt)
    then show False using u assms(2) by linarith
  qed
qed

lemma ld64_cong: "(\<And>k. k < 8 \<Longrightarrow> m (a + of_nat k) = m' (a + of_nat k)) \<Longrightarrow> ld64 m a = ld64 m' a"
  by (rule bit_eqI) (auto simp: bit_ld64)

lemma ld64_st64_apart [simp]: "apart a b \<Longrightarrow> ld64 (st64 a v m) b = ld64 m b"
  by (rule ld64_cong) (simp add: st64_def apart_byte)

section \<open>Cells of an array\<close>

text \<open>The cells of page-aligned arrays of 512 entries: equal, or apart.\<close>

definition page_base :: "u64 \<Rightarrow> bool" where
  "page_base p \<longleftrightarrow> unat p mod 4096 = 0"

abbreviation cell :: "u64 \<Rightarrow> u64 \<Rightarrow> u64" where
  "cell p i \<equiv> p + 8 * i"

lemma page_base_bound: "page_base p \<Longrightarrow> unat p + 4096 \<le> 2 ^ 64"
proof -
  assume "page_base p"
  then obtain q where q: "unat p = 4096 * q" by (auto simp: page_base_def)
  have "4096 * q < 4096 * 2 ^ 52" using unat64_less [of p] q by simp
  then have "q < 2 ^ 52" by simp
  then show ?thesis by (simp add: q)
qed

lemma unat_cell:
  assumes "page_base p" and "i < 512"
  shows "unat (cell p i) = unat p + 8 * unat i"
proof -
  have i: "unat i < 512" using assms(2) by (simp add: word_less_nat_alt)
  then have e: "unat (8 * i) = 8 * unat i" by (simp add: unat_word_ariths)
  have "unat p + 4096 \<le> 2 ^ 64" using assms(1) by (rule page_base_bound)
  then have "unat p + unat (8 * i) < 2 ^ LENGTH(64)" using i e by simp
  then show ?thesis using e by (simp add: unat_add_lem [THEN iffD1])
qed

lemma apart_off:
  assumes "8 \<le> unat d" and "unat d + 8 \<le> 2 ^ 64"
  shows "apart (a + d) a" and "apart a (a + d)"
proof -
  have "unat (0 - d) = 2 ^ 64 - unat d"
    using assms by (subst unat_sub_if_size) (auto simp: word_size)
  then show "apart (a + d) a" using assms by (simp add: apart_def word_le_nat_alt)
  then show "apart a (a + d)" by (simp only: apart_sym)
qed

lemma apart_nat:
  assumes "unat a + 8 \<le> unat b" and "unat b + 8 \<le> 2 ^ 64"
  shows "apart a b"
proof -
  have "unat (b - a) = unat b - unat a" using assms by (simp add: unat_sub word_le_nat_alt)
  then show ?thesis using apart_off(2) [of "b - a" a] assms by simp
qed

lemma cell_apart:
  assumes "page_base p" "page_base q" "i < 512" "j < 512" and "p \<noteq> q \<or> i \<noteq> j"
  shows "apart (cell p i) (cell q j)"
proof -
  have u: "unat (cell p i) = unat p + 8 * unat i" "unat (cell q j) = unat q + 8 * unat j"
    using assms by (simp_all add: unat_cell)
  have ij: "unat i < 512" "unat j < 512" using assms by (simp_all add: word_less_nat_alt)
  from assms(1,2) obtain x y where xy: "unat p = 4096 * x" "unat q = 4096 * y"
    by (auto simp: page_base_def elim!: dvdE)
  note b = page_base_bound [OF assms(1)] page_base_bound [OF assms(2)]
  have "unat p \<noteq> unat q \<or> unat i \<noteq> unat j" using assms(5) by (simp add: word_unat_eq_iff)
  then consider "x < y" | "y < x" | "x = y" "unat i < unat j" | "x = y" "unat j < unat i"
    using xy by force
  then show ?thesis
  proof cases
    case 1
    then have "unat (cell p i) + 8 \<le> unat (cell q j)" "unat (cell q j) + 8 \<le> 2 ^ 64" using u xy ij b by simp_all
    then show ?thesis by (rule apart_nat)
  next
    case 2
    then have "unat (cell q j) + 8 \<le> unat (cell p i)" "unat (cell p i) + 8 \<le> 2 ^ 64" using u xy ij b by simp_all
    then show ?thesis using apart_nat apart_sym by blast
  next
    case 3
    then have "unat (cell p i) + 8 \<le> unat (cell q j)" "unat (cell q j) + 8 \<le> 2 ^ 64" using u xy ij b by simp_all
    then show ?thesis by (rule apart_nat)
  next
    case 4
    then have "unat (cell q j) + 8 \<le> unat (cell p i)" "unat (cell p i) + 8 \<le> 2 ^ 64" using u xy ij b by simp_all
    then show ?thesis using apart_nat apart_sym by blast
  qed
qed

lemma ld64_cell [simp]:
  "page_base p \<Longrightarrow> page_base q \<Longrightarrow> i < 512 \<Longrightarrow> j < 512 \<Longrightarrow>
   ld64 (st64 (cell p i) v m) (cell q j) = (if q = p \<and> j = i then v else ld64 m (cell q j))"
  using cell_apart [of p q i j] by auto

text \<open>Clearing a page clears all its cells and no other.\<close>

lemma zero64_other:
  "(\<And>k. k < n \<Longrightarrow> apart (a + 8 * of_nat k) b) \<Longrightarrow> ld64 (zero64 n a m) b = ld64 m b"
proof (induction n arbitrary: a m)
  case (Suc n)
  have "apart a b" using Suc.prems [of 0] by simp
  moreover have "apart (a + 8 + 8 * of_nat k) b" if "k < n" for k
    using Suc.prems [of "Suc k"] that by (simp add: algebra_simps)
  ultimately show ?case using Suc.IH [of "a + 8"] by simp
qed simp

lemma zero64_page:
  assumes "page_base p" "page_base q" "j < 512"
  shows "ld64 (zero64 512 p m) (cell q j) = (if q = p then 0 else ld64 m (cell q j))"
proof (cases "q = p")
  case False
  have "apart (p + 8 * of_nat k) (cell q j)" if "k < 512" for k
  proof -
    have "(of_nat k :: u64) < 512" using that by (simp add: word_less_nat_alt unat_of_nat)
    then show ?thesis using assms False by (intro cell_apart) auto
  qed
  then show ?thesis using False by (simp add: zero64_other)
next
  case True
  have z: "ld64 (zero64 n a m) (a + 8 * of_nat k) = 0"
    if "k < n" "n \<le> 512" for n k and a :: u64 and m
    using that
  proof (induction n arbitrary: a m k)
    case (Suc n)
    show ?case
    proof (cases k)
      case 0
      have "apart (a + 8 + 8 * of_nat j) a" if "j < n" for j
      proof -
        have "unat (8 + 8 * of_nat j :: u64) = 8 + 8 * j"
          using that Suc.prems by (simp add: unat_word_ariths unat_of_nat)
        then show ?thesis using apart_off(1) [of "8 + 8 * of_nat j" a] that Suc.prems
          by (simp add: algebra_simps)
      qed
      then show ?thesis using 0 by (simp add: zero64_other)
    next
      case (Suc j)
      then show ?thesis using Suc.IH [of j "a + 8"] Suc.prems by (simp add: algebra_simps)
    qed
  qed simp
  have "j = of_nat (unat j)" by simp
  then show ?thesis using z [of "unat j" 512 p m] True assms(3)
    by (simp add: word_less_nat_alt)
qed

end
