(* ===== verification/PageTable.thy ===== *)
theory PageTable
  imports Kalloc Memory
begin

text \<open>
  The Sv39 page tables of \<open>kernel/vm.c\<close>: \<open>kvm_map\<close>, \<open>uvm_map\<close>, \<open>kvm_init\<close>,
  \<open>create_user_table\<close>, \<open>uvm_free\<close>, \<open>uvm_translate\<close> and \<open>uvm_unmap\<close>. The state is the page
  allocator's, extended by physical memory and the root table pointer. Tables are arrays of
  512 cells in that memory. The argument \<open>ca\<close> of an operation stands for the return
  addresses \<open>kalloc\<close> records as its callers.
\<close>

section \<open>State\<close>

record vmem = kmem +
  mem :: memory
  root_table :: u64
  satp :: u64

text \<open>What the linker script and the device tree fix: the bounds of the kernel's sections and
  the register windows.\<close>

record layout =
  text_start :: u64
  text_end :: u64
  rodata_start :: u64
  rodata_end :: u64
  data_start :: u64
  data_end :: u64
  bss_start :: u64
  bss_end :: u64
  user_trampoline :: u64
  uart_base :: u64
  clint_base :: u64
  plic_base :: u64

definition load :: "'a vmem_scheme \<Rightarrow> u64 \<Rightarrow> u64" where
  "load s a = ld64 (mem s) a"

definition store :: "u64 \<Rightarrow> u64 \<Rightarrow> 'a vmem_scheme \<Rightarrow> 'a vmem_scheme" where
  "store a v s = s\<lparr>mem := st64 a v (mem s)\<rparr>"

section \<open>Page-table entries\<close>

definition vpn :: "nat \<Rightarrow> u64 \<Rightarrow> u64" where
  "vpn lvl va = drop_bit (12 + 9 * lvl) va AND 0x1FF"

text \<open>The table an entry points to, and a leaf entry.\<close>

definition pte_addr :: "u64 \<Rightarrow> u64" where
  "pte_addr e = push_bit 12 (drop_bit 10 e)"

definition table_pte :: "u64 \<Rightarrow> u64" where
  "table_pte page = push_bit 10 (drop_bit 12 page) OR 1"

text \<open>\<open>ubit\<close> is \<open>0\<close> in \<open>kvm_map\<close> and \<open>0x10\<close> in \<open>uvm_map\<close>, the only difference of the two.\<close>

definition leaf_pte :: "u64 \<Rightarrow> u64 \<Rightarrow> u32 \<Rightarrow> u64" where
  "leaf_pte ubit pa perm =
     (let ppn = push_bit 10 (drop_bit 12 pa);
          attributes = 0x40;
          attributes = (if perm AND 4 \<noteq> 0 then attributes OR 0x80 else attributes)
      in ppn OR attributes OR ubit OR ucast perm OR 1)"

section \<open>Mapping\<close>

text \<open>A fresh table page, cleared.\<close>

definition new_table :: "u64 \<Rightarrow> u64 \<Rightarrow> u64 \<Rightarrow> 'a vmem_scheme \<Rightarrow> (u64 \<times> 'a vmem_scheme) outcome" where
  "new_table ca err arg s =
     bindO (kalloc 0 ca s) (\<lambda>(page, s).
     if page = 0 then Panic err arg
     else Ret (page, s\<lparr>mem := zero64 512 page (mem s)\<rparr>))"

text \<open>The table below entry \<open>slot\<close>, created when the entry is not valid.\<close>

definition get_table :: "u64 \<Rightarrow> u64 \<Rightarrow> u64 \<Rightarrow> u64 \<Rightarrow> 'a vmem_scheme \<Rightarrow> (u64 \<times> 'a vmem_scheme) outcome" where
  "get_table ca err arg slot s =
     (if load s slot AND 1 = 0
      then bindO (new_table ca err arg s) (\<lambda>(page, s).
        let s = store slot (table_pte page) s in Ret (pte_addr (load s slot), s))
      else Ret (pte_addr (load s slot), s))"

definition set_leaf :: "u64 \<Rightarrow> u64 \<Rightarrow> u64 \<Rightarrow> u32 \<Rightarrow> 'a vmem_scheme \<Rightarrow> 'a vmem_scheme outcome" where
  "set_leaf ubit slot pa perm s =
     (if load s slot AND 1 \<noteq> 0 then Panic 107 pa
      else Ret (store slot (leaf_pte ubit pa perm) s))"

text \<open>
  One round of the loop: a 1 GiB, a 2 MiB or a 4 KiB leaf, whichever the addresses and the
  remaining size allow. \<open>vir_addr\<close> is the original argument, which two panics report. The
  result has the bytes the round has mapped.
\<close>

definition map_step ::
  "u64 \<Rightarrow> u64 \<Rightarrow> u64 \<Rightarrow> u64 \<Rightarrow> u64 \<Rightarrow> u64 \<Rightarrow> u64 \<Rightarrow> u32 \<Rightarrow> 'a vmem_scheme \<Rightarrow>
   (u64 \<times> 'a vmem_scheme) outcome" where
  "map_step ubit ca table vir_addr va pa sz perm s =
     (let slot2 = cell table (vpn 2 va) in
      if sz \<ge> 0x40000000 \<and> va AND 0x3FFFFFFF = 0 \<and> pa AND 0x3FFFFFFF = 0 then
        bindO (set_leaf ubit slot2 pa perm s) (\<lambda>s. Ret (0x40000000, s))
      else if sz \<ge> 0x200000 \<and> va AND 0x1FFFFF = 0 \<and> pa AND 0x1FFFFF = 0 then
        bindO (get_table ca 110 vir_addr slot2 s) (\<lambda>(lv1_table, s).
        bindO (set_leaf ubit (cell lv1_table (vpn 1 va)) pa perm s) (\<lambda>s. Ret (0x200000, s)))
      else
        bindO (get_table ca 110 vir_addr slot2 s) (\<lambda>(lv1_table, s).
        bindO (get_table ca 111 vir_addr (cell lv1_table (vpn 1 va)) s) (\<lambda>(lv0_table, s).
        bindO (set_leaf ubit (cell lv0_table (vpn 0 va)) pa perm s) (\<lambda>s. Ret (4096, s)))))"

text \<open>
  The loop. Its fuel is the number of 4 KiB pages to map, which bounds the rounds: every
  round maps at least one page.
\<close>

fun map_loop ::
  "nat \<Rightarrow> u64 \<Rightarrow> u64 \<Rightarrow> u64 \<Rightarrow> u64 \<Rightarrow> u64 \<Rightarrow> u64 \<Rightarrow> u64 \<Rightarrow> u32 \<Rightarrow> 'a vmem_scheme \<Rightarrow>
   'a vmem_scheme outcome" where
  "map_loop 0 ubit ca table vir_addr va pa sz perm s = (if sz > 0 then Hang else Ret s)"
| "map_loop (Suc n) ubit ca table vir_addr va pa sz perm s =
     (if sz > 0 then
        bindO (map_step ubit ca table vir_addr va pa sz perm s) (\<lambda>(d, s).
        map_loop n ubit ca table vir_addr (va + d) (pa + d) (sz - d) perm s)
      else Ret s)"

definition page_up :: "u64 \<Rightarrow> u64" where
  "page_up sz = (sz + 0xFFF) AND NOT 0xFFF"

definition page_down :: "u64 \<Rightarrow> u64" where
  "page_down a = a AND NOT 0xFFF"

definition map_range ::
  "u64 \<Rightarrow> u64 \<Rightarrow> u64 \<Rightarrow> u64 \<Rightarrow> u64 \<Rightarrow> u64 \<Rightarrow> u32 \<Rightarrow> 'a vmem_scheme \<Rightarrow> 'a vmem_scheme outcome" where
  "map_range ubit ca table vir_addr phys_addr sz perm s =
     map_loop (unat (page_up sz) div 4096) ubit ca table vir_addr
       (page_down vir_addr) (page_down phys_addr) (page_up sz) perm s"

definition kvm_map :: "u64 \<Rightarrow> u64 \<Rightarrow> u64 \<Rightarrow> u64 \<Rightarrow> u64 \<Rightarrow> u32 \<Rightarrow> 'a vmem_scheme \<Rightarrow> 'a vmem_scheme outcome" where
  "kvm_map = map_range 0"

definition uvm_map :: "u64 \<Rightarrow> u64 \<Rightarrow> u64 \<Rightarrow> u64 \<Rightarrow> u64 \<Rightarrow> u32 \<Rightarrow> 'a vmem_scheme \<Rightarrow> 'a vmem_scheme outcome" where
  "uvm_map = map_range 0x10"

section \<open>The kernel's address space\<close>

text \<open>\<open>_load_satp\<close> writes the satp register: mode Sv39 and the root's page number.\<close>

definition load_satp :: "u64 \<Rightarrow> 'a vmem_scheme \<Rightarrow> 'a vmem_scheme" where
  "load_satp root s = s\<lparr>satp := push_bit 60 8 OR drop_bit 12 root\<rparr>"

text \<open>The mappings of \<open>kvm_init\<close>, in order: virtual address, physical address, size, permissions.\<close>

definition kvm_regions :: "layout \<Rightarrow> u64 \<Rightarrow> u64 \<Rightarrow> (u64 \<times> u64 \<times> u64 \<times> u32) list" where
  "kvm_regions ly base ram_bytes =
     [(uart_base ly, uart_base ly, 4096, 6),
      (clint_base ly, clint_base ly, 0x10000, 6),
      (plic_base ly, plic_base ly, 0x400000, 6),
      (text_start ly, text_start ly, text_end ly - text_start ly, 10),
      (rodata_start ly, rodata_start ly, rodata_end ly - rodata_start ly, 2),
      (data_start ly, data_start ly, data_end ly - data_start ly, 6),
      (bss_start ly, bss_start ly, bss_end ly - bss_start ly, 6),
      (bss_end ly, bss_end ly, base + ram_bytes - bss_end ly, 6),
      (0x3FFFFFF000, user_trampoline ly, 4096, 8)]"

definition kvm_init :: "u64 \<Rightarrow> layout \<Rightarrow> 'a vmem_scheme \<Rightarrow> 'a vmem_scheme outcome" where
  "kvm_init ca ly s =
     bindO (kalloc 0 ca s) (\<lambda>(root, s).
     if root = 0 then Panic 112 0
     else
       let s = s\<lparr>root_table := root\<rparr>;
           s = s\<lparr>mem := zero64 512 root (mem s)\<rparr> in
       bindO (forO (kvm_regions ly (ram_base s) (ram_size s))
                (\<lambda>(va, pa, sz, perm). kvm_map ca root va pa sz perm) s) (\<lambda>s.
       Ret (load_satp root s)))"

section \<open>User address spaces\<close>

definition create_user_table :: "u64 \<Rightarrow> layout \<Rightarrow> u64 \<Rightarrow> 'a vmem_scheme \<Rightarrow> (u64 \<times> 'a vmem_scheme) outcome" where
  "create_user_table ca ly process_kstack s =
     bindO (kalloc 0 ca s) (\<lambda>(table, s).
     let s = s\<lparr>mem := zero64 512 table (mem s)\<rparr> in
     bindO (kvm_map ca table 0x3FFFFFF000 (user_trampoline ly) 4096 8 s) (\<lambda>s.
     bindO (kvm_map ca table 0x3FFFFFE000 process_kstack 4096 6 s) (\<lambda>s.
     Ret (table, s))))"

text \<open>The root table of a satp value.\<close>

definition satp_root :: "u64 \<Rightarrow> u64" where
  "satp_root user_satp = push_bit 12 (user_satp AND 0xFFFFFFFFFFF)"

definition uvm_translate :: "u64 \<Rightarrow> u64 \<Rightarrow> 'a vmem_scheme \<Rightarrow> u64" where
  "uvm_translate user_satp vir_addr s =
     (let pte_lv2 = load s (cell (satp_root user_satp) (vpn 2 vir_addr)) in
      if pte_lv2 AND 1 = 0 then 0
      else
        let pte_lv1 = load s (cell (pte_addr pte_lv2) (vpn 1 vir_addr)) in
        if pte_lv1 AND 1 = 0 then 0
        else
          let pte_lv0 = load s (cell (pte_addr pte_lv1) (vpn 0 vir_addr)) in
          if pte_lv0 AND 1 = 0 then 0
          else pte_addr pte_lv0 OR (vir_addr AND 0xFFF))"

definition uvm_unmap :: "u64 \<Rightarrow> u64 \<Rightarrow> 'a vmem_scheme \<Rightarrow> bool \<times> 'a vmem_scheme" where
  "uvm_unmap user_satp vir_addr s =
     (let pte_lv2 = load s (cell (satp_root user_satp) (vpn 2 vir_addr)) in
      if pte_lv2 AND 1 = 0 then (False, s)
      else
        let pte_lv1 = load s (cell (pte_addr pte_lv2) (vpn 1 vir_addr)) in
        if pte_lv1 AND 1 = 0 then (False, s)
        else
          let slot = cell (pte_addr pte_lv1) (vpn 0 vir_addr); pte_lv0 = load s slot in
          if pte_lv0 AND 1 = 0 then (False, s)
          else (True, store slot (pte_lv0 AND NOT 1) s))"

section \<open>Tearing a user address space down\<close>

text \<open>
  A user leaf: its page goes back to the allocator when the page's flag says it is allocated,
  and the entry is cleared.
\<close>

definition free_leaf :: "u64 \<Rightarrow> 'a vmem_scheme \<Rightarrow> 'a vmem_scheme outcome" where
  "free_leaf slot s =
     (let leaf_phys_addr = pte_addr (load s slot);
          idx = (leaf_phys_addr - ram_base s) div 4096 in
      bindO (if flag (page_array s idx) = 1 then kfree leaf_phys_addr s else Ret s) (\<lambda>s.
      Ret (store slot 0 s)))"

definition indices :: "u64 list" where
  "indices = map of_nat [0..<512]"

definition uvm_free_lv0 :: "u64 \<Rightarrow> u64 \<Rightarrow> 'a vmem_scheme \<Rightarrow> 'a vmem_scheme outcome" where
  "uvm_free_lv0 lv0_table k s =
     (if load s (cell lv0_table k) AND 0x10 \<noteq> 0 \<and> load s (cell lv0_table k) AND 1 \<noteq> 0
      then free_leaf (cell lv0_table k) s else Ret s)"

definition uvm_free_lv1 :: "u64 \<Rightarrow> u64 \<Rightarrow> 'a vmem_scheme \<Rightarrow> 'a vmem_scheme outcome" where
  "uvm_free_lv1 lv1_table j s =
     (let e = load s (cell lv1_table j) in
      if e AND 1 \<noteq> 0 then
        (if e AND 0xE \<noteq> 0 then
           (if e AND 0x10 \<noteq> 0 then free_leaf (cell lv1_table j) s else Ret s)
         else
           bindO (forO indices (uvm_free_lv0 (pte_addr e)) s) (kfree (pte_addr e)))
      else Ret s)"

definition uvm_free_lv2 :: "u64 \<Rightarrow> u64 \<Rightarrow> 'a vmem_scheme \<Rightarrow> 'a vmem_scheme outcome" where
  "uvm_free_lv2 lv2_table i s =
     (let e = load s (cell lv2_table i) in
      if e AND 1 \<noteq> 0 then
        (if e AND 0xE \<noteq> 0 then
           (if e AND 0x10 \<noteq> 0 then free_leaf (cell lv2_table i) s else Ret s)
         else
           bindO (forO indices (uvm_free_lv1 (pte_addr e)) s) (kfree (pte_addr e)))
      else Ret s)"

definition uvm_free :: "u64 \<Rightarrow> 'a vmem_scheme \<Rightarrow> 'a vmem_scheme outcome" where
  "uvm_free user_satp s =
     bindO (forO indices (uvm_free_lv2 (satp_root user_satp)) s) (kfree (satp_root user_satp))"

end
