(* ===== verification/PageWalk.thy ===== *)
theory PageWalk
  imports PageTable Blocks
begin

text \<open>
  What a page table means: the Sv39 walk of the hardware, written from the privileged
  architecture's algorithm (valid bit 0, a leaf has one of the bits 1 to 3, levels 2 to 0),
  and the tree of tables it visits. The tables are named by the path of indices from the
  root. Writing one cell of a tree changes one entry; filling an invalid cell with a leaf or
  with a cleared table has a known effect on every translation.
\<close>

section \<open>The walk\<close>

definition is_table :: "u64 \<Rightarrow> bool" where
  "is_table e \<longleftrightarrow> e AND 1 \<noteq> 0 \<and> e AND 0xE = 0"

definition is_leaf :: "u64 \<Rightarrow> bool" where
  "is_leaf e \<longleftrightarrow> e AND 1 \<noteq> 0 \<and> e AND 0xE \<noteq> 0"

fun walk :: "nat \<Rightarrow> memory \<Rightarrow> u64 \<Rightarrow> u64 \<Rightarrow> (nat \<times> u64) option" where
  "walk 0 m t va =
     (let e = ld64 m (cell t (vpn 0 va)) in if is_leaf e then Some (0, e) else None)"
| "walk (Suc l) m t va =
     (let e = ld64 m (cell t (vpn (Suc l) va)) in
      if is_leaf e then Some (Suc l, e)
      else if is_table e then walk l m (pte_addr e) va else None)"

text \<open>The physical address and the ten low bits (the permissions) of the leaf.\<close>

definition translation :: "u64 \<Rightarrow> nat \<times> u64 \<Rightarrow> u64 \<times> u64" where
  "translation va = (\<lambda>(l, e). (pte_addr e OR take_bit (12 + 9 * l) va, take_bit 10 e))"

definition xlate :: "memory \<Rightarrow> u64 \<Rightarrow> u64 \<Rightarrow> (u64 \<times> u64) option" where
  "xlate m root va = map_option (translation va) (walk 2 m root va)"

section \<open>The tree of tables\<close>

fun tbl :: "memory \<Rightarrow> u64 \<Rightarrow> u64 list \<Rightarrow> u64 option" where
  "tbl m t [] = Some t"
| "tbl m t (i # p) =
     (let e = ld64 m (cell t i) in if is_table e then tbl m (pte_addr e) p else None)"

lemma tbl_snoc:
  "tbl m t (p @ [i]) = (case tbl m t p of None \<Rightarrow> None | Some u \<Rightarrow>
     (let e = ld64 m (cell u i) in if is_table e then Some (pte_addr e) else None))"
  by (induction m t p rule: tbl.induct) (auto simp: Let_def)

declare tbl.simps(2) [simp del]

definition paths :: "u64 list set" where
  "paths = {p. length p \<le> 2 \<and> (\<forall>i\<in>set p. i < 512)}"

lemma paths_snoc: "p @ [i] \<in> paths \<longleftrightarrow> p \<in> paths \<and> length p < 2 \<and> i < 512"
  by (auto simp: paths_def)

lemma paths_list [simp]:
  "[] \<in> paths" "[i] \<in> paths \<longleftrightarrow> i < 512" "[i, j] \<in> paths \<longleftrightarrow> i < 512 \<and> j < 512"
  by (auto simp: paths_def)

text \<open>Every table is a page of \<open>N\<close>, no two paths share one, and the last level has no pointers.\<close>

definition tree :: "memory \<Rightarrow> u64 \<Rightarrow> u64 set \<Rightarrow> bool" where
  "tree m root N \<longleftrightarrow>
     (\<forall>p\<in>paths. \<forall>t. tbl m root p = Some t \<longrightarrow> page_base t \<and> t \<in> N) \<and>
     (\<forall>p\<in>paths. \<forall>q\<in>paths. \<forall>t. tbl m root p = Some t \<longrightarrow> tbl m root q = Some t \<longrightarrow> p = q) \<and>
     (\<forall>p\<in>paths. \<forall>t. \<forall>i<512. length p = 2 \<longrightarrow> tbl m root p = Some t \<longrightarrow> \<not> is_table (ld64 m (cell t i)))"

lemma treeD:
  assumes "tree m root N" and "p \<in> paths" and "tbl m root p = Some t"
  shows "page_base t" and "t \<in> N" and "\<And>q. q \<in> paths \<Longrightarrow> tbl m root q = Some t \<Longrightarrow> q = p"
    and "\<And>i. i < 512 \<Longrightarrow> length p = 2 \<Longrightarrow> \<not> is_table (ld64 m (cell t i))"
  using assms unfolding tree_def by blast+

definition entry :: "memory \<Rightarrow> u64 \<Rightarrow> u64 list \<Rightarrow> u64 \<Rightarrow> u64 option" where
  "entry m root p i = map_option (\<lambda>t. ld64 m (cell t i)) (tbl m root p)"

text \<open>The path a virtual address takes to the table of level \<open>l\<close>.\<close>

definition vpath :: "nat \<Rightarrow> u64 \<Rightarrow> u64 list" where
  "vpath l va = (if l = 2 then [] else if l = 1 then [vpn 2 va] else [vpn 2 va, vpn 1 va])"

lemma walk_entry:
  "walk 2 m root va =
     (case entry m root [] (vpn 2 va) of None \<Rightarrow> None | Some e2 \<Rightarrow>
      if is_leaf e2 then Some (2, e2) else
      case entry m root [vpn 2 va] (vpn 1 va) of None \<Rightarrow> None | Some e1 \<Rightarrow>
      if is_leaf e1 then Some (1, e1) else
      case entry m root [vpn 2 va, vpn 1 va] (vpn 0 va) of None \<Rightarrow> None | Some e0 \<Rightarrow>
      if is_leaf e0 then Some (0, e0) else None)"
  by (simp add: numeral_2_eq_2 entry_def tbl.simps(2) Let_def)

section \<open>Bits of addresses and entries\<close>

lemma mask_1FF: "(0x1FF :: u64) = mask 9"
  by (simp add: mask_eq_exp_minus_1)

lemma vpn_take: "vpn l va = take_bit 9 (drop_bit (12 + 9 * l) va)"
  unfolding vpn_def mask_1FF by (simp only: take_bit_eq_mask)

lemma bit_vpn: "bit (vpn l va) n \<longleftrightarrow> n < 9 \<and> bit va (12 + 9 * l + n)"
  by (auto simp: vpn_take bit_simps)

lemma vpn_less: "vpn l va < 512"
proof -
  have "unat (vpn l va) < 2 ^ 9"
    by (simp only: vpn_take unsigned_take_bit_eq) (rule take_bit_nat_less_exp)
  then show ?thesis by (simp add: word_less_nat_alt)
qed

lemma vpath_paths [simp]: "vpath l va \<in> paths"
  by (simp add: vpath_def paths_def vpn_less)

lemma less_bits: "unat (a :: u64) < 2 ^ n \<Longrightarrow> bit a m \<Longrightarrow> m < n"
proof (rule ccontr)
  assume a: "unat a < 2 ^ n" "bit a m" "\<not> m < n"
  have "take_bit n (unat a) = unat a" using a(1) by (rule take_bit_nat_eq_self)
  then have "take_bit n a = a" by (metis unsigned_take_bit_eq word_unat_eq_iff)
  then have "bit (take_bit n a) m" using a(2) by simp
  then show False using a(3) by (simp add: bit_simps)
qed

lemma page_base_bits: "page_base p \<longleftrightarrow> (\<forall>n<12. \<not> bit p n)"
proof -
  have "page_base p \<longleftrightarrow> take_bit 12 (unat p) = 0" by (simp add: page_base_def take_bit_eq_mod)
  also have "\<dots> \<longleftrightarrow> take_bit 12 p = 0" by (metis unat_0 unsigned_take_bit_eq word_unat_eq_iff)
  also have "\<dots> \<longleftrightarrow> (\<forall>n<12. \<not> bit p n)"
    by (auto simp: zero_bits bit_take_bit_iff)
  finally show ?thesis .
qed

lemma bit_one64: "bit (1 :: u64) n \<longleftrightarrow> n = 0"
  by (simp add: bit_1_iff)

lemma and_1_bit: "(e :: u64) AND 1 \<noteq> 0 \<longleftrightarrow> bit e 0"
  by (metis and_one_eq odd_iff_mod_2_eq_one bit_0 zero_neq_one even_iff_mod_2_eq_zero)

lemma and_E_bits: "(e :: u64) AND 0xE = 0 \<longleftrightarrow> \<not> bit e 1 \<and> \<not> bit e 2 \<and> \<not> bit e 3"
proof -
  have b: "bit (0xE :: u64) n \<longleftrightarrow> n = 1 \<or> n = 2 \<or> n = 3" for n
  proof -
    have e: "(0xE :: u64) = shl1 1 OR shl1 2 OR shl1 3" by (simp add: shl1_def push_bit_eq_mult)
    show ?thesis unfolding e by (auto simp: bit_or_iff bit_shl1)
  qed
  show ?thesis unfolding zero_bits bit_and_iff b by auto
qed

lemma not_valid: "e AND 1 = 0 \<Longrightarrow> \<not> is_table e \<and> \<not> is_leaf e"
  by (simp add: is_table_def is_leaf_def)

lemma table_pte:
  assumes "page_base z"
  shows "pte_addr (table_pte z) = z" and "is_table (table_pte z)"
proof -
  show "pte_addr (table_pte z) = z"
  proof (rule bit_word_eqI)
    fix n assume "n < LENGTH(64)"
    show "bit (pte_addr (table_pte z)) n \<longleftrightarrow> bit z n"
    proof (cases "n < 12")
      case True
      then show ?thesis using assms by (simp add: page_base_bits pte_addr_def bit_simps)
    next
      case False
      then obtain k where "n = 12 + k" by (metis le_add_diff_inverse not_less)
      then show ?thesis using \<open>n < LENGTH(64)\<close>
        by (auto simp: pte_addr_def table_pte_def bit_simps bit_one64)
    qed
  qed
  have "bit (table_pte z) n \<longleftrightarrow> n = 0" if "n < 4" for n
    using that by (auto simp: table_pte_def bit_simps bit_one64)
  then show "is_table (table_pte z)"
    unfolding is_table_def and_1_bit and_E_bits by simp
qed

section \<open>Filling an invalid cell\<close>

lemma entry_below:
  assumes "entry m root p i = Some e" and "\<not> is_table e"
  shows "tbl m root (p @ [i]) = None" and "entry m root (p @ [i]) j = None"
  using assms by (auto simp: entry_def tbl_snoc Let_def)

lemma entry_parent:
  assumes "entry m root (p @ [i]) j = Some e"
  shows "\<exists>e'. entry m root p i = Some e' \<and> is_table e'"
  using assms by (auto simp: entry_def tbl_snoc Let_def split: option.splits if_splits)

lemma tbl_set_leaf:
  assumes "tree m root N" "p \<in> paths" "tbl m root p = Some t" "i < 512"
    and "\<not> is_table (ld64 m (cell t i))" "\<not> is_table v"
  shows "q \<in> paths \<Longrightarrow> tbl (st64 (cell t i) v m) root q = tbl m root q"
proof (induction q rule: rev_induct)
  case (snoc j q)
  then have q: "q \<in> paths" "j < 512" by (auto simp: paths_snoc)
  note ih = snoc.IH [OF q(1)]
  show ?case
  proof (cases "tbl m root q")
    case None
    then show ?thesis using ih by (simp add: tbl_snoc)
  next
    case (Some u)
    have "page_base u" "page_base t" using treeD(1) [OF assms(1)] q assms Some by blast+
    then have "ld64 (st64 (cell t i) v m) (cell u j) = (if u = t \<and> j = i then v else ld64 m (cell u j))"
      using q assms(4) by simp
    then show ?thesis using ih Some assms(5,6) by (auto simp: tbl_snoc Let_def)
  qed
qed simp

lemma entry_set_leaf:
  assumes "tree m root N" "p \<in> paths" "tbl m root p = Some t" "i < 512"
    and "\<not> is_table (ld64 m (cell t i))" "\<not> is_table v" and "q \<in> paths" "j < 512"
  shows "entry (st64 (cell t i) v m) root q j = (if q = p \<and> j = i then Some v else entry m root q j)"
proof (cases "tbl m root q")
  case None
  then show ?thesis using tbl_set_leaf [OF assms(1-7)] assms(3) by (auto simp: entry_def)
next
  case (Some u)
  have "page_base u" "page_base t" using treeD(1) [OF assms(1)] assms Some by blast+
  moreover have "u = t \<longleftrightarrow> q = p" using treeD(3) [OF assms(1)] assms(2,3,7) Some by auto
  ultimately show ?thesis using tbl_set_leaf [OF assms(1-7)] Some assms(4,8) by (simp add: entry_def)
qed

lemma tree_set_leaf:
  assumes "tree m root N" "p \<in> paths" "tbl m root p = Some t" "i < 512"
    and "\<not> is_table (ld64 m (cell t i))" "\<not> is_table v"
  shows "tree (st64 (cell t i) v m) root N"
proof -
  have "\<not> is_table (ld64 (st64 (cell t i) v m) (cell u j))"
    if "q \<in> paths" "j < 512" "length q = 2" "tbl m root q = Some u" for q u j
    using treeD(1,4) [OF assms(1) that(1,4)] treeD(1) [OF assms(1-3)] that assms(4,6) by simp
  then show ?thesis
    using assms(1) tbl_set_leaf [OF assms] unfolding tree_def by auto
qed

lemma tbl_set_table:
  assumes "tree m root N" "p \<in> paths" "tbl m root p = Some t" "i < 512" "length p < 2"
    and "\<not> is_table (ld64 m (cell t i))" "page_base z" "z \<notin> N"
  shows "q \<in> paths \<Longrightarrow> tbl (st64 (cell t i) (table_pte z) (zero64 512 z m)) root q =
    (if q = p @ [i] then Some z else tbl m root q)"
    (is "_ \<Longrightarrow> tbl ?m root q = _")
proof (induction q rule: rev_induct)
  case Nil
  then show ?case by simp
next
  case (snoc j q)
  then have q: "q \<in> paths" "j < 512" by (auto simp: paths_snoc)
  note ih = snoc.IH [OF q(1)]
  have t: "page_base t" "t \<in> N" using treeD [OF assms(1-3)] by blast+
  have none: "tbl m root (p @ [i]) = None" using assms(3,6) by (simp add: tbl_snoc Let_def)
  show ?case
  proof (cases "q = p @ [i]")
    case True
    have "ld64 ?m (cell z j) = 0" using q(2) assms t by (auto simp: zero64_page)
    moreover have "tbl ?m root q = Some z" "tbl m root q = None" "q @ [j] \<noteq> p @ [i]"
      using True ih none by simp_all
    ultimately show ?thesis by (simp only: tbl_snoc [of _ _ q]) (simp add: is_table_def)
  next
    case False
    show ?thesis
    proof (cases "tbl m root q")
      case None
      then show ?thesis using ih False assms(3) by (auto simp: tbl_snoc)
    next
      case (Some u)
      have u: "page_base u" "u \<in> N" using treeD(1,2) [OF assms(1) q(1) Some] .
      have u3: "u = t \<longleftrightarrow> q = p"
        using treeD(3) [OF assms(1) q(1) Some assms(2)] assms(3) Some by auto
      have "ld64 ?m (cell u j) = (if u = t \<and> j = i then table_pte z else ld64 m (cell u j))"
        using q(2) assms(4,7,8) t u by (auto simp: zero64_page)
      then show ?thesis using ih False Some u3 table_pte [OF assms(7)]
        by (auto simp: tbl_snoc Let_def)
    qed
  qed
qed

lemma entry_set_table:
  assumes "tree m root N" "p \<in> paths" "tbl m root p = Some t" "i < 512" "length p < 2"
    and "\<not> is_table (ld64 m (cell t i))" "page_base z" "z \<notin> N" and "q \<in> paths" "j < 512"
  shows "entry (st64 (cell t i) (table_pte z) (zero64 512 z m)) root q j =
    (if q = p \<and> j = i then Some (table_pte z) else if q = p @ [i] then Some 0 else entry m root q j)"
proof -
  have t: "page_base t" "t \<in> N" using treeD [OF assms(1-3)] by blast+
  note q = tbl_set_table [OF assms(1-9)]
  show ?thesis
  proof (cases "q = p @ [i]")
    case True
    then show ?thesis using q assms(4,7,8,10) t by (auto simp: entry_def zero64_page)
  next
    case False
    then show ?thesis
    proof (cases "tbl m root q")
      case None
      then show ?thesis using q False assms(3) by (auto simp: entry_def)
    next
      case (Some u)
      have u: "page_base u" "u \<in> N" using treeD(1,2) [OF assms(1,9) Some] .
      have "u = t \<longleftrightarrow> q = p"
        using treeD(3) [OF assms(1,9) Some assms(2)] assms(3) Some by auto
      then show ?thesis
        using u q False Some assms(4,7,8,10) t by (auto simp: entry_def zero64_page)
    qed
  qed
qed

lemma tree_set_table:
  assumes "tree m root N" "p \<in> paths" "tbl m root p = Some t" "i < 512" "length p < 2"
    and "\<not> is_table (ld64 m (cell t i))" "page_base z" "z \<notin> N"
  shows "tree (st64 (cell t i) (table_pte z) (zero64 512 z m)) root (insert z N)" (is "tree ?m root _")
proof -
  note T = tbl_set_table [OF assms]
  have "page_base u \<and> u \<in> insert z N" if "q \<in> paths" "tbl ?m root q = Some u" for q u
    using treeD(1,2) [OF assms(1) that(1)] that T [OF that(1)] assms(7) by (auto split: if_splits)
  moreover have "q = r" if "q \<in> paths" "r \<in> paths" "tbl ?m root q = Some u" "tbl ?m root r = Some u" for q r u
    using treeD [OF assms(1)] that T [OF that(1)] T [OF that(2)] assms(8) by (fastforce split: if_splits)
  moreover have "\<not> is_table (ld64 ?m (cell u j))"
    if "q \<in> paths" "j < 512" "length q = 2" "tbl ?m root q = Some u" for q u j
  proof -
    have e: "entry ?m root q j = Some (ld64 ?m (cell u j))" using that(4) by (simp add: entry_def)
    show ?thesis
    proof (cases "q = p @ [i]")
      case True
      then show ?thesis using e entry_set_table [OF assms that(1,2)] by (simp add: is_table_def)
    next
      case False
      then have "q \<noteq> p" "tbl m root q = Some u" using that assms(5) T [OF that(1)] by auto
      then have "ld64 ?m (cell u j) = ld64 m (cell u j)"
        using entry_set_table [OF assms that(1,2)] False that(4) by (simp add: entry_def)
      then show ?thesis using treeD(4) [OF assms(1) that(1)] \<open>tbl m root q = Some u\<close> that by simp
    qed
  qed
  ultimately show ?thesis unfolding tree_def by blast
qed

text \<open>What the two writes do to the translations.\<close>

lemma walk_set_table:
  assumes "tree m root N" "p \<in> paths" "tbl m root p = Some t" "i < 512" "length p < 2"
    and "ld64 m (cell t i) AND 1 = 0" "page_base z" "z \<notin> N"
  shows "walk 2 (st64 (cell t i) (table_pte z) (zero64 512 z m)) root va = walk 2 m root va"
    (is "walk 2 ?m root va = _")
proof -
  have nt: "\<not> is_table (ld64 m (cell t i))" "\<not> is_leaf (ld64 m (cell t i))"
    using not_valid [OF assms(6)] by auto
  note E = entry_set_table [OF assms(1-5) nt(1) assms(7,8)]
  have e0: "entry m root p i = Some (ld64 m (cell t i))" using assms(3) by (simp add: entry_def)
  have z: "\<not> is_leaf (table_pte z)" "\<not> is_leaf 0"
    using table_pte(2) [OF assms(7)] by (auto simp: is_table_def is_leaf_def)
  note b = entry_below [OF e0 nt(1)]
  show ?thesis
  proof (cases "i = vpn (2 - length p) va \<and> p = vpath (2 - length p) va")
    case False
    from assms(5) have "entry ?m root [] (vpn 2 va) = entry m root [] (vpn 2 va) \<and>
       entry ?m root [vpn 2 va] (vpn 1 va) = entry m root [vpn 2 va] (vpn 1 va) \<and>
       entry ?m root [vpn 2 va, vpn 1 va] (vpn 0 va) = entry m root [vpn 2 va, vpn 1 va] (vpn 0 va)"
      using False by (cases p) (auto simp: E vpn_less vpath_def split: if_splits)
    then show ?thesis unfolding walk_entry by (simp only:)
  next
    case True
    from assms(5) consider "p = []" | a where "p = [a]" by (cases p) auto
    then show ?thesis
    proof cases
      case 1
      with True have i: "i = vpn 2 va" by simp
      have "entry m root [vpn 2 va, vpn 1 va] (vpn 0 va) = None"
        using entry_parent [of m root "[vpn 2 va]" "vpn 1 va" "vpn 0 va"] b(2) [of "vpn 1 va"] i 1
        by (cases "entry m root [vpn 2 va, vpn 1 va] (vpn 0 va)") auto
      then have "entry ?m root [] (vpn 2 va) = Some (table_pte z)"
        "entry ?m root [vpn 2 va] (vpn 1 va) = Some 0"
        "entry ?m root [vpn 2 va, vpn 1 va] (vpn 0 va) = None"
        "entry m root [] (vpn 2 va) = Some (ld64 m (cell t i))"
        "entry m root [vpn 2 va] (vpn 1 va) = None"
        using 1 i [symmetric] e0 b(2) assms(4) by (simp_all add: E vpn_less)
      then show ?thesis unfolding walk_entry using nt z by (simp only: option.case if_False)
    next
      case 2
      with True have i: "p = [vpn 2 va]" "i = vpn 1 va" by (simp_all add: vpath_def)
      have "entry ?m root [] (vpn 2 va) = entry m root [] (vpn 2 va)"
        "entry ?m root [vpn 2 va] (vpn 1 va) = Some (table_pte z)"
        "entry ?m root [vpn 2 va, vpn 1 va] (vpn 0 va) = Some 0"
        "entry m root [vpn 2 va] (vpn 1 va) = Some (ld64 m (cell t i))"
        "entry m root [vpn 2 va, vpn 1 va] (vpn 0 va) = None"
        using i(1) i(2) [symmetric] e0 b(2) assms(4) by (simp_all add: E vpn_less)
      then show ?thesis unfolding walk_entry using nt z by (simp only: option.case if_False)
    qed
  qed
qed

lemma walk_set_leaf:
  assumes "tree m root N" "p \<in> paths" "tbl m root p = Some t" "i < 512"
    and "ld64 m (cell t i) AND 1 = 0" "is_leaf v"
  shows "walk 2 (st64 (cell t i) v m) root va =
    (if vpath (2 - length p) va = p \<and> vpn (2 - length p) va = i then Some (2 - length p, v)
     else walk 2 m root va)" (is "walk 2 ?m root va = _")
proof -
  have nt: "\<not> is_table (ld64 m (cell t i))" "\<not> is_leaf (ld64 m (cell t i))"
    using not_valid [OF assms(5)] by auto
  have nv: "\<not> is_table v" using assms(6) by (simp add: is_table_def is_leaf_def)
  note E = entry_set_leaf [OF assms(1-4) nt(1) nv]
  have e0: "entry m root p i = Some (ld64 m (cell t i))" using assms(3) by (simp add: entry_def)
  from assms(2) consider (0) "p = []" | (1) a where "p = [a]" | (2) a b where "p = [a, b]"
    by (auto simp: paths_def le_Suc_eq numeral_2_eq_2 length_Suc_conv)
  note c = this
  show ?thesis
  proof (cases "vpath (2 - length p) va = p \<and> vpn (2 - length p) va = i")
    case False
    from c have "entry ?m root [] (vpn 2 va) = entry m root [] (vpn 2 va) \<and>
       entry ?m root [vpn 2 va] (vpn 1 va) = entry m root [vpn 2 va] (vpn 1 va) \<and>
       entry ?m root [vpn 2 va, vpn 1 va] (vpn 0 va) = entry m root [vpn 2 va, vpn 1 va] (vpn 0 va)"
      by cases (use False in \<open>auto simp: E vpn_less vpath_def split: if_splits\<close>)
    then show ?thesis unfolding walk_entry using False by (simp only: if_False)
  next
    case True
    from c show ?thesis
    proof cases
      case 0
      then show ?thesis unfolding walk_entry
        using True assms(4,6) by (simp add: E vpath_def)
    next
      case 1
      with True have a: "vpn 2 va = a" "vpn 1 va = i" by (simp_all add: vpath_def)
      obtain e where e: "entry m root [] a = Some e" "is_table e"
        using entry_parent [of m root "[]" a i] e0 1 by auto
      then have "\<not> is_leaf e" by (simp add: is_table_def is_leaf_def)
      then show ?thesis unfolding walk_entry
        using 1 a e assms(4,6) vpn_less [of 2 va] by (simp add: E vpath_def)
    next
      case 2
      with True have a: "vpn 2 va = a" "vpn 1 va = b" "vpn 0 va = i" by (simp_all add: vpath_def)
      obtain e1 where e1: "entry m root [a] b = Some e1" "is_table e1"
        using entry_parent [of m root "[a]" b i] e0 2 by auto
      then obtain e where e: "entry m root [] a = Some e" "is_table e"
        using entry_parent [of m root "[]" a b] by auto
      from e e1 have "\<not> is_leaf e" "\<not> is_leaf e1" by (simp_all add: is_table_def is_leaf_def)
      then show ?thesis unfolding walk_entry
        using 2 a e e1 assms(4,6) vpn_less [of 2 va] vpn_less [of 1 va] by (simp add: E vpath_def)
    qed
  qed
qed

section \<open>Leaf entries and the addresses they cover\<close>

abbreviation lvl_bits :: "nat \<Rightarrow> nat" where
  "lvl_bits l \<equiv> 12 + 9 * l"

definition leaf_flags :: "u64 \<Rightarrow> u32 \<Rightarrow> u64" where
  "leaf_flags ubit perm = (if perm AND 4 \<noteq> 0 then 0xC0 else 0x40) OR ubit OR ucast perm OR 1"

lemma leaf_pte_flags: "leaf_pte ubit pa perm = push_bit 10 (drop_bit 12 pa) OR leaf_flags ubit perm"
  by (simp add: leaf_pte_def leaf_flags_def Let_def or.assoc)

text \<open>The permissions callers may pass: some of read, write, execute, and nothing above bit 9.\<close>

definition perm_ok :: "u64 \<Rightarrow> u32 \<Rightarrow> bool" where
  "perm_ok ubit perm \<longleftrightarrow> (ubit = 0 \<or> ubit = 0x10) \<and> perm AND 0xE \<noteq> 0 \<and> perm < 0x400"

lemma take_bit_10_iff: "take_bit 10 (v :: u64) = v \<longleftrightarrow> unat v < 1024"
proof -
  have "take_bit 10 v = v \<longleftrightarrow> take_bit 10 (unat v) = unat v"
    by (metis unsigned_take_bit_eq word_unat_eq_iff)
  also have "\<dots> \<longleftrightarrow> unat v < 2 ^ 10" by (rule take_bit_nat_eq_self_iff)
  finally show ?thesis by simp
qed

lemma leaf_flags_small:
  assumes "perm_ok ubit perm"
  shows "take_bit 10 (leaf_flags ubit perm) = leaf_flags ubit perm"
proof -
  have "unat (ucast perm :: u64) < 1024"
    using assms by (simp add: perm_ok_def word_less_nat_alt unsigned_ucast_eq take_bit_nat_eq_self)
  then have p: "take_bit 10 (ucast perm :: u64) = ucast perm" by (simp only: take_bit_10_iff)
  have u: "take_bit 10 ubit = ubit" using assms by (auto simp: perm_ok_def take_bit_10_iff)
  have "take_bit 10 (0xC0 :: u64) = 0xC0" "take_bit 10 (0x40 :: u64) = 0x40" "take_bit 10 (1 :: u64) = 1"
    by simp_all
  then show ?thesis by (simp only: leaf_flags_def take_bit_or p u if_distrib [of "take_bit 10"])
qed

lemma leaf_flags_leaf: "perm_ok ubit perm \<Longrightarrow> is_leaf (push_bit 10 x OR leaf_flags ubit perm)"
proof -
  assume "perm_ok ubit perm"
  then have "perm AND 0xE \<noteq> 0" by (simp add: perm_ok_def)
  then have "bit perm 1 \<or> bit perm 2 \<or> bit perm 3"
  proof (rule contrapos_np)
    have e: "(0xE :: u32) = push_bit 1 1 OR push_bit 2 1 OR push_bit 3 1" by (simp add: push_bit_eq_mult)
    have b: "bit (0xE :: u32) n \<longleftrightarrow> n = 1 \<or> n = 2 \<or> n = 3" for n
      unfolding e bit_or_iff bit_push_bit_iff bit_1_iff by auto
    assume "\<not> (bit perm 1 \<or> bit perm 2 \<or> bit perm 3)"
    then have "\<not> bit (perm AND 0xE) n" for n unfolding bit_and_iff b by auto
    then show "perm AND 0xE = 0" by (intro bit_word_eqI) simp
  qed
  moreover have "bit (ucast perm :: u64) n \<longleftrightarrow> bit perm n" for n
    by (auto simp: bit_ucast_iff dest: bit_imp_le_length)
  ultimately show ?thesis
    unfolding is_leaf_def and_1_bit and_E_bits
    by (auto simp: leaf_flags_def bit_or_iff bit_push_bit_iff bit_1_iff)
qed

lemma leaf_pte_parts:
  assumes "perm_ok ubit perm" and "page_base pa"
  shows "is_leaf (leaf_pte ubit pa perm)" and "pte_addr (leaf_pte ubit pa perm) = pa"
    and "take_bit 10 (leaf_pte ubit pa perm) = leaf_flags ubit perm"
proof -
  let ?f = "leaf_flags ubit perm"
  note f = leaf_flags_small [OF assms(1)]
  have bf: "bit ?f n \<Longrightarrow> n < 10" for n
    using f by (metis bit_take_bit_iff)
  show "is_leaf (leaf_pte ubit pa perm)"
    unfolding leaf_pte_flags by (rule leaf_flags_leaf [OF assms(1)])
  show "take_bit 10 (leaf_pte ubit pa perm) = ?f"
    unfolding leaf_pte_flags by (simp add: take_bit_or f take_bit_push_bit)
  show "pte_addr (leaf_pte ubit pa perm) = pa"
  proof (rule bit_word_eqI)
    fix n assume n: "n < LENGTH(64)"
    show "bit (pte_addr (leaf_pte ubit pa perm)) n \<longleftrightarrow> bit pa n"
    proof (cases "n < 12")
      case True
      then show ?thesis using assms by (simp add: page_base_bits pte_addr_def bit_simps)
    next
      case False
      then obtain k where k: "n = 12 + k" by (metis le_add_diff_inverse not_less)
      have "\<not> bit ?f (10 + k)" using bf [of "10 + k"] by auto
      then show ?thesis using n k
        by (auto simp: pte_addr_def leaf_pte_flags bit_simps)
    qed
  qed
qed

text \<open>The addresses that reach the slot of \<open>va\<close> on level \<open>l\<close> are the aligned block around it.\<close>

lemma same_slot:
  assumes "unat a < 2 ^ 39" "unat va < 2 ^ 39" "l \<le> 2"
  shows "vpath l a = vpath l va \<and> vpn l a = vpn l va \<longleftrightarrow> a \<in> blk (lvl_bits l) va"
proof -
  have h: "bit a n \<longleftrightarrow> bit va n" if "39 \<le> n" for n
    using less_bits assms(1,2) that by (meson not_less)
  have v: "vpn k a = vpn k va \<longleftrightarrow> (\<forall>n<9. bit a (12 + 9 * k + n) \<longleftrightarrow> bit va (12 + 9 * k + n))" for k
  proof
    assume "vpn k a = vpn k va"
    then have "bit (vpn k a) n \<longleftrightarrow> bit (vpn k va) n" for n by simp
    then show "\<forall>n<9. bit a (12 + 9 * k + n) \<longleftrightarrow> bit va (12 + 9 * k + n)" unfolding bit_vpn by blast
  next
    assume "\<forall>n<9. bit a (12 + 9 * k + n) \<longleftrightarrow> bit va (12 + 9 * k + n)"
    then show "vpn k a = vpn k va" by (intro bit_word_eqI) (auto simp: bit_vpn)
  qed
  have split: "(\<forall>n\<ge>12 + 9 * k. bit a n \<longleftrightarrow> bit va n) \<longleftrightarrow>
      vpn k a = vpn k va \<and> (\<forall>n\<ge>12 + 9 * Suc k. bit a n \<longleftrightarrow> bit va n)" for k
  proof -
    have "(\<forall>n\<ge>12 + 9 * k. bit a n \<longleftrightarrow> bit va n)"
      if "\<forall>n<9. bit a (12 + 9 * k + n) \<longleftrightarrow> bit va (12 + 9 * k + n)"
        "\<forall>n\<ge>12 + 9 * Suc k. bit a n \<longleftrightarrow> bit va n"
    proof (intro allI impI)
      fix n assume "12 + 9 * k \<le> n"
      then obtain j where "n = 12 + 9 * k + j" by (metis le_add_diff_inverse)
      with that show "bit a n \<longleftrightarrow> bit va n" by (cases "j < 9") auto
    qed
    then show ?thesis unfolding v by auto
  qed
  define S where "S k \<longleftrightarrow> (\<forall>n\<ge>12 + 9 * k. bit a n \<longleftrightarrow> bit va n)" for k
  have st: "S k \<longleftrightarrow> vpn k a = vpn k va \<and> S (Suc k)" for k unfolding S_def by (rule split)
  have "S 3" using h by (simp add: S_def)
  then have S: "S 2 \<longleftrightarrow> vpn 2 a = vpn 2 va" "S 1 \<longleftrightarrow> vpn 1 a = vpn 1 va \<and> S 2"
    "S 0 \<longleftrightarrow> vpn 0 a = vpn 0 va \<and> S 1"
    using st [of 2] st [of 1] st [of 0] by (simp_all add: numeral_2_eq_2 numeral_3_eq_3)
  have "a \<in> blk (lvl_bits l) va \<longleftrightarrow> S l" by (simp only: S_def mem_blk)
  moreover from assms(3) have "l = 0 \<or> l = 1 \<or> l = 2" by linarith
  ultimately show ?thesis
    using S by (elim disjE) (simp_all add: vpath_def conj_commute)
qed

lemma leaf_translation:
  assumes "perm_ok ubit perm" and "aligned (lvl_bits l) pa" and "aligned (lvl_bits l) va"
    and "a \<in> blk (lvl_bits l) va"
  shows "translation a (l, leaf_pte ubit pa perm) = (pa + (a - va), leaf_flags ubit perm)"
proof -
  let ?k = "lvl_bits l"
  have pb: "page_base pa" using assms(2) by (auto simp: page_base_bits aligned_bits)
  have d: "a - va = take_bit ?k a"
  proof -
    have "va AND take_bit ?k a = 0"
      using assms(3) by (intro bit_eqI) (auto simp: bit_simps aligned_bits)
    then have "va + take_bit ?k a = va OR take_bit ?k a" by (rule word_add_eq_or)
    also have "\<dots> = a"
    proof (rule bit_word_eqI)
      fix n assume "n < LENGTH(64)"
      then show "bit (va OR take_bit ?k a) n \<longleftrightarrow> bit a n"
        using assms(3,4) by (cases "n < ?k") (auto simp: bit_simps aligned_bits mem_blk)
    qed
    finally show ?thesis by (metis add_diff_cancel_left')
  qed
  have "pa AND take_bit ?k a = 0"
    using assms(2) by (intro bit_eqI) (auto simp: bit_simps aligned_bits)
  then have "pa + take_bit ?k a = pa OR take_bit ?k a" by (rule word_add_eq_or)
  then show ?thesis
    using leaf_pte_parts [OF assms(1) pb] d by (simp add: translation_def)
qed

text \<open>The effect of a leaf on the translations below \<open>2 ^ 39\<close>.\<close>

lemma xlate_set_leaf:
  assumes "tree m root N" "tbl m root (vpath l va) = Some t" "l \<le> 2"
    and "ld64 m (cell t (vpn l va)) AND 1 = 0"
    and "perm_ok ubit perm" "aligned (lvl_bits l) pa" "aligned (lvl_bits l) va" "unat va < 2 ^ 39"
    and "unat a < 2 ^ 39"
  shows "xlate (st64 (cell t (vpn l va)) (leaf_pte ubit pa perm) m) root a =
    (if unat va \<le> unat a \<and> unat a < unat va + 2 ^ lvl_bits l
     then Some (pa + (a - va), leaf_flags ubit perm) else xlate m root a)"
proof -
  have pb: "page_base pa" using assms(6) by (auto simp: page_base_bits aligned_bits)
  have len: "2 - length (vpath l va) = l" using assms(3) by (auto simp: vpath_def)
  have "walk 2 (st64 (cell t (vpn l va)) (leaf_pte ubit pa perm) m) root a =
      (if a \<in> blk (lvl_bits l) va then Some (l, leaf_pte ubit pa perm) else walk 2 m root a)"
    using walk_set_leaf [OF assms(1) vpath_paths assms(2) vpn_less assms(4)
        leaf_pte_parts(1) [OF assms(5) pb], of a]
      same_slot [OF assms(9,8,3)] by (simp add: len)
  then show ?thesis
    using leaf_translation [OF assms(5-7), of a] blk_interval [OF assms(7)]
    by (auto simp: xlate_def)
qed

end
