(* ===== verification/KallocInv.thy ===== *)
theory KallocInv
  imports Kalloc
begin

text \<open>
  The invariant of the page allocator and its preservation by every step of \<open>kalloc\<close>,
  \<open>kfree\<close> and \<open>kalloc_init\<close>. The state is seen through the metadata fields as functions of
  the page index. Ghost data: the free list \<open>fl k\<close> of every order, the set \<open>L\<close> of live
  (allocated) blocks, the set \<open>H\<close> of blocks in transit inside a call, and the set \<open>U\<close> of
  page indices the allocator manages. The three kinds of blocks partition \<open>U\<close>.
\<close>

section \<open>Metadata fields as functions\<close>

definition nxt :: "'a kmem_scheme \<Rightarrow> u64 \<Rightarrow> u64" where "nxt s = (\<lambda>i. next_idx (page_array s i))"
definition prv :: "'a kmem_scheme \<Rightarrow> u64 \<Rightarrow> u64" where "prv s = (\<lambda>i. prev_idx (page_array s i))"
definition flg :: "'a kmem_scheme \<Rightarrow> u64 \<Rightarrow> u32" where "flg s = (\<lambda>i. flag (page_array s i))"
definition ordr :: "'a kmem_scheme \<Rightarrow> u64 \<Rightarrow> nat" where "ordr s = (\<lambda>i. order (page_array s i))"

lemma fields_upd_page [field_upd]:
  "nxt (upd_page i f s) = (nxt s)(i := next_idx (f (page_array s i)))"
  "prv (upd_page i f s) = (prv s)(i := prev_idx (f (page_array s i)))"
  "flg (upd_page i f s) = (flg s)(i := flag (f (page_array s i)))"
  "ordr (upd_page i f s) = (ordr s)(i := order (f (page_array s i)))"
  "free_lists (upd_page i f s) = free_lists s"
  "ram_base (upd_page i f s) = ram_base s"
  "ram_size (upd_page i f s) = ram_size s"
  "kalloc_lock (upd_page i f s) = kalloc_lock s"
  by (auto simp: nxt_def prv_def flg_def ordr_def upd_page_def)

lemma fields_set_free_list [field_upd]:
  "nxt (set_free_list k i s) = nxt s"
  "prv (set_free_list k i s) = prv s"
  "flg (set_free_list k i s) = flg s"
  "ordr (set_free_list k i s) = ordr s"
  "free_lists (set_free_list k i s) = (free_lists s)(k := i)"
  "ram_base (set_free_list k i s) = ram_base s"
  "ram_size (set_free_list k i s) = ram_size s"
  "kalloc_lock (set_free_list k i s) = kalloc_lock s"
  by (auto simp: nxt_def prv_def flg_def ordr_def set_free_list_def)

lemma fields_lock [field_upd]:
  "nxt (s\<lparr>kalloc_lock := l\<rparr>) = nxt s"
  "prv (s\<lparr>kalloc_lock := l\<rparr>) = prv s"
  "flg (s\<lparr>kalloc_lock := l\<rparr>) = flg s"
  "ordr (s\<lparr>kalloc_lock := l\<rparr>) = ordr s"
  by (auto simp: nxt_def prv_def flg_def ordr_def)

lemma page_fields [field_upd]:
  "next_idx (page_array s i) = nxt s i" "prev_idx (page_array s i) = prv s i"
  "flag (page_array s i) = flg s i" "order (page_array s i) = ordr s i"
  by (auto simp: nxt_def prv_def flg_def ordr_def)

lemma total_pages_eq: "ram_size s = ram_size t \<Longrightarrow> total_pages s = total_pages t"
  by (simp add: total_pages_def)

section \<open>What each step does to the fields\<close>

text \<open>Everything but the page metadata and the list heads is left alone.\<close>

definition same_ram :: "'a kmem_scheme \<Rightarrow> 'a kmem_scheme \<Rightarrow> bool" where
  "same_ram s t \<longleftrightarrow> ram_base t = ram_base s \<and> ram_size t = ram_size s \<and>
     kalloc_lock t = kalloc_lock s \<and> kmem.more t = kmem.more s"

lemma same_ram_refl [simp]: "same_ram s s"
  by (simp add: same_ram_def)

lemma same_ram_trans: "same_ram s t \<Longrightarrow> same_ram t u \<Longrightarrow> same_ram s u"
  by (simp add: same_ram_def)

lemma same_ram_total: "same_ram s t \<Longrightarrow> total_pages t = total_pages s"
  by (simp add: same_ram_def total_pages_def)

lemma same_ram_upd_page [simp]: "same_ram s (upd_page i f t) = same_ram s t"
  by (simp add: same_ram_def upd_page_def)

lemma same_ram_set_free_list [simp]: "same_ram s (set_free_list k i t) = same_ram s t"
  by (simp add: same_ram_def set_free_list_def)

lemma same_ram_if [simp]: "same_ram s (if b then t else u) = (if b then same_ram s t else same_ram s u)"
  by simp

text \<open>\<open>b\<close> has become the head of list \<open>k\<close>: the common effect of the three pushes in the code.\<close>

definition pushed :: "u64 \<Rightarrow> nat \<Rightarrow> 'a kmem_scheme \<Rightarrow> 'a kmem_scheme \<Rightarrow> bool" where
  "pushed b k s t \<longleftrightarrow> same_ram s t \<and>
     nxt t = (nxt s)(b := free_lists s k) \<and>
     prv t = (if free_lists s k \<noteq> NIL then (prv s)(free_lists s k := b) else prv s)(b := NIL) \<and>
     flg t = (flg s)(b := 0) \<and> ordr t = (ordr s)(b := k) \<and>
     free_lists t = (free_lists s)(k := b)"

lemma pushed_split_step: "pushed (idx + shl1 k) k s (kalloc_split_step idx k s)"
  unfolding pushed_def kalloc_split_step_def Let_def
  by (cases "free_lists s k = NIL") (auto simp: field_upd fun_eq_iff)

lemma pushed_kfree_insert: "pushed idx k s (kfree_insert idx k s)"
  unfolding pushed_def kfree_insert_def Let_def
  by (cases "free_lists s k = NIL") (auto simp: field_upd fun_eq_iff)

lemma pushed_init_push: "pushed idx 11 s (kalloc_init_push idx s)"
  unfolding pushed_def kalloc_init_push_def Let_def
  by (cases "free_lists s 11 = NIL") (auto simp: field_upd fun_eq_iff)

lemma kalloc_pop_fields:
  "same_ram s (kalloc_pop k i s)"
  "nxt (kalloc_pop k i s) = nxt s"
  "prv (kalloc_pop k i s) = (if nxt s i \<noteq> NIL then (prv s)(nxt s i := NIL) else prv s)"
  "flg (kalloc_pop k i s) = flg s"
  "ordr (kalloc_pop k i s) = ordr s"
  "free_lists (kalloc_pop k i s) = (free_lists s)(k := nxt s i)"
  unfolding kalloc_pop_def Let_def
  by (cases "nxt s i = NIL"; auto simp: field_upd fun_eq_iff)+

lemma kalloc_take_fields:
  "same_ram s (kalloc_take i k c s)"
  "nxt (kalloc_take i k c s) = (nxt s)(i := NIL)"
  "prv (kalloc_take i k c s) = (prv s)(i := NIL)"
  "flg (kalloc_take i k c s) = (flg s)(i := 1)"
  "ordr (kalloc_take i k c s) = (ordr s)(i := k)"
  "free_lists (kalloc_take i k c s) = free_lists s"
  unfolding kalloc_take_def by (auto simp: field_upd)

lemma kfree_unlink_fields:
  assumes "prv s b \<noteq> b" "nxt s b \<noteq> b"
  shows "same_ram s (kfree_unlink b k s)"
    and "nxt (kfree_unlink b k s) =
           (if prv s b \<noteq> NIL then (nxt s)(prv s b := nxt s b) else nxt s)(b := NIL)"
    and "prv (kfree_unlink b k s) =
           (if nxt s b \<noteq> NIL then (prv s)(nxt s b := prv s b) else prv s)(b := NIL)"
    and "flg (kfree_unlink b k s) = (flg s)(b := 2)"
    and "ordr (kfree_unlink b k s) = (ordr s)(b := 0)"
    and "free_lists (kfree_unlink b k s) =
           (free_lists s)(k := if prv s b = NIL then nxt s b else free_lists s k)"
  unfolding kfree_unlink_def Let_def using assms
  by (cases "prv s b = NIL"; cases "nxt s b = NIL"; auto simp: field_upd fun_eq_iff)+

section \<open>The invariant\<close>

definition free_blocks :: "(nat \<Rightarrow> u64 list) \<Rightarrow> (u64 \<times> nat) set" where
  "free_blocks fl = {(i, k). k < MAX_ORDER \<and> i \<in> set (fl k)}"

definition lists_ok :: "'a kmem_scheme \<Rightarrow> (nat \<Rightarrow> u64 list) \<Rightarrow> bool" where
  "lists_ok s fl \<longleftrightarrow> (\<forall>k<MAX_ORDER. dlist NIL (nxt s) (prv s) (free_lists s k) (fl k))"

definition flags_ok ::
  "'a kmem_scheme \<Rightarrow> (nat \<Rightarrow> u64 list) \<Rightarrow> (u64 \<times> nat) set \<Rightarrow> (u64 \<times> nat) set \<Rightarrow> bool" where
  "flags_ok s fl L H \<longleftrightarrow>
     (\<forall>(i, k)\<in>free_blocks fl. flg s i = 0 \<and> ordr s i = k) \<and>
     (\<forall>(i, k)\<in>L. flg s i = 1 \<and> ordr s i = k) \<and>
     (\<forall>i<total_pages s. flg s i = 0 \<longrightarrow> (\<exists>k. (i, k) \<in> free_blocks fl \<union> H))"

definition blocks_ok ::
  "'a kmem_scheme \<Rightarrow> (nat \<Rightarrow> u64 list) \<Rightarrow> (u64 \<times> nat) set \<Rightarrow> (u64 \<times> nat) set \<Rightarrow> u64 set \<Rightarrow> bool" where
  "blocks_ok s fl L H U \<longleftrightarrow>
     free_blocks fl \<inter> L = {} \<and> free_blocks fl \<inter> H = {} \<and> L \<inter> H = {} \<and>
     partitioned (free_blocks fl \<union> L \<union> H) U \<and>
     (\<forall>i\<in>U. i < total_pages s) \<and> total_pages s \<le> NIL"

definition buddy_inv ::
  "'a kmem_scheme \<Rightarrow> (nat \<Rightarrow> u64 list) \<Rightarrow> (u64 \<times> nat) set \<Rightarrow> (u64 \<times> nat) set \<Rightarrow> u64 set \<Rightarrow> bool" where
  "buddy_inv s fl L H U \<longleftrightarrow> lists_ok s fl \<and> flags_ok s fl L H \<and> blocks_ok s fl L H U"

lemma buddy_invD:
  assumes "buddy_inv s fl L H U"
  shows "lists_ok s fl" "flags_ok s fl L H" "blocks_ok s fl L H U"
  using assms by (auto simp: buddy_inv_def)

text \<open>No two block heads coincide, so an index is in at most one list.\<close>

lemma blocks_functional:
  "blocks_ok s fl L H U \<Longrightarrow> (i, k) \<in> free_blocks fl \<union> L \<union> H \<Longrightarrow>
   (i, m) \<in> free_blocks fl \<union> L \<union> H \<Longrightarrow> k = m"
  unfolding blocks_ok_def by (blast intro: partitioned_functional)

lemma blocks_notin_list:
  assumes "blocks_ok s fl L H U" and "(i, k) \<in> L \<union> H" and "m < MAX_ORDER"
  shows "i \<notin> set (fl m)"
proof
  assume i: "i \<in> set (fl m)"
  then have f: "(i, m) \<in> free_blocks fl" using assms(3) by (simp add: free_blocks_def)
  then have "k = m" using assms(1,2) blocks_functional by blast
  with f assms show False by (auto simp: blocks_ok_def)
qed

lemma blocks_list_unique:
  assumes "blocks_ok s fl L H U" and "i \<in> set (fl k)" "k < MAX_ORDER" "i \<in> set (fl m)" "m < MAX_ORDER"
  shows "k = m"
proof -
  have "(i, k) \<in> free_blocks fl" "(i, m) \<in> free_blocks fl" using assms by (auto simp: free_blocks_def)
  then show ?thesis using assms(1) blocks_functional by blast
qed

lemma blocks_below_NIL:
  assumes "blocks_ok s fl L H U" and "(i, k) \<in> free_blocks fl \<union> L \<union> H"
  shows "i < total_pages s" "i < NIL" "i \<noteq> NIL" "i \<in> U"
proof -
  show "i \<in> U" using assms unfolding blocks_ok_def by (blast intro: partitioned_mem)
  then show 1: "i < total_pages s" using assms by (simp add: blocks_ok_def)
  have "total_pages s \<le> NIL" using assms by (simp add: blocks_ok_def)
  with 1 show "i < NIL" by (rule less_le_trans)
  then show "i \<noteq> NIL" by simp
qed

section \<open>Steps\<close>

lemma free_blocks_upd:
  "k < MAX_ORDER \<Longrightarrow> free_blocks (fl(k := xs)) = {p \<in> free_blocks fl. snd p \<noteq> k} \<union> (\<lambda>i. (i, k)) ` set xs"
  by (auto simp: free_blocks_def split: if_splits)

lemma free_blocks_cons:
  "k < MAX_ORDER \<Longrightarrow> free_blocks (fl(k := b # fl k)) = insert (b, k) (free_blocks fl)"
  by (auto simp: free_blocks_def split: if_splits)

lemma free_blocks_remove:
  "k < MAX_ORDER \<Longrightarrow> distinct (fl k) \<Longrightarrow>
   free_blocks (fl(k := remove1 b (fl k))) = free_blocks fl - {(b, k)}"
  by (auto simp: free_blocks_def split: if_splits)

text \<open>Lists that do not touch the pushed or removed element keep their shape.\<close>

lemma lists_push:
  assumes l: "lists_ok s fl" and p: "pushed b k s t" and k: "k < MAX_ORDER" and n: "b \<noteq> NIL"
    and out: "\<And>m. m < MAX_ORDER \<Longrightarrow> b \<notin> set (fl m)"
    and uniq: "\<And>i m. m < MAX_ORDER \<Longrightarrow> i \<in> set (fl k) \<Longrightarrow> i \<in> set (fl m) \<Longrightarrow> k = m"
  shows "lists_ok t (fl(k := b # fl k))"
  unfolding lists_ok_def
proof (intro allI impI)
  fix m assume m: "m < MAX_ORDER"
  from l k have lk: "dlist NIL (nxt s) (prv s) (free_lists s k) (fl k)" by (simp add: lists_ok_def)
  from l m have lm: "dlist NIL (nxt s) (prv s) (free_lists s m) (fl m)" by (simp add: lists_ok_def)
  show "dlist NIL (nxt t) (prv t) (free_lists t m) ((fl(k := b # fl k)) m)"
  proof (cases "m = k")
    case True
    with dlist_push [OF lk out [OF k] n] p show ?thesis by (simp add: pushed_def)
  next
    case False
    have "free_lists s k \<noteq> NIL \<Longrightarrow> free_lists s k \<notin> set (fl m)"
      using dlist_nonempty [OF lk] uniq [OF m] False by force
    then show ?thesis using p lm False out [OF m] by (auto simp: pushed_def)
  qed
qed

lemma inv_push:
  assumes i: "buddy_inv s fl L (insert (b, k) H) U" and h: "(b, k) \<notin> H" and p: "pushed b k s t"
  shows "buddy_inv t (fl(k := b # fl k)) L H U"
proof -
  note iv = buddy_invD [OF i]
  have k: "k < MAX_ORDER" using iv(3) by (auto simp: blocks_ok_def intro: partitioned_order)
  have out: "b \<notin> set (fl m)" if "m < MAX_ORDER" for m
    using blocks_notin_list [OF iv(3), of b k m] that by simp
  have bn: "b \<noteq> NIL" using blocks_below_NIL(3) [OF iv(3), of b k] by simp
  have tot: "total_pages t = total_pages s" using p by (simp add: pushed_def same_ram_total)
  have bL: "(b, m) \<notin> L" for m
    using iv(3) blocks_functional [OF iv(3), of b k m] by (auto simp: blocks_ok_def)
  have "lists_ok t (fl(k := b # fl k))"
    using iv(1) p k bn out blocks_list_unique [OF iv(3) _ k] by (rule lists_push)
  moreover have "flags_ok t (fl(k := b # fl k)) L H"
    unfolding flags_ok_def free_blocks_cons [OF k] tot
  proof (intro conjI)
    show "\<forall>(i, m)\<in>insert (b, k) (free_blocks fl). flg t i = 0 \<and> ordr t i = m"
      using iv(2) p out by (auto simp: flags_ok_def pushed_def free_blocks_def)
    show "\<forall>(i, m)\<in>L. flg t i = 1 \<and> ordr t i = m"
      using iv(2) p bL by (auto simp: flags_ok_def pushed_def)
    show "\<forall>i<total_pages s. flg t i = 0 \<longrightarrow> (\<exists>m. (i, m) \<in> insert (b, k) (free_blocks fl) \<union> H)"
      using iv(2) p by (auto simp: flags_ok_def pushed_def)
  qed
  moreover have "blocks_ok t (fl(k := b # fl k)) L H U"
    using iv(3) h bL unfolding blocks_ok_def free_blocks_cons [OF k] tot by auto
  ultimately show ?thesis by (simp add: buddy_inv_def)
qed

lemma lists_pop:
  assumes l: "lists_ok s fl" and k: "k < MAX_ORDER" and f: "fl k = i # xs"
    and uniq: "\<And>j m. m < MAX_ORDER \<Longrightarrow> j \<in> set (fl k) \<Longrightarrow> j \<in> set (fl m) \<Longrightarrow> k = m"
  shows "lists_ok (kalloc_pop k i s) (fl(k := xs))" and "free_lists s k = i"
proof -
  from l k f have lk: "dlist NIL (nxt s) (prv s) (free_lists s k) (i # xs)"
    unfolding lists_ok_def by metis
  then show "free_lists s k = i" by (rule dlist_pop)
  have lx: "dlist NIL (nxt s) (if nxt s i \<noteq> NIL then (prv s)(nxt s i := NIL) else prv s) (nxt s i) xs"
    using lk by (rule dlist_pop)
  have nx: "nxt s i \<noteq> NIL \<Longrightarrow> nxt s i \<in> set (fl k)"
    using dlist_nonempty [OF lx] f by auto
  show "lists_ok (kalloc_pop k i s) (fl(k := xs))"
    unfolding lists_ok_def kalloc_pop_fields
  proof (intro allI impI)
    fix m assume m: "m < MAX_ORDER"
    from l m have lm: "dlist NIL (nxt s) (prv s) (free_lists s m) (fl m)" by (simp add: lists_ok_def)
    show "dlist NIL (nxt s) (if nxt s i \<noteq> NIL then (prv s)(nxt s i := NIL) else prv s)
            (((free_lists s)(k := nxt s i)) m) ((fl(k := xs)) m)"
    proof (cases "m = k")
      case True with lx show ?thesis by simp
    next
      case False
      then have "nxt s i \<noteq> NIL \<Longrightarrow> nxt s i \<notin> set (fl m)" using nx uniq [OF m] by blast
      with lm False show ?thesis by simp
    qed
  qed
qed

lemma inv_pop:
  assumes i: "buddy_inv s fl L {} U" and k: "k < MAX_ORDER" and f: "fl k = i # xs"
  shows "buddy_inv (kalloc_pop k i s) (fl(k := xs)) L {(i, k)} U" and "free_lists s k = i"
proof -
  note iv = buddy_invD [OF i]
  let ?t = "kalloc_pop k i s"
  have d: "distinct (fl k)" using iv(1) k by (auto simp: lists_ok_def dlist_def)
  have fb: "free_blocks (fl(k := xs)) = free_blocks fl - {(i, k)}"
    using free_blocks_remove [of k fl i] k d f by simp
  have ik: "(i, k) \<in> free_blocks fl" using k f by (simp add: free_blocks_def)
  have tot: "total_pages ?t = total_pages s" by (intro same_ram_total kalloc_pop_fields)
  have "lists_ok ?t (fl(k := xs))" and "free_lists s k = i"
    using lists_pop [OF iv(1) k f] blocks_list_unique [OF iv(3) _ k] by auto
  then show "free_lists s k = i" by simp
  have "flags_ok ?t (fl(k := xs)) L {(i, k)}"
    using iv(2) unfolding flags_ok_def fb tot kalloc_pop_fields by fastforce
  moreover have "blocks_ok ?t (fl(k := xs)) L {(i, k)} U"
  proof -
    have "free_blocks fl - {(i, k)} \<union> L \<union> {(i, k)} = free_blocks fl \<union> L \<union> {}" using ik by auto
    then show ?thesis using iv(3) ik unfolding blocks_ok_def fb tot by auto
  qed
  ultimately show "buddy_inv ?t (fl(k := xs)) L {(i, k)} U"
    using \<open>lists_ok ?t (fl(k := xs))\<close> by (simp add: buddy_inv_def)
qed

lemma inv_take:
  assumes i: "buddy_inv s fl L (insert (b, k) H) U" and h: "(b, k) \<notin> H"
  shows "buddy_inv (kalloc_take b k c s) fl (insert (b, k) L) H U"
proof -
  note iv = buddy_invD [OF i]
  let ?t = "kalloc_take b k c s"
  have out: "b \<notin> set (fl m)" if "m < MAX_ORDER" for m
    using blocks_notin_list [OF iv(3), of b k m] that by simp
  have tot: "total_pages ?t = total_pages s" by (intro same_ram_total kalloc_take_fields)
  have bL: "(b, m) \<notin> L" for m
    using iv(3) blocks_functional [OF iv(3), of b k m] by (auto simp: blocks_ok_def)
  have "lists_ok ?t fl"
    using iv(1) out unfolding lists_ok_def kalloc_take_fields by simp
  moreover have "flags_ok ?t fl (insert (b, k) L) H"
    unfolding flags_ok_def kalloc_take_fields tot
  proof (intro conjI)
    show "\<forall>(i, m)\<in>free_blocks fl. ((flg s)(b := 1)) i = 0 \<and> ((ordr s)(b := k)) i = m"
      using iv(2) out by (auto simp: flags_ok_def free_blocks_def)
    show "\<forall>(i, m)\<in>insert (b, k) L. ((flg s)(b := 1)) i = 1 \<and> ((ordr s)(b := k)) i = m"
      using iv(2) bL by (auto simp: flags_ok_def)
    show "\<forall>i<total_pages s. ((flg s)(b := 1)) i = 0 \<longrightarrow> (\<exists>m. (i, m) \<in> free_blocks fl \<union> H)"
      using iv(2) by (auto simp: flags_ok_def)
  qed
  moreover have "blocks_ok ?t fl (insert (b, k) L) H U"
    using iv(3) h unfolding blocks_ok_def tot by auto
  ultimately show ?thesis by (simp add: buddy_inv_def)
qed

text \<open>A live block leaves the live set when its owner hands it to \<open>kfree\<close>.\<close>

lemma inv_release:
  assumes "buddy_inv s fl (insert x L) H U" and "x \<notin> L"
  shows "buddy_inv s fl L (insert x H) U"
proof -
  from assms have "x \<notin> H" by (auto simp: buddy_inv_def blocks_ok_def)
  with assms show ?thesis by (auto simp: buddy_inv_def blocks_ok_def flags_ok_def)
qed

lemma inv_unlink:
  assumes i: "buddy_inv s fl L H U" and k: "k < MAX_ORDER" and b: "b \<in> set (fl k)"
  shows "buddy_inv (kfree_unlink b k s) (fl(k := remove1 b (fl k))) L (insert (b, k) H) U"
    and "flg (kfree_unlink b k s) = (flg s)(b := 2)" and "same_ram s (kfree_unlink b k s)"
proof -
  note iv = buddy_invD [OF i]
  let ?t = "kfree_unlink b k s"
  from b obtain xs ys where sp: "fl k = xs @ b # ys" by (meson split_list)
  from iv(1) k have lk: "dlist NIL (nxt s) (prv s) (free_lists s k) (xs @ b # ys)"
    unfolding lists_ok_def sp [symmetric] by simp
  note sf = dlist_split_fields [OF lk]
  have d: "distinct (xs @ b # ys)" using lk by (rule dlist_distinct)
  have bn: "b \<noteq> NIL" using lk by (auto simp: dlist_def)
  have pb: "prv s b \<noteq> b" using sf(1) d bn by (cases xs rule: rev_cases) auto
  have nb: "nxt s b \<noteq> b" using sf(2) d bn by (cases ys) auto
  note tf = kfree_unlink_fields [OF pb nb, of k]
  show "flg ?t = (flg s)(b := 2)" "same_ram s ?t" by (rule tf)+
  have rm: "remove1 b (fl k) = xs @ ys" using sp d by (simp add: remove1_append)
  have dk: "distinct (fl k)" using d sp by simp
  have fb: "free_blocks (fl(k := remove1 b (fl k))) = free_blocks fl - {(b, k)}"
    using k dk by (rule free_blocks_remove)
  have bk: "(b, k) \<in> free_blocks fl" using b k by (simp add: free_blocks_def)
  have pin: "prv s b \<noteq> NIL \<Longrightarrow> prv s b \<in> set (fl k)"
    using sf(1) sp by (cases xs rule: rev_cases) auto
  have nin: "nxt s b \<noteq> NIL \<Longrightarrow> nxt s b \<in> set (fl k)"
    using sf(2) sp by (cases ys) auto
  have "lists_ok ?t (fl(k := remove1 b (fl k)))"
    unfolding lists_ok_def
  proof (intro allI impI)
    fix m assume m: "m < MAX_ORDER"
    from iv(1) m have lm: "dlist NIL (nxt s) (prv s) (free_lists s m) (fl m)" by (simp add: lists_ok_def)
    show "dlist NIL (nxt ?t) (prv ?t) (free_lists ?t m) ((fl(k := remove1 b (fl k))) m)"
    proof (cases "m = k")
      case True
      with dlist_unlink [OF lk] d show ?thesis by (simp add: tf rm)
    next
      case False
      then have o: "b \<notin> set (fl m)" "prv s b \<noteq> NIL \<Longrightarrow> prv s b \<notin> set (fl m)"
        "nxt s b \<noteq> NIL \<Longrightarrow> nxt s b \<notin> set (fl m)"
        using b pin nin blocks_list_unique [OF iv(3) _ k _ m] by metis+
      then show ?thesis using lm False by (simp add: tf)
    qed
  qed
  moreover have "flags_ok ?t (fl(k := remove1 b (fl k))) L (insert (b, k) H)"
  proof -
    have o: "\<And>i m. (i, m) \<in> free_blocks fl - {(b, k)} \<union> L \<Longrightarrow> i \<noteq> b"
      using bk iv(3) blocks_functional [OF iv(3)] by (auto simp: blocks_ok_def)
    have tot: "total_pages ?t = total_pages s" by (rule same_ram_total [OF tf(1)])
    show ?thesis using iv(2) o unfolding flags_ok_def fb tot tf(4,5) by fastforce
  qed
  moreover have "blocks_ok ?t (fl(k := remove1 b (fl k))) L (insert (b, k) H) U"
  proof -
    have "free_blocks fl - {(b, k)} \<union> L \<union> insert (b, k) H = free_blocks fl \<union> L \<union> H" using bk by auto
    then show ?thesis
      using iv(3) bk same_ram_total [OF tf(1)] unfolding blocks_ok_def fb by auto
  qed
  ultimately show "buddy_inv ?t (fl(k := remove1 b (fl k))) L (insert (b, k) H) U"
    by (simp add: buddy_inv_def)
qed

section \<open>Allocation\<close>

text \<open>Splitting: one block in transit, whose upper half goes to the list below.\<close>

lemma inv_halve:
  assumes i: "buddy_inv s fl L {(b, Suc k)} U"
  shows "buddy_inv s fl L {(b, k), (buddy k b, k)} U" and "k < MAX_ORDER"
    and "b + shl1 k = buddy k b" and "buddy k b \<noteq> b"
proof -
  note iv = buddy_invD [OF i]
  have p: "partitioned (insert (b, Suc k) (free_blocks fl \<union> L)) U"
    and n: "(b, Suc k) \<notin> free_blocks fl \<union> L"
    using iv(3) by (auto simp: blocks_ok_def)
  then have k: "Suc k < MAX_ORDER" and a: "aligned (Suc k) b" by (auto simp: partitioned_def)
  from k show "k < MAX_ORDER" by simp
  show "b + shl1 k = buddy k b" using a by (rule buddy_add)
  show nb: "buddy k b \<noteq> b" using k by (simp add: buddy_neq)
  have nin: "(x, m) \<notin> free_blocks fl \<union> L" if "x \<in> blk (Suc k) b" for x m
  proof
    assume "(x, m) \<in> free_blocks fl \<union> L"
    then have "(x, m) = (b, Suc k) \<or> blk m x \<inter> blk (Suc k) b = {}"
      using p partitioned_disjoint [OF p, of x m b "Suc k"] by auto
    then have "blk m x \<inter> blk (Suc k) b = {}" using n \<open>(x, m) \<in> free_blocks fl \<union> L\<close> by auto
    with that show False using self_in_blk by (metis IntI empty_iff)
  qed
  have "b \<in> blk (Suc k) b" "buddy k b \<in> blk (Suc k) b"
    using k self_in_blk [of "buddy k b" k] by (auto simp: blk_Suc)
  then have o: "(b, k) \<notin> free_blocks fl \<union> L" "(buddy k b, k) \<notin> free_blocks fl \<union> L"
    using nin by blast+
  have "partitioned (insert (b, k) (insert (buddy k b, k) (free_blocks fl \<union> L))) U"
    using p n o by (rule partitioned_split)
  moreover have "free_blocks fl \<union> L \<union> {(b, k), (buddy k b, k)} =
      insert (b, k) (insert (buddy k b, k) (free_blocks fl \<union> L))" by auto
  ultimately show "buddy_inv s fl L {(b, k), (buddy k b, k)} U"
    using i o unfolding buddy_inv_def blocks_ok_def flags_ok_def by force
qed

lemma inv_split_step:
  assumes i: "buddy_inv s fl L {(b, Suc k)} U"
  shows "\<exists>fl'. buddy_inv (kalloc_split_step b k s) fl' L {(b, k)} U"
proof -
  note h = inv_halve [OF i]
  have "buddy_inv s fl L (insert (buddy k b, k) {(b, k)}) U" using h(1) by (simp add: insert_commute)
  moreover have "pushed (buddy k b) k s (kalloc_split_step b k s)"
    using pushed_split_step [of b k s] h(3) by simp
  ultimately show ?thesis using h(4) inv_push by blast
qed

lemma inv_split:
  "buddy_inv s fl L {(b, c)} U \<Longrightarrow> req \<le> c \<Longrightarrow>
   \<exists>fl'. buddy_inv (kalloc_split b req c s) fl' L {(b, req)} U"
proof (induction b req c s arbitrary: fl rule: kalloc_split.induct)
  case (1 b req s)
  then show ?case by auto
next
  case (2 b req c s)
  show ?case
  proof (cases "Suc c > req")
    case True
    from inv_split_step [OF 2(2)] obtain fl1 where "buddy_inv (kalloc_split_step b c s) fl1 L {(b, c)} U" ..
    from 2(1) [OF True this] True show ?thesis by simp
  next
    case False
    with 2 have "req = Suc c" by simp
    with 2(2) show ?thesis by auto
  qed
qed

lemma same_ram_split_step: "same_ram s (kalloc_split_step b k s)"
  using pushed_split_step by (auto simp: pushed_def)

lemma same_ram_split: "same_ram s (kalloc_split b req c s)"
proof (induction b req c s rule: kalloc_split.induct)
  case (2 b req c s)
  then show ?case
    using same_ram_trans [OF same_ram_split_step] by (cases "Suc c > req") auto
qed simp

text \<open>The search: it ends at the first order from the request on whose list is not empty.\<close>

definition search_ok :: "'a kmem_scheme \<Rightarrow> nat \<Rightarrow> (nat \<times> u64) outcome \<Rightarrow> bool" where
  "search_ok s k r \<longleftrightarrow>
     (\<exists>m. r = Ret (m, free_lists s m) \<and> k \<le> m \<and> m < MAX_ORDER \<and> free_lists s m \<noteq> NIL \<and>
        (\<forall>j. k \<le> j \<and> j < m \<longrightarrow> free_lists s j = NIL)) \<or>
     r = Panic 101 0 \<and> (\<forall>j. k \<le> j \<and> j < MAX_ORDER \<longrightarrow> free_lists s j = NIL)"

lemma search_ok_Suc: "free_lists s k = NIL \<Longrightarrow> search_ok s (Suc k) r \<Longrightarrow> search_ok s k r"
  unfolding search_ok_def by (metis Suc_leD Suc_leI le_eq_less_or_eq)

lemma kalloc_search_ok:
  "k < MAX_ORDER \<Longrightarrow> i = free_lists s k \<Longrightarrow> search_ok s k (kalloc_search s k i)"
proof (induction s k i rule: kalloc_search.induct)
  case (1 s k i)
  show ?case
  proof (cases "i = NIL")
    case False
    then have "kalloc_search s k i = Ret (k, free_lists s k)"
      using "1.prems" by (subst kalloc_search.simps) simp
    with False "1.prems" show ?thesis by (auto simp: search_ok_def)
  next
    case N: True
    show ?thesis
    proof (cases "Suc k \<ge> MAX_ORDER")
      case True
      then have "kalloc_search s k i = Panic 101 0" using N by (subst kalloc_search.simps) simp
      moreover have "\<And>j. k \<le> j \<and> j < MAX_ORDER \<Longrightarrow> j = k" using True "1.prems" by linarith
      ultimately show ?thesis using N "1.prems" by (auto simp: search_ok_def)
    next
      case False
      then have "kalloc_search s k i = kalloc_search s (Suc k) (free_lists s (Suc k))"
        using N by (subst kalloc_search.simps) simp
      with "1.IH" [OF N False] False N "1.prems" show ?thesis by (auto intro: search_ok_Suc)
    qed
  qed
qed

section \<open>Page addresses\<close>

definition page_addr :: "'a kmem_scheme \<Rightarrow> u64 \<Rightarrow> u64" where
  "page_addr s i = ram_base s + i * 4096"

definition ram_ok :: "'a kmem_scheme \<Rightarrow> bool" where
  "ram_ok s \<longleftrightarrow> ram_base s AND 0xFFF = 0 \<and> unat (ram_base s) + unat (ram_size s) \<le> 2 ^ 64"

lemma page_addr_index: "i < total_pages s \<Longrightarrow> (page_addr s i - ram_base s) div 4096 = i"
  unfolding page_addr_def total_pages_def by (rule page_index)

lemma page_addr_aligned: "ram_ok s \<Longrightarrow> page_addr s i AND 0xFFF = 0"
  by (simp add: ram_ok_def page_addr_def and_FFF_0_iff unat_add_page)

lemma unat_page_addr:
  assumes "ram_ok s" and "i < total_pages s"
  shows "unat (page_addr s i) = unat (ram_base s) + unat i * 4096"
proof -
  have o: "unat (i * 4096) = unat i * 4096" "unat i * 4096 + 4096 \<le> unat (ram_size s)"
    using assms(2) unfolding total_pages_def by (rule unat_page_offset, rule page_index_bound)
  then have "unat (ram_base s) + unat (i * 4096) < 2 ^ LENGTH(64)"
    using assms(1) by (simp add: ram_ok_def)
  then have "unat (ram_base s + i * 4096) = unat (ram_base s) + unat (i * 4096)"
    by (rule unat_add_lem [THEN iffD1])
  then show ?thesis by (simp only: page_addr_def o)
qed

section \<open>The heap as its clients see it\<close>

text \<open>\<open>heap_ok s L U\<close>: between two calls, \<open>L\<close> is the set of live blocks of the pool \<open>U\<close>.\<close>

definition heap_ok :: "'a kmem_scheme \<Rightarrow> (u64 \<times> nat) set \<Rightarrow> u64 set \<Rightarrow> bool" where
  "heap_ok s L U \<longleftrightarrow> (\<exists>fl. buddy_inv s fl L {} U) \<and> kalloc_lock s = 0 \<and> ram_ok s"

lemma ram_ok_same: "same_ram s t \<Longrightarrow> ram_ok t = ram_ok s"
  by (simp add: ram_ok_def same_ram_def)

lemma buddy_inv_lock [simp]: "buddy_inv (s\<lparr>kalloc_lock := l\<rparr>) fl L H U = buddy_inv s fl L H U"
  by (simp add: buddy_inv_def lists_ok_def flags_ok_def blocks_ok_def field_upd total_pages_def)

lemma heap_ok_live:
  assumes "heap_ok s L U" and "(i, k) \<in> L"
  shows "i < total_pages s" "k < MAX_ORDER" "aligned k i" "blk k i \<subseteq> U" "flg s i = 1" "ordr s i = k"
    "\<And>j m. (j, m) \<in> L \<Longrightarrow> (j, m) \<noteq> (i, k) \<Longrightarrow> blk k i \<inter> blk m j = {}"
proof -
  from assms obtain fl where i: "buddy_inv s fl L {} U" by (auto simp: heap_ok_def)
  note iv = buddy_invD [OF i]
  from iv(3) have p: "partitioned (free_blocks fl \<union> L) U" by (simp add: blocks_ok_def)
  have m: "(i, k) \<in> free_blocks fl \<union> L" using assms(2) by simp
  show "i < total_pages s" using blocks_below_NIL(1) [OF iv(3)] m by simp
  show "k < MAX_ORDER" using p m by (rule partitioned_order)
  show "aligned k i" using p m by (rule partitioned_aligned)
  show "blk k i \<subseteq> U" using p m by (rule partitioned_subset)
  show "flg s i = 1" "ordr s i = k" using iv(2) assms(2) by (auto simp: flags_ok_def)
  show "\<And>j m. (j, m) \<in> L \<Longrightarrow> (j, m) \<noteq> (i, k) \<Longrightarrow> blk k i \<inter> blk m j = {}"
    using partitioned_disjoint [OF p m] by auto
qed

lemma kalloc_heap_ok:
  assumes h: "heap_ok s L U" and k: "ord < MAX_ORDER"
  shows "(\<exists>i t. kalloc ord c s = Ret (page_addr s i, t) \<and> (i, ord) \<notin> L \<and>
            heap_ok t (insert (i, ord) L) U \<and> same_ram s t) \<or>
         kalloc ord c s = Panic 101 0 \<and> (\<forall>m. ord \<le> m \<and> m < MAX_ORDER \<longrightarrow> free_lists s m = NIL)"
proof -
  from h obtain fl where i: "buddy_inv s fl L {} U" and l0: "kalloc_lock s = 0" and r: "ram_ok s"
    by (auto simp: heap_ok_def)
  define s1 where "s1 = s\<lparr>kalloc_lock := 1\<rparr>"
  have i1: "buddy_inv s1 fl L {} U" using i by (simp add: s1_def)
  have fs: "free_lists s1 = free_lists s" by (simp add: s1_def)
  let ?r = "kalloc_search s1 ord (free_lists s1 ord)"
  have eq: "kalloc ord c s = bindO ?r (\<lambda>(m, i).
      let t = kalloc_take i ord c (kalloc_split i ord m (kalloc_pop m i s1))
      in Ret (ram_base t + i * 4096, t\<lparr>kalloc_lock := 0\<rparr>))"
    using k l0 by (simp add: kalloc_def spinlock_acquire_def spinlock_release_def s1_def Let_def)
  consider m where "?r = Ret (m, free_lists s m)" "ord \<le> m" "m < MAX_ORDER" "free_lists s m \<noteq> NIL"
    | "?r = Panic 101 0" "\<forall>j. ord \<le> j \<and> j < MAX_ORDER \<longrightarrow> free_lists s j = NIL"
    using kalloc_search_ok [OF k, of "free_lists s1 ord" s1] by (auto simp: search_ok_def fs)
  then show ?thesis
  proof cases
    case 1
    let ?i = "free_lists s m"
    let ?t = "kalloc_take ?i ord c (kalloc_split ?i ord m (kalloc_pop m ?i s1))"
    have "dlist NIL (nxt s1) (prv s1) (free_lists s1 m) (fl m)"
      using i1 1 by (simp add: buddy_inv_def lists_ok_def)
    then obtain xs where f: "fl m = ?i # xs" using dlist_nonempty 1(4) fs by metis
    have "buddy_inv (kalloc_pop m ?i s1) (fl(m := xs)) L {(?i, m)} U"
      using inv_pop(1) [OF i1 1(3) f] .
    from inv_split [OF this 1(2)] obtain fl' where
      i2: "buddy_inv (kalloc_split ?i ord m (kalloc_pop m ?i s1)) fl' L {(?i, ord)} U" ..
    then have nL: "(?i, ord) \<notin> L" by (auto simp: buddy_inv_def blocks_ok_def)
    have i3: "buddy_inv ?t fl' (insert (?i, ord) L) {} U" using i2 by (intro inv_take) auto
    have sr: "same_ram s1 ?t"
      using same_ram_trans same_ram_split kalloc_pop_fields(1) kalloc_take_fields(1) by metis
    then have sr0: "same_ram s (?t\<lparr>kalloc_lock := 0\<rparr>)"
      using l0 by (simp add: same_ram_def s1_def)
    have "kalloc ord c s = Ret (page_addr s ?i, ?t\<lparr>kalloc_lock := 0\<rparr>)"
      using eq 1(1) sr by (simp add: page_addr_def same_ram_def s1_def Let_def)
    moreover have "heap_ok (?t\<lparr>kalloc_lock := 0\<rparr>) (insert (?i, ord) L) U"
      using i3 r ram_ok_same [OF sr0] by (auto simp: heap_ok_def)
    ultimately show ?thesis using nL sr0 by blast
  next
    case 2
    then show ?thesis using eq by simp
  qed
qed

section \<open>Release\<close>

text \<open>Two buddies in transit become one block of the next order.\<close>

lemma inv_coalesce:
  assumes i: "buddy_inv s fl L {(b, k), (buddy k b, k)} U" and k: "k < MAX_ORDER - 1"
    and f: "flg s b \<noteq> 0" "flg s (buddy k b) \<noteq> 0"
  shows "buddy_inv s fl L {(b AND NOT (shl1 k), Suc k)} U" and "flg s (b AND NOT (shl1 k)) \<noteq> 0"
proof -
  note iv = buddy_invD [OF i]
  let ?c = "b AND NOT (shl1 k)"
  have c: "?c = b \<or> ?c = buddy k b" by (rule clear_cases)
  then show "flg s ?c \<noteq> 0" using f by auto
  have nb: "buddy k b \<noteq> b" using k by (simp add: buddy_neq)
  have "(?c, k) \<in> {(b, k), (buddy k b, k)}" using c by auto
  then have n: "(?c, Suc k) \<notin> free_blocks fl \<union> L"
    using blocks_functional [OF iv(3), of ?c k "Suc k"] by auto
  have n': "(b, k) \<notin> free_blocks fl \<union> L" "(buddy k b, k) \<notin> free_blocks fl \<union> L"
    using iv(3) by (auto simp: blocks_ok_def)
  have "free_blocks fl \<union> L \<union> {(b, k), (buddy k b, k)} =
      insert (b, k) (insert (buddy k b, k) (free_blocks fl \<union> L))" by auto
  then have "partitioned (insert (b, k) (insert (buddy k b, k) (free_blocks fl \<union> L))) U"
    using iv(3) by (simp add: blocks_ok_def)
  then have "partitioned (insert (?c, Suc k) (free_blocks fl \<union> L)) U"
    using k n n' by (intro partitioned_merge) auto
  then have "blocks_ok s fl L {(?c, Suc k)} U" using iv(3) n by (auto simp: blocks_ok_def)
  moreover have "flags_ok s fl L {(?c, Suc k)}"
    using iv(2) f unfolding flags_ok_def by auto
  ultimately show "buddy_inv s fl L {(?c, Suc k)} U" using iv(1) by (simp add: buddy_inv_def)
qed

text \<open>One round of the coalescing loop.\<close>

lemma inv_merge_step:
  assumes i: "buddy_inv s fl L {(b, k)} U" and k: "k < MAX_ORDER - 1" and f: "flg s b \<noteq> 0"
    and t: "buddy k b < total_pages s" "flg s (buddy k b) = 0" "ordr s (buddy k b) = k"
  defines "u \<equiv> kfree_unlink (buddy k b) k s"
  shows "\<exists>fl'. buddy_inv u fl' L {(b AND NOT (shl1 k), Suc k)} U"
    and "flg u (b AND NOT (shl1 k)) \<noteq> 0" and "same_ram s u"
proof -
  note iv = buddy_invD [OF i]
  have nb: "buddy k b \<noteq> b" using k by (simp add: buddy_neq)
  from iv(2) t(1,2) obtain m where "(buddy k b, m) \<in> free_blocks fl \<union> {(b, k)}"
    unfolding flags_ok_def by blast
  with nb have m: "(buddy k b, m) \<in> free_blocks fl" by auto
  then have "m = k" using iv(2) t(3) by (auto simp: flags_ok_def)
  with m have mem: "buddy k b \<in> set (fl k)" by (simp add: free_blocks_def)
  have kM: "k < MAX_ORDER" using k by simp
  note un = inv_unlink [OF i kM mem, folded u_def]
  have i2: "buddy_inv u (fl(k := remove1 (buddy k b) (fl k))) L {(b, k), (buddy k b, k)} U"
    using un(1) by (simp add: insert_commute)
  have "flg u b \<noteq> 0" "flg u (buddy k b) \<noteq> 0" using un(2) f nb by auto
  note co = inv_coalesce [OF i2 k this]
  then show "\<exists>fl'. buddy_inv u fl' L {(b AND NOT (shl1 k), Suc k)} U"
    "flg u (b AND NOT (shl1 k)) \<noteq> 0" by auto
  show "same_ram s u" by (rule un(3))
qed

lemma kfree_merge_unfold:
  "kfree_merge b k s =
     (if k < MAX_ORDER - 1 \<and> buddy k b < total_pages s \<and> flg s (buddy k b) = 0 \<and>
         ordr s (buddy k b) = k
      then kfree_merge (b AND NOT (shl1 k)) (Suc k) (kfree_unlink (buddy k b) k s)
      else (b, k, s))"
  by (subst kfree_merge.simps) (auto simp: field_upd buddy_def Let_def)

lemma inv_merge:
  "buddy_inv s fl L {(b, k)} U \<Longrightarrow> flg s b \<noteq> 0 \<Longrightarrow> kfree_merge b k s = (b', k', t) \<Longrightarrow>
   (\<exists>fl'. buddy_inv t fl' L {(b', k')} U) \<and> same_ram s t"
proof (induction b k s arbitrary: fl rule: kfree_merge.induct)
  case (1 b k s)
  let ?go = "k < MAX_ORDER - 1 \<and> buddy k b < total_pages s \<and> flg s (buddy k b) = 0 \<and>
    ordr s (buddy k b) = k"
  show ?case
  proof (cases ?go)
    case True
    then have g: "k < MAX_ORDER - 1" "buddy k b < total_pages s" "flg s (buddy k b) = 0"
      "ordr s (buddy k b) = k" by auto
    note st = inv_merge_step [OF "1.prems"(1) g(1) "1.prems"(2) g(2-4)]
    from st(1) obtain fl1 where
      i1: "buddy_inv (kfree_unlink (buddy k b) k s) fl1 L {(b AND NOT (shl1 k), Suc k)} U" ..
    have m: "kfree_merge (b AND NOT (shl1 k)) (Suc k) (kfree_unlink (buddy k b) k s) = (b', k', t)"
      using "1.prems"(3) g by (simp add: kfree_merge_unfold [of b])
    have "(\<exists>fl'. buddy_inv t fl' L {(b', k')} U) \<and> same_ram (kfree_unlink (buddy k b) k s) t"
      using "1.IH" [OF g(1) _ _ _ _ i1 st(2) m] g
      by (simp add: field_upd buddy_def)
    then show ?thesis using same_ram_trans [OF st(3)] by blast
  next
    case False
    then have "kfree_merge b k s = (b, k, s)"
      by (subst kfree_merge_unfold) (simp only: if_False)
    with "1.prems" show ?thesis by auto
  qed
qed

lemma kfree_heap_ok:
  assumes h: "heap_ok s (insert (i, k) L) U" and n: "(i, k) \<notin> L"
  shows "\<exists>t. kfree (page_addr s i) s = Ret t \<and> heap_ok t L U \<and> same_ram s t"
proof -
  from h obtain fl where iv: "buddy_inv s fl (insert (i, k) L) {} U" and l0: "kalloc_lock s = 0"
    and r: "ram_ok s" by (auto simp: heap_ok_def)
  define s1 where "s1 = s\<lparr>kalloc_lock := 1\<rparr>"
  have i1: "buddy_inv s1 fl L {(i, k)} U"
    using inv_release [OF iv n] by (simp add: s1_def)
  have lv: "i < total_pages s" "flg s i = 1" "ordr s i = k"
    using heap_ok_live [OF h, of i k] by auto
  have s1s: "flg s1 = flg s" "ordr s1 = ordr s" "total_pages s1 = total_pages s"
    "ram_base s1 = ram_base s"
    by (simp_all add: s1_def field_upd total_pages_def)
  obtain b' k' t where m: "kfree_merge i k s1 = (b', k', t)" by (cases "kfree_merge i k s1")
  from inv_merge [OF i1 _ m] lv s1s obtain fl' where
    i2: "buddy_inv t fl' L {(b', k')} U" and sr: "same_ram s1 t" by auto
  let ?u = "kfree_insert b' k' t"
  have "buddy_inv ?u (fl'(k' := b' # fl' k')) L {} U"
    using inv_push [OF i2 _ pushed_kfree_insert] by simp
  moreover have "same_ram s1 ?u"
    using sr pushed_kfree_insert [of b' k' t] same_ram_trans by (auto simp: pushed_def)
  then have sr0: "same_ram s (?u\<lparr>kalloc_lock := 0\<rparr>)" using l0 by (simp add: same_ram_def s1_def)
  moreover have "kfree (page_addr s i) s = Ret (?u\<lparr>kalloc_lock := 0\<rparr>)"
    using lv m l0 page_addr_aligned [OF r, of i]
    unfolding kfree_def spinlock_acquire_def spinlock_release_def
    by (simp add: s1_def [symmetric] s1s page_fields page_addr_index)
  moreover have "heap_ok (?u\<lparr>kalloc_lock := 0\<rparr>) L U"
    using calculation(1) r ram_ok_same [OF sr0] by (auto simp: heap_ok_def)
  ultimately show ?thesis by blast
qed

end
