(* ===== verification/KallocInit.thy ===== *)
theory KallocInit
  imports KallocInv
begin

text \<open>
  \<open>kalloc_init\<close> establishes the allocator's invariant: the pool is cut into maximal blocks of
  2048 pages, from the first 8 MiB boundary after the metadata to the end of RAM.
\<close>

lemma unat_max_block_size: "unat max_block_size = 2 ^ 23"
proof -
  have "unat (shl1 11 * 4096) = 2 ^ 23"
    by (simp add: shl1_def push_bit_eq_mult)
  then show ?thesis by (simp add: max_block_size_def)
qed

text \<open>A new block joins the pool as a block in transit.\<close>

lemma inv_grow:
  assumes i: "buddy_inv s fl L {} U" and k: "k < MAX_ORDER" and a: "aligned k b"
    and d: "blk k b \<inter> U = {}" and r: "\<And>j. j \<in> blk k b \<Longrightarrow> j < total_pages s"
  shows "buddy_inv s fl L {(b, k)} (U \<union> blk k b)"
proof -
  note iv = buddy_invD [OF i]
  have p: "partitioned (free_blocks fl \<union> L) U" using iv(3) by (simp add: blocks_ok_def)
  have n: "(b, k) \<notin> free_blocks fl \<union> L"
    using partitioned_subset [OF p, of b k] d self_in_blk [of b k] by blast
  have "U \<union> blk k b - blk k b = U" using d by auto
  then have "partitioned (insert (b, k) (free_blocks fl \<union> L)) (U \<union> blk k b)"
    using p n k a by (simp add: partitioned_insert blk_of_pair)
  then have "blocks_ok s fl L {(b, k)} (U \<union> blk k b)"
    using iv(3) n r by (auto simp: blocks_ok_def)
  moreover have "flags_ok s fl L {(b, k)}" using iv(2) unfolding flags_ok_def by fastforce
  ultimately show ?thesis using iv(1) by (simp add: buddy_inv_def)
qed

definition pool :: "nat \<Rightarrow> nat \<Rightarrow> u64 set" where
  "pool p q = {j. p * 2048 \<le> unat j \<and> unat j < q * 2048}"

lemma pool_block:
  assumes "unat b = q * 2048" and "p \<le> q"
  shows "aligned 11 b" and "blk 11 b = pool q (Suc q)" and "blk 11 b \<inter> pool p q = {}"
    and "pool p q \<union> blk 11 b = pool p (Suc q)"
proof -
  show a: "aligned 11 b" using assms by (simp add: aligned_dvd)
  show b: "blk 11 b = pool q (Suc q)"
    unfolding blk_interval [OF a] assms(1) pool_def by (simp add: add.commute)
  show "blk 11 b \<inter> pool p q = {}" unfolding b by (auto simp: pool_def)
  have "p * 2048 \<le> q * 2048" using assms(2) by simp
  then show "pool p q \<union> blk 11 b = pool p (Suc q)" unfolding b by (auto simp: pool_def)
qed

lemma init_pool_loop:
  assumes "buddy_inv s fl {} {} (pool p q)" and "p \<le> q" and "q \<le> n" and "n - q \<le> fuel"
    and "unat cur = unat (ram_base s) + q * 2 ^ 23" and "unat hor = unat (ram_base s) + n * 2 ^ 23"
    and "unat (total_pages s) = n * 2048"
  shows "\<exists>t. kalloc_init_pool fuel cur hor s = Ret t \<and>
    (\<exists>fl'. buddy_inv t fl' {} {} (pool p n)) \<and> same_ram s t"
  using assms
proof (induction fuel arbitrary: s fl q cur)
  case 0
  then have "q = n" by simp
  moreover from this 0 have "\<not> cur < hor" by (simp add: word_less_nat_alt)
  ultimately show ?case using 0 by auto
next
  case (Suc fuel)
  show ?case
  proof (cases "q = n")
    case True
    then have "\<not> cur < hor" using Suc.prems by (simp add: word_less_nat_alt)
    with True Suc.prems show ?thesis by auto
  next
    case False
    with Suc.prems(3) have qn: "Suc q \<le> n" by simp
    then have qb: "q * 2 ^ 23 + 2 ^ 23 \<le> n * 2 ^ 23"
      using mult_le_mono1 [OF qn, of "2 ^ 23"] by simp
    then have lt: "cur < hor" using Suc.prems by (simp add: word_less_nat_alt)
    have nw: "unat cur + 2 ^ 23 < 2 ^ 64" using qb Suc.prems unat64_less [of hor] by simp
    have cur': "unat (cur + max_block_size) = unat (ram_base s) + Suc q * 2 ^ 23"
      using nw Suc.prems(5) by (simp add: unat_word_ariths unat_max_block_size)
    define b where "b = (cur - ram_base s) div 4096"
    have "unat (cur - ram_base s) = q * 2 ^ 23"
      using Suc.prems(5) by (subst unat_sub) (simp_all add: word_le_nat_alt)
    then have ub: "unat b = q * 2048" by (simp add: b_def unat_div)
    note pb = pool_block [OF ub Suc.prems(2)]
    let ?s1 = "kalloc_init_push b s"
    have ps: "pushed b 11 s ?s1" by (rule pushed_init_push)
    then have sr: "same_ram s ?s1" by (simp add: pushed_def)
    have "\<And>j. j \<in> blk 11 b \<Longrightarrow> j < total_pages s"
      using qn Suc.prems(7) unfolding pb(2) pool_def by (simp add: word_less_nat_alt)
    then have "buddy_inv s fl {} {(b, 11)} (pool p q \<union> blk 11 b)"
      using inv_grow [OF Suc.prems(1) _ pb(1) pb(3)] by simp
    then have i1: "buddy_inv ?s1 (fl(11 := b # fl 11)) {} {} (pool p (Suc q))"
      unfolding pb(4) using inv_push [OF _ _ ps] by simp
    have eqs: "ram_base ?s1 = ram_base s" "total_pages ?s1 = total_pages s"
      using sr by (auto simp: same_ram_def total_pages_def)
    have "\<exists>t. kalloc_init_pool fuel (cur + max_block_size) hor ?s1 = Ret t \<and>
        (\<exists>fl'. buddy_inv t fl' {} {} (pool p n)) \<and> same_ram ?s1 t"
      by (rule Suc.IH [OF i1 _ qn]) (use Suc.prems(2,4,6,7) cur' in \<open>simp_all add: eqs\<close>)
    then show ?thesis using lt same_ram_trans [OF sr] by (auto simp: b_def)
  qed
qed

lemma init_arrays_inv:
  assumes "total_pages s \<le> NIL"
  shows "buddy_inv (kalloc_init_arrays s) (\<lambda>_. []) {} {} {}"
    and "same_ram s (kalloc_init_arrays s)"
proof -
  let ?t = "kalloc_init_arrays s"
  show sr: "same_ram s ?t" by (simp add: same_ram_def kalloc_init_arrays_def)
  have f: "flg ?t i = 2" if "i < total_pages s" for i
    using that by (simp add: flg_def kalloc_init_arrays_def)
  have "lists_ok ?t (\<lambda>_. [])" by (simp add: lists_ok_def kalloc_init_arrays_def)
  moreover have "flags_ok ?t (\<lambda>_. []) {} {}"
    using f same_ram_total [OF sr] by (auto simp: flags_ok_def free_blocks_def)
  moreover have "blocks_ok ?t (\<lambda>_. []) {} {} {}"
    using assms same_ram_total [OF sr] by (auto simp: blocks_ok_def free_blocks_def partitioned_def)
  ultimately show "buddy_inv ?t (\<lambda>_. []) {} {} {}" by (simp add: buddy_inv_def)
qed

text \<open>
  RAM as the boot code expects it: its base and its size are multiples of the largest block,
  it does not wrap, and the null index is not one of its pages.
\<close>

definition ram_shape :: "'a kmem_scheme \<Rightarrow> bool" where
  "ram_shape s \<longleftrightarrow> ram_base s AND 0xFFF = 0 \<and> unat (ram_size s) mod 2 ^ 23 = 0 \<and>
     unat (ram_base s) + unat (ram_size s) < 2 ^ 64 \<and> total_pages s \<le> NIL"

lemma kalloc_init_heap_ok:
  assumes sh: "ram_shape s" and l0: "kalloc_lock s = 0"
    and st: "unat (free_pool_start bss_end s) = unat (ram_base s) + p * 2 ^ 23"
    and lt: "free_pool_start bss_end s < ram_base s + ram_size s"
  shows "\<exists>t. kalloc_init bss_end s = Ret t \<and>
    heap_ok t {} (pool p (unat (ram_size s) div 2 ^ 23)) \<and> same_ram s t"
proof -
  let ?n = "unat (ram_size s) div 2 ^ 23"
  let ?hor = "ram_base s + ram_size s" and ?cur = "free_pool_start bss_end s"
  let ?a = "kalloc_init_arrays s"
  have "2 ^ 23 dvd unat (ram_size s)" using sh by (simp add: ram_shape_def dvd_eq_mod_eq_0)
  then have sz: "unat (ram_size s) = ?n * 2 ^ 23" by (rule dvd_div_mult_self [symmetric])
  have hor: "unat ?hor = unat (ram_base s) + ?n * 2 ^ 23"
    using sh sz by (simp add: ram_shape_def unat_word_ariths)
  have pn: "p \<le> ?n" using lt st hor by (simp add: word_less_nat_alt)
  have tot: "unat (total_pages s) = ?n * 2048"
    using sz by (simp add: total_pages_def unat_div)
  note ia = init_arrays_inv [of s]
  have T: "total_pages s \<le> NIL" using sh by (simp add: ram_shape_def)
  have sr: "same_ram s ?a" using ia(2) T by simp
  have e: "pool p p = {}" by (auto simp: pool_def)
  have "unat (?hor - ?cur) = (?n - p) * 2 ^ 23"
    using lt by (subst unat_sub) (simp_all add: word_le_nat_alt word_less_nat_alt hor st diff_mult_distrib)
  then have fuel: "unat (?hor - ?cur) div unat max_block_size = ?n - p"
    by (simp add: unat_max_block_size)
  have "\<exists>t. kalloc_init_pool (Suc (?n - p)) ?cur ?hor ?a = Ret t \<and>
      (\<exists>fl. buddy_inv t fl {} {} (pool p ?n)) \<and> same_ram ?a t"
    by (rule init_pool_loop [where fl = "\<lambda>_. []" and q = p])
      (use ia(1) [OF T] pn st hor tot sr same_ram_total [OF sr] in \<open>simp_all add: e same_ram_def\<close>)
  then obtain t fl where t: "kalloc_init_pool (Suc (?n - p)) ?cur ?hor ?a = Ret t"
    "buddy_inv t fl {} {} (pool p ?n)" "same_ram ?a t" by blast
  have st: "same_ram s t" using same_ram_trans [OF sr t(3)] .
  have "ram_ok s" using sh by (simp add: ram_ok_def ram_shape_def)
  then have "heap_ok t {} (pool p ?n)"
    using t(2) st l0 ram_ok_same [OF st] by (auto simp: heap_ok_def same_ram_def)
  moreover have "kalloc_init bss_end s = Ret t"
    using lt t(1) fuel by (simp add: kalloc_init_def Let_def not_le)
  ultimately show ?thesis using st by blast
qed

text \<open>Booting marks the head of each maximal block as free and every other page as neither free nor allocated.\<close>

lemma init_pool_flags:
  "kalloc_init_pool fuel cur hor s = Ret t \<Longrightarrow>
   flg t j = 0 \<and> ordr t j = 11 \<or> flg t j = flg s j \<and> ordr t j = ordr s j"
proof (induction fuel arbitrary: cur s)
  case 0
  then show ?case by (simp split: if_splits)
next
  case (Suc fuel)
  show ?case
  proof (cases "cur < hor")
    case True
    let ?b = "(cur - ram_base s) div 4096"
    have "kalloc_init_pool fuel (cur + max_block_size) hor (kalloc_init_push ?b s) = Ret t" using Suc.prems True by simp
    from Suc.IH [OF this] show ?thesis using pushed_init_push [of ?b s] by (auto simp: pushed_def split: if_splits)
  next
    case False
    then show ?thesis using Suc.prems by simp
  qed
qed

lemma kalloc_init_flags:
  assumes "kalloc_init bss_end s = Ret t" and "j < total_pages s"
  shows "flg t j = 2 \<or> flg t j = 0 \<and> ordr t j = 11"
proof -
  have "flg (kalloc_init_arrays s) j = 2" using assms(2) by (simp add: flg_def kalloc_init_arrays_def)
  moreover obtain fuel cur hor where "kalloc_init_pool fuel cur hor (kalloc_init_arrays s) = Ret t"
    using assms(1) by (simp del: kalloc_init_pool.simps add: kalloc_init_def Let_def split: if_splits)
  ultimately show ?thesis using init_pool_flags by metis
qed

end
