(* ===== verification/KallocSpec.thy ===== *)
theory KallocSpec
  imports KallocInit
begin

text \<open>
  What \<open>kernel/kalloc.c\<close> promises its clients: fresh disjoint blocks, exact out-of-memory
  panics, maximal coalescing and the safety of every run of allocations and releases from the
  boot on, and the addresses that are refused after any such run. The last property shows where the double-free
  check of \<open>kfree\<close> does not hold what its panic message says.
\<close>

section \<open>A concrete boot state\<close>

text \<open>16 MiB of RAM at the machine's RAM base, with the kernel image below \<open>0x80010000\<close>.\<close>

definition demo_ram :: kmem where
  "demo_ram = \<lparr>ram_base = 0x80000000, ram_size = 0x1000000,
     page_array = (\<lambda>_. \<lparr>order = 0, flag = 0, next_idx = 0, prev_idx = 0, alloc_caller = 0\<rparr>),
     free_lists = (\<lambda>_. 0), kalloc_lock = 0\<rparr>"

lemma demo_ram_shape: "ram_shape demo_ram"
  by (simp add: ram_shape_def demo_ram_def total_pages_def)

lemma demo_pool_start: "free_pool_start 0x80010000 demo_ram = 0x80800000"
  by (simp add: free_pool_start_def demo_ram_def metadata_start_def metadata_blob_size_def
      max_block_size_def shl1_def total_pages_def push_bit_eq_mult Let_def)

definition demo_heap :: kmem where
  "demo_heap = (case kalloc_init 0x80010000 demo_ram of Ret t \<Rightarrow> t | _ \<Rightarrow> demo_ram)"

lemma demo_heap_ok: "heap_ok demo_heap {} (pool 1 2)"
  and demo_heap_init: "kalloc_init 0x80010000 demo_ram = Ret demo_heap"
  and demo_heap_ram: "same_ram demo_ram demo_heap"
proof -
  have "\<exists>t. kalloc_init 0x80010000 demo_ram = Ret t \<and>
      heap_ok t {} (pool 1 (unat (ram_size demo_ram) div 2 ^ 23)) \<and> same_ram demo_ram t"
    using kalloc_init_heap_ok [OF demo_ram_shape, of "0x80010000" 1] demo_pool_start
    by (simp add: demo_ram_def)
  moreover have "unat (ram_size demo_ram) div 2 ^ 23 = 2" by (simp add: demo_ram_def)
  ultimately show "heap_ok demo_heap {} (pool 1 2)"
    "kalloc_init 0x80010000 demo_ram = Ret demo_heap" "same_ram demo_ram demo_heap"
    by (auto simp: demo_heap_def)
qed

lemma demo_heap_eq: "demo_heap = kalloc_init_push 2048 (kalloc_init_arrays demo_ram)"
  by (simp add: demo_heap_def kalloc_init_def demo_pool_start Let_def unat_max_block_size)
   (simp add: demo_ram_def kalloc_init_arrays_def max_block_size_def shl1_def push_bit_eq_mult)

lemma demo_heap_fields:
  "free_lists demo_heap k = (if k = 11 then 2048 else if k < 11 then NIL else 0)"
  "kalloc_lock demo_heap = 0" "ram_base demo_heap = 0x80000000" "ram_size demo_heap = 0x1000000"
  by (auto simp: demo_heap_eq kalloc_init_push_def field_upd Let_def kalloc_init_arrays_def demo_ram_def)

lemma kalloc_at:
  assumes "kalloc_lock s = 0" and "ord < MAX_ORDER"
    and "kalloc_search (s\<lparr>kalloc_lock := 1\<rparr>) ord (free_lists s ord) = Ret (m, i)"
  shows "\<exists>t. kalloc ord c s = Ret (page_addr s i, t)"
proof -
  have "same_ram (s\<lparr>kalloc_lock := 1\<rparr>) (kalloc_take i ord c (kalloc_split i ord m (kalloc_pop m i (s\<lparr>kalloc_lock := 1\<rparr>))))"
    using same_ram_trans same_ram_split kalloc_pop_fields(1) kalloc_take_fields(1) by metis
  then show ?thesis using assms
    by (auto simp: kalloc_def spinlock_acquire_def Let_def page_addr_def same_ram_def)
qed

lemma demo_heap_search:
  "kalloc_search (demo_heap\<lparr>kalloc_lock := 1\<rparr>) 0 (free_lists demo_heap 0) = Ret (11, 2048)"
  by (simp add: demo_heap_fields kalloc_search.simps)

lemma demo_alloc: "\<exists>t. kalloc 0 c demo_heap = Ret (0x80800000, t)"
  using kalloc_at [OF _ _ demo_heap_search] by (simp add: demo_heap_fields page_addr_def)

section \<open>Blocks as address ranges\<close>

definition block_range :: "'a kmem_scheme \<Rightarrow> u64 \<times> nat \<Rightarrow> nat set" where
  "block_range s p = {unat (page_addr s (fst p)) ..< unat (page_addr s (fst p)) + 4096 * 2 ^ snd p}"

lemma block_range_disjoint:
  assumes "heap_ok s L U" and "p \<in> L" and "q \<in> L" and "p \<noteq> q"
  shows "block_range s p \<inter> block_range s q = {}"
proof -
  obtain i k j m where pq: "p = (i, k)" "q = (j, m)" by (metis surj_pair)
  note li = heap_ok_live [OF assms(1), of i k] and lj = heap_ok_live [OF assms(1), of j m]
  have r: "ram_ok s" using assms(1) by (simp add: heap_ok_def)
  have d: "blk k i \<inter> blk m j = {}" using li(7) [of j m] assms pq by auto
  have ai: "aligned k i" "aligned m j" using li(3) lj(3) assms pq by auto
  have "i \<notin> blk m j" "j \<notin> blk k i" using d self_in_blk by blast+
  then have "unat i + 2 ^ k \<le> unat j \<or> unat j + 2 ^ m \<le> unat i"
    unfolding blk_interval [OF ai(1)] blk_interval [OF ai(2)] by auto
  then have "unat i * 4096 + 4096 * 2 ^ k \<le> unat j * 4096 \<or> unat j * 4096 + 4096 * 2 ^ m \<le> unat i * 4096"
    by linarith
  moreover have "unat (page_addr s i) = unat (ram_base s) + unat i * 4096"
    "unat (page_addr s j) = unat (ram_base s) + unat j * 4096"
    using unat_page_addr [OF r] li(1) lj(1) assms pq by auto
  ultimately show ?thesis by (auto simp: block_range_def pq)
qed

lemma block_range_in_ram:
  assumes "heap_ok s L U" and "p \<in> L"
  shows "block_range s p \<subseteq> {unat (ram_base s) ..< unat (ram_base s) + unat (ram_size s)}"
proof -
  obtain i k where p: "p = (i, k)" by (metis surj_pair)
  note li = heap_ok_live [OF assms(1), of i k]
  from assms(1) obtain fl where "buddy_inv s fl L {} U" by (auto simp: heap_ok_def)
  then have U: "\<And>j. j \<in> U \<Longrightarrow> j < total_pages s" by (simp add: buddy_inv_def blocks_ok_def)
  have r: "ram_ok s" using assms(1) by (simp add: heap_ok_def)
  have a: "aligned k i" and k: "k < 12" using li assms p by auto
  obtain q where q: "unat i = 2 ^ k * q" using a by (auto simp: aligned_dvd)
  obtain d where d: "(2::nat) ^ k = Suc d" using not0_implies_Suc [of "2 ^ k"] by auto
  let ?l = "i + of_nat d"
  have "unat i < unat NIL"
    using li(1) assms p \<open>buddy_inv s fl L {} U\<close>
    by (auto simp: buddy_inv_def blocks_ok_def word_less_nat_alt word_le_nat_alt)
  moreover have "Suc d \<le> 2 ^ 12" using k d by (metis less_imp_le one_le_numeral power_increasing)
  ultimately have "unat i + d < 2 ^ LENGTH(64)" by simp
  then have l: "unat ?l = unat i + d" by (rule unat_lt_imp_add)
  have "?l \<in> blk k i" unfolding blk_interval [OF a] using l d by simp
  then have "?l < total_pages s" using li(4) assms p U by blast
  then have "unat ?l * 4096 + 4096 \<le> unat (ram_size s)"
    unfolding total_pages_def by (rule page_index_bound)
  moreover have "unat (page_addr s i) = unat (ram_base s) + unat i * 4096"
    using unat_page_addr [OF r] li(1) assms p by auto
  ultimately show ?thesis using l d by (auto simp: block_range_def p algebra_simps)
qed

section \<open>Runs\<close>

text \<open>
  The runs of clients that hand back only blocks they own: each step is one call that
  returns, with the set of live blocks alongside.
\<close>

inductive heap_run ::
  "'a kmem_scheme \<Rightarrow> (u64 \<times> nat) set \<Rightarrow> 'a kmem_scheme \<Rightarrow> (u64 \<times> nat) set \<Rightarrow> bool" where
  start: "heap_run s L s L"
| alloc: "heap_run s L t M \<Longrightarrow> kalloc ord caller t = Ret (pa, u) \<Longrightarrow>
     heap_run s L u (insert ((pa - ram_base t) div 4096, ord) M)"
| free: "heap_run s L t M \<Longrightarrow> (i, k) \<in> M \<Longrightarrow> kfree (page_addr t i) t = Ret u \<Longrightarrow>
     heap_run s L u (M - {(i, k)})"

lemma kalloc_Ret:
  assumes h: "heap_ok s L U" and r: "kalloc ord c s = Ret (pa, t)"
  shows "\<exists>i. pa = page_addr s i \<and> (i, ord) \<notin> L \<and> heap_ok t (insert (i, ord) L) U \<and> same_ram s t \<and>
    (pa - ram_base s) div 4096 = i \<and> ord < MAX_ORDER"
proof -
  have k: "ord < MAX_ORDER"
    using r by (auto simp: kalloc_def spinlock_acquire_def Let_def split: if_splits)
  from kalloc_heap_ok [OF h k, of c] r obtain i where
    i: "pa = page_addr s i" "(i, ord) \<notin> L" "heap_ok t (insert (i, ord) L) U" "same_ram s t" by auto
  have "i < total_pages t" using heap_ok_live(1) [OF i(3), of i ord] by simp
  then have "i < total_pages s" using same_ram_total [OF i(4)] by simp
  then have "(pa - ram_base s) div 4096 = i" unfolding i(1) by (rule page_addr_index)
  with i k show ?thesis by blast
qed

lemma heap_run_ok: "heap_run s L t M \<Longrightarrow> heap_ok s L U \<Longrightarrow> heap_ok t M U \<and> same_ram s t"
proof (induction rule: heap_run.induct)
  case (alloc s L t M ord caller pa u)
  then have t: "heap_ok t M U" "same_ram s t" by auto
  from kalloc_Ret [OF t(1) alloc.hyps(2)] show ?case
    using same_ram_trans [OF t(2)] by auto
next
  case (free s L t M i k u)
  then have t: "heap_ok t M U" "same_ram s t" by auto
  with free.hyps have "heap_ok t (insert (i, k) (M - {(i, k)})) U" by (simp add: insert_absorb)
  from kfree_heap_ok [OF this] free.hyps(3) show ?case
    using same_ram_trans [OF t(2)] by auto
qed simp

section \<open>Coalescing\<close>

text \<open>No two free buddies of the same order lie side by side.\<close>

definition coalesced :: "'a kmem_scheme \<Rightarrow> bool" where
  "coalesced s \<longleftrightarrow> (\<forall>i k. k < MAX_ORDER - 1 \<and> i < total_pages s \<and> buddy k i < total_pages s \<and>
     flg s i = 0 \<and> ordr s i = k \<and> flg s (buddy k i) = 0 \<longrightarrow> ordr s (buddy k i) \<noteq> k)"

lemma coalesced_fields:
  "flg t = flg s \<Longrightarrow> ordr t = ordr s \<Longrightarrow> total_pages t = total_pages s \<Longrightarrow> coalesced s \<Longrightarrow> coalesced t"
  by (simp add: coalesced_def)

lemma coalesced_push:
  assumes c: "coalesced s" and p: "pushed b k s t"
    and x: "\<not> (k < MAX_ORDER - 1 \<and> buddy k b < total_pages s \<and> flg s (buddy k b) = 0 \<and> ordr s (buddy k b) = k)"
  shows "coalesced t"
  unfolding coalesced_def
proof (intro allI impI notI)
  fix i m
  assume a: "m < MAX_ORDER - 1 \<and> i < total_pages t \<and> buddy m i < total_pages t \<and>
      flg t i = 0 \<and> ordr t i = m \<and> flg t (buddy m i) = 0" and o: "ordr t (buddy m i) = m"
  have tot: "total_pages t = total_pages s" using p by (simp add: pushed_def same_ram_total)
  have f: "flg t = (flg s)(b := 0)" "ordr t = (ordr s)(b := k)" using p by (simp_all add: pushed_def)
  have nb: "buddy m i \<noteq> i" using a by (simp add: buddy_neq)
  consider "i = b" | "buddy m i = b" | "i \<noteq> b" "buddy m i \<noteq> b" by blast
  then show False
  proof cases
    case 1 then show ?thesis using a o x nb f tot by (auto split: if_splits)
  next
    case 2
    then have "i = buddy k b" "m = k" using o f by auto
    then show ?thesis using a x nb f tot 2 by (auto split: if_splits)
  next
    case 3 then show ?thesis using a o c f tot unfolding coalesced_def by auto
  qed
qed

lemma coalesced_mark: "coalesced s \<Longrightarrow> v \<noteq> 0 \<Longrightarrow> flg t = (flg s)(b := v) \<Longrightarrow>
    ordr t = (ordr s)(b := w) \<Longrightarrow> total_pages t = total_pages s \<Longrightarrow> coalesced t"
  unfolding coalesced_def by (auto split: if_splits)

lemma coalesced_split:
  "coalesced s \<Longrightarrow> aligned c b \<Longrightarrow> c < MAX_ORDER \<Longrightarrow> c \<le> ordr s b \<Longrightarrow>
   coalesced (kalloc_split b req c s)"
proof (induction b req c s rule: kalloc_split.induct)
  case (2 b req c s)
  show ?case
  proof (cases "Suc c > req")
    case True
    have bd: "b + shl1 c = buddy c b" using 2(3) by (rule buddy_add)
    have p: "pushed (buddy c b) c s (kalloc_split_step b c s)"
      using pushed_split_step [of b c s] bd by simp
    have nb: "buddy c b \<noteq> b" using 2(4) by (simp add: buddy_neq)
    have o: "ordr (kalloc_split_step b c s) b = ordr s b" using p nb by (simp add: pushed_def)
    have "coalesced (kalloc_split_step b c s)"
      by (rule coalesced_push [OF 2(2) p]) (use 2(5) in auto)
    then show ?thesis using 2(1) [OF True] 2 True o by (auto intro: aligned_SucD)
  next
    case False
    then show ?thesis using 2 by simp
  qed
qed simp

lemma kalloc_coalesced:
  assumes h: "heap_ok s L U" and c: "coalesced s" and r: "kalloc ord ca s = Ret (pa, t)"
  shows "coalesced t"
proof -
  define s1 where "s1 = s\<lparr>kalloc_lock := 1\<rparr>"
  from h obtain fl where "buddy_inv s fl L {} U" and l0: "kalloc_lock s = 0" by (auto simp: heap_ok_def)
  then have i1: "buddy_inv s1 fl L {} U" by (simp add: s1_def)
  have c1: "coalesced s1" using c by (rule coalesced_fields [rotated 3]) (simp_all add: s1_def field_upd total_pages_def)
  have k: "ord < MAX_ORDER" using kalloc_Ret [OF h r] by blast
  from r l0 k obtain m i where sr: "kalloc_search s1 ord (free_lists s1 ord) = Ret (m, i)"
    and t: "t = (kalloc_take i ord ca (kalloc_split i ord m (kalloc_pop m i s1)))\<lparr>kalloc_lock := 0\<rparr>"
    by (auto simp: kalloc_def spinlock_acquire_def spinlock_release_def s1_def Let_def)
  have m: "ord \<le> m" "m < MAX_ORDER" "i = free_lists s1 m" "i \<noteq> NIL"
    using kalloc_search_ok [OF k, of "free_lists s1 ord" s1] sr by (auto simp: search_ok_def)
  have "dlist NIL (nxt s1) (prv s1) (free_lists s1 m) (fl m)"
    using i1 m by (simp add: buddy_inv_def lists_ok_def)
  then obtain xs where f: "fl m = i # xs" using dlist_nonempty m(3,4) by metis
  then have im: "(i, m) \<in> free_blocks fl" using m by (simp add: free_blocks_def)
  have o: "ordr s1 i = m" using i1 im by (auto simp: buddy_inv_def flags_ok_def)
  have a: "aligned m i" using i1 im unfolding buddy_inv_def blocks_ok_def by (blast intro: partitioned_aligned)
  let ?p = "kalloc_pop m i s1"
  have c2: "coalesced ?p"
    using c1 by (rule coalesced_fields [rotated 3]) (simp_all add: kalloc_pop_fields same_ram_total [OF kalloc_pop_fields(1)])
  have c3: "coalesced (kalloc_split i ord m ?p)"
    by (rule coalesced_split [OF c2 a m(2)]) (simp add: kalloc_pop_fields o)
  have "coalesced (kalloc_take i ord ca (kalloc_split i ord m ?p))"
    by (rule coalesced_mark [OF c3]) (auto simp: kalloc_take_fields same_ram_total [OF kalloc_take_fields(1)])
  then show ?thesis unfolding t
    by (rule coalesced_fields [rotated 3]) (simp_all add: field_upd total_pages_def)
qed

text \<open>What the coalescing loop leaves alone, where it stops, and that the block only grows.\<close>

lemma kfree_unlink_flags:
  "flg (kfree_unlink b k s) = (flg s)(b := 2)" "ordr (kfree_unlink b k s) = (ordr s)(b := 0)"
  "same_ram s (kfree_unlink b k s)"
  unfolding kfree_unlink_def Let_def
  by (cases "prv s b = NIL"; auto simp: field_upd fun_eq_iff)+

lemma kfree_merge_result:
  "kfree_merge b k s = (b', k', t) \<Longrightarrow>
     same_ram s t \<and> k \<le> k' \<and> blk k b \<subseteq> blk k' b' \<and>
     (\<forall>x. flg s x \<noteq> 0 \<longrightarrow> flg t x = flg s x \<and> ordr t x = ordr s x) \<and>
     (\<forall>x. flg t x = 0 \<longrightarrow> flg s x = 0 \<and> ordr t x = ordr s x) \<and>
     (coalesced s \<longrightarrow> coalesced t) \<and>
     \<not> (k' < MAX_ORDER - 1 \<and> buddy k' b' < total_pages t \<and> flg t (buddy k' b') = 0 \<and>
        ordr t (buddy k' b') = k')"
proof (induction b k s rule: kfree_merge.induct)
  case (1 b k s)
  let ?go = "k < MAX_ORDER - 1 \<and> buddy k b < total_pages s \<and> flg s (buddy k b) = 0 \<and>
    ordr s (buddy k b) = k"
  show ?case
  proof (cases ?go)
    case False
    then have "kfree_merge b k s = (b, k, s)"
      by (subst kfree_merge_unfold) (simp only: if_False)
    with 1(2) False show ?thesis by auto
  next
    case True
    let ?u = "kfree_unlink (buddy k b) k s" and ?c = "b AND NOT (shl1 k)"
    have m: "kfree_merge ?c (Suc k) ?u = (b', k', t)"
      using 1(2) True by (simp add: kfree_merge_unfold [of b])
    have ih: "same_ram ?u t \<and> Suc k \<le> k' \<and> blk (Suc k) ?c \<subseteq> blk k' b' \<and>
       (\<forall>x. flg ?u x \<noteq> 0 \<longrightarrow> flg t x = flg ?u x \<and> ordr t x = ordr ?u x) \<and>
       (\<forall>x. flg t x = 0 \<longrightarrow> flg ?u x = 0 \<and> ordr t x = ordr ?u x) \<and>
       (coalesced ?u \<longrightarrow> coalesced t) \<and>
       \<not> (k' < MAX_ORDER - 1 \<and> buddy k' b' < total_pages t \<and> flg t (buddy k' b') = 0 \<and>
          ordr t (buddy k' b') = k')"
      by (rule 1(1)) (use True m in \<open>simp_all add: buddy_def page_fields not_le\<close>)
    have "blk k b \<subseteq> blk (Suc k) ?c" using True by (simp only: blk_clear) (simp add: blk_Suc)
    moreover have "coalesced s \<Longrightarrow> coalesced ?u"
      by (rule coalesced_mark [where v = 2]) (auto simp: kfree_unlink_flags same_ram_total [OF kfree_unlink_flags(3)])
    moreover have "same_ram s t" using ih same_ram_trans [OF kfree_unlink_flags(3)] by blast
    moreover have "flg t x = flg s x \<and> ordr t x = ordr s x" if "flg s x \<noteq> 0" for x
    proof -
      have x: "x \<noteq> buddy k b" using True that by auto
      with that have "flg ?u x \<noteq> 0" by (simp add: kfree_unlink_flags)
      then have "flg t x = flg ?u x \<and> ordr t x = ordr ?u x" using ih by blast
      with x show ?thesis by (simp add: kfree_unlink_flags)
    qed
    moreover have "flg s x = 0 \<and> ordr t x = ordr s x" if "flg t x = 0" for x
    proof -
      have u: "flg ?u x = 0" "ordr t x = ordr ?u x" using ih that by blast+
      then have "x \<noteq> buddy k b" by (auto simp: kfree_unlink_flags)
      with u show ?thesis by (simp add: kfree_unlink_flags)
    qed
    ultimately show ?thesis using ih by (meson Suc_leD subset_trans)
  qed
qed

text \<open>A release that returns: its loop and its insertion.\<close>

lemma kfree_shape:
  assumes "kalloc_lock s = 0" and "ram_ok s" and "i < total_pages s"
    and "flg s i = 1" and "ordr s i = k"
  shows "\<exists>b' k' u. kfree_merge i k (s\<lparr>kalloc_lock := 1\<rparr>) = (b', k', u) \<and>
    kfree (page_addr s i) s = Ret ((kfree_insert b' k' u)\<lparr>kalloc_lock := 0\<rparr>)"
proof -
  obtain b' k' u where m: "kfree_merge i k (s\<lparr>kalloc_lock := 1\<rparr>) = (b', k', u)"
    by (cases "kfree_merge i k (s\<lparr>kalloc_lock := 1\<rparr>)")
  have "total_pages (s\<lparr>kalloc_lock := 1\<rparr>) = total_pages s" by (simp add: total_pages_def)
  then have "kfree (page_addr s i) s = Ret ((kfree_insert b' k' u)\<lparr>kalloc_lock := 0\<rparr>)"
    using assms m page_addr_aligned [OF assms(2), of i]
    unfolding kfree_def spinlock_acquire_def spinlock_release_def
    by (simp add: page_fields field_upd page_addr_index Let_def)
  with m show ?thesis by blast
qed

lemma kfree_coalesced:
  assumes h: "heap_ok s L U" and c: "coalesced s" and l: "(i, k) \<in> L"
    and r: "kfree (page_addr s i) s = Ret t"
  shows "coalesced t"
proof -
  note lv = heap_ok_live [OF h l]
  have a: "kalloc_lock s = 0" "ram_ok s" using h by (simp_all add: heap_ok_def)
  from kfree_shape [OF a lv(1,5,6)] r obtain b' k' u where
    m: "kfree_merge i k (s\<lparr>kalloc_lock := 1\<rparr>) = (b', k', u)"
    and t: "t = (kfree_insert b' k' u)\<lparr>kalloc_lock := 0\<rparr>" by auto
  have c1: "coalesced (s\<lparr>kalloc_lock := 1\<rparr>)"
    using c by (rule coalesced_fields [rotated 3]) (simp_all add: field_upd total_pages_def)
  from kfree_merge_result [OF m] c1 have cu: "coalesced u"
    and x: "\<not> (k' < MAX_ORDER - 1 \<and> buddy k' b' < total_pages u \<and> flg u (buddy k' b') = 0 \<and>
        ordr u (buddy k' b') = k')" by auto
  have "coalesced (kfree_insert b' k' u)" by (rule coalesced_push [OF cu pushed_kfree_insert x])
  then show ?thesis unfolding t
    by (rule coalesced_fields [rotated 3]) (simp_all add: field_upd total_pages_def)
qed

section \<open>Properties\<close>

lemma heap_ok_free_page:
  assumes "heap_ok s L U" and "i < total_pages s" and "flg s i = 0"
  shows "ordr s i < MAX_ORDER"
proof -
  from assms(1) obtain fl where b: "buddy_inv s fl L {} U" by (auto simp: heap_ok_def)
  with assms obtain m where f: "(i, m) \<in> free_blocks fl" by (auto simp: buddy_inv_def flags_ok_def)
  from b f have "ordr s i = m" by (auto simp: buddy_inv_def flags_ok_def)
  with f show ?thesis by (simp add: free_blocks_def)
qed

lemma free_list_head:
  assumes "heap_ok s L U" and "m < MAX_ORDER"
  shows "free_lists s m \<noteq> NIL \<longleftrightarrow> (\<exists>i<total_pages s. flg s i = 0 \<and> ordr s i = m)"
proof
  from assms obtain fl where b: "buddy_inv s fl L {} U" by (auto simp: heap_ok_def)
  then have d: "dlist NIL (nxt s) (prv s) (free_lists s m) (fl m)"
    using assms(2) by (simp add: buddy_inv_def lists_ok_def)
  {
    assume "free_lists s m \<noteq> NIL"
    then have f: "(free_lists s m, m) \<in> free_blocks fl"
      using dlist_nonempty [OF d] assms(2) by (force simp: free_blocks_def)
    then have "flg s (free_lists s m) = 0 \<and> ordr s (free_lists s m) = m"
      using b by (auto simp: buddy_inv_def flags_ok_def)
    moreover have "free_lists s m < total_pages s"
      using blocks_below_NIL(1) [OF buddy_invD(3) [OF b]] f by blast
    ultimately show "\<exists>i<total_pages s. flg s i = 0 \<and> ordr s i = m" by blast
  }
  {
    assume "\<exists>i<total_pages s. flg s i = 0 \<and> ordr s i = m"
    then obtain i where i: "i < total_pages s" "flg s i = 0" "ordr s i = m" by blast
    then obtain m' where f: "(i, m') \<in> free_blocks fl"
      using b by (auto simp: buddy_inv_def flags_ok_def)
    then have "m' = m" using b i by (auto simp: buddy_inv_def flags_ok_def)
    then have "fl m \<noteq> []" using f by (auto simp: free_blocks_def)
    then show "free_lists s m \<noteq> NIL" using d dlist_nil_head by metis
  }
qed

lemma demo_live:
  "\<exists>t. kalloc 0 c demo_heap = Ret (0x80800000, t) \<and> heap_ok t {(2048, 0)} (pool 1 2) \<and>
     same_ram demo_heap t"
proof -
  obtain t where t: "kalloc 0 c demo_heap = Ret (0x80800000, t)" using demo_alloc by blast
  from kalloc_Ret [OF demo_heap_ok t] obtain i where
    i: "heap_ok t {(i, 0)} (pool 1 2)" "same_ram demo_heap t"
      "(0x80800000 - ram_base demo_heap) div 4096 = i"
    by (elim exE conjE)
  from i(3) have "i = 2048" by (simp add: demo_heap_fields)
  with t i(1,2) show ?thesis by blast
qed

text \<open>
  C1. A returning \<open>kalloc\<close> hands out an aligned block of the requested order that lies in the
  managed pool, overlaps no block that is live (as byte ranges of physical memory), and
  leaves the allocator in a state where exactly this block has joined the live ones.
\<close>

theorem kalloc_fresh_block:
  assumes "heap_ok s L U" and "kalloc ord caller s = Ret (pa, t)"
  shows "\<exists>i. pa = page_addr s i \<and> aligned ord i \<and> blk ord i \<subseteq> U \<and>
    (\<forall>p\<in>L. block_range t p \<inter> block_range t (i, ord) = {}) \<and>
    heap_ok t (insert (i, ord) L) U \<and> same_ram s t"
proof -
  from kalloc_Ret [OF assms] obtain i where
    i: "pa = page_addr s i" "(i, ord) \<notin> L" "heap_ok t (insert (i, ord) L) U" "same_ram s t" by blast
  note lv = heap_ok_live [OF i(3), of i ord]
  have "\<forall>p\<in>L. block_range t p \<inter> block_range t (i, ord) = {}"
    using block_range_disjoint [OF i(3)] i(2) by (metis insert_iff)
  with i lv show ?thesis by auto
qed

theorem kalloc_fresh_block_witness:
  "\<exists>t. kalloc 0 7 demo_heap = Ret (0x80800000, t) \<and>
     (\<exists>i. 0x80800000 = page_addr demo_heap i \<and> heap_ok t {(i, 0)} (pool 1 2))"
proof -
  obtain t where t: "kalloc 0 7 demo_heap = Ret (0x80800000, t)" using demo_alloc by blast
  from kalloc_fresh_block [OF demo_heap_ok t] t show ?thesis by blast
qed

text \<open>
  C6. Out of memory is exact: for an order below 12 (a larger one panics with code 100) \<open>kalloc\<close> returns if and only if some page heads a free block of
  at least the requested order, and otherwise it panics with code 101; the search never
  hangs.
\<close>

theorem kalloc_out_of_memory:
  assumes "heap_ok s L U" and "ord < MAX_ORDER"
  shows "((\<exists>r. kalloc ord caller s = Ret r) \<longleftrightarrow>
      (\<exists>i<total_pages s. flg s i = 0 \<and> ord \<le> ordr s i)) \<and>
    ((\<nexists>r. kalloc ord caller s = Ret r) \<longleftrightarrow> kalloc ord caller s = Panic 101 0)"
proof -
  have ex: "(\<exists>m. ord \<le> m \<and> m < MAX_ORDER \<and> free_lists s m \<noteq> NIL) \<longleftrightarrow>
      (\<exists>i<total_pages s. flg s i = 0 \<and> ord \<le> ordr s i)"
    using free_list_head [OF assms(1)] heap_ok_free_page [OF assms(1)] by blast
  have nok: "\<nexists>r. kalloc ord caller s = Ret r"
    if "\<forall>m. ord \<le> m \<and> m < MAX_ORDER \<longrightarrow> free_lists s m = NIL"
  proof -
    have "kalloc_search (s\<lparr>kalloc_lock := 1\<rparr>) ord (free_lists s ord) = Panic 101 0"
      using kalloc_search_ok [OF assms(2), of "free_lists s ord" "s\<lparr>kalloc_lock := 1\<rparr>"] that
      by (auto simp: search_ok_def)
    then show ?thesis using assms
      by (simp add: kalloc_def spinlock_acquire_def heap_ok_def Let_def)
  qed
  have "(\<exists>r. kalloc ord caller s = Ret r) \<longleftrightarrow> (\<exists>i<total_pages s. flg s i = 0 \<and> ord \<le> ordr s i)"
    using kalloc_heap_ok [OF assms, of caller] nok ex by (metis outcome.distinct(1))
  moreover have "(\<nexists>r. kalloc ord caller s = Ret r) \<longleftrightarrow> kalloc ord caller s = Panic 101 0"
    using kalloc_heap_ok [OF assms, of caller] by force
  ultimately show ?thesis by blast
qed

theorem kalloc_out_of_memory_witness:
  "\<exists>i<total_pages demo_heap. flg demo_heap i = 0 \<and> 0 \<le> ordr demo_heap i"
  using kalloc_out_of_memory [OF demo_heap_ok, of 0 7] demo_alloc [of 7] by auto

text \<open>
  C5. Releasing a live block by its address always returns, removes exactly that block from
  the live set and keeps every other live block live, whatever chain of merges it causes.
\<close>

theorem kfree_live_block:
  assumes "heap_ok s L U" and "(i, k) \<in> L"
  shows "\<exists>t. kfree (page_addr s i) s = Ret t \<and> heap_ok t (L - {(i, k)}) U \<and> same_ram s t"
  using kfree_heap_ok [of s i k "L - {(i, k)}" U] assms by (simp add: insert_absorb)

theorem kfree_live_block_witness:
  "\<exists>s t. kalloc 0 7 demo_heap = Ret (0x80800000, s) \<and> kfree 0x80800000 s = Ret t \<and>
     heap_ok t {} (pool 1 2)"
proof -
  obtain s where s: "kalloc 0 7 demo_heap = Ret (0x80800000, s)" "heap_ok s {(2048, 0)} (pool 1 2)"
    "same_ram demo_heap s" using demo_live by blast
  have "page_addr s 2048 = 0x80800000"
    using s(3) by (simp add: page_addr_def same_ram_def demo_heap_fields)
  with kfree_live_block [OF s(2), of 2048 0] s show ?thesis by auto
qed

section \<open>From the boot on\<close>

text \<open>
  \<open>booted bss_end m s0 s\<close>: the boot code has turned \<open>s0\<close>, whose RAM is a multiple of 8 MiB, into \<open>s\<close>, with the pool from the
  \<open>m\<close>-th 8 MiB of RAM on.
\<close>

definition booted :: "u64 \<Rightarrow> nat \<Rightarrow> 'a kmem_scheme \<Rightarrow> 'a kmem_scheme \<Rightarrow> bool" where
  "booted bss_end m s0 s \<longleftrightarrow> ram_shape s0 \<and> kalloc_lock s0 = 0 \<and>
     unat (free_pool_start bss_end s0) = unat (ram_base s0) + m * 2 ^ 23 \<and> kalloc_init bss_end s0 = Ret s"

text \<open>The pages outside the pool carry flag 2 for ever.\<close>

definition off_pool :: "'a kmem_scheme \<Rightarrow> u64 set \<Rightarrow> bool" where
  "off_pool s U \<longleftrightarrow> (\<forall>j<total_pages s. j \<notin> U \<longrightarrow> flg s j = 2)"

lemma heap_ok_pool:
  assumes "heap_ok s L U"
  shows "j < total_pages s \<Longrightarrow> flg s j = 0 \<Longrightarrow> j \<in> U" and "(i, k) \<in> L \<Longrightarrow> i \<in> U"
proof -
  from assms obtain fl where b: "buddy_inv s fl L {} U" by (auto simp: heap_ok_def)
  note iv = buddy_invD [OF b]
  have p: "partitioned (free_blocks fl \<union> L) U" using iv(3) by (simp add: blocks_ok_def)
  have m: "i \<in> U" if "(i, k) \<in> free_blocks fl \<union> L" for i k
    using partitioned_subset [OF p that] self_in_blk [of i k] by blast
  show "j \<in> U" if f: "j < total_pages s" "flg s j = 0"
  proof -
    obtain k where "(j, k) \<in> free_blocks fl" using iv(2) f unfolding flags_ok_def by blast
    then show ?thesis using m by blast
  qed
  show "i \<in> U" if "(i, k) \<in> L" using m that by blast
qed

lemma booted_ok:
  assumes "booted bss_end m s0 s"
  shows "heap_ok s {} (pool m (unat (ram_size s0) div 2 ^ 23))" "coalesced s"
    "off_pool s (pool m (unat (ram_size s0) div 2 ^ 23))" "same_ram s0 s"
proof -
  have b: "ram_shape s0" "kalloc_lock s0 = 0" "unat (free_pool_start bss_end s0) = unat (ram_base s0) + m * 2 ^ 23"
    "kalloc_init bss_end s0 = Ret s" using assms by (simp_all add: booted_def)
  have "free_pool_start bss_end s0 < ram_base s0 + ram_size s0"
    using b(4) by (auto simp: kalloc_init_def Let_def split: if_splits)
  from kalloc_init_heap_ok [OF b(1-3) this] b(4)
  show h: "heap_ok s {} (pool m (unat (ram_size s0) div 2 ^ 23))" and sr: "same_ram s0 s" by auto
  note f = kalloc_init_flags [OF b(4)] and tot = same_ram_total [OF sr]
  show "coalesced s" unfolding coalesced_def using f tot by fastforce
  show "off_pool s (pool m (unat (ram_size s0) div 2 ^ 23))"
    unfolding off_pool_def using f tot heap_ok_pool(1) [OF h] by auto
qed

lemma split_flags: "flg (kalloc_split b req c s) j = flg s j \<or> flg (kalloc_split b req c s) j = 0"
proof (induction b req c s rule: kalloc_split.induct)
  case (2 b req c s)
  then show ?case using pushed_split_step [of b c s] by (cases "Suc c > req") (auto simp: pushed_def split: if_splits)
qed simp

lemma kalloc_off_pool:
  assumes h: "heap_ok s L U" and o: "off_pool s U" and r: "kalloc ord ca s = Ret (pa, t)"
  shows "off_pool t U"
proof -
  define s1 where "s1 = s\<lparr>kalloc_lock := 1\<rparr>"
  have l0: "kalloc_lock s = 0" using h by (simp add: heap_ok_def)
  obtain i where i: "pa = page_addr s i" "heap_ok t (insert (i, ord) L) U" "same_ram s t" "ord < MAX_ORDER"
    "(pa - ram_base s) div 4096 = i"
    using kalloc_Ret [OF h r] by blast
  from r l0 i(4) obtain m i' where pa: "pa = page_addr t i'"
    and t: "t = (kalloc_take i' ord ca (kalloc_split i' ord m (kalloc_pop m i' s1)))\<lparr>kalloc_lock := 0\<rparr>"
    by (auto simp: kalloc_def spinlock_acquire_def spinlock_release_def s1_def Let_def page_addr_def)
  have f: "flg t j = (if j = i' then 1 else flg (kalloc_split i' ord m (kalloc_pop m i' s1)) j)" for j
    by (simp add: t field_upd kalloc_take_fields)
  have p: "flg (kalloc_pop m i' s1) = flg s" by (simp add: kalloc_pop_fields s1_def field_upd)
  have iU: "i \<in> U" by (rule heap_ok_pool(2) [OF i(2)]) blast
  show ?thesis
    unfolding off_pool_def
  proof (intro allI impI)
    fix j assume j: "j < total_pages t" "j \<notin> U"
    then have js: "j < total_pages s" "flg s j = 2" using same_ram_total [OF i(3)] o by (simp_all add: off_pool_def)
    have "flg t j \<noteq> 0" using heap_ok_pool(1) [OF i(2) j(1)] j(2) by blast
    moreover have "j \<noteq> i'"
    proof
      assume e: "j = i'"
      have "(page_addr s i' - ram_base s) div 4096 = i'" using page_addr_index js(1) e by blast
      moreover have "page_addr t i' = page_addr s i'" using i(3) by (simp add: same_ram_def page_addr_def)
      ultimately show False using i(5) pa iU j(2) e by simp
    qed
    ultimately show "flg t j = 2" using f [of j] split_flags [of i' ord m "kalloc_pop m i' s1" j] p js(2) by auto
  qed
qed

lemma kfree_off_pool:
  assumes h: "heap_ok s L U" and o: "off_pool s U" and l: "(i, k) \<in> L" and r: "kfree (page_addr s i) s = Ret t"
  shows "off_pool t U"
proof -
  note lv = heap_ok_live [OF h l]
  have a: "kalloc_lock s = 0" "ram_ok s" using h by (simp_all add: heap_ok_def)
  from kfree_shape [OF a lv(1,5,6)] r obtain b' k' u where
    m: "kfree_merge i k (s\<lparr>kalloc_lock := 1\<rparr>) = (b', k', u)"
    and t: "t = (kfree_insert b' k' u)\<lparr>kalloc_lock := 0\<rparr>" by auto
  have "insert (i, k) (L - {(i, k)}) = L" using l by blast
  then have ht: "heap_ok t (L - {(i, k)}) U" "same_ram s t"
    using kfree_heap_ok [of s i k "L - {(i, k)}" U] h r by auto
  have f: "flg t j = (if j = b' then 0 else flg u j)" for j
    using pushed_kfree_insert [of b' k' u] by (simp add: t field_upd pushed_def)
  show ?thesis
    unfolding off_pool_def
  proof (intro allI impI)
    fix j assume j: "j < total_pages t" "j \<notin> U"
    then have js: "flg s j = 2" using same_ram_total [OF ht(2)] o by (simp add: off_pool_def)
    then have "flg u j = 2" using kfree_merge_result [OF m] by (simp add: field_upd)
    moreover have "flg t j \<noteq> 0" using heap_ok_pool(1) [OF ht(1) j(1)] j(2) by blast
    ultimately show "flg t j = 2" using f [of j] by auto
  qed
qed

lemma heap_run_keeps:
  assumes "heap_run s L t M" "heap_ok s L U"
  shows "coalesced s \<Longrightarrow> coalesced t" "off_pool s U \<Longrightarrow> off_pool t U"
  using assms
proof (induction rule: heap_run.induct)
  case (alloc s L t M ord caller pa u)
  {
    case 1
    then show ?case using heap_run_ok [OF alloc.hyps(1)] kalloc_coalesced alloc by blast
  next
    case 2
    then show ?case using heap_run_ok [OF alloc.hyps(1)] kalloc_off_pool alloc by blast
  }
next
  case (free s L t M i k u)
  {
    case 1
    then show ?case using heap_run_ok [OF free.hyps(1)] kfree_coalesced free by blast
  next
    case 2
    then show ?case using heap_run_ok [OF free.hyps(1)] kfree_off_pool free by blast
  }
qed simp_all

text \<open>The demo machine is a booted one.\<close>

lemma demo_booted: "booted 0x80010000 1 demo_ram demo_heap"
  using demo_heap_init demo_ram_shape demo_pool_start by (simp add: booted_def demo_ram_def)

text \<open>What the checks of \<open>kfree\<close> refuse.\<close>

lemma kfree_checks:
  assumes "kalloc_lock s = 0" and r: "ram_ok s"
  shows "pa AND 0xFFF \<noteq> 0 \<Longrightarrow> kfree pa s = Panic 104 pa"
    and "pa AND 0xFFF = 0 \<Longrightarrow> unat pa < unat (ram_base s) \<or> unat (ram_base s) + unat (ram_size s) \<le> unat pa \<Longrightarrow>
      kfree pa s = Panic 102 pa"
    and "i < total_pages s \<Longrightarrow> flg s i = 0 \<Longrightarrow> kfree (page_addr s i) s = Panic 103 (page_addr s i)"
    and "i < total_pages s \<Longrightarrow> flg s i = 2 \<Longrightarrow> kfree (page_addr s i) s = Panic 105 (page_addr s i)"
proof -
  note l = assms(1)
  have b: "unat (ram_base s) + unat (ram_size s) \<le> 2 ^ 64" using r by (simp add: ram_ok_def)
  show "pa AND 0xFFF \<noteq> 0 \<Longrightarrow> kfree pa s = Panic 104 pa"
    using l by (simp add: kfree_def spinlock_acquire_def Let_def)
  show "kfree pa s = Panic 102 pa" if a: "pa AND 0xFFF = 0"
      "unat pa < unat (ram_base s) \<or> unat (ram_base s) + unat (ram_size s) \<le> unat pa"
  proof -
    have "unat (ram_size s) \<le> unat (pa - ram_base s)"
      using a(2) b by (auto simp: unat_sub_if_size word_size)
    then have "total_pages s \<le> (pa - ram_base s) div 4096"
      by (simp add: total_pages_def word_le_nat_alt unat_div div_le_mono)
    then show ?thesis using l a(1)
      by (simp add: kfree_def spinlock_acquire_def Let_def total_pages_def)
  qed
  show "kfree (page_addr s i) s = Panic 103 (page_addr s i)" if "i < total_pages s" "flg s i = 0"
    using that l page_addr_aligned [OF r, of i]
    by (auto simp: kfree_def spinlock_acquire_def Let_def page_addr_index total_pages_def page_fields field_upd not_le)
  show "kfree (page_addr s i) s = Panic 105 (page_addr s i)" if "i < total_pages s" "flg s i = 2"
    using that l page_addr_aligned [OF r, of i]
    by (auto simp: kfree_def spinlock_acquire_def Let_def page_addr_index total_pages_def page_fields field_upd not_le)
qed

text \<open>
  C9. After any run of allocations and releases of live blocks from the boot, \<open>kfree\<close> refuses these addresses, with the code that names the reason: 104 for an
  address off a page boundary; 102 for a page outside RAM on either side (below the base the index wraps around); 105 for
  every page below the pool, that is for the kernel image and the allocator's own arrays, whatever was allocated and
  released before; 105 for any other page whose flag is 2, and 103 for one whose flag is 0, the head of a free block.
  It says nothing of pages with another flag: the live blocks, but also pages that once were the head of an
  allocated block and are now inside another one, which are accepted: the last property of this theory is about them.
\<close>

theorem kfree_foreign:
  assumes "booted bss_end m s0 s" and "heap_run s {} t M"
  shows "(pa AND 0xFFF \<noteq> 0 \<longrightarrow> kfree pa t = Panic 104 pa) \<and>
    (pa AND 0xFFF = 0 \<and> (unat pa < unat (ram_base t) \<or> unat (ram_base t) + unat (ram_size t) \<le> unat pa) \<longrightarrow>
      kfree pa t = Panic 102 pa) \<and>
    (i < total_pages t \<and> unat i < m * 2048 \<longrightarrow> kfree (page_addr t i) t = Panic 105 (page_addr t i)) \<and>
    (i < total_pages t \<and> flg t i = 2 \<longrightarrow> kfree (page_addr t i) t = Panic 105 (page_addr t i)) \<and>
    (i < total_pages t \<and> flg t i = 0 \<longrightarrow> kfree (page_addr t i) t = Panic 103 (page_addr t i))"
proof -
  note b = booted_ok [OF assms(1)]
  have h: "kalloc_lock t = 0" "ram_ok t" using heap_run_ok [OF assms(2) b(1)] by (simp_all add: heap_ok_def)
  note c = kfree_checks [OF h]
  have "flg t i = 2" if "i < total_pages t" "unat i < m * 2048"
    using heap_run_keeps(2) [OF assms(2) b(1,3)] that by (simp add: off_pool_def pool_def)
  then show ?thesis using c by blast
qed

theorem kfree_foreign_witness:
  "kfree 0x80800001 demo_heap = Panic 104 0x80800001 \<and> kfree 0x7FFFF000 demo_heap = Panic 102 0x7FFFF000 \<and>
   kfree 0x80010000 demo_heap = Panic 105 0x80010000"
proof -
  have "(0x80800001 :: u64) AND 0xFFF \<noteq> 0" "(0x7FFFF000 :: u64) AND 0xFFF = 0" by simp_all
  then show ?thesis
    using kfree_foreign [OF demo_booted heap_run.start, of "0x80800001" 0]
      kfree_foreign [OF demo_booted heap_run.start, of "0x7FFFF000" 16]
    by (simp add: demo_heap_fields total_pages_def page_addr_def)
qed

text \<open>
  C8. Every run of calls that starts from the booted allocator (on RAM whose base and size are multiples of 8 MiB) and frees only
  live blocks, of any length and in any order, keeps the live blocks pairwise disjoint as byte ranges and inside RAM,
  and leaves no two free buddies uncombined, also when everything has been freed.
\<close>

theorem heap_runs_safe:
  assumes "booted bss_end m s0 s" and "heap_run s {} t M"
  shows "(\<forall>p\<in>M. block_range t p \<subseteq> {unat (ram_base t) ..< unat (ram_base t) + unat (ram_size t)}) \<and>
    (\<forall>p\<in>M. \<forall>q\<in>M. p \<noteq> q \<longrightarrow> block_range t p \<inter> block_range t q = {}) \<and> coalesced t"
proof -
  note b = booted_ok [OF assms(1)]
  have t: "heap_ok t M (pool m (unat (ram_size s0) div 2 ^ 23))" using heap_run_ok [OF assms(2) b(1)] by simp
  then show ?thesis
    using block_range_in_ram [OF t] block_range_disjoint [OF t] heap_run_keeps(1) [OF assms(2) b(1,2)] by blast
qed

theorem heap_runs_safe_witness:
  "\<exists>t. heap_run demo_heap {} t {(2048, 0)} \<and> coalesced t \<and>
     block_range t (2048, 0) \<subseteq> {unat (ram_base t) ..< unat (ram_base t) + unat (ram_size t)}"
proof -
  obtain t where t: "kalloc 0 7 demo_heap = Ret (0x80800000, t)" using demo_alloc by blast
  have "heap_run demo_heap {} t (insert ((0x80800000 - ram_base demo_heap) div 4096, 0) {})"
    by (rule heap_run.alloc [OF heap_run.start t])
  then have r: "heap_run demo_heap {} t {(2048, 0)}" by (simp add: demo_heap_fields)
  note h = heap_runs_safe [OF demo_booted r]
  show ?thesis using r h [THEN conjunct1, rule_format, OF singletonI] h [THEN conjunct2, THEN conjunct2] by (intro exI [of _ t] conjI)
qed

text \<open>
  C7. Booting establishes the allocator's contract on RAM whose base and size are multiples of 8 MiB, with the kernel's
  image and the metadata not below the base: \<open>kalloc_init\<close> returns with every page from the first 8 MiB boundary after the
  metadata to the end of RAM in the pool and nothing live; when that boundary is not inside
  RAM it panics with code 106.
\<close>

theorem kalloc_init_correct:
  assumes "ram_shape s" and "kalloc_lock s = 0"
    and "unat (free_pool_start bss_end s) = unat (ram_base s) + p * 2 ^ 23"
  shows "(free_pool_start bss_end s < ram_base s + ram_size s \<longrightarrow>
      (\<exists>t. kalloc_init bss_end s = Ret t \<and>
         heap_ok t {} {j. p * 2048 \<le> unat j \<and> j < total_pages s} \<and> same_ram s t)) \<and>
    (ram_base s + ram_size s \<le> free_pool_start bss_end s \<longrightarrow>
      kalloc_init bss_end s = Panic 106 (free_pool_start bss_end s))"
proof -
  have "2 ^ 23 dvd unat (ram_size s)"
    using assms(1) by (simp add: ram_shape_def dvd_eq_mod_eq_0)
  then obtain n where n: "unat (ram_size s) = 2 ^ 23 * n" by (rule dvdE)
  then have "unat (total_pages s) = n * 2048" by (simp add: total_pages_def unat_div)
  then have "pool p (unat (ram_size s) div 2 ^ 23) = {j. p * 2048 \<le> unat j \<and> j < total_pages s}"
    using n by (auto simp: pool_def word_less_nat_alt)
  then show ?thesis
    using kalloc_init_heap_ok [OF assms] by (auto simp: kalloc_init_def Let_def)
qed

theorem kalloc_init_correct_witness:
  "\<exists>t. kalloc_init 0x80010000 demo_ram = Ret t \<and>
     heap_ok t {} {j. 1 * 2048 \<le> unat j \<and> j < total_pages demo_ram}"
proof -
  have "unat (free_pool_start 0x80010000 demo_ram) = unat (ram_base demo_ram) + 1 * 2 ^ 23"
    by (simp add: demo_pool_start) (simp add: demo_ram_def)
  moreover have "free_pool_start 0x80010000 demo_ram < ram_base demo_ram + ram_size demo_ram"
    by (simp add: demo_pool_start) (simp add: demo_ram_def)
  moreover have "kalloc_lock demo_ram = 0" by (simp add: demo_ram_def)
  ultimately show ?thesis using kalloc_init_correct [OF demo_ram_shape] by blast
qed

text \<open>Two free blocks never overlap, and a live page is never inside a free block.\<close>

lemma heap_ok_free_disjoint:
  assumes "heap_ok s L U" and "i < total_pages s" and "flg s i = 0"
    and "j < total_pages s" and "flg s j = 0" and "i \<in> blk (ordr s j) j"
  shows "i = j" and "aligned (ordr s j) j"
proof -
  from assms(1) obtain fl where b: "buddy_inv s fl L {} U" by (auto simp: heap_ok_def)
  note iv = buddy_invD [OF b]
  from iv(3) have p: "partitioned (free_blocks fl \<union> L) U" by (simp add: blocks_ok_def)
  have free: "(x, ordr s x) \<in> free_blocks fl" if x: "x < total_pages s" "flg s x = 0" for x
  proof -
    obtain m where "(x, m) \<in> free_blocks fl" using x iv(2) unfolding flags_ok_def by auto
    then show ?thesis using iv(2) by (auto simp: flags_ok_def)
  qed
  have fi: "(i, ordr s i) \<in> free_blocks fl \<union> L" and fj: "(j, ordr s j) \<in> free_blocks fl \<union> L"
    using free assms by blast+
  show "i = j" using partitioned_not_in_blk [OF p fj fi assms(6)] by simp
  show "aligned (ordr s j) j" using p fj by (rule partitioned_aligned)
qed

lemma kfree_insert_fields:
  "flg (kfree_insert b k s) = (flg s)(b := 0)" "ordr (kfree_insert b k s) = (ordr s)(b := k)"
  "same_ram s (kfree_insert b k s)"
  using pushed_kfree_insert [of b k s] by (simp_all add: pushed_def)

text \<open>
  The upper half of a pair whose lower half is free: after its release the page stays marked
  allocated although it lies inside the free block \<open>(b', k')\<close>.
\<close>

lemma kfree_upper_half:
  assumes h: "heap_ok s L U" and l: "(i, k) \<in> L" and k: "k < MAX_ORDER - 1" and b: "bit i k"
    and f: "flg s (buddy k i) = 0" "ordr s (buddy k i) = k"
  shows "\<exists>t b' k'. kfree (page_addr s i) s = Ret t \<and> heap_ok t (L - {(i, k)}) U \<and> same_ram s t \<and>
     flg t i = 1 \<and> ordr t i = k \<and> b' < total_pages t \<and> flg t b' = 0 \<and> ordr t b' = k' \<and>
     i \<in> blk k' b' \<and> buddy k i \<in> blk k' b' \<and> b' \<noteq> i \<and> k < k'"
proof -
  note lv = heap_ok_live [OF h l]
  have a: "kalloc_lock s = 0" "ram_ok s" using h by (simp_all add: heap_ok_def)
  let ?s = "s\<lparr>kalloc_lock := 1\<rparr>" and ?c = "i AND NOT (shl1 k)"
  from kfree_shape [OF a lv(1,5,6)] obtain b' k' u where
    m: "kfree_merge i k ?s = (b', k', u)"
    and r: "kfree (page_addr s i) s = Ret ((kfree_insert b' k' u)\<lparr>kalloc_lock := 0\<rparr>)" by auto
  let ?t = "(kfree_insert b' k' u)\<lparr>kalloc_lock := 0\<rparr>"
  have ht: "heap_ok ?t (L - {(i, k)}) U" "same_ram s ?t"
    using kfree_heap_ok [of s i k "L - {(i, k)}" U] h l r by (auto simp: insert_absorb)
  have cb: "?c = buddy k i" using clear_cases [of i k] b bit_clear [of i k k] by metis
  have bt: "buddy k i < total_pages s"
  proof -
    have "buddy k i \<le> i" using cb by (metis word_and_le2)
    then show ?thesis using lv(1) by simp
  qed
  have "kfree_merge ?c (Suc k) (kfree_unlink (buddy k i) k ?s) = (b', k', u)"
    using m k bt f by (simp add: kfree_merge_unfold [of i] field_upd total_pages_def)
  note mr = kfree_merge_result [OF this]
  have kk: "Suc k \<le> k'" and bl: "blk (Suc k) ?c \<subseteq> blk k' b'" using mr by blast+
  have both: "i \<in> blk k' b'" "buddy k i \<in> blk k' b'"
    using bl blk_clear [of k i] blk_Suc [of k i] k self_in_blk by (auto simp: cb)
  have fi: "flg u i = 1 \<and> ordr u i = k"
    using kfree_merge_result [OF m] lv(5,6) by (simp add: field_upd)
  have t0: "flg ?t = (flg u)(b' := 0)" "ordr ?t = (ordr u)(b' := k')" "total_pages ?t = total_pages s"
    using ht(2) by (simp_all add: field_upd kfree_insert_fields same_ram_total)
  have b't: "b' < total_pages ?t"
  proof -
    have "b' \<le> buddy k i" if "aligned k' b'"
      using both(2) blk_interval [OF that] by (simp add: word_le_nat_alt)
    moreover have "aligned k' b'"
    proof -
      obtain fl where "buddy_inv ?s fl (L - {(i, k)}) {(i, k)} U"
        using h l inv_release [of s _ "(i, k)" "L - {(i, k)}" "{}" U] by (auto simp: heap_ok_def insert_absorb)
      with inv_merge [OF this _ m] lv(5) obtain fl' where
        "buddy_inv u fl' (L - {(i, k)}) {(b', k')} U" by (auto simp: field_upd)
      then show ?thesis by (auto simp: buddy_inv_def blocks_ok_def intro: partitioned_aligned)
    qed
    ultimately show ?thesis using bt t0(3) by simp
  qed
  have "b' \<noteq> i"
  proof
    assume "b' = i"
    moreover have "aligned (ordr ?t b') b'"
      using heap_ok_free_disjoint(2) [OF ht(1) b't _ b't] t0 self_in_blk by simp
    ultimately show False using b kk t0 by (auto simp: aligned_bits)
  qed
  then show ?thesis using r ht fi t0 both b't kk
    by (intro exI [of _ ?t] exI [of _ b'] exI [of _ k']) auto
qed

text \<open>
  C15. A double free of the upper half of a pair is not detected: when the lower half is
  free, releasing the block merges it downwards and leaves its own page marked allocated, so
  a second release of the same address returns normally and destroys the allocator's
  contract for every choice of live blocks and pool.
\<close>

theorem kfree_double_free:
  assumes "heap_ok s L U" and "(i, k) \<in> L" and "k < MAX_ORDER - 1" and "bit i k"
    and "flg s (buddy k i) = 0" and "ordr s (buddy k i) = k"
  shows "\<exists>t u. kfree (page_addr s i) s = Ret t \<and> heap_ok t (L - {(i, k)}) U \<and>
    kfree (page_addr s i) t = Ret u \<and> (\<forall>L' U'. \<not> heap_ok u L' U')"
proof -
  from kfree_upper_half [OF assms] obtain t b' k' where
    t: "kfree (page_addr s i) s = Ret t" "heap_ok t (L - {(i, k)}) U" "same_ram s t"
    and f: "flg t i = 1" "ordr t i = k" "b' < total_pages t" "flg t b' = 0" "ordr t b' = k'"
      "i \<in> blk k' b'" "buddy k i \<in> blk k' b'" "b' \<noteq> i" "k < k'" by blast
  have it: "i < total_pages t"
    using heap_ok_live(1) [OF assms(1,2)] same_ram_total [OF t(3)] by simp
  have nb: "\<not> (buddy k i < total_pages t \<and> flg t (buddy k i) = 0 \<and> ordr t (buddy k i) = k)"
    using heap_ok_free_disjoint(1) [OF t(2) _ _ f(3,4), of "buddy k i"] f by auto
  let ?u = "(kfree_insert i k (t\<lparr>kalloc_lock := 1\<rparr>))\<lparr>kalloc_lock := 0\<rparr>"
  have mt: "kfree_merge i k (t\<lparr>kalloc_lock := 1\<rparr>) = (i, k, t\<lparr>kalloc_lock := 1\<rparr>)"
    using nb by (auto simp: kfree_merge_unfold [of i] field_upd total_pages_def)
  have "kalloc_lock t = 0" "ram_ok t" using t(2) by (simp_all add: heap_ok_def)
  from kfree_shape [OF this it f(1,2)] mt have u: "kfree (page_addr t i) t = Ret ?u" by simp
  have pa: "page_addr t i = page_addr s i" using t(3) by (simp add: page_addr_def same_ram_def)
  have fu: "flg ?u = (flg t)(i := 0)" "ordr ?u = (ordr t)(i := k)" "total_pages ?u = total_pages t"
    using kfree_insert_fields(3) [of "t\<lparr>kalloc_lock := 1\<rparr>" i k]
    by (simp_all add: field_upd kfree_insert_fields same_ram_def total_pages_def)
  have "\<not> heap_ok ?u L' U'" for L' U'
    using heap_ok_free_disjoint(1) [of ?u L' U' i b'] it f fu by auto
  then show ?thesis using t(1,2) u pa by (metis (no_types))
qed

text \<open>Two pages in a row from a split block: the second is the upper half of the first's pair.\<close>

lemma kalloc_split_last:
  "req < c \<Longrightarrow> free_lists (kalloc_split i req c s) req = i + shl1 req"
proof (induction c arbitrary: s)
  case (Suc c)
  have "kalloc_split i c c t = t" for t :: "'a kmem_scheme" by (cases c) simp_all
  then show ?case
    using Suc pushed_split_step [of i c s] by (cases "req = c") (simp_all add: pushed_def)
qed simp

lemma demo_pair:
  "\<exists>t::kmem. heap_ok t {(2049, 0)} (pool 1 2) \<and> same_ram demo_heap t \<and> flg t 2048 = 0 \<and> ordr t 2048 = 0"
proof -
  obtain s where s: "kalloc 0 7 demo_heap = Ret (0x80800000, s)" "heap_ok s {(2048, 0)} (pool 1 2)"
    "same_ram demo_heap s" using demo_live by blast
  have fl: "free_lists s 0 = 2049"
    using s(1) kalloc_split_last [of 0 11 2048]
      demo_heap_search demo_heap_fields(1) [of 0]
    by (auto simp: kalloc_def spinlock_acquire_def Let_def kalloc_take_fields
        demo_heap_fields(2) shl1_def)
  have l: "kalloc_lock s = 0" using s(2) by (simp add: heap_ok_def)
  have "kalloc_search (s\<lparr>kalloc_lock := 1\<rparr>) 0 (free_lists s 0) = Ret (0, 2049)"
    by (simp add: kalloc_search.simps fl)
  from kalloc_at [OF l _ this] obtain t where t: "kalloc 0 7 s = Ret (page_addr s 2049, t)" by auto
  from kalloc_Ret [OF s(2) t] obtain i where i: "heap_ok t (insert (i, 0) {(2048, 0)}) (pool 1 2)"
    "same_ram s t" "(page_addr s 2049 - ram_base s) div 4096 = i"
    by blast
  have rs: "ram_base s = 0x80000000" "total_pages s = 4096"
    using s(3) by (simp_all add: same_ram_def demo_heap_fields total_pages_def)
  then have i9: "i = 2049" using i(3) by (simp add: page_addr_def)
  have ht: "heap_ok t {(2048, 0), (2049, 0)} (pool 1 2)"
    using i(1) i9 by (simp add: insert_commute)
  have m8: "(2048, 0) \<in> {(2048, 0), (2049 :: u64, 0 :: nat)}"
    and m9: "(2049, 0) \<in> {(2048, 0), (2049 :: u64, 0 :: nat)}" by simp_all
  note lv = heap_ok_live(1,5,6) [OF ht m8] heap_ok_live(5) [OF ht m9]
  have a: "kalloc_lock t = 0" "ram_ok t" using ht by (simp_all add: heap_ok_def)
  have "buddy 0 2048 = 2049" by (simp add: buddy_def shl1_def)
  then have "kfree_merge 2048 0 (t\<lparr>kalloc_lock := 1\<rparr>) = (2048, 0, t\<lparr>kalloc_lock := 1\<rparr>)"
    using lv by (simp add: kfree_merge_unfold [of 2048] field_upd)
  with kfree_shape [OF a lv(1,2,3)] have
    k: "kfree (page_addr t 2048) t = Ret ((kfree_insert 2048 0 (t\<lparr>kalloc_lock := 1\<rparr>))\<lparr>kalloc_lock := 0\<rparr>)"
    by simp
  with kfree_heap_ok [of t 2048 0 "{(2049, 0)}"] ht
  have "heap_ok ((kfree_insert 2048 0 (t\<lparr>kalloc_lock := 1\<rparr>))\<lparr>kalloc_lock := 0\<rparr>) {(2049, 0)} (pool 1 2)"
    "same_ram t ((kfree_insert 2048 0 (t\<lparr>kalloc_lock := 1\<rparr>))\<lparr>kalloc_lock := 0\<rparr>)" by auto
  moreover have "same_ram demo_heap t" using s(3) i(2) by (rule same_ram_trans)
  ultimately show ?thesis
    using same_ram_trans by (auto simp: field_upd kfree_insert_fields intro!: exI)
qed

theorem kfree_double_free_witness:
  "\<exists>(s::kmem) t u. heap_ok s {(2049, 0)} (pool 1 2) \<and> kfree 0x80801000 s = Ret t \<and>
     kfree 0x80801000 t = Ret u \<and> (\<forall>L' U'. \<not> heap_ok u L' U')"
proof -
  obtain s where s: "heap_ok s {(2049, 0)} (pool 1 2)" "same_ram demo_heap s"
    "flg s 2048 = 0" "ordr s 2048 = 0" using demo_pair by blast
  have "page_addr s 2049 = 0x80801000"
    using s(2) by (simp add: page_addr_def same_ram_def demo_heap_fields)
  moreover have "buddy 0 2049 = 2048" by (simp add: buddy_def shl1_def)
  ultimately show ?thesis
    using kfree_double_free [OF s(1), of 2049 0] s by simp blast
qed

end
