(* ===== verification/Pages.thy ===== *)
theory Pages
  imports KallocSpec Memory
begin

text \<open>
  What the clients of the page allocator rely on, as an interface: \<open>alloc\<close> hands out a page
  that nobody owns (\<open>page_grants\<close>), \<open>release\<close> takes an owned page back, and neither touches what
  is owned by others. The buddy allocator's \<open>kalloc 0\<close> and \<open>kfree\<close> provide it.
\<close>

section \<open>The interface\<close>

locale page_grants =
  fixes alloc :: "'s \<Rightarrow> (u64 \<times> 's) outcome"
    and owned :: "'s \<Rightarrow> u64 set \<Rightarrow> bool"
    and rest :: "'s \<Rightarrow> 'r"
  assumes alloc_total: "owned s P \<Longrightarrow> alloc s = Panic 101 0 \<or> (\<exists>p t. alloc s = Ret (p, t))"
    and alloc_new: "owned s P \<Longrightarrow> alloc s = Ret (p, t) \<Longrightarrow>
      p \<notin> P \<and> page_base p \<and> p \<noteq> 0 \<and> owned t (insert p P) \<and> rest t = rest s"
begin

lemma alloc_distinct:
  assumes "owned s P" and "alloc s = Ret (p, t)" and "alloc t = Ret (q, u)"
  shows "p \<noteq> q" and "owned u (insert q (insert p P))"
  using alloc_new [OF assms(1,2)] alloc_new [OF _ assms(3)] by blast+

end

text \<open>An allocator that also takes pages back.\<close>

locale page_source = page_grants alloc owned rest
  for alloc :: "'s \<Rightarrow> (u64 \<times> 's) outcome"
    and owned :: "'s \<Rightarrow> u64 set \<Rightarrow> bool"
    and rest :: "'s \<Rightarrow> 'r" +
  fixes release :: "u64 \<Rightarrow> 's \<Rightarrow> 's outcome"
  assumes release_total: "owned s (insert p P) \<Longrightarrow> p \<notin> P \<Longrightarrow>
      \<exists>t. release p s = Ret t \<and> owned t P \<and> rest t = rest s"
    and owned_subset: "owned s P \<Longrightarrow> Q \<subseteq> P \<Longrightarrow> owned s Q"
    and owned_page: "owned s P \<Longrightarrow> p \<in> P \<Longrightarrow> page_base p \<and> p \<noteq> 0"
begin

text \<open>A page taken and given back leaves the owner where it was.\<close>

lemma alloc_release:
  assumes "owned s P" and "alloc s = Ret (p, t)"
  shows "\<exists>u. release p t = Ret u \<and> owned u P \<and> rest u = rest s"
  using alloc_new [OF assms] release_total [of t p P] by force

end

section \<open>The buddy allocator provides it\<close>

text \<open>\<open>owned_pages s P\<close>: the pages at the addresses \<open>P\<close> are live order-0 blocks of a sound heap.\<close>

definition owned_pages :: "'a kmem_scheme \<Rightarrow> u64 set \<Rightarrow> bool" where
  "owned_pages s P \<longleftrightarrow> ram_base s \<noteq> 0 \<and>
     (\<exists>L U. heap_ok s L U \<and> P \<subseteq> {page_addr s i | i. (i, 0) \<in> L})"

definition outside_pages :: "'a kmem_scheme \<Rightarrow> u64 \<times> u64 \<times> 'a" where
  "outside_pages s = (ram_base s, ram_size s, kmem.more s)"

lemma page_addr_inj:
  "i < total_pages s \<Longrightarrow> j < total_pages s \<Longrightarrow> page_addr s i = page_addr s j \<Longrightarrow> i = j"
  using page_addr_index by metis

lemma page_addr_nonzero:
  assumes "ram_ok s" "ram_base s \<noteq> 0" "i < total_pages s"
  shows "page_addr s i \<noteq> 0"
proof -
  have "unat (ram_base s) \<noteq> 0" using assms(2) by (simp add: unat_eq_0)
  then have "unat (page_addr s i) \<noteq> 0" using unat_page_addr [OF assms(1,3)] by simp
  then show ?thesis by auto
qed

interpretation pages: page_source "kalloc 0 ca" owned_pages outside_pages kfree for ca
proof (unfold_locales, goal_cases)
  case (1 s P)
  then obtain L U where "heap_ok s L U" by (auto simp: owned_pages_def)
  then show ?case using kalloc_heap_ok [of s L U 0 ca] by force
next
  case (2 s P p t)
  then obtain L U where h: "heap_ok s L U" and b: "ram_base s \<noteq> 0"
    and P: "P \<subseteq> {page_addr s i | i. (i, 0) \<in> L}" by (auto simp: owned_pages_def)
  from kalloc_Ret [OF h 2(2)] obtain i where
    i: "p = page_addr s i" "(i, 0) \<notin> L" "heap_ok t (insert (i, 0) L) U" "same_ram s t"
    by blast
  have it: "i < total_pages s"
    using heap_ok_live(1) [OF i(3), of i 0] same_ram_total [OF i(4)] by simp
  have r: "ram_ok s" using h by (simp add: heap_ok_def)
  have pa: "page_addr t = page_addr s" using i(4) by (auto simp: page_addr_def same_ram_def)
  have "p \<notin> P"
  proof
    assume "p \<in> P"
    with P obtain j where "(j, 0) \<in> L" "page_addr s j = p" by auto
    then show False using heap_ok_live(1) [OF h] page_addr_inj [OF it] i by metis
  qed
  moreover have "page_base p"
    using page_addr_aligned [OF r, of i] by (simp add: i(1) page_base_def and_FFF_0_iff)
  moreover have "p \<noteq> 0" unfolding i(1) by (rule page_addr_nonzero [OF r b it])
  moreover have "ram_base t \<noteq> 0" using b i(4) by (simp add: same_ram_def)
  moreover have "insert p P \<subseteq> {page_addr t j | j. (j, 0) \<in> insert (i, 0) L}"
    using P by (auto simp: pa i(1))
  moreover have "outside_pages t = outside_pages s" using i(4) by (simp add: outside_pages_def same_ram_def)
  ultimately show ?case using i(3) unfolding owned_pages_def by blast
next
  case (3 s p P)
  then obtain L U where h: "heap_ok s L U" and b: "ram_base s \<noteq> 0"
    and P: "insert p P \<subseteq> {page_addr s i | i. (i, 0) \<in> L}" by (auto simp: owned_pages_def)
  from P obtain i where i: "(i, 0) \<in> L" "p = page_addr s i" by auto
  have it: "i < total_pages s" using heap_ok_live(1) [OF h i(1)] .
  from kfree_heap_ok [of s i 0 "L - {(i, 0)}" U] h i obtain t where
    t: "kfree p s = Ret t" "heap_ok t (L - {(i, 0)}) U" "same_ram s t" by (auto simp: insert_absorb)
  have pa: "page_addr t = page_addr s" using t(3) by (auto simp: page_addr_def same_ram_def)
  have "P \<subseteq> {page_addr t j | j. (j, 0) \<in> L - {(i, 0)}}"
    using P 3(2) i by (auto simp: pa)
  moreover have "outside_pages t = outside_pages s" using t(3) by (simp add: outside_pages_def same_ram_def)
  moreover have "ram_base t \<noteq> 0" using b t(3) by (simp add: same_ram_def)
  ultimately show ?case using t(1,2) unfolding owned_pages_def by blast
next
  case (4 s P Q)
  then show ?case unfolding owned_pages_def by blast
next
  case (5 s P p)
  then obtain L U i where h: "heap_ok s L U" "ram_base s \<noteq> 0" and i: "(i, 0) \<in> L" "p = page_addr s i"
    unfolding owned_pages_def by auto
  have "ram_ok s" using h by (simp add: heap_ok_def)
  then show ?case
    using page_addr_aligned [of s i] page_addr_nonzero [of s i] heap_ok_live(1) [OF h(1) i(1)] h(2) i(2)
    by (simp add: page_base_def and_FFF_0_iff)
qed

end
