(* ===== verification/PageMap.thy ===== *)
theory PageMap
  imports PageWalk Pages
begin

text \<open>
  Correctness of the mapping loop of \<open>kvm_map\<close> and \<open>uvm_map\<close>: on a range that is not mapped,
  a returning call maps every page of the range to its physical page with the requested
  permissions, leaves every other translation alone, and writes no memory outside the pages
  of its own tree. \<open>N\<close> is the set of table pages, \<open>F\<close> any other pages the caller owns. The lemmas are
  those of the locale \<open>table_pages\<close>, in which \<open>own\<close> is any ownership of pages that \<open>kalloc 0\<close> extends.
\<close>

section \<open>Writes stay inside a page\<close>

lemma aligned_page_base: "page_base p \<longleftrightarrow> aligned 12 p"
  by (simp add: page_base_bits aligned_bits)

lemma and_mask_aligned: "a AND mask n = 0 \<longleftrightarrow> aligned n a"
  by (simp only: aligned_def take_bit_eq_mask)

lemma bit_page_down: "bit (page_down a) n \<longleftrightarrow> bit a n \<and> 12 \<le> n"
proof -
  have e: "(0xFFF :: u64) = mask 12" by (simp add: mask_eq_exp_minus_1)
  show ?thesis unfolding page_down_def e
    by (auto simp: bit_simps dest: bit_imp_le_length)
qed

lemma page_down_blk: "page_base p \<Longrightarrow> a \<in> blk 12 p \<Longrightarrow> page_down a = p"
  by (intro bit_eqI) (auto simp: bit_page_down mem_blk page_base_bits not_less [symmetric])

lemma page_down_unique:
  assumes "page_base p" and "unat p \<le> unat a" and "unat a < unat p + 4096"
  shows "page_down a = p"
  using assms blk_interval [of 12 p] by (intro page_down_blk) (auto simp: aligned_page_base)

lemma page_base_page_down [simp]: "page_base (page_down a)"
  by (simp add: page_base_bits bit_page_down)

lemma page_down_id: "page_base a \<Longrightarrow> page_down a = a"
  by (rule page_down_unique) simp_all

lemma st64_frame:
  assumes "page_base p" "i < 512" "page_down a \<noteq> p"
  shows "st64 (cell p i) v m a = m a"
proof -
  have "\<not> a - cell p i < 8"
  proof
    assume l: "a - cell p i < 8"
    define j where "j = a - cell p i"
    have j: "unat j < 8" using l by (simp add: j_def word_less_nat_alt)
    have c: "unat (cell p i) = unat p + 8 * unat i" using assms by (intro unat_cell)
    have i: "unat i < 512" using assms(2) by (simp add: word_less_nat_alt)
    have "unat (cell p i) + unat j < 2 ^ LENGTH(64)"
      using page_base_bound [OF assms(1)] c i j by simp
    then have "unat (cell p i + j) = unat (cell p i) + unat j" by (rule unat_add_lem [THEN iffD1])
    then have "unat a = unat p + 8 * unat i + unat j" using c by (simp add: j_def)
    then have "page_down a = p" using i j by (intro page_down_unique [OF assms(1)]) auto
    with assms(3) show False ..
  qed
  then show ?thesis by (simp add: st64_def)
qed

lemma zero64_frame:
  assumes "page_base p" "page_down a \<noteq> p"
  shows "k + n \<le> 512 \<Longrightarrow> zero64 n (cell p (of_nat k)) m a = m a"
proof (induction n arbitrary: k m)
  case (Suc n)
  have "(of_nat k :: u64) < 512" using Suc.prems by (simp add: word_less_nat_alt unat_of_nat)
  then have "st64 (cell p (of_nat k)) 0 m a = m a" by (rule st64_frame [OF assms(1) _ assms(2)])
  then show ?case using Suc.IH [of "Suc k"] Suc.prems by (simp add: algebra_simps)
qed simp

section \<open>The state of a tree\<close>

lemma heap_ok_mem [simp]: "heap_ok (s\<lparr>mem := m\<rparr>) L U = heap_ok s L U"
  by (simp add: heap_ok_def buddy_inv_def lists_ok_def flags_ok_def blocks_ok_def ram_ok_def
      nxt_def prv_def flg_def ordr_def total_pages_def)

lemma owned_pages_mem [simp]: "owned_pages (s\<lparr>mem := m\<rparr>) P = owned_pages s P"
  by (simp add: owned_pages_def page_addr_def)

definition pt_inv_on ::
  "('a vmem_scheme \<Rightarrow> u64 set \<Rightarrow> bool) \<Rightarrow> 'a vmem_scheme \<Rightarrow> u64 \<Rightarrow> u64 set \<Rightarrow> u64 set \<Rightarrow> bool" where
  "pt_inv_on own s root N F \<longleftrightarrow> tree (mem s) root N \<and> own s (N \<union> F) \<and> N \<inter> F = {}"

abbreviation pt_inv :: "'a vmem_scheme \<Rightarrow> u64 \<Rightarrow> u64 set \<Rightarrow> u64 set \<Rightarrow> bool" where
  "pt_inv \<equiv> pt_inv_on owned_pages"

lemmas pt_inv_def = pt_inv_on_def [of owned_pages]

text \<open>From \<open>s\<close> to \<open>t\<close> the tree has grown from \<open>N\<close> to \<open>N'\<close>, and only its pages were written.\<close>

definition pt_grown :: "'a vmem_scheme \<Rightarrow> u64 set \<Rightarrow> 'a vmem_scheme \<Rightarrow> u64 set \<Rightarrow> bool" where
  "pt_grown s N t N' \<longleftrightarrow> N \<subseteq> N' \<and> (\<forall>a. page_down a \<notin> N' \<longrightarrow> mem t a = mem s a) \<and>
     ram_base t = ram_base s \<and> ram_size t = ram_size s \<and>
     root_table t = root_table s \<and> satp t = satp s \<and> vmem.more t = vmem.more s"

lemma pt_grown_refl: "pt_grown s N s N"
  by (simp add: pt_grown_def)

lemma pt_grown_trans: "pt_grown s N t N' \<Longrightarrow> pt_grown t N' u N'' \<Longrightarrow> pt_grown s N u N''"
  by (auto simp: pt_grown_def)

lemma outside_pages_vmem:
  "outside_pages t = outside_pages s \<longleftrightarrow> ram_base t = ram_base s \<and> ram_size t = ram_size s \<and>
     mem t = mem s \<and> root_table t = root_table s \<and> satp t = satp s \<and> vmem.more t = vmem.more s"
  by (cases s; cases t) (auto simp: outside_pages_def)

text \<open>The state that building tables does not touch, beside memory and the pages.\<close>

definition same_kernel :: "'a vmem_scheme \<Rightarrow> 'a vmem_scheme \<Rightarrow> bool" where
  "same_kernel s t \<longleftrightarrow> ram_base t = ram_base s \<and> ram_size t = ram_size s \<and> root_table t = root_table s \<and>
     satp t = satp s \<and> vmem.more t = vmem.more s"

lemma same_kernel_trans: "same_kernel s t \<Longrightarrow> same_kernel t u \<Longrightarrow> same_kernel s u"
  by (simp add: same_kernel_def)

lemma pt_grown_kernel: "pt_grown s N t N' \<Longrightarrow> same_kernel s t"
  by (simp add: pt_grown_def same_kernel_def)

lemma outside_pages_kernel: "outside_pages t = outside_pages s \<Longrightarrow> same_kernel s t"
  by (simp add: outside_pages_vmem same_kernel_def)

section \<open>What mapping promises\<close>

lemma xlate_None: "xlate m root a = None \<longleftrightarrow> walk 2 m root a = None"
  by (simp add: xlate_def)

lemma walk_None_slot:
  assumes "walk 2 m root va = None" "l \<le> 2" "tbl m root (vpath l va) = Some t"
  shows "\<not> is_leaf (ld64 m (cell t (vpn l va)))"
proof
  assume lf: "is_leaf (ld64 m (cell t (vpn l va)))"
  have e: "entry m root (vpath l va) (vpn l va) = Some (ld64 m (cell t (vpn l va)))"
    using assms(3) by (simp add: entry_def)
  have nt: "is_table e' \<Longrightarrow> \<not> is_leaf e'" for e' by (simp add: is_table_def is_leaf_def)
  from assms(2) consider "l = 0" | "l = 1" | "l = 2" by linarith
  then show False
  proof cases
    case 1
    from e 1 obtain e1 where e1: "entry m root [vpn 2 va] (vpn 1 va) = Some e1" "is_table e1"
      using entry_parent [of m root "[vpn 2 va]" "vpn 1 va"] by (auto simp: vpath_def)
    then obtain e2 where "entry m root [] (vpn 2 va) = Some e2" "is_table e2"
      using entry_parent [of m root "[]" "vpn 2 va"] by auto
    then show False using assms(1) e e1 lf 1 nt unfolding walk_entry by (simp add: vpath_def)
  next
    case 2
    from e 2 obtain e2 where "entry m root [] (vpn 2 va) = Some e2" "is_table e2"
      using entry_parent [of m root "[]" "vpn 2 va"] by (auto simp: vpath_def)
    then show False using assms(1) e lf 2 nt unfolding walk_entry by (simp add: vpath_def)
  next
    case 3
    then show False using assms(1) e lf unfolding walk_entry by (simp add: vpath_def)
  qed
qed

text \<open>The translations after \<open>n\<close> bytes from \<open>va\<close> on were mapped to \<open>pa\<close>.\<close>

definition mapped ::
  "memory \<Rightarrow> memory \<Rightarrow> u64 \<Rightarrow> u64 \<Rightarrow> u64 \<Rightarrow> nat \<Rightarrow> u64 \<Rightarrow> bool" where
  "mapped m m' root va pa n flags \<longleftrightarrow> (\<forall>a. unat a < 2 ^ 39 \<longrightarrow>
     xlate m' root a = (if unat va \<le> unat a \<and> unat a < unat va + n
       then Some (pa + (a - va), flags) else xlate m root a))"

lemma mappedD:
  assumes "mapped m m' root va pa n flags" and "unat a < 2 ^ 39"
  shows "unat va \<le> unat a \<and> unat a < unat va + n \<Longrightarrow> xlate m' root a = Some (pa + (a - va), flags)"
    and "\<not> (unat va \<le> unat a \<and> unat a < unat va + n) \<Longrightarrow> xlate m' root a = xlate m root a"
  using assms by (auto simp: mapped_def)

lemma mapped_after_walk:
  "(\<And>va. walk 2 m' root va = walk 2 m root va) \<Longrightarrow> mapped m' m'' root va pa n f \<Longrightarrow>
   mapped m m'' root va pa n f"
  by (simp add: mapped_def xlate_def)

definition step_ok ::
  "('a vmem_scheme \<Rightarrow> u64 set \<Rightarrow> bool) \<Rightarrow> 'a vmem_scheme \<Rightarrow> u64 \<Rightarrow> u64 set \<Rightarrow> u64 set \<Rightarrow> u64 \<Rightarrow> u64 \<Rightarrow> u64 \<Rightarrow> u64 \<Rightarrow>
   (u64 \<times> 'a vmem_scheme) outcome \<Rightarrow> bool" where
  "step_ok own s root N F va pa sz flags r \<longleftrightarrow>
     r = Panic 101 0 \<or> (r = Panic 107 pa \<and> 0x200000 \<le> sz) \<or>
     (\<exists>l t N'. r = Ret (shl1 (lvl_bits l), t) \<and> l \<le> 2 \<and> 2 ^ lvl_bits l \<le> unat sz \<and>
        aligned (lvl_bits l) va \<and> aligned (lvl_bits l) pa \<and> pt_inv_on own t root N' F \<and>
        pt_grown s N t N' \<and> mapped (mem s) (mem t) root va pa (2 ^ lvl_bits l) flags)"

lemma mapped_empty: "mapped m m root va pa 0 flags"
  by (auto simp: mapped_def)

lemma mapped_trans:
  assumes "mapped m m1 root va pa n flags" and "mapped m1 m2 root (va + d) (pa + d) k flags"
    and "unat (va + d) = unat va + n"
  shows "mapped m m2 root va pa (n + k) flags"
proof -
  have "pa + d + (a - (va + d)) = pa + (a - va)" for a by (simp add: algebra_simps)
  then show ?thesis using assms unfolding mapped_def by (auto simp: not_le not_less)
qed

definition unmapped :: "memory \<Rightarrow> u64 \<Rightarrow> u64 \<Rightarrow> nat \<Rightarrow> bool" where
  "unmapped m root va n \<longleftrightarrow>
     (\<forall>a. unat va \<le> unat a \<and> unat a < unat va + n \<longrightarrow> walk 2 m root a = None)"

lemma unmapped_after:
  assumes "unmapped m root va (n + k)" and "mapped m m' root va pa n flags"
    and "unat va' = unat va + n" and "unat va + n + k \<le> 2 ^ 39"
  shows "unmapped m' root va' k"
  unfolding unmapped_def
proof (intro allI impI)
  fix a :: u64 assume a: "unat va' \<le> unat a \<and> unat a < unat va' + k"
  then have "walk 2 m root a = None" "unat a < 2 ^ 39" "\<not> unat a < unat va + n"
    using assms unfolding unmapped_def by auto
  then show "walk 2 m' root a = None" using assms(2) unfolding mapped_def by (simp add: xlate_None [symmetric])
qed

lemma unat_shl1: "k < 64 \<Longrightarrow> unat (shl1 k) = 2 ^ k"
  unfolding shl1_def unsigned_push_bit_eq by (simp add: take_bit_nat_eq_self)

lemma page_base_add: "page_base a \<Longrightarrow> page_base b \<Longrightarrow> page_base (a + b)"
proof -
  assume a: "page_base a" "page_base b"
  have "unat (a + b) mod 4096 = (unat a + unat b) mod 2 ^ 64 mod 4096" by (simp add: unat_word_ariths)
  also have "\<dots> = (unat a + unat b) mod 4096" by (rule mod_mod_cancel) simp
  also have "\<dots> = (unat a mod 4096 + unat b mod 4096) mod 4096" by presburger
  finally show ?thesis using a by (simp add: page_base_def)
qed

definition loop_ok ::
  "('a vmem_scheme \<Rightarrow> u64 set \<Rightarrow> bool) \<Rightarrow> 'a vmem_scheme \<Rightarrow> u64 \<Rightarrow> u64 set \<Rightarrow> u64 set \<Rightarrow> u64 \<Rightarrow> u64 \<Rightarrow> u64 \<Rightarrow> u64 \<Rightarrow>
   'a vmem_scheme outcome \<Rightarrow> bool" where
  "loop_ok own s root N F va pa sz flags r \<longleftrightarrow>
     r = Panic 101 0 \<or> ((\<exists>x. r = Panic 107 x) \<and> 0x200000 \<le> sz) \<or>
     (\<exists>t N'. r = Ret t \<and> pt_inv_on own t root N' F \<and> pt_grown s N t N' \<and>
        mapped (mem s) (mem t) root va pa (unat sz) flags)"

section \<open>Mapping over any source of pages\<close>

text \<open>
  The loop asks for pages with \<open>kalloc 0\<close> and never gives one back. All it needs is that a granted page is
  new to the owner and that owning pages does not depend on what is in memory.
\<close>

locale table_pages = page_grants "kalloc 0 ca" own outside_pages
  for ca :: u64 and own :: "'a vmem_scheme \<Rightarrow> u64 set \<Rightarrow> bool" +
  assumes own_mem [simp]: "own (s\<lparr>mem := m\<rparr>) P = own s P"
begin

lemma new_table_ok:
  assumes "pt_inv_on own s root N F"
  shows "new_table ca err arg s = Panic 101 0 \<or>
    (\<exists>z t. new_table ca err arg s = Ret (z, t) \<and> z \<notin> N \<and> z \<notin> F \<and> page_base z \<and>
       own t (insert z N \<union> F) \<and> mem t = zero64 512 z (mem s) \<and> pt_grown s N t (insert z N))"
proof -
  have o: "own s (N \<union> F)" using assms by (simp add: pt_inv_on_def)
  from alloc_total [OF o] show ?thesis
  proof
    assume "kalloc 0 ca s = Panic 101 0"
    then show ?thesis by (simp add: new_table_def)
  next
    assume "\<exists>p t. kalloc 0 ca s = Ret (p, t)"
    then obtain z u where k: "kalloc 0 ca s = Ret (z, u)" by blast
    from alloc_new [OF o k] have
      z: "z \<notin> N \<union> F" "page_base z" "z \<noteq> 0" "own u (insert z (N \<union> F))"
        "outside_pages u = outside_pages s" by simp_all
    have "zero64 512 z (mem s) a = mem s a" if "page_down a \<noteq> z" for a
      using zero64_frame [OF z(2) that, of 0 512] by simp
    then have "pt_grown s N (u\<lparr>mem := zero64 512 z (mem u)\<rparr>) (insert z N)"
      using z(5) by (auto simp: pt_grown_def outside_pages_vmem)
    then show ?thesis using k z by (auto simp: new_table_def outside_pages_vmem)
  qed
qed

lemma get_table_ok:
  assumes inv: "pt_inv_on own s root N F" and p: "p \<in> paths" "length p < 2"
    and u: "tbl (mem s) root p = Some u" and i: "i < 512" and nl: "\<not> is_leaf (load s (cell u i))"
  shows "get_table ca err arg (cell u i) s = Panic 101 0 \<or>
    (\<exists>z t N'. get_table ca err arg (cell u i) s = Ret (z, t) \<and> pt_inv_on own t root N' F \<and>
       pt_grown s N t N' \<and> tbl (mem t) root (p @ [i]) = Some z \<and>
       (\<forall>va. walk 2 (mem t) root va = walk 2 (mem s) root va))"
proof (cases "load s (cell u i) AND 1 = 0")
  case False
  then have "is_table (load s (cell u i))" using nl by (auto simp: is_table_def is_leaf_def)
  then have "tbl (mem s) root (p @ [i]) = Some (pte_addr (load s (cell u i)))"
    using u by (simp add: tbl_snoc load_def)
  then show ?thesis using False inv pt_grown_refl by (auto simp: get_table_def)
next
  case True
  have tr: "tree (mem s) root N" using inv by (simp add: pt_inv_on_def)
  have ub: "page_base u" "u \<in> N" using treeD(1,2) [OF tr p(1) u] by simp_all
  have iv: "ld64 (mem s) (cell u i) AND 1 = 0" using True by (simp add: load_def)
  from new_table_ok [OF inv, of err arg] show ?thesis
  proof (elim disjE exE conjE)
    assume "new_table ca err arg s = Panic 101 0"
    then show ?thesis using True by (simp add: get_table_def)
  next
    fix z t
    assume n: "new_table ca err arg s = Ret (z, t)" and z: "z \<notin> N" "z \<notin> F" "page_base z"
      and o: "own t (insert z N \<union> F)" and m: "mem t = zero64 512 z (mem s)"
      and g: "pt_grown s N t (insert z N)"
    let ?t = "store (cell u i) (table_pte z) t"
    have "pt_grown t (insert z N) ?t (insert z N)"
      using ub i by (auto simp: pt_grown_def store_def intro!: st64_frame)
    then have g': "pt_grown s N ?t (insert z N)" by (rule pt_grown_trans [OF g])
    have mt: "mem ?t = st64 (cell u i) (table_pte z) (zero64 512 z (mem s))"
      by (simp add: store_def m)
    have "tree (mem ?t) root (insert z N)" "tbl (mem ?t) root (p @ [i]) = Some z"
      "walk 2 (mem ?t) root va = walk 2 (mem s) root va" for va
      unfolding mt
      using tree_set_table [OF tr p(1) u i p(2) _ z(3,1)] tbl_set_table [OF tr p(1) u i p(2) _ z(3,1)]
        walk_set_table [OF tr p(1) u i p(2) iv z(3,1)] not_valid [OF iv] p i
      by (simp_all add: paths_snoc)
    moreover have "own ?t (insert z N \<union> F)" using o by (simp add: store_def)
    moreover have "get_table ca err arg (cell u i) s = Ret (z, ?t)"
      using True n table_pte(1) [OF z(3)] by (simp add: get_table_def load_def store_def Let_def)
    ultimately show ?thesis
      using g' z inv unfolding pt_inv_on_def by blast
  qed
qed

lemma set_leaf_ok:
  assumes inv: "pt_inv_on own s root N F" and l: "l \<le> 2" and u: "tbl (mem s) root (vpath l va) = Some u"
    and perm: "perm_ok ubit perm" and al: "aligned (lvl_bits l) pa" "aligned (lvl_bits l) va"
    and va: "unat va < 2 ^ 39" and w: "walk 2 (mem s) root va = None"
  shows "set_leaf ubit (cell u (vpn l va)) pa perm s = Panic 107 pa \<and> l \<noteq> 0 \<or>
    (\<exists>t. set_leaf ubit (cell u (vpn l va)) pa perm s = Ret t \<and> pt_inv_on own t root N F \<and>
       pt_grown s N t N \<and> mapped (mem s) (mem t) root va pa (2 ^ lvl_bits l) (leaf_flags ubit perm))"
proof (cases "load s (cell u (vpn l va)) AND 1 = 0")
  case False
  have tr: "tree (mem s) root N" using inv by (simp add: pt_inv_on_def)
  have "l \<noteq> 0"
  proof
    assume l0: "l = 0"
    have "\<not> is_table (ld64 (mem s) (cell u (vpn l va)))"
      using treeD(4) [OF tr vpath_paths u vpn_less] l0 by (simp add: vpath_def)
    moreover have "\<not> is_leaf (ld64 (mem s) (cell u (vpn l va)))" by (rule walk_None_slot [OF w l u])
    ultimately show False using False by (auto simp: is_table_def is_leaf_def load_def)
  qed
  then show ?thesis using False by (simp add: set_leaf_def)
next
  case True
  have tr: "tree (mem s) root N" using inv by (simp add: pt_inv_on_def)
  have ub: "page_base u" "u \<in> N" using treeD(1,2) [OF tr vpath_paths u] by simp_all
  have iv: "ld64 (mem s) (cell u (vpn l va)) AND 1 = 0" using True by (simp add: load_def)
  let ?v = "leaf_pte ubit pa perm"
  let ?t = "store (cell u (vpn l va)) ?v s"
  have pb: "page_base pa" using al(1) by (auto simp: page_base_bits aligned_bits)
  have "\<not> is_table ?v" using leaf_pte_parts(1) [OF perm pb] by (simp add: is_leaf_def is_table_def)
  then have "tree (mem ?t) root N"
    using tree_set_leaf [OF tr vpath_paths u vpn_less] not_valid [OF iv] by (simp add: store_def)
  then have "pt_inv_on own ?t root N F" using inv by (simp add: pt_inv_on_def) (simp add: store_def)
  moreover have "pt_grown s N ?t N"
    using ub vpn_less by (auto simp: pt_grown_def store_def intro!: st64_frame)
  moreover have "mapped (mem s) (mem ?t) root va pa (2 ^ lvl_bits l) (leaf_flags ubit perm)"
    using xlate_set_leaf [OF tr u l iv perm al va] by (simp add: mapped_def store_def)
  ultimately show ?thesis using True by (auto simp: set_leaf_def)
qed

text \<open>The first table on the way down, and then a leaf of 2 MiB or the second table.\<close>

lemma first_table:
  assumes inv: "pt_inv_on own s root N F" and w: "walk 2 (mem s) root va = None"
  shows "get_table ca err arg (cell root (vpn 2 va)) s = Panic 101 0 \<or>
    (\<exists>z t N'. get_table ca err arg (cell root (vpn 2 va)) s = Ret (z, t) \<and> pt_inv_on own t root N' F \<and>
       pt_grown s N t N' \<and> tbl (mem t) root (vpath 1 va) = Some z \<and>
       (\<forall>va. walk 2 (mem t) root va = walk 2 (mem s) root va))"
proof -
  have root: "tbl (mem s) root (vpath 2 va) = Some root" by (simp add: vpath_def)
  have "\<not> is_leaf (load s (cell root (vpn 2 va)))"
    using walk_None_slot [OF w _ root] by (simp add: load_def)
  then show ?thesis
    using get_table_ok [where p = "[]" and err = err and arg = arg, OF inv _ _ _ vpn_less]
    by (simp add: vpath_def)
qed

lemma second_table:
  assumes inv: "pt_inv_on own s root N F" and w: "walk 2 (mem s) root va = None"
    and z: "tbl (mem s) root (vpath 1 va) = Some z"
  shows "get_table ca err arg (cell z (vpn 1 va)) s = Panic 101 0 \<or>
    (\<exists>z' t N'. get_table ca err arg (cell z (vpn 1 va)) s = Ret (z', t) \<and> pt_inv_on own t root N' F \<and>
       pt_grown s N t N' \<and> tbl (mem t) root (vpath 0 va) = Some z' \<and>
       (\<forall>va. walk 2 (mem t) root va = walk 2 (mem s) root va))"
proof -
  have "\<not> is_leaf (load s (cell z (vpn 1 va)))"
    using walk_None_slot [OF w _ z] by (simp add: load_def)
  then show ?thesis
    using get_table_ok [where err = err and arg = arg, OF inv vpath_paths _ z vpn_less]
    by (simp add: vpath_def)
qed

lemma step_ok_leaf:
  assumes "set_leaf ubit (cell z (vpn l va)) pa perm t = Ret x" and "pt_inv_on own x root N' F"
    and "pt_grown t N' x N'" and "mapped (mem t) (mem x) root va pa (2 ^ lvl_bits l) flags"
    and "pt_grown s N t N'" and "\<forall>va. walk 2 (mem t) root va = walk 2 (mem s) root va"
    and "l \<le> 2" "2 ^ lvl_bits l \<le> unat sz" "aligned (lvl_bits l) va" "aligned (lvl_bits l) pa"
  shows "step_ok own s root N F va pa sz flags
    (bindO (set_leaf ubit (cell z (vpn l va)) pa perm t) (\<lambda>s. Ret (shl1 (lvl_bits l), s)))"
proof -
  have "mapped (mem s) (mem x) root va pa (2 ^ lvl_bits l) flags"
    using mapped_after_walk [OF _ assms(4)] assms(6) by simp
  then show ?thesis
    using assms pt_grown_trans [OF assms(5,3)] unfolding step_ok_def by auto
qed

lemma mega_step_ok:
  assumes inv: "pt_inv_on own s root N F" and perm: "perm_ok ubit perm"
    and al: "aligned (lvl_bits 1) pa" "aligned (lvl_bits 1) va" and sz: "0x200000 \<le> sz"
    and va: "unat va < 2 ^ 39" and w: "walk 2 (mem s) root va = None"
  shows "step_ok own s root N F va pa sz (leaf_flags ubit perm)
    (bindO (get_table ca 110 vir_addr (cell root (vpn 2 va)) s) (\<lambda>(lv1_table, s).
     bindO (set_leaf ubit (cell lv1_table (vpn 1 va)) pa perm s) (\<lambda>s. Ret (shl1 (lvl_bits 1), s))))"
proof -
  have sz1: "2 ^ lvl_bits 1 \<le> unat sz" using sz by (simp add: word_le_nat_alt)
  from first_table [OF inv w, of 110 vir_addr] show ?thesis
  proof (elim disjE exE conjE)
    assume "get_table ca 110 vir_addr (cell root (vpn 2 va)) s = Panic 101 0"
    then show ?thesis by (simp add: step_ok_def)
  next
    fix z t N'
    assume g: "get_table ca 110 vir_addr (cell root (vpn 2 va)) s = Ret (z, t)"
      and it: "pt_inv_on own t root N' F" and gr: "pt_grown s N t N'"
      and u: "tbl (mem t) root (vpath 1 va) = Some z"
      and wt: "\<forall>va. walk 2 (mem t) root va = walk 2 (mem s) root va"
    have wn: "walk 2 (mem t) root va = None" using w wt by simp
    have l: "(1::nat) \<le> 2" by simp
    from set_leaf_ok [OF it l u perm al va wn] show ?thesis
    proof (elim disjE exE conjE)
      assume "set_leaf ubit (cell z (vpn 1 va)) pa perm t = Panic 107 pa"
      then show ?thesis using sz g by (simp add: step_ok_def)
    next
      fix x
      assume x: "set_leaf ubit (cell z (vpn 1 va)) pa perm t = Ret x" "pt_inv_on own x root N' F"
        "pt_grown t N' x N'" "mapped (mem t) (mem x) root va pa (2 ^ lvl_bits 1) (leaf_flags ubit perm)"
      show ?thesis
        unfolding g bindO.simps prod.case by (rule step_ok_leaf [OF x gr wt l sz1 al(2,1)])
    qed
  qed
qed

lemma page_step_ok:
  assumes inv: "pt_inv_on own s root N F" and perm: "perm_ok ubit perm"
    and al: "aligned (lvl_bits 0) pa" "aligned (lvl_bits 0) va" and sz: "4096 \<le> sz"
    and va: "unat va < 2 ^ 39" and w: "walk 2 (mem s) root va = None"
  shows "step_ok own s root N F va pa sz (leaf_flags ubit perm)
    (bindO (get_table ca 110 vir_addr (cell root (vpn 2 va)) s) (\<lambda>(lv1_table, s).
     bindO (get_table ca 111 vir_addr (cell lv1_table (vpn 1 va)) s) (\<lambda>(lv0_table, s).
     bindO (set_leaf ubit (cell lv0_table (vpn 0 va)) pa perm s) (\<lambda>s. Ret (shl1 (lvl_bits 0), s)))))"
proof -
  have sz0: "2 ^ lvl_bits 0 \<le> unat sz" using sz by (simp add: word_le_nat_alt)
  have l: "(0::nat) \<le> 2" by simp
  from first_table [OF inv w, of 110 vir_addr] show ?thesis
  proof (elim disjE exE conjE)
    assume "get_table ca 110 vir_addr (cell root (vpn 2 va)) s = Panic 101 0"
    then show ?thesis by (simp add: step_ok_def)
  next
    fix z t N'
    assume g: "get_table ca 110 vir_addr (cell root (vpn 2 va)) s = Ret (z, t)"
      and it: "pt_inv_on own t root N' F" and gr: "pt_grown s N t N'"
      and z: "tbl (mem t) root (vpath 1 va) = Some z"
      and wt: "\<forall>va. walk 2 (mem t) root va = walk 2 (mem s) root va"
    have w1: "walk 2 (mem t) root va = None" using w wt by simp
    from second_table [OF it w1 z, of 111 vir_addr] show ?thesis
    proof (elim disjE exE conjE)
      assume "get_table ca 111 vir_addr (cell z (vpn 1 va)) t = Panic 101 0"
      then show ?thesis using g by (simp add: step_ok_def)
    next
      fix z' t' N''
      assume g': "get_table ca 111 vir_addr (cell z (vpn 1 va)) t = Ret (z', t')"
        and it': "pt_inv_on own t' root N'' F" and gr': "pt_grown t N' t' N''"
        and u': "tbl (mem t') root (vpath 0 va) = Some z'"
        and wt': "\<forall>va. walk 2 (mem t') root va = walk 2 (mem t) root va"
      have w2: "walk 2 (mem t') root va = None" using w1 wt' by simp
      have ws: "\<forall>va. walk 2 (mem t') root va = walk 2 (mem s) root va" using wt wt' by simp
      from set_leaf_ok [OF it' l u' perm al va w2] obtain x where
        x: "set_leaf ubit (cell z' (vpn 0 va)) pa perm t' = Ret x" "pt_inv_on own x root N'' F"
          "pt_grown t' N'' x N''" "mapped (mem t') (mem x) root va pa (2 ^ lvl_bits 0) (leaf_flags ubit perm)"
        by auto
      show ?thesis
        unfolding g g' bindO.simps prod.case
        by (rule step_ok_leaf [OF x pt_grown_trans [OF gr gr'] ws l sz0 al(2,1)])
    qed
  qed
qed

lemma map_step_ok:
  assumes inv: "pt_inv_on own s root N F" and perm: "perm_ok ubit perm"
    and pb: "page_base va" "page_base pa" and sz: "4096 \<le> sz"
    and va: "unat va < 2 ^ 39" and w: "walk 2 (mem s) root va = None"
  shows "step_ok own s root N F va pa sz (leaf_flags ubit perm) (map_step ubit ca root vir_addr va pa sz perm s)"
proof -
  have masks: "(0x3FFFFFFF :: u64) = mask 30" "(0x1FFFFF :: u64) = mask 21"
    by (simp_all add: mask_eq_exp_minus_1)
  have d: "0x40000000 = shl1 (lvl_bits 2)" "0x200000 = shl1 (lvl_bits 1)" "4096 = shl1 (lvl_bits 0)"
    by (simp_all add: shl1_def push_bit_eq_mult)
  have root: "tbl (mem s) root (vpath 2 va) = Some root" by (simp add: vpath_def)
  let ?giga = "sz \<ge> 0x40000000 \<and> va AND 0x3FFFFFFF = 0 \<and> pa AND 0x3FFFFFFF = 0"
  let ?mega = "sz \<ge> 0x200000 \<and> va AND 0x1FFFFF = 0 \<and> pa AND 0x1FFFFF = 0"
  consider (giga) ?giga | (mega) "\<not> ?giga" ?mega | (page) "\<not> ?giga" "\<not> ?mega" by blast
  then show ?thesis
  proof cases
    case giga
    have eq: "map_step ubit ca root vir_addr va pa sz perm s =
        bindO (set_leaf ubit (cell root (vpn 2 va)) pa perm s) (\<lambda>s. Ret (0x40000000, s))"
      unfolding map_step_def Let_def if_P [OF giga] ..
    from giga have al: "aligned (lvl_bits 2) pa" "aligned (lvl_bits 2) va"
      by (simp_all add: masks and_mask_aligned)
    have "0x200000 \<le> sz" "2 ^ lvl_bits 2 \<le> unat sz" using giga by (simp_all add: word_le_nat_alt)
    moreover have l: "(2::nat) \<le> 2" by simp
    ultimately show ?thesis
      using set_leaf_ok [OF inv l root perm al va w] step_ok_leaf [OF _ _ _ _ pt_grown_refl _ l _ al(2,1)]
      unfolding eq d(1) by (fastforce simp: step_ok_def)
  next
    case mega
    then have al: "aligned (lvl_bits 1) pa" "aligned (lvl_bits 1) va"
      by (simp_all add: masks and_mask_aligned)
    have "map_step ubit ca root vir_addr va pa sz perm s =
        bindO (get_table ca 110 vir_addr (cell root (vpn 2 va)) s) (\<lambda>(lv1_table, s).
        bindO (set_leaf ubit (cell lv1_table (vpn 1 va)) pa perm s) (\<lambda>s. Ret (0x200000, s)))"
      unfolding map_step_def Let_def if_not_P [OF mega(1)] if_P [OF mega(2)] ..
    then show ?thesis unfolding d(2) using mega_step_ok [OF inv perm al _ va w] mega(2) by simp
  next
    case page
    have al: "aligned (lvl_bits 0) pa" "aligned (lvl_bits 0) va"
      using pb by (simp_all add: aligned_page_base)
    have "map_step ubit ca root vir_addr va pa sz perm s =
        bindO (get_table ca 110 vir_addr (cell root (vpn 2 va)) s) (\<lambda>(lv1_table, s).
        bindO (get_table ca 111 vir_addr (cell lv1_table (vpn 1 va)) s) (\<lambda>(lv0_table, s).
        bindO (set_leaf ubit (cell lv0_table (vpn 0 va)) pa perm s) (\<lambda>s. Ret (4096, s))))"
      unfolding map_step_def Let_def if_not_P [OF page(1)] if_not_P [OF page(2)] ..
    then show ?thesis unfolding d(3) using page_step_ok [OF inv perm al sz va w] by simp
  qed
qed

lemma map_loop_ok:
  assumes "perm_ok ubit perm"
  shows "unat sz \<le> 4096 * n \<Longrightarrow> 4096 dvd unat sz \<Longrightarrow> pt_inv_on own s root N F \<Longrightarrow> page_base va \<Longrightarrow>
    page_base pa \<Longrightarrow> unat va + unat sz \<le> 2 ^ 39 \<Longrightarrow> unmapped (mem s) root va (unat sz) \<Longrightarrow>
    loop_ok own s root N F va pa sz (leaf_flags ubit perm)
      (map_loop n ubit ca root vir_addr va pa sz perm s)"
proof (induction n arbitrary: sz s N va pa)
  case 0
  then have "sz = 0" by (simp add: unat_eq_0)
  then show ?case using 0 pt_grown_refl [of s N] mapped_empty by (auto simp: loop_ok_def)
next
  case (Suc n)
  show ?case
  proof (cases "sz = 0")
    case True
    then show ?thesis using Suc.prems pt_grown_refl [of s N] mapped_empty by (auto simp: loop_ok_def)
  next
    case False
    then have "0 < unat sz" by (simp add: unat_gt_0)
    then have sz: "4096 \<le> unat sz" using Suc.prems(2) by (simp add: dvd_imp_le)
    then have sz': "4096 \<le> sz" by (simp add: word_le_nat_alt)
    have w: "walk 2 (mem s) root va = None" using Suc.prems(7) sz by (simp add: unmapped_def)
    have va: "unat va < 2 ^ 39" using Suc.prems(6) sz by simp
    have eq: "map_loop (Suc n) ubit ca root vir_addr va pa sz perm s =
        bindO (map_step ubit ca root vir_addr va pa sz perm s) (\<lambda>(d, s).
          map_loop n ubit ca root vir_addr (va + d) (pa + d) (sz - d) perm s)"
      using False by (simp add: word_gt_0)
    from map_step_ok [OF Suc.prems(3) assms Suc.prems(4,5) sz' va w, of vir_addr] show ?thesis
      unfolding step_ok_def
    proof (elim disjE exE conjE)
      fix l t N'
      assume r: "map_step ubit ca root vir_addr va pa sz perm s = Ret (shl1 (lvl_bits l), t)"
        and l: "l \<le> 2" "2 ^ lvl_bits l \<le> unat sz" and it: "pt_inv_on own t root N' F"
        and g: "pt_grown s N t N'"
        and m: "mapped (mem s) (mem t) root va pa (2 ^ lvl_bits l) (leaf_flags ubit perm)"
      let ?d = "shl1 (lvl_bits l)" and ?n = "2 ^ lvl_bits l :: nat"
      have d: "unat ?d = ?n" using l by (intro unat_shl1) simp
      have "?n \<le> 2 ^ 30" using l by (intro power_increasing) auto
      have n: "?n = 4096 * 2 ^ (9 * l)" by (simp add: power_add)
      then have n4: "4096 \<le> ?n" "4096 dvd ?n" by (simp_all only: dvd_triv_left) simp
      have pd: "page_base ?d" using n4(2) d by (simp add: page_base_def)
      have s': "unat (sz - ?d) = unat sz - ?n" using l(2) d by (simp add: unat_sub word_le_nat_alt)
      have v': "unat (va + ?d) = unat va + ?n"
      proof -
        have "unat va + unat ?d < 2 ^ LENGTH(64)" using Suc.prems(6) l(2) d by simp
        then show ?thesis using d by (simp add: unat_add_lem [THEN iffD1])
      qed
      have split: "unat sz = ?n + (unat sz - ?n)" using l(2) by simp
      have "loop_ok own t root N' F (va + ?d) (pa + ?d) (sz - ?d) (leaf_flags ubit perm)
          (map_loop n ubit ca root vir_addr (va + ?d) (pa + ?d) (sz - ?d) perm t)"
      proof (rule Suc.IH)
        show "unat (sz - ?d) \<le> 4096 * n" using Suc.prems(1) s' n4 by simp
        show "4096 dvd unat (sz - ?d)" using Suc.prems(2) s' n4 by (simp add: dvd_diff_nat)
        show "page_base (va + ?d)" "page_base (pa + ?d)"
          using Suc.prems(4,5) pd by (simp_all add: page_base_add)
        show "unat (va + ?d) + unat (sz - ?d) \<le> 2 ^ 39" using Suc.prems(6) s' v' l(2) by simp
        show "unmapped (mem t) root (va + ?d) (unat (sz - ?d))"
          using unmapped_after [OF _ m v', of "unat sz - ?n"] Suc.prems(6,7) s' split by simp
      qed (rule it)
      moreover have "0x200000 \<le> sz - ?d \<Longrightarrow> 0x200000 \<le> sz"
        using s' by (simp add: word_le_nat_alt)
      ultimately show ?thesis
        using pt_grown_trans [OF g] mapped_trans [OF m _ v'] s' split
        unfolding eq r loop_ok_def by (auto; metis)
    qed (simp_all add: eq loop_ok_def del: map_loop.simps)
  qed
qed

end

interpretation tables: table_pages ca owned_pages for ca
  by unfold_locales simp

end
