(* ===== verification/VmSpec.thy ===== *)
theory VmSpec
  imports PageMap
begin

text \<open>
  The properties of the address-space code of \<open>kernel/vm.c\<close>: mapping, creation of a user
  table, translation and unmapping, each against the hardware walk.
\<close>

section \<open>A cleared root\<close>

lemma tbl_fresh:
  assumes "page_base z"
  shows "p \<in> paths \<Longrightarrow> tbl (zero64 512 z m) z p = (if p = [] then Some z else None)"
proof (cases p)
  case (Cons i q)
  assume "p \<in> paths"
  then have "i < 512" using Cons by (simp add: paths_def)
  then have "ld64 (zero64 512 z m) (cell z i) = 0" using assms by (simp add: zero64_page)
  then show ?thesis using Cons by (simp add: tbl.simps(2) is_table_def)
qed simp

lemma tree_fresh: "page_base z \<Longrightarrow> tree (zero64 512 z m) z {z}"
  unfolding tree_def by (auto simp: tbl_fresh split: if_splits)

lemma walk_fresh: "page_base z \<Longrightarrow> walk 2 (zero64 512 z m) z va = None"
  by (simp add: walk_entry entry_def tbl_fresh vpn_less zero64_page is_leaf_def split: option.splits)

section \<open>A concrete state\<close>

definition demo_vm :: vmem where
  "demo_vm = kmem.extend demo_heap (vmem.fields (\<lambda>_. 0) 0 0)"

lemma heap_ok_extend [simp]: "heap_ok (kmem.extend s x) L U = heap_ok s L U"
  by (simp add: heap_ok_def buddy_inv_def lists_ok_def flags_ok_def blocks_ok_def ram_ok_def
      nxt_def prv_def flg_def ordr_def total_pages_def kmem.extend_def)

lemma demo_vm_fields:
  "ram_base demo_vm = 0x80000000" "free_lists demo_vm k = free_lists demo_heap k"
  by (simp_all add: demo_vm_def kmem.extend_def demo_heap_fields)

lemma demo_vm_ok: "heap_ok demo_vm {} (pool 1 2)" "owned_pages demo_vm {}"
proof -
  show "heap_ok demo_vm {} (pool 1 2)" using demo_heap_ok by (simp add: demo_vm_def)
  then show "owned_pages demo_vm {}" unfolding owned_pages_def
    by (auto simp: demo_vm_fields)
qed

lemma demo_vm_alloc: "\<exists>z t. kalloc 0 c demo_vm = Ret (z, t)"
proof -
  have "free_lists demo_vm 11 \<noteq> NIL" by (simp add: demo_vm_fields demo_heap_fields)
  then show ?thesis using kalloc_heap_ok [OF demo_vm_ok(1), of 0 c] by force
qed

text \<open>A cleared root table in that state.\<close>

lemma demo_root:
  "\<exists>(s::vmem) z. pt_inv s z {z} {} \<and> (\<forall>va. walk 2 (mem s) z va = None) \<and> page_base z"
proof -
  obtain z t where k: "kalloc 0 7 demo_vm = Ret (z, t)" using demo_vm_alloc by blast
  note n = pages.alloc_new [OF demo_vm_ok(2) k]
  let ?t = "t\<lparr>mem := zero64 512 z (mem t)\<rparr>"
  have "pt_inv ?t z {z} {}" using n tree_fresh by (simp add: pt_inv_def)
  moreover have "\<forall>va. walk 2 (mem ?t) z va = None" using n walk_fresh by simp
  ultimately show ?thesis using n by blast
qed

section \<open>Ranges and new tables over any source of pages\<close>

lemma page_up_dvd: "4096 dvd unat (page_up sz)"
proof -
  have "page_base (page_up sz)"
    using page_base_page_down [of "sz + 0xFFF"] by (simp add: page_up_def page_down_def)
  then show ?thesis by (simp add: page_base_def mod_eq_0_iff_dvd)
qed

context table_pages
begin

lemma map_range_ok:
  assumes "pt_inv_on own s root N F" and "perm_ok ubit perm"
    and "unat (page_down va) + unat (page_up sz) \<le> 2 ^ 39"
    and "unmapped (mem s) root (page_down va) (unat (page_up sz))"
  shows "loop_ok own s root N F (page_down va) (page_down pa) (page_up sz) (leaf_flags ubit perm)
    (map_range ubit ca root va pa sz perm s)"
proof -
  have "unat (page_up sz) \<le> 4096 * (unat (page_up sz) div 4096)" using page_up_dvd by simp
  from map_loop_ok [OF assms(2) this page_up_dvd assms(1) _ _ assms(3,4), of "page_down pa" va]
  show ?thesis by (simp add: map_range_def)
qed

text \<open>A single page mapped by \<open>kvm_map\<close>.\<close>

lemma kvm_map_page:
  assumes "pt_inv_on own s root N F" and "perm_ok 0 perm" and "page_base va" "unat va + 4096 \<le> 2 ^ 39"
    and "\<And>a. unat va \<le> unat a \<Longrightarrow> unat a < unat va + 4096 \<Longrightarrow> xlate (mem s) root a = None"
  shows "kvm_map ca root va pa 4096 perm s = Panic 101 0 \<or>
    (\<exists>t N'. kvm_map ca root va pa 4096 perm s = Ret t \<and> pt_inv_on own t root N' F \<and> pt_grown s N t N' \<and>
       mapped (mem s) (mem t) root va (page_down pa) 4096 (leaf_flags 0 perm))"
proof -
  have c: "page_up 4096 = 4096" "page_down va = va"
    using assms(3) by (simp_all add: page_up_def page_down_id)
  have "unmapped (mem s) root va 4096" using assms(5) by (simp add: unmapped_def xlate_None)
  then show ?thesis
    using map_range_ok [OF assms(1,2), of va 4096 pa] assms(4)
    by (simp add: c kvm_map_def loop_ok_def)
qed

lemma new_root:
  assumes "own s F" and "kalloc 0 ca s = Ret (z, t)"
  defines "u \<equiv> t\<lparr>mem := zero64 512 z (mem t)\<rparr>"
  shows "z \<notin> F" "pt_inv_on own u z {z} F" "\<And>a. xlate (mem u) z a = None"
    "\<And>N b. pt_grown u {z} v N \<Longrightarrow> page_down b \<notin> N \<Longrightarrow> mem v b = mem s b" "same_kernel s u"
proof -
  note n = alloc_new [OF assms(1,2)]
  show "z \<notin> F" using n by simp
  show "same_kernel s u" using n outside_pages_kernel [of t s] by (simp add: u_def same_kernel_def)
  show "pt_inv_on own u z {z} F" using n tree_fresh [of z] by (simp add: u_def pt_inv_on_def)
  show "xlate (mem u) z a = None" for a using n walk_fresh by (simp add: u_def xlate_None)
  show "mem v b = mem s b" if "pt_grown u {z} v N" "page_down b \<notin> N" for N b
  proof -
    have "z \<in> N" "mem v b = mem u b" using that by (auto simp: pt_grown_def)
    then have "page_down b \<noteq> z" using that by auto
    moreover have "page_base z" "mem t = mem s" using n by (simp_all add: outside_pages_vmem)
    ultimately show ?thesis
      using zero64_frame [of z b 0 512 "mem t"] \<open>mem v b = mem u b\<close> by (simp add: u_def)
  qed
qed

lemma create_user_table_ok:
  assumes "own s F"
  shows "create_user_table ca ly kstack s = Panic 101 0 \<or>
    (\<exists>root t N. create_user_table ca ly kstack s = Ret (root, t) \<and> pt_inv_on own t root N F \<and> same_kernel s t \<and>
       (\<forall>b. page_down b \<notin> N \<longrightarrow> mem t b = mem s b) \<and>
       (\<forall>a. unat a < 2 ^ 39 \<longrightarrow> xlate (mem t) root a =
          (if 0x3FFFFFF000 \<le> a \<and> a \<le> 0x3FFFFFFFFF
           then Some (page_down (user_trampoline ly) + (a - 0x3FFFFFF000), leaf_flags 0 8)
           else if 0x3FFFFFE000 \<le> a \<and> a < 0x3FFFFFF000
           then Some (page_down kstack + (a - 0x3FFFFFE000), leaf_flags 0 6)
           else None)))"
  using alloc_total [OF assms]
proof (elim disjE exE)
  assume "kalloc 0 ca s = Panic 101 0"
  then show ?thesis by (simp add: create_user_table_def)
next
  fix z t0 assume k: "kalloc 0 ca s = Ret (z, t0)"
  let ?u = "t0\<lparr>mem := zero64 512 z (mem t0)\<rparr>"
  note r = new_root [OF assms k]
  have pb: "page_base 0x3FFFFFF000" "page_base 0x3FFFFFE000" by (simp_all add: page_base_def)
  have pm: "perm_ok 0 8" "perm_ok 0 6" by (simp_all add: perm_ok_def)
  from kvm_map_page [OF r(2) pm(1) pb(1), of "user_trampoline ly"] r(3)
  consider "kvm_map ca z 0x3FFFFFF000 (user_trampoline ly) 4096 8 ?u = Panic 101 0"
    | t1 N1 where "kvm_map ca z 0x3FFFFFF000 (user_trampoline ly) 4096 8 ?u = Ret t1"
      "pt_inv_on own t1 z N1 F" "pt_grown ?u {z} t1 N1"
      "mapped (mem ?u) (mem t1) z 0x3FFFFFF000 (page_down (user_trampoline ly)) 4096 (leaf_flags 0 8)"
    by auto
  then show ?thesis
  proof cases
    case 1
    then show ?thesis using k by (simp add: create_user_table_def Let_def)
  next
    case 2
    have "xlate (mem t1) z a = None" if "unat a < 0x3FFFFFF000" for a
      using mappedD(2) [OF 2(4), of a] r(3) that by simp
    then have "kvm_map ca z 0x3FFFFFE000 kstack 4096 6 t1 = Panic 101 0 \<or>
        (\<exists>t N'. kvm_map ca z 0x3FFFFFE000 kstack 4096 6 t1 = Ret t \<and> pt_inv_on own t z N' F \<and>
          pt_grown t1 N1 t N' \<and>
          mapped (mem t1) (mem t) z 0x3FFFFFE000 (page_down kstack) 4096 (leaf_flags 0 6))"
      by (intro kvm_map_page [OF 2(2) pm(2) pb(2)]) auto
    then show ?thesis
    proof (elim disjE exE conjE)
      assume "kvm_map ca z 0x3FFFFFE000 kstack 4096 6 t1 = Panic 101 0"
      then show ?thesis using k 2(1) by (simp add: create_user_table_def Let_def)
    next
      fix t N assume t: "kvm_map ca z 0x3FFFFFE000 kstack 4096 6 t1 = Ret t" "pt_inv_on own t z N F"
        "pt_grown t1 N1 t N"
        "mapped (mem t1) (mem t) z 0x3FFFFFE000 (page_down kstack) 4096 (leaf_flags 0 6)"
      have "create_user_table ca ly kstack s = Ret (z, t)"
        using k 2(1) t(1) by (simp add: create_user_table_def Let_def)
      moreover have "\<forall>b. page_down b \<notin> N \<longrightarrow> mem t b = mem s b"
        using r(4) [OF pt_grown_trans [OF 2(3) t(3)]] by blast
      moreover have "same_kernel s t"
        using same_kernel_trans [OF r(5) pt_grown_kernel [OF pt_grown_trans [OF 2(3) t(3)]]] .
      ultimately show ?thesis
        using t(2,4) 2(4) r(3) unfolding mapped_def by (auto simp: word_le_nat_alt word_less_nat_alt)
    qed
  qed
qed

end

section \<open>Properties\<close>

text \<open>
  C2. Mapping a range below \<open>2 ^ 39\<close> that is not mapped, for reading, writing or executing: \<open>kvm_map\<close> and \<open>uvm_map\<close> never hang or fault. When
  they return, the hardware walk sends every address of the rounded range to the matching
  physical address with the requested permissions and every other address where it went
  before; the table is still a tree of pages of its own, memory outside those pages is
  untouched and the caller's other pages are still owned. Otherwise memory ran out (101), or
  a superpage met an existing table (107), which takes a range of at least 2 MiB.
\<close>

theorem map_range_correct:
  assumes "pt_inv s root N F" and "perm_ok ubit perm"
    and "unat (page_down va) + unat (page_up sz) \<le> 2 ^ 39"
    and "unmapped (mem s) root (page_down va) (unat (page_up sz))"
  shows "map_range ubit ca root va pa sz perm s = Panic 101 0 \<or>
    ((\<exists>x. map_range ubit ca root va pa sz perm s = Panic 107 x) \<and> 0x200000 \<le> page_up sz) \<or>
    (\<exists>t N'. map_range ubit ca root va pa sz perm s = Ret t \<and> pt_inv t root N' F \<and>
       pt_grown s N t N' \<and>
       mapped (mem s) (mem t) root (page_down va) (page_down pa) (unat (page_up sz))
         (leaf_flags ubit perm))"
  using tables.map_range_ok [OF assms] by (simp add: loop_ok_def)

theorem map_range_correct_witness:
  "\<exists>(s::vmem) root N. pt_inv s root N {} \<and>
     (uvm_map 7 root 0x10000 0x80900000 0x2800 6 s = Panic 101 0 \<or>
      (\<exists>t N'. uvm_map 7 root 0x10000 0x80900000 0x2800 6 s = Ret t \<and> pt_inv t root N' {} \<and>
         xlate (mem t) root 0x12345 = Some (0x80902345, 0xD7)))"
proof -
  obtain s :: vmem and z where s: "pt_inv s z {z} {}" "\<forall>va. walk 2 (mem s) z va = None" "page_base z"
    using demo_root by blast
  have c: "page_down 0x10000 = 0x10000" "page_down 0x80900000 = 0x80900000" "page_up 0x2800 = 0x3000"
    "leaf_flags 0x10 6 = 0xD7"
    by (simp_all add: page_down_def page_up_def leaf_flags_def)
  have pm: "perm_ok 0x10 6" and un: "unmapped (mem s) z (page_down 0x10000) (unat (page_up 0x2800))"
    using s by (simp_all add: perm_ok_def unmapped_def)
  have "xlate m z 0x12345 = Some (0x80902345, 0xD7)"
    if "mapped (mem s) m z (page_down 0x10000) (page_down 0x80900000) (unat (page_up 0x2800)) (leaf_flags 0x10 6)" for m
    using mappedD(1) [OF that, of "0x12345"] by (simp add: c)
  then show ?thesis
    using map_range_correct [where ca = 7 and pa = "0x80900000", OF s(1) pm _ un] s(1) unfolding uvm_map_def
    by (simp add: c) blast
qed

text \<open>
  A range below 2 MiB only uses 4 KiB leaves, so mapping it either succeeds or runs out of
  memory: no existing table can get in its way.
\<close>

theorem map_range_small:
  assumes "pt_inv s root N F" and "perm_ok ubit perm" and "page_up sz < 0x200000"
    and "unat (page_down va) + unat (page_up sz) \<le> 2 ^ 39"
    and "unmapped (mem s) root (page_down va) (unat (page_up sz))"
  shows "map_range ubit ca root va pa sz perm s = Panic 101 0 \<or>
    (\<exists>t N'. map_range ubit ca root va pa sz perm s = Ret t \<and> pt_inv t root N' F)"
  using tables.map_range_ok [OF assms(1,2,4,5), of pa ca] assms(3) by (auto simp: loop_ok_def not_le [symmetric])

theorem map_range_small_witness:
  "\<exists>(s::vmem) root. pt_inv s root {root} {} \<and>
     (kvm_map 7 root 0x3FFFFFF000 0x80003000 4096 8 s = Panic 101 0 \<or>
      (\<exists>t N'. kvm_map 7 root 0x3FFFFFF000 0x80003000 4096 8 s = Ret t \<and> pt_inv t root N' {}))"
proof -
  obtain s :: vmem and z where s: "pt_inv s z {z} {}" "\<forall>va. walk 2 (mem s) z va = None"
    using demo_root by blast
  have c: "page_down 0x3FFFFFF000 = 0x3FFFFFF000" "page_up 4096 = 4096"
    by (simp_all add: page_down_def page_up_def)
  have "perm_ok 0 8" "unmapped (mem s) z 0x3FFFFFF000 (unat (4096::u64))"
    using s by (simp_all add: perm_ok_def unmapped_def)
  then show ?thesis
    using map_range_small [OF s(1), of 0 8 4096 "0x3FFFFFF000" 7 "0x80003000"] s(1)
    by (simp add: c kvm_map_def) blast
qed

text \<open>
  A new user table maps exactly two pages: the trampoline (executable) at the top of the
  address space and the process's kernel stack (read and write) below it, both without the
  user bit. Everything else is unmapped, so a fresh address space exposes no page of any
  other process, and no memory outside its own table pages is written. The only failure is
  running out of memory.
\<close>

theorem create_user_table_correct:
  assumes "owned_pages s F"
  shows "create_user_table ca ly kstack s = Panic 101 0 \<or>
    (\<exists>root t N. create_user_table ca ly kstack s = Ret (root, t) \<and> pt_inv t root N F \<and>
       (\<forall>b. page_down b \<notin> N \<longrightarrow> mem t b = mem s b) \<and>
       (\<forall>a. unat a < 2 ^ 39 \<longrightarrow> xlate (mem t) root a =
          (if 0x3FFFFFF000 \<le> a \<and> a \<le> 0x3FFFFFFFFF
           then Some (page_down (user_trampoline ly) + (a - 0x3FFFFFF000), leaf_flags 0 8)
           else if 0x3FFFFFE000 \<le> a \<and> a < 0x3FFFFFF000
           then Some (page_down kstack + (a - 0x3FFFFFE000), leaf_flags 0 6)
           else None)))"
  using tables.create_user_table_ok [OF assms] by blast

definition demo_layout :: layout where
  "demo_layout = \<lparr>text_start = 0, text_end = 0, rodata_start = 0, rodata_end = 0,
     data_start = 0, data_end = 0, bss_start = 0, bss_end = 0, user_trampoline = 0x80003000,
     uart_base = 0, clint_base = 0, plic_base = 0\<rparr>"

theorem create_user_table_correct_witness:
  "\<exists>t. t = create_user_table 7 demo_layout 0x80900000 demo_vm \<and>
     (t = Panic 101 0 \<or> (\<exists>root u. t = Ret (root, u) \<and> xlate (mem u) root 0x10000 = None))"
  using create_user_table_correct [OF demo_vm_ok(2), of 7 demo_layout "0x80900000"] by auto

text \<open>The entries \<open>uvm_translate\<close> and \<open>uvm_unmap\<close> read are those of the walk.\<close>

definition small_pages :: "memory \<Rightarrow> u64 \<Rightarrow> u64 \<Rightarrow> bool" where
  "small_pages m root va \<longleftrightarrow> (\<forall>l e. walk 2 m root va = Some (l, e) \<longrightarrow> l = 0)"

lemma take_12: "va AND 0xFFF = take_bit 12 (va :: u64)"
proof -
  have "(0xFFF :: u64) = mask 12" by (simp add: mask_eq_exp_minus_1)
  then show ?thesis by (simp only: take_bit_eq_mask)
qed

lemma walk_loads:
  assumes "tree (mem s) root N" and "small_pages (mem s) root va"
  defines "e2 \<equiv> load s (cell root (vpn 2 va))"
  defines "e1 \<equiv> load s (cell (pte_addr e2) (vpn 1 va))"
  defines "e0 \<equiv> load s (cell (pte_addr e1) (vpn 0 va))"
  shows "e2 AND 1 = 0 \<Longrightarrow> walk 2 (mem s) root va = None"
    and "e2 AND 1 \<noteq> 0 \<Longrightarrow> e1 AND 1 = 0 \<Longrightarrow> walk 2 (mem s) root va = None"
    and "e2 AND 1 \<noteq> 0 \<Longrightarrow> e1 AND 1 \<noteq> 0 \<Longrightarrow>
      tbl (mem s) root [vpn 2 va, vpn 1 va] = Some (pte_addr e1) \<and>
      walk 2 (mem s) root va = (if e0 AND 1 = 0 then None else Some (0, e0))"
proof -
  have E2: "entry (mem s) root [] (vpn 2 va) = Some e2" by (simp add: entry_def e2_def load_def)
  show "e2 AND 1 = 0 \<Longrightarrow> walk 2 (mem s) root va = None"
    using E2 not_valid [of e2] entry_below(2) [OF E2] by (simp add: walk_entry)
  assume v2: "e2 AND 1 \<noteq> 0"
  have "\<not> is_leaf e2" using assms(2) E2 by (auto simp: small_pages_def walk_entry)
  then have t2: "is_table e2" using v2 by (simp add: is_table_def is_leaf_def)
  have T1: "tbl (mem s) root [vpn 2 va] = Some (pte_addr e2)"
    using t2 by (simp add: tbl.simps(2) e2_def load_def)
  then have E1: "entry (mem s) root [vpn 2 va] (vpn 1 va) = Some e1"
    by (simp add: entry_def e1_def load_def)
  show "e1 AND 1 = 0 \<Longrightarrow> walk 2 (mem s) root va = None"
    using E2 E1 \<open>\<not> is_leaf e2\<close> not_valid [of e1] entry_below(2) [OF E1] by (simp add: walk_entry)
  assume v1: "e1 AND 1 \<noteq> 0"
  have "\<not> is_leaf e1" using assms(2) E2 E1 \<open>\<not> is_leaf e2\<close> by (auto simp: small_pages_def walk_entry)
  then have t1: "is_table e1" using v1 by (simp add: is_table_def is_leaf_def)
  have T0: "tbl (mem s) root [vpn 2 va, vpn 1 va] = Some (pte_addr e1)"
    using T1 t1 tbl_snoc [of "mem s" root "[vpn 2 va]" "vpn 1 va"] by (simp add: e1_def load_def)
  then have E0: "entry (mem s) root [vpn 2 va, vpn 1 va] (vpn 0 va) = Some e0"
    by (simp add: entry_def e0_def load_def)
  have "[vpn 2 va, vpn 1 va] \<in> paths" by (simp add: vpn_less)
  from treeD(4) [OF assms(1) this T0, of "vpn 0 va"] have "\<not> is_table e0"
    by (simp add: vpn_less e0_def load_def)
  then have "is_leaf e0 \<longleftrightarrow> e0 AND 1 \<noteq> 0" by (auto simp: is_table_def is_leaf_def)
  then show "tbl (mem s) root [vpn 2 va, vpn 1 va] = Some (pte_addr e1) \<and>
      walk 2 (mem s) root va = (if e0 AND 1 = 0 then None else Some (0, e0))"
    using T0 E2 E1 E0 \<open>\<not> is_leaf e2\<close> \<open>\<not> is_leaf e1\<close> by (simp add: walk_entry)
qed

text \<open>
  \<open>xlate\<close> looks at the low 39 bits of an address. The hardware also wants bits 63 to 39 equal to bit 38, and it refuses a
  leaf that can be written and not read. \<open>sv39\<close> is the walk with these checks; it is a translation, not an access, so
  the privilege of the access, the accessed and dirty bits (which the kernel always sets) and the reserved bits above 54
  are not part of it.
\<close>

definition canonical :: "u64 \<Rightarrow> bool" where
  "canonical va \<longleftrightarrow> drop_bit 38 va = 0 \<or> drop_bit 38 va = 0x3FFFFFF"

definition sv39 :: "memory \<Rightarrow> u64 \<Rightarrow> u64 \<Rightarrow> (u64 \<times> u64) option" where
  "sv39 m root va = (if \<not> canonical va then None else
     case xlate m root va of None \<Rightarrow> None
     | Some (pa, f) \<Rightarrow> if f AND 4 \<noteq> 0 \<and> f AND 2 = 0 then None else Some (pa, f))"

lemma mask_9: "(0x1FF :: u64) = mask 9"
  by (simp add: mask_eq_exp_minus_1)

lemma vpn_low: "l \<le> 2 \<Longrightarrow> vpn l (take_bit 39 va) = vpn l va"
  unfolding vpn_def mask_9 by (rule bit_word_eqI) (auto simp: bit_simps)

lemma superpage_spread:
  assumes "walk 2 m root va = Some (l, e)" "l \<noteq> 0" "vpn 2 a = vpn 2 va" "vpn 1 a = vpn 1 va"
  shows "walk 2 m root a = Some (l, e)"
  using assms by (auto simp: walk_entry split: option.splits if_splits)

lemma uvm_translate_walk:
  assumes "tree (mem s) (satp_root sa) N" and "small_pages (mem s) (satp_root sa) va"
  shows "uvm_translate sa va s = (case xlate (mem s) (satp_root sa) va of Some (pa, _) \<Rightarrow> pa | None \<Rightarrow> 0)"
    and "uvm_translate sa va s = uvm_translate sa (take_bit 39 va) s"
proof -
  show "uvm_translate sa va s = (case xlate (mem s) (satp_root sa) va of Some (pa, _) \<Rightarrow> pa | None \<Rightarrow> 0)"
    using walk_loads [OF assms] by (auto simp: uvm_translate_def xlate_def translation_def Let_def take_12)
  have "take_bit 12 (take_bit 39 va) = take_bit 12 va" by simp
  then show "uvm_translate sa va s = uvm_translate sa (take_bit 39 va) s"
    using vpn_low [of 0 va] vpn_low [of 1 va] vpn_low [of 2 va] by (simp add: uvm_translate_def Let_def take_12)
qed

lemma stack_slot:
  assumes "off < (4096 :: u64)"
  shows "unat (0x3FFFFFE000 + off) = 0x3FFFFFE000 + unat off" "canonical (0x3FFFFFE000 + off)"
    "vpn 2 (0x3FFFFFE000 + off) = vpn 2 0x3FFFFFD000" "vpn 1 (0x3FFFFFE000 + off) = vpn 1 0x3FFFFFD000"
proof -
  have o: "unat off < 4096" using assms by (simp add: word_less_nat_alt)
  show u: "unat (0x3FFFFFE000 + off) = 0x3FFFFFE000 + unat off" using o by (simp add: unat_word_ariths)
  have "drop_bit 38 (0x3FFFFFE000 + off) = 0" "drop_bit 30 (0x3FFFFFE000 + off) = 0xFF" "drop_bit 21 (0x3FFFFFE000 + off) = 0x1FFFF"
    using o by (simp_all add: word_unat_eq_iff unat_div_drop u)
  then show "canonical (0x3FFFFFE000 + off)"
    "vpn 2 (0x3FFFFFE000 + off) = vpn 2 0x3FFFFFD000" "vpn 1 (0x3FFFFFE000 + off) = vpn 1 0x3FFFFFD000"
    by (simp_all add: canonical_def vpn_def)
qed

section \<open>A mapped page\<close>

text \<open>
  Three tables at \<open>0x1000\<close>, \<open>0x2000\<close> and \<open>0x3000\<close> map the page at \<open>0x10000\<close> to \<open>0x5000\<close>, readable and writable for the user.
\<close>

definition one_page :: memory where
  "one_page = st64 (cell 0x3000 16) (leaf_pte 0x10 0x5000 6)
     (st64 (cell 0x2000 0) (table_pte 0x3000) (zero64 512 0x3000
       (st64 (cell 0x1000 0) (table_pte 0x2000) (zero64 512 0x2000 (zero64 512 0x1000 (\<lambda>_. 0))))))"

lemma one_page_ok:
  "tree one_page 0x1000 {0x1000, 0x2000, 0x3000}"
  "walk 2 one_page 0x1000 va = (if vpn 2 va = 0 \<and> vpn 1 va = 0 \<and> vpn 0 va = 16 then Some (0, leaf_pte 0x10 0x5000 6) else None)"
  "unat a < 2 ^ 39 \<Longrightarrow> xlate one_page 0x1000 a =
     (if 0x10000 \<le> unat a \<and> unat a < 0x11000 then Some (0x5000 + (a - 0x10000), leaf_flags 0x10 6) else None)"
proof -
  define m0 where "m0 = zero64 512 0x1000 (\<lambda>_. 0)"
  define m1 where "m1 = st64 (cell 0x1000 0) (table_pte 0x2000) (zero64 512 0x2000 m0)"
  define m2 where "m2 = st64 (cell 0x2000 0) (table_pte 0x3000) (zero64 512 0x3000 m1)"
  have m3: "one_page = st64 (cell 0x3000 16) (leaf_pte 0x10 0x5000 6) m2"
    by (simp add: one_page_def m0_def m1_def m2_def)
  have pb: "page_base 0x1000" "page_base 0x2000" "page_base 0x3000" by (simp_all add: page_base_def)
  have p: "[] \<in> paths" "[0] \<in> paths" "[0, 0] \<in> paths" by (simp_all add: paths_def)
  have i: "(0 :: u64) < 512" "(16 :: u64) < 512" by simp_all
  have t0: "tree m0 0x1000 {0x1000}" unfolding m0_def by (rule tree_fresh [OF pb(1)])
  have T0: "tbl m0 0x1000 [] = Some 0x1000" by simp
  have z0: "ld64 m0 (cell 0x1000 0) = 0" using zero64_page [OF pb(1) pb(1) i(1)] by (simp add: m0_def)
  have n0: "\<not> is_table (ld64 m0 (cell 0x1000 0))" "(0x2000 :: u64) \<notin> {0x1000}" "length ([] :: u64 list) < 2" "length [0 :: u64] < 2"
    using z0 by (simp_all add: is_table_def)
  note s1 = tree_set_table [OF t0 p(1) T0 i(1) n0(3,1) pb(2) n0(2), folded m1_def]
    and T1 = tbl_set_table [OF t0 p(1) T0 i(1) n0(3,1) pb(2) n0(2), folded m1_def]
  have T1a: "tbl m1 0x1000 [0] = Some 0x2000" using T1 [OF p(2)] by simp
  have z1: "ld64 m1 (cell 0x2000 0) = 0"
    using cell_apart [OF pb(1,2) i(1) i(1)] zero64_page [OF pb(2) pb(2) i(1)] by (simp add: m1_def)
  have n1: "\<not> is_table (ld64 m1 (cell 0x2000 0))" "(0x3000 :: u64) \<notin> {0x2000, 0x1000}" using z1 by (simp_all add: is_table_def)
  note s2 = tree_set_table [OF s1 p(2) T1a i(1) n0(4) n1(1) pb(3) n1(2), folded m2_def]
    and T2 = tbl_set_table [OF s1 p(2) T1a i(1) n0(4) n1(1) pb(3) n1(2), folded m2_def]
  have T2a: "tbl m2 0x1000 [0, 0] = Some 0x3000" using T2 [OF p(3)] by simp
  have z2: "ld64 m2 (cell 0x3000 16) = 0"
    using cell_apart [OF pb(2,3) i] zero64_page [OF pb(3) pb(3) i(2)] by (simp add: m2_def)
  have n2: "\<not> is_table (ld64 m2 (cell 0x3000 16))" "ld64 m2 (cell 0x3000 16) AND 1 = 0" using z2 by (simp_all add: is_table_def)
  have lf: "is_leaf (leaf_pte 0x10 0x5000 6)" "\<not> is_table (leaf_pte 0x10 0x5000 6)"
    by (simp_all add: leaf_pte_def is_leaf_def is_table_def)
  have "insert 0x3000 (insert 0x2000 {0x1000}) = {0x1000, 0x2000, 0x3000 :: u64}" by blast
  then show "tree one_page 0x1000 {0x1000, 0x2000, 0x3000}"
    using tree_set_leaf [OF s2 p(3) T2a i(2) n2(1) lf(2), folded m3] by simp
  have w0: "walk 2 m0 0x1000 a = None" for a unfolding m0_def by (rule walk_fresh [OF pb(1)])
  have w1: "walk 2 m1 0x1000 a = None" for a
    using walk_set_table [OF t0 p(1) T0 i(1) n0(3) _ pb(2) n0(2), folded m1_def] z0 w0 by simp
  have w2: "walk 2 m2 0x1000 a = None" for a
    using walk_set_table [OF s1 p(2) T1a i(1) n0(4) _ pb(3) n1(2), folded m2_def] z1 w1 by simp
  show "walk 2 one_page 0x1000 va = (if vpn 2 va = 0 \<and> vpn 1 va = 0 \<and> vpn 0 va = 16 then Some (0, leaf_pte 0x10 0x5000 6) else None)"
    for va
    using walk_set_leaf [OF s2 p(3) T2a i(2) n2(2) lf(1), folded m3, of va] w2 by (simp add: vpath_def)
  have vp: "vpath 0 0x10000 = [0, 0]" "vpn 0 0x10000 = 16" by (simp_all add: vpath_def vpn_def)
  have c: "tbl m2 0x1000 (vpath 0 0x10000) = Some 0x3000" "ld64 m2 (cell 0x3000 (vpn 0 0x10000)) AND 1 = 0"
    "perm_ok 0x10 6" "aligned (lvl_bits 0) 0x5000" "aligned (lvl_bits 0) 0x10000" "unat (0x10000 :: u64) < 2 ^ 39"
    using T2a n2(2) by (simp_all add: vp perm_ok_def aligned_dvd)
  show "xlate one_page 0x1000 a =
     (if 0x10000 \<le> unat a \<and> unat a < 0x11000 then Some (0x5000 + (a - 0x10000), leaf_flags 0x10 6) else None)"
    if "unat a < 2 ^ 39"
    using xlate_set_leaf [OF s2 c(1) _ c(2-6) that] w2 by (simp add: vp m3 xlate_None)
qed

text \<open>
  C13. The kernel's software walk against the hardware's, in a tree of tables and for an address that is not in a
  superpage. Where the hardware translates the address, the software gives the same physical address; where the
  tables have no valid leaf for its low 39 bits, the software gives 0. It leaves out two checks of the hardware: an
  address that is not canonical gives what its low 39 bits give, and a leaf the hardware refuses (written but not
  read) is translated all the same.
\<close>

theorem uvm_translate_correct:
  assumes "tree (mem s) (satp_root sa) N" and "small_pages (mem s) (satp_root sa) va"
  shows "(case sv39 (mem s) (satp_root sa) va of Some (pa, f) \<Rightarrow> uvm_translate sa va s = pa
     | None \<Rightarrow> uvm_translate sa va s = 0 \<or> \<not> canonical va \<or>
         (\<exists>pa f. xlate (mem s) (satp_root sa) va = Some (pa, f) \<and> f AND 4 \<noteq> 0 \<and> f AND 2 = 0)) \<and>
    (xlate (mem s) (satp_root sa) va = None \<longrightarrow> uvm_translate sa va s = 0) \<and>
    (\<forall>pa f. xlate (mem s) (satp_root sa) va = Some (pa, f) \<longrightarrow> uvm_translate sa va s = pa) \<and>
    uvm_translate sa va s = uvm_translate sa (take_bit 39 va) s"
  using uvm_translate_walk [OF assms] by (auto simp: sv39_def split: option.splits if_splits)

theorem uvm_translate_correct_witness:
  "tree one_page (satp_root 1) {0x1000, 0x2000, 0x3000} \<and>
   sv39 one_page (satp_root 1) 0x10004 = Some (0x5004, 0xD7) \<and>
   uvm_translate 1 0x10004 (demo_vm\<lparr>mem := one_page\<rparr>) = 0x5004 \<and>
   sv39 one_page (satp_root 1) 0x8000010004 = None \<and>
   uvm_translate 1 0x8000010004 (demo_vm\<lparr>mem := one_page\<rparr>) = 0x5004 \<and>
   uvm_translate 1 0x11004 (demo_vm\<lparr>mem := one_page\<rparr>) = 0"
proof -
  let ?s = "demo_vm\<lparr>mem := one_page\<rparr>"
  have r: "satp_root 1 = 0x1000" by (simp add: satp_root_def)
  have t: "tree (mem ?s) (satp_root 1) {0x1000, 0x2000, 0x3000}" "small_pages (mem ?s) (satp_root 1) va" for va
    using one_page_ok(1) by (simp_all add: r small_pages_def one_page_ok(2))
  note c = uvm_translate_correct [OF t]
  have f: "leaf_flags 0x10 6 = 0xD7" by (simp add: leaf_flags_def)
  have x: "xlate one_page 0x1000 0x10004 = Some (0x5004, 0xD7)" "xlate one_page 0x1000 0x11004 = None"
    by (simp_all add: one_page_ok(3) f)
  have "take_bit 39 (0x8000010004 :: u64) = 0x10004" by simp
  then have "uvm_translate 1 0x8000010004 ?s = uvm_translate 1 0x10004 ?s"
    using c [where va = "0x8000010004", THEN conjunct2, THEN conjunct2, THEN conjunct2] by simp
  moreover have "uvm_translate 1 0x10004 ?s = 0x5004" "uvm_translate 1 0x11004 ?s = 0"
    using c [where va = "0x10004"] c [where va = "0x11004"] x by (simp_all add: r)
  moreover have "sv39 one_page 0x1000 0x10004 = Some (0x5004, 0xD7)" "sv39 one_page 0x1000 0x8000010004 = None"
    by (simp_all add: sv39_def canonical_def x drop_bit_eq_div)
  ultimately show ?thesis using one_page_ok(1) by (simp add: r)
qed

text \<open>
  C38. The software walk gives the kernel's own stack page away: in the table \<open>create_user_table\<close> builds, every address of
  the page below the trampoline translates to the matching byte of the kernel stack, though the hardware's leaf has
  no user bit and refuses the process that address. The system calls check a user pointer by this walk alone, so a
  process can have a message written over the trap frame the kernel will return through.
\<close>

theorem kernel_stack_exposed:
  assumes "owned_pages s F"
  shows "create_user_table ca ly kstack s = Panic 101 0 \<or>
    (\<exists>root t. create_user_table ca ly kstack s = Ret (root, t) \<and>
      (\<forall>sa off. satp_root sa = root \<and> off < 4096 \<longrightarrow>
        uvm_translate sa (0x3FFFFFE000 + off) t = page_down kstack + off \<and>
        (\<exists>f. sv39 (mem t) root (0x3FFFFFE000 + off) = Some (page_down kstack + off, f) \<and> f AND 0x10 = 0)))"
  using tables.create_user_table_ok [OF assms, of ca ly kstack]
proof (elim disjE exE conjE)
  fix root t N
  assume c: "create_user_table ca ly kstack s = Ret (root, t)" and i: "pt_inv_on owned_pages t root N F"
    and x: "\<forall>a. unat a < 2 ^ 39 \<longrightarrow> xlate (mem t) root a =
          (if 0x3FFFFFF000 \<le> a \<and> a \<le> 0x3FFFFFFFFF
           then Some (page_down (user_trampoline ly) + (a - 0x3FFFFFF000), leaf_flags 0 8)
           else if 0x3FFFFFE000 \<le> a \<and> a < 0x3FFFFFF000
           then Some (page_down kstack + (a - 0x3FFFFFE000), leaf_flags 0 6)
           else None)"
  have "walk 2 (mem t) root 0x3FFFFFD000 = None" using spec [OF x, of "0x3FFFFFD000"] by (simp add: xlate_None)
  then have w: "small_pages (mem t) root (0x3FFFFFE000 + off)" if "off < 4096" for off
    using superpage_spread [where va = "0x3FFFFFE000 + off" and a = "0x3FFFFFD000"] stack_slot [OF that]
    by (force simp: small_pages_def)
  have xa: "xlate (mem t) root (0x3FFFFFE000 + off) = Some (page_down kstack + off, leaf_flags 0 6)" if "off < 4096" for off
    using spec [OF x, of "0x3FFFFFE000 + off"] stack_slot(1) [OF that] that by (simp add: word_le_nat_alt word_less_nat_alt)
  have "tree (mem t) root N" using i by (simp add: pt_inv_on_def)
  then have "uvm_translate sa (0x3FFFFFE000 + off) t = page_down kstack + off"
    if "satp_root sa = root" "off < 4096" for sa off
    using uvm_translate_walk(1) [where s = t and sa = sa, of N "0x3FFFFFE000 + off"] w [OF that(2)] xa [OF that(2)] that(1) by simp
  moreover have "\<exists>f. sv39 (mem t) root (0x3FFFFFE000 + off) = Some (page_down kstack + off, f) \<and> f AND 0x10 = 0"
    if "off < 4096" for off
    using xa [OF that] stack_slot(2) [OF that] by (simp add: sv39_def leaf_flags_def)
  ultimately show ?thesis using c by blast
qed simp

theorem kernel_stack_exposed_witness:
  "\<exists>r. create_user_table 7 demo_layout 0x80900000 demo_vm = r \<and>
     (r = Panic 101 0 \<or> (\<exists>root t. r = Ret (root, t) \<and>
       (\<forall>sa. satp_root sa = root \<longrightarrow> uvm_translate sa 0x3FFFFFEFF8 t = 0x80900FF8)))"
proof -
  let ?c = "create_user_table 7 demo_layout 0x80900000 demo_vm"
  have d: "page_down 0x80900000 = 0x80900000" by (simp add: page_down_def)
  have "uvm_translate sa 0x3FFFFFEFF8 t = 0x80900FF8" if "?c = Ret (satp_root sa, t)" for sa t
    using kernel_stack_exposed [OF demo_vm_ok(2), of 7 demo_layout "0x80900000"] that
    by (auto simp: d dest!: spec2 [of _ sa "0xFF8"])
  moreover have "?c = Panic 101 0 \<or> (\<exists>root t. ?c = Ret (root, t))"
    using tables.create_user_table_ok [OF demo_vm_ok(2), of 7 demo_layout "0x80900000"] by blast
  ultimately show ?thesis by blast
qed

lemma walk_clear:
  assumes "tree m root N" "tbl m root [a, b] = Some t" "a < 512" "b < 512" "i < 512"
    and "\<not> v AND 1 \<noteq> 0"
  shows "walk 2 (st64 (cell t i) v m) root va =
    (if vpn 2 va = a \<and> vpn 1 va = b \<and> vpn 0 va = i then None else walk 2 m root va)"
proof -
  have p: "[a, b] \<in> paths" "length [a, b] = 2" using assms by simp_all
  have nt: "\<not> is_table (ld64 m (cell t i))" by (rule treeD(4) [OF assms(1) p(1) assms(2,5) p(2)])
  have nv: "\<not> is_table v" "\<not> is_leaf v" using assms(6) not_valid by simp_all
  note E = entry_set_leaf [OF assms(1) p(1) assms(2,5) nt nv(1)]
  have E2: "entry (st64 (cell t i) v m) root [] (vpn 2 va) = entry m root [] (vpn 2 va)"
    "entry (st64 (cell t i) v m) root [vpn 2 va] (vpn 1 va) = entry m root [vpn 2 va] (vpn 1 va)"
    by (simp_all add: E vpn_less)
  have E0: "entry (st64 (cell t i) v m) root [vpn 2 va, vpn 1 va] (vpn 0 va) =
      (if vpn 2 va = a \<and> vpn 1 va = b \<and> vpn 0 va = i then Some v
       else entry m root [vpn 2 va, vpn 1 va] (vpn 0 va))"
    by (simp add: E vpn_less)
  show ?thesis
  proof (cases "vpn 2 va = a \<and> vpn 1 va = b \<and> vpn 0 va = i")
    case True
    have e0: "entry m root [a, b] i = Some (ld64 m (cell t i))" using assms(2) by (simp add: entry_def)
    then obtain e1 where e1: "entry m root [a] b = Some e1" "is_table e1"
      using entry_parent [of m root "[a]" b i] by auto
    then obtain e2 where e2: "entry m root [] a = Some e2" "is_table e2"
      using entry_parent [of m root "[]" a b] by auto
    have "\<not> is_leaf e2" "\<not> is_leaf e1" using e1 e2 by (simp_all add: is_table_def is_leaf_def)
    then show ?thesis unfolding walk_entry E2 E0 using True e1 e2 nv by simp
  next
    case False
    then show ?thesis unfolding walk_entry E2 E0 by (simp only: if_False)
  qed
qed

lemma same_page:
  assumes "unat (a :: u64) < 2 ^ 39" "unat va < 2 ^ 39"
  shows "page_down a = page_down va \<longleftrightarrow> vpn 2 a = vpn 2 va \<and> vpn 1 a = vpn 1 va \<and> vpn 0 a = vpn 0 va"
proof -
  have "page_down a = page_down va \<longleftrightarrow> a \<in> blk 12 va"
  proof
    assume "page_down a = page_down va"
    then have "bit (page_down a) n \<longleftrightarrow> bit (page_down va) n" for n by simp
    then show "a \<in> blk 12 va" by (auto simp: mem_blk bit_page_down)
  next
    assume "a \<in> blk 12 va"
    then show "page_down a = page_down va"
      by (intro bit_word_eqI) (auto simp: mem_blk bit_page_down)
  qed
  then show ?thesis using same_slot [OF assms, of 0] by (auto simp: vpath_def)
qed

text \<open>The two ends of \<open>uvm_unmap\<close>: the walk meets an invalid entry, or it clears the valid bit of a leaf.\<close>

lemma unmap_nothing:
  fixes s :: "'a vmem_scheme" and sa va :: u64
  defines "e2 \<equiv> load s (cell (satp_root sa) (vpn 2 va))"
  defines "e1 \<equiv> load s (cell (pte_addr e2) (vpn 1 va))"
  assumes "tree (mem s) (satp_root sa) N" "small_pages (mem s) (satp_root sa) va" "unat va < 2 ^ 39"
    and no: "\<not> (e2 AND 1 \<noteq> 0 \<and> e1 AND 1 \<noteq> 0 \<and> load s (cell (pte_addr e1) (vpn 0 va)) AND 1 \<noteq> 0)"
  shows "uvm_unmap sa va s = (False, s)"
    and "unat a < 2 ^ 39 \<Longrightarrow> page_down a = page_down va \<Longrightarrow> walk 2 (mem s) (satp_root sa) a = None"
proof -
  note w = walk_loads [OF assms(3,4)]
  have wn: "walk 2 (mem s) (satp_root sa) va = None"
  proof (cases "e2 AND 1 = 0 \<or> e1 AND 1 = 0")
    case True
    then show ?thesis using w(1,2) unfolding e1_def e2_def by blast
  next
    case False
    then show ?thesis using w(3) no unfolding e1_def e2_def by simp
  qed
  show "uvm_unmap sa va s = (False, s)" using no by (auto simp: uvm_unmap_def Let_def e1_def e2_def)
  show "walk 2 (mem s) (satp_root sa) a = None" if "unat a < 2 ^ 39" "page_down a = page_down va"
  proof -
    have "vpn 2 a = vpn 2 va" "vpn 1 a = vpn 1 va" "vpn 0 a = vpn 0 va"
      using same_page [OF that(1) assms(5)] that(2) by blast+
    then have "walk 2 (mem s) (satp_root sa) a = walk 2 (mem s) (satp_root sa) va" by (simp only: walk_entry)
    then show ?thesis using wn by simp
  qed
qed

lemma unmap_leaf:
  fixes s :: "'a vmem_scheme" and sa va :: u64
  defines "e2 \<equiv> load s (cell (satp_root sa) (vpn 2 va))"
  defines "e1 \<equiv> load s (cell (pte_addr e2) (vpn 1 va))"
  defines "slot \<equiv> cell (pte_addr e1) (vpn 0 va)"
  assumes "tree (mem s) (satp_root sa) N" "small_pages (mem s) (satp_root sa) va" "unat va < 2 ^ 39"
    and yes: "e2 AND 1 \<noteq> 0 \<and> e1 AND 1 \<noteq> 0 \<and> load s slot AND 1 \<noteq> 0"
  shows "uvm_unmap sa va s = (True, store slot (load s slot AND NOT 1) s)" "walk 2 (mem s) (satp_root sa) va \<noteq> None"
    and "tree (st64 slot (load s slot AND NOT 1) (mem s)) (satp_root sa) N"
    and "unat a < 2 ^ 39 \<Longrightarrow> xlate (st64 slot (load s slot AND NOT 1) (mem s)) (satp_root sa) a =
      (if page_down a = page_down va then None else xlate (mem s) (satp_root sa) a)"
proof -
  let ?v = "load s slot AND NOT 1"
  note w = walk_loads [OF assms(4,5)]
  have T: "tbl (mem s) (satp_root sa) [vpn 2 va, vpn 1 va] = Some (pte_addr e1)"
    using w(3) yes unfolding e1_def e2_def by blast
  have nv: "\<not> ?v AND 1 \<noteq> 0" by (simp add: and_1_bit bit_simps)
  have p: "[vpn 2 va, vpn 1 va] \<in> paths" by (simp add: vpn_less)
  have nt: "\<not> is_table (ld64 (mem s) slot)" using treeD(4) [OF assms(4) p T vpn_less] by (simp add: slot_def)
  show "uvm_unmap sa va s = (True, store slot ?v s)"
    using yes by (simp add: uvm_unmap_def Let_def slot_def e1_def e2_def)
  show "walk 2 (mem s) (satp_root sa) va \<noteq> None"
    using w(3) yes unfolding slot_def e1_def e2_def by simp
  show "tree (st64 slot ?v (mem s)) (satp_root sa) N"
    unfolding slot_def
    by (rule tree_set_leaf [OF assms(4) p T vpn_less nt [unfolded slot_def]]) (use nv in \<open>simp add: is_table_def slot_def\<close>)
  show "xlate (st64 slot ?v (mem s)) (satp_root sa) a =
      (if page_down a = page_down va then None else xlate (mem s) (satp_root sa) a)" if "unat a < 2 ^ 39"
    using walk_clear [where va = a, OF assms(4) T vpn_less vpn_less vpn_less [of 0 va] nv] same_page [OF that assms(6)]
    by (simp add: xlate_def slot_def)
qed

text \<open>
  C14. \<open>uvm_unmap\<close> in a tree of tables, of an address below \<open>2 ^ 39\<close> that is not in a superpage: it answers 1 exactly when
  the address was mapped, and then its page has no translation afterwards, every other address below \<open>2 ^ 39\<close>
  translates as before and the tree of tables is intact; otherwise it changes nothing.
\<close>

theorem uvm_unmap_correct:
  assumes "tree (mem s) (satp_root sa) N" and "small_pages (mem s) (satp_root sa) va"
    and "unat va < 2 ^ 39"
  shows "(fst (uvm_unmap sa va s) \<longleftrightarrow> xlate (mem s) (satp_root sa) va \<noteq> None) \<and>
    (\<not> fst (uvm_unmap sa va s) \<longrightarrow> snd (uvm_unmap sa va s) = s) \<and>
    tree (mem (snd (uvm_unmap sa va s))) (satp_root sa) N \<and>
    (\<forall>a. unat a < 2 ^ 39 \<longrightarrow> xlate (mem (snd (uvm_unmap sa va s))) (satp_root sa) a =
       (if page_down a = page_down va then None else xlate (mem s) (satp_root sa) a))"
proof -
  let ?r = "satp_root sa"
  let ?e2 = "load s (cell ?r (vpn 2 va))"
  let ?e1 = "load s (cell (pte_addr ?e2) (vpn 1 va))"
  let ?slot = "cell (pte_addr ?e1) (vpn 0 va)"
  show ?thesis
  proof (cases "?e2 AND 1 \<noteq> 0 \<and> ?e1 AND 1 \<noteq> 0 \<and> load s ?slot AND 1 \<noteq> 0")
    case False
    note n = unmap_nothing [OF assms False]
    then show ?thesis using n(2) [OF assms(3) refl] assms(1) by (simp add: xlate_None)
  next
    case True
    note l = unmap_leaf [OF assms True]
    then show ?thesis by (simp add: store_def xlate_None)
  qed
qed

theorem uvm_unmap_correct_witness:
  "\<exists>t. uvm_unmap 1 0x10123 (demo_vm\<lparr>mem := one_page\<rparr>) = (True, t) \<and> tree (mem t) (satp_root 1) {0x1000, 0x2000, 0x3000} \<and>
     xlate one_page (satp_root 1) 0x10004 = Some (0x5004, 0xD7) \<and> xlate (mem t) (satp_root 1) 0x10004 = None"
proof -
  let ?s = "demo_vm\<lparr>mem := one_page\<rparr>"
  have r: "satp_root 1 = 0x1000" by (simp add: satp_root_def)
  have t: "tree (mem ?s) (satp_root 1) {0x1000, 0x2000, 0x3000}" "small_pages (mem ?s) (satp_root 1) 0x10123"
    using one_page_ok(1) by (simp_all add: r small_pages_def one_page_ok(2))
  have d: "page_down 0x10004 = page_down 0x10123" by (simp add: page_down_def)
  have "leaf_flags 0x10 6 = 0xD7" by (simp add: leaf_flags_def)
  then have x: "xlate one_page 0x1000 0x10004 = Some (0x5004, 0xD7)" "xlate one_page 0x1000 0x10123 \<noteq> None"
    by (simp_all add: one_page_ok(3))
  obtain b u where u: "uvm_unmap 1 0x10123 ?s = (b, u)" by fastforce
  show ?thesis using uvm_unmap_correct [OF t] x d by (simp add: u r)
qed

end
