(* ===== verification/Beside.thy ===== *)
theory Beside
  imports VmSpec
begin

text \<open>
  Page tables beside other allocations. A client that holds blocks of several sizes, such as the program
  loader with its segments, knows more than which table pages are its own: no table it builds later
  shares a byte with the blocks \<open>B\<close> it holds. \<open>own_beside B U\<close> is that kind of ownership, and it is a source of
  pages for the mapping loop.
\<close>

section \<open>Blocks and pages\<close>

lemma block_page:
  assumes h: "heap_ok s L U" and p: "(i, k) \<in> L" and b: "unat b \<in> block_range s (i, k)"
  shows "\<exists>j\<in>blk k i. j \<in> U \<and> page_down b = page_addr s j \<and> unat b \<in> block_range s (j, 0)"
proof -
  note lv = heap_ok_live [OF h p]
  have r: "ram_ok s" using h by (simp add: heap_ok_def)
  from h obtain fl where "buddy_inv s fl L {} U" by (auto simp: heap_ok_def)
  then have U: "j < total_pages s" if "j \<in> U" for j using that by (simp add: buddy_inv_def blocks_ok_def)
  let ?a = "unat (page_addr s i)"
  define q where "q = (unat b - ?a) div 4096"
  have ab: "?a \<le> unat b" "unat b < ?a + 4096 * 2 ^ k" using b by (auto simp: block_range_def)
  have q: "q < 2 ^ k" "4096 * q \<le> unat b - ?a" "unat b - ?a < 4096 * q + 4096"
    using ab unfolding q_def by (simp_all add: less_mult_imp_div_less algebra_simps) 
  define j where "j = i + of_nat q"
  obtain x where x: "unat i = 2 ^ k * x" using lv(3) by (auto simp: aligned_dvd)
  have k64: "k < 12" using lv(2) by simp
  have "(2::nat) ^ k \<le> 2 ^ 12" by (rule power_increasing) (use k64 in auto)
  then have "q < 2 ^ 12" using q(1) by simp
  then have uq: "unat (of_nat q :: u64) = q" by (simp add: unat_of_nat)
  have "unat i + unat (of_nat q :: u64) < 2 ^ LENGTH(64)"
  proof -
    have "2 ^ k * x < 2 ^ 64" using unat64_less [of i] x by simp
    moreover have "(2::nat) ^ 64 = 2 ^ k * 2 ^ (64 - k)" using k64 by (simp add: power_add [symmetric])
    ultimately have "2 ^ k * x < 2 ^ k * 2 ^ (64 - k)" by presburger
    then have "x < 2 ^ (64 - k)" by simp
    then have "2 ^ k * (x + 1) \<le> 2 ^ k * 2 ^ (64 - k)" by (intro mult_le_mono2) simp
    then have "2 ^ k * x + 2 ^ k \<le> 2 ^ 64" using k64 by (simp add: power_add [symmetric] algebra_simps)
    then show ?thesis using q(1) x uq by simp
  qed
  then have uj: "unat j = unat i + q" unfolding j_def using uq by (simp only: unat_add_lem [THEN iffD1])
  have jb: "j \<in> blk k i" unfolding blk_interval [OF lv(3)] using uj q(1) by simp
  then have jU: "j \<in> U" using lv(4) by blast
  have aj: "unat (page_addr s j) = ?a + 4096 * q"
    using unat_page_addr [OF r U [OF jU]] unat_page_addr [OF r lv(1)] uj by (simp add: algebra_simps)
  have "page_base (page_addr s j)"
    using page_addr_aligned [OF r, of j] by (simp add: page_base_def and_FFF_0_iff)
  then have "page_down b = page_addr s j" using aj q ab by (intro page_down_unique) simp_all
  moreover have "?a + 4096 * q \<le> unat b" "unat b < ?a + 4096 * q + 4096" using q ab by linarith+
  then have "unat b \<in> block_range s (j, 0)" using aj by (simp add: block_range_def)
  ultimately show ?thesis using jb jU by blast
qed

lemma page_range:
  fixes b :: u64
  assumes "page_down b = p"
  shows "unat p \<le> unat b" and "unat b < unat p + 4096"
proof -
  have "page_base p" using page_base_page_down [of b] assms by simp
  then have a: "aligned 12 p" by (simp add: aligned_page_base)
  have "b \<in> blk 12 p" unfolding mem_blk using bit_page_down [of b] assms by auto
  then show "unat p \<le> unat b" "unat b < unat p + 4096" unfolding blk_interval [OF a] by simp_all
qed

text \<open>The bytes of the pool.\<close>

definition pool_range :: "'a kmem_scheme \<Rightarrow> u64 set \<Rightarrow> nat set" where
  "pool_range s U = (\<Union>i\<in>U. block_range s (i, 0))"

lemma block_in_pool: "heap_ok s L U \<Longrightarrow> p \<in> L \<Longrightarrow> unat (b :: u64) \<in> block_range s p \<Longrightarrow> unat b \<in> pool_range s U"
  using block_page [of s L U "fst p" "snd p" b] by (auto simp: pool_range_def)

section \<open>Owning tables beside blocks\<close>

definition own_beside :: "(u64 \<times> nat) set \<Rightarrow> u64 set \<Rightarrow> 'a kmem_scheme \<Rightarrow> u64 set \<Rightarrow> bool" where
  "own_beside B U s P \<longleftrightarrow> ram_base s \<noteq> 0 \<and>
     (\<exists>L. heap_ok s L U \<and> B \<subseteq> L \<and> P \<subseteq> {page_addr s i | i. (i, 0) \<in> L - B})"

lemma own_besideI:
  "heap_ok s L U \<Longrightarrow> ram_base s \<noteq> 0 \<Longrightarrow> own_beside L U s {}"
  by (auto simp: own_beside_def)

lemma own_beside_page:
  assumes "own_beside B U s P" and "p \<in> P"
  shows "\<exists>i L. p = page_addr s i \<and> (i, 0) \<in> L - B \<and> B \<subseteq> L \<and> heap_ok s L U \<and> page_base p"
proof -
  obtain L i where L: "heap_ok s L U" "B \<subseteq> L" "(i, 0) \<in> L - B" "p = page_addr s i"
    using assms by (auto simp: own_beside_def)
  have "ram_ok s" using L(1) by (simp add: heap_ok_def)
  then have "page_base p" using page_addr_aligned [of s i] L(4) by (simp add: page_base_def and_FFF_0_iff)
  then show ?thesis using L by blast
qed

text \<open>Tables share no byte with the blocks, nor with anything outside the pool.\<close>

lemma own_beside_apart:
  assumes "own_beside B U s P" and "q \<in> B" and "unat b \<in> block_range s q"
  shows "page_down b \<notin> P"
proof
  assume "page_down b \<in> P"
  then obtain i L where i: "page_down b = page_addr s i" "(i, 0) \<in> L - B" "B \<subseteq> L" "heap_ok s L U"
    using own_beside_page [OF assms(1)] by blast
  have "unat b \<in> block_range s (i, 0)" using page_range [OF i(1)] by (simp add: block_range_def)
  moreover have "block_range s (i, 0) \<inter> block_range s q = {}"
    using i assms(2) by (intro block_range_disjoint [OF i(4)]) auto
  ultimately show False using assms(3) by blast
qed

lemma own_beside_outside:
  assumes "own_beside B U s P" and "unat b \<notin> pool_range s U"
  shows "page_down b \<notin> P"
proof
  assume "page_down b \<in> P"
  then obtain i L where i: "page_down b = page_addr s i" "(i, 0) \<in> L" "heap_ok s L U"
    using own_beside_page [OF assms(1)] by blast
  have "unat b \<in> block_range s (i, 0)" using page_range [OF i(1)] by (simp add: block_range_def)
  then show False using block_in_pool [OF i(3,2)] assms(2) by blast
qed

lemma own_beside_mem [simp]: "own_beside B U (s\<lparr>mem := m\<rparr>) P = own_beside B U s P"
  by (simp add: own_beside_def page_addr_def)

lemma same_ram_addr: "same_ram s t \<Longrightarrow> page_addr t = page_addr s \<and> block_range t = block_range s \<and> outside_pages t = outside_pages s"
  by (auto simp: same_ram_def page_addr_def block_range_def outside_pages_def fun_eq_iff)

text \<open>A new block, of any order, beside the tables.\<close>

lemma own_beside_block:
  assumes o: "own_beside B U s P" and k: "kalloc ord ca s = Ret (a, t)"
  shows "\<exists>i. a = page_addr s i \<and> (i, ord) \<notin> B \<and> own_beside (insert (i, ord) B) U t P \<and> same_ram s t \<and>
    page_base a \<and> a \<noteq> 0 \<and> unat a + 4096 * 2 ^ ord \<le> 2 ^ 64"
proof -
  from o obtain L where L: "heap_ok s L U" "B \<subseteq> L" "P \<subseteq> {page_addr s i | i. (i, 0) \<in> L - B}"
    and b: "ram_base s \<noteq> 0" by (auto simp: own_beside_def)
  from kalloc_Ret [OF L(1) k] obtain i where
    i: "a = page_addr s i" "(i, ord) \<notin> L" "heap_ok t (insert (i, ord) L) U" "same_ram s t" by blast
  note e = same_ram_addr [OF i(4)]
  have r: "ram_ok s" using L(1) by (simp add: heap_ok_def)
  have it: "i < total_pages s" using heap_ok_live(1) [OF i(3), of i ord] same_ram_total [OF i(4)] by simp
  have "P \<subseteq> {page_addr t j | j. (j, 0) \<in> insert (i, ord) L - insert (i, ord) B}"
    using L(3) i(2) e by auto
  then have "own_beside (insert (i, ord) B) U t P"
    unfolding own_beside_def using i(3,4) L(2) b by (auto simp: same_ram_def)
  moreover have "page_base a" using page_addr_aligned [OF r, of i] by (simp add: i(1) page_base_def and_FFF_0_iff)
  moreover have "a \<noteq> 0" unfolding i(1) by (rule page_addr_nonzero [OF r b it])
  moreover have "unat a + 4096 * 2 ^ ord \<le> 2 ^ 64"
  proof -
    have "block_range t (i, ord) \<subseteq> {unat (ram_base t) ..< unat (ram_base t) + unat (ram_size t)}"
      using block_range_in_ram [OF i(3)] by simp
    moreover have "unat (ram_base t) + unat (ram_size t) \<le> 2 ^ 64" using i(3) by (simp add: heap_ok_def ram_ok_def)
    moreover have "unat a + 4096 * 2 ^ ord - 1 \<in> block_range t (i, ord)"
    proof -
      have "0 < 4096 * (2::nat) ^ ord" by simp
      then have "unat a \<le> unat a + 4096 * 2 ^ ord - 1" "unat a + 4096 * 2 ^ ord - 1 < unat a + 4096 * 2 ^ ord"
        by linarith+
      then show ?thesis using i(1) e by (simp add: block_range_def)
    qed
    ultimately have "unat a + 4096 * 2 ^ ord - 1 < 2 ^ 64" by fastforce
    then show ?thesis by linarith
  qed
  ultimately show ?thesis using i by (intro exI [of _ i]) (use L(2) in auto)
qed

lemma own_beside_total:
  assumes "own_beside B U s P" and "ord < MAX_ORDER"
  shows "kalloc ord ca s = Panic 101 0 \<or> (\<exists>a t. kalloc ord ca s = Ret (a, t))"
proof -
  obtain L where "heap_ok s L U" using assms(1) by (auto simp: own_beside_def)
  then show ?thesis using kalloc_heap_ok [OF _ assms(2), of s L U ca] by blast
qed

interpretation held: table_pages ca "own_beside B U" for ca B U
proof (unfold_locales, goal_cases)
  case (1 s P)
  then show ?case using own_beside_total [of B U s P 0 ca] by simp
next
  case (2 s P p t)
  then obtain L where L: "heap_ok s L U" "B \<subseteq> L" "P \<subseteq> {page_addr s i | i. (i, 0) \<in> L - B}"
    and b: "ram_base s \<noteq> 0" by (auto simp: own_beside_def)
  from own_beside_block [OF 2] have f: "page_base p" "p \<noteq> 0" by blast+
  from kalloc_Ret [OF L(1) 2(2)] obtain i where
    i: "p = page_addr s i" "(i, 0) \<notin> L" "heap_ok t (insert (i, 0) L) U" "same_ram s t" by blast
  note e = same_ram_addr [OF i(4)]
  have it: "i < total_pages s" using heap_ok_live(1) [OF i(3), of i 0] same_ram_total [OF i(4)] by simp
  have "p \<notin> P"
  proof
    assume "p \<in> P"
    with L(3) obtain j where "(j, 0) \<in> L" "page_addr s j = p" by auto
    then show False using heap_ok_live(1) [OF L(1)] page_addr_inj [OF it] i by metis
  qed
  moreover have "insert p P \<subseteq> {page_addr t j | j. (j, 0) \<in> insert (i, 0) L - B}"
    using L(2,3) i(1,2) e by auto
  then have "own_beside B U t (insert p P)"
    unfolding own_beside_def using i(3,4) L(2) b
    by (intro conjI exI [of _ "insert (i, 0) L"]) (auto simp: same_ram_def)
  ultimately show ?case using f e by simp
qed simp

end
