(* ===== verification/Slab.thy ===== *)
theory Slab
  imports PageTable
begin

text \<open>
  The slab allocator of \<open>kernel/vm.c\<close>: \<open>kvmalloc_init\<close>, \<open>kvmem_cache_alloc\<close>, \<open>kvmalloc\<close> and
  \<open>kvmfree\<close>. The eight caches are the global array \<open>kvmalloc_caches\<close>; slab headers and the
  free-slot chains live in raw memory, as in the code. A header has eight 64-bit fields at
  the offsets of \<open>struct slab\<close>.
\<close>

section \<open>State\<close>

record cache =
  obj_size :: u32
  aligned_size :: u32
  cache_flag :: u32
  cache_name :: string
  list_full :: u64
  list_partial :: u64
  list_empty :: u64
  next_cache :: u64

record slabs = vmem +
  caches :: "nat \<Rightarrow> cache"
  caches_addr :: u64
  kvmalloc_lock :: u64

text \<open>The address of \<open>kvmalloc_caches[i]\<close>; \<open>sizeof(struct kvmem_cache)\<close> is 80.\<close>

definition cache_addr :: "nat \<Rightarrow> 'a slabs_scheme \<Rightarrow> u64" where
  "cache_addr i s = caches_addr s + 80 * of_nat i"

definition upd_cache :: "nat \<Rightarrow> (cache \<Rightarrow> cache) \<Rightarrow> 'a slabs_scheme \<Rightarrow> 'a slabs_scheme" where
  "upd_cache i f s = s\<lparr>caches := (caches s)(i := f (caches s i))\<rparr>"

abbreviation slab_size :: u64 where "slab_size \<equiv> 64"

text \<open>The fields of \<open>struct slab\<close>.\<close>

abbreviation (input) parent_cache :: u64 where "parent_cache \<equiv> 0"
abbreviation (input) active_obj_count :: u64 where "active_obj_count \<equiv> 8"
abbreviation (input) sl_prev :: u64 where "sl_prev \<equiv> 16"
abbreviation (input) sl_next :: u64 where "sl_next \<equiv> 24"
abbreviation (input) free_slot :: u64 where "free_slot \<equiv> 32"
abbreviation (input) virt_start :: u64 where "virt_start \<equiv> 40"
abbreviation (input) sl_caller :: u64 where "sl_caller \<equiv> 48"
abbreviation (input) phys_start :: u64 where "phys_start \<equiv> 56"

section \<open>Initialisation\<close>

definition kvmalloc_names :: "string list" where
  "kvmalloc_names = [''kvmalloc-16'', ''kvmalloc-32'', ''kvmalloc-64'', ''kvmalloc-128'',
     ''kvmalloc-256'', ''kvmalloc-512'', ''kvmalloc-1024'', ''kvmalloc-2048'']"

text \<open>The copy of a name stops after 31 characters.\<close>

definition kvmalloc_init_cache :: "nat \<Rightarrow> 'a slabs_scheme \<Rightarrow> 'a slabs_scheme" where
  "kvmalloc_init_cache i s =
     (let sz = 16 * push_bit i 1 :: u32 in
      s\<lparr>caches := (caches s)(i := \<lparr>obj_size = sz, aligned_size = sz,
        cache_flag = (if sz > 512 then 1 else 0),
        cache_name = take 31 (kvmalloc_names ! i),
        list_full = 0, list_partial = 0, list_empty = 0,
        next_cache = (if i < 7 then cache_addr (Suc i) s else 0)\<rparr>)\<rparr>)"

definition kvmalloc_init :: "'a slabs_scheme \<Rightarrow> 'a slabs_scheme" where
  "kvmalloc_init s = fold kvmalloc_init_cache [0..<8] s"

section \<open>Allocation from a cache\<close>

text \<open>How many objects a slab holds, on-slab (header inside the page) and off-slab.\<close>

definition on_slab_objs :: "cache \<Rightarrow> u64" where
  "on_slab_objs c = (4096 - slab_size) div ucast (aligned_size c)"

definition off_slab_objs :: "cache \<Rightarrow> u64" where
  "off_slab_objs c = 4096 div ucast (aligned_size c)"

text \<open>\<open>if (p != 0) p->prev = v\<close>.\<close>

definition set_prev_if :: "u64 \<Rightarrow> u64 \<Rightarrow> 'a slabs_scheme \<Rightarrow> 'a slabs_scheme" where
  "set_prev_if p v s = (if p \<noteq> 0 then store (p + sl_prev) v s else s)"

definition alloc_partial :: "nat \<Rightarrow> 'a slabs_scheme \<Rightarrow> u64 \<times> 'a slabs_scheme" where
  "alloc_partial i s =
     (let curr = list_partial (caches s i);
          slot = load s (curr + free_slot);
          s = store (curr + active_obj_count) (load s (curr + active_obj_count) + 1) s;
          c = caches s i;
          n = load s (curr + active_obj_count);
          s = (if cache_flag c = 0 \<and> n = on_slab_objs c \<or> cache_flag c \<noteq> 0 \<and> n = off_slab_objs c
               then
                 (let s = upd_cache i (\<lambda>c. c\<lparr>list_partial := load s (curr + sl_next)\<rparr>) s;
                      s = set_prev_if (list_partial (caches s i)) 0 s;
                      s = store (curr + sl_next) (list_full (caches s i)) s;
                      s = store (curr + sl_prev) 0 s;
                      s = set_prev_if (list_full (caches s i)) curr s
                  in upd_cache i (\<lambda>c. c\<lparr>list_full := curr\<rparr>) s)
               else s);
          s = store (curr + free_slot) (load s (load s (curr + free_slot))) s
      in (slot, s))"

definition alloc_empty :: "nat \<Rightarrow> 'a slabs_scheme \<Rightarrow> u64 \<times> 'a slabs_scheme" where
  "alloc_empty i s =
     (let curr = list_empty (caches s i);
          slot = load s (curr + free_slot);
          s = store (curr + active_obj_count) 1 s;
          s = upd_cache i (\<lambda>c. c\<lparr>list_empty := load s (curr + sl_next)\<rparr>) s;
          s = store (curr + sl_next) (list_partial (caches s i)) s;
          s = set_prev_if (list_empty (caches s i)) 0 s;
          s = upd_cache i (\<lambda>c. c\<lparr>list_partial := curr\<rparr>) s;
          s = store (curr + sl_prev) 0 s;
          s = store (curr + free_slot) (load s (load s (curr + free_slot))) s
      in (slot, s))"

text \<open>
  The chain of free slots of a new slab: every slot holds the address of the next, the last
  one 0. \<open>n\<close> is the number of slots still to link after the one at \<open>a\<close>.
\<close>

fun link_slots :: "nat \<Rightarrow> u64 \<Rightarrow> u64 \<Rightarrow> 'a slabs_scheme \<Rightarrow> 'a slabs_scheme" where
  "link_slots 0 a sz s = store a 0 s"
| "link_slots (Suc n) a sz s = link_slots n (a + sz) sz (store a (a + sz) s)"

text \<open>The header of a new slab, in the order the code writes it.\<close>

definition fill_header :: "u64 \<Rightarrow> u64 \<Rightarrow> u64 \<Rightarrow> u64 \<Rightarrow> 'a slabs_scheme \<Rightarrow> 'a slabs_scheme" where
  "fill_header h free page caller s =
     (let s = store (h + free_slot) free s;
          s = store (h + active_obj_count) 1 s;
          s = store (h + sl_next) 0 s;
          s = store (h + sl_prev) 0 s;
          s = store (h + virt_start) page s;
          s = store (h + phys_start) page s
      in store (h + sl_caller) caller s)"

text \<open>
  \<open>kvmem_cache_alloc\<close>. Caches with the flag take their headers from cache 2, which has no
  flag, so the recursion is one level deep; \<open>fuel\<close> counts the levels left.
\<close>

fun kvmem_cache_alloc ::
  "nat \<Rightarrow> u64 \<Rightarrow> nat \<Rightarrow> u64 \<Rightarrow> 'a slabs_scheme \<Rightarrow> (u64 \<times> 'a slabs_scheme) outcome" where
  "kvmem_cache_alloc 0 ca i caller s = Hang"
| "kvmem_cache_alloc (Suc fuel) ca i caller s =
     (if list_partial (caches s i) \<noteq> 0 then Ret (alloc_partial i s)
      else if list_empty (caches s i) \<noteq> 0 then Ret (alloc_empty i s)
      else
        bindO (kalloc 0 ca s) (\<lambda>(new_slab, s).
        if new_slab = 0 then Panic 108 (cache_addr i s)
        else
          let sz = ucast (aligned_size (caches s i)) :: u64 in
          if cache_flag (caches s i) = 0 then
            let first_obj = new_slab + slab_size;
                s = store (new_slab + parent_cache) (cache_addr i s) s;
                s = link_slots (unat (on_slab_objs (caches s i) - 1)) first_obj sz s;
                s = fill_header new_slab (first_obj + sz) new_slab caller s
            in Ret (first_obj, upd_cache i (\<lambda>c. c\<lparr>list_partial := new_slab\<rparr>) s)
          else
            let max_objs = off_slab_objs (caches s i) in
            bindO (kvmem_cache_alloc fuel ca 2 caller s) (\<lambda>(header, s).
            if header = 0 then Panic 109 (cache_addr i s)
            else
              let s = store (header + parent_cache) (cache_addr i s) s;
                  s = link_slots (unat (max_objs - 1)) new_slab sz s;
                  s = fill_header header (new_slab + sz) new_slab caller s
              in Ret (new_slab, upd_cache i (\<lambda>c. c\<lparr>list_partial := header\<rparr>) s))))"

section \<open>kvmalloc\<close>

text \<open>The first cache whose objects are large enough: the loop for sizes up to 2048.\<close>

fun size_class :: "nat \<Rightarrow> nat \<Rightarrow> u64 \<Rightarrow> 'a slabs_scheme \<Rightarrow> nat outcome" where
  "size_class 0 i sz s = Hang"
| "size_class (Suc n) i sz s =
     (if ucast (aligned_size (caches s i)) < sz then size_class n (Suc i) sz s else Ret i)"

text \<open>The smallest order whose block holds \<open>sz\<close> bytes; the shift is defined below 64 only.\<close>

fun size_order :: "nat \<Rightarrow> nat \<Rightarrow> u64 \<Rightarrow> nat outcome" where
  "size_order 0 ord sz = Hang"
| "size_order (Suc n) ord sz =
     (if push_bit ord 4096 < sz then size_order n (Suc ord) sz else Ret ord)"

definition kvmalloc :: "u64 \<Rightarrow> u64 \<Rightarrow> 'a slabs_scheme \<Rightarrow> (u64 \<times> 'a slabs_scheme) outcome" where
  "kvmalloc ca sz s =
     bindO (spinlock_acquire (kvmalloc_lock s)) (\<lambda>l.
     let s = s\<lparr>kvmalloc_lock := l\<rparr> in
     bindO
       (if sz = 0 then Ret (0, s)
        else if sz \<le> 2048 then
          bindO (size_class 8 0 sz s) (\<lambda>i. kvmem_cache_alloc 2 ca i ca s)
        else
          bindO (size_order 64 0 sz) (\<lambda>ord. kalloc ord ca s))
       (\<lambda>(slot, s). Ret (slot, s\<lparr>kvmalloc_lock := spinlock_release (kvmalloc_lock s)\<rparr>)))"

section \<open>kvmfree\<close>

text \<open>Pushing the freed slot on its slab's chain.\<close>

definition push_slot :: "u64 \<Rightarrow> u64 \<Rightarrow> 'a slabs_scheme \<Rightarrow> 'a slabs_scheme" where
  "push_slot slot h s =
     (let s = store slot (load s (h + free_slot)) s;
          s = store (h + free_slot) slot s
      in store (h + active_obj_count) (load s (h + active_obj_count) - 1) s)"

text \<open>Taking a header out of its list; \<open>set_hd\<close> writes the list's head in the cache.\<close>

definition unlink_slab :: "u64 \<Rightarrow> nat \<Rightarrow> (u64 \<Rightarrow> cache \<Rightarrow> cache) \<Rightarrow> 'a slabs_scheme \<Rightarrow> 'a slabs_scheme" where
  "unlink_slab h i set_hd s =
     (let s = (if load s (h + sl_prev) \<noteq> 0
               then store (load s (h + sl_prev) + sl_next) (load s (h + sl_next)) s
               else upd_cache i (set_hd (load s (h + sl_next))) s)
      in if load s (h + sl_next) \<noteq> 0
         then store (load s (h + sl_next) + sl_prev) (load s (h + sl_prev)) s
         else s)"

definition push_slab ::
  "u64 \<Rightarrow> nat \<Rightarrow> (cache \<Rightarrow> u64) \<Rightarrow> (u64 \<Rightarrow> cache \<Rightarrow> cache) \<Rightarrow> 'a slabs_scheme \<Rightarrow> 'a slabs_scheme" where
  "push_slab h i get_hd set_hd s =
     (let s = store (h + sl_next) (get_hd (caches s i)) s;
          s = store (h + sl_prev) 0 s;
          s = (if load s (h + sl_next) \<noteq> 0 then store (load s (h + sl_next) + sl_prev) h s else s)
      in upd_cache i (set_hd h) s)"

definition full_to_partial :: "u64 \<Rightarrow> nat \<Rightarrow> 'a slabs_scheme \<Rightarrow> 'a slabs_scheme" where
  "full_to_partial h i s =
     push_slab h i list_partial (\<lambda>v c. c\<lparr>list_partial := v\<rparr>)
       (unlink_slab h i (\<lambda>v c. c\<lparr>list_full := v\<rparr>) s)"

definition partial_to_empty :: "u64 \<Rightarrow> nat \<Rightarrow> 'a slabs_scheme \<Rightarrow> 'a slabs_scheme" where
  "partial_to_empty h i s =
     push_slab h i list_empty (\<lambda>v c. c\<lparr>list_empty := v\<rparr>)
       (unlink_slab h i (\<lambda>v c. c\<lparr>list_partial := v\<rparr>) s)"

text \<open>An object of one of the six small caches: the header is at the start of its page.\<close>

definition kvmfree_on_slab :: "u64 \<Rightarrow> u64 \<Rightarrow> nat \<Rightarrow> 'a slabs_scheme \<Rightarrow> 'a slabs_scheme" where
  "kvmfree_on_slab slot h i s =
     (let s = push_slot slot h s;
          max_objs = ucast (on_slab_objs (caches s i)) :: u32;
          n = load s (h + active_obj_count)
      in if n = ucast (max_objs - 1) then full_to_partial h i s
         else if n = 0 then partial_to_empty h i s
         else s)"

text \<open>The walk along a list of off-slab headers to the one of the page; \<open>fuel\<close> bounds it.\<close>

fun find_slab :: "nat \<Rightarrow> u64 \<Rightarrow> u64 \<Rightarrow> 'a slabs_scheme \<Rightarrow> u64 outcome" where
  "find_slab 0 h base s = (if h = 0 then Ret 0 else Hang)"
| "find_slab (Suc n) h base s =
     (if h = 0 then Ret 0
      else if load s (h + virt_start) = base then Ret h
      else find_slab n (load s (h + sl_next)) base s)"

definition kvmfree_off_slab :: "nat \<Rightarrow> u64 \<Rightarrow> u64 \<Rightarrow> nat \<Rightarrow> 'a slabs_scheme \<Rightarrow> (bool \<times> 'a slabs_scheme) outcome" where
  "kvmfree_off_slab fuel slot base i s =
     bindO (find_slab fuel (list_full (caches s i)) base s) (\<lambda>h.
     if h \<noteq> 0 then Ret (True, full_to_partial h i (push_slot slot h s))
     else
       bindO (find_slab fuel (list_partial (caches s i)) base s) (\<lambda>h.
       if h \<noteq> 0 then
         let s = push_slot slot h s in
         Ret (True, if load s (h + active_obj_count) = 0 then partial_to_empty h i s else s)
       else Ret (False, s)))"

text \<open>
  \<open>kvmfree\<close>. Headers are 64 bytes of RAM each, so a list of distinct headers is shorter than
  the RAM size, which is the fuel.
\<close>

definition kvmfree :: "u64 \<Rightarrow> 'a slabs_scheme \<Rightarrow> 'a slabs_scheme outcome" where
  "kvmfree slot s =
     (if slot = 0 then Ret s
      else
        bindO (spinlock_acquire (kvmalloc_lock s)) (\<lambda>l.
        let s = s\<lparr>kvmalloc_lock := l\<rparr>;
            base_addr = slot AND NOT 0xFFF;
            parent = load s (base_addr + parent_cache);
            fuel = unat (ram_size s)
        in
        bindO
          (case find (\<lambda>i. cache_addr i s = parent) [0..<6] of
             Some i \<Rightarrow> Ret (kvmfree_on_slab slot base_addr i s)
           | None \<Rightarrow>
               bindO (kvmfree_off_slab fuel slot base_addr 6 s) (\<lambda>(done, s).
               if done then Ret s
               else
                 bindO (kvmfree_off_slab fuel slot base_addr 7 s) (\<lambda>(done, s).
                 if done then Ret s else kfree base_addr s)))
          (\<lambda>s. Ret (s\<lparr>kvmalloc_lock := spinlock_release (kvmalloc_lock s)\<rparr>))))"

end
