(* ===== verification/Process.thy ===== *)
theory Process
  imports Slab DList
begin

text \<open>
  The process state of the kernel: \<open>struct process\<close>, \<open>struct trapframe\<close>, \<open>struct
  hart_runqueue\<close> and the globals of \<open>kernel/scheduler.c\<close>, \<open>kernel/smp.c\<close> and
  \<open>kernel/main.c\<close>. Each structure type has a heap of its own, from addresses to records, so
  that writes through pointers are function updates and aliasing is explicit; the arrays
  behind \<open>capability_root\<close> and \<open>pid_registry\<close> are in raw memory. The fields of
  \<open>struct process\<close> that no code uses are left out.
\<close>

section \<open>Structures\<close>

record trapframe =
  u_context :: "nat \<Rightarrow> u64"
  epc :: u64
  sstatus :: u64
  kernel_satp :: u64
  kernel_sp :: u64
  kernel_trap :: u64
  user_satp :: u64
  kernel_tp :: u64

text \<open>A mailbox is nine 64-bit cells: \<open>sender_pid\<close>, \<open>type\<close> and \<open>data[7]\<close>.\<close>

record process =
  p_context :: "nat \<Rightarrow> u64"
  p_tf :: u64
  p_satp :: u64
  kstack :: u64
  pid :: u64
  parent_pid :: u64
  p_name :: "u8 list"
  p_state :: u32
  priority :: nat
  time_slice :: u32
  ticks_left :: u32
  cpu_time :: u64
  capability_root :: u64
  mailbox :: "nat \<Rightarrow> u64"
  ipc_pending_pid :: u64
  mailbox_status :: u32
  active_grant :: u32
  grant_whitelist :: "nat \<Rightarrow> u64"
  p_next :: u64
  p_prev :: u64
  exit_code :: u64
  magic :: u64

record runqueue =
  circles :: "nat \<Rightarrow> u64"
  lookup_bitmap :: u64
  curr_process :: u64
  idle_process :: u64
  starv_ticks :: u64
  hart_id :: u64
  process_count :: u64

abbreviation PROCESS_MAGIC :: u64 where "PROCESS_MAGIC \<equiv> 0xC00C33E1"
abbreviation PID_MAX :: u64 where "PID_MAX \<equiv> 32768"

section \<open>Kernel state\<close>

text \<open>The five lists of processes that are not on a run queue, and the kernel's locks.\<close>

datatype wlist = Blocked | Zombie | Sleeping | BlockedIpc | BlockedIpcSend

datatype lockid = ListLock wlist | RqLock u64 | AliveLock | PidLock | UartLock

text \<open>
  \<open>tp\<close> is the running hart's thread pointer, that is \<open>get_runqueue()\<close>. \<open>closet_rq j\<close> is
  \<open>global_closet[j].rq\<close>. \<open>ssip\<close> is the pending software interrupt, \<open>ssie\<close> its enable bit,
  \<open>stvec_user\<close> tells
  whether traps enter through the user trampoline, \<open>last_switch\<close> has the arguments of the last \<open>_switch_context\<close> and \<open>uart_out\<close> what was printed.
\<close>

record kstate = slabs +
  procs :: "u64 \<Rightarrow> process"
  tframes :: "u64 \<Rightarrow> trapframe"
  rqs :: "u64 \<Rightarrow> runqueue"
  tp :: u64
  hart :: nat
  closet_rq :: "nat \<Rightarrow> u64"
  lists :: "wlist \<Rightarrow> u64"
  emergency_process :: u64
  alive_thread_counter :: u64
  next_pid :: u64
  pid_registry :: u64
  shell_ptr :: u64
  irq_registry :: "u64 \<Rightarrow> u64"
  uart_buff :: u8
  uart_out :: "u8 list"
  locks :: "lockid \<Rightarrow> u64"
  ssip :: bool
  ssie :: bool
  sscratch :: u64
  stvec_user :: bool
  last_switch :: "u64 \<times> u64"

section \<open>Access to the structures\<close>

definition upd_proc :: "u64 \<Rightarrow> (process \<Rightarrow> process) \<Rightarrow> kstate \<Rightarrow> kstate" where
  "upd_proc p f s = s\<lparr>procs := (procs s)(p := f (procs s p))\<rparr>"

definition upd_tf :: "u64 \<Rightarrow> (trapframe \<Rightarrow> trapframe) \<Rightarrow> kstate \<Rightarrow> kstate" where
  "upd_tf a f s = s\<lparr>tframes := (tframes s)(a := f (tframes s a))\<rparr>"

definition upd_rq :: "u64 \<Rightarrow> (runqueue \<Rightarrow> runqueue) \<Rightarrow> kstate \<Rightarrow> kstate" where
  "upd_rq r f s = s\<lparr>rqs := (rqs s)(r := f (rqs s r))\<rparr>"

definition set_list :: "wlist \<Rightarrow> u64 \<Rightarrow> kstate \<Rightarrow> kstate" where
  "set_list w p s = s\<lparr>lists := (lists s)(w := p)\<rparr>"

definition set_next :: "u64 \<Rightarrow> u64 \<Rightarrow> kstate \<Rightarrow> kstate" where
  "set_next p q = upd_proc p (\<lambda>x. x\<lparr>p_next := q\<rparr>)"

definition set_prev :: "u64 \<Rightarrow> u64 \<Rightarrow> kstate \<Rightarrow> kstate" where
  "set_prev p q = upd_proc p (\<lambda>x. x\<lparr>p_prev := q\<rparr>)"

definition set_circle :: "u64 \<Rightarrow> nat \<Rightarrow> u64 \<Rightarrow> kstate \<Rightarrow> kstate" where
  "set_circle r i p = upd_rq r (\<lambda>x. x\<lparr>circles := (circles x)(i := p)\<rparr>)"

text \<open>\<open>get_runqueue()->curr_process\<close>, and the a0 register of its trap frame.\<close>

definition curr :: "kstate \<Rightarrow> u64" where
  "curr s = curr_process (rqs s (tp s))"

definition set_a0 :: "u64 \<Rightarrow> u64 \<Rightarrow> kstate \<Rightarrow> kstate" where
  "set_a0 p v s = upd_tf (p_tf (procs s p)) (\<lambda>t. t\<lparr>u_context := (u_context t)(10 := v)\<rparr>) s"

definition trigger_software_interrupt :: "kstate \<Rightarrow> kstate" where
  "trigger_software_interrupt s = s\<lparr>ssip := True\<rparr>"

text \<open>A lock that is already held is never released by the hart that waits for it.\<close>

definition acquire :: "lockid \<Rightarrow> kstate \<Rightarrow> kstate outcome" where
  "acquire l s = bindO (spinlock_acquire (locks s l)) (\<lambda>v. Ret (s\<lparr>locks := (locks s)(l := v)\<rparr>))"

definition release :: "lockid \<Rightarrow> kstate \<Rightarrow> kstate" where
  "release l s = s\<lparr>locks := (locks s)(l := spinlock_release (locks s l))\<rparr>"

end
