(* ===== verification/Sched.thy ===== *)
theory Sched
  imports Process
begin

text \<open>
  The scheduler of \<open>kernel/scheduler.c\<close>: the run queues with one circle per priority, the
  dispatcher, blocking and waking, sleeping, exit, wait and the stealing of work from other
  harts. The code repeats the same list surgery in every operation; here each piece is one
  definition. An operation runs under its locks from beginning to end, so it is one step.
\<close>

section \<open>List surgery\<close>

text \<open>Taking a process out of its circle on run queue \<open>r\<close>.\<close>

definition rq_remove :: "u64 \<Rightarrow> u64 \<Rightarrow> kstate \<Rightarrow> kstate" where
  "rq_remove r target s =
     (let prio = priority (procs s target);
          s = (if p_next (procs s target) = target then
                 upd_rq r (\<lambda>x. x\<lparr>lookup_bitmap := lookup_bitmap x AND NOT (shl1 prio)\<rparr>)
                   (set_circle r prio 0 s)
               else
                 let head = p_next (procs s target); tail = p_prev (procs s target);
                     s = set_prev head tail s;
                     s = set_next tail head s
                 in if target = circles (rqs s r) prio
                    then set_circle r prio (p_next (procs s target)) s else s)
      in upd_rq r (\<lambda>x. x\<lparr>process_count := process_count x - 1\<rparr>) s)"

text \<open>Appending a process to its circle on run queue \<open>r\<close>: it becomes the head's predecessor.\<close>

definition rq_link :: "u64 \<Rightarrow> u64 \<Rightarrow> kstate \<Rightarrow> kstate" where
  "rq_link r target s =
     (let prio = priority (procs s target) in
      if lookup_bitmap (rqs s r) AND shl1 prio \<noteq> 0 then
        (let s = set_next target (circles (rqs s r) prio) s;
             tail = p_prev (procs s (circles (rqs s r) prio));
             s = set_prev target tail s;
             s = set_next tail target s
         in set_prev (circles (rqs s r) prio) target s)
      else
        (let s = set_next target target s;
             s = set_prev target target s;
             s = set_circle r prio target s
         in upd_rq r (\<lambda>x. x\<lparr>lookup_bitmap := lookup_bitmap x OR shl1 prio\<rparr>) s))"

text \<open>The same, with the owner's thread pointer and the count, as every wake-up does it.\<close>

definition rq_insert :: "u64 \<Rightarrow> u64 \<Rightarrow> kstate \<Rightarrow> kstate" where
  "rq_insert r target s =
     (let s = rq_link r target s;
          s = upd_tf (p_tf (procs s target)) (\<lambda>t. t\<lparr>kernel_tp := r\<rparr>) s
      in upd_rq r (\<lambda>x. x\<lparr>process_count := process_count x + 1\<rparr>) s)"

text \<open>Pushing a process on the front of a wait list, and taking one out.\<close>

definition list_push :: "wlist \<Rightarrow> u64 \<Rightarrow> kstate \<Rightarrow> kstate" where
  "list_push w target s =
     (let s = set_next target (lists s w) s;
          s = (if lists s w \<noteq> 0 then set_prev (lists s w) target s else s);
          s = set_prev target 0 s
      in set_list w target s)"

definition list_unlink :: "wlist \<Rightarrow> u64 \<Rightarrow> kstate \<Rightarrow> kstate" where
  "list_unlink w target s =
     (if target = lists s w then
        (let s = set_list w (p_next (procs s target)) s
         in if lists s w \<noteq> 0 then set_prev (lists s w) 0 s else s)
      else
        (let head = p_next (procs s target); tail = p_prev (procs s target);
             s = (if head \<noteq> 0 then set_prev head tail s else s)
         in set_next tail head s))"

section \<open>Dispatching\<close>

text \<open>The highest priority whose bit is set.\<close>

definition first_ready :: "u64 \<Rightarrow> nat option" where
  "first_ready bitmap = find (\<lambda>i. bitmap AND shl1 i \<noteq> 0) [0..<32]"

text \<open>The upper half of the bitmap remembers the lower priorities that were passed over.\<close>

definition passed_over :: "nat \<Rightarrow> u64 \<Rightarrow> u64" where
  "passed_over i bitmap =
     (if i < 31
      then bitmap OR push_bit 32 ((bitmap AND 0xFFFFFFFF) AND NOT (shl1 (i + 1) - 1))
      else bitmap)"

definition schedule_pick :: "kstate \<Rightarrow> kstate outcome" where
  "schedule_pick s =
     (let r = tp s in
      if emergency_process s \<noteq> 0 then
        Ret ((upd_rq r (\<lambda>x. x\<lparr>curr_process := emergency_process s\<rparr>) s)\<lparr>emergency_process := 0\<rparr>)
      else
        case first_ready (lookup_bitmap (rqs s r)) of
          None \<Rightarrow> Ret s
        | Some i \<Rightarrow>
            (let s = upd_rq r (\<lambda>x. x\<lparr>curr_process := circles x i\<rparr>) s in
             if magic (procs s (curr s)) \<noteq> PROCESS_MAGIC then Panic 114 (pid (procs s (curr s)))
             else Ret (upd_rq r (\<lambda>x. x\<lparr>lookup_bitmap := passed_over i (lookup_bitmap x)\<rparr>) s)))"

text \<open>The running process gives up the processor: its slice is refilled, its circle rotates.\<close>

definition schedule_rotate :: "kstate \<Rightarrow> kstate" where
  "schedule_rotate s =
     (if p_state (procs s (curr s)) = 1 then
        (let s = upd_proc (curr s) (\<lambda>p. p\<lparr>p_state := 0\<rparr>) s;
             s = upd_proc (curr s) (\<lambda>p. p\<lparr>ticks_left := time_slice p\<rparr>) s;
             prio = priority (procs s (curr s))
         in set_circle (tp s) prio (p_next (procs s (circles (rqs s (tp s)) prio))) s)
      else s)"

definition schedule :: "kstate \<Rightarrow> kstate outcome" where
  "schedule s =
     bindO (acquire (RqLock (tp s)) s) (\<lambda>s.
     let out_process = curr s in
     if magic (procs s (curr s)) \<noteq> PROCESS_MAGIC then Panic 114 (pid (procs s (curr s)))
     else
       bindO (schedule_pick (schedule_rotate s)) (\<lambda>s.
       if p_state (procs s (curr s)) \<noteq> 0 then Panic 114 (pid (procs s (curr s)))
       else
         let s = upd_proc (curr s) (\<lambda>p. p\<lparr>p_state := 1\<rparr>) s;
             in_process = curr s;
             s = release (RqLock (tp s)) s
         in Ret (s\<lparr>last_switch := (out_process, in_process)\<rparr>)))"

section \<open>Blocking and waking\<close>

text \<open>
  The guard of the blocking operations. The argument of panic 113 is read through the trap
  frame, and the idle process, the only one with pid 0, has none: \<open>tf->epc\<close> is then a load
  from address 256.
\<close>

definition block_guard :: "u64 \<Rightarrow> kstate \<Rightarrow> kstate outcome" where
  "block_guard target s =
     (let p = procs s target in
      if pid p = 0 then
        (if p_tf p = 0 then Fault 256 else Panic 113 (epc (tframes s (p_tf p))))
      else if magic p \<noteq> PROCESS_MAGIC then Panic 114 (pid p)
      else Ret (if emergency_process s = target then s\<lparr>emergency_process := 0\<rparr> else s))"

text \<open>From the run queue to the front of list \<open>w\<close>, in state \<open>st\<close>; \<open>f\<close> is what else is written.\<close>

definition block_on :: "wlist \<Rightarrow> u32 \<Rightarrow> (process \<Rightarrow> process) \<Rightarrow> u64 \<Rightarrow> kstate \<Rightarrow> kstate outcome" where
  "block_on w st f target s =
     bindO (acquire (ListLock w) s) (\<lambda>s.
     bindO (block_guard target s) (\<lambda>s.
     bindO (acquire (RqLock (tp s)) s) (\<lambda>s.
     let s = rq_remove (tp s) target s;
         s = release (RqLock (tp s)) s;
         s = list_push w target s;
         s = upd_proc target (\<lambda>p. f (p\<lparr>p_state := st\<rparr>)) s;
         s = release (ListLock w) s
     in Ret (trigger_software_interrupt s))))"

definition block_process :: "u64 \<Rightarrow> kstate \<Rightarrow> kstate outcome" where
  "block_process = block_on Blocked 2 id"

definition sleep_process :: "u64 \<Rightarrow> u32 \<Rightarrow> kstate \<Rightarrow> kstate outcome" where
  "sleep_process target ticks = block_on Sleeping 4 (\<lambda>p. p\<lparr>ticks_left := ticks\<rparr>) target"

definition block_ipc_process :: "u64 \<Rightarrow> kstate \<Rightarrow> kstate outcome" where
  "block_ipc_process = block_on BlockedIpc 5 id"

definition block_ipc_send_process :: "u64 \<Rightarrow> kstate \<Rightarrow> kstate outcome" where
  "block_ipc_send_process = block_on BlockedIpcSend 6 id"

text \<open>A process of lower number than the running one's priority preempts it.\<close>

definition preempt_if_higher :: "u64 \<Rightarrow> kstate \<Rightarrow> kstate" where
  "preempt_if_higher target s =
     (if priority (procs s target) < priority (procs s (curr s))
      then upd_proc (curr s) (\<lambda>p. p\<lparr>ticks_left := 0\<rparr>) s else s)"

text \<open>From list \<open>w\<close>, where its state must be \<open>st\<close>, to the end of its circle.\<close>

definition wake_from :: "wlist \<Rightarrow> u32 \<Rightarrow> u64 \<Rightarrow> kstate \<Rightarrow> kstate outcome" where
  "wake_from w st target s =
     (if p_state (procs s target) \<noteq> st then Panic 115 (pid (procs s target))
      else if magic (procs s target) \<noteq> PROCESS_MAGIC then Panic 114 (pid (procs s target))
      else
        let s = upd_proc target (\<lambda>p. p\<lparr>p_state := 0\<rparr>) s;
            s = list_unlink w target s
        in
        bindO (acquire (RqLock (tp s)) s) (\<lambda>s.
        let s = rq_insert (tp s) target s
        in Ret (release (RqLock (tp s)) s)))"

definition unblock_from :: "wlist \<Rightarrow> u32 \<Rightarrow> u64 \<Rightarrow> kstate \<Rightarrow> kstate outcome" where
  "unblock_from w st target s =
     bindO (acquire (ListLock w) s) (\<lambda>s.
     bindO (wake_from w st target s) (\<lambda>s.
     let s = release (ListLock w) s in
     Ret (if priority (procs s target) < priority (procs s (curr s))
          then trigger_software_interrupt (preempt_if_higher target s) else s)))"

definition unblock_process :: "u64 \<Rightarrow> kstate \<Rightarrow> kstate outcome" where
  "unblock_process = unblock_from Blocked 2"

definition unblock_ipc_process :: "u64 \<Rightarrow> kstate \<Rightarrow> kstate outcome" where
  "unblock_ipc_process = unblock_from BlockedIpc 5"

definition unblock_ipc_send_process :: "u64 \<Rightarrow> kstate \<Rightarrow> kstate outcome" where
  "unblock_ipc_send_process = unblock_from BlockedIpcSend 6"

section \<open>Walks over lists and circles\<close>

text \<open>
  A walk along \<open>p_next\<close> to null, and a walk once around a circle. There are fewer than
  \<open>PID_MAX\<close> processes besides one idle process per hart, so a list without repetitions ends
  within \<open>walk_fuel\<close> steps; a corrupted list that runs on is \<open>Hang\<close>.
\<close>

definition walk_fuel :: nat where
  "walk_fuel = 65536"

fun each_list :: "nat \<Rightarrow> (u64 \<Rightarrow> kstate \<Rightarrow> kstate outcome) \<Rightarrow> u64 \<Rightarrow> kstate \<Rightarrow> kstate outcome" where
  "each_list 0 body ptr s = (if ptr = 0 then Ret s else Hang)"
| "each_list (Suc n) body ptr s =
     (if ptr = 0 then Ret s
      else
        let next_ptr = p_next (procs s ptr) in
        bindO (body ptr s) (each_list n body next_ptr))"

fun each_circle :: "nat \<Rightarrow> (u64 \<Rightarrow> kstate \<Rightarrow> kstate) \<Rightarrow> u64 \<Rightarrow> u64 \<Rightarrow> kstate \<Rightarrow> kstate outcome" where
  "each_circle 0 body start ptr s = Hang"
| "each_circle (Suc n) body start ptr s =
     (let s = body ptr s; ptr = p_next (procs s ptr)
      in if ptr \<noteq> start then each_circle n body start ptr s else Ret s)"

section \<open>Time\<close>

text \<open>One sleeper: its count goes down, and at 0 it moves to its run queue.\<close>

definition tick_sleeper :: "u64 \<Rightarrow> kstate \<Rightarrow> kstate outcome" where
  "tick_sleeper ptr s =
     (let s = upd_proc ptr (\<lambda>p. p\<lparr>ticks_left := ticks_left p - 1\<rparr>) s in
      if ticks_left (procs s ptr) = 0 then
        bindO (wake_from Sleeping 4 ptr s) (\<lambda>s. Ret (preempt_if_higher ptr s))
      else Ret s)"

definition update_sleep_list :: "kstate \<Rightarrow> kstate outcome" where
  "update_sleep_list s =
     bindO (acquire (ListLock Sleeping) s) (\<lambda>s.
     bindO (each_list walk_fuel tick_sleeper (lists s Sleeping) s) (\<lambda>s.
     Ret (release (ListLock Sleeping) s)))"

text \<open>
  Every thousand ticks: the lowest-priority circle that was passed over and is not empty gets
  the processor once, and the record of passed-over priorities is cleared.
\<close>

definition anti_starvation_sweeper :: "kstate \<Rightarrow> kstate" where
  "anti_starvation_sweeper s =
     (let r = tp s; b = lookup_bitmap (rqs s r) in
      if drop_bit 32 b = 0 then s
      else
        let s = (case find (\<lambda>i. b AND shl1 (i + 32) \<noteq> 0 \<and> b AND shl1 i \<noteq> 0) (rev [0..<31]) of
                   None \<Rightarrow> s
                 | Some i \<Rightarrow> s\<lparr>emergency_process := circles (rqs s r) i\<rparr>)
        in upd_rq r (\<lambda>x. x\<lparr>lookup_bitmap := lookup_bitmap x AND 0xFFFFFFFF\<rparr>) s)"

section \<open>Stealing work\<close>

text \<open>The first process of a circle that is not \<open>running\<close>; 0 when there is none.\<close>

fun find_idle :: "nat \<Rightarrow> u64 \<Rightarrow> u64 \<Rightarrow> u64 \<Rightarrow> kstate \<Rightarrow> u64 outcome" where
  "find_idle 0 running start ptr s = Hang"
| "find_idle (Suc n) running start ptr s =
     (if ptr \<noteq> running then Ret ptr
      else
        let ptr = p_next (procs s ptr) in
        if ptr \<noteq> start then find_idle n running start ptr s else Ret 0)"

text \<open>The priorities of run queue \<open>r\<close> from 0 to 30, up to the first process to take.\<close>

fun steal_from :: "nat list \<Rightarrow> u64 \<Rightarrow> kstate \<Rightarrow> (u64 \<times> kstate) outcome" where
  "steal_from [] r s = Ret (0, s)"
| "steal_from (i # is) r s =
     (if lookup_bitmap (rqs s r) AND shl1 i \<noteq> 0 then
        (let head = circles (rqs s r) i in
         bindO (find_idle walk_fuel (curr_process (rqs s r)) head head s) (\<lambda>target.
         if target \<noteq> 0 then Ret (target, rq_remove r target s)
         else steal_from is r s))
      else steal_from is r s)"

text \<open>The other harts in turn.\<close>

fun steal_search :: "nat list \<Rightarrow> kstate \<Rightarrow> (u64 \<times> kstate) outcome" where
  "steal_search [] s = Ret (0, s)"
| "steal_search (core # cores) s =
     (let r = closet_rq s core in
      if r = 0 \<or> r = tp s \<or> \<not> process_count (rqs s r) > 1 then steal_search cores s
      else
        bindO (acquire (RqLock r) s) (\<lambda>s.
        bindO (steal_from [0..<31] r s) (\<lambda>(target, s).
        let s = release (RqLock r) s in
        if target \<noteq> 0 then Ret (target, s) else steal_search cores s)))"

definition steal_process :: "kstate \<Rightarrow> (bool \<times> kstate) outcome" where
  "steal_process s =
     bindO (steal_search [0..<hart s] s) (\<lambda>(target, s).
     if target \<noteq> 0 then
       bindO (acquire (RqLock (tp s)) s) (\<lambda>s.
       let s = rq_insert (tp s) target s
       in Ret (True, release (RqLock (tp s)) s))
     else Ret (False, s))"

end
