(* ===== verification/Lifecycle.thy ===== *)
theory Lifecycle
  imports Sched
begin

text \<open>
  The life of a process in \<open>kernel/scheduler.c\<close>: \<open>scheduler_init\<close>, \<open>spawn_process\<close> with the
  allocation of process ids and the loading of the program image, \<open>exit_process\<close>,
  \<open>wait_process\<close> and \<open>orphan_cleaner\<close>. Argument \<open>ca\<close> stands for the callers the allocators
  record.
\<close>

section \<open>Linker symbols of the code\<close>

record entry_points =
  process_bootstrap :: u64
  strap_entry :: u64
  oxomoco_entry :: u64
  idle_entry :: u64
  stack_top :: u64

abbreviation (input) sizeof_process :: u64 where "sizeof_process \<equiv> 512"
abbreviation (input) sizeof_trapframe :: u64 where "sizeof_trapframe \<equiv> 312"
abbreviation (input) sizeof_runqueue :: u64 where "sizeof_runqueue \<equiv> 312"

section \<open>Process ids\<close>

text \<open>The registry is one page of bits; the loops index it with \<open>unsigned int\<close>s.\<close>

definition pid_idx :: "u64 \<Rightarrow> u32" where "pid_idx n = ucast (n div 64)"
definition pid_offset :: "u64 \<Rightarrow> nat" where "pid_offset n = unat (n mod 64)"

definition registry_cell :: "u32 \<Rightarrow> kstate \<Rightarrow> u64" where
  "registry_cell idx s = pid_registry s + 8 * ucast idx"

definition pid_used :: "u32 \<Rightarrow> nat \<Rightarrow> kstate \<Rightarrow> bool" where
  "pid_used idx offset s \<longleftrightarrow> load s (registry_cell idx s) AND shl1 offset \<noteq> 0"

definition take_pid :: "u32 \<Rightarrow> nat \<Rightarrow> kstate \<Rightarrow> (u64 \<times> kstate) outcome" where
  "take_pid idx offset s =
     (let n = next_pid s;
          s = store (registry_cell idx s) (load s (registry_cell idx s) OR shl1 offset) s in
      bindO (acquire AliveLock s) (\<lambda>s.
      let s = s\<lparr>alive_thread_counter := alive_thread_counter s + 1\<rparr>;
          s = release AliveLock s
      in Ret (n, s\<lparr>next_pid := next_pid s + 1\<rparr>)))"

text \<open>
  The search for a free bit. When \<open>next_pid\<close> passes the end it restarts at 1, but the index
  and the offset keep naming the bit after the last one.
\<close>

fun pid_scan :: "nat \<Rightarrow> u32 \<Rightarrow> nat \<Rightarrow> kstate \<Rightarrow> (u32 \<times> nat \<times> kstate) outcome" where
  "pid_scan 0 idx offset s = (if pid_used idx offset s then Hang else Ret (idx, offset, s))"
| "pid_scan (Suc n) idx offset s =
     (if pid_used idx offset s then
        (let s = s\<lparr>next_pid := next_pid s + 1\<rparr>;
             idx = pid_idx (next_pid s);
             offset = pid_offset (next_pid s);
             s = (if next_pid s \<ge> PID_MAX then s\<lparr>next_pid := 1\<rparr> else s)
         in pid_scan n idx offset s)
      else Ret (idx, offset, s))"

text \<open>Once around all ids, and the one bit past them.\<close>

definition pid_fuel :: nat where
  "pid_fuel = 65536"

definition alloc_pid :: "kstate \<Rightarrow> (u64 \<times> kstate) outcome" where
  "alloc_pid s =
     (let idx = pid_idx (next_pid s); offset = pid_offset (next_pid s) in
      bindO (acquire PidLock s) (\<lambda>s.
      bindO
        (if next_pid s < PID_MAX \<and> \<not> pid_used idx offset s then take_pid idx offset s
         else
           let s = (if next_pid s \<ge> PID_MAX then s\<lparr>next_pid := 1\<rparr> else s) in
           bindO (pid_scan pid_fuel idx offset s) (\<lambda>(idx, offset, s). take_pid idx offset s))
        (\<lambda>(n, s). Ret (n, release PidLock s))))"

text \<open>\<open>pid_registry[pid / 64] &= ~(1UL << (pid % 64))\<close> under its lock.\<close>

definition free_pid :: "u64 \<Rightarrow> kstate \<Rightarrow> kstate outcome" where
  "free_pid n s =
     (let idx = pid_idx n; offset = pid_offset n in
      bindO (acquire PidLock s) (\<lambda>s.
      let s = store (registry_cell idx s) (load s (registry_cell idx s) AND NOT (shl1 offset)) s
      in Ret (release PidLock s)))"

section \<open>Capabilities\<close>

text \<open>
  Four bits for each process id, sixteen ids to a cell of \<open>capability_root\<close>. The index is an
  \<open>unsigned int\<close>; the table has 2048 cells, enough for the ids below \<open>PID_MAX\<close>.
\<close>

definition cap_cell :: "u64 \<Rightarrow> u64 \<Rightarrow> kstate \<Rightarrow> u64" where
  "cap_cell p n s = capability_root (procs s p) + 8 * ucast (ucast (n div 16) :: u32)"

definition cap_shift :: "u64 \<Rightarrow> nat" where
  "cap_shift n = unat (n mod 16 * 4)"

definition add_caps :: "u64 \<Rightarrow> u64 \<Rightarrow> u64 \<Rightarrow> kstate \<Rightarrow> kstate" where
  "add_caps p n rights s =
     store (cap_cell p n s) (load s (cap_cell p n s) OR push_bit (cap_shift n) rights) s"

text \<open>Clearing the 2048 cells of a new table.\<close>

definition clear_caps :: "u64 \<Rightarrow> kstate \<Rightarrow> kstate" where
  "clear_caps root s = s\<lparr>mem := zero64 2048 root (mem s)\<rparr>"

section \<open>Loading a program\<close>

text \<open>\<open>4096 << order\<close> is computed as a 32-bit \<open>int\<close> and then extended with its sign.\<close>

definition shl_int :: "nat \<Rightarrow> u64" where
  "shl_int ord = scast (push_bit ord 4096 :: u32)"

fun elf_order :: "nat \<Rightarrow> nat \<Rightarrow> u64 \<Rightarrow> nat outcome" where
  "elf_order 0 ord mem_size = (if mem_size > shl_int ord then Hang else Ret ord)"
| "elf_order (Suc n) ord mem_size =
     (if mem_size > shl_int ord then elf_order n (Suc ord) mem_size else Ret ord)"

definition elf_perm :: "u32 \<Rightarrow> u32" where
  "elf_perm p_flags =
     (let perm = (if p_flags AND 1 \<noteq> 0 \<and> p_flags AND 2 = 0 then 8
                  else if p_flags AND 2 \<noteq> 0 then 4 else 0)
      in if p_flags AND 4 \<noteq> 0 then perm + 2 else perm)"

text \<open>One program header at address \<open>ph\<close>: a loadable segment gets a block of its own.\<close>

definition load_segment :: "u64 \<Rightarrow> u64 \<Rightarrow> u64 \<Rightarrow> u64 \<Rightarrow> kstate \<Rightarrow> kstate outcome" where
  "load_segment ca user_table binary ph s =
     (let m = mem s in
      if ld32 m ph = 1 then
        (let p_flags = ld32 m (ph + 4); p_offset = ld64 m (ph + 8); p_vaddr = ld64 m (ph + 16);
             file_size = ld64 m (ph + 32); mem_size = ld64 m (ph + 40) in
         bindO (elf_order 32 0 mem_size) (\<lambda>ord.
         bindO (kalloc ord ca s) (\<lambda>(buff, s).
         let s = s\<lparr>mem := copy_bytes (unat file_size) buff (binary + p_offset) (mem s)\<rparr>;
             s = s\<lparr>mem := fill_bytes (if file_size < mem_size then unat (mem_size - file_size) else 0)
                    (buff + file_size) (mem s)\<rparr>
         in uvm_map ca user_table p_vaddr buff (shl_int ord) (elf_perm p_flags) s)))
      else Ret s)"

text \<open>The magic number, then the headers in turn.\<close>

definition elf_magic :: "memory \<Rightarrow> u64 \<Rightarrow> bool" where
  "elf_magic m binary \<longleftrightarrow>
     m binary = 0x7F \<and> m (binary + 1) = 0x45 \<and> m (binary + 2) = 0x4C \<and> m (binary + 3) = 0x46"

definition load_elf :: "u64 \<Rightarrow> u64 \<Rightarrow> u64 \<Rightarrow> kstate \<Rightarrow> kstate outcome" where
  "load_elf ca user_table binary s =
     (let e_phoff = ld64 (mem s) (binary + 32);
          e_phentsize = ld16 (mem s) (binary + 54);
          e_phnum = ld16 (mem s) (binary + 56)
      in forO [0..<unat e_phnum]
           (\<lambda>i. load_segment ca user_table binary (binary + e_phoff + of_nat i * ucast e_phentsize)) s)"

section \<open>Spawning\<close>

definition zero_trapframe :: trapframe where
  "zero_trapframe = \<lparr>u_context = (\<lambda>_. 0), epc = 0, sstatus = 0, kernel_satp = 0, kernel_sp = 0,
     kernel_trap = 0, user_satp = 0, kernel_tp = 0\<rparr>"

definition make_satp :: "u64 \<Rightarrow> u64" where
  "make_satp root = 0x8000000000000000 OR drop_bit 12 root"

text \<open>The name is cut after 23 characters and terminated.\<close>

definition set_name :: "u8 list \<Rightarrow> process \<Rightarrow> process" where
  "set_name name p = (let len = min (length name) 23 in
     p\<lparr>p_name := take len name @ 0 # drop (Suc len) (p_name p)\<rparr>)"

text \<open>The fields set before the address space exists.\<close>

definition spawn_frame :: "entry_points \<Rightarrow> u64 \<Rightarrow> u64 \<Rightarrow> u8 list \<Rightarrow> u64 \<Rightarrow> kstate \<Rightarrow> kstate" where
  "spawn_frame ep p stack name sstatus_val s =
     (let base = stack + 4096 - sizeof_trapframe;
          s = upd_proc p (\<lambda>x. x\<lparr>kstack := stack, p_tf := base,
                p_context := (p_context x)(1 := base, 0 := process_bootstrap ep)\<rparr>) s;
          s = upd_proc p (set_name name) s
      in upd_tf base (\<lambda>_. zero_trapframe\<lparr>sstatus := sstatus_val,
           kernel_satp := make_satp (root_table s), kernel_trap := strap_entry ep,
           kernel_sp := base, kernel_tp := tp s\<rparr>) s)"

text \<open>The rights a new process and its neighbours get.\<close>

definition spawn_caps :: "u64 \<Rightarrow> kstate \<Rightarrow> kstate" where
  "spawn_caps p s =
     (let n = pid (procs s p);
          s = store (capability_root (procs s p)) (load s (capability_root (procs s p)) OR push_bit 4 3) s;
          s = add_caps (curr s) n 7 s;
          s = (if shell_ptr s \<noteq> 0 \<and> n \<noteq> 1 then add_caps (shell_ptr s) n 15 s else s)
      in add_caps p n 1 s)"

definition spawn_process ::
  "u64 \<Rightarrow> layout \<Rightarrow> entry_points \<Rightarrow> u64 \<Rightarrow> u8 list \<Rightarrow> u64 \<Rightarrow> u32 \<Rightarrow> kstate \<Rightarrow> (u64 \<times> kstate) outcome" where
  "spawn_process ca ly ep binary name sstatus_val prio s =
     bindO (kvmalloc ca sizeof_process s) (\<lambda>(p, s).
     if p = 0 then Ret (0, s)
     else if alive_thread_counter s \<ge> PID_MAX then Ret (0, s)
     else
       bindO (alloc_pid s) (\<lambda>(n, s).
       let s = upd_proc p (\<lambda>x. x\<lparr>pid := n, p_state := 0,
             p_context := (\<lambda>i. if i < 14 then 0 else p_context x i)\<rparr>) s in
       bindO (kalloc 0 ca s) (\<lambda>(stack, s).
       if stack = 0 then Ret (0, s)
       else
         let s = spawn_frame ep p stack name sstatus_val s in
         bindO (create_user_table ca ly stack s) (\<lambda>(user_table, s).
         let s = upd_proc p (\<lambda>x. x\<lparr>p_satp := make_satp user_table\<rparr>) s;
             s = upd_tf (p_tf (procs s p)) (\<lambda>t. t\<lparr>user_satp := make_satp user_table\<rparr>) s;
             s = upd_proc p (\<lambda>x. x\<lparr>magic := PROCESS_MAGIC\<rparr>) s in
         if \<not> elf_magic (mem s) binary then Panic 116 (pid (procs s p))
         else
           bindO (load_elf ca user_table binary s) (\<lambda>s.
           let s = upd_tf (p_tf (procs s p)) (\<lambda>t. t\<lparr>epc := ld64 (mem s) (binary + 24)\<rparr>) s in
           bindO (kalloc 0 ca s) (\<lambda>(ustack, s).
           let s = s\<lparr>mem := zero64 512 ustack (mem s)\<rparr> in
           bindO (uvm_map ca user_table 0x7FFFF000 ustack 4096 6 s) (\<lambda>s.
           let s = upd_tf (p_tf (procs s p)) (\<lambda>t. t\<lparr>u_context := (u_context t)(2 := 0x80000000)\<rparr>) s;
               s = upd_proc p (\<lambda>x. x\<lparr>parent_pid := (if curr s \<noteq> 0 then pid (procs s (curr s)) else 0),
                     mailbox_status := 0\<rparr>) s in
           bindO (kalloc 2 ca s) (\<lambda>(caps, s).
           let s = upd_proc p (\<lambda>x. x\<lparr>capability_root := caps\<rparr>) s;
               s = clear_caps caps s;
               s = spawn_caps p s;
               s = upd_proc p (\<lambda>x. x\<lparr>active_grant := 0,
                     grant_whitelist := (\<lambda>i. if i < 8 then 0 else grant_whitelist x i),
                     priority := unat prio, time_slice := push_bit 2 prio + 4,
                     ticks_left := push_bit 2 prio + 4, cpu_time := 0\<rparr>) s in
           bindO (acquire (RqLock (tp s)) s) (\<lambda>s.
           let s = rq_link (tp s) p s;
               s = upd_rq (tp s) (\<lambda>x. x\<lparr>process_count := process_count x + 1\<rparr>) s
           in Ret (p, release (RqLock (tp s)) s))))))))))"

section \<open>The idle process of the boot hart\<close>

definition scheduler_init :: "u64 \<Rightarrow> entry_points \<Rightarrow> kstate \<Rightarrow> kstate outcome" where
  "scheduler_init ca ep s =
     bindO (kvmalloc ca sizeof_process s) (\<lambda>(p, s).
     let s = upd_rq (tp s) (\<lambda>x. x\<lparr>curr_process := p\<rparr>) s;
         s = upd_proc p (\<lambda>x. x\<lparr>pid := 0\<rparr>) s in
     bindO (acquire AliveLock s) (\<lambda>s.
     let s = s\<lparr>alive_thread_counter := alive_thread_counter s + 1\<rparr>;
         s = release AliveLock s;
         s = upd_proc p (\<lambda>x. set_name [0x6F, 0x78, 0x6F, 0x6D, 0x6F, 0x63, 0x6F]
               (x\<lparr>p_state := 1\<rparr>)) s;
         s = upd_proc p (\<lambda>x. x\<lparr>p_satp := root_table s\<rparr>) s in
     bindO (kalloc 2 ca s) (\<lambda>(caps, s).
     let s = upd_proc p (\<lambda>x. x\<lparr>capability_root := caps\<rparr>) s;
         s = clear_caps caps s;
         s = upd_proc p (\<lambda>x. x\<lparr>p_tf := 0, magic := PROCESS_MAGIC,
               p_context := (p_context x)(0 := oxomoco_entry ep, 1 := stack_top ep),
               p_next := p, p_prev := p, priority := 31\<rparr>) s;
         s = set_circle (tp s) 31 p s;
         s = upd_rq (tp s) (\<lambda>x. x\<lparr>lookup_bitmap := lookup_bitmap x OR shl1 31\<rparr>) s;
         s = upd_proc p (\<lambda>x. x\<lparr>time_slice := 128, ticks_left := 128, cpu_time := 0\<rparr>) s;
         s = upd_rq (tp s) (\<lambda>x. x\<lparr>idle_process := p\<rparr>) s in
     bindO (kalloc 0 ca s) (\<lambda>(registry, s).
     let s = s\<lparr>pid_registry := registry\<rparr>;
         s = s\<lparr>mem := zero64 512 registry (mem s)\<rparr>;
         s = store registry (load s registry OR 1) s;
         s = upd_rq (tp s) (\<lambda>x. x\<lparr>process_count := 1\<rparr>) s
     in Ret (s\<lparr>sscratch := p_tf (procs s p)\<rparr>)))))"

section \<open>Exit\<close>

text \<open>A child of the exiting process is given to the idle process.\<close>

definition orphan :: "u64 \<Rightarrow> kstate \<Rightarrow> kstate" where
  "orphan ptr s =
     (if parent_pid (procs s ptr) = pid (procs s (curr s))
      then upd_proc ptr (\<lambda>x. x\<lparr>parent_pid := 0\<rparr>) s else s)"

text \<open>
  The circles of one hart. The lock is that of hart \<open>j\<close>, but the bitmap and the circles are
  those of the running hart's queue.
\<close>

definition orphan_circles :: "nat \<Rightarrow> kstate \<Rightarrow> kstate outcome" where
  "orphan_circles j s =
     (if closet_rq s j = 0 then Ret s
      else
        bindO (acquire (RqLock (closet_rq s j)) s) (\<lambda>s.
        bindO (forO [0..<32] (\<lambda>i s.
            if lookup_bitmap (rqs s (tp s)) AND shl1 i \<noteq> 0
            then each_circle walk_fuel orphan (circles (rqs s (tp s)) i) (circles (rqs s (tp s)) i) s
            else Ret s) s) (\<lambda>s.
        Ret (release (RqLock (closet_rq s j)) s))))"

definition orphan_list :: "wlist \<Rightarrow> kstate \<Rightarrow> kstate outcome" where
  "orphan_list w s =
     bindO (acquire (ListLock w) s) (\<lambda>s.
     bindO (each_list walk_fuel (\<lambda>ptr s. Ret (orphan ptr s)) (lists s w) s) (\<lambda>s.
     Ret (release (ListLock w) s)))"

definition exit_process :: "u64 \<Rightarrow> kstate \<Rightarrow> kstate outcome" where
  "exit_process code s =
     bindO (acquire (ListLock Zombie) s) (\<lambda>s.
     bindO (acquire (RqLock (tp s)) s) (\<lambda>s.
     bindO (block_guard (curr s) s) (\<lambda>s.
     let s = rq_remove (tp s) (curr s) s;
         s = release (RqLock (tp s)) s;
         s = list_push Zombie (curr s) s;
         s = upd_proc (curr s) (\<lambda>x. x\<lparr>p_state := 3, exit_code := code\<rparr>) s;
         s = release (ListLock Zombie) s in
     bindO (forO [0..<hart s] orphan_circles s) (\<lambda>s.
     bindO (forO [Blocked, Zombie, Sleeping, BlockedIpc, BlockedIpcSend] orphan_list s) (\<lambda>s.
     Ret (trigger_software_interrupt s))))))"

section \<open>Reaping\<close>

text \<open>The first process of a list with a given parent; 0 when there is none.\<close>

fun find_child :: "nat \<Rightarrow> u64 \<Rightarrow> u64 \<Rightarrow> kstate \<Rightarrow> u64 outcome" where
  "find_child 0 parent ptr s = (if ptr = 0 then Ret 0 else Hang)"
| "find_child (Suc n) parent ptr s =
     (if ptr \<noteq> 0 \<and> parent_pid (procs s ptr) \<noteq> parent then find_child n parent (p_next (procs s ptr)) s
      else Ret ptr)"

text \<open>What both reapers do with a process that is off the zombie list.\<close>

definition reap :: "u64 \<Rightarrow> kstate \<Rightarrow> kstate outcome" where
  "reap p s =
     bindO (acquire AliveLock s) (\<lambda>s.
     let s = s\<lparr>alive_thread_counter := alive_thread_counter s - 1\<rparr>;
         s = release AliveLock s in
     bindO (free_pid (pid (procs s p)) s) (\<lambda>s.
     bindO (uvm_free (p_satp (procs s p)) s) (\<lambda>s.
     bindO (kfree (kstack (procs s p)) s) (\<lambda>s.
     bindO (kfree (capability_root (procs s p)) s) (\<lambda>s.
     kvmfree p s)))))"

definition wait_process :: "kstate \<Rightarrow> (u64 \<times> kstate) outcome" where
  "wait_process s =
     bindO (acquire (ListLock Zombie) s) (\<lambda>s.
     let s = s\<lparr>ssie := False\<rparr> in
     bindO (find_child walk_fuel (pid (procs s (curr s))) (lists s Zombie) s) (\<lambda>header.
     if header = 0 then Ret (- 1, release (ListLock Zombie) (s\<lparr>ssie := True\<rparr>))
     else
       let s = list_unlink Zombie header s; code = exit_code (procs s header) in
       bindO (reap header s) (\<lambda>s.
       Ret (code, release (ListLock Zombie) (s\<lparr>ssie := True\<rparr>)))))"

text \<open>
  The cleaner unlinks like \<open>list_unlink\<close>, except that it writes the successor's \<open>prev\<close>, at
  offset 488, without asking whether there is a successor.
\<close>

definition unlink_unchecked :: "u64 \<Rightarrow> kstate \<Rightarrow> kstate outcome" where
  "unlink_unchecked ptr s =
     (if ptr = lists s Zombie then Ret (list_unlink Zombie ptr s)
      else if p_next (procs s ptr) = 0 then Fault 488
      else Ret (list_unlink Zombie ptr s))"

definition clean_orphan :: "u64 \<Rightarrow> kstate \<Rightarrow> kstate outcome" where
  "clean_orphan ptr s =
     (if parent_pid (procs s ptr) = 0 then bindO (unlink_unchecked ptr s) (reap ptr) else Ret s)"

definition orphan_cleaner :: "kstate \<Rightarrow> kstate outcome" where
  "orphan_cleaner s =
     bindO (acquire (ListLock Zombie) s) (\<lambda>s.
     bindO (each_list walk_fuel clean_orphan (lists s Zombie) s) (\<lambda>s.
     Ret (release (ListLock Zombie) s)))"

end
