(* ===== verification/ElfLoad.thy ===== *)
theory ElfLoad
  imports Beside Lifecycle
begin

text \<open>
  One segment of a program image: \<open>load_segment\<close> gives it a block of its own, copies the file's bytes, clears
  the rest and maps the block. The lemmas say what the copying loops write, that page tables do not
  depend on memory outside their pages, and what the whole step does to memory and to the translations.
\<close>

section \<open>Copying\<close>

lemma unat_add_small: "unat a + n < 2 ^ 64 \<Longrightarrow> unat (a + of_nat n :: u64) = unat a + n"
proof -
  assume a: "unat a + n < 2 ^ 64"
  then have n: "unat (of_nat n :: u64) = n" by (simp add: unat_of_nat)
  then have "unat a + unat (of_nat n :: u64) < 2 ^ LENGTH(64)" using a by simp
  then show ?thesis using n by (simp only: unat_add_lem [THEN iffD1])
qed

lemma fill_bytes_ok:
  "unat dst + n \<le> 2 ^ 64 \<Longrightarrow>
   fill_bytes n dst m b = (if unat dst \<le> unat b \<and> unat b < unat dst + n then 0 else m b)"
proof (induction n arbitrary: dst m)
  case (Suc n)
  show ?case
  proof (cases n)
    case 0
    then show ?thesis by (auto simp: word_unat_eq_iff)
  next
    case (Suc k)
    then have d: "unat (dst + 1) = unat dst + 1" using Suc.prems unat_add_small [of dst 1] by simp
    then have ih: "fill_bytes n (dst + 1) (m(dst := 0)) b =
        (if unat dst + 1 \<le> unat b \<and> unat b < unat dst + 1 + n then 0 else (m(dst := 0)) b)"
      using Suc.IH [of "dst + 1" "m(dst := 0)"] Suc.prems d by (simp del: fun_upd_apply)
    show ?thesis unfolding fill_bytes.simps ih by (cases "b = dst") (auto simp: word_unat_eq_iff)
  qed
qed auto

text \<open>Source bytes are addressed by offsets, so the source may wrap around; it must not meet the target.\<close>

lemma copy_bytes_ok:
  assumes "unat dst + n \<le> 2 ^ 64"
    and "\<And>k. k < n \<Longrightarrow> \<not> (unat dst \<le> unat (src + of_nat k) \<and> unat (src + of_nat k) < unat dst + n)"
  shows "copy_bytes n dst src m b =
    (if unat dst \<le> unat b \<and> unat b < unat dst + n then m (src + (b - dst)) else m b)"
  using assms
proof (induction n arbitrary: dst src m)
  case (Suc n)
  let ?m = "m(dst := m src)"
  show ?case
  proof (cases n)
    case 0
    have "unat dst \<le> unat b \<and> unat b < unat dst + 1 \<longleftrightarrow> b = dst" by (auto simp: word_unat_eq_iff)
    then show ?thesis using 0 by (cases "b = dst") auto
  next
    case (Suc k)
    then have d: "unat (dst + 1) = unat dst + 1" using Suc.prems unat_add_small [of dst 1] by simp
    have s: "\<not> (unat (dst + 1) \<le> unat (src + 1 + of_nat j) \<and> unat (src + 1 + of_nat j) < unat (dst + 1) + n)"
      if "j < n" for j
      using Suc.prems(2) [of "Suc j"] that d by (simp add: algebra_simps)
    have ih: "copy_bytes n (dst + 1) (src + 1) ?m b =
        (if unat dst + 1 \<le> unat b \<and> unat b < unat dst + 1 + n then ?m (src + 1 + (b - (dst + 1))) else ?m b)"
      using Suc.IH [of "dst + 1" "src + 1" ?m] Suc.prems(1) s d by (simp del: fun_upd_apply)
    have e: "src + 1 + (b - (dst + 1)) = src + (b - dst)" by (simp add: algebra_simps)
    have "src + (b - dst) \<noteq> dst" if "unat dst + 1 \<le> unat b" "unat b < unat dst + 1 + n"
    proof
      assume h: "src + (b - dst) = dst"
      have le: "dst \<le> b" using that by (simp add: word_le_nat_alt)
      then have "unat (b - dst) = unat b - unat dst" by (rule unat_sub)
      then have "unat (b - dst) < Suc n" using that by simp
      moreover have "of_nat (unat (b - dst)) = b - dst" by simp
      ultimately show False using Suc.prems(2) [of "unat (b - dst)"] h by simp
    qed
    moreover have "b \<noteq> dst \<Longrightarrow> unat b \<noteq> unat dst" by (simp add: word_unat_eq_iff)
    ultimately show ?thesis unfolding copy_bytes.simps ih e by (cases "b = dst") auto
  qed
qed auto

section \<open>Tables and the rest of memory\<close>

lemma cell_byte:
  assumes "page_base u" "i < 512" "k < 8"
  shows "page_down (cell u i + of_nat k) = u"
proof -
  have i: "unat i < 512" using assms(2) by (simp add: word_less_nat_alt)
  have c: "unat (cell u i) = unat u + 8 * unat i" by (rule unat_cell [OF assms(1,2)])
  have "unat (cell u i) + k < 2 ^ 64" using page_base_bound [OF assms(1)] c i assms(3) by simp
  then have "unat (cell u i + of_nat k) = unat u + 8 * unat i + k" using c by (simp add: unat_add_small)
  then show ?thesis using i assms(3) by (intro page_down_unique [OF assms(1)]) simp_all
qed

lemma tree_same:
  assumes "tree m root N" and "\<And>b. page_down b \<in> N \<Longrightarrow> m' b = m b"
  shows "p \<in> paths \<Longrightarrow> tbl m' root p = tbl m root p"
    and "p \<in> paths \<Longrightarrow> i < 512 \<Longrightarrow> entry m' root p i = entry m root p i"
    and "tree m' root N" and "walk 2 m' root va = walk 2 m root va" and "xlate m' root va = xlate m root va"
proof -
  have c: "ld64 m' (cell u i) = ld64 m (cell u i)" if "p \<in> paths" "tbl m root p = Some u" "i < 512" for p u i
  proof (rule ld64_cong)
    fix k :: nat assume "k < 8"
    then show "m' (cell u i + of_nat k) = m (cell u i + of_nat k)"
      using treeD(1,2) [OF assms(1) that(1,2)] cell_byte [of u i k] that(3) assms(2) by simp
  qed
  have t: "tbl m' root p = tbl m root p" if "p \<in> paths" for p
    using that
  proof (induction p rule: rev_induct)
    case (snoc i p)
    then have p: "p \<in> paths" "i < 512" by (simp_all add: paths_snoc)
    then show ?case using snoc.IH c [OF p(1) _ p(2)] by (cases "tbl m root p") (simp_all add: tbl_snoc)
  qed simp
  show "p \<in> paths \<Longrightarrow> tbl m' root p = tbl m root p" by (rule t)
  have e: "entry m' root p i = entry m root p i" if "p \<in> paths" "i < 512" for p i
    using t [OF that(1)] c [OF that(1) _ that(2)] by (cases "tbl m root p") (simp_all add: entry_def)
  then show "p \<in> paths \<Longrightarrow> i < 512 \<Longrightarrow> entry m' root p i = entry m root p i" by blast
  show "tree m' root N" using assms(1) t c unfolding tree_def by auto
  show w: "walk 2 m' root va = walk 2 m root va" for va
  proof -
    have "entry m' root [] (vpn 2 va) = entry m root [] (vpn 2 va)"
      "entry m' root [vpn 2 va] (vpn 1 va) = entry m root [vpn 2 va] (vpn 1 va)"
      "entry m' root [vpn 2 va, vpn 1 va] (vpn 0 va) = entry m root [vpn 2 va, vpn 1 va] (vpn 0 va)"
      by (simp_all add: e vpn_less)
    show ?thesis unfolding walk_entry \<open>entry m' root [] (vpn 2 va) = entry m root [] (vpn 2 va)\<close>
      \<open>entry m' root [vpn 2 va] (vpn 1 va) = entry m root [vpn 2 va] (vpn 1 va)\<close>
      \<open>entry m' root [vpn 2 va, vpn 1 va] (vpn 0 va) = entry m root [vpn 2 va, vpn 1 va] (vpn 0 va)\<close> ..
  qed
  show "xlate m' root va = xlate m root va" by (simp add: xlate_def w)
qed

section \<open>The order of a segment\<close>

lemma shl_int_small: "k \<le> 11 \<Longrightarrow> shl_int k = of_nat (4096 * 2 ^ k)"
proof -
  assume "k \<le> 11"
  then have "k = 0 \<or> k = 1 \<or> k = 2 \<or> k = 3 \<or> k = 4 \<or> k = 5 \<or> k = 6 \<or> k = 7 \<or> k = 8 \<or> k = 9 \<or> k = 10 \<or> k = 11"
    by arith
  then show ?thesis by (auto simp: shl_int_def push_bit_eq_mult)
qed

lemma unat_shl_int: "k \<le> 11 \<Longrightarrow> unat (shl_int k) = 4096 * 2 ^ k"
proof -
  assume k: "k \<le> 11"
  have "(2::nat) ^ k \<le> 2 ^ 11" using k by (rule power_increasing) simp
  then show ?thesis using k by (simp add: shl_int_small unat_of_nat del: of_nat_mult of_nat_power)
qed

lemma elf_order_ok:
  assumes "unat sz \<le> 0x800000"
  shows "\<exists>k\<le>11. elf_order 32 0 sz = Ret k \<and> unat sz \<le> 4096 * 2 ^ k"
proof -
  have step: "elf_order (Suc n) k sz = (if 4096 * 2 ^ k < unat sz then elf_order n (Suc k) sz else Ret k)"
    if "k \<le> 11" for n k
    using unat_shl_int [OF that] by (simp add: word_less_nat_alt)
  have "\<exists>j\<le>11. elf_order (Suc n) k sz = Ret j \<and> unat sz \<le> 4096 * 2 ^ j" if "k \<le> 11" "11 - k \<le> n" for n k
    using that
  proof (induction n arbitrary: k)
    case 0
    then have "k = 11" by simp
    then show ?case using step [of 11 0] assms by (intro exI [of _ 11]) simp
  next
    case (Suc n)
    show ?case
    proof (cases "4096 * 2 ^ k < unat sz")
      case True
      then have "k \<noteq> 11" using assms by auto
      then have "Suc k \<le> 11" "11 - Suc k \<le> n" using Suc.prems by simp_all
      then show ?thesis using Suc.IH step [OF Suc.prems(1)] True by simp
    next
      case False
      then show ?thesis using step [OF Suc.prems(1)] Suc.prems(1) by (intro exI [of _ k]) simp
    qed
  qed
  from this [of 0 31] show ?thesis by (simp add: eval_nat_numeral)
qed

section \<open>One segment\<close>

text \<open>The fields of a program header, and the bytes a loadable one occupies in the address space.\<close>

abbreviation (input) ph_flags :: "memory \<Rightarrow> u64 \<Rightarrow> u32" where "ph_flags m ph \<equiv> ld32 m (ph + 4)"
abbreviation (input) ph_offset :: "memory \<Rightarrow> u64 \<Rightarrow> u64" where "ph_offset m ph \<equiv> ld64 m (ph + 8)"
abbreviation (input) ph_vaddr :: "memory \<Rightarrow> u64 \<Rightarrow> u64" where "ph_vaddr m ph \<equiv> ld64 m (ph + 16)"
abbreviation (input) ph_filesz :: "memory \<Rightarrow> u64 \<Rightarrow> u64" where "ph_filesz m ph \<equiv> ld64 m (ph + 32)"
abbreviation (input) ph_memsz :: "memory \<Rightarrow> u64 \<Rightarrow> u64" where "ph_memsz m ph \<equiv> ld64 m (ph + 40)"

definition seg_order :: "memory \<Rightarrow> u64 \<Rightarrow> nat" where
  "seg_order m ph = (case elf_order 32 0 (ph_memsz m ph) of Ret k \<Rightarrow> k | _ \<Rightarrow> 0)"

definition seg_span :: "memory \<Rightarrow> u64 \<Rightarrow> nat" where
  "seg_span m ph = 4096 * 2 ^ seg_order m ph"

text \<open>
  A sound loadable segment: page aligned, at most 8 MiB, no more bytes in the file than in memory, readable, and
  within the lower half of the address space.
\<close>

definition seg_ok :: "memory \<Rightarrow> u64 \<Rightarrow> bool" where
  "seg_ok m ph \<longleftrightarrow> page_base (ph_vaddr m ph) \<and> unat (ph_memsz m ph) \<le> 0x800000 \<and>
     ph_filesz m ph \<le> ph_memsz m ph \<and> ph_flags m ph AND 4 \<noteq> 0 \<and>
     unat (ph_vaddr m ph) + seg_span m ph \<le> 2 ^ 38"

lemma seg_order_ok:
  assumes "unat (ph_memsz m ph) \<le> 0x800000"
  shows "elf_order 32 0 (ph_memsz m ph) = Ret (seg_order m ph)" "seg_order m ph \<le> 11"
    "unat (ph_memsz m ph) \<le> seg_span m ph" "unat (shl_int (seg_order m ph)) = seg_span m ph"
proof -
  obtain k where k: "k \<le> 11" "elf_order 32 0 (ph_memsz m ph) = Ret k" "unat (ph_memsz m ph) \<le> 4096 * 2 ^ k"
    using elf_order_ok [OF assms] by blast
  then have "seg_order m ph = k" by (simp add: seg_order_def)
  then show "elf_order 32 0 (ph_memsz m ph) = Ret (seg_order m ph)" "seg_order m ph \<le> 11"
    "unat (ph_memsz m ph) \<le> seg_span m ph" "unat (shl_int (seg_order m ph)) = seg_span m ph"
    using k unat_shl_int [OF k(1)] by (simp_all add: seg_span_def)
qed

lemma elf_perm_ok: "p AND 4 \<noteq> 0 \<Longrightarrow> perm_ok 0x10 (elf_perm p)"
  by (simp add: perm_ok_def elf_perm_def)

lemma same_kernel_addr: "same_kernel s t \<Longrightarrow> page_addr t = page_addr s \<and> block_range t = block_range s \<and> pool_range t = pool_range s"
  by (auto simp: same_kernel_def page_addr_def block_range_def pool_range_def fun_eq_iff)

text \<open>The bytes of a segment after the copy and the fill.\<close>

lemma segment_bytes:
  assumes sz: "unat fs \<le> n" "unat a + n \<le> 2 ^ 64"
    and apart: "\<And>j. j < unat fs \<Longrightarrow> \<not> (unat a \<le> unat (src + of_nat j) \<and> unat (src + of_nat j) < unat a + unat fs)"
  shows "fill_bytes (n - unat fs) (a + fs) (copy_bytes (unat fs) a src m) b =
    (if unat a \<le> unat b \<and> unat b < unat a + unat fs then m (src + (b - a))
     else if unat a \<le> unat b \<and> unat b < unat a + n then 0 else m b)"
proof -
  have c: "copy_bytes (unat fs) a src m b =
      (if unat a \<le> unat b \<and> unat b < unat a + unat fs then m (src + (b - a)) else m b)"
    by (rule copy_bytes_ok) (use sz apart in simp_all)
  show ?thesis
  proof (cases "unat fs = n")
    case True
    then show ?thesis using c by simp
  next
    case False
    then have lt: "unat fs < n" using sz(1) by simp
    have af: "unat (a + fs) = unat a + unat fs" using unat_add_small [of a "unat fs"] sz(2) lt by simp
    have "fill_bytes (n - unat fs) (a + fs) (copy_bytes (unat fs) a src m) b =
        (if unat a + unat fs \<le> unat b \<and> unat b < unat a + unat fs + (n - unat fs) then 0 else copy_bytes (unat fs) a src m b)"
      using fill_bytes_ok [of "a + fs" "n - unat fs"] af sz(2) lt by simp
    then show ?thesis using c lt by auto
  qed
qed

lemma page_up_shl:
  assumes "k \<le> 11"
  shows "page_up (shl_int k) = shl_int k"
proof -
  note o = unat_shl_int [OF assms]
  have pb: "page_base (shl_int k)" using o by (simp add: page_base_def)
  have "(2::nat) ^ k \<le> 2 ^ 11" using assms by (rule power_increasing) simp
  then have l: "unat (shl_int k) + 0xFFF < 2 ^ 64" using o by simp
  have u: "unat (shl_int k + 0xFFF) = unat (shl_int k) + 0xFFF" using unat_add_small [OF l] by simp
  show ?thesis unfolding page_up_def page_down_def [symmetric]
    by (rule page_down_unique [OF pb]) (use u in simp_all)
qed

lemma load_segment_ok:
  assumes inv: "pt_inv_on (own_beside B U) s root N {}" and ld: "ld32 (mem s) ph = 1" and seg: "seg_ok (mem s) ph"
    and un: "unmapped (mem s) root (ph_vaddr (mem s) ph) (seg_span (mem s) ph)"
    and src: "\<forall>k<unat (ph_filesz (mem s) ph). unat (binary + ph_offset (mem s) ph + of_nat k) \<notin> pool_range s U"
  shows "load_segment ca root binary ph s = Panic 101 0 \<or>
    (\<exists>x. load_segment ca root binary ph s = Panic 107 x \<and> 0x200000 \<le> seg_span (mem s) ph) \<or>
    (\<exists>i t N'. load_segment ca root binary ph s = Ret t \<and> (i, seg_order (mem s) ph) \<notin> B \<and>
       pt_inv_on (own_beside (insert (i, seg_order (mem s) ph) B) U) t root N' {} \<and> N \<subseteq> N' \<and> same_kernel s t \<and>
       unat (page_addr s i) + seg_span (mem s) ph \<le> 2 ^ 64 \<and>
       (\<forall>b. page_down b \<notin> N' \<longrightarrow> unat b \<notin> block_range s (i, seg_order (mem s) ph) \<longrightarrow> mem t b = mem s b) \<and>
       mapped (mem s) (mem t) root (ph_vaddr (mem s) ph) (page_addr s i) (seg_span (mem s) ph)
         (leaf_flags 0x10 (elf_perm (ph_flags (mem s) ph))) \<and>
       (\<forall>k<unat (ph_memsz (mem s) ph). mem t (page_addr s i + of_nat k) =
          (if k < unat (ph_filesz (mem s) ph) then mem s (binary + ph_offset (mem s) ph + of_nat k) else 0)))"
proof -
  let ?m = "mem s"
  let ?ord = "seg_order ?m ph" and ?fs = "unat (ph_filesz ?m ph)" and ?ms = "unat (ph_memsz ?m ph)"
  let ?src = "binary + ph_offset ?m ph" and ?perm = "elf_perm (ph_flags ?m ph)" and ?va = "ph_vaddr ?m ph"
  have sg: "page_base ?va" "?ms \<le> 0x800000" "?fs \<le> ?ms" "ph_flags ?m ph AND 4 \<noteq> 0" "unat ?va + seg_span ?m ph \<le> 2 ^ 38"
    using seg by (simp_all add: seg_ok_def word_le_nat_alt)
  note o = seg_order_ok [OF sg(2)]
  have own: "own_beside B U s N" using inv by (simp add: pt_inv_on_def)
  have tr: "tree ?m root N" using inv by (simp add: pt_inv_on_def)
  have lt: "?ord < MAX_ORDER" using o(2) by simp
  define copied where "copied = (\<lambda>a. fill_bytes (?ms - ?fs) (a + ph_filesz ?m ph) (copy_bytes ?fs a ?src ?m))"
  have fill: "(if ph_filesz ?m ph < ph_memsz ?m ph then unat (ph_memsz ?m ph - ph_filesz ?m ph) else 0) = ?ms - ?fs"
    by (auto simp: unat_sub word_le_nat_alt word_less_nat_alt)
  have run: "load_segment ca root binary ph s = bindO (kalloc ?ord ca s) (\<lambda>(a, t).
      let t = t\<lparr>mem := copy_bytes ?fs a ?src (mem t)\<rparr>;
          t = t\<lparr>mem := fill_bytes (?ms - ?fs) (a + ph_filesz ?m ph) (mem t)\<rparr>
      in uvm_map ca root ?va a (shl_int ?ord) ?perm t)"
    unfolding load_segment_def Let_def fill using ld o(1) by simp
  from own_beside_total [OF own lt, of ca] show ?thesis
  proof (elim disjE exE)
    assume "kalloc ?ord ca s = Panic 101 0"
    then show ?thesis unfolding run by simp
  next
    fix a t assume k: "kalloc ?ord ca s = Ret (a, t)"
    from own_beside_block [OF own k] obtain i where i: "a = page_addr s i" "(i, ?ord) \<notin> B"
      "own_beside (insert (i, ?ord) B) U t N" "same_ram s t" "page_base a" "a \<noteq> 0" "unat a + 4096 * 2 ^ ?ord \<le> 2 ^ 64"
      by blast
    let ?p = "(i, ?ord)"
    define t1 where "t1 = t\<lparr>mem := copied a\<rparr>"
    note e = same_ram_addr [OF i(4)]
    have mt: "mem t = ?m" and vt: "same_kernel s t"
      using e by (simp_all add: outside_pages_vmem same_kernel_def)
    have br: "block_range s ?p = {unat a ..< unat a + seg_span ?m ph}"
      by (simp add: block_range_def i(1) seg_span_def)
    have run2: "load_segment ca root binary ph s = uvm_map ca root ?va a (shl_int ?ord) ?perm t1"
      unfolding run k by (simp add: Let_def mt copied_def t1_def)
    have pool: "unat b \<in> pool_range s U" if b: "unat (b :: u64) \<in> block_range s ?p" for b
    proof -
      obtain L where "heap_ok t L U" "insert ?p B \<subseteq> L" using i(3) by (auto simp: own_beside_def)
      then have "unat b \<in> pool_range t U" using block_in_pool [of t L U ?p b] b e by auto
      then show ?thesis using e by (simp add: pool_range_def)
    qed
    have cp: "copied a b = (if unat a \<le> unat b \<and> unat b < unat a + ?fs then ?m (?src + (b - a))
        else if unat a \<le> unat b \<and> unat b < unat a + ?ms then 0 else ?m b)" for b
      unfolding copied_def
    proof (rule segment_bytes [OF sg(3)])
      show "unat a + ?ms \<le> 2 ^ 64" using i(7) o(3) by (simp add: seg_span_def)
      fix j assume j: "j < ?fs"
      show "\<not> (unat a \<le> unat (?src + of_nat j) \<and> unat (?src + of_nat j) < unat a + ?fs)"
        using src [rule_format, OF j] pool [of "?src + of_nat j"] sg(3) o(3) unfolding br by auto
    qed
    have off: "copied a b = ?m b" if "unat b \<notin> block_range s ?p" for b
      using that sg(3) o(3) unfolding br cp by auto
    have tb: "copied a b = ?m b" if "page_down b \<in> N" for b
    proof (rule off)
      show "unat b \<notin> block_range s ?p"
        using own_beside_apart [OF i(3), of ?p b] that e by auto
    qed
    note same = tree_same [OF tr, of "copied a", OF tb]
    have inv1: "pt_inv_on (own_beside (insert ?p B) U) t1 root N {}"
      using i(3) same(3) by (simp add: pt_inv_on_def t1_def)
    have un1: "unmapped (mem t1) root (page_down ?va) (unat (page_up (shl_int ?ord)))"
      and dn: "page_down ?va = ?va" "page_down a = a" and up: "unat (page_up (shl_int ?ord)) = seg_span ?m ph"
    proof -
      show up: "unat (page_up (shl_int ?ord)) = seg_span ?m ph" using page_up_shl [OF o(2)] o(4) by simp
      show dn: "page_down ?va = ?va" "page_down a = a" using sg(1) i(5) by (simp_all add: page_down_id)
      show "unmapped (mem t1) root (page_down ?va) (unat (page_up (shl_int ?ord)))"
        using un same(4) unfolding unmapped_def dn up t1_def by simp
    qed
    have "unat (page_down ?va) + unat (page_up (shl_int ?ord)) \<le> 2 ^ 39" using sg(5) unfolding dn up by simp
    note M = held.map_range_ok [OF inv1 elf_perm_ok [OF sg(4)] this un1, of a ca]
    have big: "0x200000 \<le> page_up (shl_int ?ord) \<Longrightarrow> 0x200000 \<le> seg_span ?m ph"
      using up by (simp add: word_le_nat_alt)
    from M [unfolded loop_ok_def dn, folded uvm_map_def] show ?thesis
    proof (elim disjE exE conjE)
      fix x assume "uvm_map ca root ?va a (shl_int ?ord) ?perm t1 = Panic 107 x" "0x200000 \<le> page_up (shl_int ?ord)"
      then show ?thesis using big unfolding run2 by blast
    next
      assume "uvm_map ca root ?va a (shl_int ?ord) ?perm t1 = Panic 101 0"
      then show ?thesis unfolding run2 by simp
    next
      fix u N' assume u: "uvm_map ca root ?va a (shl_int ?ord) ?perm t1 = Ret u"
        "pt_inv_on (own_beside (insert ?p B) U) u root N' {}" "pt_grown t1 N u N'"
        "mapped (mem t1) (mem u) root ?va a (unat (page_up (shl_int ?ord))) (leaf_flags 0x10 ?perm)"
      have g: "N \<subseteq> N'" "\<And>b. page_down b \<notin> N' \<Longrightarrow> mem u b = copied a b" and vu: "same_kernel t u"
        using u(3) by (auto simp: pt_grown_def t1_def same_kernel_def)
      have ku: "same_kernel s u" by (rule same_kernel_trans [OF vt vu])
      have own': "own_beside (insert ?p B) U u N'" using u(2) by (simp add: pt_inv_on_def)
      have bu: "block_range u = block_range s" using same_kernel_addr [OF ku] by simp
      have in_blk: "page_down b \<notin> N'" if "unat b \<in> block_range s ?p" for b
        using own_beside_apart [OF own', of ?p b] that by (simp add: bu)
      have "mem u (page_addr s i + of_nat j) = (if j < ?fs then ?m (?src + of_nat j) else 0)" if j: "j < ?ms" for j
      proof -
        have "unat a + j < 2 ^ 64" using i(7) o(3) j by (simp add: seg_span_def)
        then have uj: "unat (a + of_nat j) = unat a + j" by (rule unat_add_small)
        then have "unat (a + of_nat j) \<in> block_range s ?p" using o(3) j unfolding br by simp
        then have "mem u (a + of_nat j) = copied a (a + of_nat j)" using g(2) in_blk by blast
        then show ?thesis unfolding i(1) [symmetric] cp uj using j by simp
      qed
      moreover have "mem u b = ?m b" if "page_down b \<notin> N'" "unat b \<notin> block_range s ?p" for b
        using g(2) [OF that(1)] off [OF that(2)] by simp
      moreover have "mapped ?m (mem u) root ?va (page_addr s i) (seg_span ?m ph) (leaf_flags 0x10 ?perm)"
        using u(4) same(5) unfolding up i(1) mapped_def t1_def by simp
      moreover have "unat (page_addr s i) + seg_span ?m ph \<le> 2 ^ 64" using i(1,7) by (simp add: seg_span_def)
      ultimately show ?thesis unfolding run2 using u(1,2) i(2) g(1) ku
        by (intro disjI2, rule_tac x = i in exI, rule_tac x = u in exI, rule_tac x = N' in exI) blast
    qed
  qed
qed

end
