(* ===== verification/SchedInv.thy ===== *)
theory SchedInv
  imports Sched
begin

text \<open>
  The invariant of the scheduler's lists and what each piece of list surgery does to it. A
  place is one circle of a run queue or one wait list; the ghost function \<open>L\<close> gives the
  processes at every place, in order. At all times every process is at one place at most.
\<close>

section \<open>Fields as functions\<close>

definition nxp :: "kstate \<Rightarrow> u64 \<Rightarrow> u64" where "nxp s = (\<lambda>p. p_next (procs s p))"
definition pvp :: "kstate \<Rightarrow> u64 \<Rightarrow> u64" where "pvp s = (\<lambda>p. p_prev (procs s p))"

lemma proc_links [field_upd]: "p_next (procs s p) = nxp s p" "p_prev (procs s p) = pvp s p"
  by (simp_all add: nxp_def pvp_def)

lemma nxp_upd [field_upd]:
  "nxp (set_next p q s) = (nxp s)(p := q)" "nxp (set_prev p q s) = nxp s"
  "nxp (upd_rq r g s) = nxp s" "nxp (set_list w q s) = nxp s" "nxp (set_circle r i q s) = nxp s"
  "nxp (upd_tf a h s) = nxp s" "nxp (release l s) = nxp s" "nxp (s\<lparr>emergency_process := e\<rparr>) = nxp s"
  "nxp (s\<lparr>ssip := b\<rparr>) = nxp s" "nxp (s\<lparr>locks := k\<rparr>) = nxp s"
  by (auto simp: nxp_def set_next_def set_prev_def upd_proc_def upd_rq_def set_list_def
      set_circle_def upd_tf_def release_def)

lemma pvp_upd [field_upd]:
  "pvp (set_next p q s) = pvp s" "pvp (set_prev p q s) = (pvp s)(p := q)"
  "pvp (upd_rq r g s) = pvp s" "pvp (set_list w q s) = pvp s" "pvp (set_circle r i q s) = pvp s"
  "pvp (upd_tf a h s) = pvp s" "pvp (release l s) = pvp s" "pvp (s\<lparr>emergency_process := e\<rparr>) = pvp s"
  "pvp (s\<lparr>ssip := b\<rparr>) = pvp s" "pvp (s\<lparr>locks := k\<rparr>) = pvp s"
  by (auto simp: pvp_def set_next_def set_prev_def upd_proc_def upd_rq_def set_list_def
      set_circle_def upd_tf_def release_def)

lemma rqs_upd [field_upd]:
  "rqs (set_next p q s) = rqs s" "rqs (set_prev p q s) = rqs s" "rqs (upd_proc p f s) = rqs s"
  "rqs (set_list w q s) = rqs s" "rqs (upd_tf a h s) = rqs s" "rqs (release l s) = rqs s"
  "rqs (upd_rq r g s) = (rqs s)(r := g (rqs s r))"
  "rqs (set_circle r i q s) = (rqs s)(r := (rqs s r)\<lparr>circles := (circles (rqs s r))(i := q)\<rparr>)"
  by (auto simp: set_next_def set_prev_def upd_proc_def upd_rq_def set_list_def
      set_circle_def upd_tf_def release_def)

lemma lists_upd [field_upd]:
  "lists (set_next p q s) = lists s" "lists (set_prev p q s) = lists s" "lists (upd_proc p f s) = lists s"
  "lists (upd_rq r g s) = lists s" "lists (upd_tf a h s) = lists s" "lists (release l s) = lists s"
  "lists (set_circle r i q s) = lists s" "lists (set_list w q s) = (lists s)(w := q)"
  by (auto simp: set_next_def set_prev_def upd_proc_def upd_rq_def set_list_def
      set_circle_def upd_tf_def release_def)

text \<open>Everything else the surgery leaves alone: \<open>data\<close> is a process without its links.\<close>

definition data :: "process \<Rightarrow> process" where
  "data p = p\<lparr>p_next := 0, p_prev := 0\<rparr>"

lemma data_eq_iff:
  "data p = data q \<longleftrightarrow> q = p\<lparr>p_next := p_next q, p_prev := p_prev q\<rparr>"
  by (cases p; cases q) (auto simp: data_def)

lemma data_fields:
  assumes "data p = data q"
  shows "p_context p = p_context q" "p_tf p = p_tf q" "p_satp p = p_satp q" "kstack p = kstack q"
    "pid p = pid q" "parent_pid p = parent_pid q" "p_name p = p_name q" "p_state p = p_state q"
    "priority p = priority q" "time_slice p = time_slice q" "ticks_left p = ticks_left q"
    "cpu_time p = cpu_time q" "capability_root p = capability_root q" "mailbox p = mailbox q"
    "ipc_pending_pid p = ipc_pending_pid q" "mailbox_status p = mailbox_status q"
    "active_grant p = active_grant q" "grant_whitelist p = grant_whitelist q"
    "exit_code p = exit_code q" "magic p = magic q"
  using assms by (cases p; cases q; simp add: data_def)+

definition same_data :: "kstate \<Rightarrow> kstate \<Rightarrow> bool" where
  "same_data s t \<longleftrightarrow> (\<forall>p. data (procs t p) = data (procs s p)) \<and>
     tp t = tp s \<and> hart t = hart s \<and> closet_rq t = closet_rq s \<and> locks t = locks s \<and>
     emergency_process t = emergency_process s \<and> ssip t = ssip s \<and>
     (\<forall>r. curr_process (rqs t r) = curr_process (rqs s r))"

lemma same_data_refl [simp]: "same_data s s"
  by (simp add: same_data_def)

lemma same_data_trans: "same_data s t \<Longrightarrow> same_data t u \<Longrightarrow> same_data s u"
  by (simp add: same_data_def)

lemma same_data_upd [simp]:
  "same_data s (set_next p q t) = same_data s t" "same_data s (set_prev p q t) = same_data s t"
  "same_data s (set_list w q t) = same_data s t" "same_data s (set_circle r i q t) = same_data s t"
  "same_data s (upd_tf a h t) = same_data s t"
  "same_data s (upd_rq r (\<lambda>x. x\<lparr>lookup_bitmap := g x\<rparr>) t) = same_data s t"
  "same_data s (upd_rq r (\<lambda>x. x\<lparr>process_count := n x\<rparr>) t) = same_data s t"
  by (auto simp: same_data_def set_next_def set_prev_def upd_proc_def set_list_def set_circle_def
      upd_tf_def upd_rq_def data_def split: if_splits)

lemma same_data_fields:
  assumes "same_data s t"
  shows "p_state (procs t p) = p_state (procs s p)" "priority (procs t p) = priority (procs s p)"
    "magic (procs t p) = magic (procs s p)" "pid (procs t p) = pid (procs s p)"
    "p_tf (procs t p) = p_tf (procs s p)" "ticks_left (procs t p) = ticks_left (procs s p)"
    "curr_process (rqs t r) = curr_process (rqs s r)" "tp t = tp s" "curr t = curr s"
  using assms by (auto simp: same_data_def curr_def dest: spec [of _ p] intro: data_fields)

section \<open>Places\<close>

datatype place = OnQueue u64 nat | OnList wlist

type_synonym layout_of = "place \<Rightarrow> u64 list"

text \<open>The run queues at the addresses \<open>Q\<close> and the five lists.\<close>

definition places :: "u64 set \<Rightarrow> place set" where
  "places Q = {OnQueue r i | r i. r \<in> Q \<and> i < 32} \<union> range OnList"

lemma places_iff [simp]: "OnQueue r i \<in> places Q \<longleftrightarrow> r \<in> Q \<and> i < 32" "OnList w \<in> places Q"
  by (auto simp: places_def)

text \<open>The links of one place: what its head pointer, its bit and the processes' links say.\<close>

fun linked :: "kstate \<Rightarrow> place \<Rightarrow> u64 list \<Rightarrow> bool" where
  "linked s (OnQueue r i) xs \<longleftrightarrow>
     (bit (lookup_bitmap (rqs s r)) i \<longleftrightarrow> xs \<noteq> []) \<and> 0 \<notin> set xs \<and>
     (xs \<noteq> [] \<longrightarrow> circles (rqs s r) i = hd xs \<and> circ (nxp s) (pvp s) xs)"
| "linked s (OnList w) xs \<longleftrightarrow> dlist 0 (nxp s) (pvp s) (lists s w) xs"

text \<open>The data of a process at a place.\<close>

fun state_code :: "wlist \<Rightarrow> u32" where
  "state_code Blocked = 2"
| "state_code Zombie = 3"
| "state_code Sleeping = 4"
| "state_code BlockedIpc = 5"
| "state_code BlockedIpcSend = 6"

fun fits :: "kstate \<Rightarrow> place \<Rightarrow> u64 \<Rightarrow> bool" where
  "fits s (OnQueue r i) p \<longleftrightarrow> priority (procs s p) = i \<and> magic (procs s p) = PROCESS_MAGIC \<and>
     (p_state (procs s p) = 0 \<or> p_state (procs s p) = 1 \<and> curr_process (rqs s r) = p)"
| "fits s (OnList w) p \<longleftrightarrow> magic (procs s p) = PROCESS_MAGIC \<and> p_state (procs s p) = state_code w \<and>
     priority (procs s p) < 32"

declare fits.simps [simp del]

definition placed :: "kstate \<Rightarrow> u64 set \<Rightarrow> layout_of \<Rightarrow> bool" where
  "placed s Q L \<longleftrightarrow>
     (\<forall>x\<in>places Q. linked s x (L x) \<and> (\<forall>p\<in>set (L x). fits s x p)) \<and>
     (\<forall>x\<in>places Q. \<forall>y\<in>places Q. x \<noteq> y \<longrightarrow> set (L x) \<inter> set (L y) = {})"

definition nowhere :: "u64 set \<Rightarrow> layout_of \<Rightarrow> u64 \<Rightarrow> bool" where
  "nowhere Q L p \<longleftrightarrow> (\<forall>x\<in>places Q. p \<notin> set (L x))"

lemma placedD:
  assumes "placed s Q L" and "x \<in> places Q"
  shows "linked s x (L x)" and "\<And>p. p \<in> set (L x) \<Longrightarrow> fits s x p"
    and "\<And>y. y \<in> places Q \<Longrightarrow> y \<noteq> x \<Longrightarrow> set (L y) \<inter> set (L x) = {}"
  using assms unfolding placed_def by blast+

lemma linked_distinct: "linked s x xs \<Longrightarrow> distinct xs"
  by (cases x) (auto simp: circ_def dest: dlist_distinct)

lemma linked_nonzero: "linked s x xs \<Longrightarrow> 0 \<notin> set xs"
  by (cases x) (auto simp: dlist_def)

text \<open>A place whose processes and head are untouched stays linked.\<close>

fun same_head :: "kstate \<Rightarrow> kstate \<Rightarrow> place \<Rightarrow> bool" where
  "same_head s t (OnQueue r i) \<longleftrightarrow> circles (rqs t r) i = circles (rqs s r) i \<and>
     bit (lookup_bitmap (rqs t r)) i = bit (lookup_bitmap (rqs s r)) i"
| "same_head s t (OnList w) \<longleftrightarrow> lists t w = lists s w"

lemma linked_frame:
  assumes "linked s x xs" and "same_head s t x"
    and "\<And>p. p \<in> set xs \<Longrightarrow> nxp t p = nxp s p" and "\<And>p. p \<in> set xs \<Longrightarrow> pvp t p = pvp s p"
  shows "linked t x xs"
  using assms circ_cong [of xs "nxp t" "nxp s" "pvp t" "pvp s"]
    dlist_cong [of xs "nxp t" "nxp s" "pvp t" "pvp s"]
  by (cases x) auto

lemma fits_same_data: "same_data s t \<Longrightarrow> fits t x p = fits s x p"
  by (cases x) (simp_all add: fits.simps same_data_fields)

section \<open>Leaving a circle\<close>

lemma rq_remove_fields:
  assumes "nxp s p = p \<or> pvp s p \<noteq> p"
  shows "nxp (rq_remove r p s) = (if nxp s p = p then nxp s else (nxp s)(pvp s p := nxp s p))"
    and "pvp (rq_remove r p s) = (if nxp s p = p then pvp s else (pvp s)(nxp s p := pvp s p))"
    and "circles (rqs (rq_remove r p s) r) =
      (if nxp s p = p then (circles (rqs s r))(priority (procs s p) := 0)
       else if p = circles (rqs s r) (priority (procs s p))
       then (circles (rqs s r))(priority (procs s p) := nxp s p) else circles (rqs s r))"
    and "lookup_bitmap (rqs (rq_remove r p s) r) =
      (if nxp s p = p then lookup_bitmap (rqs s r) AND NOT (shl1 (priority (procs s p)))
       else lookup_bitmap (rqs s r))"
    and "process_count (rqs (rq_remove r p s) r) = process_count (rqs s r) - 1"
    and "\<And>r'. r' \<noteq> r \<Longrightarrow> rqs (rq_remove r p s) r' = rqs s r'"
    and "lists (rq_remove r p s) = lists s" and "same_data s (rq_remove r p s)"
  unfolding rq_remove_def Let_def using assms
  by (simp_all add: field_upd)

lemma remove1_split: "distinct (xs @ p # ys) \<Longrightarrow> remove1 p (xs @ p # ys) = xs @ ys"
  by (simp add: remove1_append)

lemma linked_leave:
  assumes l: "linked s (OnQueue r i) xs" and p: "p \<in> set xs" and i: "i = priority (procs s p)" "i < 32"
  shows "linked (rq_remove r p s) (OnQueue r i) (remove1 p xs)"
    and "nxp s p = p \<or> pvp s p \<noteq> p" and "nxp s p \<in> set xs" "pvp s p \<in> set xs"
proof -
  from p obtain as bs where xs: "xs = as @ p # bs" by (metis split_list)
  have c: "circ (nxp s) (pvp s) (as @ p # bs)" and h: "circles (rqs s r) i = hd xs"
    and d: "distinct xs" and b: "bit (lookup_bitmap (rqs s r)) i" and z: "0 \<notin> set xs"
    using l p xs linked_distinct [OF l] by auto
  note f = circ_fields [OF c]
  show np: "nxp s p = p \<or> pvp s p \<noteq> p"
    using f d xs by (cases "as @ bs = []") (auto simp: hd_append split: if_splits)
  show "nxp s p \<in> set xs" unfolding f(1) xs by (cases bs; cases as) auto
  show "pvp s p \<in> set xs" unfolding f(2) xs using last_in_set [of "p # bs @ as"] by auto
  have r: "remove1 p xs = as @ bs" unfolding xs by (rule remove1_split) (use d xs in simp)
  note rf = rq_remove_fields [where r = r, OF np]
  have single: "nxp s p = p \<longleftrightarrow> as @ bs = []"
    using f(1) d xs by (cases bs; cases as) auto
  show "linked (rq_remove r p s) (OnQueue r i) (remove1 p xs)"
  proof (cases "as @ bs = []")
    case True
    then show ?thesis using rf single i z xs by (simp add: bit_and_iff bit_not_iff bit_shl1)
  next
    case False
    then have ns: "nxp s p \<noteq> p" using single by blast
    have "circ (nxp (rq_remove r p s)) (pvp (rq_remove r p s)) (as @ bs)"
      using circ_remove [OF c False] rf(1,2) ns by simp
    moreover have "circles (rqs (rq_remove r p s) r) i = hd (as @ bs)"
    proof (cases as)
      case Nil
      then have "p = hd xs" "nxp s p = hd bs" using f(1) xs False by (auto simp: hd_append)
      then show ?thesis using rf(3) h i ns Nil by simp
    next
      case (Cons a as')
      then have "p \<noteq> hd xs" "hd (as @ bs) = hd xs" using d xs by auto
      then show ?thesis using rf(3) h i ns by simp
    qed
    moreover have "0 \<notin> set (as @ bs)" using z xs by auto
    ultimately show ?thesis using rf(4) b ns False r by simp
  qed
qed

section \<open>One place changes\<close>

lemma placed_step:
  assumes "placed s Q L" and "x \<in> places Q" and "linked t x ys"
    and "\<And>y q. y \<in> places Q \<Longrightarrow> y \<noteq> x \<Longrightarrow> q \<in> set (L y) \<Longrightarrow> nxp t q = nxp s q \<and> pvp t q = pvp s q"
    and "\<And>y. y \<in> places Q \<Longrightarrow> y \<noteq> x \<Longrightarrow> same_head s t y"
    and "\<And>y q. y \<in> places Q \<Longrightarrow> y \<noteq> x \<Longrightarrow> q \<in> set (L y) \<Longrightarrow> fits t y q"
    and "\<And>q. q \<in> set ys \<Longrightarrow> fits t x q"
    and "\<And>q. q \<in> set ys \<Longrightarrow> q \<in> set (L x) \<or> nowhere Q L q"
  shows "placed t Q (L(x := ys))"
  unfolding placed_def
proof (intro conjI ballI impI)
  fix y assume y: "y \<in> places Q"
  show "linked t y ((L(x := ys)) y)"
    using assms(3) linked_frame [OF placedD(1) [OF assms(1) y] assms(5) [OF y]] assms(4) [OF y] by auto
  show "fits t y q" if "q \<in> set ((L(x := ys)) y)" for q
    using that assms(6) [OF y] assms(7) by (cases "y = x") auto
  fix z assume z: "z \<in> places Q" "y \<noteq> z"
  have a: "set ys \<inter> set (L v) = {}" if v: "v \<in> places Q" "v \<noteq> x" for v
    using assms(8) v placedD(3) [OF assms(1,2) v] by (auto simp: nowhere_def)
  have "set (L y) \<inter> set (L z) = {}" using placedD(3) [OF assms(1) z(1) y z(2)] .
  then show "set ((L(x := ys)) y) \<inter> set ((L(x := ys)) z) = {}"
    using a [OF y] a [OF z(1)] z(2) by auto
qed

lemma nowhere_remove:
  assumes "placed s Q L" and "x \<in> places Q" and "p \<in> set (L x)"
  shows "nowhere Q (L(x := remove1 p (L x))) p"
proof -
  have "distinct (L x)" using linked_distinct [OF placedD(1) [OF assms(1,2)]] .
  then show ?thesis using placedD(3) [OF assms(1,2)] assms(3) by (auto simp: nowhere_def)
qed

text \<open>A process leaves its circle.\<close>

lemma placed_leave:
  assumes pl: "placed s Q L" and r: "r \<in> Q" "i < 32" and p: "p \<in> set (L (OnQueue r i))"
  shows "placed (rq_remove r p s) Q (L(OnQueue r i := remove1 p (L (OnQueue r i))))"
    and "same_data s (rq_remove r p s)"
proof -
  let ?x = "OnQueue r i"
  have x: "?x \<in> places Q" using r by simp
  note l = placedD(1) [OF pl x] and f = placedD(2) [OF pl x]
  have i: "i = priority (procs s p)" using f [OF p] by (simp add: fits.simps)
  note lv = linked_leave [OF l p i r(2)]
  note rf = rq_remove_fields [where r = r, OF lv(2)]
  show "same_data s (rq_remove r p s)" by (rule rf(8))
  then have fd: "fits (rq_remove r p s) y q = fits s y q" for y q by (rule fits_same_data)
  show "placed (rq_remove r p s) Q (L(?x := remove1 p (L ?x)))"
  proof (rule placed_step [OF pl x lv(1)])
    fix y q assume y: "y \<in> places Q" "y \<noteq> ?x" "q \<in> set (L y)"
    have "q \<notin> set (L ?x)" using placedD(3) [OF pl x y(1,2)] y(3) by auto
    then show "nxp (rq_remove r p s) q = nxp s q \<and> pvp (rq_remove r p s) q = pvp s q"
      using rf(1,2) lv(3,4) by auto
    show "fits (rq_remove r p s) y q" using fd placedD(2) [OF pl y(1,3)] by simp
  next
    fix y assume y: "y \<in> places Q" "y \<noteq> ?x"
    show "same_head s (rq_remove r p s) y"
    proof (cases y)
      case (OnQueue r' j)
      then show ?thesis using y rf(3,4,6) i
        by (cases "r' = r") (auto simp: bit_and_iff bit_not_iff bit_shl1)
    next
      case (OnList w)
      then show ?thesis using rf(7) by simp
    qed
  next
    fix q assume "q \<in> set (remove1 p (L ?x))"
    then have "q \<in> set (L ?x)" using set_remove1_subset by fast
    then show "fits (rq_remove r p s) ?x q" "q \<in> set (L ?x) \<or> nowhere Q L q"
      unfolding fd using f by blast+
  qed
qed

section \<open>Joining a wait list\<close>

lemma list_push_fields:
  "nxp (list_push w p s) = (nxp s)(p := lists s w)"
  "pvp (list_push w p s) = (if lists s w \<noteq> 0 then (pvp s)(lists s w := p) else pvp s)(p := 0)"
  "lists (list_push w p s) = (lists s)(w := p)" "rqs (list_push w p s) = rqs s"
  "same_data s (list_push w p s)"
  unfolding list_push_def Let_def by (simp_all add: field_upd)

text \<open>Changing the data of a process that is at no place.\<close>

lemma upd_proc_links:
  assumes "\<And>x. p_next (f x) = p_next x" and "\<And>x. p_prev (f x) = p_prev x"
  shows "nxp (upd_proc p f s) = nxp s" "pvp (upd_proc p f s) = pvp s"
  using assms by (auto simp: nxp_def pvp_def upd_proc_def)

lemma fits_upd_proc: "q \<noteq> p \<Longrightarrow> fits (upd_proc p f s) x q = fits s x q"
  by (cases x) (simp_all add: fits.simps upd_proc_def)

lemma placed_push:
  assumes pl: "placed s Q L" and n: "nowhere Q L p" and p: "p \<noteq> 0"
    and f: "\<And>x. p_next (f x) = p_next x" "\<And>x. p_prev (f x) = p_prev x"
    and m: "magic (f (procs s p)) = PROCESS_MAGIC" "p_state (f (procs s p)) = state_code w"
      "priority (f (procs s p)) < 32" "\<And>x y. data x = data y \<Longrightarrow> data (f x) = data (f y)"
  shows "placed (upd_proc p f (list_push w p s)) Q (L(OnList w := p # L (OnList w)))"
proof -
  let ?t = "list_push w p s" and ?u = "upd_proc p f (list_push w p s)"
  note lf = list_push_fields [where w = w and p = p and s = s] and ul = upd_proc_links [OF f, of p ?t]
  have x: "OnList w \<in> places Q" by simp
  have d: "dlist 0 (nxp s) (pvp s) (lists s w) (L (OnList w))" using placedD(1) [OF pl x] by simp
  have np: "p \<notin> set (L y)" if "y \<in> places Q" for y using n that by (simp add: nowhere_def)
  have h: "lists s w \<noteq> 0 \<Longrightarrow> lists s w \<in> set (L (OnList w))" using dlist_nonempty [OF d] by force
  have fo: "q \<noteq> p \<Longrightarrow> fits ?u y q = fits s y q" for y q
    using fits_same_data [OF lf(5)] by (simp add: fits_upd_proc)
  have fp: "fits ?u (OnList w) p"
  proof -
    have "data (procs ?t p) = data (procs s p)" using lf(5) by (simp add: same_data_def)
    then have "data (f (procs ?t p)) = data (f (procs s p))" by (rule m(4))
    note df = data_fields [OF this]
    show ?thesis using m(1-3) df by (simp add: fits.simps upd_proc_def)
  qed
  show ?thesis
  proof (rule placed_step [OF pl x])
    show "linked ?u (OnList w) (p # L (OnList w))"
      using dlist_push [OF d np [OF x] p] lf ul by (simp add: field_upd)
  next
    fix y q assume y: "y \<in> places Q" "y \<noteq> OnList w" "q \<in> set (L y)"
    then have q: "q \<noteq> p" "q \<noteq> lists s w \<or> lists s w = 0"
      using np placedD(3) [OF pl x y(1,2)] h by auto
    show "nxp ?u q = nxp s q \<and> pvp ?u q = pvp s q" using lf ul q by auto
    show "fits ?u y q" using fo q placedD(2) [OF pl y(1,3)] by simp
  next
    fix y assume "y \<in> places Q" "y \<noteq> OnList w"
    then show "same_head s ?u y" using lf by (cases y) (simp_all add: field_upd)
  next
    fix q assume q: "q \<in> set (p # L (OnList w))"
    then show "fits ?u (OnList w) q" using fp fo placedD(2) [OF pl x] by (cases "q = p") auto
    show "q \<in> set (L (OnList w)) \<or> nowhere Q L q" using q n by auto
  qed
qed

section \<open>Leaving a wait list\<close>

lemma list_unlink_fields:
  "nxp (list_unlink w p s) = (if p = lists s w then nxp s else (nxp s)(pvp s p := nxp s p))"
  "pvp (list_unlink w p s) = (if nxp s p \<noteq> 0
     then (pvp s)(nxp s p := if p = lists s w then 0 else pvp s p) else pvp s)"
  "lists (list_unlink w p s) = (if p = lists s w then (lists s)(w := nxp s p) else lists s)"
  "rqs (list_unlink w p s) = rqs s" "same_data s (list_unlink w p s)"
  unfolding list_unlink_def Let_def by (auto simp: field_upd)

lemma linked_unlink:
  assumes "linked s (OnList w) xs" and "p \<in> set xs"
  shows "linked (list_unlink w p s) (OnList w) (remove1 p xs)"
    and "p = lists s w \<or> pvp s p \<in> set xs" and "nxp s p = 0 \<or> nxp s p \<in> set xs"
proof -
  from assms(2) obtain as bs where xs: "xs = as @ p # bs" by (metis split_list)
  have d: "dlist 0 (nxp s) (pvp s) (lists s w) (as @ p # bs)" using assms(1) xs by simp
  note f = dlist_split_fields [OF d]
  have ds: "distinct (as @ p # bs)" using d by (rule dlist_distinct)
  have h: "p = lists s w \<longleftrightarrow> as = []"
    using dlist_head [OF d] ds by (cases as) auto
  have z: "0 \<notin> set (as @ p # bs)" using d by (simp add: dlist_def)
  show "p = lists s w \<or> pvp s p \<in> set xs" using h f(1) xs by (cases as rule: rev_cases) auto
  show "nxp s p = 0 \<or> nxp s p \<in> set xs" using f(2) xs by (cases bs) auto
  have r: "remove1 p xs = as @ bs" unfolding xs by (rule remove1_split [OF ds])
  have "dlist 0 (nxp (list_unlink w p s)) (pvp (list_unlink w p s)) (lists (list_unlink w p s) w) (as @ bs)"
    using dlist_unlink [OF d] f(3) h by (cases "as = []") (auto simp: list_unlink_fields)
  then show "linked (list_unlink w p s) (OnList w) (remove1 p xs)" by (simp add: r)
qed

lemma placed_unlink:
  assumes pl: "placed s Q L" and p: "p \<in> set (L (OnList w))"
    and f: "\<And>x. p_next (f x) = p_next x" "\<And>x. p_prev (f x) = p_prev x"
  shows "placed (list_unlink w p (upd_proc p f s)) Q (L(OnList w := remove1 p (L (OnList w))))"
proof -
  let ?x = "OnList w" and ?u = "upd_proc p f s"
  have x: "?x \<in> places Q" by simp
  note ul = upd_proc_links [OF f, of p s]
  have lu: "linked ?u ?x (L ?x)"
    using placedD(1) [OF pl x] ul by (simp add: field_upd)
  note un = linked_unlink [OF lu p] and uf = list_unlink_fields [where w = w and p = p and s = ?u]
  have ds: "distinct (L ?x)" using linked_distinct [OF lu] .
  have fd: "q \<noteq> p \<Longrightarrow> fits (list_unlink w p ?u) y q = fits s y q" for y q
    using fits_same_data [OF uf(5)] by (simp add: fits_upd_proc)
  show ?thesis
  proof (rule placed_step [OF pl x un(1)])
    fix y q assume y: "y \<in> places Q" "y \<noteq> ?x" "q \<in> set (L y)"
    then have q: "q \<notin> set (L ?x)" using placedD(3) [OF pl x y(1,2)] by auto
    then show "nxp (list_unlink w p ?u) q = nxp s q \<and> pvp (list_unlink w p ?u) q = pvp s q"
      using uf un(2,3) ul by auto
    have "q \<noteq> p" using q p by auto
    then show "fits (list_unlink w p ?u) y q" using fd placedD(2) [OF pl y(1,3)] by simp
  next
    fix y assume "y \<in> places Q" "y \<noteq> ?x"
    then show "same_head s (list_unlink w p ?u) y" using uf by (cases y) (auto simp: field_upd)
  next
    fix q assume "q \<in> set (remove1 p (L ?x))"
    then have "q \<in> set (L ?x)" "q \<noteq> p" using ds by (auto simp: set_remove1_eq)
    then show "fits (list_unlink w p ?u) ?x q" "q \<in> set (L ?x) \<or> nowhere Q L q"
      using fd placedD(2) [OF pl x] by auto
  qed
qed

section \<open>Joining a circle\<close>

lemma rq_insert_fields:
  fixes p s r
  defines "i \<equiv> priority (procs s p)"
  defines "b \<equiv> lookup_bitmap (rqs s r) AND shl1 i \<noteq> 0" and "h \<equiv> circles (rqs s r) i"
  shows "nxp (rq_insert r p s) = (if b then (nxp s)(p := h, pvp s h := p) else (nxp s)(p := p))"
    and "pvp (rq_insert r p s) = (if b then (pvp s)(p := pvp s h, h := p) else (pvp s)(p := p))"
    and "circles (rqs (rq_insert r p s) r) = (if b then circles (rqs s r) else (circles (rqs s r))(i := p))"
    and "lookup_bitmap (rqs (rq_insert r p s) r) =
      (if b then lookup_bitmap (rqs s r) else lookup_bitmap (rqs s r) OR shl1 i)"
    and "process_count (rqs (rq_insert r p s) r) = process_count (rqs s r) + 1"
    and "\<And>r'. r' \<noteq> r \<Longrightarrow> rqs (rq_insert r p s) r' = rqs s r'"
    and "lists (rq_insert r p s) = lists s" and "same_data s (rq_insert r p s)"
  unfolding rq_insert_def rq_link_def Let_def i_def b_def h_def
  by (simp_all add: field_upd)

lemma linked_join:
  assumes l: "linked s (OnQueue r i) xs" and p: "p \<notin> set xs" "p \<noteq> 0"
    and i: "i = priority (procs s p)" "i < 32"
  shows "linked (rq_insert r p s) (OnQueue r i) (xs @ [p])"
proof -
  note f = rq_insert_fields [where p = p and s = s and r = r, folded i(1)]
  have b: "lookup_bitmap (rqs s r) AND shl1 i \<noteq> 0 \<longleftrightarrow> xs \<noteq> []"
    using l i(2) by (simp add: shl1_test)
  show ?thesis
  proof (cases "xs = []")
    case True
    then show ?thesis using f b p i by (simp add: bit_or_iff bit_shl1)
  next
    case False
    then have c: "circ (nxp s) (pvp s) xs" and h: "circles (rqs s r) i = hd xs" and z: "0 \<notin> set xs"
      using l by auto
    have "pvp s (hd xs) = last xs" by (rule circ_hd_last(1) [OF c])
    then show ?thesis using f b False circ_append [OF c p(1)] h z p(2) l by auto
  qed
qed

lemma placed_join:
  assumes pl: "placed s Q L" and n: "nowhere Q L p" and p: "p \<noteq> 0" and r: "r \<in> Q"
    and i: "i = priority (procs s p)" "i < 32"
    and d: "magic (procs s p) = PROCESS_MAGIC" "p_state (procs s p) = 0"
  shows "placed (rq_insert r p s) Q (L(OnQueue r i := L (OnQueue r i) @ [p]))"
proof -
  let ?x = "OnQueue r i"
  have x: "?x \<in> places Q" using r i by simp
  have np: "p \<notin> set (L y)" if "y \<in> places Q" for y using n that by (simp add: nowhere_def)
  note l = placedD(1) [OF pl x]
  note f = rq_insert_fields [where p = p and s = s and r = r, folded i(1)]
  have fd: "fits (rq_insert r p s) y q = fits s y q" for y q by (rule fits_same_data [OF f(8)])
  have b: "lookup_bitmap (rqs s r) AND shl1 i \<noteq> 0 \<longleftrightarrow> L ?x \<noteq> []"
    using l i(2) by (simp add: shl1_test)
  have ends: "circles (rqs s r) i \<in> set (L ?x) \<and> pvp s (circles (rqs s r) i) \<in> set (L ?x)"
    if "L ?x \<noteq> []"
    using l that circ_hd_last(1) [of "nxp s" "pvp s" "L ?x"] by auto
  show ?thesis
  proof (rule placed_step [OF pl x linked_join [OF l np [OF x] p i]])
    fix y q assume y: "y \<in> places Q" "y \<noteq> ?x" "q \<in> set (L y)"
    then have q: "q \<notin> set (L ?x)" "q \<noteq> p" using placedD(3) [OF pl x y(1,2)] np by auto
    then show "nxp (rq_insert r p s) q = nxp s q \<and> pvp (rq_insert r p s) q = pvp s q"
      using f(1,2) b ends by (cases "L ?x = []") auto
    show "fits (rq_insert r p s) y q" using fd placedD(2) [OF pl y(1,3)] by simp
  next
    fix y assume y: "y \<in> places Q" "y \<noteq> ?x"
    show "same_head s (rq_insert r p s) y"
    proof (cases y)
      case (OnQueue r' j)
      then show ?thesis using y f(3,4,6) by (cases "r' = r") (auto simp: bit_or_iff bit_shl1)
    next
      case (OnList w)
      then show ?thesis using f(7) by simp
    qed
  next
    fix q assume q: "q \<in> set (L ?x @ [p])"
    have "fits s ?x p" using d i by (simp add: fits.simps)
    then show "fits (rq_insert r p s) ?x q" unfolding fd using q placedD(2) [OF pl x] by auto
    show "q \<in> set (L ?x) \<or> nowhere Q L q" using q n by auto
  qed
qed

section \<open>Changes that do not matter to the places\<close>

lemma placed_cong:
  assumes "procs t = procs s" "rqs t = rqs s" "lists t = lists s"
  shows "placed t Q L = placed s Q L"
proof -
  have "nxp t = nxp s" "pvp t = pvp s" using assms by (simp_all add: nxp_def pvp_def)
  then have "linked t x xs = linked s x xs" "fits t x p = fits s x p" for x xs p
    using assms by (cases x; simp add: fits.simps)+
  then show ?thesis by (simp add: placed_def)
qed

lemma procs_other [field_upd]:
  "procs (release l s) = procs s" "procs (upd_rq r g s) = procs s" "procs (set_list w q s) = procs s"
  "procs (set_circle r i q s) = procs s" "procs (upd_tf a h s) = procs s"
  "procs (upd_proc p f s) = (procs s)(p := f (procs s p))"
  by (simp_all add: release_def upd_rq_def set_list_def set_circle_def upd_tf_def upd_proc_def)

lemma placed_upd_proc:
  assumes "placed s Q L" and "\<And>x. p_next (f x) = p_next x" "\<And>x. p_prev (f x) = p_prev x"
    and "priority (f (procs s p)) = priority (procs s p)"
    and "magic (f (procs s p)) = magic (procs s p)" "p_state (f (procs s p)) = p_state (procs s p)"
  shows "placed (upd_proc p f s) Q L"
proof -
  note ul = upd_proc_links [OF assms(2,3), of p s]
  have "linked (upd_proc p f s) x xs = linked s x xs" for x xs
    by (cases x) (simp_all add: ul field_upd)
  moreover have "fits (upd_proc p f s) x q = fits s x q" for x q
    using assms(4-6) by (cases x) (simp_all add: fits.simps upd_proc_def)
  ultimately show ?thesis using assms(1) by (simp add: placed_def)
qed

text \<open>No lock is held: the state between two operations.\<close>

definition calm :: "kstate \<Rightarrow> bool" where
  "calm s \<longleftrightarrow> locks s = (\<lambda>_. 0)"

lemma acquire_free: "locks s l = 0 \<Longrightarrow> acquire l s = Ret (s\<lparr>locks := (locks s)(l := 1)\<rparr>)"
  by (simp add: acquire_def spinlock_acquire_def)

lemma locks_upd [field_upd]:
  "locks (upd_proc p f s) = locks s" "locks (upd_rq r g s) = locks s" "locks (set_list w q s) = locks s"
  "locks (set_circle r i q s) = locks s" "locks (upd_tf a h s) = locks s"
  "locks (release l s) = (locks s)(l := 0)"
  by (simp_all add: upd_proc_def upd_rq_def set_list_def set_circle_def upd_tf_def release_def
      spinlock_release_def)

lemma tp_upd [field_upd]:
  "tp (upd_proc p f s) = tp s" "tp (upd_rq r g s) = tp s" "tp (set_list w q s) = tp s"
  "tp (set_circle r i q s) = tp s" "tp (upd_tf a h s) = tp s" "tp (release l s) = tp s"
  by (simp_all add: upd_proc_def upd_rq_def set_list_def set_circle_def upd_tf_def release_def)

lemma tp_surgery [field_upd]:
  "tp (set_next p q s) = tp s" "tp (set_prev p q s) = tp s" "tp (rq_remove r p s) = tp s"
  "tp (list_push w p s) = tp s" "tp (list_unlink w p s) = tp s" "tp (rq_insert r p s) = tp s"
  by (simp_all add: set_next_def set_prev_def rq_remove_def rq_insert_def rq_link_def list_push_def
      list_unlink_def upd_proc_def upd_rq_def set_circle_def upd_tf_def set_list_def Let_def)

text \<open>Writing links only.\<close>

lemma data_links [simp]: "data (x\<lparr>p_next := a\<rparr>) = data x" "data (x\<lparr>p_prev := a\<rparr>) = data x"
  by (simp_all add: data_def)

end
