(* ===== verification/SchedMove.thy ===== *)
theory SchedMove
  imports SchedInv
begin

text \<open>
  Blocking and waking against the invariant: each moves one process between its circle and a
  wait list and leaves every other process where it was.
\<close>

section \<open>Blocking\<close>

definition leave_for :: "u64 \<Rightarrow> nat \<Rightarrow> wlist \<Rightarrow> u64 \<Rightarrow> layout_of \<Rightarrow> layout_of" where
  "leave_for r i w p L =
     L(OnQueue r i := remove1 p (L (OnQueue r i)), OnList w := p # L (OnList w))"

text \<open>What may be written to a process on its way: everything but its links, state and priority.\<close>

definition keeps :: "(process \<Rightarrow> process) \<Rightarrow> bool" where
  "keeps f \<longleftrightarrow> (\<forall>x. p_next (f x) = p_next x \<and> p_prev (f x) = p_prev x \<and> magic (f x) = magic x \<and>
      priority (f x) = priority x \<and> p_state (f x) = p_state x) \<and>
    (\<forall>x y. data x = data y \<longrightarrow> data (f x) = data (f y))"

lemma data_ticks: "data x = data y \<Longrightarrow> data (x\<lparr>ticks_left := v\<rparr>) = data (y\<lparr>ticks_left := v\<rparr>)"
  by (cases x; cases y) (simp add: data_def)

lemma data_code: "data x = data y \<Longrightarrow> data (x\<lparr>exit_code := v\<rparr>) = data (y\<lparr>exit_code := v\<rparr>)"
  by (cases x; cases y) (simp add: data_def)

lemma data_state: "data x = data y \<Longrightarrow> data (x\<lparr>p_state := v\<rparr>) = data (y\<lparr>p_state := v\<rparr>)"
  by (cases x; cases y) (simp add: data_def)

lemma data_parent: "data x = data y \<Longrightarrow> data (x\<lparr>parent_pid := v\<rparr>) = data (y\<lparr>parent_pid := v\<rparr>)"
  by (cases x; cases y) (simp add: data_def)

lemma keeps_simps [simp]:
  "keeps id" "keeps (\<lambda>x. x\<lparr>ticks_left := k\<rparr>)" "keeps (\<lambda>x. x\<lparr>exit_code := c\<rparr>)"
  unfolding keeps_def by (auto intro: data_ticks data_code)

text \<open>From the running hart's circle to the front of list \<open>w\<close>.\<close>

definition depart :: "wlist \<Rightarrow> (process \<Rightarrow> process) \<Rightarrow> u64 \<Rightarrow> kstate \<Rightarrow> kstate" where
  "depart w f p s = upd_proc p (\<lambda>x. f (x\<lparr>p_state := state_code w\<rparr>))
     (list_push w p (release (RqLock (tp s)) (rq_remove (tp s) p s)))"

lemma depart_ok:
  assumes pl: "placed s Q L" and r: "tp s \<in> Q" and i: "i < 32"
    and p: "p \<in> set (L (OnQueue (tp s) i))" and f: "keeps f"
  shows "placed (depart w f p s) Q (leave_for (tp s) i w p L)"
    and "data (procs (depart w f p s) q) = data (if q = p then f ((procs s p)\<lparr>p_state := state_code w\<rparr>) else procs s q)"
    and "locks (depart w f p s) = (locks s)(RqLock (tp s) := 0)" "tp (depart w f p s) = tp s"
    and "curr_process (rqs (depart w f p s) r') = curr_process (rqs s r')"
proof -
  let ?r = "tp s" and ?x = "OnQueue (tp s) i"
  have x: "?x \<in> places Q" using r i by simp
  have fp: "priority (procs s p) = i" "magic (procs s p) = PROCESS_MAGIC"
    using placedD(2) [OF pl x p] by (simp_all add: fits.simps)
  have p0: "p \<noteq> 0" using linked_nonzero [OF placedD(1) [OF pl x]] p by auto
  let ?f = "\<lambda>x. f (x\<lparr>p_state := state_code w\<rparr>)"
  have ff: "p_next (?f y) = p_next y" "p_prev (?f y) = p_prev y" "magic (?f y) = magic y"
    "priority (?f y) = priority y" "p_state (?f y) = state_code w" for y using f by (simp_all add: keeps_def)
  have fdata: "data (?f y) = data (?f z)" if "data y = data z" for y z
    using data_state [OF that] f unfolding keeps_def by blast
  define s2 where "s2 = release (RqLock ?r) (rq_remove ?r p s)"
  note lv = placed_leave [OF pl r i p]
  have pl2: "placed s2 Q (L(?x := remove1 p (L ?x)))"
    unfolding s2_def by (subst placed_cong [where s = "rq_remove ?r p s"]) (simp_all add: field_upd lv(1))
  have d2: "data (procs s2 q) = data (procs s q)" for q
    using lv(2) by (simp add: s2_def field_upd same_data_def)
  have nw: "nowhere Q (L(?x := remove1 p (L ?x))) p" by (rule nowhere_remove [OF pl x p])
  have t: "depart w f p s = upd_proc p ?f (list_push w p s2)" by (simp add: depart_def s2_def)
  have m: "magic (?f (procs s2 p)) = PROCESS_MAGIC" "p_state (?f (procs s2 p)) = state_code w"
    "priority (?f (procs s2 p)) < 32"
    using data_fields(9,20) [OF d2 [of p]] by (simp_all only: ff fp i)
  show "placed (depart w f p s) Q (leave_for ?r i w p L)"
    using placed_push [OF pl2 nw p0 ff(1,2) m fdata] by (simp add: t leave_for_def)
  note lp = list_push_fields [where w = w and p = p and s = s2]
  have "data (procs (list_push w p s2) q) = data (procs s q)" for q
    using lp(5) d2 by (simp add: same_data_def)
  then have "data (procs (list_push w p s2) q) = data (procs s q)"
    "data (?f (procs (list_push w p s2) p)) = data (?f (procs s p))" by (blast, intro fdata)
  then show "data (procs (depart w f p s) q) = data (if q = p then ?f (procs s p) else procs s q)"
    by (simp add: t upd_proc_def)
  show "locks (depart w f p s) = (locks s)(RqLock ?r := 0)" "tp (depart w f p s) = tp s"
    "curr_process (rqs (depart w f p s) r') = curr_process (rqs s r')"
    using lp(5) lv(2) by (simp_all add: t s2_def same_data_def field_upd fun_eq_iff)
qed

lemma block_on_ok:
  assumes pl: "placed s Q L" and c: "calm s" and r: "tp s \<in> Q" and i: "i < 32"
    and p: "p \<in> set (L (OnQueue (tp s) i))" and pid: "pid (procs s p) \<noteq> 0" and f: "keeps f"
  shows "\<exists>t. block_on w (state_code w) f p s = Ret t \<and>
    placed t Q (leave_for (tp s) i w p L) \<and> calm t \<and> ssip t \<and> tp t = tp s \<and> curr t = curr s \<and>
    (\<forall>q. data (procs t q) = data (if q = p then f ((procs s p)\<lparr>p_state := state_code w\<rparr>) else procs s q))"
proof -
  let ?r = "tp s"
  have fp: "magic (procs s p) = PROCESS_MAGIC"
    using placedD(2) [OF pl _ p] r i by (simp add: fits.simps)
  define e where "e = (if emergency_process s = p then 0 else emergency_process s)"
  define s1 where "s1 = s\<lparr>emergency_process := e,
      locks := (\<lambda>_. 0)(ListLock w := 1, RqLock ?r := 1)\<rparr>"
  have s1: "tp s1 = tp s" "procs s1 = procs s" "rqs s1 = rqs s" "locks s1 = (\<lambda>_. 0)(ListLock w := 1, RqLock ?r := 1)"
    by (simp_all add: s1_def)
  define t where "t = trigger_software_interrupt (release (ListLock w) (depart w f p s1))"
  have pl1: "placed s1 Q L" using pl placed_cong [of s1 s Q L] by (simp add: s1_def)
  note d = depart_ok [OF pl1, of i p f w, unfolded s1, OF r i p f]
  have "block_on w (state_code w) f p s = Ret t"
    using c pid fp
    by (auto simp: block_on_def block_guard_def acquire_free calm_def Let_def t_def depart_def
        s1_def e_def tp_surgery)
  moreover have "placed t Q (leave_for ?r i w p L)"
    unfolding t_def
    by (subst placed_cong [where s = "depart w f p s1"])
      (simp_all add: trigger_software_interrupt_def field_upd d(1))
  moreover have "calm t" "ssip t" "tp t = tp s" "curr t = curr s"
    using d(3-5) by (auto simp: t_def calm_def trigger_software_interrupt_def field_upd curr_def)
  moreover have "data (procs t q) = data (if q = p then f ((procs s p)\<lparr>p_state := state_code w\<rparr>) else procs s q)" for q
    using d(2) by (simp add: t_def trigger_software_interrupt_def field_upd)
  ultimately show ?thesis by blast
qed

section \<open>Waking\<close>

definition join_from :: "u64 \<Rightarrow> nat \<Rightarrow> wlist \<Rightarrow> u64 \<Rightarrow> layout_of \<Rightarrow> layout_of" where
  "join_from r i w p L =
     L(OnList w := remove1 p (L (OnList w)), OnQueue r i := L (OnQueue r i) @ [p])"

lemma kernel_tp_rq_insert: "kernel_tp (tframes (rq_insert r p s) (p_tf (procs s p))) = r"
proof -
  have "same_data s (rq_link r p s)" by (simp add: rq_link_def Let_def)
  then have "p_tf (procs (rq_link r p s) p) = p_tf (procs s p)" by (rule same_data_fields)
  then show ?thesis by (simp add: rq_insert_def Let_def upd_tf_def upd_rq_def)
qed

lemma wake_from_ok:
  assumes pl: "placed s Q L" and k: "locks s (RqLock (tp s)) = 0" and r: "tp s \<in> Q"
    and p: "p \<in> set (L (OnList w))"
  shows "\<exists>t. wake_from w (state_code w) p s = Ret t \<and>
    placed t Q (join_from (tp s) (priority (procs s p)) w p L) \<and> locks t = locks s \<and>
    tp t = tp s \<and> curr t = curr s \<and> ssip t = ssip s \<and> emergency_process t = emergency_process s \<and>
    kernel_tp (tframes t (p_tf (procs s p))) = tp s \<and>
    (\<forall>q. data (procs t q) = data (if q = p then (procs s p)\<lparr>p_state := 0\<rparr> else procs s q))"
proof -
  let ?r = "tp s" and ?f = "\<lambda>x. x\<lparr>p_state := 0\<rparr>" and ?i = "priority (procs s p)"
  have x: "OnList w \<in> places Q" by simp
  have fp: "magic (procs s p) = PROCESS_MAGIC" "p_state (procs s p) = state_code w" "?i < 32"
    using placedD(2) [OF pl x p] by (simp_all add: fits.simps)
  have p0: "p \<noteq> 0" using linked_nonzero [OF placedD(1) [OF pl x]] p by auto
  define s1 where "s1 = list_unlink w p (upd_proc p ?f s)"
  define s2 where "s2 = s1\<lparr>locks := (locks s1)(RqLock ?r := 1)\<rparr>"
  define t where "t = release (RqLock ?r) (rq_insert ?r p s2)"
  let ?L1 = "L(OnList w := remove1 p (L (OnList w)))"
  note uf = list_unlink_fields(5) [where w = w and p = p and s = "upd_proc p ?f s"]
  have pl1: "placed s1 Q ?L1"
    unfolding s1_def by (rule placed_unlink [OF pl p]) simp_all
  then have pl2: "placed s2 Q ?L1" by (subst placed_cong [where s = s1]) (simp_all add: s2_def)
  have d1: "data (procs s1 q) = data (if q = p then ?f (procs s p) else procs s q)" for q
    using uf by (auto simp: s1_def same_data_def field_upd)
  have fp1: "priority (procs s1 p) = ?i" "magic (procs s1 p) = PROCESS_MAGIC" "p_state (procs s1 p) = 0"
    "p_tf (procs s1 p) = p_tf (procs s p)"
    using data_fields [OF d1 [of p]] fp by simp_all
  have l1: "locks s1 = locks s" "tp s1 = tp s" "ssip s1 = ssip s"
    "emergency_process s1 = emergency_process s" "curr_process (rqs s1 r) = curr_process (rqs s r)" for r
    using uf by (simp_all add: s1_def same_data_def field_upd) (simp_all add: upd_proc_def)
  have nw: "nowhere Q ?L1 p" by (rule nowhere_remove [OF pl x p])
  note rf = rq_insert_fields(8) [where p = p and s = s2 and r = ?r]
  have "wake_from w (state_code w) p s = Ret t"
    using fp k l1 by (simp add: wake_from_def Let_def s1_def [symmetric] acquire_free t_def s2_def tp_surgery tp_upd)
  moreover have "placed t Q (join_from ?r ?i w p L)"
  proof -
    have "placed (rq_insert ?r p s2) Q (?L1(OnQueue ?r ?i := ?L1 (OnQueue ?r ?i) @ [p]))"
      using fp1 fp(3) by (intro placed_join [OF pl2 nw p0 r]) (simp_all add: s2_def)
    then show ?thesis
      unfolding t_def by (subst placed_cong [where s = "rq_insert ?r p s2"])
        (simp_all add: field_upd join_from_def)
  qed
  moreover have "locks t = locks s" "tp t = tp s" "curr t = curr s" "ssip t = ssip s"
    "emergency_process t = emergency_process s"
    using rf l1 k by (simp_all add: t_def field_upd same_data_def curr_def fun_eq_iff)
      (simp_all add: release_def s2_def)
  moreover have "kernel_tp (tframes t (p_tf (procs s p))) = tp s"
    using kernel_tp_rq_insert [of ?r p s2] fp1(4) by (simp add: t_def release_def s2_def)
  moreover have "data (procs t q) = data (if q = p then ?f (procs s p) else procs s q)" for q
    using rf d1 by (simp add: t_def field_upd same_data_def s2_def)
  ultimately show ?thesis by blast
qed

end
