(* ===== verification/SchedRun.thy ===== *)
theory SchedRun
  imports SchedMove
begin

text \<open>
  The dispatcher against the invariant: which process \<open>schedule\<close> picks, what it does to the
  circles, and which passed-over priorities it records.
\<close>

section \<open>The bitmap\<close>

lemma first_ready_eq:
  assumes "\<And>i. i < 32 \<Longrightarrow> bit b i \<longleftrightarrow> C i \<noteq> []"
  shows "first_ready b = find (\<lambda>i. C i \<noteq> []) [0..<32]"
proof -
  have "find P xs = find R xs" if "\<forall>i\<in>set xs. P i = R i" for P R and xs :: "nat list"
    using that by (induction xs) auto
  then show ?thesis unfolding first_ready_def using assms by (simp add: shl1_test)
qed

lemma find_upt_SomeD:
  assumes "find P [0..<n] = Some i"
  shows "i < n" "P i" "\<And>j. j < i \<Longrightarrow> \<not> P j"
  using assms by (auto simp: find_Some_iff)

lemma bit_low_mask: "bit (0xFFFFFFFF :: u64) n \<longleftrightarrow> n < 32"
proof -
  have "(0xFFFFFFFF :: u64) = mask 32" by (simp add: mask_eq_exp_minus_1)
  then show ?thesis by (simp only: bit_mask_iff) auto
qed

lemma bit_shl1_minus: "bit (shl1 i - 1) n \<longleftrightarrow> n < i \<and> n < 64"
proof -
  have "shl1 i - 1 = mask i" by (simp add: shl1_def mask_eq_exp_minus_1 push_bit_eq_mult)
  then show ?thesis by (auto simp: bit_mask_iff)
qed

text \<open>The dispatcher writes the upper half only: bit \<open>32 + j\<close> for every ready \<open>j\<close> above \<open>i\<close>.\<close>

lemma bit_passed_over:
  "bit (passed_over i b) n \<longleftrightarrow> bit b n \<or> i < 31 \<and> 32 < n \<and> n < 64 \<and> i < n - 32 \<and> bit b (n - 32)"
proof (cases "i < 31")
  case True
  then show ?thesis
    unfolding passed_over_def if_P [OF True] bit_or_iff bit_push_bit_iff bit_and_iff bit_not_iff
      bit_low_mask bit_shl1_minus by auto
qed (simp add: passed_over_def)

section \<open>Rotation\<close>

lemma data_run:
  "data x = data y \<Longrightarrow>
   data (if b then x\<lparr>p_state := 1\<rparr> else x) = data ((\<lambda>x. if b then x\<lparr>p_state := 1\<rparr> else x) y)"
  by (cases x; cases y) (simp add: data_def)

definition rotated :: "kstate \<Rightarrow> layout_of \<Rightarrow> layout_of" where
  "rotated s L =
     (if p_state (procs s (curr s)) = 1
      then let x = OnQueue (tp s) (priority (procs s (curr s))) in L(x := rotate1 (L x)) else L)"

lemma rotated_set: "set (rotated s L x) = set (L x)"
  by (simp add: rotated_def Let_def)

lemma rotated_Nil: "rotated s L x = [] \<longleftrightarrow> L x = []"
  by (metis rotated_set set_empty2)

text \<open>A running process is in its circle; the circle of priority 31 has the idle process.\<close>

definition running_ok :: "kstate \<Rightarrow> layout_of \<Rightarrow> bool" where
  "running_ok s L \<longleftrightarrow> magic (procs s (curr s)) = PROCESS_MAGIC \<and>
     (p_state (procs s (curr s)) = 1 \<longrightarrow>
        priority (procs s (curr s)) < 32 \<and>
        curr s \<in> set (L (OnQueue (tp s) (priority (procs s (curr s))))))"

lemma circ_rotate1: "circ nx pv xs \<Longrightarrow> circ nx pv (rotate1 xs) \<and> nx (hd xs) = hd (rotate1 xs)"
proof (cases xs)
  case (Cons a ys)
  assume c: "circ nx pv xs"
  then have "circ nx pv (ys @ [a])" using circ_rotate [of nx pv "[a]" ys] Cons by simp
  moreover have "nx a = hd (ys @ [a])" using circ_fields(1) [of nx pv "[]" a ys] c Cons by simp
  ultimately show ?thesis using Cons by simp
qed (simp add: circ_def)

text \<open>The state in which the dispatcher chooses: nobody runs, the circle has turned.\<close>

lemma schedule_rotate_ok:
  assumes pl: "placed s Q L" and r: "tp s \<in> Q" and run: "running_ok s L"
  shows "placed (schedule_rotate s) Q (rotated s L)"
    and "p_state (procs (schedule_rotate s) (curr s)) \<noteq> 1"
    and "\<And>q. data (procs (schedule_rotate s) q) =
      data (if q = curr s \<and> p_state (procs s q) = 1
            then (procs s q)\<lparr>p_state := 0, ticks_left := time_slice (procs s q)\<rparr> else procs s q)"
    and "tp (schedule_rotate s) = tp s" "curr (schedule_rotate s) = curr s"
    "locks (schedule_rotate s) = locks s" "ssip (schedule_rotate s) = ssip s"
    "emergency_process (schedule_rotate s) = emergency_process s"
    "lookup_bitmap (rqs (schedule_rotate s) (tp s)) = lookup_bitmap (rqs s (tp s))"
proof -
  let ?p = "curr s" and ?r = "tp s"
  let ?i = "priority (procs s ?p)" and ?x = "OnQueue (tp s) (priority (procs s (curr s)))"
  let ?f = "\<lambda>x. x\<lparr>p_state := 0, ticks_left := time_slice x\<rparr>"
  define u where "u = upd_proc ?p ?f s"
  define t where "t = set_circle ?r ?i (nxp s (circles (rqs s ?r) ?i)) u"
  have eq: "schedule_rotate s = (if p_state (procs s ?p) = 1 then t else s)"
    by (simp add: schedule_rotate_def Let_def t_def u_def nxp_def upd_proc_def curr_def)
  have ul: "nxp u = nxp s" "pvp u = pvp s" unfolding u_def by (rule upd_proc_links; simp)+
  have tl: "nxp t = nxp s" "pvp t = pvp s" "lists t = lists s"
    "circles (rqs t ?r) = (circles (rqs s ?r))(?i := nxp s (circles (rqs s ?r) ?i))"
    "lookup_bitmap (rqs t r) = lookup_bitmap (rqs s r)" "r \<noteq> ?r \<Longrightarrow> rqs t r = rqs s r" for r
    by (simp_all add: t_def field_upd ul) (simp_all add: u_def field_upd)
  show f: "tp (schedule_rotate s) = tp s" "curr (schedule_rotate s) = curr s"
    "locks (schedule_rotate s) = locks s" "ssip (schedule_rotate s) = ssip s"
    "emergency_process (schedule_rotate s) = emergency_process s"
    "lookup_bitmap (rqs (schedule_rotate s) (tp s)) = lookup_bitmap (rqs s (tp s))"
    using tl(5) by (simp_all add: eq t_def u_def field_upd curr_def)
      (simp_all add: set_circle_def upd_rq_def upd_proc_def)
  show d: "\<And>q. data (procs (schedule_rotate s) q) =
      data (if q = ?p \<and> p_state (procs s q) = 1
            then (procs s q)\<lparr>p_state := 0, ticks_left := time_slice (procs s q)\<rparr> else procs s q)"
    by (auto simp: eq t_def u_def field_upd)
  show "p_state (procs (schedule_rotate s) ?p) \<noteq> 1"
    by (simp add: eq t_def u_def field_upd)
  show "placed (schedule_rotate s) Q (rotated s L)"
  proof (cases "p_state (procs s ?p) = 1")
    case False
    then show ?thesis using pl by (simp add: eq rotated_def)
  next
    case True
    then have i: "?i < 32" and p: "?p \<in> set (L ?x)" using run by (simp_all add: running_ok_def)
    have x: "?x \<in> places Q" using r i by simp
    have lx: "linked s ?x (L ?x)" by (rule placedD(1) [OF pl x])
    have ne: "L ?x \<noteq> []" using p by auto
    then have c: "circ (nxp s) (pvp s) (L ?x)" "circles (rqs s ?r) ?i = hd (L ?x)"
      and z: "0 \<notin> set (L ?x)" using lx by auto
    have "linked t ?x (rotate1 (L ?x))"
      using lx ne z c circ_rotate1 [OF c(1)] tl by simp
    moreover have nq: "q = ?p \<longrightarrow> y = ?x" if "y \<in> places Q" "q \<in> set (L y)" for y q
      using that placedD(3) [OF pl x that(1)] p by auto
    have ft: "fits t y q" if "y \<in> places Q" "q \<in> set (L y)" for y q
    proof (cases "q = ?p")
      case True
      then have "y = ?x" using nq that by blast
      then show ?thesis using True placedD(2) [OF pl that]
        by (simp add: fits.simps t_def u_def field_upd)
    next
      case False
      then show ?thesis using placedD(2) [OF pl that]
        by (cases y) (auto simp: fits.simps t_def u_def field_upd curr_def)
    qed
    ultimately have "placed t Q (L(?x := rotate1 (L ?x)))"
    proof (intro placed_step [OF pl x])
      fix y assume y: "y \<in> places Q" "y \<noteq> ?x"
      show "same_head s t y"
      proof (cases y)
        case (OnQueue r' j)
        then show ?thesis using y tl(4,5,6) by (cases "r' = ?r") auto
      qed (simp add: tl)
    qed (use tl ft x in auto)
    then show ?thesis using True by (simp add: eq rotated_def Let_def)
  qed
qed

section \<open>Picking\<close>

text \<open>The process the dispatcher runs next.\<close>

definition next_up :: "kstate \<Rightarrow> layout_of \<Rightarrow> u64" where
  "next_up s L =
     (if emergency_process s \<noteq> 0 then emergency_process s
      else case find (\<lambda>i. L (OnQueue (tp s) i) \<noteq> []) [0..<32] of
        Some i \<Rightarrow> hd (L (OnQueue (tp s) i)) | None \<Rightarrow> curr s)"

text \<open>The emergency process, when there is one, is ready on this hart.\<close>

definition emergency_ok :: "kstate \<Rightarrow> layout_of \<Rightarrow> bool" where
  "emergency_ok s L \<longleftrightarrow>
     (emergency_process s \<noteq> 0 \<longrightarrow> (\<exists>i<32. emergency_process s \<in> set (L (OnQueue (tp s) i))))"


text \<open>The priorities the dispatcher passes over when it runs the head of circle \<open>i\<close>.\<close>

definition passed :: "kstate \<Rightarrow> layout_of \<Rightarrow> kstate \<Rightarrow> bool" where
  "passed s L t \<longleftrightarrow> (\<forall>n. bit (lookup_bitmap (rqs t (tp s))) n \<longleftrightarrow>
     bit (lookup_bitmap (rqs s (tp s))) n \<or>
     emergency_process s = 0 \<and> 32 < n \<and> n < 64 \<and> L (OnQueue (tp s) (n - 32)) \<noteq> [] \<and>
     (\<exists>i. i < n - 32 \<and> L (OnQueue (tp s) i) \<noteq> []))"

lemma find_first:
  fixes P :: "nat \<Rightarrow> bool"
  assumes "P n" and "n < 32"
  obtains i where "find P [0..<32] = Some i" "i \<le> n" "P i" "\<And>j. j < i \<Longrightarrow> \<not> P j"
proof (cases "find P [0..<32]")
  case None
  then show ?thesis using assms by (auto simp: find_None_iff)
next
  case (Some i)
  then have "P i" "\<And>j. j < i \<Longrightarrow> \<not> P j" "i < 32" using find_upt_SomeD by blast+
  then show ?thesis using Some assms that by (metis not_le)
qed

lemma placed_bit:
  "placed s Q L \<Longrightarrow> r \<in> Q \<Longrightarrow> i < 32 \<Longrightarrow> bit (lookup_bitmap (rqs s r)) i \<longleftrightarrow> L (OnQueue r i) \<noteq> []"
  using placedD(1) [of s Q L "OnQueue r i"] by simp

lemma placed_head:
  "placed s Q L \<Longrightarrow> r \<in> Q \<Longrightarrow> i < 32 \<Longrightarrow> L (OnQueue r i) \<noteq> [] \<Longrightarrow>
   circles (rqs s r) i = hd (L (OnQueue r i))"
  using placedD(1) [of s Q L "OnQueue r i"] by simp

text \<open>Setting the running process and the upper half of the bitmap moves nobody.\<close>

lemma placed_run:
  assumes pl: "placed s Q L" and st: "\<And>i q. i < 32 \<Longrightarrow> q \<in> set (L (OnQueue r i)) \<Longrightarrow> p_state (procs s q) = 0"
    and b: "\<And>n. n < 32 \<Longrightarrow> bit b n = bit (lookup_bitmap (rqs s r)) n"
    and c: "c \<in> set (L (OnQueue r i))" "i < 32" and r: "r \<in> Q"
  shows "placed (upd_proc c (\<lambda>p. p\<lparr>p_state := 1\<rparr>)
    (upd_rq r (\<lambda>x. x\<lparr>curr_process := c, lookup_bitmap := b\<rparr>) s)) Q L" (is "placed ?t Q L")
proof -
  let ?x = "OnQueue r i"
  have x: "?x \<in> places Q" using c(2) r by simp
  have l: "nxp ?t = nxp s" "pvp ?t = pvp s" "lists ?t = lists s"
    by (simp_all add: upd_proc_links field_upd)
  have h: "same_head s ?t y" if "y \<in> places Q" for y
    using that b by (cases y) (auto simp: field_upd)
  have "linked ?t y (L y)" if "y \<in> places Q" for y
    using linked_frame [OF placedD(1) [OF pl that] h [OF that]] l by simp
  moreover have "fits ?t y q" if y: "y \<in> places Q" "q \<in> set (L y)" for y q
  proof -
    have f: "fits s y q" by (rule placedD(2) [OF pl y])
    have yx: "q = c \<Longrightarrow> y = ?x" using placedD(3) [OF pl x y(1)] y(2) c(1) by auto
    show ?thesis
    proof (cases "q = c")
      case True
      then show ?thesis using f yx by (simp add: fits.simps field_upd)
    next
      case False
      then show ?thesis using f st y by (cases y) (auto simp: fits.simps field_upd)
    qed
  qed
  ultimately show ?thesis using pl by (simp add: placed_def)
qed

section \<open>The dispatcher\<close>

definition upd_pick :: "u64 \<Rightarrow> u64 \<Rightarrow> kstate \<Rightarrow> kstate" where
  "upd_pick c b s =
     (upd_rq (tp s) (\<lambda>x. x\<lparr>curr_process := c, lookup_bitmap := b\<rparr>) s)\<lparr>emergency_process := 0\<rparr>"

lemma upd_pick_same:
  "emergency_process s = 0 \<Longrightarrow>
   upd_pick c b s = upd_rq (tp s) (\<lambda>x. x\<lparr>curr_process := c, lookup_bitmap := b\<rparr>) s"
  by (cases s) (simp add: upd_pick_def upd_rq_def)

lemma schedule_pick_ok:
  assumes pl: "placed s Q L" and r: "tp s \<in> Q" and e: "emergency_ok s L"
    and idle: "L (OnQueue (tp s) 31) \<noteq> []"
  shows "\<exists>b. schedule_pick s = Ret (upd_pick (next_up s L) b s) \<and>
    (\<forall>n. bit b n \<longleftrightarrow> bit (lookup_bitmap (rqs s (tp s))) n \<or>
       emergency_process s = 0 \<and> 32 < n \<and> n < 64 \<and> L (OnQueue (tp s) (n - 32)) \<noteq> [] \<and>
       (\<exists>i. i < n - 32 \<and> L (OnQueue (tp s) i) \<noteq> [])) \<and>
    (\<exists>i<32. next_up s L \<in> set (L (OnQueue (tp s) i)))"
proof (cases "emergency_process s = 0")
  case False
  have "upd_rq (tp s) (\<lambda>x. x\<lparr>curr_process := c\<rparr>) s =
      upd_rq (tp s) (\<lambda>x. x\<lparr>curr_process := c, lookup_bitmap := lookup_bitmap (rqs s (tp s))\<rparr>) s" for c
    by (cases "rqs s (tp s)") (simp add: upd_rq_def)
  then show ?thesis using False e
    by (intro exI [of _ "lookup_bitmap (rqs s (tp s))"])
      (simp add: schedule_pick_def Let_def upd_pick_def next_up_def emergency_ok_def)
next
  case True
  let ?r = "tp s"
  let ?P = "\<lambda>i. L (OnQueue ?r i) \<noteq> []"
  obtain i where i: "find ?P [0..<32] = Some i" "i \<le> 31" "?P i" "\<And>j. j < i \<Longrightarrow> \<not> ?P j"
    by (rule find_first [of ?P 31]) (use idle in auto)
  have i32: "i < 32" using i(2) by simp
  note B = placed_bit [OF pl r] and H = placed_head [OF pl r i32 i(3)]
  have fr: "first_ready (lookup_bitmap (rqs s ?r)) = Some i"
    using first_ready_eq [of "lookup_bitmap (rqs s ?r)" "\<lambda>i. L (OnQueue ?r i)"] B i(1) by simp
  have hd_in: "hd (L (OnQueue ?r i)) \<in> set (L (OnQueue ?r i))" using i(3) by simp
  then have m: "magic (procs s (hd (L (OnQueue ?r i)))) = PROCESS_MAGIC"
    using placedD(2) [OF pl, of "OnQueue ?r i"] r i32 by (simp add: fits.simps)
  let ?b = "passed_over i (lookup_bitmap (rqs s ?r))"
  have n: "next_up s L = hd (L (OnQueue ?r i))" using True i(1) by (simp add: next_up_def)
  have "schedule_pick s = Ret (upd_pick (next_up s L) ?b s)"
    using True fr m H by (simp add: schedule_pick_def Let_def upd_pick_same n curr_def field_upd tp_upd)
      (simp add: upd_rq_def)
  moreover have "bit ?b n \<longleftrightarrow> bit (lookup_bitmap (rqs s ?r)) n \<or>
       emergency_process s = 0 \<and> 32 < n \<and> n < 64 \<and> ?P (n - 32) \<and> (\<exists>i. i < n - 32 \<and> ?P i)" for n
  proof -
    have "i < 31 \<and> 32 < n \<and> n < 64 \<and> i < n - 32 \<and> bit (lookup_bitmap (rqs s ?r)) (n - 32) \<longleftrightarrow>
        32 < n \<and> n < 64 \<and> ?P (n - 32) \<and> (\<exists>i. i < n - 32 \<and> ?P i)"
    proof (cases "32 < n \<and> n < 64 \<and> ?P (n - 32)")
      case True
      moreover from True have "n - 32 < 32" by arith
      ultimately have "bit (lookup_bitmap (rqs s ?r)) (n - 32)" using B [of "n - 32"] by simp
      moreover have "(\<exists>j. j < n - 32 \<and> ?P j) \<longleftrightarrow> i < n - 32" using i(3,4) by (metis not_less_iff_gr_or_eq order.strict_trans)
      ultimately show ?thesis using True by auto
    next
      case False
      have "n - 32 < 32" if "n < 64" using that by arith
      then show ?thesis using False B [of "n - 32"] by auto
    qed
    then show ?thesis using True by (simp add: bit_passed_over)
  qed
  ultimately show ?thesis using n hd_in i32 by (intro exI [of _ ?b]) auto
qed

lemma schedule_ok:
  assumes pl: "placed s Q L" and c: "calm s" and r: "tp s \<in> Q" and run: "running_ok s L"
    and e: "emergency_ok s L" and idle: "L (OnQueue (tp s) 31) \<noteq> []"
  defines "L' \<equiv> rotated s L"
  shows "\<exists>t. schedule s = Ret t \<and> placed t Q L' \<and> calm t \<and> tp t = tp s \<and> curr t = next_up s L' \<and>
    p_state (procs t (curr t)) = 1 \<and> last_switch t = (curr s, curr t) \<and> emergency_process t = 0 \<and>
    passed s L' t \<and> running_ok t L' \<and> ssip t = ssip s \<and>
    (\<forall>q. data (procs t q) = data ((\<lambda>x. if q = curr t then x\<lparr>p_state := 1\<rparr> else x)
       (if q = curr s \<and> p_state (procs s q) = 1
        then (procs s q)\<lparr>p_state := 0, ticks_left := time_slice (procs s q)\<rparr> else procs s q)))"
proof -
  let ?r = "tp s"
  define s1 where "s1 = s\<lparr>locks := (\<lambda>_. 0)(RqLock ?r := 1)\<rparr>"
  define s2 where "s2 = schedule_rotate s1"
  have a: "acquire (RqLock ?r) s = Ret s1" using c by (simp add: acquire_free calm_def s1_def)
  have s1: "tp s1 = tp s" "curr s1 = curr s" "procs s1 = procs s" "rqs s1 = rqs s"
    "emergency_process s1 = emergency_process s" "ssip s1 = ssip s" by (simp_all add: s1_def curr_def)
  have pl1: "placed s1 Q L" using pl placed_cong [of s1 s Q L] by (simp add: s1_def)
  have "running_ok s1 L" using run by (simp add: running_ok_def s1)
  note R = schedule_rotate_ok [OF pl1 _ this, unfolded s1, OF r, folded s2_def]
  have L': "rotated s1 L = L'" by (simp add: L'_def rotated_def s1)
  have e2: "emergency_ok s2 L'" using e by (simp add: emergency_ok_def R L'_def rotated_set)
  have idle2: "L' (OnQueue (tp s2) 31) \<noteq> []" using idle by (simp add: R L'_def rotated_Nil)
  have r2: "tp s2 \<in> Q" using r by (simp add: R)
  note pl2 = R(1) [unfolded L']
  obtain b i where p: "schedule_pick s2 = Ret (upd_pick (next_up s2 L') b s2)"
    and b: "\<And>n. bit b n \<longleftrightarrow> bit (lookup_bitmap (rqs s2 (tp s2))) n \<or>
       emergency_process s2 = 0 \<and> 32 < n \<and> n < 64 \<and> L' (OnQueue (tp s2) (n - 32)) \<noteq> [] \<and>
       (\<exists>i. i < n - 32 \<and> L' (OnQueue (tp s2) i) \<noteq> [])"
    and i: "i < 32" "next_up s2 L' \<in> set (L' (OnQueue (tp s2) i))"
    using schedule_pick_ok [OF pl2 r2 e2 idle2] by blast
  let ?n = "next_up s2 L'"
  have n: "?n = next_up s L'"
    using i(2) find_first [of "\<lambda>i. L' (OnQueue ?r i) \<noteq> []" 31] idle2
    by (auto simp: next_up_def R split: option.splits)
  have st0: "p_state (procs s2 q) = 0" if "j < 32" "q \<in> set (L' (OnQueue ?r j))" for j q
  proof -
    have f: "fits s2 (OnQueue ?r j) q" using placedD(2) [OF pl2 _ that(2)] that(1) r by simp
    have "curr_process (rqs s2 ?r) = curr s" using R(5) by (simp add: curr_def R)
    then show ?thesis using f R(2) by (auto simp: fits.simps)
  qed
  have n0: "p_state (procs s2 ?n) = 0" using st0 i by (simp add: R)
  define t0 where "t0 = upd_proc ?n (\<lambda>p. p\<lparr>p_state := 1\<rparr>)
    (upd_rq ?r (\<lambda>x. x\<lparr>curr_process := ?n, lookup_bitmap := b\<rparr>) s2)"
  define t where "t = (release (RqLock ?r) (t0\<lparr>emergency_process := 0\<rparr>))\<lparr>last_switch := (curr s, ?n)\<rparr>"
  have "schedule s = Ret t"
    using run n0 by (simp add: schedule_def a s1 s2_def [symmetric] p Let_def running_ok_def)
      (simp add: upd_pick_def curr_def R field_upd upd_rq_def upd_proc_def t_def t0_def release_def)
  moreover have pt: "placed t Q L'"
  proof -
    have "placed t0 Q L'" unfolding t0_def
    proof (rule placed_run [OF pl2 _ _ _ i(1) r])
      show "?n \<in> set (L' (OnQueue ?r i))" using i(2) by (simp add: R)
      show "bit b n = bit (lookup_bitmap (rqs s2 ?r)) n" if "n < 32" for n using that b by (simp add: R)
    qed (use st0 in blast)
    then show ?thesis by (subst placed_cong [where s = t0]) (simp_all add: t_def release_def)
  qed
  moreover have f: "calm t" "tp t = tp s" "curr t = ?n" "p_state (procs t ?n) = 1"
    "last_switch t = (curr s, ?n)" "emergency_process t = 0" "ssip t = ssip s"
    by (simp_all add: t_def t0_def calm_def release_def spinlock_release_def R s1_def curr_def
        field_upd fun_eq_iff) (simp_all add: upd_proc_def upd_rq_def R curr_def s1)
  moreover have "passed s L' t"
    using b by (simp add: passed_def t_def t0_def field_upd R s1)
  moreover have "running_ok t L'"
  proof -
    have nt: "?n \<in> set (L' (OnQueue (tp t) i))" using i(2) f by (simp add: R)
    have "fits t (OnQueue (tp t) i) ?n" using placedD(2) [OF pt _ nt] i(1) r f by simp
    then show ?thesis using nt i(1) f by (simp add: running_ok_def fits.simps)
  qed
  moreover have "data (procs t q) = data ((\<lambda>x. if q = ?n then x\<lparr>p_state := 1\<rparr> else x)
       (if q = curr s \<and> p_state (procs s q) = 1
        then (procs s q)\<lparr>p_state := 0, ticks_left := time_slice (procs s q)\<rparr> else procs s q))" for q
  proof -
    have "procs t q = (if q = ?n then (procs s2 q)\<lparr>p_state := 1\<rparr> else procs s2 q)"
      by (simp add: t_def t0_def field_upd)
    then show ?thesis using data_run [OF R(3) [of q]] by simp
  qed
  ultimately show ?thesis unfolding n [symmetric] by auto
qed

end
