(* ===== verification/SchedWalk.thy ===== *)
theory SchedWalk
  imports SchedRun
begin

text \<open>
  The operations that walk over lists and circles: the anti-starvation sweep, the stealing of
  work and the ticking of sleepers. A walk of enough fuel visits the members in order, so each
  is described by a fold over the list the layout gives.
\<close>

section \<open>The sweep\<close>

lemma find_rev_upt:
  assumes "j < n" and "P j" and "\<And>k. j < k \<Longrightarrow> k < n \<Longrightarrow> \<not> P k"
  shows "find P (rev [0..<n]) = Some j"
  using assms
proof (induction n)
  case (Suc n)
  then show ?case by (cases "j = n") (auto simp: less_Suc_eq)
qed simp

lemma placed_bitmap:
  assumes pl: "placed s Q L" and b: "\<And>n. n < 32 \<Longrightarrow> bit (g (lookup_bitmap (rqs s r))) n = bit (lookup_bitmap (rqs s r)) n"
  shows "placed (upd_rq r (\<lambda>x. x\<lparr>lookup_bitmap := g (lookup_bitmap x)\<rparr>) s) Q L" (is "placed ?t Q L")
proof -
  have l: "nxp ?t = nxp s" "pvp ?t = pvp s" by (simp_all add: field_upd)
  have h: "same_head s ?t y" if "y \<in> places Q" for y
    using that b by (cases y) (auto simp: field_upd)
  have "linked ?t y (L y)" if "y \<in> places Q" for y
    using linked_frame [OF placedD(1) [OF pl that] h [OF that]] l by simp
  moreover have "fits ?t y q = fits s y q" for y q by (rule fits_same_data) simp
  ultimately show ?thesis using pl by (simp add: placed_def)
qed

lemma sweep_ok:
  assumes pl: "placed s Q L" and r: "tp s \<in> Q" and j: "j < 31"
    and b: "bit (lookup_bitmap (rqs s (tp s))) (j + 32)" and ne: "L (OnQueue (tp s) j) \<noteq> []"
    and last: "\<And>k. j < k \<Longrightarrow> k < 31 \<Longrightarrow> bit (lookup_bitmap (rqs s (tp s))) (k + 32) \<Longrightarrow> L (OnQueue (tp s) k) = []"
  defines "t \<equiv> anti_starvation_sweeper s"
  shows "placed t Q L" and "emergency_process t = hd (L (OnQueue (tp s) j))"
    and "\<And>n. bit (lookup_bitmap (rqs t (tp s))) n \<longleftrightarrow> n < 32 \<and> L (OnQueue (tp s) n) \<noteq> []"
    and "tp t = tp s" "procs t = procs s" "locks t = locks s" "curr t = curr s"
proof -
  let ?r = "tp s" and ?b = "lookup_bitmap (rqs s (tp s))"
  have "bit (drop_bit 32 ?b) j" using b by (simp add: bit_drop_bit_eq add.commute)
  then have nz: "drop_bit 32 ?b \<noteq> 0" by (metis bit_0_eq bot_apply bot_bool_def)
  note B = placed_bit [OF pl r]
  have "find (\<lambda>i. ?b AND shl1 (i + 32) \<noteq> 0 \<and> ?b AND shl1 i \<noteq> 0) (rev [0..<31]) = Some j"
    using j b ne last B by (intro find_rev_upt) (simp_all add: shl1_test)
  then have t: "t = upd_rq ?r (\<lambda>x. x\<lparr>lookup_bitmap := lookup_bitmap x AND 0xFFFFFFFF\<rparr>)
      (s\<lparr>emergency_process := circles (rqs s ?r) j\<rparr>)"
    using nz by (simp add: t_def anti_starvation_sweeper_def Let_def)
  let ?s = "s\<lparr>emergency_process := circles (rqs s ?r) j\<rparr>"
  have "placed ?s Q L" using pl placed_cong [of ?s s Q L] by simp
  then show "placed t Q L"
    unfolding t by (rule placed_bitmap) (simp only: bit_and_iff bit_low_mask simp_thms)
  show "emergency_process t = hd (L (OnQueue ?r j))"
    using placed_head [OF pl r _ ne] j by (simp add: t upd_rq_def)
  show "bit (lookup_bitmap (rqs t ?r)) n \<longleftrightarrow> n < 32 \<and> L (OnQueue ?r n) \<noteq> []" for n
  proof -
    have "lookup_bitmap (rqs t ?r) = ?b AND 0xFFFFFFFF" by (simp add: t field_upd)
    then show ?thesis using B [of n] by (simp only: bit_and_iff bit_low_mask) blast
  qed
  show "tp t = tp s" "procs t = procs s" "locks t = locks s" "curr t = curr s"
    by (simp_all add: t upd_rq_def curr_def)
qed

section \<open>Stealing\<close>

text \<open>The walk around a circle finds the first member that is not running.\<close>

lemma find_idle_walk:
  assumes "circ (nxp s) (pvp s) (as @ p # bs)" and "length (p # bs) \<le> n"
  shows "find_idle n v (hd (as @ p # bs)) p s =
    Ret (case find (\<lambda>q. q \<noteq> v) (p # bs) of Some q \<Rightarrow> q | None \<Rightarrow> 0)"
  using assms
proof (induction bs arbitrary: as p n)
  case Nil
  then obtain m where n: "n = Suc m" by (cases n) auto
  have "nxp s p = hd (as @ [p])" using circ_fields(1) [OF Nil(1)] by simp
  then show ?case by (auto simp: n proc_links Let_def)
next
  case (Cons b bs)
  then obtain m where n: "n = Suc m" "length (b # bs) \<le> m" by (cases n) auto
  have nx: "nxp s p = b" using circ_fields(1) [OF Cons.prems(1)] by simp
  have "distinct (as @ p # b # bs)" using Cons.prems(1) by (simp add: circ_def)
  then have ne: "b \<noteq> hd (as @ p # b # bs)" by (cases as) auto
  show ?case
    using Cons.IH [of "as @ [p]" b m] Cons.prems(1) n nx ne
    by (cases "p = v") (auto simp: proc_links Let_def)
qed

lemma find_idle_circle:
  assumes "linked s (OnQueue r i) xs" and "xs \<noteq> []" and "length xs \<le> n"
  shows "find_idle n v (circles (rqs s r) i) (circles (rqs s r) i) s =
    Ret (case find (\<lambda>q. q \<noteq> v) xs of Some q \<Rightarrow> q | None \<Rightarrow> 0)"
proof -
  obtain p bs where xs: "xs = p # bs" using assms(2) by (cases xs) auto
  have "circ (nxp s) (pvp s) ([] @ p # bs)" "circles (rqs s r) i = p" using assms(1) xs by auto
  then show ?thesis using find_idle_walk [of s "[]" p bs n v] assms(3) xs by simp
qed

text \<open>The process to take from run queue \<open>r\<close>, among the priorities \<open>is\<close>.\<close>

definition idle_in :: "kstate \<Rightarrow> layout_of \<Rightarrow> u64 \<Rightarrow> nat \<Rightarrow> u64 option" where
  "idle_in s L r i = find (\<lambda>q. q \<noteq> curr_process (rqs s r)) (L (OnQueue r i))"

lemma idle_in_Some:
  "idle_in s L r i = Some p \<Longrightarrow> p \<in> set (L (OnQueue r i)) \<and> p \<noteq> curr_process (rqs s r)"
  by (auto simp: idle_in_def find_Some_iff)

lemma steal_from_ok:
  assumes pl: "placed s Q L" and r: "r \<in> Q" and len: "\<And>i. length (L (OnQueue r i)) \<le> walk_fuel"
    and ks: "\<forall>i\<in>set ks. i < 32"
  shows "(steal_from ks r s = Ret (0, s) \<and> (\<forall>i\<in>set ks. idle_in s L r i = None)) \<or>
    (\<exists>i\<in>set ks. \<exists>p. idle_in s L r i = Some p \<and> steal_from ks r s = Ret (p, rq_remove r p s))"
  using ks
proof (induction ks)
  case (Cons i ks)
  have i: "i < 32" using Cons.prems by simp
  have x: "OnQueue r i \<in> places Q" using r i by simp
  have l: "linked s (OnQueue r i) (L (OnQueue r i))" by (rule placedD(1) [OF pl x])
  have b: "lookup_bitmap (rqs s r) AND shl1 i \<noteq> 0 \<longleftrightarrow> L (OnQueue r i) \<noteq> []"
    using placed_bit [OF pl r i] i by (simp add: shl1_test)
  show ?case
  proof (cases "idle_in s L r i")
    case None
    then have "steal_from (i # ks) r s = steal_from ks r s"
      using b find_idle_circle [OF l _ len] by (simp add: idle_in_def)
    then show ?thesis using Cons None by auto
  next
    case (Some p)
    then have p: "p \<in> set (L (OnQueue r i))" by (rule idle_in_Some [THEN conjunct1])
    then have "p \<noteq> 0" using linked_nonzero [OF l] by auto
    moreover have ne: "L (OnQueue r i) \<noteq> []" using p by auto
    ultimately have "steal_from (i # ks) r s = Ret (p, rq_remove r p s)"
      using Some b find_idle_circle [OF l ne len] by (simp add: idle_in_def)
    then show ?thesis using Some by auto
  qed
qed simp

text \<open>A hart whose queue may be robbed.\<close>

definition robbable :: "kstate \<Rightarrow> nat \<Rightarrow> bool" where
  "robbable s j \<longleftrightarrow> closet_rq s j \<noteq> 0 \<and> closet_rq s j \<noteq> tp s \<and> process_count (rqs s (closet_rq s j)) > 1"

lemma steal_search_ok:
  assumes pl: "placed s Q L" and c: "calm s"
    and len: "\<And>x. length (L x) \<le> walk_fuel"
    and q: "\<forall>j\<in>set js. closet_rq s j \<noteq> 0 \<longrightarrow> closet_rq s j \<in> Q"
  shows "(steal_search js s = Ret (0, s) \<and>
      (\<forall>j\<in>set js. robbable s j \<longrightarrow> (\<forall>i<31. idle_in s L (closet_rq s j) i = None))) \<or>
    (\<exists>j\<in>set js. \<exists>i<31. \<exists>p t. robbable s j \<and> idle_in s L (closet_rq s j) i = Some p \<and>
       steal_search js s = Ret (p, t) \<and> calm t \<and> same_data s (t\<lparr>locks := locks s\<rparr>) \<and>
       placed t Q (L(OnQueue (closet_rq s j) i := remove1 p (L (OnQueue (closet_rq s j) i)))))"
  using q
proof (induction js)
  case (Cons j js)
  let ?r = "closet_rq s j"
  show ?case
  proof (cases "robbable s j")
    case False
    then have "steal_search (j # js) s = steal_search js s" by (auto simp: robbable_def Let_def)
    then show ?thesis using Cons False by auto
  next
    case True
    define s1 where "s1 = s\<lparr>locks := (\<lambda>_. 0)(RqLock ?r := 1)\<rparr>"
    have s1: "idle_in s1 L ?r = idle_in s L ?r" by (rule ext) (simp add: idle_in_def s1_def)
    have r: "?r \<in> Q" using Cons.prems True by (simp add: robbable_def)
    have pl1: "placed s1 Q L" using pl placed_cong [of s1 s Q L] by (simp add: s1_def)
    have rel: "release (RqLock ?r) s1 = s" using c
      by (cases s) (auto simp: release_def s1_def calm_def spinlock_release_def fun_eq_iff)
    have a: "acquire (RqLock ?r) s = Ret s1" using c by (simp add: acquire_free calm_def s1_def)
    have u: "steal_search (j # js) s = bindO (steal_from [0..<31] ?r s1) (\<lambda>(target, s).
        let s = release (RqLock ?r) s in if target \<noteq> 0 then Ret (target, s) else steal_search js s)"
      using True by (simp add: robbable_def Let_def a)
    have "\<forall>i\<in>set [0..<31]. i < 32" by simp
    from steal_from_ok [OF pl1 r len this] show ?thesis
    proof (elim disjE conjE bexE exE)
      assume f: "steal_from [0..<31] ?r s1 = Ret (0, s1)"
        and n: "\<forall>i\<in>set [0..<31]. idle_in s1 L ?r i = None"
      have "steal_search (j # js) s = steal_search js s" unfolding u f by (simp add: rel)
      moreover have "\<forall>i<31. idle_in s L ?r i = None" using n s1 by simp
      ultimately show ?thesis using Cons by auto
    next
      fix i p assume i: "i \<in> set [0..<31]" and p: "idle_in s1 L ?r i = Some p"
        and f: "steal_from [0..<31] ?r s1 = Ret (p, rq_remove ?r p s1)"
      let ?t = "release (RqLock ?r) (rq_remove ?r p s1)"
      have i32: "i < 32" using i by simp
      have pm: "p \<in> set (L (OnQueue ?r i))" using idle_in_Some [OF p] by simp
      have x: "OnQueue ?r i \<in> places Q" using r i32 by simp
      have p0: "p \<noteq> 0" using linked_nonzero [OF placedD(1) [OF pl x]] pm by auto
      note lv = placed_leave [OF pl1 r i32 pm]
      have "steal_search (j # js) s = Ret (p, ?t)" unfolding u f using p0 by simp
      moreover have "placed ?t Q (L(OnQueue ?r i := remove1 p (L (OnQueue ?r i))))"
        by (subst placed_cong [where s = "rq_remove ?r p s1"]) (simp_all add: field_upd lv(1))
      moreover have "calm ?t"
        using lv(2) by (auto simp: calm_def field_upd same_data_def s1_def fun_eq_iff)
      moreover have "same_data s (?t\<lparr>locks := locks s\<rparr>)"
        using lv(2) by (simp add: same_data_def field_upd s1_def) (simp add: release_def)
      moreover have "i < 31" "idle_in s L ?r i = Some p" using i p s1 by auto
      ultimately show ?thesis using True by (intro disjI2 bexI [of _ j]) (blast, simp)
    qed
  qed
qed simp

section \<open>Sleepers\<close>

text \<open>
  The layout after the sleepers \<open>rest\<close> have been ticked: those on their last tick are at the
  end of their circle, in list order, and the others stay.
\<close>

definition last_tick :: "kstate \<Rightarrow> u64 \<Rightarrow> bool" where
  "last_tick s p \<longleftrightarrow> ticks_left (procs s p) = 1"

definition better_woken :: "kstate \<Rightarrow> u64 list \<Rightarrow> bool" where
  "better_woken s rest \<longleftrightarrow>
     (\<exists>p\<in>set rest. last_tick s p \<and> priority (procs s p) < priority (procs s (curr s)))"

definition ticked_proc :: "kstate \<Rightarrow> u64 list \<Rightarrow> u64 \<Rightarrow> process" where
  "ticked_proc s rest q =
     (if q \<in> set rest then
        (procs s q)\<lparr>ticks_left := ticks_left (procs s q) - 1,
          p_state := (if last_tick s q then 0 else p_state (procs s q))\<rparr>
      else if q = curr s \<and> better_woken s rest then (procs s q)\<lparr>ticks_left := 0\<rparr>
      else procs s q)"

lemma data_tick_state:
  "data x = data y \<Longrightarrow>
   data (x\<lparr>ticks_left := v, p_state := w\<rparr>) = data (y\<lparr>ticks_left := v, p_state := w\<rparr>)"
  by (cases x; cases y) (simp add: data_def)

text \<open>One sleeper of the list.\<close>

lemma tick_sleeper_ok:
  assumes pl: "placed s Q L" and r: "tp s \<in> Q" and p: "p \<in> set (L (OnList Sleeping))"
    and k: "locks s (RqLock (tp s)) = 0"
  shows "\<exists>t. tick_sleeper p s = Ret t \<and>
    placed t Q (if last_tick s p then join_from (tp s) (priority (procs s p)) Sleeping p L else L) \<and>
    locks t = locks s \<and> tp t = tp s \<and> curr t = curr s \<and> emergency_process t = emergency_process s \<and>
    (\<forall>q. data (procs t q) = data (ticked_proc s [p] q))"
proof -
  let ?f = "\<lambda>x. x\<lparr>ticks_left := ticks_left x - 1\<rparr>"
  define s1 where "s1 = upd_proc p ?f s"
  have s1: "tp s1 = tp s" "locks s1 = locks s" "rqs s1 = rqs s" "curr s1 = curr s"
    "emergency_process s1 = emergency_process s" "procs s1 = (procs s)(p := ?f (procs s p))"
    by (simp_all add: s1_def field_upd curr_def tp_upd) (simp add: upd_proc_def)
  have pl1: "placed s1 Q L" unfolding s1_def by (rule placed_upd_proc [OF pl]) simp_all
  have z: "ticks_left (procs s1 p) = 0 \<longleftrightarrow> last_tick s p"
    by (simp add: s1 last_tick_def)
  show ?thesis
  proof (cases "last_tick s p")
    case False
    have "tick_sleeper p s = Ret s1"
      using False z by (simp add: tick_sleeper_def Let_def s1_def [symmetric])
    moreover have "data (procs s1 q) = data (ticked_proc s [p] q)" for q
      using False by (simp add: s1 ticked_proc_def better_woken_def)
    ultimately show ?thesis using pl1 False s1 by (intro exI [of _ s1]) simp
  next
    case True
    have k1: "locks s1 (RqLock (tp s1)) = 0" using k by (simp add: s1)
    have r1: "tp s1 \<in> Q" using r by (simp add: s1)
    let ?i = "priority (procs s p)"
    have pr1: "priority (procs s1 p) = ?i" by (simp add: s1)
    obtain u where u: "wake_from Sleeping 4 p s1 = Ret u"
      "placed u Q (join_from (tp s) ?i Sleeping p L)" "locks u = locks s" "tp u = tp s" "curr u = curr s"
      "emergency_process u = emergency_process s"
      "\<And>q. data (procs u q) = data (if q = p then (procs s1 p)\<lparr>p_state := 0\<rparr> else procs s1 q)"
      using wake_from_ok [OF pl1 k1 r1 p] unfolding pr1 s1(1,2,4,5) by (simp, blast)
    have pru: "priority (procs u p) = ?i" "priority (procs u (curr s)) = priority (procs s (curr s))"
      using data_fields(9) [OF u(7) [of p]] data_fields(9) [OF u(7) [of "curr s"]]
      by (simp_all add: s1 split: if_splits)
    let ?g = "\<lambda>x. x\<lparr>ticks_left := 0 :: u32\<rparr>"
    define t where "t = (if ?i < priority (procs s (curr s)) then upd_proc (curr s) ?g u else u)"
    have "tick_sleeper p s = Ret t"
      using True z u(1)
      by (simp add: tick_sleeper_def Let_def s1_def [symmetric] preempt_if_higher_def u(5) pru t_def)
    moreover have "placed t Q (join_from (tp s) ?i Sleeping p L)"
      using u(2) placed_upd_proc [OF u(2), of ?g "curr s"] by (simp add: t_def)
    moreover have "locks t = locks s" "tp t = tp s" "curr t = curr s"
      "emergency_process t = emergency_process s"
      using u(3-6) by (simp_all add: t_def field_upd tp_upd curr_def) (simp add: upd_proc_def)
    moreover have "data (procs t q) = data (ticked_proc s [p] q)" for q
    proof (cases "q = p")
      case True
      then show ?thesis using u(7) [of p] \<open>last_tick s p\<close>
        by (cases "curr s = p") (simp_all add: t_def field_upd ticked_proc_def s1)
    next
      case False
      have "data (procs u q) = data (procs s q)" using u(7) [of q] False by (simp add: s1)
      note this data_ticks [OF this, of 0]
      then show ?thesis using False \<open>last_tick s p\<close>
        by (cases "q = curr s") (simp_all add: t_def field_upd ticked_proc_def better_woken_def)
    qed
    ultimately show ?thesis using True by (intro exI [of _ t]) simp
  qed
qed

text \<open>
  The running process may itself be on the list, when it has just put itself to sleep. A better process that wakes takes
  the rest of its slice, and that is the count it sleeps by. \<open>cut_before\<close>: one woke earlier in the list;
  \<open>cut_after\<close>: one woke later.
\<close>

definition cut_before :: "kstate \<Rightarrow> u64 list \<Rightarrow> bool" where
  "cut_before s rest \<longleftrightarrow> better_woken s (takeWhile (\<lambda>q. q \<noteq> curr s) rest)"

definition cut_after :: "kstate \<Rightarrow> u64 list \<Rightarrow> bool" where
  "cut_after s rest \<longleftrightarrow> better_woken s (dropWhile (\<lambda>q. q \<noteq> curr s) rest)"

definition wakes :: "kstate \<Rightarrow> u64 list \<Rightarrow> u64 \<Rightarrow> bool" where
  "wakes s rest q \<longleftrightarrow> last_tick s q \<and> (q = curr s \<longrightarrow> \<not> cut_before s rest)"

definition ticks_after :: "kstate \<Rightarrow> u64 list \<Rightarrow> u64 \<Rightarrow> u32" where
  "ticks_after s rest q =
     (if q \<noteq> curr s then ticks_left (procs s q) - 1 else if cut_after s rest then 0
      else (if cut_before s rest then 0 else ticks_left (procs s q)) - 1)"

definition walked :: "kstate \<Rightarrow> u64 list \<Rightarrow> u64 list \<Rightarrow> layout_of \<Rightarrow> layout_of" where
  "walked s as rest L = (\<lambda>x. case x of
     OnQueue r i \<Rightarrow> L x @ (if r = tp s
       then filter (\<lambda>p. wakes s rest p \<and> priority (procs s p) = i) rest else [])
   | OnList w \<Rightarrow> if w = Sleeping then as @ filter (\<lambda>p. \<not> wakes s rest p) rest else L x)"

definition walked_proc :: "kstate \<Rightarrow> u64 list \<Rightarrow> u64 \<Rightarrow> process" where
  "walked_proc s rest q =
     (if q \<in> set rest then
        (procs s q)\<lparr>ticks_left := ticks_after s rest q,
          p_state := (if wakes s rest q then 0 else p_state (procs s q))\<rparr>
      else if q = curr s \<and> better_woken s rest then (procs s q)\<lparr>ticks_left := 0\<rparr>
      else procs s q)"

lemma better_woken_cong:
  assumes "curr t = curr s" "priority (procs t (curr s)) = priority (procs s (curr s))"
    and "\<And>q. q \<in> set Z \<Longrightarrow> q \<noteq> curr s \<Longrightarrow> data (procs t q) = data (procs s q)"
  shows "better_woken t Z = better_woken s Z"
proof -
  have "last_tick t q \<and> priority (procs t q) < priority (procs s (curr s)) \<longleftrightarrow>
      last_tick s q \<and> priority (procs s q) < priority (procs s (curr s))" if "q \<in> set Z" for q
  proof (cases "q = curr s")
    case False
    then show ?thesis using data_fields(9,11) [OF assms(3) [OF that False]] by (simp add: last_tick_def)
  qed (use assms(2) in simp)
  then show ?thesis using assms(1,2) by (auto simp: better_woken_def)
qed

text \<open>One step of the walk, from \<open>s\<close> to \<open>t\<close>, and what is left of the list.\<close>

lemma walk_step:
  assumes d: "distinct (p # rest)" and cu: "curr t = curr s"
    and t: "\<And>q. data (procs t q) = data (ticked_proc s [p] q)"
  shows "better_woken s (p # rest) \<longleftrightarrow> better_woken s [p] \<or> better_woken t rest"
    and "wakes s (p # rest) p = last_tick s p" "q \<in> set rest \<Longrightarrow> wakes t rest q = wakes s (p # rest) q"
    and "priority (procs t q) = priority (procs s q)"
    and "data (walked_proc t rest q) = data (walked_proc s (p # rest) q)"
proof -
  let ?c = "curr s"
  show pr: "priority (procs t q) = priority (procs s q)" for q
    using data_fields(9) [OF t [of q]] by (simp add: ticked_proc_def)
  have q: "data (procs t q) = data (procs s q)" if "q \<in> set rest" "q \<noteq> ?c" for q
    using t [of q] that d by (auto simp: ticked_proc_def)
  note bw = better_woken_cong [of t s, OF cu pr q]
  have sub: "set (takeWhile (\<lambda>q. q \<noteq> ?c) rest) \<subseteq> set rest" "set (dropWhile (\<lambda>q. q \<noteq> ?c) rest) \<subseteq> set rest"
    by (auto dest: set_takeWhileD set_dropWhileD)
  have b: "better_woken t rest = better_woken s rest"
    "better_woken t (takeWhile (\<lambda>q. q \<noteq> ?c) rest) = better_woken s (takeWhile (\<lambda>q. q \<noteq> ?c) rest)"
    "better_woken t (dropWhile (\<lambda>q. q \<noteq> ?c) rest) = better_woken s (dropWhile (\<lambda>q. q \<noteq> ?c) rest)"
    using bw sub by blast+
  have one: "better_woken s (p # Y) \<longleftrightarrow> better_woken s [p] \<or> better_woken s Y" for Y by (auto simp: better_woken_def)
  show split: "better_woken s (p # rest) \<longleftrightarrow> better_woken s [p] \<or> better_woken t rest" using one [of rest] b(1) by blast
  have nc: "\<not> better_woken s [?c]" by (simp add: better_woken_def)
  have none: "\<not> better_woken s []" by (simp add: better_woken_def)
  have cb: "cut_before s (p # rest) \<longleftrightarrow> p \<noteq> ?c \<and> (better_woken s [p] \<or> cut_before t rest)"
    using one [of "takeWhile (\<lambda>q. q \<noteq> ?c) rest"] b(2) cu unfolding cut_before_def
    by (cases "p = ?c") (simp_all add: none)
  have ca: "cut_after s (p # rest) \<longleftrightarrow> (if p = ?c then better_woken t rest else cut_after t rest)"
    using one [of rest] nc b(1,3) cu unfolding cut_after_def by (cases "p = ?c") auto
  show wp: "wakes s (p # rest) p = last_tick s p" using cb by (auto simp: wakes_def)
  have tc: "ticks_left (procs t ?c) = (if better_woken s [p] then 0 else ticks_left (procs s ?c))" if "?c \<in> set rest"
    using data_fields(11) [OF t [of ?c]] that d by (auto simp: ticked_proc_def)
  show wk: "wakes t rest q = wakes s (p # rest) q" if "q \<in> set rest" for q
  proof (cases "q = ?c")
    case True
    then show ?thesis using that tc d cb cu by (auto simp: wakes_def last_tick_def)
  next
    case False
    then show ?thesis using data_fields(11) [OF q [OF that False]] cu by (simp add: wakes_def last_tick_def)
  qed
  have ta: "ticks_after t rest q = ticks_after s (p # rest) q" if "q \<in> set rest" for q
  proof (cases "q = ?c")
    case True
    then have "p \<noteq> ?c" using that d by auto
    then show ?thesis using True that tc cb ca cu by (simp add: ticks_after_def)
  next
    case False
    then show ?thesis using data_fields(11) [OF q [OF that False]] cu by (simp add: ticks_after_def)
  qed
  show "data (walked_proc t rest q) = data (walked_proc s (p # rest) q)"
  proof (cases "q \<in> set rest")
    case True
    have "data (procs t q) = data (ticked_proc s [p] q)" by (rule t)
    moreover have "q \<noteq> p" using True d by auto
    ultimately have e: "p_state (procs t q) = p_state (procs s q)" "data ((procs t q)\<lparr>ticks_left := 0\<rparr>) = data ((procs s q)\<lparr>ticks_left := 0\<rparr>)"
      using data_fields(8) [OF t [of q]] data_ticks [OF t [of q], of 0] by (auto simp: ticked_proc_def split: if_splits)
    have "data ((procs t q)\<lparr>ticks_left := v, p_state := w\<rparr>) = data ((procs s q)\<lparr>ticks_left := v, p_state := w\<rparr>)" for v w
      using data_tick_state [OF e(2), of w v] by simp
    then show ?thesis using True wk [OF True] ta [OF True] e(1) by (simp add: walked_proc_def)
  next
    case False
    note e = t [of q] data_ticks [OF t [of q], of 0]
    show ?thesis
    proof (cases "q = p")
      case True
      show ?thesis
      proof (cases "p = ?c")
        case pc: True
        then have "ticks_after s (p # rest) p = (if better_woken t rest then 0 else ticks_left (procs s p) - 1)"
          using ca cb by (simp add: ticks_after_def)
        moreover have swap: "r\<lparr>p_state := w, ticks_left := v\<rparr> = r\<lparr>ticks_left := v, p_state := w\<rparr>" for v w and r :: process
          by simp
        ultimately show ?thesis using e True False pc wp cu
          by (auto simp: walked_proc_def ticked_proc_def swap)
      next
        case pc: False
        then show ?thesis using e True False wp cu by (simp add: walked_proc_def ticked_proc_def ticks_after_def)
      qed
    next
      case qp: False
      then show ?thesis using e False split cu by (auto simp: walked_proc_def ticked_proc_def)
    qed
  qed
qed

lemma walked_head:
  assumes L: "L (OnList Sleeping) = as @ p # rest" and d: "distinct (as @ p # rest)" and tp: "tp t = tp s"
    and cu: "curr t = curr s" and t: "\<And>q. data (procs t q) = data (ticked_proc s [p] q)"
  shows "walked t (if last_tick s p then as else as @ [p]) rest
      (if last_tick s p then join_from (tp s) (priority (procs s p)) Sleeping p L else L) =
    walked s as (p # rest) L"
proof -
  have d': "distinct (p # rest)" using d by simp
  note st = walk_step [OF d' cu t]
  have f: "filter (\<lambda>q. wakes t rest q \<and> priority (procs t q) = i) rest =
      filter (\<lambda>q. wakes s (p # rest) q \<and> priority (procs s q) = i) rest"
    "filter (\<lambda>q. \<not> wakes t rest q) rest = filter (\<lambda>q. \<not> wakes s (p # rest) q) rest" for i
    using st(3,4) by (auto intro: filter_cong)
  show ?thesis
    using L st(2) tp by (auto simp: walked_def f join_from_def fun_eq_iff split: place.splits)
qed

lemma sleep_walk:
  assumes "placed s Q L" and "tp s \<in> Q" and "locks s (RqLock (tp s)) = 0"
    and "L (OnList Sleeping) = as @ rest" and "length rest \<le> n"
  shows "\<exists>t. each_list n tick_sleeper (hd (rest @ [0])) s = Ret t \<and>
    placed t Q (walked s as rest L) \<and> locks t = locks s \<and> tp t = tp s \<and> curr t = curr s \<and>
    (\<forall>q. data (procs t q) = data (walked_proc s rest q))"
  using assms
proof (induction rest arbitrary: s L as n)
  case Nil
  have "walked s as [] L = L" using Nil(4) by (auto simp: walked_def fun_eq_iff split: place.splits)
  moreover have "each_list n tick_sleeper 0 s = Ret s" by (cases n) simp_all
  ultimately show ?case using Nil by (simp add: walked_proc_def better_woken_def)
next
  case (Cons p rest)
  then obtain m where n: "n = Suc m" "length rest \<le> m" by (cases n) auto
  have x: "OnList Sleeping \<in> places Q" by simp
  have l: "linked s (OnList Sleeping) (as @ p # rest)" using placedD(1) [OF Cons.prems(1) x] Cons.prems(4) by simp
  have d: "distinct (as @ p # rest)" and p0: "p \<noteq> 0" using linked_distinct [OF l] linked_nonzero [OF l] by auto
  have nx: "p_next (procs s p) = hd (rest @ [0])"
    using dlist_split_fields(2) [of 0 "nxp s" "pvp s" _ as p rest] l
    by (cases rest) (auto simp: proc_links)
  obtain t where t: "tick_sleeper p s = Ret t"
    "placed t Q (if last_tick s p then join_from (tp s) (priority (procs s p)) Sleeping p L else L)"
    "locks t = locks s" "tp t = tp s" "curr t = curr s"
    "\<And>q. data (procs t q) = data (ticked_proc s [p] q)"
    using tick_sleeper_ok [of s Q L p] Cons.prems by (simp, blast)
  let ?as = "if last_tick s p then as else as @ [p]"
  let ?L = "if last_tick s p then join_from (tp s) (priority (procs s p)) Sleeping p L else L"
  have L: "?L (OnList Sleeping) = ?as @ rest"
    using Cons.prems(4) remove1_split [OF d] by (simp add: join_from_def)
  obtain u where u: "each_list m tick_sleeper (hd (rest @ [0])) t = Ret u"
    "placed u Q (walked t ?as rest ?L)" "locks u = locks t" "tp u = tp t" "curr u = curr t"
    "\<And>q. data (procs u q) = data (walked_proc t rest q)"
    using Cons.IH [OF t(2) _ _ L n(2)] Cons.prems t(3-5) by auto
  have d': "distinct (p # rest)" using d by simp
  have "data (procs u q) = data (walked_proc s (p # rest) q)" for q
    using u(6) walk_step(5) [OF d' t(5,6)] by simp
  then show ?case using u(1-5) p0 n t(1,3-5) nx walked_head [where s = s and t = t and L = L and as = as and p = p and rest = rest, OF Cons.prems(4) d t(4-6)] by simp
qed


text \<open>The whole list, with its lock.\<close>

lemma update_sleep_list_ok:
  assumes "placed s Q L" and "calm s" and "tp s \<in> Q" and "length (L (OnList Sleeping)) \<le> walk_fuel"
  shows "\<exists>t. update_sleep_list s = Ret t \<and> calm t \<and> curr t = curr s \<and>
    placed t Q (walked s [] (L (OnList Sleeping)) L) \<and>
    (\<forall>q. data (procs t q) = data (walked_proc s (L (OnList Sleeping)) q))"
proof -
  define s1 where "s1 = s\<lparr>locks := (\<lambda>_. 0)(ListLock Sleeping := 1)\<rparr>"
  let ?Z = "L (OnList Sleeping)"
  have s1: "procs s1 = procs s" "tp s1 = tp s" "curr s1 = curr s" "lists s1 = lists s" "rqs s1 = rqs s"
    "locks s1 = (\<lambda>_. 0)(ListLock Sleeping := 1)" by (simp_all add: s1_def curr_def)
  have a: "acquire (ListLock Sleeping) s = Ret s1" using assms(2) by (simp add: acquire_free calm_def s1_def)
  have pl: "placed s1 Q L" using assms(1) placed_cong [of s1 s Q L] by (simp add: s1_def)
  have l: "linked s (OnList Sleeping) ?Z" by (rule placedD(1) [OF assms(1)]) simp
  have h: "lists s Sleeping = hd (?Z @ [0])" using l dlist_head by (cases ?Z) (auto simp: dlist_def)
  have "tp s1 \<in> Q" "locks s1 (RqLock (tp s1)) = 0" "?Z = [] @ ?Z" using assms(3) by (simp_all add: s1)
  from sleep_walk [OF pl this assms(4)] obtain t where
    t: "each_list walk_fuel tick_sleeper (hd (?Z @ [0])) s1 = Ret t" "placed t Q (walked s1 [] ?Z L)"
      "locks t = locks s1" "tp t = tp s1" "curr t = curr s1"
      "\<And>q. data (procs t q) = data (walked_proc s1 ?Z q)" by blast
  let ?t = "release (ListLock Sleeping) t"
  have lt: "last_tick s1 = last_tick s" by (simp add: fun_eq_iff last_tick_def s1)
  have bw: "better_woken s1 = better_woken s" by (simp add: fun_eq_iff better_woken_def lt s1)
  have cut: "cut_before s1 = cut_before s" "cut_after s1 = cut_after s"
    by (simp_all only: fun_eq_iff cut_before_def cut_after_def bw s1 simp_thms)
  have same: "wakes s1 = wakes s" "ticks_after s1 = ticks_after s"
    by (simp_all only: fun_eq_iff wakes_def ticks_after_def lt cut s1 simp_thms)
  have "walked s1 [] ?Z L = walked s [] ?Z L" "walked_proc s1 ?Z q = walked_proc s ?Z q" for q
    unfolding walked_def walked_proc_def same bw s1 by (rule refl)+
  note m = t(2,6) [unfolded this]
  have "update_sleep_list s = Ret ?t" using t(1) by (simp add: update_sleep_list_def a s1 h)
  moreover have "calm ?t" "curr ?t = curr s"
    using t(3-5) by (auto simp: calm_def field_upd s1 fun_eq_iff curr_def tp_upd)
  moreover have "placed ?t Q (walked s [] ?Z L)"
    by (subst placed_cong [where s = t]) (simp_all add: field_upd m(1))
  moreover have "data (procs ?t q) = data (walked_proc s ?Z q)" for q using m(2) by (simp add: field_upd)
  ultimately show ?thesis by blast
qed

end
