(* ===== verification/SchedSpec.thy ===== *)
theory SchedSpec
  imports SchedWalk VmSpec
begin

text \<open>
  The properties of the scheduler, with a concrete machine on which their hypotheses hold: one
  hart with its idle process, a running and a ready process of priority 16, a process of
  priority 3 that sleeps for one more tick, and a second hart.
\<close>

section \<open>A concrete machine\<close>

definition demo_proc :: "u64 \<Rightarrow> nat \<Rightarrow> u32 \<Rightarrow> u64 \<Rightarrow> u64 \<Rightarrow> process" where
  "demo_proc n prio st nx pv =
     \<lparr>p_context = (\<lambda>_. 0), p_tf = 0x9000 + 0x1000 * n, p_satp = 0, kstack = 0, pid = n, parent_pid = 0,
      p_name = [], p_state = st, priority = prio, time_slice = 4 * of_nat prio + 4, ticks_left = 1,
      cpu_time = 0, capability_root = 0, mailbox = (\<lambda>_. 0), ipc_pending_pid = 0, mailbox_status = 0,
      active_grant = 0, grant_whitelist = (\<lambda>_. 0), p_next = nx, p_prev = pv, exit_code = 0,
      magic = PROCESS_MAGIC\<rparr>"

definition demo_procs :: "u64 \<Rightarrow> process" where
  "demo_procs p =
     (if p = 0x2000 then demo_proc 0 31 0 0x2000 0x2000
      else if p = 0x3000 then demo_proc 1 16 1 0x4000 0x4000
      else if p = 0x4000 then demo_proc 2 16 0 0x3000 0x3000
      else if p = 0x5000 then demo_proc 3 3 4 0 0
      else if p = 0x6000 then demo_proc 0 31 1 0x6000 0x6000
      else demo_proc 9 0 9 0 0)"

definition demo_rq :: "u64 \<Rightarrow> runqueue" where
  "demo_rq r =
     (if r = 0x1000 then
        \<lparr>circles = (\<lambda>i. if i = 31 then 0x2000 else if i = 16 then 0x3000 else 0),
         lookup_bitmap = shl1 31 OR shl1 16, curr_process = 0x3000, idle_process = 0x2000,
         starv_ticks = 0, hart_id = 0, process_count = 3\<rparr>
      else
        \<lparr>circles = (\<lambda>i. if i = 31 then 0x6000 else 0),
         lookup_bitmap = shl1 31, curr_process = 0x6000, idle_process = 0x6000,
         starv_ticks = 0, hart_id = 1, process_count = 1\<rparr>)"

definition demo_ks :: kstate where
  "demo_ks =
     slabs.extend
       (vmem.extend demo_vm (slabs.fields (\<lambda>_. \<lparr>obj_size = 0, aligned_size = 0, cache_flag = 0,
          cache_name = [], list_full = 0, list_partial = 0, list_empty = 0, next_cache = 0\<rparr>) 0 0))
       (kstate.fields demo_procs
          (\<lambda>_. \<lparr>u_context = (\<lambda>_. 0), epc = 0, sstatus = 0, kernel_satp = 0, kernel_sp = 0,
             kernel_trap = 0, user_satp = 0, kernel_tp = 0\<rparr>)
          demo_rq 0x1000 2 (\<lambda>j. if j = 0 then 0x1000 else if j = 1 then 0x1800 else 0)
          (\<lambda>w. if w = Sleeping then 0x5000 else 0) 0 4 4 0 0 (\<lambda>_. 0) 0 [] (\<lambda>_. 0) False True 0 False (0, 0))"

lemma demo_ks_fields [simp]:
  "procs demo_ks = demo_procs" "rqs demo_ks = demo_rq" "tp demo_ks = 0x1000" "locks demo_ks = (\<lambda>_. 0)"
  "lists demo_ks w = (if w = Sleeping then 0x5000 else 0)" "emergency_process demo_ks = 0"
  "curr demo_ks = 0x3000" "hart demo_ks = 2"
  "closet_rq demo_ks j = (if j = 0 then 0x1000 else if j = 1 then 0x1800 else 0)"
  by (simp_all add: demo_ks_def slabs.extend_def kstate.fields_def curr_def demo_rq_def)

definition demo_Q :: "u64 set" where
  "demo_Q = {0x1000, 0x1800}"

fun demo_L :: layout_of where
  "demo_L (OnQueue r i) =
     (if r = 0x1000 \<and> i = 31 then [0x2000] else if r = 0x1000 \<and> i = 16 then [0x3000, 0x4000]
      else if r = 0x1800 \<and> i = 31 then [0x6000] else [])"
| "demo_L (OnList w) = (if w = Sleeping then [0x5000] else [])"

lemma demo_placed: "placed demo_ks demo_Q demo_L"
proof -
  have n: "nxp demo_ks p = p_next (demo_procs p)" "pvp demo_ks p = p_prev (demo_procs p)" for p
    by (simp_all add: nxp_def pvp_def)
  have "linked demo_ks x (demo_L x)" if "x \<in> places demo_Q" for x
    using that
    by (cases x) (auto simp: demo_Q_def demo_rq_def bit_or_iff bit_shl1 circ_def n demo_procs_def
        demo_proc_def dlist_def)
  moreover have "fits demo_ks x p" if "x \<in> places demo_Q" "p \<in> set (demo_L x)" for x p
    using that
    by (cases x) (auto simp: fits.simps demo_Q_def demo_procs_def demo_proc_def demo_rq_def
        split: if_splits)
  moreover have "set (demo_L x) \<inter> set (demo_L y) = {}" if "x \<noteq> y" for x y
    using that by (cases x; cases y) auto
  ultimately show ?thesis by (simp add: placed_def)
qed

lemma demo_ok: "calm demo_ks" "tp demo_ks \<in> demo_Q" "running_ok demo_ks demo_L"
  "emergency_ok demo_ks demo_L" "demo_L (OnQueue (tp demo_ks) 31) \<noteq> []"
  by (simp_all add: calm_def demo_Q_def running_ok_def emergency_ok_def demo_procs_def demo_proc_def)

section \<open>Blocking and waking\<close>

text \<open>The operation that blocks on each list, and the one that wakes from it.\<close>

fun block_of :: "wlist \<Rightarrow> u32 \<Rightarrow> u64 \<Rightarrow> kstate \<Rightarrow> kstate outcome" where
  "block_of Blocked k p = block_process p"
| "block_of Sleeping k p = sleep_process p k"
| "block_of BlockedIpc k p = block_ipc_process p"
| "block_of BlockedIpcSend k p = block_ipc_send_process p"
| "block_of Zombie k p = (\<lambda>s. Hang)"

text \<open>
  C17. Each of the four blocking operations, applied to a process on the running hart's queue
  that is not an idle process, returns, moves exactly that process from its circle to the
  front of its list, gives it the list's state (and the tick count when it sleeps), requests a
  reschedule, and leaves every other process's data and place alone; no lock stays held.
\<close>

theorem blocking_moves_one:
  assumes "placed s Q L" and "calm s" and "tp s \<in> Q" and "i < 32"
    and "p \<in> set (L (OnQueue (tp s) i))" and "pid (procs s p) \<noteq> 0" and "w \<noteq> Zombie"
  shows "\<exists>t. block_of w k p s = Ret t \<and> placed t Q (leave_for (tp s) i w p L) \<and> calm t \<and> ssip t \<and>
    curr t = curr s \<and> (\<forall>q. data (procs t q) = data (if q = p
      then (procs s p)\<lparr>p_state := state_code w,
             ticks_left := (if w = Sleeping then k else ticks_left (procs s p))\<rparr>
      else procs s q))"
proof (cases w)
  case Sleeping
  obtain t where "block_on Sleeping (state_code Sleeping) (\<lambda>x. x\<lparr>ticks_left := k\<rparr>) p s = Ret t"
    "placed t Q (leave_for (tp s) i Sleeping p L)" "calm t" "ssip t" "curr t = curr s"
    "\<forall>q. data (procs t q) = data (if q = p
        then (procs s p)\<lparr>p_state := state_code Sleeping, ticks_left := k\<rparr> else procs s q)"
    using block_on_ok [OF assms(1-6), where f = "\<lambda>x. x\<lparr>ticks_left := k\<rparr>" and w = Sleeping] by auto
  then show ?thesis using Sleeping by (auto simp: sleep_process_def)
qed (use block_on_ok [OF assms(1-6), where f = id and w = w] assms(7) in
      \<open>auto simp: block_process_def block_ipc_process_def block_ipc_send_process_def\<close>)

theorem blocking_moves_one_witness:
  "\<exists>t. sleep_process 0x3000 7 demo_ks = Ret t \<and> ssip t \<and> ticks_left (procs t 0x3000) = 7 \<and>
     placed t demo_Q (leave_for 0x1000 16 Sleeping 0x3000 demo_L)"
proof -
  obtain t where t: "sleep_process 0x3000 7 demo_ks = Ret t" "ssip t"
    "placed t demo_Q (leave_for 0x1000 16 Sleeping 0x3000 demo_L)"
    "data (procs t 0x3000) = data ((demo_procs 0x3000)\<lparr>p_state := 4, ticks_left := 7\<rparr>)"
    using blocking_moves_one [OF demo_placed demo_ok(1,2), of 16 "0x3000" Sleeping 7]
    by (auto simp: demo_procs_def demo_proc_def)
  then show ?thesis using data_fields(11) [OF t(4)] by auto
qed

fun wake_of :: "wlist \<Rightarrow> u64 \<Rightarrow> kstate \<Rightarrow> kstate outcome" where
  "wake_of Blocked p = unblock_process p"
| "wake_of BlockedIpc p = unblock_ipc_process p"
| "wake_of BlockedIpcSend p = unblock_ipc_send_process p"
| "wake_of Sleeping p = (\<lambda>s. Hang)"
| "wake_of Zombie p = (\<lambda>s. Hang)"

lemma unblock_from_ok:
  assumes "placed s Q L" and "calm s" and "tp s \<in> Q" and "p \<in> set (L (OnList w))"
  shows "\<exists>t. unblock_from w (state_code w) p s = Ret t \<and>
    placed t Q (join_from (tp s) (priority (procs s p)) w p L) \<and> calm t \<and> curr t = curr s \<and> tp t = tp s \<and>
    kernel_tp (tframes t (p_tf (procs s p))) = tp s \<and>
    ssip t = (ssip s \<or> priority (procs s p) < priority (procs s (curr s))) \<and>
    (\<forall>q. data (procs t q) = data ((if q = p then (procs s p)\<lparr>p_state := 0\<rparr> else procs s q)
       \<lparr>ticks_left := (if q = curr s \<and> priority (procs s p) < priority (procs s (curr s)) then 0 else ticks_left (procs s q))\<rparr>))"
proof -
  define s1 where "s1 = s\<lparr>locks := (\<lambda>_. 0)(ListLock w := 1)\<rparr>"
  have s1: "procs s1 = procs s" "rqs s1 = rqs s" "tp s1 = tp s" "curr s1 = curr s" "ssip s1 = ssip s"
    by (simp_all add: s1_def curr_def)
  have pl: "placed s1 Q L" using assms(1) placed_cong [of s1 s Q L] by (simp add: s1_def)
  have k: "locks s1 (RqLock (tp s1)) = 0" by (simp add: s1_def)
  obtain u where u: "wake_from w (state_code w) p s1 = Ret u"
    "placed u Q (join_from (tp s) (priority (procs s p)) w p L)" "locks u = locks s1"
    "tp u = tp s" "curr u = curr s" "ssip u = ssip s" "kernel_tp (tframes u (p_tf (procs s p))) = tp s"
    "\<And>q. data (procs u q) = data (if q = p then (procs s p)\<lparr>p_state := 0\<rparr> else procs s q)"
    using wake_from_ok [OF pl k, of p w] assms(3,4) unfolding s1 by blast
  let ?u = "release (ListLock w) u" and ?c = "curr s" and ?f = "\<lambda>p. p\<lparr>ticks_left := 0 :: u32\<rparr>"
  have pr: "priority (procs u p) = priority (procs s p)" "priority (procs u ?c) = priority (procs s ?c)"
    using data_fields(9) [OF u(8) [of p]] data_fields(9) [OF u(8) [of ?c]] by (simp_all split: if_splits)
  have a: "acquire (ListLock w) s = Ret s1" using assms(2) by (simp add: acquire_free calm_def s1_def)
  have cu: "curr ?u = ?c" using u(5) by (simp add: curr_def field_upd tp_upd)
  define t where "t = (if priority (procs s p) < priority (procs s ?c)
     then trigger_software_interrupt (upd_proc ?c ?f ?u) else ?u)"
  have "unblock_from w (state_code w) p s = Ret t"
    by (simp add: unblock_from_def a u(1) Let_def cu procs_other pr preempt_if_higher_def t_def)
  moreover have "placed t Q (join_from (tp s) (priority (procs s p)) w p L)"
  proof -
    have pu: "placed ?u Q (join_from (tp s) (priority (procs s p)) w p L)"
      by (subst placed_cong [where s = u]) (simp_all add: field_upd u(2))
    moreover have "placed (trigger_software_interrupt (upd_proc ?c ?f ?u)) Q
        (join_from (tp s) (priority (procs s p)) w p L)"
      by (subst placed_cong [where s = "upd_proc ?c ?f ?u"])
        (simp_all add: trigger_software_interrupt_def placed_upd_proc [OF pu])
    ultimately show ?thesis by (simp add: t_def)
  qed
  moreover have "calm t" "curr t = ?c" "tp t = tp s"
    using u(3,4) cu by (auto simp: t_def calm_def trigger_software_interrupt_def field_upd s1_def curr_def tp_upd)
  moreover have "kernel_tp (tframes t (p_tf (procs s p))) = tp s"
    using u(7) by (simp add: t_def trigger_software_interrupt_def upd_proc_def release_def)
  moreover have "ssip t = (ssip s \<or> priority (procs s p) < priority (procs s ?c))"
    using u(6) by (simp add: t_def trigger_software_interrupt_def field_upd release_def)
  moreover have "data (procs t q) = data ((if q = p then (procs s p)\<lparr>p_state := 0\<rparr> else procs s q)
       \<lparr>ticks_left := (if q = ?c \<and> priority (procs s p) < priority (procs s ?c) then 0 else ticks_left (procs s q))\<rparr>)" for q
    using u(8) [of q] data_ticks [OF u(8) [of q]]
    by (auto simp: t_def trigger_software_interrupt_def field_upd release_def upd_proc_def)
  ultimately show ?thesis by blast
qed

text \<open>
  C18. Each of the three waking operations, applied to a process on its list, returns, moves
  exactly that process to the end of the running hart's circle of its priority in the ready
  state, and makes the hart its owner; a process of better priority than the running one cuts
  the running one's slice to zero and requests a reschedule, any other does neither.
\<close>

theorem waking_moves_one:
  assumes "placed s Q L" and "calm s" and "tp s \<in> Q" and "p \<in> set (L (OnList w))"
    and "w \<noteq> Zombie" and "w \<noteq> Sleeping"
  shows "\<exists>t. wake_of w p s = Ret t \<and>
    placed t Q (join_from (tp s) (priority (procs s p)) w p L) \<and> calm t \<and> curr t = curr s \<and>
    kernel_tp (tframes t (p_tf (procs s p))) = tp s \<and>
    (if priority (procs s p) < priority (procs s (curr s))
     then ssip t \<and> ticks_left (procs t (curr s)) = 0
     else ssip t = ssip s \<and> data (procs t p) = data ((procs s p)\<lparr>p_state := 0\<rparr>)) \<and>
    (\<forall>q. q \<noteq> p \<and> q \<noteq> curr s \<longrightarrow> data (procs t q) = data (procs s q))"
proof -
  have w: "wake_of w p s = unblock_from w (state_code w) p s"
    using assms(5,6) by (cases w) (simp_all add: unblock_process_def unblock_ipc_process_def
        unblock_ipc_send_process_def)
  obtain t where t: "unblock_from w (state_code w) p s = Ret t"
    "placed t Q (join_from (tp s) (priority (procs s p)) w p L)" "calm t" "curr t = curr s"
    "kernel_tp (tframes t (p_tf (procs s p))) = tp s"
    "ssip t = (ssip s \<or> priority (procs s p) < priority (procs s (curr s)))"
    "\<And>q. data (procs t q) = data ((if q = p then (procs s p)\<lparr>p_state := 0\<rparr> else procs s q)
       \<lparr>ticks_left := (if q = curr s \<and> priority (procs s p) < priority (procs s (curr s)) then 0 else ticks_left (procs s q))\<rparr>)"
    using unblock_from_ok [OF assms(1-4)] by blast
  have "if priority (procs s p) < priority (procs s (curr s))
     then ssip t \<and> ticks_left (procs t (curr s)) = 0
     else ssip t = ssip s \<and> data (procs t p) = data ((procs s p)\<lparr>p_state := 0\<rparr>)"
    using t(6) t(7) [of p] data_fields(11) [OF t(7) [of "curr s"]] by auto
  then show ?thesis using t(1-5) t(7) by (auto simp: w)
qed

theorem waking_moves_one_witness:
  "\<exists>t u. block_process 0x3000 demo_ks = Ret t \<and> unblock_process 0x3000 t = Ret u \<and>
     placed u demo_Q (join_from 0x1000 16 Blocked 0x3000 (leave_for 0x1000 16 Blocked 0x3000 demo_L))"
proof -
  obtain t where t: "block_process 0x3000 demo_ks = Ret t" "calm t" "tp t = 0x1000"
    "placed t demo_Q (leave_for 0x1000 16 Blocked 0x3000 demo_L)"
    "data (procs t 0x3000) = data ((demo_procs 0x3000)\<lparr>p_state := 2\<rparr>)"
    using block_on_ok [OF demo_placed demo_ok(1,2), where i = 16 and p = "0x3000" and f = id and w = Blocked]
    by (auto simp: block_process_def demo_procs_def demo_proc_def)
  have "priority (procs t 0x3000) = 16"
    using data_fields(9) [OF t(5)] by (simp add: demo_procs_def demo_proc_def)
  then show ?thesis
    using waking_moves_one [OF t(4,2), of "0x3000" Blocked] t(1,3) by (auto simp: demo_Q_def leave_for_def)
qed

section \<open>Dispatching\<close>

text \<open>
  C16. The dispatcher always returns and never panics on a well-formed machine with an idle
  process. It takes the processor from the running process (whose circle turns and whose slice
  is refilled), then runs the emergency process if there is one and otherwise the head of the
  first non-empty circle, so no process of worse priority runs while a better one is ready.
  Exactly the chosen process is running afterwards, no lock is held, and the ready circles it
  passed over are recorded in the upper half of the bitmap.
\<close>

theorem schedule_strict_priority:
  assumes "placed s Q L" and "calm s" and "tp s \<in> Q" and "running_ok s L" and "emergency_ok s L"
    and "L (OnQueue (tp s) 31) \<noteq> []"
  shows "\<exists>t. schedule s = Ret t \<and> placed t Q (rotated s L) \<and> calm t \<and>
    (emergency_process s \<noteq> 0 \<longrightarrow> curr t = emergency_process s) \<and>
    (emergency_process s = 0 \<longrightarrow> (\<exists>i<32. rotated s L (OnQueue (tp s) i) \<noteq> [] \<and>
       curr t = hd (rotated s L (OnQueue (tp s) i)) \<and> (\<forall>j<i. L (OnQueue (tp s) j) = []))) \<and>
    p_state (procs t (curr t)) = 1 \<and> last_switch t = (curr s, curr t) \<and> emergency_process t = 0 \<and>
    (\<forall>i<32. \<forall>q\<in>set (L (OnQueue (tp s) i)). q \<noteq> curr t \<longrightarrow> p_state (procs t q) = 0) \<and>
    passed s (rotated s L) t"
proof -
  let ?L = "rotated s L"
  obtain t where t: "schedule s = Ret t" "placed t Q ?L" "calm t" "tp t = tp s" "curr t = next_up s ?L"
    "p_state (procs t (curr t)) = 1" "last_switch t = (curr s, curr t)" "emergency_process t = 0"
    "passed s ?L t" using schedule_ok [OF assms] by blast
  let ?P = "\<lambda>i. ?L (OnQueue (tp s) i) \<noteq> []"
  obtain i where i: "find ?P [0..<32] = Some i" "i \<le> 31" "?P i" "\<And>j. j < i \<Longrightarrow> \<not> ?P j"
    by (rule find_first [of ?P 31]) (use assms(6) in \<open>auto simp: rotated_Nil\<close>)
  have one: "p_state (procs t q) = 0" if "j < 32" "q \<in> set (L (OnQueue (tp s) j))" "q \<noteq> curr t" for j q
  proof -
    have "fits t (OnQueue (tp s) j) q" using placedD(2) [OF t(2)] that assms(3) by (simp add: rotated_set)
    moreover have "curr_process (rqs t (tp s)) = curr t" by (simp add: curr_def t(4))
    ultimately show ?thesis using that(3) by (auto simp: fits.simps)
  qed
  have "emergency_process s = 0 \<longrightarrow> (\<exists>i<32. ?P i \<and> curr t = hd (?L (OnQueue (tp s) i)) \<and>
      (\<forall>j<i. L (OnQueue (tp s) j) = []))"
    using i t(5) by (intro impI exI [of _ i]) (auto simp: next_up_def rotated_Nil)
  then show ?thesis using t one by (auto simp: next_up_def)
qed

theorem schedule_strict_priority_witness:
  "\<exists>t. schedule demo_ks = Ret t \<and> curr t = 0x4000"
proof -
  have r: "rotated demo_ks demo_L (OnQueue 0x1000 16) = [0x4000, 0x3000]"
    by (simp add: rotated_def demo_procs_def demo_proc_def)
  obtain t i where t: "schedule demo_ks = Ret t" "curr t = hd (rotated demo_ks demo_L (OnQueue 0x1000 i))"
    "rotated demo_ks demo_L (OnQueue 0x1000 i) \<noteq> []" "\<forall>j<i. demo_L (OnQueue 0x1000 j) = []"
    using schedule_strict_priority [OF demo_placed demo_ok] by auto
  have "i = 16" using t(3,4) by (auto simp: rotated_Nil split: if_splits)
  then show ?thesis using t r by auto
qed

text \<open>A number of dispatches in a row.\<close>

fun dispatches :: "nat \<Rightarrow> kstate \<Rightarrow> kstate outcome" where
  "dispatches 0 s = Ret s"
| "dispatches (Suc n) s = bindO (schedule s) (dispatches n)"

definition turn_ok :: "kstate \<Rightarrow> u64 set \<Rightarrow> layout_of \<Rightarrow> nat \<Rightarrow> bool" where
  "turn_ok s Q L i \<longleftrightarrow> placed s Q L \<and> calm s \<and> tp s \<in> Q \<and> running_ok s L \<and> emergency_process s = 0 \<and>
     L (OnQueue (tp s) 31) \<noteq> [] \<and> i < 32 \<and> L (OnQueue (tp s) i) \<noteq> [] \<and>
     (\<forall>j<i. L (OnQueue (tp s) j) = []) \<and> curr s = hd (L (OnQueue (tp s) i)) \<and>
     p_state (procs s (curr s)) = 1"

lemma turn_step:
  assumes "turn_ok s Q L i"
  shows "\<exists>t. schedule s = Ret t \<and> tp t = tp s \<and>
    turn_ok t Q (L(OnQueue (tp s) i := rotate1 (L (OnQueue (tp s) i)))) i"
proof -
  let ?x = "OnQueue (tp s) i"
  have a: "placed s Q L" "calm s" "tp s \<in> Q" "running_ok s L" "emergency_ok s L" "L (OnQueue (tp s) 31) \<noteq> []"
    and i: "i < 32" "L ?x \<noteq> []" "\<And>j. j < i \<Longrightarrow> L (OnQueue (tp s) j) = []" "curr s = hd (L ?x)"
      "p_state (procs s (curr s)) = 1" and e: "emergency_process s = 0"
    using assms by (auto simp: turn_ok_def emergency_ok_def)
  have "fits s ?x (curr s)" using placedD(2) [OF a(1)] a(3) i by simp
  then have "priority (procs s (curr s)) = i" by (simp add: fits.simps)
  then have L: "rotated s L = L(?x := rotate1 (L ?x))" using i(5) by (simp add: rotated_def Let_def)
  have "find (\<lambda>j. rotated s L (OnQueue (tp s) j) \<noteq> []) [0..<32] = Some i"
    using i(1-3) by (auto simp: rotated_Nil find_Some_iff intro!: exI [of _ i])
  then have "next_up s (rotated s L) = hd (rotated s L ?x)" using e by (simp add: next_up_def)
  then obtain t where t: "schedule s = Ret t" "placed t Q (rotated s L)" "calm t" "tp t = tp s"
    "curr t = hd (rotated s L ?x)" "p_state (procs t (curr t)) = 1" "emergency_process t = 0"
    "running_ok t (rotated s L)" using schedule_ok [OF a] by auto
  have "rotated s L (OnQueue (tp s) j) = [] \<longleftrightarrow> L (OnQueue (tp s) j) = []" for j
    by (rule rotated_Nil)
  then have "turn_ok t Q (rotated s L) i" using t a(3,6) i by (simp add: turn_ok_def)
  then show ?thesis using t(1,4) by (auto simp: L)
qed

text \<open>
  C19. Round robin: while nothing of better priority is ready, the processes of the running
  circle take turns in order, so each of them runs again after at most as many dispatches as
  the circle has members.
\<close>

theorem round_robin:
  assumes "turn_ok s Q L i"
  shows "\<exists>t. dispatches k s = Ret t \<and> p_state (procs t (curr t)) = 1 \<and>
    curr t = L (OnQueue (tp s) i) ! (k mod length (L (OnQueue (tp s) i)))"
proof -
  let ?x = "OnQueue (tp s) i"
  have "\<exists>t. dispatches k u = Ret t \<and> tp t = tp s \<and> turn_ok t Q (M(?x := rotate k (M ?x))) i"
    if "turn_ok u Q M i" "tp u = tp s" for u M
    using that
  proof (induction k arbitrary: u M)
    case (Suc k)
    obtain v where v: "schedule u = Ret v" "tp v = tp s" "turn_ok v Q (M(?x := rotate1 (M ?x))) i"
      using turn_step [OF Suc.prems(1)] Suc.prems(2) by auto
    have e: "(M(?x := rotate1 (M ?x)))(?x := rotate k ((M(?x := rotate1 (M ?x))) ?x)) =
        M(?x := rotate (Suc k) (M ?x))" by (rule ext) (simp add: rotate1_rotate_swap)
    show ?case using Suc.IH [OF v(3,2)] unfolding e dispatches.simps v(1) bindO.simps .
  qed simp
  then obtain t where t: "dispatches k s = Ret t" "tp t = tp s" "turn_ok t Q (L(?x := rotate k (L ?x))) i"
    using assms by blast
  have "L ?x \<noteq> []" using assms by (simp add: turn_ok_def)
  then show ?thesis using t by (auto simp: turn_ok_def hd_rotate_conv_nth)
qed

lemma demo_turn: "turn_ok demo_ks demo_Q demo_L 16"
  using demo_ok by (simp add: turn_ok_def demo_placed demo_procs_def demo_proc_def)

theorem round_robin_witness:
  "(\<exists>t. dispatches 1 demo_ks = Ret t \<and> curr t = 0x4000) \<and>
   (\<exists>t. dispatches 2 demo_ks = Ret t \<and> curr t = 0x3000)"
  using round_robin [OF demo_turn, of 1] round_robin [OF demo_turn, of 2]
  by (auto simp: numeral_2_eq_2)

section \<open>Starvation\<close>

text \<open>
  C20. No priority starves: when the sweep finds a ready circle that the dispatcher has passed
  over, the very next dispatch runs the head of the lowest such circle, whatever better
  priorities are ready, and the record of passed-over priorities starts afresh.
\<close>

theorem sweep_ends_starvation:
  assumes "placed s Q L" and "calm s" and "tp s \<in> Q" and "running_ok s L"
    and "L (OnQueue (tp s) 31) \<noteq> []" and "j < 31"
    and "bit (lookup_bitmap (rqs s (tp s))) (j + 32)" and "L (OnQueue (tp s) j) \<noteq> []"
    and "\<And>k. j < k \<Longrightarrow> k < 31 \<Longrightarrow> bit (lookup_bitmap (rqs s (tp s))) (k + 32) \<Longrightarrow> L (OnQueue (tp s) k) = []"
  shows "\<exists>t. schedule (anti_starvation_sweeper s) = Ret t \<and> curr t = hd (L (OnQueue (tp s) j)) \<and>
    p_state (procs t (curr t)) = 1 \<and> emergency_process t = 0 \<and>
    (\<forall>n. bit (lookup_bitmap (rqs t (tp s))) n \<longleftrightarrow> n < 32 \<and> L (OnQueue (tp s) n) \<noteq> [])"
proof -
  let ?u = "anti_starvation_sweeper s"
  note sw = sweep_ok [OF assms(1,3,6-9)]
  have hd: "hd (L (OnQueue (tp s) j)) \<in> set (L (OnQueue (tp s) j))" using assms(8) by simp
  then have nz: "hd (L (OnQueue (tp s) j)) \<noteq> 0"
    using linked_nonzero [OF placedD(1) [OF assms(1), of "OnQueue (tp s) j"]] assms(3,6) by fastforce
  have u: "calm ?u" "tp ?u \<in> Q" "running_ok ?u L" "L (OnQueue (tp ?u) 31) \<noteq> []"
    using assms(2-5) sw(4-7) by (simp_all add: calm_def running_ok_def)
  have e: "emergency_ok ?u L" using hd assms(6) sw(2,4) by (auto simp: emergency_ok_def intro!: exI [of _ j])
  obtain t where t: "schedule ?u = Ret t" "curr t = next_up ?u (rotated ?u L)"
    "p_state (procs t (curr t)) = 1" "emergency_process t = 0" "passed ?u (rotated ?u L) t"
    using schedule_ok [OF sw(1) u(1,2,3) e u(4)] by blast
  moreover have "next_up ?u (rotated ?u L) = hd (L (OnQueue (tp s) j))" using nz sw(2) by (simp add: next_up_def)
  moreover have "bit (lookup_bitmap (rqs t (tp s))) n \<longleftrightarrow> n < 32 \<and> L (OnQueue (tp s) n) \<noteq> []" for n
    using t(5) sw(3) nz sw(2,4) by (simp add: passed_def)
  ultimately show ?thesis by auto
qed

text \<open>The demo machine, with priority 16 passed over earlier.\<close>

definition demo_starved :: kstate where
  "demo_starved = upd_rq 0x1000 (\<lambda>x. x\<lparr>lookup_bitmap := lookup_bitmap x OR shl1 48\<rparr>) demo_ks"

lemma demo_starved_fields:
  "tp demo_starved = 0x1000" "procs demo_starved = demo_procs" "locks demo_starved = (\<lambda>_. 0)"
  "curr demo_starved = 0x3000"
  "bit (lookup_bitmap (rqs demo_starved 0x1000)) n \<longleftrightarrow> n \<in> {16, 31, 48}"
  by (auto simp: demo_starved_def upd_rq_def curr_def demo_rq_def bit_or_iff bit_shl1)

theorem sweep_ends_starvation_witness:
  "\<exists>t. schedule (anti_starvation_sweeper demo_starved) = Ret t \<and> curr t = 0x3000"
proof -
  have b: "bit (lookup_bitmap (demo_rq 0x1000) OR shl1 48) n = bit (lookup_bitmap (demo_rq 0x1000)) n"
    if "n < 32" for n using that by (simp add: bit_or_iff bit_shl1)
  have "placed demo_starved demo_Q demo_L"
    unfolding demo_starved_def by (rule placed_bitmap [OF demo_placed]) (simp only: demo_ks_fields b)
  then show ?thesis
    using sweep_ends_starvation [of demo_starved demo_Q demo_L 16] demo_ok
    by (auto simp: demo_starved_fields calm_def running_ok_def demo_procs_def demo_proc_def demo_Q_def)
qed

section \<open>Stealing\<close>

text \<open>What stealing does with a process that the search has taken off its circle.\<close>

lemma steal_hit:
  assumes pl0: "placed s Q L" and tq: "tp s \<in> Q" and r: "r \<in> Q" "r \<noteq> tp s" and i: "i < 31"
    and p: "idle_in s L r i = Some p" and st: "steal_search [0..<hart s] s = Ret (p, t)"
    and c: "calm t" and sd: "same_data s (t\<lparr>locks := locks s\<rparr>)"
    and pl: "placed t Q (L(OnQueue r i := remove1 p (L (OnQueue r i))))"
  shows "\<exists>v. steal_process s = Ret (True, v) \<and> calm v \<and> curr v = curr s \<and>
     placed v Q (L(OnQueue r i := remove1 p (L (OnQueue r i)), OnQueue (tp s) i := L (OnQueue (tp s) i) @ [p])) \<and>
     kernel_tp (tframes v (p_tf (procs s p))) = tp s \<and> (\<forall>q. data (procs v q) = data (procs s q))"
proof -
  let ?L = "L(OnQueue r i := remove1 p (L (OnQueue r i)))"
  have x: "OnQueue r i \<in> places Q" using r i by simp
  have pm: "p \<in> set (L (OnQueue r i))" "p \<noteq> curr_process (rqs s r)" using idle_in_Some [OF p] by simp_all
  have p0: "p \<noteq> 0" using linked_nonzero [OF placedD(1) [OF pl0 x]] pm by auto
  have f: "priority (procs s p) = i" "magic (procs s p) = PROCESS_MAGIC" "p_state (procs s p) = 0"
    using placedD(2) [OF pl0 x pm(1)] pm(2) by (auto simp: fits.simps)
  have d: "data (procs t q) = data (procs s q)" for q using sd by (simp add: same_data_def)
  have tt: "tp t = tp s" "curr_process (rqs t r') = curr_process (rqs s r')" for r'
    using sd by (simp_all add: same_data_def)
  define u where "u = t\<lparr>locks := (\<lambda>_. 0)(RqLock (tp s) := 1)\<rparr>"
  define v where "v = release (RqLock (tp s)) (rq_insert (tp s) p u)"
  have pu: "placed u Q ?L" using pl placed_cong [of u t Q ?L] by (simp add: u_def)
  note fu = data_fields [OF d [of p], simplified f]
  have ins: "placed (rq_insert (tp s) p u) Q (?L(OnQueue (tp s) i := ?L (OnQueue (tp s) i) @ [p]))"
    using fu f i by (intro placed_join [OF pu nowhere_remove [OF pl0 x pm(1)] p0 tq]) (simp_all add: u_def)
  note ri = rq_insert_fields(8) [where p = p and s = u and r = "tp s"]
  have "steal_process s = Ret (True, v)"
    using st p0 c by (simp add: steal_process_def acquire_free calm_def tt u_def [symmetric] v_def Let_def)
      (simp add: u_def tt tp_surgery)
  moreover have "placed v Q (?L(OnQueue (tp s) i := L (OnQueue (tp s) i) @ [p]))"
    unfolding v_def using ins r(2)
    by (subst placed_cong [where s = "rq_insert (tp s) p u"]) (simp_all add: field_upd)
  moreover have "calm v" "curr v = curr s"
    using ri tt by (auto simp: v_def calm_def field_upd same_data_def u_def fun_eq_iff curr_def)
  moreover have "kernel_tp (tframes v (p_tf (procs s p))) = tp s"
    using kernel_tp_rq_insert [of "tp s" p u] fu(2) by (simp add: v_def release_def u_def)
  moreover have "data (procs v q) = data (procs s q)" for q
    using ri d by (simp add: v_def field_upd same_data_def u_def)
  ultimately show ?thesis by blast
qed

text \<open>
  C21. Stealing work: \<open>steal_process\<close> returns, and either takes nothing and changes nothing,
  because no other hart with more than one process has one that is not running (idle priority
  aside), or moves exactly one such process to the end of the same priority's circle of the
  running hart and makes this hart its owner. It never takes a process that runs elsewhere, so
  no process is ever on two harts.
\<close>

theorem steal_moves_one:
  assumes "placed s Q L" and "calm s" and "tp s \<in> Q" and "\<forall>x. length (L x) \<le> walk_fuel"
    and "\<forall>j<hart s. closet_rq s j \<noteq> 0 \<longrightarrow> closet_rq s j \<in> Q"
  shows "(steal_process s = Ret (False, s) \<and>
      (\<forall>j<hart s. robbable s j \<longrightarrow>
         (\<forall>i<31. \<forall>p\<in>set (L (OnQueue (closet_rq s j) i)). p = curr_process (rqs s (closet_rq s j))))) \<or>
    (\<exists>j<hart s. \<exists>i<31. \<exists>p t. let r = closet_rq s j in
       robbable s j \<and> p \<in> set (L (OnQueue r i)) \<and> p \<noteq> curr_process (rqs s r) \<and>
       steal_process s = Ret (True, t) \<and> calm t \<and> curr t = curr s \<and>
       placed t Q (L(OnQueue r i := remove1 p (L (OnQueue r i)),
                     OnQueue (tp s) i := L (OnQueue (tp s) i) @ [p])) \<and>
       kernel_tp (tframes t (p_tf (procs s p))) = tp s \<and>
       (\<forall>q. data (procs t q) = data (procs s q)))"
proof -
  have q: "\<forall>j\<in>set [0..<hart s]. closet_rq s j \<noteq> 0 \<longrightarrow> closet_rq s j \<in> Q" using assms(5) by simp
  have len: "\<And>x. length (L x) \<le> walk_fuel" using assms(4) by blast
  from steal_search_ok [OF assms(1,2) len q] show ?thesis
  proof (elim disjE conjE bexE exE)
    assume "steal_search [0..<hart s] s = Ret (0, s)"
      and n: "\<forall>j\<in>set [0..<hart s]. robbable s j \<longrightarrow> (\<forall>i<31. idle_in s L (closet_rq s j) i = None)"
    then show ?thesis by (intro disjI1) (auto simp: steal_process_def idle_in_def find_None_iff)
  next
    fix j i p t assume j: "j \<in> set [0..<hart s]" and i: "i < 31" and rb: "robbable s j"
      and p: "idle_in s L (closet_rq s j) i = Some p" and st: "steal_search [0..<hart s] s = Ret (p, t)"
      and c: "calm t" and sd: "same_data s (t\<lparr>locks := locks s\<rparr>)"
      and pl: "placed t Q (L(OnQueue (closet_rq s j) i := remove1 p (L (OnQueue (closet_rq s j) i))))"
    have r: "closet_rq s j \<in> Q" "closet_rq s j \<noteq> tp s" using q j rb by (auto simp: robbable_def)
    have pm: "p \<in> set (L (OnQueue (closet_rq s j) i))" "p \<noteq> curr_process (rqs s (closet_rq s j))"
      using idle_in_Some [OF p] by simp_all
    have "j < hart s" using j by simp
    then show ?thesis
      using steal_hit [OF assms(1,3) r i p st c sd pl] rb pm i unfolding Let_def by (intro disjI2 exI [of _ j]) blast
  qed
qed

text \<open>The demo machine seen from its second hart, with a busy first hart.\<close>

definition demo_thief :: kstate where
  "demo_thief = demo_ks\<lparr>tp := 0x1800\<rparr>"

theorem steal_moves_one_witness:
  "\<exists>t. steal_process demo_thief = Ret (True, t) \<and> kernel_tp (tframes t 0xB000) = 0x1800"
proof -
  have pl: "placed demo_thief demo_Q demo_L"
    using demo_placed placed_cong [of demo_thief demo_ks] by (simp add: demo_thief_def)
  have f: "calm demo_thief" "tp demo_thief = 0x1800" "hart demo_thief = 2" "procs demo_thief = demo_procs"
    "rqs demo_thief = demo_rq" "closet_rq demo_thief = closet_rq demo_ks"
    using demo_ok(1) by (simp_all add: demo_thief_def calm_def)
  have rob: "robbable demo_thief 0" by (simp add: robbable_def f demo_rq_def)
  have len: "\<forall>x. length (demo_L x) \<le> walk_fuel"
  proof
    fix x show "length (demo_L x) \<le> walk_fuel" by (cases x) (simp_all add: walk_fuel_def)
  qed
  have hq: "tp demo_thief \<in> demo_Q" "\<forall>j<hart demo_thief. closet_rq demo_thief j \<noteq> 0 \<longrightarrow> closet_rq demo_thief j \<in> demo_Q"
    by (simp_all add: f demo_Q_def)
  from steal_moves_one [OF pl f(1) hq(1) len hq(2), unfolded f Let_def] consider
    "\<forall>j<2. robbable demo_thief j \<longrightarrow> (\<forall>i<31. \<forall>p\<in>set (demo_L (OnQueue (closet_rq demo_ks j) i)).
       p = curr_process (demo_rq (closet_rq demo_ks j)))"
    | j i p t where "j < 2" "i < 31" "robbable demo_thief j" "p \<in> set (demo_L (OnQueue (closet_rq demo_ks j) i))"
       "p \<noteq> curr_process (demo_rq (closet_rq demo_ks j))" "steal_process demo_thief = Ret (True, t)"
       "kernel_tp (tframes t (p_tf (demo_procs p))) = 0x1800"
    by blast
  then show ?thesis
  proof cases
    case 1
    from 1 [rule_format, OF _ rob, of 16 "0x4000"] show ?thesis by (simp add: demo_rq_def)
  next
    case 2
    have "closet_rq demo_ks j = 0x1000" using 2(1,3) by (auto simp: robbable_def f less_Suc_eq numeral_2_eq_2)
    then have "p = 0x4000" using 2(2,4,5) by (auto simp: demo_rq_def split: if_splits)
    then show ?thesis using 2(6,7) by (auto simp: demo_procs_def demo_proc_def)
  qed
qed

section \<open>Sleeping\<close>

text \<open>
  C22. A tick of the sleep list \<open>Z\<close>, whoever is on it. A sleeper other than the running process counts down by one, and wakes
  exactly when the count was one. The running process is on the list itself when it has just put itself to sleep, and
  the rest of its slice is then the count it sleeps by: a better process that wakes before its turn has cut that count to 0,
  so that it wraps and the process sleeps on, one that wakes later cuts it to 0 after its turn; without such a process it
  is a sleeper like any other. Those who wake move in the order of the list to the end of the circle of their priority and
  become ready, the others stay in order. A running process that does not sleep loses its slice exactly when a better one
  wakes; no other process changes.
\<close>

theorem sleepers_tick:
  assumes "placed s Q L" and "calm s" and "tp s \<in> Q" and "length (L (OnList Sleeping)) \<le> walk_fuel"
    and "Z = L (OnList Sleeping)" and "c = curr s"
  shows "\<exists>t. update_sleep_list s = Ret t \<and> calm t \<and> curr t = c \<and>
    placed t Q (\<lambda>x. case x of
      OnQueue r i \<Rightarrow> L x @ (if r = tp s then filter (\<lambda>p. wakes s Z p \<and> priority (procs s p) = i) Z else [])
    | OnList w \<Rightarrow> if w = Sleeping then filter (\<lambda>p. \<not> wakes s Z p) Z else L x) \<and>
    (\<forall>q\<in>set Z. q \<noteq> c \<longrightarrow> (wakes s Z q \<longleftrightarrow> ticks_left (procs s q) = 1) \<and>
       ticks_left (procs t q) = ticks_left (procs s q) - 1) \<and>
    (c \<in> set Z \<longrightarrow> (wakes s Z c \<longleftrightarrow> ticks_left (procs s c) = 1 \<and> \<not> cut_before s Z) \<and>
       ticks_left (procs t c) = (if cut_after s Z then 0 else if cut_before s Z then 0xFFFFFFFF
         else ticks_left (procs s c) - 1)) \<and>
    (c \<notin> set Z \<longrightarrow> data (procs t c) = data (if better_woken s Z then (procs s c)\<lparr>ticks_left := 0\<rparr> else procs s c)) \<and>
    (\<forall>q. q \<notin> set Z \<and> q \<noteq> c \<longrightarrow> data (procs t q) = data (procs s q))"
proof -
  obtain t where t: "update_sleep_list s = Ret t" "calm t" "curr t = c" "placed t Q (walked s [] Z L)"
    "\<And>q. data (procs t q) = data (walked_proc s Z q)"
    using update_sleep_list_ok [OF assms(1-4)] unfolding assms(5,6) by blast
  have "walked s [] Z L = (\<lambda>x. case x of
      OnQueue r i \<Rightarrow> L x @ (if r = tp s then filter (\<lambda>p. wakes s Z p \<and> priority (procs s p) = i) Z else [])
    | OnList w \<Rightarrow> if w = Sleeping then filter (\<lambda>p. \<not> wakes s Z p) Z else L x)"
    unfolding walked_def append_Nil by (rule refl)
  note pl = t(4) [unfolded this]
  have k: "ticks_left (procs t q) = ticks_after s Z q" if "q \<in> set Z" for q
    using data_fields(11) [OF t(5) [of q]] that by (simp add: walked_proc_def)
  have w: "wakes s Z q \<longleftrightarrow> ticks_left (procs s q) = 1 \<and> (q = c \<longrightarrow> \<not> cut_before s Z)" for q
    by (simp add: wakes_def last_tick_def assms(6))
  have "data (procs t q) = data (procs s q)" if "q \<notin> set Z" "q \<noteq> c" for q
    using t(5) [of q] that by (simp add: walked_proc_def assms(6))
  moreover have "data (procs t c) = data (if better_woken s Z then (procs s c)\<lparr>ticks_left := 0\<rparr> else procs s c)" if "c \<notin> set Z"
    using t(5) [of c] that by (simp add: walked_proc_def assms(6))
  moreover have "ticks_left (procs t q) = ticks_left (procs s q) - 1" if "q \<in> set Z" "q \<noteq> c" for q
    using k [OF that(1)] that(2) by (simp add: ticks_after_def assms(6))
  moreover have "ticks_left (procs t c) = (if cut_after s Z then 0 else if cut_before s Z then 0xFFFFFFFF
      else ticks_left (procs s c) - 1)" if "c \<in> set Z"
    using k [OF that] by (simp add: ticks_after_def assms(6))
  ultimately show ?thesis using t(1-3) pl w by blast
qed

theorem sleepers_tick_witness:
  "\<exists>t. update_sleep_list demo_ks = Ret t \<and> ticks_left (procs t 0x3000) = 0 \<and>
     ticks_left (procs t 0x5000) = 0"
proof -
  let ?Z = "demo_L (OnList Sleeping)"
  have c: "curr demo_ks = 0x3000" by simp
  have len: "length ?Z \<le> walk_fuel" by (simp add: walk_fuel_def)
  have b: "better_woken demo_ks ?Z" by (simp add: better_woken_def last_tick_def demo_procs_def demo_proc_def)
  obtain t where t: "update_sleep_list demo_ks = Ret t"
    "data (procs t 0x3000) = data ((procs demo_ks 0x3000)\<lparr>ticks_left := 0\<rparr>)"
    "ticks_left (procs t 0x5000) = ticks_left (procs demo_ks 0x5000) - 1"
    using sleepers_tick [OF demo_placed demo_ok(1,2) len refl c [symmetric]] b by auto
  then show ?thesis using data_fields(11) [OF t(2)] by (simp add: demo_procs_def demo_proc_def)
qed

end
