(* ===== verification/ElfSpec.thy ===== *)
theory ElfSpec
  imports ElfLoad SchedSpec
begin

text \<open>
  The program loader \<open>load_elf\<close> on a sound image: what it reads of the image, what a loaded segment is, and the
  property that the address space afterwards shows the image's segments, each in a block of its own.
\<close>

section \<open>Images\<close>

definition phdr_at :: "memory \<Rightarrow> u64 \<Rightarrow> nat \<Rightarrow> u64" where
  "phdr_at m binary i = binary + ld64 m (binary + 32) + of_nat i * ucast (ld16 m (binary + 54))"

definition phnum :: "memory \<Rightarrow> u64 \<Rightarrow> nat" where
  "phnum m binary = unat (ld16 m (binary + 56))"

definition loadable :: "memory \<Rightarrow> u64 \<Rightarrow> nat \<Rightarrow> bool" where
  "loadable m binary i \<longleftrightarrow> ld32 m (phdr_at m binary i) = 1"

definition seg_range :: "memory \<Rightarrow> u64 \<Rightarrow> nat set" where
  "seg_range m ph = {unat (ph_vaddr m ph) ..< unat (ph_vaddr m ph) + seg_span m ph}"

text \<open>The bytes the loader looks at: the file header, the program headers, the contents of the segments.\<close>

definition elf_reads :: "memory \<Rightarrow> u64 \<Rightarrow> u64 set" where
  "elf_reads m binary = {binary + of_nat k | k. k < 64} \<union>
     {phdr_at m binary i + of_nat k | i k. i < phnum m binary \<and> k < 56} \<union>
     {binary + ph_offset m (phdr_at m binary i) + of_nat k | i k.
        i < phnum m binary \<and> loadable m binary i \<and> k < unat (ph_filesz m (phdr_at m binary i))}"

definition elf_ok :: "memory \<Rightarrow> u64 \<Rightarrow> bool" where
  "elf_ok m binary \<longleftrightarrow>
     (\<forall>i<phnum m binary. loadable m binary i \<longrightarrow> seg_ok m (phdr_at m binary i) \<and>
        (\<forall>j<i. loadable m binary j \<longrightarrow>
           seg_range m (phdr_at m binary i) \<inter> seg_range m (phdr_at m binary j) = {}))"

text \<open>A program header reads the same when its bytes are the same.\<close>

lemma ld_bytes_cong: "(\<And>k. k < n \<Longrightarrow> m (a + of_nat k) = m' (a + of_nat k)) \<Longrightarrow> ld_bytes n m a = ld_bytes n m' a"
proof (induction n arbitrary: a)
  case (Suc n)
  have "m (a + 1 + of_nat k) = m' (a + 1 + of_nat k)" if "k < n" for k
    using Suc.prems [of "Suc k"] that by (simp add: algebra_simps)
  then show ?case using Suc.IH [of "a + 1"] Suc.prems [of 0] by simp
qed simp

definition same_header :: "memory \<Rightarrow> memory \<Rightarrow> u64 \<Rightarrow> bool" where
  "same_header m m' ph \<longleftrightarrow> ld32 m' ph = ld32 m ph \<and> ph_flags m' ph = ph_flags m ph \<and> ph_offset m' ph = ph_offset m ph \<and>
     ph_vaddr m' ph = ph_vaddr m ph \<and> ph_filesz m' ph = ph_filesz m ph \<and> ph_memsz m' ph = ph_memsz m ph"

lemma same_header:
  assumes "\<And>k. k < 56 \<Longrightarrow> m' (ph + of_nat k) = m (ph + of_nat k)"
  shows "same_header m m' ph"
proof -
  have l: "ld_bytes n m' (ph + of_nat j) = ld_bytes n m (ph + of_nat j)" if "j + n \<le> 56" for n j
  proof (rule ld_bytes_cong)
    fix k assume "k < n"
    then show "m' (ph + of_nat j + of_nat k) = m (ph + of_nat j + of_nat k)"
      using assms [of "j + k"] that by (simp add: algebra_simps)
  qed
  show ?thesis using l [of 0 4] l [of 4 4] l [of 8 8] l [of 16 8] l [of 32 8] l [of 40 8]
    by (simp add: same_header_def ld32_def ld64_def)
qed

lemma same_header_seg:
  assumes "same_header m m' ph"
  shows "seg_order m' ph = seg_order m ph" "seg_span m' ph = seg_span m ph" "seg_ok m' ph = seg_ok m ph"
    "seg_range m' ph = seg_range m ph"
proof -
  show o: "seg_order m' ph = seg_order m ph" using assms by (simp add: same_header_def seg_order_def)
  then show "seg_span m' ph = seg_span m ph" by (simp add: seg_span_def)
  then show "seg_ok m' ph = seg_ok m ph" "seg_range m' ph = seg_range m ph"
    using assms by (simp_all add: same_header_def seg_ok_def seg_range_def)
qed

section \<open>The loaded image\<close>

text \<open>
  Segment \<open>i\<close> is loaded at block \<open>p\<close>: its addresses translate to the block's, with its permissions, and the block has
  the bytes of the file followed by zeros.
\<close>

definition seg_loaded :: "kstate \<Rightarrow> kstate \<Rightarrow> u64 \<Rightarrow> u64 \<Rightarrow> u64 \<Rightarrow> u64 \<times> nat \<Rightarrow> bool" where
  "seg_loaded s t root binary ph p \<longleftrightarrow> snd p = seg_order (mem s) ph \<and>
     (\<forall>a. unat a < 2 ^ 39 \<longrightarrow> unat a \<in> seg_range (mem s) ph \<longrightarrow> xlate (mem t) root a =
        Some (page_addr s (fst p) + (a - ph_vaddr (mem s) ph), leaf_flags 0x10 (elf_perm (ph_flags (mem s) ph)))) \<and>
     (\<forall>k<unat (ph_memsz (mem s) ph). mem t (page_addr s (fst p) + of_nat k) =
        (if k < unat (ph_filesz (mem s) ph) then mem s (binary + ph_offset (mem s) ph + of_nat k) else 0))"

definition image_loaded ::
  "kstate \<Rightarrow> kstate \<Rightarrow> u64 \<Rightarrow> u64 \<Rightarrow> nat \<Rightarrow> (nat \<Rightarrow> u64 \<times> nat) \<Rightarrow> (u64 \<times> nat) set \<Rightarrow> bool" where
  "image_loaded s t root binary n f B \<longleftrightarrow>
     (\<forall>i<n. loadable (mem s) binary i \<longrightarrow> f i \<in> B \<and> seg_loaded s t root binary (phdr_at (mem s) binary i) (f i) \<and>
        (\<forall>j<i. loadable (mem s) binary j \<longrightarrow> f j \<noteq> f i)) \<and>
     (\<forall>a. unat a < 2 ^ 39 \<longrightarrow>
        (\<forall>i<n. loadable (mem s) binary i \<longrightarrow> unat a \<notin> seg_range (mem s) (phdr_at (mem s) binary i)) \<longrightarrow>
        xlate (mem t) root a = xlate (mem s) root a)"

text \<open>What the loader keeps: only its own tables and the new blocks are written.\<close>

definition load_frame ::
  "u64 set \<Rightarrow> u64 \<Rightarrow> kstate \<Rightarrow> (u64 \<times> nat) set \<Rightarrow> u64 set \<Rightarrow> kstate \<Rightarrow> (u64 \<times> nat) set \<Rightarrow> u64 set \<Rightarrow> bool" where
  "load_frame U root s B N t B' N' \<longleftrightarrow> pt_inv_on (own_beside B' U) t root N' {} \<and> B \<subseteq> B' \<and> N \<subseteq> N' \<and>
     same_kernel s t \<and>
     (\<forall>b. page_down b \<notin> N' \<longrightarrow> (\<forall>p\<in>B' - B. unat b \<notin> block_range s p) \<longrightarrow> mem t b = mem s b)"

section \<open>The loop over the headers\<close>

text \<open>The bytes of a block that is held.\<close>

lemma block_byte:
  assumes "heap_ok s L U" and "p \<in> L" and "k < 4096 * 2 ^ snd p"
  shows "unat (page_addr s (fst p) + of_nat k) \<in> block_range s p"
proof -
  let ?a = "unat (page_addr s (fst p))"
  have "?a + k \<in> block_range s p" using assms(3) by (simp add: block_range_def)
  moreover have "block_range s p \<subseteq> {unat (ram_base s) ..< unat (ram_base s) + unat (ram_size s)}"
    by (rule block_range_in_ram [OF assms(1,2)])
  moreover have "unat (ram_base s) + unat (ram_size s) \<le> 2 ^ 64" using assms(1) by (simp add: heap_ok_def ram_ok_def)
  ultimately have "?a + k < 2 ^ 64" by fastforce
  then have "unat (page_addr s (fst p) + of_nat k) = ?a + k" by (rule unat_add_small)
  then show ?thesis using \<open>?a + k \<in> block_range s p\<close> by simp
qed

text \<open>What lies outside the pool, the image above all, is as it was.\<close>

lemma load_frame_outside:
  assumes f: "load_frame U root s B N t B' N'" and a: "unat a \<notin> pool_range s U"
  shows "mem t a = mem s a"
proof -
  have o: "own_beside B' U t N'" and k: "same_kernel s t" using f by (simp_all add: load_frame_def pt_inv_on_def)
  note e = same_kernel_addr [OF k]
  obtain L where L: "heap_ok t L U" "B' \<subseteq> L" using o by (auto simp: own_beside_def)
  have "page_down a \<notin> N'" using own_beside_outside [OF o] a e by simp
  moreover have "unat a \<notin> block_range s p" if "p \<in> B'" for p
    using block_in_pool [OF L(1), of p a] L(2) that a e by auto
  ultimately show ?thesis using f by (simp add: load_frame_def)
qed

lemma load_frame_trans:
  assumes "load_frame U root s B N t B1 N1" and "load_frame U root t B1 N1 u B2 N2"
  shows "load_frame U root s B N u B2 N2"
proof -
  have k: "same_kernel s t" "same_kernel t u" using assms by (simp_all add: load_frame_def)
  have "mem u b = mem s b" if b: "page_down b \<notin> N2" "\<forall>p\<in>B2 - B. unat b \<notin> block_range s p" for b
  proof -
    have "N1 \<subseteq> N2" "B1 \<subseteq> B2" "B \<subseteq> B1" using assms by (simp_all add: load_frame_def)
    then have "page_down b \<notin> N1" "\<forall>p\<in>B1 - B. unat b \<notin> block_range s p" "\<forall>p\<in>B2 - B1. unat b \<notin> block_range t p"
      using b same_kernel_addr [OF k(1)] by auto
    then show ?thesis using assms b(1) by (simp add: load_frame_def)
  qed
  moreover have "B \<subseteq> B2" "N \<subseteq> N2" using assms by (auto simp: load_frame_def)
  ultimately show ?thesis using assms same_kernel_trans [OF k] by (simp add: load_frame_def)
qed

text \<open>Segments loaded before stay as they are when another one is loaded.\<close>

lemma seg_loaded_stays:
  assumes inv: "load_frame U root s B N t B1 N1" and ld: "seg_loaded s t root binary ph p"
    and ok: "seg_ok (mem s) ph" and p: "p \<in> B1"
    and fr: "load_frame U root t B1 N1 u (insert q B1) N2" and q: "q \<notin> B1"
    and tr: "\<And>a. unat a < 2 ^ 39 \<Longrightarrow> unat a \<in> seg_range (mem s) ph \<Longrightarrow> xlate (mem u) root a = xlate (mem t) root a"
  shows "seg_loaded s u root binary ph p"
proof -
  have k: "same_kernel s t" "same_kernel t u" and o: "own_beside (insert q B1) U u N2"
    using inv fr by (simp_all add: load_frame_def pt_inv_on_def)
  note e = same_kernel_addr [OF k(1)] same_kernel_addr [OF k(2)]
  obtain L where L: "heap_ok u L U" "insert q B1 \<subseteq> L" using o by (auto simp: own_beside_def)
  have ms: "unat (ph_memsz (mem s) ph) \<le> 4096 * 2 ^ snd p"
    using ok ld seg_order_ok(3) [of "mem s" ph] by (simp add: seg_ok_def seg_loaded_def seg_span_def)
  have "mem u (page_addr s (fst p) + of_nat j) = mem t (page_addr s (fst p) + of_nat j)"
    if j: "j < unat (ph_memsz (mem s) ph)" for j
  proof -
    let ?b = "page_addr s (fst p) + of_nat j"
    have b: "unat ?b \<in> block_range u p" using block_byte [OF L(1), of p j] L(2) p j ms e by auto
    have "page_down ?b \<notin> N2" using own_beside_apart [OF o, of p] p b by simp
    moreover have "unat ?b \<notin> block_range t q"
    proof -
      have "block_range u p \<inter> block_range u q = {}"
        using L p q by (intro block_range_disjoint [OF L(1)]) auto
      then show ?thesis using b e by auto
    qed
    moreover have "insert q B1 - B1 \<subseteq> {q}" by auto
    ultimately show ?thesis using fr unfolding load_frame_def by blast
  qed
  then show ?thesis using ld tr by (simp add: seg_loaded_def)
qed

text \<open>
  The steps of the loop: after the first \<open>n\<close> headers their segments are loaded, in blocks the loader took.
\<close>

definition loaded_upto :: "u64 set \<Rightarrow> u64 \<Rightarrow> u64 \<Rightarrow> kstate \<Rightarrow> (u64 \<times> nat) set \<Rightarrow> u64 set \<Rightarrow> nat \<Rightarrow> kstate \<Rightarrow> bool" where
  "loaded_upto U root binary s B N n t \<longleftrightarrow>
     (\<exists>B1 N1 f. load_frame U root s B N t B1 N1 \<and> image_loaded s t root binary n f (B1 - B))"

definition huge_segment :: "memory \<Rightarrow> u64 \<Rightarrow> bool" where
  "huge_segment m binary \<longleftrightarrow>
     (\<exists>i<phnum m binary. loadable m binary i \<and> 0x200000 \<le> seg_span m (phdr_at m binary i))"

definition elf_clear :: "memory \<Rightarrow> u64 \<Rightarrow> u64 \<Rightarrow> bool" where
  "elf_clear m root binary \<longleftrightarrow> (\<forall>i<phnum m binary. loadable m binary i \<longrightarrow>
     unmapped m root (ph_vaddr m (phdr_at m binary i)) (seg_span m (phdr_at m binary i)))"

lemma seg_range_low:
  "seg_ok m ph \<Longrightarrow> n \<in> seg_range m ph \<Longrightarrow> n < 2 ^ 38"
  by (auto simp: seg_ok_def seg_range_def)

lemma load_step:
  assumes up: "loaded_upto U root binary s B N n t"
    and ok: "elf_ok (mem s) binary" and cl: "elf_clear (mem s) root binary"
    and out: "\<And>a. a \<in> elf_reads (mem s) binary \<Longrightarrow> unat a \<notin> pool_range s U"
    and n: "n < phnum (mem s) binary"
  shows "load_segment ca root binary (phdr_at (mem s) binary n) t = Panic 101 0 \<or>
    (\<exists>x. load_segment ca root binary (phdr_at (mem s) binary n) t = Panic 107 x \<and> huge_segment (mem s) binary) \<or>
    (\<exists>u. load_segment ca root binary (phdr_at (mem s) binary n) t = Ret u \<and> loaded_upto U root binary s B N (Suc n) u)"
proof -
  let ?m = "mem s" and ?ph = "phdr_at (mem s) binary n"
  obtain B1 N1 f where fr: "load_frame U root s B N t B1 N1" and im: "image_loaded s t root binary n f (B1 - B)"
    using up by (auto simp: loaded_upto_def)
  have k: "same_kernel s t" using fr by (simp add: load_frame_def)
  note e = same_kernel_addr [OF k]
  have same: "mem t a = ?m a" if "a \<in> elf_reads ?m binary" for a
    by (rule load_frame_outside [OF fr out [OF that]])
  have "mem t (?ph + of_nat j) = ?m (?ph + of_nat j)" if "j < 56" for j
    by (rule same) (use n that in \<open>auto simp: elf_reads_def\<close>)
  then have h: "same_header ?m (mem t) ?ph" by (rule same_header)
  note hs = same_header_seg [OF h]
  note hf = h [unfolded same_header_def]
  show ?thesis
  proof (cases "loadable ?m binary n")
    case False
    then have "load_segment ca root binary ?ph t = Ret t" using hf by (simp add: load_segment_def loadable_def Let_def)
    moreover have "image_loaded s t root binary (Suc n) f (B1 - B)"
      using im False by (auto simp: image_loaded_def less_Suc_eq)
    ultimately show ?thesis using fr by (auto simp: loaded_upto_def)
  next
    case True
    have so: "seg_ok ?m ?ph" and dj: "\<And>j. j < n \<Longrightarrow> loadable ?m binary j \<Longrightarrow>
        seg_range ?m ?ph \<inter> seg_range ?m (phdr_at ?m binary j) = {}"
      and sj: "\<And>j. j < n \<Longrightarrow> loadable ?m binary j \<Longrightarrow> seg_ok ?m (phdr_at ?m binary j)"
      using ok n True by (auto simp: elf_ok_def)
    have ld: "ld32 (mem t) ?ph = 1" using True hf by (simp add: loadable_def)
    have un: "unmapped (mem t) root (ph_vaddr (mem t) ?ph) (seg_span (mem t) ?ph)"
      unfolding unmapped_def
    proof (intro allI impI)
      fix a :: u64
      assume "unat (ph_vaddr (mem t) ?ph) \<le> unat a \<and> unat a < unat (ph_vaddr (mem t) ?ph) + seg_span (mem t) ?ph"
      then have a: "unat a \<in> seg_range ?m ?ph" using hf hs by (simp add: seg_range_def)
      then have "unat a < 2 ^ 39" using seg_range_low [OF so a] by simp
      moreover have "\<forall>j<n. loadable ?m binary j \<longrightarrow> unat a \<notin> seg_range ?m (phdr_at ?m binary j)" using dj a by blast
      ultimately have "xlate (mem t) root a = xlate ?m root a" using im by (simp add: image_loaded_def)
      moreover have "xlate ?m root a = None"
        using cl n True a by (simp add: elf_clear_def unmapped_def xlate_None seg_range_def)
      ultimately show "walk 2 (mem t) root a = None" by (simp add: xlate_None)
    qed
    have src: "\<forall>j<unat (ph_filesz (mem t) ?ph). unat (binary + ph_offset (mem t) ?ph + of_nat j) \<notin> pool_range t U"
    proof (intro allI impI)
      fix j assume "j < unat (ph_filesz (mem t) ?ph)"
      then have "binary + ph_offset ?m ?ph + of_nat j \<in> elf_reads ?m binary"
        using n True hf by (auto simp: elf_reads_def)
      then show "unat (binary + ph_offset (mem t) ?ph + of_nat j) \<notin> pool_range t U" using out hf e by simp
    qed
    have inv: "pt_inv_on (own_beside B1 U) t root N1 {}" using fr by (simp add: load_frame_def)
    have so': "seg_ok (mem t) ?ph" using so hs by simp
    from load_segment_ok [OF inv ld so' un src, of ca, unfolded hs] show ?thesis
    proof (elim disjE exE conjE)
      assume "load_segment ca root binary ?ph t = Panic 101 0"
      then show ?thesis by simp
    next
      fix x assume "load_segment ca root binary ?ph t = Panic 107 x" "0x200000 \<le> seg_span ?m ?ph"
      then show ?thesis using n True by (auto simp: huge_segment_def)
    next
      fix i u N2
      let ?q = "(i, seg_order ?m ?ph)" and ?g = "f(n := (i, seg_order ?m ?ph))"
      assume u: "load_segment ca root binary ?ph t = Ret u" "?q \<notin> B1"
        "pt_inv_on (own_beside (insert ?q B1) U) u root N2 {}" "N1 \<subseteq> N2" "same_kernel t u"
        "\<forall>b. page_down b \<notin> N2 \<longrightarrow> unat b \<notin> block_range t ?q \<longrightarrow> mem u b = mem t b"
        "mapped (mem t) (mem u) root (ph_vaddr (mem t) ?ph) (page_addr t i) (seg_span ?m ?ph)
           (leaf_flags 0x10 (elf_perm (ph_flags (mem t) ?ph)))"
        "\<forall>j<unat (ph_memsz (mem t) ?ph). mem u (page_addr t i + of_nat j) =
           (if j < unat (ph_filesz (mem t) ?ph) then mem t (binary + ph_offset (mem t) ?ph + of_nat j) else 0)"
      have fu: "load_frame U root t B1 N1 u (insert ?q B1) N2"
        using u(2-6) by (auto simp: load_frame_def)
      have fsu: "load_frame U root s B N u (insert ?q B1) N2" by (rule load_frame_trans [OF fr fu])
      have BB: "B \<subseteq> B1" using fr by (simp add: load_frame_def)
      have off: "xlate (mem u) root a = xlate (mem t) root a"
        if "unat a < 2 ^ 39" "unat a \<notin> seg_range ?m ?ph" for a
        using mappedD(2) [OF u(7) that(1)] that(2) hf by (auto simp: seg_range_def)
      have new: "seg_loaded s u root binary ?ph ?q"
        unfolding seg_loaded_def
      proof (intro conjI allI impI)
        show "snd ?q = seg_order ?m ?ph" by simp
      next
        fix a :: u64 assume "unat a < 2 ^ 39" "unat a \<in> seg_range ?m ?ph"
        then show "xlate (mem u) root a = Some (page_addr s (fst ?q) + (a - ph_vaddr ?m ?ph),
            leaf_flags 0x10 (elf_perm (ph_flags ?m ?ph)))"
          using mappedD(1) [OF u(7)] hf e by (simp add: seg_range_def)
      next
        fix j assume j: "j < unat (ph_memsz ?m ?ph)"
        have "mem t (binary + ph_offset ?m ?ph + of_nat j) = ?m (binary + ph_offset ?m ?ph + of_nat j)"
          if "j < unat (ph_filesz ?m ?ph)" by (rule same) (use n True that in \<open>auto simp: elf_reads_def\<close>)
        then show "mem u (page_addr s (fst ?q) + of_nat j) =
            (if j < unat (ph_filesz ?m ?ph) then ?m (binary + ph_offset ?m ?ph + of_nat j) else 0)"
          using u(8) j hf e by simp
      qed
      have old: "f j \<in> B1 - B \<and> seg_loaded s u root binary (phdr_at ?m binary j) (f j)"
        if j: "j < n" "loadable ?m binary j" for j
      proof -
        have fj: "f j \<in> B1 - B" "seg_loaded s t root binary (phdr_at ?m binary j) (f j)"
          using im j by (auto simp: image_loaded_def)
        have "seg_loaded s u root binary (phdr_at ?m binary j) (f j)"
        proof (rule seg_loaded_stays [OF fr fj(2) sj [OF j] _ fu u(2)])
          show "f j \<in> B1" using fj(1) by simp
        next
          fix a :: u64 assume a: "unat a < 2 ^ 39" "unat a \<in> seg_range ?m (phdr_at ?m binary j)"
          show "xlate (mem u) root a = xlate (mem t) root a" using dj [OF j] a by (intro off) auto
        qed
        then show ?thesis using fj(1) by simp
      qed
      have dist: "\<forall>l<j. loadable ?m binary l \<longrightarrow> f l \<noteq> f j" if "j < n" "loadable ?m binary j" for j
        using im that by (auto simp: image_loaded_def)
      have "image_loaded s u root binary (Suc n) ?g (insert ?q B1 - B)"
        unfolding image_loaded_def
      proof (intro conjI allI impI)
        fix j assume j: "j < Suc n" "loadable ?m binary j"
        show "?g j \<in> insert ?q B1 - B" using j old [of j] u(2) BB by (cases "j = n") auto
        show "seg_loaded s u root binary (phdr_at ?m binary j) (?g j)" using j old [of j] new by (cases "j = n") auto
        fix l assume l: "l < j" "loadable ?m binary l"
        show "?g l \<noteq> ?g j"
        proof (cases "j = n")
          case True
          then show ?thesis using old [of l] l u(2) by auto
        next
          case False
          then show ?thesis using dist [of j] j l by simp
        qed
      next
        fix a :: u64
        assume a: "unat a < 2 ^ 39" "\<forall>j<Suc n. loadable ?m binary j \<longrightarrow> unat a \<notin> seg_range ?m (phdr_at ?m binary j)"
        have "xlate (mem u) root a = xlate (mem t) root a" using a True by (intro off) simp_all
        moreover have "xlate (mem t) root a = xlate ?m root a" using im a by (simp add: image_loaded_def)
        ultimately show "xlate (mem u) root a = xlate ?m root a" by simp
      qed
      then show ?thesis using u(1) fsu by (auto simp: loaded_upto_def)
    qed
  qed
qed

lemma load_steps:
  assumes inv: "pt_inv_on (own_beside B U) s root N {}"
    and ok: "elf_ok (mem s) binary" and cl: "elf_clear (mem s) root binary"
    and out: "\<And>a. a \<in> elf_reads (mem s) binary \<Longrightarrow> unat a \<notin> pool_range s U"
    and n: "n \<le> phnum (mem s) binary"
    and run: "run = forO [0..<n] (\<lambda>i. load_segment ca root binary (phdr_at (mem s) binary i)) s"
  shows "run = Panic 101 0 \<or> (\<exists>x. run = Panic 107 x \<and> huge_segment (mem s) binary) \<or>
    (\<exists>t. run = Ret t \<and> loaded_upto U root binary s B N n t)"
  using n unfolding run
proof (induction n)
  case 0
  have "load_frame U root s B N s B N" using inv by (simp add: load_frame_def same_kernel_def)
  then show ?case by (auto simp: loaded_upto_def image_loaded_def)
next
  case (Suc n)
  let ?body = "\<lambda>i. load_segment ca root binary (phdr_at (mem s) binary i)"
  have e: "forO [0..<Suc n] ?body s = bindO (forO [0..<n] ?body s) (?body n)"
  proof -
    have "forO [] ?body = Ret" by (simp add: fun_eq_iff)
    then have "forO [n] ?body = ?body n" by (intro ext) (simp add: bindO_Ret_right)
    then show ?thesis by (simp add: forO_append)
  qed
  from Suc consider "forO [0..<n] ?body s = Panic 101 0"
    | x where "forO [0..<n] ?body s = Panic 107 x" "huge_segment (mem s) binary"
    | t where "forO [0..<n] ?body s = Ret t" "loaded_upto U root binary s B N n t" by force
  then show ?case
  proof cases
    case 3
    have "n < phnum (mem s) binary" using Suc.prems by simp
    from load_step [OF 3(2) ok cl out this, of ca] show ?thesis unfolding e 3(1) by simp
  next
    case 1
    then show ?thesis unfolding e by simp
  next
    case 2
    then show ?thesis unfolding e by simp
  qed
qed

lemma no_write_execute: "leaf_flags 0x10 (elf_perm p) AND 0xC \<noteq> 0xC"
proof -
  have "elf_perm p \<in> {0, 2, 4, 6, 8, 10}" by (auto simp: elf_perm_def Let_def)
  then show ?thesis by (auto simp: leaf_flags_def)
qed

text \<open>
  C3. Loading a program. On a sound image that lies outside the pool of pages, whose segments are disjoint and fall on
  unmapped addresses, the loader never hangs or faults. When it returns, each loadable segment is in a block of its
  own, distinct from every block held before: its addresses translate there with the permissions of its header, the
  block has the bytes of the file and then zeros, no page of a segment is writable and executable, every other address
  translates as before, and no byte is written outside the new blocks and the tables of this address space. Otherwise
  memory ran out (101), or a segment of at least 2 MiB met a table where its superpage should go (107).
\<close>

theorem load_elf_correct:
  assumes "pt_inv_on (own_beside B U) s root N {}"
    and "elf_ok (mem s) binary" and "elf_clear (mem s) root binary"
    and "\<And>a. a \<in> elf_reads (mem s) binary \<Longrightarrow> unat a \<notin> pool_range s U"
  shows "load_elf ca root binary s = Panic 101 0 \<or>
    (\<exists>x. load_elf ca root binary s = Panic 107 x \<and> huge_segment (mem s) binary) \<or>
    (\<exists>t B' N' f. load_elf ca root binary s = Ret t \<and> load_frame U root s B N t B' N' \<and>
       image_loaded s t root binary (phnum (mem s) binary) f (B' - B) \<and>
       (\<forall>i<phnum (mem s) binary. loadable (mem s) binary i \<longrightarrow>
         (\<forall>a. unat a \<in> seg_range (mem s) (phdr_at (mem s) binary i) \<longrightarrow>
           (\<exists>pa fl. xlate (mem t) root a = Some (pa, fl) \<and> fl AND 0xC \<noteq> 0xC))))"
proof -
  have run: "load_elf ca root binary s = forO [0..<phnum (mem s) binary]
      (\<lambda>i. load_segment ca root binary (phdr_at (mem s) binary i)) s"
    by (simp add: load_elf_def phnum_def phdr_at_def)
  have wx: "\<exists>pa fl. xlate (mem t) root a = Some (pa, fl) \<and> fl AND 0xC \<noteq> 0xC"
    if "image_loaded s t root binary (phnum (mem s) binary) f C" "i < phnum (mem s) binary" "loadable (mem s) binary i"
      "unat a \<in> seg_range (mem s) (phdr_at (mem s) binary i)" for t f C i a
  proof -
    have "seg_ok (mem s) (phdr_at (mem s) binary i)" using assms(2) that by (simp add: elf_ok_def)
    from seg_range_low [OF this that(4)] have "unat a < 2 ^ 39" by simp
    then show ?thesis using that no_write_execute by (auto simp: image_loaded_def seg_loaded_def)
  qed
  from load_steps [OF assms order_refl run] show ?thesis unfolding run loaded_upto_def using wx by blast
qed

text \<open>A small image at \<open>0x80200000\<close>: one executable segment, four bytes in the file and eight in memory.\<close>

definition demo_image :: memory where
  "demo_image = (\<lambda>_. 0)(0x80200000 := 0x7F, 0x80200001 := 0x45, 0x80200002 := 0x4C, 0x80200003 := 0x46,
     0x80200020 := 64, 0x80200036 := 56, 0x80200038 := 1, 0x80200040 := 1, 0x80200044 := 5,
     0x80200048 := 120, 0x80200052 := 1, 0x80200060 := 4, 0x80200068 := 8, 0x80200078 := 0x73)"

definition demo_elf_ks :: kstate where
  "demo_elf_ks = demo_ks\<lparr>mem := demo_image\<rparr>"

lemma demo_elf_heap: "heap_ok demo_elf_ks {} (pool 1 2)" "ram_base demo_elf_ks = 0x80000000"
  "mem demo_elf_ks = demo_image"
proof -
  have "heap_ok demo_ks {} (pool 1 2) = heap_ok demo_vm {} (pool 1 2)"
    by (simp add: demo_ks_def slabs.extend_def vmem.extend_def heap_ok_def buddy_inv_def lists_ok_def flags_ok_def
        blocks_ok_def ram_ok_def nxt_def prv_def flg_def ordr_def total_pages_def)
  then show "heap_ok demo_elf_ks {} (pool 1 2)" using demo_vm_ok(1) by (simp add: demo_elf_ks_def heap_ok_mem)
  show "ram_base demo_elf_ks = 0x80000000"
    by (simp add: demo_elf_ks_def demo_ks_def slabs.extend_def vmem.extend_def demo_vm_fields)
  show "mem demo_elf_ks = demo_image" by (simp add: demo_elf_ks_def)
qed

lemma demo_below_pool:
  assumes "heap_ok s L (pool 1 2)" and "ram_base s = 0x80000000" and "n < 0x80800000"
  shows "n \<notin> pool_range s (pool 1 2)"
proof
  assume "n \<in> pool_range s (pool 1 2)"
  then obtain j where j: "j \<in> pool 1 2" "n \<in> block_range s (j, 0)" by (auto simp: pool_range_def)
  have r: "ram_ok s" using assms(1) by (simp add: heap_ok_def)
  from assms(1) obtain fl where "buddy_inv s fl L {} (pool 1 2)" by (auto simp: heap_ok_def)
  then have "j < total_pages s" using j(1) by (simp add: buddy_inv_def blocks_ok_def)
  then have "unat (page_addr s j) = 0x80000000 + 4096 * unat j" using unat_page_addr [OF r] assms(2) by simp
  then show False using j assms(3) by (simp add: pool_def block_range_def)
qed

lemma demo_image_sound:
  assumes same: "\<And>a. unat a < 0x80800000 \<Longrightarrow> m a = demo_image a"
  shows "phnum m 0x80200000 = 1" "phdr_at m 0x80200000 0 = 0x80200040" "loadable m 0x80200000 0"
    "elf_ok m 0x80200000" "a \<in> elf_reads m 0x80200000 \<Longrightarrow> unat a < 0x80800000"
    "\<not> huge_segment m 0x80200000" "seg_span m 0x80200040 = 4096" "ld64 m 0x80200050 = 0x10000"
    "ld32 m 0x80200044 = 5" "ld64 m 0x80200048 = 120" "ld64 m 0x80200060 = 4" "ld64 m 0x80200068 = 8"
proof -
  note ev = same ld64_def ld32_def ld16_def ld_bytes_numeral
  have b: "demo_image x = (if x = 0x80200000 then 0x7F else if x = 0x80200001 then 0x45 else if x = 0x80200002 then 0x4C
      else if x = 0x80200003 then 0x46 else if x = 0x80200020 then 64 else if x = 0x80200036 then 56 else if x = 0x80200038 then 1
      else if x = 0x80200040 then 1 else if x = 0x80200044 then 5 else if x = 0x80200048 then 120
      else if x = 0x80200052 then 1 else if x = 0x80200060 then 4 else if x = 0x80200068 then 8
      else if x = 0x80200078 then 0x73 else 0)" for x
    by (simp add: demo_image_def)
  have off0: "ld64 m 0x80200020 = 64" and sz: "ld16 m 0x80200036 = 56" and n: "ld16 m 0x80200038 = 1"
    by (simp_all add: ev b)
  show num: "phnum m 0x80200000 = 1" by (simp add: phnum_def n)
  show ph: "phdr_at m 0x80200000 0 = 0x80200040" by (simp add: phdr_at_def off0 sz)
  have "ld32 m 0x80200040 = 1" by (simp add: ev b)
  then show ld: "loadable m 0x80200000 0" unfolding loadable_def ph .
  show va: "ld64 m 0x80200050 = 0x10000" by (simp add: ev b)
  show fl: "ld32 m 0x80200044 = 5" by (simp add: ev b)
  show off: "ld64 m 0x80200048 = 120" by (simp add: ev b)
  show fs: "ld64 m 0x80200060 = 4" by (simp add: ev b)
  show ms: "ld64 m 0x80200068 = 8" by (simp add: ev b)
  have "elf_order 32 0 8 = Ret 0" using elf_order.simps(2) [of 31 0 8] unat_shl_int [of 0] by (simp add: word_less_nat_alt)
  then have so: "seg_order m 0x80200040 = 0" by (simp add: seg_order_def ms)
  then show sp: "seg_span m 0x80200040 = 4096" by (simp add: seg_span_def)
  have "seg_ok m 0x80200040" by (simp add: seg_ok_def va ms fs fl sp page_base_def)
  then show "elf_ok m 0x80200000" by (simp add: elf_ok_def num ph)
  show "\<not> huge_segment m 0x80200000" by (simp add: huge_segment_def num ph sp)
  assume "a \<in> elf_reads m 0x80200000"
  then consider j where "a = 0x80200000 + of_nat j" "j < 64" | j where "a = 0x80200040 + of_nat j" "j < 56"
    | j where "a = 0x80200078 + of_nat j" "j < 4"
    by (auto simp: elf_reads_def num ph off fs)
  then show "unat a < 0x80800000" by cases (simp_all add: unat_add_small)
qed

theorem load_elf_correct_witness:
  "\<exists>(s::kstate) root. load_elf 7 root 0x80200000 s = Panic 101 0 \<or>
     (\<exists>t pa. load_elf 7 root 0x80200000 s = Ret t \<and> xlate (mem t) root 0x10000 = Some (pa, leaf_flags 0x10 10) \<and>
        mem t pa = 0x73)"
proof -
  let ?s = demo_elf_ks and ?b = "0x80200000 :: u64"
  have o: "own_beside {} (pool 1 2) ?s {}" using demo_elf_heap(1,2) by (intro own_besideI) simp_all
  have "free_lists ?s 11 \<noteq> NIL"
    by (simp add: demo_elf_ks_def demo_ks_def slabs.extend_def vmem.extend_def demo_vm_fields demo_heap_fields)
  then obtain z t where k: "kalloc 0 7 ?s = Ret (z, t)" using kalloc_heap_ok [OF demo_elf_heap(1), of 0 7] by force
  define u where "u = t\<lparr>mem := zero64 512 z (mem t)\<rparr>"
  note r = held.new_root [OF o k, folded u_def]
  let ?m = "mem u"
  have iu: "pt_inv_on (own_beside {} (pool 1 2)) u z {z} {}" by (rule r(2))
  then have ou: "own_beside {} (pool 1 2) u {z}" by (simp add: pt_inv_on_def)
  then obtain L where L: "heap_ok u L (pool 1 2)" by (auto simp: own_beside_def)
  have "ram_base u = 0x80000000"
    using own_beside_block [OF o k] demo_elf_heap(2) by (auto simp: u_def same_ram_def)
  note below = demo_below_pool [OF L this]
  have low: "?m a = demo_image a" if "unat a < 0x80800000" for a
  proof -
    have "page_down a \<notin> {z}" by (rule own_beside_outside [OF ou below [OF that]])
    then show ?thesis using r(4) [OF pt_grown_refl] demo_elf_heap(3) by simp
  qed
  note im = demo_image_sound [of ?m, OF low]
  have cl: "elf_clear ?m z ?b"
    using r(3) by (simp add: elf_clear_def unmapped_def xlate_None)
  have out: "unat a \<notin> pool_range u (pool 1 2)" if "a \<in> elf_reads ?m ?b" for a
    by (rule below [OF im(5) [OF _ that]])
  from load_elf_correct [OF iu im(4) cl out, of 7]
  consider "load_elf 7 z ?b u = Panic 101 0"
    | t B' f where "load_elf 7 z ?b u = Ret t" "image_loaded u t z ?b 1 f B'"
    using im(1,6) by auto
  then show ?thesis
  proof cases
    case 2
    have f: "seg_loaded u t z ?b 0x80200040 (f 0)" using 2(2) im(2,3) by (auto simp: image_loaded_def)
    have "(0x10000::nat) \<in> seg_range ?m 0x80200040" by (simp add: seg_range_def im)
    then have "xlate (mem t) z 0x10000 = Some (page_addr u (fst (f 0)), leaf_flags 0x10 10)"
      using f by (simp add: seg_loaded_def im elf_perm_def)
    moreover have "mem t (page_addr u (fst (f 0))) = 0x73"
      using f [unfolded seg_loaded_def, THEN conjunct2, THEN conjunct2, rule_format, of 0]
      by (simp add: im low demo_image_def)
    ultimately show ?thesis using 2(1) by blast
  qed blast
qed

end
