(* ===== verification/SlabMem.thy ===== *)
theory SlabMem
  imports Slab Pages
begin

text \<open>
  The raw memory of the slab allocator, seen through its two kinds of cells: the fields of slab
  headers, which are 64-byte aligned, and the first cells of free slots, which are 8-byte aligned.
  On such cells the byte memory behaves as a function from addresses to words.
\<close>

section \<open>Aligned cells\<close>

definition al :: "nat \<Rightarrow> u64 \<Rightarrow> bool" where
  "al n a \<longleftrightarrow> n dvd unat a"

definition blkno :: "u64 \<Rightarrow> nat" where "blkno a = unat a div 64"
definition pageno :: "u64 \<Rightarrow> nat" where "pageno a = unat a div 4096"

lemma al_apart:
  assumes "al 8 a" and "al 8 b" and "a \<noteq> b"
  shows "apart a b"
proof -
  from assms(1,2) obtain x y where xy: "unat a = 8 * x" "unat b = 8 * y" by (auto simp: al_def elim!: dvdE)
  have "8 * x < 8 * 2 ^ 61" "8 * y < 8 * 2 ^ 61" using unat64_less [of a] unat64_less [of b] xy by simp_all
  then have l: "x < 2 ^ 61" "y < 2 ^ 61" by simp_all
  have "x \<noteq> y" using assms(3) xy by (auto simp: word_unat_eq_iff)
  then consider "x < y" | "y < x" by linarith
  then show ?thesis
  proof cases
    case 1
    then have "unat a + 8 \<le> unat b" "unat b + 8 \<le> 2 ^ 64" using xy l by simp_all
    then show ?thesis by (rule apart_nat)
  next
    case 2
    then have "unat b + 8 \<le> unat a" "unat a + 8 \<le> 2 ^ 64" using xy l by simp_all
    then show ?thesis using apart_nat apart_sym by blast
  qed
qed

lemma ld64_al: "al 8 a \<Longrightarrow> al 8 b \<Longrightarrow> ld64 (st64 a v m) b = (if b = a then v else ld64 m b)"
  using al_apart [of a b] by auto

text \<open>A byte outside the 8-byte cell that is written.\<close>

lemma st64_other:
  assumes "al 8 a" and "unat b div 8 \<noteq> unat a div 8"
  shows "st64 a v m b = m b"
proof -
  have "\<not> b - a < 8"
  proof
    assume "b - a < 8"
    then have d: "unat (b - a) < 8" by (simp add: word_less_nat_alt)
    obtain x where x: "unat a = 8 * x" using assms(1) by (auto simp: al_def elim!: dvdE)
    have "unat b = (unat a + unat (b - a)) mod 2 ^ 64"
      using unat_word_ariths(1) [of a "b - a"] by simp
    moreover have "8 * x < 8 * 2 ^ 61" using unat64_less [of a] x by simp
    ultimately have "unat b = 8 * x + unat (b - a)" using x d by simp
    then have "unat b div 8 = x" using d by simp
    then show False using assms(2) x by simp
  qed
  then show ?thesis by (simp add: st64_def)
qed

section \<open>Fields of headers\<close>

text \<open>An offset of a field; the address of a field of an aligned header.\<close>

definition fofs :: "u64 \<Rightarrow> bool" where
  "fofs d \<longleftrightarrow> unat d < 64 \<and> 8 dvd unat d"

lemma fofs_fields [simp]: "fofs 0" "fofs 8" "fofs 16" "fofs 24" "fofs 32" "fofs 40" "fofs 48" "fofs 56"
  by (simp_all add: fofs_def)

lemma unat_field:
  assumes "al 64 h" and "fofs d"
  shows "unat (h + d) = unat h + unat d"
proof -
  obtain x where x: "unat h = 64 * x" using assms(1) by (auto simp: al_def elim!: dvdE)
  then have "64 * x < 64 * 2 ^ 58" using unat64_less [of h] by simp
  then show ?thesis using assms(2) x by (simp add: unat_word_ariths fofs_def)
qed

lemma al_field [simp]: "al 64 h \<Longrightarrow> fofs d \<Longrightarrow> al 8 (h + d)"
proof -
  assume a: "al 64 h" "fofs d"
  have "8 dvd unat h" using a(1) unfolding al_def by (rule dvd_trans [rotated]) simp
  then show ?thesis using a by (simp add: al_def unat_field fofs_def)
qed

lemma blkno_field: "al 64 h \<Longrightarrow> fofs d \<Longrightarrow> blkno (h + d) = blkno h"
  by (auto simp: blkno_def unat_field fofs_def al_def elim!: dvdE)

lemma blkno_inj: "al 64 h \<Longrightarrow> al 64 g \<Longrightarrow> blkno h = blkno g \<Longrightarrow> h = g"
  by (auto simp: blkno_def al_def word_unat_eq_iff elim!: dvdE)

lemma al_8: "al 64 h \<Longrightarrow> al 8 h"
  using al_field [of h 0] by simp

lemma field_eq_iff:
  assumes "al 64 h" "al 64 g" "fofs d" "fofs e"
  shows "h + d = g + e \<longleftrightarrow> h = g \<and> d = e"
  using blkno_field [OF assms(1,3)] blkno_field [OF assms(2,4)] blkno_inj [OF assms(1,2)] by auto

text \<open>
  The field at offset \<open>d\<close> of every header, a function that a store to a field updates at one
  point. Off the aligned addresses it is 0.
\<close>

definition fld :: "u64 \<Rightarrow> memory \<Rightarrow> u64 \<Rightarrow> u64" where
  "fld d m h = (if al 64 h then ld64 m (h + d) else 0)"

lemma fld_load: "al 64 h \<Longrightarrow> load s (h + d) = fld d (mem s) h"
  by (simp add: fld_def load_def)

lemma fld_st64:
  assumes "al 64 h" "fofs d" "fofs e"
  shows "fld e (st64 (h + d) v m) = (if e = d then (fld e m)(h := v) else fld e m)"
proof (rule ext)
  fix g
  show "fld e (st64 (h + d) v m) g = (if e = d then (fld e m)(h := v) else fld e m) g"
    using assms ld64_al [of "h + d" "g + e" v m] field_eq_iff [of g h e d]
    by (auto simp: fld_def)
qed

text \<open>A store to a cell outside a header leaves its fields.\<close>

lemma fld_st64_slot:
  assumes "al 8 f" "fofs e" "blkno f \<noteq> blkno g"
  shows "fld e (st64 f v m) g = fld e m g"
proof (cases "al 64 g")
  case True
  then have "f \<noteq> g + e" using blkno_field assms(2,3) by auto
  then show ?thesis using True assms by (simp add: fld_def ld64_al)
qed (simp add: fld_def)

lemma ld64_st64_field:
  assumes "al 64 h" "fofs d" "al 8 f" "blkno f \<noteq> blkno h"
  shows "ld64 (st64 (h + d) v m) f = ld64 m f"
  using assms blkno_field [OF assms(1,2)] by (auto simp: ld64_al)

section \<open>Chains of free slots\<close>

definition head0 :: "u64 list \<Rightarrow> u64" where
  "head0 xs = (case xs of [] \<Rightarrow> 0 | x # _ \<Rightarrow> x)"

lemma head0_simps [simp]: "head0 [] = 0" "head0 (x # xs) = x"
  by (simp_all add: head0_def)

primrec chain :: "memory \<Rightarrow> u64 list \<Rightarrow> bool" where
  "chain m [] \<longleftrightarrow> True"
| "chain m (x # xs) \<longleftrightarrow> ld64 m x = head0 xs \<and> chain m xs"

lemma chain_cong: "(\<And>f. f \<in> set xs \<Longrightarrow> ld64 m' f = ld64 m f) \<Longrightarrow> chain m' xs = chain m xs"
  by (induction xs) auto

section \<open>Slots of a page\<close>

definition slot_size :: "nat \<Rightarrow> nat" where
  "slot_size i = 16 * 2 ^ i"

definition slot_base :: "nat \<Rightarrow> nat" where
  "slot_base i = (if i < 6 then 64 else 0)"

definition slot_count :: "nat \<Rightarrow> nat" where
  "slot_count i = (4096 - slot_base i) div slot_size i"

definition slot :: "nat \<Rightarrow> u64 \<Rightarrow> nat \<Rightarrow> u64" where
  "slot i p k = p + of_nat (slot_base i + slot_size i * k)"

definition slots :: "nat \<Rightarrow> u64 \<Rightarrow> u64 list" where
  "slots i p = map (slot i p) [0..<slot_count i]"

lemma less_8: "i < 8 \<Longrightarrow> i \<in> {0, 1, 2, 3, 4, 5, 6, 7 :: nat}"
  by auto

lemma slot_count_bounds: "i < 8 \<Longrightarrow> 2 \<le> slot_count i \<and> slot_count i \<le> 252"
  using less_8 [of i] by (auto simp: slot_count_def slot_size_def slot_base_def)

lemma slot_end:
  assumes "i < 8" "k < slot_count i"
  shows "slot_base i + slot_size i * k + slot_size i \<le> 4096"
proof -
  have "slot_size i * Suc k \<le> slot_size i * slot_count i" using assms(2) by (intro mult_le_mono2) simp
  also have "\<dots> \<le> 4096 - slot_base i" by (simp add: slot_count_def)
  finally have "slot_size i * Suc k \<le> 4096 - slot_base i" .
  moreover have "slot_base i \<le> 64" by (simp add: slot_base_def)
  ultimately show ?thesis by simp
qed

lemma slot_size_pos: "16 \<le> slot_size i"
  by (simp add: slot_size_def)

lemma unat_slot:
  assumes "i < 8" "k < slot_count i" "page_base p"
  shows "unat (slot i p k) = unat p + slot_base i + slot_size i * k"
proof -
  have e: "slot_base i + slot_size i * k < 4096" using slot_end [OF assms(1,2)] slot_size_pos [of i] by linarith
  then have "unat p + (slot_base i + slot_size i * k) < 2 ^ LENGTH(64)"
    using page_base_bound [OF assms(3)] by simp
  then show ?thesis unfolding slot_def by (simp only: unat_lt_imp_add)
qed

lemma slot_inj:
  assumes "i < 8" "page_base p" "k < slot_count i" "j < slot_count i" "slot i p k = slot i p j"
  shows "k = j"
proof -
  have "slot_size i * k = slot_size i * j"
    using unat_slot [OF assms(1,3,2)] unat_slot [OF assms(1,4,2)] unfolding assms(5) by (metis add_left_cancel)
  then show ?thesis using slot_size_pos [of i] by simp
qed

lemma slots_distinct: "i < 8 \<Longrightarrow> page_base p \<Longrightarrow> distinct (slots i p)"
  unfolding slots_def distinct_map by (auto simp: inj_on_def intro: slot_inj)

lemma slot_place:
  assumes "i < 8" "k < slot_count i" "page_base p"
  shows "pageno (slot i p k) = pageno p" and "al 16 (slot i p k)"
    and "2 \<le> i \<Longrightarrow> al 64 (slot i p k)" and "i < 6 \<Longrightarrow> blkno (slot i p k) \<noteq> blkno p"
    and "p \<noteq> 0 \<Longrightarrow> slot i p k \<noteq> 0"
proof -
  note u = unat_slot [OF assms]
  obtain x where x: "unat p = 4096 * x" using assms(3) by (auto simp: page_base_def elim!: dvdE)
  have e: "slot_base i + slot_size i * k + 16 \<le> 4096"
    using slot_end [OF assms(1,2)] slot_size_pos [of i] by linarith
  then show "pageno (slot i p k) = pageno p" by (simp add: pageno_def u x)
  show "al 16 (slot i p k)" unfolding al_def u x slot_base_def slot_size_def by (auto intro!: dvd_add)
  show "2 \<le> i \<Longrightarrow> al 64 (slot i p k)"
  proof -
    assume "2 \<le> i"
    then obtain j where "i = 2 + j" using le_Suc_ex by blast
    then have "slot_size i = 64 * 2 ^ j" by (simp add: slot_size_def power_add)
    then show ?thesis unfolding al_def u x slot_base_def by (auto intro!: dvd_add)
  qed
  show "i < 6 \<Longrightarrow> blkno (slot i p k) \<noteq> blkno p"
    by (simp add: blkno_def u x slot_base_def)
  show "slot i p k \<noteq> 0" if "p \<noteq> 0"
  proof -
    have "unat p \<noteq> 0" using that by (simp add: unat_eq_0)
    then have "unat (slot i p k) \<noteq> 0" unfolding u by simp
    then show ?thesis by auto
  qed
qed

end
