(* ===== verification/SlabInv.thy ===== *)
theory SlabInv
  imports SlabMem
begin

text \<open>
  The invariant of the slab allocator. A ghost set \<open>H\<close> names the slab headers and a ghost map \<open>V\<close> gives each
  its cache, its page, the chain of its free slots and the set of its slots in use.
\<close>

section \<open>Slabs\<close>

record slab_view =
  v_cache :: nat
  v_page :: u64
  v_free :: "u64 list"
  v_used :: "u64 set"

datatype slab_kind = Full | Partial | Empty

definition kind_of :: "slab_view \<Rightarrow> slab_kind" where
  "kind_of v = (if v_free v = [] then Full else if v_used v = {} then Empty else Partial)"

text \<open>
  Where a slab is: its slots are split into free and used ones; the header of a small cache is at
  the start of the page, that of a large cache is an object of cache 2.
\<close>

definition slab_at :: "u64 set \<Rightarrow> (u64 \<Rightarrow> slab_view) \<Rightarrow> u64 \<Rightarrow> bool" where
  "slab_at H V h \<longleftrightarrow> v_cache (V h) < 8 \<and> page_base (v_page (V h)) \<and> v_page (V h) \<noteq> 0 \<and>
     distinct (v_free (V h)) \<and> set (v_free (V h)) \<inter> v_used (V h) = {} \<and>
     set (v_free (V h)) \<union> v_used (V h) = set (slots (v_cache (V h)) (v_page (V h))) \<and>
     (if v_cache (V h) < 6 then h = v_page (V h)
      else \<exists>g\<in>H. v_cache (V g) = 2 \<and> h \<in> v_used (V g))"

definition geometry :: "u64 set \<Rightarrow> (u64 \<Rightarrow> slab_view) \<Rightarrow> bool" where
  "geometry H V \<longleftrightarrow> finite H \<and> inj_on (\<lambda>h. v_page (V h)) H \<and> (\<forall>h\<in>H. slab_at H V h)"

lemma geometryD:
  assumes "geometry H V" and "h \<in> H"
  shows "v_cache (V h) < 8" "page_base (v_page (V h))" "v_page (V h) \<noteq> 0"
    "distinct (v_free (V h))" "set (v_free (V h)) \<inter> v_used (V h) = {}"
    "set (v_free (V h)) \<union> v_used (V h) = set (slots (v_cache (V h)) (v_page (V h)))"
    "v_cache (V h) < 6 \<Longrightarrow> h = v_page (V h)"
    "\<not> v_cache (V h) < 6 \<Longrightarrow> \<exists>g\<in>H. v_cache (V g) = 2 \<and> h \<in> v_used (V g)"
  using assms by (auto simp: geometry_def slab_at_def)

lemma in_slots: "f \<in> set (slots i p) \<longleftrightarrow> (\<exists>k. k < slot_count i \<and> f = slot i p k)"
  by (auto simp: slots_def)

text \<open>The slots of a slab.\<close>

lemma slab_slot:
  assumes "geometry H V" "h \<in> H" "f \<in> set (v_free (V h)) \<union> v_used (V h)"
  shows "pageno f = pageno (v_page (V h))" "al 16 f" "f \<noteq> 0"
    "2 \<le> v_cache (V h) \<Longrightarrow> al 64 f" "v_cache (V h) < 6 \<Longrightarrow> blkno f \<noteq> blkno h"
proof -
  note g = geometryD [OF assms(1,2)]
  from assms(3) obtain k where k: "k < slot_count (v_cache (V h))" "f = slot (v_cache (V h)) (v_page (V h)) k"
    unfolding g(6) in_slots by blast
  note p = slot_place [OF g(1) k(1) g(2), folded k(2)]
  show "pageno f = pageno (v_page (V h))" "al 16 f" "2 \<le> v_cache (V h) \<Longrightarrow> al 64 f" by (fact p)+
  show "f \<noteq> 0" using p(5) g(3) by blast
  show "v_cache (V h) < 6 \<Longrightarrow> blkno f \<noteq> blkno h" using p(4) g(7) by simp
qed

lemma al_16_8: "al 16 f \<Longrightarrow> al 8 f"
  using dvd_trans [of 8 16 "unat f"] by (simp add: al_def)

lemma pageno_inj: "page_base p \<Longrightarrow> page_base q \<Longrightarrow> pageno p = pageno q \<Longrightarrow> p = q"
  by (auto simp: pageno_def page_base_def word_unat_eq_iff elim!: dvdE)

lemma blkno_pageno: "blkno a = blkno b \<Longrightarrow> pageno a = pageno b"
proof -
  assume "blkno a = blkno b"
  moreover have "pageno x = blkno x div 64" for x by (simp add: pageno_def blkno_def div_mult2_eq [symmetric])
  ultimately show ?thesis by simp
qed

lemma same_slab:
  assumes "geometry H V" "g \<in> H" "h \<in> H" "pageno (v_page (V g)) = pageno (v_page (V h))"
  shows "g = h"
proof -
  have "v_page (V g) = v_page (V h)"
    by (rule pageno_inj [OF geometryD(2) [OF assms(1,2)] geometryD(2) [OF assms(1,3)] assms(4)])
  then show ?thesis using assms by (auto simp: geometry_def inj_on_def)
qed

lemma header_al:
  assumes "geometry H V" "h \<in> H"
  shows "al 64 h" "h \<noteq> 0"
proof -
  note g = geometryD [OF assms]
  have "al 64 h \<and> h \<noteq> 0"
  proof (cases "v_cache (V h) < 6")
    case True
    have "al 64 (v_page (V h))" using g(2) by (auto simp: page_base_def al_def elim!: dvdE)
    then show ?thesis using True g(3,7) by simp
  next
    case False
    then obtain k where k: "k \<in> H" "v_cache (V k) = 2" "h \<in> v_used (V k)" using g(8) by blast
    then show ?thesis using slab_slot(3,4) [OF assms(1) k(1), of h] by simp
  qed
  then show "al 64 h" "h \<noteq> 0" by simp_all
qed

text \<open>No free slot is in the 64 bytes of a header, and no object in use overlaps one of another kind.\<close>

lemma free_not_header:
  assumes "geometry H V" "g \<in> H" "f \<in> set (v_free (V g))" "h \<in> H"
  shows "blkno f \<noteq> blkno h"
proof
  assume b: "blkno f = blkno h"
  note s = slab_slot [OF assms(1,2), of f]
  show False
  proof (cases "v_cache (V h) < 6")
    case True
    then have "pageno (v_page (V g)) = pageno (v_page (V h))"
      using s(1) assms(3) geometryD(7) [OF assms(1,4)] blkno_pageno [OF b] by simp
    then have "g = h" using same_slab [OF assms(1,2,4)] by simp
    then show False using s(5) assms(3) True b by simp
  next
    case False
    then obtain k where k: "k \<in> H" "v_cache (V k) = 2" "h \<in> v_used (V k)"
      using geometryD(8) [OF assms(1,4)] by blast
    have "pageno (v_page (V g)) = pageno (v_page (V k))"
      using s(1) assms(3) slab_slot(1) [OF assms(1) k(1), of h] k(3) blkno_pageno [OF b] by simp
    then have e: "g = k" using same_slab [OF assms(1,2) k(1)] by simp
    have "f = h"
      using blkno_inj [OF _ header_al(1) [OF assms(1,4)] b] s(4) assms(3) k(2) e by simp
    then show False using geometryD(5) [OF assms(1,2)] assms(3) k(3) e by auto
  qed
qed

text \<open>A slot of one slab is a slot of no other.\<close>

lemma slot_slab:
  assumes "geometry H V" "g \<in> H" "h \<in> H" "f \<in> set (v_free (V g)) \<union> v_used (V g)"
    "f \<in> set (v_free (V h)) \<union> v_used (V h)"
  shows "g = h"
  using same_slab [OF assms(1,2,3)] slab_slot(1) [OF assms(1,2,4)] slab_slot(1) [OF assms(1,3,5)] by simp

section \<open>Families of lists\<close>

text \<open>
  The lists of all caches, by cache and kind: heads \<open>head\<close>, members \<open>M\<close>. Taking a member out of its
  list and putting one at the front of a list are the two changes the code makes.
\<close>

definition family ::
  "('k \<Rightarrow> bool) \<Rightarrow> (u64 \<Rightarrow> u64) \<Rightarrow> (u64 \<Rightarrow> u64) \<Rightarrow> ('k \<Rightarrow> u64) \<Rightarrow> ('k \<Rightarrow> u64 set) \<Rightarrow> bool" where
  "family K nx pv head M \<longleftrightarrow> (\<forall>k. K k \<longrightarrow> (\<exists>xs. dlist 0 nx pv (head k) xs \<and> set xs = M k)) \<and>
     (\<forall>k j. K k \<longrightarrow> K j \<longrightarrow> k \<noteq> j \<longrightarrow> M k \<inter> M j = {})"

lemma familyE:
  assumes "family K nx pv head M" "K k"
  obtains xs where "dlist 0 nx pv (head k) xs" "set xs = M k"
  using assms by (auto simp: family_def)

lemma family_disjoint: "family K nx pv head M \<Longrightarrow> K k \<Longrightarrow> K j \<Longrightarrow> k \<noteq> j \<Longrightarrow> M k \<inter> M j = {}"
  by (simp add: family_def)

lemma family_head: "family K nx pv head M \<Longrightarrow> K k \<Longrightarrow> head k = 0 \<longleftrightarrow> M k = {}"
  by (metis familyE dlist_nil_head dlist_nonempty dlist_Nil list.set(1) set_empty empty_not_insert list.simps(15))

lemma family_head_in: "family K nx pv head M \<Longrightarrow> K k \<Longrightarrow> head k \<noteq> 0 \<Longrightarrow> head k \<in> M k"
  by (metis familyE dlist_nonempty list.set_intros(1))

lemma family_next:
  assumes "family K nx pv head M" "K k" "y \<in> M k"
  shows "nx y \<noteq> 0 \<Longrightarrow> nx y \<in> M k \<and> nx y \<noteq> y" and "pv y \<noteq> 0 \<Longrightarrow> pv y \<in> M k \<and> pv y \<noteq> y"
    and "pv y = 0 \<longleftrightarrow> head k = y" and "y \<noteq> 0"
proof -
  obtain xs where x: "dlist 0 nx pv (head k) xs" "set xs = M k" using familyE [OF assms(1,2)] .
  then obtain as bs where s: "xs = as @ y # bs" using assms(3) by (metis split_list)
  note f = dlist_split_fields [OF x(1) [unfolded s]]
  have d: "distinct (as @ y # bs)" "0 \<notin> set (as @ y # bs)" using x(1) s by (auto simp: dlist_def)
  show "nx y \<noteq> 0 \<Longrightarrow> nx y \<in> M k \<and> nx y \<noteq> y"
    using f(2) x(2) s d by (cases bs) auto
  show "pv y \<noteq> 0 \<Longrightarrow> pv y \<in> M k \<and> pv y \<noteq> y"
    using f(1) x(2) s d by (cases as rule: rev_cases) auto
  show "pv y = 0 \<longleftrightarrow> head k = y"
    using f(3) dlist_head [OF x(1)] s d by (cases as) auto
  show "y \<noteq> 0" using d by auto
qed

lemma family_remove:
  assumes "family K nx pv head M" "K k" "y \<in> M k"
  shows "family K (if pv y \<noteq> 0 then nx(pv y := nx y) else nx)
    (if nx y \<noteq> 0 then pv(nx y := pv y) else pv)
    (if pv y = 0 then head(k := nx y) else head) (M(k := M k - {y}))"
proof -
  let ?nx = "if pv y \<noteq> 0 then nx(pv y := nx y) else nx" and ?pv = "if nx y \<noteq> 0 then pv(nx y := pv y) else pv"
  obtain xs where x: "dlist 0 nx pv (head k) xs" "set xs = M k" using familyE [OF assms(1,2)] .
  then obtain as bs where s: "xs = as @ y # bs" using assms(3) by (metis split_list)
  have d: "distinct (as @ y # bs)" using x(1) s by (simp add: dlist_def)
  have n: "nx y \<noteq> 0 \<Longrightarrow> nx y \<in> M k" "pv y \<noteq> 0 \<Longrightarrow> pv y \<in> M k" "pv y = 0 \<longleftrightarrow> head k = y"
    using family_next [OF assms] by simp_all
  have "\<exists>zs. dlist 0 ?nx ?pv ((if pv y = 0 then head(k := nx y) else head) j) zs \<and> set zs = (M(k := M k - {y})) j"
    if j: "K j" for j
  proof (cases "j = k")
    case True
    have "dlist 0 ?nx ?pv (if pv y = 0 then nx y else head k) (as @ bs)"
      by (rule dlist_unlink [OF x(1) [unfolded s]])
    moreover have "set (as @ bs) = M k - {y}" using x(2) s d by auto
    ultimately show ?thesis using True n(3) by (auto split: if_splits)
  next
    case False
    obtain zs where z: "dlist 0 nx pv (head j) zs" "set zs = M j" using familyE [OF assms(1) j] .
    have dj: "M k \<inter> M j = {}" using family_disjoint [OF assms(1,2) j] False by simp
    have "dlist 0 ?nx ?pv (head j) zs = dlist 0 nx pv (head j) zs"
      by (rule dlist_cong) (use n(1,2) dj z(2) in auto)
    then show ?thesis using z False by auto
  qed
  moreover have "(M(k := M k - {y})) i \<inter> (M(k := M k - {y})) j = {}" if "K i" "K j" "i \<noteq> j" for i j
    using family_disjoint [OF assms(1) that] by auto
  ultimately show ?thesis unfolding family_def by blast
qed

lemma family_push:
  assumes "family K nx pv head M" "K k" "y \<noteq> 0" "\<And>j. K j \<Longrightarrow> y \<notin> M j"
  shows "family K (nx(y := head k)) ((if head k \<noteq> 0 then pv(head k := y) else pv)(y := 0)) (head(k := y))
    (M(k := insert y (M k)))"
proof -
  let ?pv = "(if head k \<noteq> 0 then pv(head k := y) else pv)(y := 0)"
  obtain xs where x: "dlist 0 nx pv (head k) xs" "set xs = M k" using familyE [OF assms(1,2)] .
  have "\<exists>zs. dlist 0 (nx(y := head k)) ?pv ((head(k := y)) j) zs \<and> set zs = (M(k := insert y (M k))) j"
    if j: "K j" for j
  proof (cases "j = k")
    case True
    have "dlist 0 (nx(y := head k)) ?pv y (y # xs)"
      by (rule dlist_push [OF x(1)]) (use assms(2-4) x(2) in auto)
    moreover have "set (y # xs) = insert y (M k)" using x(2) by simp
    ultimately show ?thesis using True by auto
  next
    case False
    obtain zs where z: "dlist 0 nx pv (head j) zs" "set zs = M j" using familyE [OF assms(1) j] .
    have dj: "M k \<inter> M j = {}" using family_disjoint [OF assms(1,2) j] False by simp
    have h: "head k \<noteq> 0 \<Longrightarrow> head k \<in> M k" using family_head_in [OF assms(1,2)] .
    have "dlist 0 (nx(y := head k)) ?pv (head j) zs = dlist 0 nx pv (head j) zs"
      by (rule dlist_cong) (use h dj z(2) assms(4) [OF j] in auto)
    then show ?thesis using z False by auto
  qed
  moreover have "(M(k := insert y (M k))) i \<inter> (M(k := insert y (M k))) j = {}"
    if "K i" "K j" "i \<noteq> j" for i j
    using family_disjoint [OF assms(1) that] assms(4) [OF that(1)] assms(4) [OF that(2)] that(3) by auto
  ultimately show ?thesis unfolding family_def by blast
qed

lemma family_cong:
  assumes "family K nx pv head M" "\<And>k. K k \<Longrightarrow> head' k = head k" "\<And>k. K k \<Longrightarrow> M' k = M k"
    "\<And>k x. K k \<Longrightarrow> x \<in> M k \<Longrightarrow> nx' x = nx x \<and> pv' x = pv x"
  shows "family K nx' pv' head' M'"
proof -
  have "\<exists>xs. dlist 0 nx' pv' (head' k) xs \<and> set xs = M' k" if k: "K k" for k
  proof -
    obtain xs where x: "dlist 0 nx pv (head k) xs" "set xs = M k" using familyE [OF assms(1) k] .
    have "dlist 0 nx' pv' (head k) xs = dlist 0 nx pv (head k) xs"
      by (rule dlist_cong) (use assms(4) [OF k] x(2) in auto)
    then show ?thesis using x assms(2,3) [OF k] by auto
  qed
  then show ?thesis using assms(1,3) by (auto simp: family_def)
qed

end
