(* ===== verification/SlabAlloc.thy ===== *)
theory SlabAlloc
  imports SlabInv PageMap
begin

text \<open>
  Allocation against the invariant of the slab allocator: a slot of a slab with free slots, or the first slot
  of a new slab, whose header the large caches take from cache 2.
\<close>

section \<open>The invariant\<close>

text \<open>What the header of a slab holds.\<close>

definition header_ok :: "u64 \<Rightarrow> memory \<Rightarrow> u64 \<Rightarrow> slab_view \<Rightarrow> bool" where
  "header_ok ca m h v \<longleftrightarrow> fld 0 m h = ca + 80 * of_nat (v_cache v) \<and>
     fld 8 m h = of_nat (card (v_used v)) \<and> fld 32 m h = head0 (v_free v) \<and>
     fld 40 m h = v_page v \<and> chain m (v_free v)"

definition kind_head :: "'a slabs_scheme \<Rightarrow> nat \<times> slab_kind \<Rightarrow> u64" where
  "kind_head s = (\<lambda>(i, c). case c of Full \<Rightarrow> list_full (caches s i) | Partial \<Rightarrow> list_partial (caches s i)
     | Empty \<Rightarrow> list_empty (caches s i))"

definition members :: "u64 set \<Rightarrow> (u64 \<Rightarrow> slab_view) \<Rightarrow> nat \<times> slab_kind \<Rightarrow> u64 set" where
  "members H V = (\<lambda>(i, c). {h \<in> H. v_cache (V h) = i \<and> kind_of (V h) = c})"

definition linked :: "'a slabs_scheme \<Rightarrow> u64 set \<Rightarrow> (u64 \<Rightarrow> slab_view) \<Rightarrow> bool" where
  "linked s H V \<longleftrightarrow> family (\<lambda>(i, c). i < 8) (fld sl_next (mem s)) (fld sl_prev (mem s)) (kind_head s) (members H V)"

text \<open>The sizes and flags that \<open>kvmalloc_init\<close> writes.\<close>

definition configured :: "'a slabs_scheme \<Rightarrow> bool" where
  "configured s \<longleftrightarrow> (\<forall>i<8. aligned_size (caches s i) = of_nat (slot_size i) \<and>
     cache_flag (caches s i) = (if i < 6 then 0 else 1))"

definition slab_ok ::
  "'a slabs_scheme \<Rightarrow> u64 set \<Rightarrow> (u64 \<Rightarrow> slab_view) \<Rightarrow> (u64 \<times> nat) set \<Rightarrow> u64 set \<Rightarrow> bool" where
  "slab_ok s H V L U \<longleftrightarrow> heap_ok s L U \<and> ram_base s \<noteq> 0 \<and>
     (\<lambda>h. v_page (V h)) ` H \<subseteq> {page_addr s i | i. (i, 0) \<in> L} \<and>
     geometry H V \<and> configured s \<and> (\<forall>h\<in>H. header_ok (caches_addr s) (mem s) h (V h)) \<and> linked s H V"

lemma slab_okD:
  assumes "slab_ok s H V L U"
  shows "heap_ok s L U" "ram_base s \<noteq> 0" "(\<lambda>h. v_page (V h)) ` H \<subseteq> {page_addr s i | i. (i, 0) \<in> L}"
    "geometry H V" "configured s" "\<And>h. h \<in> H \<Longrightarrow> header_ok (caches_addr s) (mem s) h (V h)" "linked s H V"
  using assms by (auto simp: slab_ok_def)

section \<open>Writing headers\<close>

text \<open>
  A change of the slabs' memory: only bytes of the 8-byte cells \<open>C\<close> are written, the rest of the
  kernel's state stays. \<open>header_cells H\<close> are the cells of the headers.
\<close>

definition cellno :: "u64 \<Rightarrow> nat" where "cellno a = unat a div 8"

lemma blkno_cellno: "blkno a = cellno a div 8"
  by (simp add: blkno_def cellno_def div_mult2_eq [of "unat _" 8 8, simplified])

definition header_cells :: "u64 set \<Rightarrow> nat set" where
  "header_cells H = {c. c div 8 \<in> blkno ` H}"

lemma header_cells_iff: "cellno a \<in> header_cells H \<longleftrightarrow> blkno a \<in> blkno ` H"
  by (simp add: header_cells_def blkno_cellno)

definition slab_step :: "nat set \<Rightarrow> 'a slabs_scheme \<Rightarrow> 'a slabs_scheme \<Rightarrow> bool" where
  "slab_step C s t \<longleftrightarrow> t\<lparr>mem := mem s, caches := caches s\<rparr> = s \<and> (\<forall>b. cellno b \<notin> C \<longrightarrow> mem t b = mem s b)"

lemma slab_step_refl [intro]: "slab_step B s s"
  by (simp add: slab_step_def)

lemma slab_step_trans:
  assumes "slab_step B s t" and "slab_step C t u"
  shows "slab_step (B \<union> C) s u"
proof -
  have "u\<lparr>mem := mem s, caches := caches s\<rparr> = (u\<lparr>mem := mem t, caches := caches t\<rparr>)\<lparr>mem := mem s, caches := caches s\<rparr>"
    by simp
  also have "\<dots> = s" using assms by (simp add: slab_step_def)
  finally show ?thesis using assms by (simp add: slab_step_def)
qed

lemma slab_step_mono: "slab_step B s t \<Longrightarrow> B \<subseteq> C \<Longrightarrow> slab_step C s t"
  by (auto simp: slab_step_def)

lemma slab_step_fields:
  assumes "slab_step B s t"
  shows "caches_addr t = caches_addr s" "kvmalloc_lock t = kvmalloc_lock s" "ram_base t = ram_base s"
    "ram_size t = ram_size s" "heap_ok t L U = heap_ok s L U" "page_addr t = page_addr s"
    "root_table t = root_table s" "satp t = satp s" "slabs.more t = slabs.more s"
proof -
  have e: "t\<lparr>mem := mem s, caches := caches s\<rparr> = s" using assms by (simp add: slab_step_def)
  show "caches_addr t = caches_addr s" "kvmalloc_lock t = kvmalloc_lock s" "ram_base t = ram_base s"
    "ram_size t = ram_size s" "root_table t = root_table s" "satp t = satp s" "slabs.more t = slabs.more s"
    using arg_cong [OF e, of caches_addr] arg_cong [OF e, of kvmalloc_lock] arg_cong [OF e, of ram_base]
      arg_cong [OF e, of ram_size] arg_cong [OF e, of root_table] arg_cong [OF e, of satp]
      arg_cong [OF e, of slabs.more] by simp_all
  have "heap_ok (t\<lparr>mem := m, caches := c\<rparr>) L U = heap_ok t L U" for m c
    by (simp add: heap_ok_def buddy_inv_def lists_ok_def flags_ok_def blocks_ok_def ram_ok_def
        nxt_def prv_def flg_def ordr_def total_pages_def)
  then show "heap_ok t L U = heap_ok s L U" using e by metis
  have "page_addr (t\<lparr>mem := m, caches := c\<rparr>) = page_addr t" for m c
    by (rule ext) (simp add: page_addr_def)
  then show "page_addr t = page_addr s" using e by metis
qed

lemma store_fields [simp]: "mem (store a v s) = st64 a v (mem s)" "caches (store a v s) = caches s"
  "caches_addr (store a v s) = caches_addr s"
  by (simp_all add: store_def)

lemma upd_cache_fields [simp]: "mem (upd_cache i f s) = mem s"
  "caches (upd_cache i f s) = (caches s)(i := f (caches s i))" "caches_addr (upd_cache i f s) = caches_addr s"
  by (simp_all add: upd_cache_def)

lemma slab_step_cache [intro]: "slab_step B s (upd_cache i f s)"
  by (simp add: slab_step_def upd_cache_def)

lemma slab_step_cell: "al 8 a \<Longrightarrow> cellno a \<in> B \<Longrightarrow> slab_step B s (store a v s)"
proof -
  assume a: "al 8 a" "cellno a \<in> B"
  have "st64 a v (mem s) b = mem s b" if "cellno b \<notin> B" for b
  proof (rule st64_other [OF a(1)])
    show "unat b div 8 \<noteq> unat a div 8" using a(2) that by (auto simp: cellno_def)
  qed
  then show ?thesis by (simp add: slab_step_def store_def)
qed

lemma slab_step_field: "al 64 h \<Longrightarrow> fofs d \<Longrightarrow> h \<in> H \<Longrightarrow> slab_step (header_cells H) s (store (h + d) v s)"
  by (intro slab_step_cell) (simp_all add: header_cells_iff blkno_field)

text \<open>Cells outside the written ones.\<close>

lemma slab_step_ld64:
  assumes "slab_step B s t" "al 8 f" "cellno f \<notin> B"
  shows "ld64 (mem t) f = ld64 (mem s) f"
proof (rule ld64_cong)
  fix k :: nat assume k: "k < 8"
  obtain x where x: "unat f = 8 * x" using assms(2) by (auto simp: al_def elim!: dvdE)
  then have "8 * x < 8 * 2 ^ 61" using unat64_less [of f] by simp
  then have "unat f + k < 2 ^ LENGTH(64)" using x k by simp
  then have "unat (f + of_nat k) = unat f + k" by (rule unat_lt_imp_add)
  then have "cellno (f + of_nat k) = cellno f" using x k by (simp add: cellno_def)
  then show "mem t (f + of_nat k) = mem s (f + of_nat k)" using assms(1,3) by (simp add: slab_step_def)
qed

lemma slab_step_fld: "slab_step B s t \<Longrightarrow> fofs d \<Longrightarrow> cellno (h + d) \<notin> B \<Longrightarrow> fld d (mem t) h = fld d (mem s) h"
  by (simp add: fld_def slab_step_ld64)

text \<open>Chaining steps of the code.\<close>

lemma step_field: "slab_step (header_cells H) s t \<Longrightarrow> al 64 h \<Longrightarrow> fofs d \<Longrightarrow> h \<in> H \<Longrightarrow>
    slab_step (header_cells H) s (store (h + d) v t)"
  using slab_step_trans [OF _ slab_step_field] by (metis Un_absorb)

lemma step_cache: "slab_step C s t \<Longrightarrow> slab_step C s (upd_cache i f t)"
  using slab_step_trans [OF _ slab_step_cache] by (metis Un_absorb)

lemma step_prev: "slab_step (header_cells H) s t \<Longrightarrow> (p \<noteq> 0 \<Longrightarrow> al 64 p \<and> p \<in> H) \<Longrightarrow>
    slab_step (header_cells H) s (set_prev_if p v t)"
  by (auto simp: set_prev_if_def intro: step_field)

section \<open>Heads and members\<close>

lemma kind_head_store [simp]: "kind_head (store a v s) = kind_head s"
  by (auto simp: kind_head_def fun_eq_iff split: slab_kind.splits)

lemma kind_head_upd [simp]:
  "kind_head (upd_cache i (\<lambda>c. c\<lparr>list_full := x\<rparr>) s) = (kind_head s)((i, Full) := x)"
  "kind_head (upd_cache i (\<lambda>c. c\<lparr>list_partial := x\<rparr>) s) = (kind_head s)((i, Partial) := x)"
  "kind_head (upd_cache i (\<lambda>c. c\<lparr>list_empty := x\<rparr>) s) = (kind_head s)((i, Empty) := x)"
  by (auto simp: kind_head_def fun_eq_iff split: slab_kind.splits)

lemma kind_head_fields: "list_full (caches s i) = kind_head s (i, Full)"
  "list_partial (caches s i) = kind_head s (i, Partial)" "list_empty (caches s i) = kind_head s (i, Empty)"
  by (simp_all add: kind_head_def)

lemma configured_same: "(\<And>i. i < 8 \<Longrightarrow> aligned_size (caches t i) = aligned_size (caches s i) \<and>
    cache_flag (caches t i) = cache_flag (caches s i)) \<Longrightarrow> configured s \<Longrightarrow> configured t"
  by (simp add: configured_def)

lemma slots_per_slab:
  assumes "configured s" "i < 8"
  shows "(if cache_flag (caches s i) = 0 then on_slab_objs (caches s i) else off_slab_objs (caches s i)) =
    of_nat (slot_count i)" "i < 6 \<longleftrightarrow> cache_flag (caches s i) = 0"
  using assms less_8 [OF assms(2)]
  by (auto simp: configured_def on_slab_objs_def off_slab_objs_def slot_count_def slot_size_def slot_base_def)

lemma in_members: "h \<in> members H V (i, c) \<longleftrightarrow> h \<in> H \<and> v_cache (V h) = i \<and> kind_of (V h) = c"
  by (simp add: members_def)

text \<open>A slab that changes its kind moves between two sets of members.\<close>

lemma members_stay:
  assumes "v_cache v = v_cache (V h)" "kind_of v = kind_of (V h)"
  shows "members H (V(h := v)) = members H V"
  using assms by (auto simp: members_def fun_eq_iff)

lemma members_move:
  assumes "h \<in> H" "v_cache v = i" "v_cache (V h) = i" "kind_of (V h) \<noteq> kind_of v"
  shows "members H (V(h := v)) = (members H V)((i, kind_of (V h)) := members H V (i, kind_of (V h)) - {h},
    (i, kind_of v) := insert h (members H V (i, kind_of v)))"
  using assms by (auto simp: members_def fun_eq_iff)

lemma members_new:
  assumes "h \<notin> H" "v_cache v = i"
  shows "members (insert h H) (V(h := v)) = (members H V)((i, kind_of v) := insert h (members H V (i, kind_of v)))"
  using assms by (auto simp: members_def fun_eq_iff)

text \<open>A header that is put in front of the lists of its new kind.\<close>

lemma linked_push:
  assumes "family (\<lambda>(i, c). i < 8) nx pv hs M" "i < 8" "y \<noteq> 0" "\<And>k. y \<notin> M k"
    and "fld sl_next (mem t) = nx(y := hs (i, c))"
    and "fld sl_prev (mem t) = (if hs (i, c) \<noteq> 0 then pv(hs (i, c) := y) else pv)(y := 0)"
    and "kind_head t = hs((i, c) := y)" "members H V = M((i, c) := insert y (M (i, c)))"
  shows "linked t H V"
  using family_push [OF assms(1), of "(i, c)" y] assms(2-4) unfolding linked_def assms(5-8) by simp

lemmas slab_simps = Let_def fld_load fld_st64 kind_head_fields set_prev_if_def

text \<open>The one slab whose view changes; all other headers and chains are where they were.\<close>

lemma headers_step:
  assumes "geometry H V" and "slab_step C s t" and "\<And>g. g \<in> H \<Longrightarrow> header_ok ca (mem s) g (V g)"
    and "\<And>g d. g \<in> H \<Longrightarrow> g \<noteq> h \<Longrightarrow> d \<in> {0, 8, 32, 40} \<Longrightarrow> fld d (mem t) g = fld d (mem s) g"
    and "\<And>f. f \<in> (\<Union>g\<in>H - {h}. set (v_free (V g))) \<Longrightarrow> cellno f \<notin> C"
    and "header_ok ca (mem t) h v" "g \<in> H"
  shows "header_ok ca (mem t) g ((V(h := v)) g)"
proof (cases "g = h")
  case False
  have "ld64 (mem t) f = ld64 (mem s) f" if "f \<in> set (v_free (V g))" for f
    using slab_step_ld64 [OF assms(2) al_16_8] slab_slot(2) [OF assms(1,7), of f] that assms(5) assms(7) False by auto
  then have "chain (mem t) (v_free (V g)) = chain (mem s) (v_free (V g))" by (rule chain_cong)
  then show ?thesis using assms(3) [OF assms(7)] assms(4) [OF assms(7) False] False by (simp add: header_ok_def)
qed (use assms(6) in simp)

text \<open>Using one more slot of a slab, or giving one back, keeps every slab in place.\<close>

lemma geometry_change:
  assumes "geometry H V" "h \<in> H" "v_cache v = v_cache (V h)" "v_page v = v_page (V h)"
    and "distinct (v_free v)" "set (v_free v) \<inter> v_used v = {}"
    and "set (v_free v) \<union> v_used v = set (v_free (V h)) \<union> v_used (V h)" "v_used (V h) \<inter> H \<subseteq> v_used v"
  shows "geometry H (V(h := v))"
proof -
  note g = geometryD [OF assms(1)]
  have "slab_at H (V(h := v)) k" if k: "k \<in> H" for k
  proof -
    have "\<exists>g\<in>H. v_cache ((V(h := v)) g) = 2 \<and> k \<in> v_used ((V(h := v)) g)" if large: "\<not> v_cache (V k) < 6"
    proof -
      obtain j where j: "j \<in> H" "v_cache (V j) = 2" "k \<in> v_used (V j)"
        using geometryD(8) [OF assms(1) k large] by blast
      then have "v_cache ((V(h := v)) j) = 2 \<and> k \<in> v_used ((V(h := v)) j)" using assms(3,8) k by auto
      then show ?thesis using j(1) by blast
    qed
    then have ex: "if v_cache (V k) < 6 then k = v_page (V k)
        else \<exists>g\<in>H. v_cache ((V(h := v)) g) = 2 \<and> k \<in> v_used ((V(h := v)) g)"
      using g(7) [OF k] by (cases "v_cache (V k) < 6") (simp_all only: if_True if_False simp_thms)
    have eq: "v_cache ((V(h := v)) k) = v_cache (V k)" "v_page ((V(h := v)) k) = v_page (V k)"
      using assms(3,4) by simp_all
    have free: "distinct (v_free ((V(h := v)) k))" "set (v_free ((V(h := v)) k)) \<inter> v_used ((V(h := v)) k) = {}"
      using assms(5,6) g(4,5) [OF k] by simp_all
    have all: "set (v_free ((V(h := v)) k)) \<union> v_used ((V(h := v)) k) = set (slots (v_cache (V k)) (v_page (V k)))"
      using assms(7) g(6) [OF k] by (cases "k = h") simp_all
    show ?thesis unfolding slab_at_def eq using ex free all g(1-3) [OF k] by - (intro conjI; assumption)
  qed
  moreover have "(\<lambda>k. v_page ((V(h := v)) k)) = (\<lambda>k. v_page (V k))"
    using assms(4) by (simp add: fun_eq_iff)
  ultimately show ?thesis using assms(1) by (simp add: geometry_def)
qed

section \<open>A slot of a partial slab\<close>

lemma linkedD: "linked s H V \<Longrightarrow> family (\<lambda>(i, c). i < 8) (fld sl_next (mem s)) (fld sl_prev (mem s)) (kind_head s) (members H V)"
  by (simp add: linked_def)

lemma card_used:
  assumes "geometry H V" "h \<in> H"
  shows "finite (v_used (V h))" "card (v_used (V h)) + length (v_free (V h)) = slot_count (v_cache (V h))"
proof -
  note g = geometryD [OF assms]
  have "finite (set (v_free (V h)) \<union> v_used (V h))" unfolding g(6) by simp
  then show f: "finite (v_used (V h))" by simp
  have "card (set (v_free (V h)) \<union> v_used (V h)) = slot_count (v_cache (V h))"
    unfolding g(6) using distinct_card [OF slots_distinct [OF g(1,2)]] by (simp add: slots_def)
  then show "card (v_used (V h)) + length (v_free (V h)) = slot_count (v_cache (V h))"
    using card_Un_disjoint [OF _ f g(5)] distinct_card [OF g(4)] by simp
qed

text \<open>The view of a slab whose first free slot is taken.\<close>

definition taken :: "slab_view \<Rightarrow> slab_view" where
  "taken v = v\<lparr>v_free := tl (v_free v), v_used := insert (hd (v_free v)) (v_used v)\<rparr>"

lemma taken_simps [simp]: "v_cache (taken v) = v_cache v" "v_page (taken v) = v_page v"
  "v_free (taken v) = tl (v_free v)" "v_used (taken v) = insert (hd (v_free v)) (v_used v)"
  by (simp_all add: taken_def)

lemma taken_ok:
  assumes "geometry H V" "h \<in> H" "v_free (V h) \<noteq> []"
  shows "geometry H (V(h := taken (V h)))" "card (v_used (taken (V h))) = Suc (card (v_used (V h)))"
    "kind_of (taken (V h)) = (if Suc (card (v_used (V h))) = slot_count (v_cache (V h)) then Full else Partial)"
    "Suc (card (v_used (V h))) \<le> slot_count (v_cache (V h))"
proof -
  note g = geometryD [OF assms(1,2)]
  obtain x xs where x: "v_free (V h) = x # xs" using assms(3) by (cases "v_free (V h)") auto
  show "geometry H (V(h := taken (V h)))"
    by (rule geometry_change [OF assms(1,2)]) (use g(4,5) x in auto)
  have n: "x \<notin> v_used (V h)" using g(5) x by auto
  note c = card_used [OF assms(1,2)]
  show "card (v_used (taken (V h))) = Suc (card (v_used (V h)))" using c(1) n x by simp
  show "kind_of (taken (V h)) = (if Suc (card (v_used (V h))) = slot_count (v_cache (V h)) then Full else Partial)"
    "Suc (card (v_used (V h))) \<le> slot_count (v_cache (V h))"
    using c(2) x by (cases xs; simp add: kind_of_def)+
qed

lemma of_nat_count: "i < 8 \<Longrightarrow> n \<le> slot_count i \<Longrightarrow> (of_nat n :: u64) = of_nat (slot_count i) \<longleftrightarrow> n = slot_count i"
proof -
  assume "i < 8" "n \<le> slot_count i"
  then have "n \<le> 252" "slot_count i \<le> 252" using slot_count_bounds [of i] by simp_all
  then have "unat (of_nat n :: u64) = n" "unat (of_nat (slot_count i) :: u64) = slot_count i"
    by (simp_all add: unat_of_nat)
  then show ?thesis by metis
qed

text \<open>The header fields and the bytes after \<open>alloc_partial\<close>; the lists change when the slab becomes full.\<close>

lemma alloc_partial_step:
  assumes "slab_ok s H V L U" "i < 8" "kind_head s (i, Partial) = h" "h \<noteq> 0" "alloc_partial i s = (f, t)"
  shows "h \<in> H" "v_cache (V h) = i" "v_free (V h) \<noteq> []" "f = hd (v_free (V h))"
    "slab_step (header_cells H) s t" "linked t H (V(h := taken (V h)))"
    "fld 0 (mem t) = fld 0 (mem s)" "fld 40 (mem t) = fld 40 (mem s)"
    "fld 8 (mem t) = (fld 8 (mem s))(h := fld 8 (mem s) h + 1)"
    "fld 32 (mem t) = (fld 32 (mem s))(h := head0 (tl (v_free (V h))))" "configured t"
proof -
  note k = slab_okD [OF assms(1)]
  note fm = linkedD [OF k(7)]
  have hm: "h \<in> members H V (i, Partial)" using family_head_in [OF fm, of "(i, Partial)"] assms(2-4) by simp
  then have kd: "kind_of (V h) = Partial" by (simp add: in_members)
  show h: "h \<in> H" "v_cache (V h) = i" using hm by (simp_all add: in_members)
  show fr: "v_free (V h) \<noteq> []" using kd by (auto simp: kind_of_def split: if_splits)
  then obtain x xs where x: "v_free (V h) = x # xs" by (cases "v_free (V h)") auto
  note ho = k(6) [OF h(1), unfolded header_ok_def]
  have al: "al 64 h" using header_al(1) [OF k(4) h(1)] .
  note slot = slab_slot(2) [OF k(4) h(1), of x, THEN al_16_8]
  define F where "F = kind_head s (i, Full)"
  define s1 where "s1 = store (h + active_obj_count) (fld 8 (mem s) h + 1) s"
  define s2 where "s2 = upd_cache i (\<lambda>c. c\<lparr>list_full := h\<rparr>) (set_prev_if F h (store (h + sl_prev) 0 (store (h + sl_next) F
    (set_prev_if (fld sl_next (mem s) h) 0 (upd_cache i (\<lambda>c. c\<lparr>list_partial := fld sl_next (mem s) h\<rparr>) s1)))))"
  define full where "full \<longleftrightarrow> Suc (card (v_used (V h))) = slot_count i"
  define s' where "s' = (if full then s2 else s1)"
  have test: "cache_flag (caches s i) = 0 \<and> fld 8 (mem s) h + 1 = on_slab_objs (caches s i) \<or>
      cache_flag (caches s i) \<noteq> 0 \<and> fld 8 (mem s) h + 1 = off_slab_objs (caches s i) \<longleftrightarrow> full"
  proof -
    have e: "fld 8 (mem s) h + 1 = of_nat (Suc (card (v_used (V h))))" using ho by simp
    have "of_nat (Suc (card (v_used (V h)))) = (of_nat (slot_count i) :: u64) \<longleftrightarrow> full"
      unfolding full_def using taken_ok(4) [OF k(4) h(1) fr] h(2) by (intro of_nat_count assms(2)) simp
    then show ?thesis unfolding e using slots_per_slab(1) [OF k(5) assms(2)]
      by (cases "cache_flag (caches s i) = 0") (simp_all only: if_True if_False simp_thms)
  qed
  have eq: "alloc_partial i s = (load s (h + free_slot), store (h + free_slot) (load s' (load s' (h + free_slot))) s')"
    using assms(3) al test
    by (simp add: alloc_partial_def s'_def s1_def s2_def F_def slab_simps)
  have in_H: "kind_head s (j, c) \<noteq> 0 \<Longrightarrow> al 64 (kind_head s (j, c)) \<and> kind_head s (j, c) \<in> H" if "j < 8" for j c
    using family_head_in [OF fm, of "(j, c)"] that header_al(1) [OF k(4)] by (auto simp: in_members)
  have next_H: "fld sl_next (mem s) h \<noteq> 0 \<Longrightarrow> al 64 (fld sl_next (mem s) h) \<and> fld sl_next (mem s) h \<in> H"
    using family_next(1) [OF fm _ hm] assms(2) header_al(1) [OF k(4)] by (auto simp: in_members)
  have st1: "slab_step (header_cells H) s s1" unfolding s1_def
    by (intro step_field slab_step_refl al h) simp
  have st2: "slab_step (header_cells H) s s2" unfolding s2_def F_def
    by (intro step_field step_prev step_cache st1 al h in_H next_H assms(2) fofs_fields)
  have st': "slab_step (header_cells H) s s'" using st1 st2 by (simp add: s'_def)
  have x0: "blkno x \<notin> blkno ` H" using free_not_header [OF k(4) h(1), of x] x by auto
  have ldx: "load s' x = head0 xs"
    using slab_step_ld64 [OF st' slot, of] x ho x0 by (simp add: load_def header_cells_iff)
  have fl1: "fld d (mem s1) = (if d = 8 then (fld 8 (mem s))(h := fld 8 (mem s) h + 1) else fld d (mem s))" if "fofs d" for d
    using al that by (simp add: s1_def fld_st64)
  have fl2: "fld d (mem s2) = fld d (mem s1)" if "fofs d" "d \<noteq> 16" "d \<noteq> 24" for d
    using al that in_H [OF assms(2)] next_H by (auto simp: s2_def F_def set_prev_if_def fld_st64)
  have fl': "fld d (mem s') = (if d = 8 then (fld 8 (mem s))(h := fld 8 (mem s) h + 1) else fld d (mem s))"
    if "fofs d" "d \<noteq> 16" "d \<noteq> 24" for d
    unfolding s'_def using fl1 [OF that(1)] fl2 [OF that] by presburger
  have l0: "load s' (h + 32) = x" using fl' [of 32] al ho x by (simp add: fld_load)
  have l1: "load s (h + 32) = x" using al ho x by (simp add: fld_load)
  have t: "f = x" "t = store (h + 32) (head0 xs) s'" using assms(5) eq l0 l1 ldx by simp_all
  show "f = hd (v_free (V h))" using t(1) x by simp
  show "slab_step (header_cells H) s t" unfolding t(2) by (intro step_field st' al h) simp
  have flt: "fld d (mem t) = (if d = 32 then (fld 32 (mem s'))(h := head0 xs) else fld d (mem s'))" if "fofs d" for d
    using al that by (simp add: t(2) fld_st64)
  show "fld 0 (mem t) = fld 0 (mem s)" "fld 40 (mem t) = fld 40 (mem s)"
    "fld 8 (mem t) = (fld 8 (mem s))(h := fld 8 (mem s) h + 1)"
    "fld 32 (mem t) = (fld 32 (mem s))(h := head0 (tl (v_free (V h))))"
    using x by (simp_all add: flt fl')
  show "configured t"
  proof (rule configured_same [OF _ k(5)])
    fix j show "aligned_size (caches t j) = aligned_size (caches s j) \<and> cache_flag (caches t j) = cache_flag (caches s j)"
      by (simp add: t(2) s'_def s1_def s2_def set_prev_if_def)
  qed
  show "linked t H (V(h := taken (V h)))"
  proof (cases full)
    case False
    then have "members H (V(h := taken (V h))) = members H V"
      using taken_ok(3) [OF k(4) h(1) fr] kd h(2) by (intro members_stay) (simp_all add: full_def)
    moreover have "kind_head t = kind_head s" using False by (simp add: t(2) s'_def s1_def)
    ultimately show ?thesis using fm False fl1 by (simp add: linked_def flt s'_def)
  next
    case True
    have kt: "kind_of (taken (V h)) = Full" using taken_ok(3) [OF k(4) h(1) fr] True h(2) by (simp add: full_def)
    have p0: "fld sl_prev (mem s) h = 0" using family_next(3) [OF fm _ hm] assms(2,3) by simp
    note rm = family_remove [OF fm _ hm, unfolded p0, simplified]
    show ?thesis
    proof (rule linked_push [where y = h and i = i and c = Full])
      show "family (\<lambda>(i, c). i < 8) (fld sl_next (mem s))
        (if fld sl_next (mem s) h \<noteq> 0 then (fld sl_prev (mem s))(fld sl_next (mem s) h := 0) else fld sl_prev (mem s))
        ((kind_head s)((i, Partial) := fld sl_next (mem s) h))
        ((members H V)((i, Partial) := members H V (i, Partial) - {h}))"
        using rm assms(2) by simp
      show "i < 8" "h \<noteq> 0" by fact+
      show "h \<notin> ((members H V)((i, Partial) := members H V (i, Partial) - {h})) j" for j
        using kd h(2) by (cases j) (auto simp: in_members)
      show "fld sl_next (mem t) = (fld sl_next (mem s))(h := ((kind_head s)((i, Partial) := fld sl_next (mem s) h)) (i, Full))"
        using True al in_H [OF assms(2), of Full] next_H fl1 [of 24]
        by (auto simp: flt s'_def s2_def F_def set_prev_if_def fld_st64)
      show "kind_head t = ((kind_head s)((i, Partial) := fld sl_next (mem s) h))((i, Full) := h)"
        using True by (simp add: t(2) s'_def s2_def s1_def set_prev_if_def)
      show "members H (V(h := taken (V h))) = ((members H V)((i, Partial) := members H V (i, Partial) - {h}))
        ((i, Full) := insert h (((members H V)((i, Partial) := members H V (i, Partial) - {h})) (i, Full)))"
        using members_move [OF h(1), of "taken (V h)" i V] kd kt h(2) by simp
      have Fh: "F \<noteq> h" using family_head_in [OF fm, of "(i, Full)"] assms(2,4) kd by (auto simp: F_def in_members)
      show "fld sl_prev (mem t) = (if ((kind_head s)((i, Partial) := fld sl_next (mem s) h)) (i, Full) \<noteq> 0
        then (if fld sl_next (mem s) h \<noteq> 0 then (fld sl_prev (mem s))(fld sl_next (mem s) h := 0) else fld sl_prev (mem s))
          (((kind_head s)((i, Partial) := fld sl_next (mem s) h)) (i, Full) := h)
        else (if fld sl_next (mem s) h \<noteq> 0 then (fld sl_prev (mem s))(fld sl_next (mem s) h := 0) else fld sl_prev (mem s)))
          (h := 0)"
        using True al in_H [OF assms(2), of Full] next_H fl1 [of 16] Fh
        by (auto simp: flt s'_def s2_def F_def set_prev_if_def fld_st64 fun_upd_twist)
    qed
  qed
qed

section \<open>A slot of an empty slab\<close>

lemma alloc_empty_step:
  assumes "slab_ok s H V L U" "i < 8" "kind_head s (i, Partial) = 0" "kind_head s (i, Empty) = h" "h \<noteq> 0"
    "alloc_empty i s = (f, t)"
  shows "h \<in> H" "v_cache (V h) = i" "v_free (V h) \<noteq> []" "f = hd (v_free (V h))"
    "slab_step (header_cells H) s t" "linked t H (V(h := taken (V h)))"
    "fld 0 (mem t) = fld 0 (mem s)" "fld 40 (mem t) = fld 40 (mem s)"
    "fld 8 (mem t) = (fld 8 (mem s))(h := fld 8 (mem s) h + 1)"
    "fld 32 (mem t) = (fld 32 (mem s))(h := head0 (tl (v_free (V h))))" "configured t"
proof -
  note k = slab_okD [OF assms(1)]
  note fm = linkedD [OF k(7)]
  have hm: "h \<in> members H V (i, Empty)" using family_head_in [OF fm, of "(i, Empty)"] assms(2,4,5) by simp
  then have kd: "kind_of (V h) = Empty" by (simp add: in_members)
  show h: "h \<in> H" "v_cache (V h) = i" using hm by (simp_all add: in_members)
  show fr: "v_free (V h) \<noteq> []" using kd by (auto simp: kind_of_def split: if_splits)
  have us: "v_used (V h) = {}" using kd by (auto simp: kind_of_def split: if_splits)
  obtain x xs where x: "v_free (V h) = x # xs" using fr by (cases "v_free (V h)") auto
  note ho = k(6) [OF h(1), unfolded header_ok_def]
  have al: "al 64 h" using header_al(1) [OF k(4) h(1)] .
  note slot = slab_slot(2) [OF k(4) h(1), of x, THEN al_16_8]
  let ?N = "fld sl_next (mem s)" and ?P = "fld sl_prev (mem s)"
  define s' where "s' = store (h + sl_prev) 0 (upd_cache i (\<lambda>c. c\<lparr>list_partial := h\<rparr>) (set_prev_if (?N h) 0
    (store (h + sl_next) 0 (upd_cache i (\<lambda>c. c\<lparr>list_empty := ?N h\<rparr>) (store (h + active_obj_count) 1 s)))))"
  have eq: "alloc_empty i s = (load s (h + free_slot), store (h + free_slot) (load s' (load s' (h + free_slot))) s')"
    using assms(3,4) al by (simp add: alloc_empty_def s'_def slab_simps)
  have next_H: "?N h \<noteq> 0 \<Longrightarrow> al 64 (?N h) \<and> ?N h \<in> H"
    using family_next(1) [OF fm _ hm] assms(2) header_al(1) [OF k(4)] by (auto simp: in_members)
  have st': "slab_step (header_cells H) s s'" unfolding s'_def
    by (intro step_field step_prev step_cache slab_step_refl al h next_H fofs_fields)
  have x0: "blkno x \<notin> blkno ` H" using free_not_header [OF k(4) h(1), of x] x by auto
  have ldx: "load s' x = head0 xs"
    using slab_step_ld64 [OF st' slot, of] x ho x0 by (simp add: load_def header_cells_iff)
  have c0: "fld 8 (mem s) h = 0" using ho us by simp
  have fl': "fld d (mem s') = (if d = 8 then (fld 8 (mem s))(h := 1) else fld d (mem s))"
    if "fofs d" "d \<noteq> 16" "d \<noteq> 24" for d
    using al that next_H by (auto simp: s'_def set_prev_if_def fld_st64)
  have l0: "load s' (h + 32) = x" using fl' [of 32] al ho x by (simp add: fld_load)
  have l1: "load s (h + 32) = x" using al ho x by (simp add: fld_load)
  have t: "f = x" "t = store (h + 32) (head0 xs) s'" using assms(6) eq l0 l1 ldx by simp_all
  show "f = hd (v_free (V h))" using t(1) x by simp
  show "slab_step (header_cells H) s t" unfolding t(2) by (intro step_field st' al h) simp
  have flt: "fld d (mem t) = (if d = 32 then (fld 32 (mem s'))(h := head0 xs) else fld d (mem s'))" if "fofs d" for d
    using al that by (simp add: t(2) fld_st64)
  show "fld 0 (mem t) = fld 0 (mem s)" "fld 40 (mem t) = fld 40 (mem s)"
    "fld 8 (mem t) = (fld 8 (mem s))(h := fld 8 (mem s) h + 1)"
    "fld 32 (mem t) = (fld 32 (mem s))(h := head0 (tl (v_free (V h))))"
    using x c0 by (simp_all add: flt fl')
  show "configured t"
  proof (rule configured_same [OF _ k(5)])
    fix j show "aligned_size (caches t j) = aligned_size (caches s j) \<and> cache_flag (caches t j) = cache_flag (caches s j)"
      by (simp add: t(2) s'_def set_prev_if_def)
  qed
  have kt: "kind_of (taken (V h)) = Partial"
    using taken_ok(3) [OF k(4) h(1) fr] slot_count_bounds [OF assms(2)] us h(2) by simp
  have p0: "?P h = 0" using family_next(3) [OF fm _ hm] assms(2,4) by simp
  note rm = family_remove [OF fm _ hm, unfolded p0, simplified]
  show "linked t H (V(h := taken (V h)))"
  proof (rule linked_push [where y = h and i = i and c = Partial])
    show "family (\<lambda>(i, c). i < 8) ?N (if ?N h \<noteq> 0 then ?P(?N h := 0) else ?P) ((kind_head s)((i, Empty) := ?N h))
      ((members H V)((i, Empty) := members H V (i, Empty) - {h}))"
      using rm assms(2) by simp
    show "i < 8" "h \<noteq> 0" by fact+
    show "h \<notin> ((members H V)((i, Empty) := members H V (i, Empty) - {h})) j" for j
      using kd h(2) by (cases j) (auto simp: in_members)
    show "fld sl_next (mem t) = ?N(h := ((kind_head s)((i, Empty) := ?N h)) (i, Partial))"
      using al next_H assms(3) by (auto simp: flt s'_def set_prev_if_def fld_st64)
    show "kind_head t = ((kind_head s)((i, Empty) := ?N h))((i, Partial) := h)"
      by (simp add: t(2) s'_def set_prev_if_def)
    show "members H (V(h := taken (V h))) = ((members H V)((i, Empty) := members H V (i, Empty) - {h}))
      ((i, Partial) := insert h (((members H V)((i, Empty) := members H V (i, Empty) - {h})) (i, Partial)))"
      using members_move [OF h(1), of "taken (V h)" i V] kd kt h(2) by simp
    show "fld sl_prev (mem t) = (if ((kind_head s)((i, Empty) := ?N h)) (i, Partial) \<noteq> 0
      then (if ?N h \<noteq> 0 then ?P(?N h := 0) else ?P) (((kind_head s)((i, Empty) := ?N h)) (i, Partial) := h)
      else (if ?N h \<noteq> 0 then ?P(?N h := 0) else ?P)) (h := 0)"
      using al next_H assms(3) by (auto simp: flt s'_def set_prev_if_def fld_st64)
  qed
qed

text \<open>In both cases the invariant holds with one more slot in use.\<close>

lemma slab_ok_taken:
  assumes "slab_ok s H V L U" "h \<in> H" "v_free (V h) \<noteq> []"
    "slab_step (header_cells H) s t" "linked t H (V(h := taken (V h)))"
    "fld 0 (mem t) = fld 0 (mem s)" "fld 40 (mem t) = fld 40 (mem s)"
    "fld 8 (mem t) = (fld 8 (mem s))(h := fld 8 (mem s) h + 1)"
    "fld 32 (mem t) = (fld 32 (mem s))(h := head0 (tl (v_free (V h))))" "configured t"
  shows "slab_ok t H (V(h := taken (V h))) L U"
proof -
  note k = slab_okD [OF assms(1)]
  note e = slab_step_fields [OF assms(4)]
  note ho = k(6) [OF assms(2), unfolded header_ok_def]
  obtain x xs where x: "v_free (V h) = x # xs" using assms(3) by (cases "v_free (V h)") auto
  have out: "cellno f \<notin> header_cells H" if "g \<in> H" "f \<in> set (v_free (V g))" for f g
    using free_not_header [OF k(4) that] by (auto simp: header_cells_iff)
  have "chain (mem t) xs = chain (mem s) xs"
  proof (rule chain_cong)
    fix f assume f: "f \<in> set xs"
    show "ld64 (mem t) f = ld64 (mem s) f"
      using slab_step_ld64 [OF assms(4) al_16_8] slab_slot(2) [OF k(4) assms(2), of f] out [OF assms(2), of f] f x by simp
  qed
  then have hh: "header_ok (caches_addr s) (mem t) h (taken (V h))"
    using ho assms(6-9) taken_ok(2) [OF k(4) assms(2,3)] x by (simp add: header_ok_def)
  have all: "header_ok (caches_addr s) (mem t) g ((V(h := taken (V h))) g)" if "g \<in> H" for g
    by (rule headers_step [OF k(4) assms(4) k(6) _ _ hh that]) (use assms(6-9) out in auto)
  have "(\<lambda>g. v_page ((V(h := taken (V h))) g)) = (\<lambda>g. v_page (V g))" by (simp add: fun_eq_iff)
  then have "(\<lambda>g. v_page ((V(h := taken (V h))) g)) ` H \<subseteq> {page_addr s i | i. (i, 0) \<in> L}" using k(3) by (simp only:)
  then show ?thesis unfolding slab_ok_def e using k(1,2) taken_ok(1) [OF k(4) assms(2,3)] assms(5,10) all by blast
qed

end
