(* ===== verification/SlabNew.thy ===== *)
theory SlabNew
  imports SlabAlloc
begin

text \<open>
  A new slab: a page whose slots are linked into a chain and a header in front of the partial slabs of its
  cache. Then \<open>kvmem_cache_alloc\<close> as a whole.
\<close>

section \<open>Linking the slots of a page\<close>

lemma cellno_inj: "al 8 a \<Longrightarrow> al 8 b \<Longrightarrow> cellno a = cellno b \<Longrightarrow> a = b"
  by (auto simp: cellno_def al_def word_unat_eq_iff elim!: dvdE)

lemma slot_Suc: "slot i p k + of_nat (slot_size i) = slot i p (Suc k)"
  by (simp add: slot_def algebra_simps)

lemma slot_cell_inj:
  assumes "i < 8" "page_base p" "k < slot_count i" "j < slot_count i" "cellno (slot i p k) = cellno (slot i p j)"
  shows "k = j"
  by (rule slot_inj [OF assms(1-4)])
    (intro cellno_inj assms(5) al_16_8 slot_place(2) assms(1-4))

lemma link_slots_ok:
  assumes "i < 8" "page_base p" "k + n + 1 = slot_count i"
  shows "chain (mem (link_slots n (slot i p k) (of_nat (slot_size i)) s)) (map (slot i p) [k..<slot_count i]) \<and>
    slab_step (cellno ` slot i p ` {k..<slot_count i}) s (link_slots n (slot i p k) (of_nat (slot_size i)) s) \<and>
    caches (link_slots n (slot i p k) (of_nat (slot_size i)) s) = caches s"
  using assms(3)
proof (induction n arbitrary: k s)
  case 0
  then have k: "slot_count i = Suc k" by simp
  have "al 8 (slot i p k)" using slot_place(2) [of i k p] assms(1,2) k al_16_8 by simp
  then have "slab_step {cellno (slot i p k)} s (store (slot i p k) 0 s)" by (intro slab_step_cell) auto
  then show ?case by (simp add: k upt_rec)
next
  case (Suc n)
  let ?s = "store (slot i p k) (slot i p (Suc k)) s"
  let ?t = "link_slots n (slot i p (Suc k)) (of_nat (slot_size i)) ?s"
  let ?C = "cellno ` slot i p ` {Suc k..<slot_count i}"
  have k: "Suc k < slot_count i" using Suc.prems by simp
  have a: "al 8 (slot i p k)" using slot_place(2) [of i k p] assms(1,2) k al_16_8 by simp
  note IH = Suc.IH [of "Suc k" ?s]
  have c: "chain (mem ?t) (map (slot i p) [Suc k..<slot_count i])" "slab_step ?C ?s ?t" "caches ?t = caches s"
    using IH Suc.prems by simp_all
  have "cellno (slot i p k) \<notin> ?C"
  proof
    assume "cellno (slot i p k) \<in> ?C"
    then obtain j where "Suc k \<le> j" "j < slot_count i" "cellno (slot i p k) = cellno (slot i p j)" by auto
    then show False using slot_cell_inj [OF assms(1,2), of k j] k by simp
  qed
  then have "ld64 (mem ?t) (slot i p k) = slot i p (Suc k)"
    using slab_step_ld64 [OF c(2) a] by (simp add: store_def)
  moreover have "map (slot i p) [k..<slot_count i] = slot i p k # map (slot i p) [Suc k..<slot_count i]"
    "map (slot i p) [Suc k..<slot_count i] = slot i p (Suc k) # map (slot i p) [Suc (Suc k)..<slot_count i]"
    using k by (simp_all add: upt_conv_Cons)
  moreover have "slab_step (cellno ` slot i p ` {k..<slot_count i}) s ?t"
  proof (rule slab_step_mono)
    show "slab_step ({cellno (slot i p k)} \<union> ?C) s ?t"
      by (rule slab_step_trans [OF slab_step_cell c(2)]) (use a in auto)
    show "{cellno (slot i p k)} \<union> ?C \<subseteq> cellno ` slot i p ` {k..<slot_count i}" using k by auto
  qed
  ultimately show ?case using c by (simp add: slot_Suc)
qed

section \<open>Where new headers and slots may be\<close>

lemma header_page:
  assumes "geometry H V" "h \<in> H"
  shows "\<exists>g\<in>H. pageno h = pageno (v_page (V g))"
proof (cases "v_cache (V h) < 6")
  case True
  then show ?thesis using geometryD(7) [OF assms] assms(2) by metis
next
  case False
  then obtain g where g: "g \<in> H" "h \<in> v_used (V g)" using geometryD(8) [OF assms] by blast
  then show ?thesis using slab_slot(1) [OF assms(1) g(1)] by blast
qed

text \<open>A used slot of cache 2 shares its 64 bytes with no free slot.\<close>

lemma free_not_used2:
  assumes "geometry H V" "k \<in> H" "v_cache (V k) = 2" "h \<in> v_used (V k)" "g \<in> H" "f \<in> set (v_free (V g))"
  shows "blkno f \<noteq> blkno h"
proof
  assume b: "blkno f = blkno h"
  have "pageno (v_page (V g)) = pageno (v_page (V k))"
    using slab_slot(1) [OF assms(1,5), of f] slab_slot(1) [OF assms(1,2), of h] assms(4,6) blkno_pageno [OF b] by simp
  then have e: "g = k" using same_slab [OF assms(1,5,2)] by simp
  have "f = h"
    using blkno_inj [OF _ _ b] slab_slot(4) [OF assms(1,2), of f] slab_slot(4) [OF assms(1,2), of h] assms(3,4,6) e by simp
  then show False using geometryD(5) [OF assms(1,2)] assms(4,6) e by auto
qed

text \<open>The place of a new header: the page itself, or an object of cache 2 that is no header yet.\<close>

definition new_header :: "u64 set \<Rightarrow> (u64 \<Rightarrow> slab_view) \<Rightarrow> nat \<Rightarrow> u64 \<Rightarrow> u64 \<Rightarrow> bool" where
  "new_header H V i p h \<longleftrightarrow> h \<notin> H \<and> (if i < 6 then h = p else \<exists>g\<in>H. v_cache (V g) = 2 \<and> h \<in> v_used (V g))"

text \<open>A page that is not the page of any slab.\<close>

definition new_page :: "u64 set \<Rightarrow> (u64 \<Rightarrow> slab_view) \<Rightarrow> u64 \<Rightarrow> bool" where
  "new_page H V p \<longleftrightarrow> page_base p \<and> p \<noteq> 0 \<and> p \<notin> (\<lambda>h. v_page (V h)) ` H"

lemma new_page_pageno: "geometry H V \<Longrightarrow> new_page H V p \<Longrightarrow> g \<in> H \<Longrightarrow> pageno (v_page (V g)) \<noteq> pageno p"
  using pageno_inj [of "v_page (V g)" p] geometryD(2) by (auto simp: new_page_def)

lemma new_header_place:
  assumes "geometry H V" "i < 8" "new_page H V p" "new_header H V i p h"
  shows "al 64 h" "h \<noteq> 0" "k < slot_count i \<Longrightarrow> blkno (slot i p k) \<noteq> blkno h"
    "g \<in> H \<Longrightarrow> f \<in> set (v_free (V g)) \<Longrightarrow> blkno f \<noteq> blkno h"
proof -
  have p: "page_base p" "p \<noteq> 0" using assms(3) by (simp_all add: new_page_def)
  have "al 64 h \<and> h \<noteq> 0 \<and> (k < slot_count i \<longrightarrow> blkno (slot i p k) \<noteq> blkno h) \<and>
    (g \<in> H \<longrightarrow> f \<in> set (v_free (V g)) \<longrightarrow> blkno f \<noteq> blkno h)"
  proof (cases "i < 6")
    case True
    then have h: "h = p" using assms(4) by (simp add: new_header_def)
    have "al 64 p" using p(1) by (auto simp: page_base_def al_def elim!: dvdE)
    moreover have "blkno f \<noteq> blkno p" if "g \<in> H" "f \<in> set (v_free (V g))"
      using slab_slot(1) [OF assms(1) that(1), of f] that new_page_pageno [OF assms(1,3) that(1)] blkno_pageno [of f p] by auto
    ultimately show ?thesis using h p slot_place(4) [OF assms(2) _ p(1)] True by auto
  next
    case False
    then obtain j where j: "j \<in> H" "v_cache (V j) = 2" "h \<in> v_used (V j)" using assms(4) by (auto simp: new_header_def)
    have "al 64 h" "h \<noteq> 0" using slab_slot(3,4) [OF assms(1) j(1), of h] j by simp_all
    moreover have "blkno (slot i p k) \<noteq> blkno h" if "k < slot_count i"
      using slot_place(1) [OF assms(2) that p(1)] slab_slot(1) [OF assms(1) j(1), of h] j(3)
        new_page_pageno [OF assms(1,3) j(1)] blkno_pageno [of "slot i p k" h] by auto
    ultimately show ?thesis using free_not_used2 [OF assms(1) j] by blast
  qed
  then show "al 64 h" "h \<noteq> 0" "k < slot_count i \<Longrightarrow> blkno (slot i p k) \<noteq> blkno h"
    "g \<in> H \<Longrightarrow> f \<in> set (v_free (V g)) \<Longrightarrow> blkno f \<noteq> blkno h" by simp_all
qed

section \<open>The new slab\<close>

definition new_view :: "nat \<Rightarrow> u64 \<Rightarrow> slab_view" where
  "new_view i p = \<lparr>v_cache = i, v_page = p, v_free = map (slot i p) [1..<slot_count i], v_used = {slot i p 0}\<rparr>"

lemma new_view_simps [simp]: "v_cache (new_view i p) = i" "v_page (new_view i p) = p"
  "v_free (new_view i p) = map (slot i p) [1..<slot_count i]" "v_used (new_view i p) = {slot i p 0}"
  by (simp_all add: new_view_def)

lemma slots_split: "i < 8 \<Longrightarrow> slots i p = slot i p 0 # map (slot i p) [1..<slot_count i]"
  using slot_count_bounds [of i] by (simp add: slots_def upt_rec)

lemma geometry_new:
  assumes "geometry H V" "i < 8" "new_page H V p" "new_header H V i p h"
  shows "geometry (insert h H) (V(h := new_view i p))"
proof -
  let ?V = "V(h := new_view i p)"
  have h: "h \<notin> H" using assms(4) by (simp add: new_header_def)
  have p: "page_base p" "p \<noteq> 0" "p \<notin> (\<lambda>h. v_page (V h)) ` H" using assms(3) by (simp_all add: new_page_def)
  have "slab_at (insert h H) ?V k" if k: "k \<in> H" for k
  proof -
    have "\<exists>g\<in>insert h H. v_cache (?V g) = 2 \<and> k \<in> v_used (?V g)" if large: "\<not> v_cache (V k) < 6"
    proof -
      obtain g where "g \<in> H" "v_cache (V g) = 2" "k \<in> v_used (V g)" using geometryD(8) [OF assms(1) k large] by blast
      then have "g \<in> insert h H" "v_cache (?V g) = 2 \<and> k \<in> v_used (?V g)" using h by auto
      then show ?thesis by blast
    qed
    moreover have "?V k = V k" using h k by auto
    ultimately show ?thesis unfolding slab_at_def using geometryD(1-7) [OF assms(1) k] by simp
  qed
  moreover have "slab_at (insert h H) ?V h"
  proof -
    have ex: "if i < 6 then h = p else \<exists>g\<in>insert h H. v_cache (?V g) = 2 \<and> h \<in> v_used (?V g)"
    proof (cases "i < 6")
      case False
      then obtain g where "g \<in> H" "v_cache (V g) = 2" "h \<in> v_used (V g)" using assms(4) by (auto simp: new_header_def)
      then have "g \<in> insert h H" "v_cache (?V g) = 2 \<and> h \<in> v_used (?V g)" using h by auto
      then have "\<exists>g\<in>insert h H. v_cache (?V g) = 2 \<and> h \<in> v_used (?V g)" by blast
      then show ?thesis using False by (simp only: if_False)
    qed (use assms(4) in \<open>simp add: new_header_def\<close>)
    have d: "distinct (slot i p 0 # map (slot i p) [1..<slot_count i])"
      using slots_distinct [OF assms(2) p(1)] slots_split [OF assms(2)] by simp
    have "distinct (map (slot i p) [1..<slot_count i])" "set (map (slot i p) [1..<slot_count i]) \<inter> {slot i p 0} = {}"
      "set (map (slot i p) [1..<slot_count i]) \<union> {slot i p 0} = set (slots i p)"
      using d slots_split [OF assms(2)] by auto
    then show ?thesis unfolding slab_at_def fun_upd_same new_view_simps
      using assms(2) p(1,2) ex by - (intro conjI; assumption)
  qed
  moreover have "inj_on (\<lambda>k. v_page (?V k)) (insert h H)"
    using assms(1) p(3) h unfolding geometry_def inj_on_def by auto
  ultimately show ?thesis using assms(1) by (simp add: geometry_def)
qed

text \<open>What both branches of \<open>kvmem_cache_alloc\<close> do with a new page \<open>p\<close> and a header \<open>h\<close>.\<close>

definition make_slab :: "nat \<Rightarrow> u64 \<Rightarrow> u64 \<Rightarrow> u64 \<Rightarrow> 'a slabs_scheme \<Rightarrow> 'a slabs_scheme" where
  "make_slab i h p caller s = upd_cache i (\<lambda>c. c\<lparr>list_partial := h\<rparr>) (fill_header h (slot i p 1) p caller
     (link_slots (slot_count i - 1) (slot i p 0) (of_nat (slot_size i)) (store (h + parent_cache) (cache_addr i s) s)))"

lemma fill_header_step:
  assumes "al 64 h"
  shows "slab_step (header_cells {h}) s (fill_header h free page caller s)"
  unfolding fill_header_def Let_def by (intro step_field slab_step_refl assms fofs_fields singletonI)

lemma fill_header_fld:
  assumes "al 64 h"
  shows "fofs d \<Longrightarrow> fld d (mem (fill_header h free page caller s)) = (let f = fld d (mem s) in
      if d = 32 then f(h := free) else if d = 8 then f(h := 1) else if d \<in> {16, 24} then f(h := 0)
      else if d \<in> {40, 56} then f(h := page) else if d = 48 then f(h := caller) else f)"
    "caches (fill_header h free page caller s) = caches s"
  using assms by (auto simp: fill_header_def Let_def fld_st64)

text \<open>The cells of a page's slots.\<close>

definition slot_cells :: "nat \<Rightarrow> u64 \<Rightarrow> nat set" where
  "slot_cells i p = cellno ` set (slots i p)"

lemma slot_cellsI: "k < slot_count i \<Longrightarrow> cellno (slot i p k) \<in> slot_cells i p"
  by (auto simp: slot_cells_def slots_def)

lemma slot_cells_eq: "cellno ` slot i p ` {0..<slot_count i} = slot_cells i p"
  by (simp add: slot_cells_def slots_def)

lemma pageno_cellno: "cellno a = cellno b \<Longrightarrow> pageno a = pageno b"
  by (rule blkno_pageno) (simp add: blkno_cellno)

lemma slot_cells_page: "i < 8 \<Longrightarrow> page_base p \<Longrightarrow> cellno a \<in> slot_cells i p \<Longrightarrow> pageno a = pageno p"
  unfolding slot_cells_def in_slots [of _ i p] image_iff Bex_def using pageno_cellno slot_place(1) by metis

lemma make_slab_step:
  assumes "i < 8" "page_base p" "al 64 h"
  shows "slab_step (header_cells {h} \<union> slot_cells i p) s (make_slab i h p caller s)"
proof -
  let ?s1 = "store (h + parent_cache) (cache_addr i s) s"
  let ?s2 = "link_slots (slot_count i - 1) (slot i p 0) (of_nat (slot_size i)) ?s1"
  have c: "0 + (slot_count i - 1) + 1 = slot_count i" using slot_count_bounds [OF assms(1)] by simp
  have 1: "slab_step (header_cells {h}) s ?s1" by (intro step_field slab_step_refl assms(3)) simp_all
  have 2: "slab_step (slot_cells i p) ?s1 ?s2"
    using link_slots_ok [OF assms(1,2) c, of ?s1] by (simp add: slot_cells_eq)
  have 3: "slab_step (header_cells {h}) ?s2 (make_slab i h p caller s)"
    unfolding make_slab_def by (rule step_cache [OF fill_header_step [OF assms(3)]])
  show ?thesis
    by (rule slab_step_mono [OF slab_step_trans [OF slab_step_trans [OF 1 2] 3]]) auto
qed

lemma make_slab_fields:
  assumes "i < 8" "page_base p" "al 64 h" "\<And>k. k < slot_count i \<Longrightarrow> blkno (slot i p k) \<noteq> blkno h"
    and t_def: "t = make_slab i h p caller s"
  shows "header_ok (caches_addr s) (mem t) h (new_view i p)"
    "al 64 g \<Longrightarrow> g \<noteq> h \<Longrightarrow> fofs d \<Longrightarrow> (\<And>k. k < slot_count i \<Longrightarrow> blkno (slot i p k) \<noteq> blkno g) \<Longrightarrow>
       fld d (mem t) g = fld d (mem s) g"
    "kind_head t = (kind_head s)((i, Partial) := h)" "fld 24 (mem t) h = 0" "fld 16 (mem t) h = 0"
    "configured s \<Longrightarrow> configured t"
proof -
  let ?s1 = "store (h + parent_cache) (cache_addr i s) s"
  let ?s2 = "link_slots (slot_count i - 1) (slot i p 0) (of_nat (slot_size i)) ?s1"
  let ?f = "fill_header h (slot i p 1) p caller"
  have c: "0 + (slot_count i - 1) + 1 = slot_count i" using slot_count_bounds [OF assms(1)] by simp
  note ln = link_slots_ok [OF assms(1,2) c, of ?s1]
  have t: "mem t = mem (?f ?s2)" "caches t = (caches s)(i := (caches s i)\<lparr>list_partial := h\<rparr>)"
    using ln by (simp_all add: t_def make_slab_def fill_header_fld(2) [OF assms(3)])
  have fl2: "fld d (mem ?s2) g = fld d (mem ?s1) g"
    if "fofs d" "\<And>k. k < slot_count i \<Longrightarrow> blkno (slot i p k) \<noteq> blkno g" for d g
  proof (cases "al 64 g")
    case True
    have "cellno (g + d) \<notin> cellno ` slot i p ` {0..<slot_count i}"
      using that(2) blkno_field [OF True that(1)] by (auto simp: blkno_cellno)
    then show ?thesis using slab_step_fld [OF _ that(1)] ln by blast
  qed (simp add: fld_def)
  have fl1: "fld d (mem ?s1) = (if d = 0 then (fld 0 (mem s))(h := cache_addr i s) else fld d (mem s))" if "fofs d" for d
    using fld_st64 [of h 0 d] assms(3) that by simp
  have flt: "fld d (mem t) = fld d (mem (?f ?s2))" for d by (simp add: t(1))
  have ch: "chain (mem t) (map (slot i p) [0..<slot_count i])"
  proof -
    have "ld64 (mem t) f = ld64 (mem ?s2) f" if f: "f \<in> set (map (slot i p) [0..<slot_count i])" for f
    proof -
      obtain k where k: "k < slot_count i" "f = slot i p k" using f by auto
      have "cellno f \<notin> header_cells {h}" using assms(4) [OF k(1)] k(2) by (simp add: header_cells_iff)
      then show ?thesis unfolding t(1)
        using slab_step_ld64 [OF fill_header_step [OF assms(3)]] al_16_8 [OF slot_place(2) [OF assms(1) k(1) assms(2)]] k(2)
        by simp
    qed
    then show ?thesis using chain_cong [of "map (slot i p) [0..<slot_count i]" "mem t" "mem ?s2"] ln by blast
  qed
  have n: "1 < slot_count i" using slot_count_bounds [OF assms(1)] by simp
  then have "chain (mem t) (map (slot i p) [1..<slot_count i])"
    using ch by (simp add: upt_rec [of 0])
  moreover have "head0 (map (slot i p) [1..<slot_count i]) = slot i p 1"
    using n by (simp add: upt_conv_Cons)
  moreover have "fld 0 (mem t) h = caches_addr s + 80 * of_nat i"
    using fl2 [of 0 h] assms(4) fl1 [of 0] by (simp add: flt fill_header_fld [OF assms(3)] cache_addr_def)
  ultimately show "header_ok (caches_addr s) (mem t) h (new_view i p)"
    by (simp add: header_ok_def flt fill_header_fld [OF assms(3)])
  show "fld d (mem t) g = fld d (mem s) g"
    if "al 64 g" "g \<noteq> h" "fofs d" "\<And>k. k < slot_count i \<Longrightarrow> blkno (slot i p k) \<noteq> blkno g"
    using fl2 [OF that(3,4)] fl1 [OF that(3)] that(2) by (auto simp: flt fill_header_fld(1) [OF assms(3) that(3)] Let_def)
  show "kind_head t = (kind_head s)((i, Partial) := h)"
    by (auto simp: kind_head_def t(2) fun_eq_iff split: slab_kind.splits)
  show "fld 24 (mem t) h = 0" "fld 16 (mem t) h = 0" by (simp_all add: flt fill_header_fld [OF assms(3)])
  show "configured t" if "configured s"
    by (rule configured_same [OF _ that]) (simp add: t(2))
qed

text \<open>The invariant with the new slab.\<close>

lemma new_slab_ok:
  assumes "slab_ok s H V L U" "i < 8" "new_page H V p" "new_header H V i p h"
    "p \<in> {page_addr s j | j. (j, 0) \<in> L}" "kind_head s (i, Partial) = 0"
  shows "slab_ok (make_slab i h p caller s) (insert h H) (V(h := new_view i p)) L U"
proof -
  let ?t = "make_slab i h p caller s" and ?V = "V(h := new_view i p)"
  note k = slab_okD [OF assms(1)]
  have pb: "page_base p" using assms(3) by (simp add: new_page_def)
  have hn: "h \<notin> H" using assms(4) by (simp add: new_header_def)
  note pl = new_header_place [OF k(4) assms(2-4)]
  note st = make_slab_step [OF assms(2) pb pl(1), of s caller]
  note e = slab_step_fields [OF st]
  have pl3: "blkno (slot i p j) \<noteq> blkno h" if "j < slot_count i" for j using that by (rule pl(3))
  note mf = make_slab_fields [OF assms(2) pb pl(1) pl3 refl, where s = s and caller = caller]
  have far: "blkno (slot i p j) \<noteq> blkno g" if gH: "g \<in> H" and jc: "j < slot_count i" for g j
  proof
    assume b: "blkno (slot i p j) = blkno g"
    obtain q where "q \<in> H" "pageno g = pageno (v_page (V q))" using header_page [OF k(4) gH] by blast
    then show False
      using new_page_pageno [OF k(4) assms(3)] slot_place(1) [OF assms(2) jc pb] blkno_pageno [OF b] by metis
  qed
  have gh: "al 64 g \<and> g \<noteq> h" if "g \<in> H" for g using header_al(1) [OF k(4) that] hn that by auto
  have same: "fld d (mem ?t) g = fld d (mem s) g" if "g \<in> H" "fofs d" for d g
    using mf(2) [where g = g and d = d] gh [OF that(1)] that far [OF that(1)] by simp
  have chain: "chain (mem ?t) (v_free (V g)) = chain (mem s) (v_free (V g))" if g: "g \<in> H" for g
  proof (rule chain_cong)
    fix f assume f: "f \<in> set (v_free (V g))"
    have "cellno f \<notin> header_cells {h}" using pl(4) [OF g f] by (simp add: header_cells_iff)
    moreover have "cellno f \<notin> slot_cells i p"
      using slot_cells_page [OF assms(2) pb] slab_slot(1) [OF k(4) g, of f] f new_page_pageno [OF k(4) assms(3) g] by auto
    ultimately show "ld64 (mem ?t) f = ld64 (mem s) f"
      using slab_step_ld64 [OF st] slab_slot(2) [OF k(4) g, of f] f al_16_8 by simp
  qed
  have all: "header_ok (caches_addr s) (mem ?t) g (?V g)" if "g \<in> insert h H" for g
    using that mf(1) k(6) [of g] same [of g] chain [of g] gh by (auto simp: header_ok_def)
  have kd: "kind_of (new_view i p) = Partial"
    using slot_count_bounds [OF assms(2)] by (simp add: kind_of_def)
  note fm = linkedD [OF k(7)]
  let ?N = "fld sl_next (mem s)" and ?P = "fld sl_prev (mem s)"
  have f2: "family (\<lambda>(i, c). i < 8) (?N(h := 0)) (?P(h := 0)) ((kind_head s)((i, Partial) := h))
    ((members H V)((i, Partial) := insert h (members H V (i, Partial))))"
    using family_push [OF fm, of "(i, Partial)" h] assms(2,6) pl(2) hn by (auto simp: members_def split: prod.splits)
  have mb: "members (insert h H) ?V = (members H V)((i, Partial) := insert h (members H V (i, Partial)))"
    using members_new [OF hn, of "new_view i p" i V] kd by simp
  have lk: "linked ?t (insert h H) ?V" unfolding linked_def
  proof (rule family_cong [OF f2])
    show "kind_head ?t k = ((kind_head s)((i, Partial) := h)) k" for k by (simp only: mf(3))
    show "members (insert h H) ?V k = ((members H V)((i, Partial) := insert h (members H V (i, Partial)))) k" for k
      by (simp only: mb)
    fix k x assume "x \<in> ((members H V)((i, Partial) := insert h (members H V (i, Partial)))) k"
    then have "x = h \<or> x \<in> H" by (cases k) (auto simp: members_def split: if_splits)
    then show "fld 24 (mem ?t) x = (?N(h := 0)) x \<and> fld 16 (mem ?t) x = (?P(h := 0)) x"
      using mf(4,5) same gh by auto
  qed
  have "(\<lambda>g. v_page (?V g)) ` insert h H \<subseteq> insert p ((\<lambda>g. v_page (V g)) ` H)" by auto
  then have "(\<lambda>g. v_page (?V g)) ` insert h H \<subseteq> {page_addr s j | j. (j, 0) \<in> L}" using k(3) assms(5) by blast
  moreover have "configured ?t" using mf(6) [OF _ k(5)] by simp
  ultimately show ?thesis unfolding slab_ok_def e
    using k(1,2) geometry_new [OF k(4) assms(2-4)] all lk by blast
qed

end
