(* ===== verification/SlabSpec.thy ===== *)
theory SlabSpec
  imports SlabNew
begin

text \<open>
  What the slab allocator promises: \<open>kvmalloc\<close> hands out objects that are disjoint from all others and leaves
  their bytes alone, \<open>kvmfree\<close> takes one back. \<open>in_use\<close> are the slots in use with their cache, \<open>objects\<close> those that are not
  the headers of large slabs.
\<close>

section \<open>Objects\<close>

definition in_use :: "u64 set \<Rightarrow> (u64 \<Rightarrow> slab_view) \<Rightarrow> (nat \<times> u64) set" where
  "in_use H V = {(i, f). \<exists>h\<in>H. v_cache (V h) = i \<and> f \<in> v_used (V h)}"

definition objects :: "u64 set \<Rightarrow> (u64 \<Rightarrow> slab_view) \<Rightarrow> (nat \<times> u64) set" where
  "objects H V = {(i, f). (i, f) \<in> in_use H V \<and> f \<notin> H}"

text \<open>The bytes of a slot.\<close>

definition inside :: "nat \<Rightarrow> u64 \<Rightarrow> u64 \<Rightarrow> bool" where
  "inside i f b \<longleftrightarrow> unat f \<le> unat b \<and> unat b < unat f + slot_size i"

text \<open>The bytes the allocator may write: those of headers and of free slots.\<close>

definition reserved :: "u64 set \<Rightarrow> (u64 \<Rightarrow> slab_view) \<Rightarrow> u64 \<Rightarrow> bool" where
  "reserved H V b \<longleftrightarrow> blkno b \<in> blkno ` H \<or> (\<exists>g\<in>H. \<exists>f\<in>set (v_free (V g)). inside (v_cache (V g)) f b)"

lemma inside_slot:
  assumes "i < 8" "page_base p" "k < slot_count i" "inside i (slot i p k) b"
  shows "pageno b = pageno p" "(unat b - unat p - slot_base i) div slot_size i = k" "i < 6 \<Longrightarrow> blkno b \<noteq> blkno p"
    "2 \<le> i \<Longrightarrow> i = 2 \<Longrightarrow> blkno b = blkno (slot i p k)"
proof -
  obtain x where x: "unat p = 4096 * x" using assms(2) by (auto simp: page_base_def elim!: dvdE)
  note u = unat_slot [OF assms(1,3,2)] and e = slot_end [OF assms(1,3)]
  define d where "d = unat b - unat (slot i p k)"
  have b: "unat b = 4096 * x + (slot_base i + slot_size i * k + d)" "d < slot_size i"
    using assms(4) u x unfolding inside_def d_def by linarith+
  have l: "slot_base i + slot_size i * k + d < 4096" using e b(2) by linarith
  show "pageno b = pageno p" unfolding pageno_def b(1) x using l by simp
  have "unat b - unat p - slot_base i = slot_size i * k + d" using b(1) x by simp
  then show "(unat b - unat p - slot_base i) div slot_size i = k" using b(2) by simp
  show "blkno b \<noteq> blkno p" if "i < 6"
  proof -
    have "unat b = 64 * (64 * x + 1) + (slot_size i * k + d)" using b(1) that by (simp add: slot_base_def)
    then have "unat b div 64 = 64 * x + 1 + (slot_size i * k + d) div 64" by simp
    then show ?thesis by (simp add: blkno_def x)
  qed
  show "blkno b = blkno (slot i p k)" if "i = 2"
  proof -
    have "unat (slot i p k) = 64 * (64 * x + 1 + k)" "unat b = 64 * (64 * x + 1 + k) + d" "d < 64"
      using b u x that by (simp_all add: slot_base_def slot_size_def)
    then show ?thesis by (simp add: blkno_def)
  qed
qed

text \<open>A byte is in at most one slot.\<close>

lemma inside_unique:
  assumes "geometry H V" "g \<in> H" "h \<in> H" "f \<in> set (v_free (V g)) \<union> v_used (V g)"
    "e \<in> set (v_free (V h)) \<union> v_used (V h)" "inside (v_cache (V g)) f b" "inside (v_cache (V h)) e b"
  shows "g = h \<and> f = e"
proof -
  note G = geometryD [OF assms(1,2)] and K = geometryD [OF assms(1,3)]
  obtain k where k: "k < slot_count (v_cache (V g))" "f = slot (v_cache (V g)) (v_page (V g)) k"
    using assms(4) unfolding G(6) in_slots by blast
  obtain j where j: "j < slot_count (v_cache (V h))" "e = slot (v_cache (V h)) (v_page (V h)) j"
    using assms(5) unfolding K(6) in_slots by blast
  note a = inside_slot [OF G(1,2) k(1) assms(6) [unfolded k(2)]] and c = inside_slot [OF K(1,2) j(1) assms(7) [unfolded j(2)]]
  have "g = h" using same_slab [OF assms(1-3)] a(1) c(1) by simp
  then show ?thesis using a(2) c(2) k(2) j(2) by simp
qed

text \<open>Objects are none of the allocator's bytes.\<close>

lemma object_not_reserved:
  assumes "geometry H V" "(i, f) \<in> objects H V" "inside i f b"
  shows "\<not> reserved H V b" "\<exists>g\<in>H. pageno b = pageno (v_page (V g))"
proof -
  obtain g where g: "g \<in> H" "v_cache (V g) = i" "f \<in> v_used (V g)" and nh: "f \<notin> H"
    using assms(2) by (auto simp: objects_def in_use_def)
  note G = geometryD [OF assms(1) g(1)]
  obtain k where k: "k < slot_count i" "f = slot i (v_page (V g)) k"
    using g(2,3) G(6) in_slots by blast
  note b = inside_slot [OF G(1,2) [unfolded g(2)] k(1) assms(3) [unfolded k(2)]]
  show "\<exists>g\<in>H. pageno b = pageno (v_page (V g))" using b(1) g(1) by blast
  have "blkno b \<noteq> blkno h" if hH: "h \<in> H" for h
  proof
    assume e: "blkno b = blkno h"
    show False
    proof (cases "v_cache (V h) < 6")
      case True
      have h: "h = v_page (V h)" using geometryD(7) [OF assms(1) hH True] .
      then have "g = h" using same_slab [OF assms(1) g(1) hH] b(1) blkno_pageno [OF e] by simp
      then show False using b(3) True e h g(2) by simp
    next
      case False
      then obtain q where q: "q \<in> H" "v_cache (V q) = 2" "h \<in> v_used (V q)"
        using geometryD(8) [OF assms(1) hH] by blast
      have "g = q" using same_slab [OF assms(1) g(1) q(1)] b(1) blkno_pageno [OF e] slab_slot(1) [OF assms(1) q(1), of h] q(3)
        by simp
      then have "blkno f = blkno h" "al 64 f" using b(4) q(2) e g(2,3) k(2) slab_slot(4) [OF assms(1) g(1), of f] by simp_all
      then show False using blkno_inj [OF _ header_al(1) [OF assms(1) hH]] nh hH by blast
    qed
  qed
  moreover have "\<not> inside (v_cache (V h)) e b" if "h \<in> H" "e \<in> set (v_free (V h))" for h e
    using inside_unique [OF assms(1) g(1) that(1), of f e b] g(2,3) that assms(3) geometryD(5) [OF assms(1) that(1)] by auto
  ultimately show "\<not> reserved H V b" by (auto simp: reserved_def)
qed

text \<open>Two objects share no byte.\<close>

lemma objects_disjoint:
  assumes "geometry H V" "(i, f) \<in> objects H V" "(j, e) \<in> objects H V" "inside i f b" "inside j e b"
  shows "(i, f) = (j, e)"
proof -
  obtain g h where "g \<in> H" "v_cache (V g) = i" "f \<in> v_used (V g)" "h \<in> H" "v_cache (V h) = j" "e \<in> v_used (V h)"
    using assms(2,3) by (auto simp: objects_def in_use_def)
  then show ?thesis using inside_unique [OF assms(1), of g h f e b] assms(4,5) by auto
qed

section \<open>The effect of an allocation\<close>

definition rest_same :: "'a slabs_scheme \<Rightarrow> 'a slabs_scheme \<Rightarrow> bool" where
  "rest_same s t \<longleftrightarrow> caches_addr t = caches_addr s \<and> kvmalloc_lock t = kvmalloc_lock s \<and> ram_base t = ram_base s \<and>
     ram_size t = ram_size s \<and> root_table t = root_table s \<and> satp t = satp s \<and> slabs.more t = slabs.more s"

lemma rest_same_trans: "rest_same s t \<Longrightarrow> rest_same t u \<Longrightarrow> rest_same s u"
  by (simp add: rest_same_def)

lemma rest_same_step: "slab_step C s t \<Longrightarrow> rest_same s t"
  by (simp add: rest_same_def slab_step_fields)

lemma rest_same_addr: "rest_same s t \<Longrightarrow> page_addr t = page_addr s"
  by (auto simp: rest_same_def page_addr_def)

text \<open>
  \<open>grows\<close>: the slot \<open>f\<close> of cache \<open>i\<close> is new among the objects, new slabs are in new pages, slabs of other
  caches than \<open>i\<close> and 2 stay as they are, and only reserved bytes and new pages were written.
\<close>

definition grows ::
  "'a slabs_scheme \<Rightarrow> u64 set \<Rightarrow> (u64 \<Rightarrow> slab_view) \<Rightarrow> (u64 \<times> nat) set \<Rightarrow> nat \<Rightarrow> u64 \<Rightarrow>
   'a slabs_scheme \<Rightarrow> u64 set \<Rightarrow> (u64 \<Rightarrow> slab_view) \<Rightarrow> (u64 \<times> nat) set \<Rightarrow> bool" where
  "grows s H V L i f t H' V' L' \<longleftrightarrow> L \<subseteq> L' \<and> H \<subseteq> H' \<and> rest_same s t \<and>
     objects H' V' = insert (i, f) (objects H V) \<and> (i, f) \<notin> objects H V \<and>
     (\<forall>h\<in>H. v_cache (V' h) = v_cache (V h) \<and> v_page (V' h) = v_page (V h)) \<and>
     (\<forall>h\<in>H' - H. v_page (V' h) \<in> {page_addr s j | j. (j, 0) \<in> L' - L}) \<and>
     (\<forall>h\<in>H'. v_cache (V' h) \<noteq> i \<longrightarrow> v_cache (V' h) \<noteq> 2 \<longrightarrow> h \<in> H \<and> V' h = V h) \<and>
     ((\<exists>g\<in>H. v_cache (V g) = i \<and> f \<in> set (v_free (V g))) \<or> (\<exists>g\<in>H' - H. pageno f = pageno (v_page (V' g)))) \<and>
     (\<forall>b. \<not> reserved H V b \<longrightarrow> (\<forall>g\<in>H' - H. pageno b \<noteq> pageno (v_page (V' g))) \<longrightarrow> mem t b = mem s b)"

lemma growsD:
  assumes "grows s H V L i f t H' V' L'"
  shows "L \<subseteq> L'" "H \<subseteq> H'" "rest_same s t" "objects H' V' = insert (i, f) (objects H V)" "(i, f) \<notin> objects H V"
    "\<And>h. h \<in> H \<Longrightarrow> v_cache (V' h) = v_cache (V h) \<and> v_page (V' h) = v_page (V h)"
    "\<And>h. h \<in> H' - H \<Longrightarrow> v_page (V' h) \<in> {page_addr s j | j. (j, 0) \<in> L' - L}"
    "(\<exists>g\<in>H. v_cache (V g) = i \<and> f \<in> set (v_free (V g))) \<or> (\<exists>g\<in>H' - H. pageno f = pageno (v_page (V' g)))"
    "\<And>b. \<not> reserved H V b \<Longrightarrow> (\<And>g. g \<in> H' - H \<Longrightarrow> pageno b \<noteq> pageno (v_page (V' g))) \<Longrightarrow> mem t b = mem s b"
    "\<And>h. h \<in> H' \<Longrightarrow> v_cache (V' h) \<noteq> i \<Longrightarrow> v_cache (V' h) \<noteq> 2 \<Longrightarrow> h \<in> H \<and> V' h = V h"
  using assms unfolding grows_def by blast+

text \<open>A slot of a slab that is there.\<close>

lemma grows_taken:
  assumes "slab_ok s H V L U" "h \<in> H" "v_free (V h) \<noteq> []" "slab_step (header_cells H) s t"
  shows "grows s H V L (v_cache (V h)) (hd (v_free (V h))) t H (V(h := taken (V h))) L"
proof -
  note k = slab_okD [OF assms(1)]
  let ?f = "hd (v_free (V h))" and ?V = "V(h := taken (V h))"
  have f: "?f \<in> set (v_free (V h))" using assms(3) by simp
  have nh: "?f \<notin> H" using free_not_header [OF k(4) assms(2) f] by blast
  have iu: "in_use H ?V = insert (v_cache (V h), ?f) (in_use H V)" using assms(2) by (auto simp: in_use_def)
  have "(v_cache (V h), ?f) \<notin> in_use H V"
  proof
    assume "(v_cache (V h), ?f) \<in> in_use H V"
    then obtain g where g: "g \<in> H" "?f \<in> v_used (V g)" by (auto simp: in_use_def)
    then have "g = h" using slot_slab [OF k(4) g(1) assms(2)] f by blast
    then show False using geometryD(5) [OF k(4) assms(2)] f g(2) by blast
  qed
  then have new: "(v_cache (V h), ?f) \<notin> objects H V" by (simp add: objects_def)
  have obj: "objects H ?V = insert (v_cache (V h), ?f) (objects H V)" using nh by (auto simp: objects_def iu)
  have "mem t b = mem s b" if "\<not> reserved H V b" for b
  proof -
    have "cellno b \<notin> header_cells H" using that by (simp add: reserved_def header_cells_iff)
    then show ?thesis using assms(4) by (simp add: slab_step_def)
  qed
  moreover have "\<forall>g\<in>H. v_cache (?V g) = v_cache (V g) \<and> v_page (?V g) = v_page (V g)" by simp
  moreover have "\<exists>g\<in>H. v_cache (V g) = v_cache (V h) \<and> ?f \<in> set (v_free (V g))" using assms(2) f by blast
  ultimately show ?thesis unfolding grows_def using rest_same_step [OF assms(4)] obj new by simp
qed

text \<open>A page from the page allocator.\<close>

lemma same_ram_slabs:
  assumes "same_ram s t"
  shows "mem t = mem s" "caches t = caches s" "rest_same s t"
  using assms by (cases s; cases t; simp add: same_ram_def rest_same_def)+

lemma slab_ok_kalloc:
  assumes "slab_ok s H V L U" "heap_ok t (insert (j, k) L) U" "same_ram s t"
  shows "slab_ok t H V (insert (j, k) L) U"
proof -
  note sk = slab_okD [OF assms(1)] and e = same_ram_slabs [OF assms(3)]
  have "ram_base t = ram_base s" "caches_addr t = caches_addr s" using e(3) by (simp_all add: rest_same_def)
  moreover have "configured t" using sk(5) by (simp add: configured_def e(2))
  moreover have "kind_head t = kind_head s"
    by (rule ext) (simp add: kind_head_def e(2) split: prod.splits)
  then have "linked t H V" using sk(7) by (simp add: linked_def e(1))
  moreover have "(\<lambda>h. v_page (V h)) ` H \<subseteq> {page_addr t i | i. (i, 0) \<in> insert (j, k) L}"
    using sk(3) unfolding rest_same_addr [OF e(3)] by blast
  ultimately show ?thesis unfolding slab_ok_def e using assms(2) sk(2,4,6) by auto
qed

lemma slab_kalloc:
  assumes "slab_ok s H V L U"
  shows "kalloc 0 ca s = Panic 101 0 \<or> (\<exists>j t. kalloc 0 ca s = Ret (page_addr s j, t) \<and> (j, 0) \<notin> L \<and>
    slab_ok t H V (insert (j, 0) L) U \<and> new_page H V (page_addr s j) \<and> mem t = mem s \<and> caches t = caches s \<and> rest_same s t)"
proof -
  note k = slab_okD [OF assms]
  from kalloc_heap_ok [OF k(1), of 0 ca] consider "kalloc 0 ca s = Panic 101 0"
    | j t where "kalloc 0 ca s = Ret (page_addr s j, t)" "(j, 0) \<notin> L" "heap_ok t (insert (j, 0) L) U" "same_ram s t"
    by force
  then show ?thesis
  proof cases
    case (2 j t)
    have jt: "j < total_pages s"
      using heap_ok_live(1) [OF 2(3), of j 0] same_ram_total [OF 2(4)] by simp
    have r: "ram_ok s" using k(1) by (simp add: heap_ok_def)
    have "page_addr s j \<notin> (\<lambda>h. v_page (V h)) ` H"
    proof
      assume "page_addr s j \<in> (\<lambda>h. v_page (V h)) ` H"
      then obtain i where i: "page_addr s j = page_addr s i" "(i, 0) \<in> L" using k(3) by blast
      then show False using page_addr_inj [OF jt heap_ok_live(1) [OF k(1) i(2)] i(1)] 2(2) by simp
    qed
    then have "new_page H V (page_addr s j)"
      using page_addr_nonzero [OF r k(2) jt] page_addr_aligned [OF r, of j]
      by (simp add: new_page_def page_base_def and_FFF_0_iff)
    then show ?thesis using 2(1,2) slab_ok_kalloc [OF assms 2(3,4)] same_ram_slabs [OF 2(4)] by blast
  qed simp
qed

text \<open>The objects when a slab with one used slot is added.\<close>

lemma objects_new:
  assumes "h \<notin> H" "slot i p 0 \<notin> insert h H"
  shows "objects (insert h H) (V(h := new_view i p)) = insert (i, slot i p 0) {(c, f) \<in> objects H V. f \<noteq> h}"
proof -
  have "in_use (insert h H) (V(h := new_view i p)) = insert (i, slot i p 0) (in_use H V)"
    using assms(1) by (auto simp: in_use_def)
  then show ?thesis using assms(2) by (auto simp: objects_def)
qed

lemma new_slot:
  assumes "geometry H V" "i < 8" "new_page H V p" "new_header H V i p h"
  shows "slot i p 0 \<notin> insert h H" "(i, slot i p 0) \<notin> in_use H V" "pageno (slot i p 0) = pageno p"
proof -
  have c: "0 < slot_count i" "page_base p" using slot_count_bounds [OF assms(2)] assms(3) by (simp_all add: new_page_def)
  show pg: "pageno (slot i p 0) = pageno p" by (rule slot_place(1) [OF assms(2) c])
  have "slot i p 0 \<noteq> h" using new_header_place(3) [OF assms c(1)] by auto
  moreover have "slot i p 0 \<noteq> g" if gH: "g \<in> H" for g
  proof -
    obtain q where "q \<in> H" "pageno g = pageno (v_page (V q))" using header_page [OF assms(1) gH] by blast
    then show ?thesis using new_page_pageno [OF assms(1,3)] pg by metis
  qed
  ultimately show "slot i p 0 \<notin> insert h H" by auto
  show "(i, slot i p 0) \<notin> in_use H V"
  proof
    assume "(i, slot i p 0) \<in> in_use H V"
    then obtain g where g: "g \<in> H" "slot i p 0 \<in> v_used (V g)" by (auto simp: in_use_def)
    then show False using slab_slot(1) [OF assms(1) g(1)] new_page_pageno [OF assms(1,3) g(1)] pg by auto
  qed
qed

lemma grows_on_slab:
  assumes "slab_ok t H V (insert (j, 0) L) U" "i < 6" "new_page H V p" "p = page_addr s j" "(j, 0) \<notin> L"
    "mem t = mem s" "rest_same s t"
  shows "new_header H V i p p"
    "grows s H V L i (slot i p 0) (make_slab i p p caller t) (insert p H) (V(p := new_view i p)) (insert (j, 0) L)"
proof -
  note k = slab_okD [OF assms(1)]
  have i8: "i < 8" using assms(2) by simp
  have pb: "page_base p" using assms(3) by (simp add: new_page_def)
  have "p \<notin> H"
  proof
    assume "p \<in> H"
    then obtain q where "q \<in> H" "pageno p = pageno (v_page (V q))" using header_page [OF k(4)] by blast
    then show False using new_page_pageno [OF k(4) assms(3)] by metis
  qed
  then show nh: "new_header H V i p p" using assms(2) by (simp add: new_header_def)
  note ns = new_slot [OF k(4) i8 assms(3) nh]
  have "f \<noteq> p" if cf: "(c, f) \<in> objects H V" for c f
  proof -
    obtain g where "g \<in> H" "f \<in> v_used (V g)" using cf by (auto simp: objects_def in_use_def)
    then show ?thesis using slab_slot(1) [OF k(4), of g f] new_page_pageno [OF k(4) assms(3), of g] by auto
  qed
  then have "{(c, f) \<in> objects H V. f \<noteq> p} = objects H V" by auto
  then have obj: "objects (insert p H) (V(p := new_view i p)) = insert (i, slot i p 0) (objects H V)"
    using objects_new [OF \<open>p \<notin> H\<close> ns(1)] by simp
  have new: "(i, slot i p 0) \<notin> objects H V" using ns(2) by (simp add: objects_def)
  have st: "slab_step (header_cells {p} \<union> slot_cells i p) t (make_slab i p p caller t)"
    by (rule make_slab_step [OF i8 pb new_header_place(1) [OF k(4) i8 assms(3) nh]])
  have "mem (make_slab i p p caller t) b = mem s b" if "pageno b \<noteq> pageno p" for b
  proof -
    have "cellno b \<notin> header_cells {p} \<union> slot_cells i p"
      using that blkno_pageno [of b p] slot_cells_page [OF i8 pb, of b] by (auto simp: header_cells_iff)
    then show ?thesis using st assms(6) by (simp add: slab_step_def)
  qed
  then show "grows s H V L i (slot i p 0) (make_slab i p p caller t) (insert p H) (V(p := new_view i p)) (insert (j, 0) L)"
    unfolding grows_def using obj new \<open>p \<notin> H\<close> ns(3) rest_same_trans [OF assms(7) rest_same_step [OF st]] assms(4,5)
    by auto
qed

section \<open>Allocation from a cache\<close>

text \<open>The code's branches in terms of \<open>make_slab\<close>.\<close>

lemma new_slab_code:
  assumes "configured s" "i < 8"
  shows "ucast (aligned_size (caches s i)) = (of_nat (slot_size i) :: u64)"
    "i < 6 \<Longrightarrow> unat (on_slab_objs (caches s i) - 1) = slot_count i - 1 \<and> slot i p 0 = p + slab_size"
    "\<not> i < 6 \<Longrightarrow> unat (off_slab_objs (caches s i) - 1) = slot_count i - 1 \<and> slot i p 0 = p"
    "slot i p 0 + of_nat (slot_size i) = slot i p 1"
  using assms less_8 [OF assms(2)] slot_Suc [of i p 0]
  by (auto simp: configured_def on_slab_objs_def off_slab_objs_def slot_count_def slot_size_def slot_base_def slot_def)

lemma cache_alloc_there:
  assumes "slab_ok s H V L U" "i < 8" "kind_head s (i, Partial) \<noteq> 0 \<or> kind_head s (i, Empty) \<noteq> 0"
  shows "\<exists>f t V'. kvmem_cache_alloc (Suc n) ca i caller s = Ret (f, t) \<and> slab_ok t H V' L U \<and> grows s H V L i f t H V' L"
proof (cases "kind_head s (i, Partial) = 0")
  case False
  define h where "h = kind_head s (i, Partial)"
  obtain f t where r: "alloc_partial i s = (f, t)" by force
  note p = alloc_partial_step [OF assms(1,2) h_def [symmetric] _ r]
  have h: "h \<noteq> 0" using False by (simp add: h_def)
  have "slab_ok t H (V(h := taken (V h))) L U"
    by (rule slab_ok_taken [OF assms(1) p(1) p(3) p(5-11)]) (use h in simp_all)
  moreover have "grows s H V L i f t H (V(h := taken (V h))) L"
    using grows_taken [OF assms(1) p(1,3,5)] p(2,4) h by simp
  ultimately show ?thesis using False r by (auto simp: kind_head_fields)
next
  case True
  define h where "h = kind_head s (i, Empty)"
  obtain f t where r: "alloc_empty i s = (f, t)" by force
  note p = alloc_empty_step [OF assms(1,2) True h_def [symmetric] _ r]
  have h: "h \<noteq> 0" using True assms(3) by (simp add: h_def)
  have "slab_ok t H (V(h := taken (V h))) L U"
    by (rule slab_ok_taken [OF assms(1) p(1) p(3) p(5-11)]) (use h in simp_all)
  moreover have "grows s H V L i f t H (V(h := taken (V h))) L"
    using grows_taken [OF assms(1) p(1,3,5)] p(2,4) h by simp
  ultimately show ?thesis using True r h by (auto simp: kind_head_fields h_def)
qed

lemma cache_alloc_small:
  assumes "slab_ok s H V L U" "i < 6"
  shows "kvmem_cache_alloc (Suc n) ca i caller s = Panic 101 0 \<or>
    (\<exists>f t H' V' L'. kvmem_cache_alloc (Suc n) ca i caller s = Ret (f, t) \<and> slab_ok t H' V' L' U \<and> grows s H V L i f t H' V' L')"
proof (cases "kind_head s (i, Partial) = 0 \<and> kind_head s (i, Empty) = 0")
  case False
  then show ?thesis using cache_alloc_there [OF assms(1), of i n ca caller] assms(2) by fastforce
next
  case True
  note k = slab_okD [OF assms(1)]
  from slab_kalloc [OF assms(1), of ca] show ?thesis
  proof (elim disjE exE conjE)
    assume "kalloc 0 ca s = Panic 101 0"
    then show ?thesis using True by (simp add: kind_head_fields)
  next
    fix j t
    assume kt: "kalloc 0 ca s = Ret (page_addr s j, t)" "(j, 0) \<notin> L" "slab_ok t H V (insert (j, 0) L) U"
      "new_page H V (page_addr s j)" "mem t = mem s" "caches t = caches s" "rest_same s t"
    let ?p = "page_addr s j"
    have i8: "i < 8" using assms(2) by simp
    note g = grows_on_slab(1) [OF kt(3) assms(2) kt(4) refl kt(2,5,7)]
      grows_on_slab(2) [OF kt(3) assms(2) kt(4) refl kt(2,5,7), where caller = caller]
    have hd: "kind_head t (i, Partial) = 0" "kind_head t (i, Empty) = 0"
      using True by (simp_all add: kind_head_def kt(6))
    have "page_addr t = page_addr s" by (rule rest_same_addr [OF kt(7)])
    then have ok: "slab_ok (make_slab i ?p ?p caller t) (insert ?p H) (V(?p := new_view i ?p)) (insert (j, 0) L) U"
      by (intro new_slab_ok [OF kt(3) i8 kt(4) g(1) _ hd(1)]) auto
    have p0: "?p \<noteq> 0" using kt(4) by (simp add: new_page_def)
    have ct: "configured t" using slab_okD(5) [OF kt(3)] .
    have fl: "cache_flag (caches t i) = 0" using slots_per_slab(2) [OF ct i8] assms(2) by simp
    note c = new_slab_code(1) [OF ct i8] new_slab_code(2-4) [OF ct i8, where p = ?p]
    have cc: "caches (link_slots (slot_count i - 1) (slot i ?p 0) (of_nat (slot_size i)) (store ?p (cache_addr i t) t)) = caches t"
      using link_slots_ok [OF i8, of ?p 0 "slot_count i - 1" "store ?p (cache_addr i t) t"] slot_count_bounds [OF i8] kt(4)
      by (simp add: new_page_def)
    have "kvmem_cache_alloc (Suc n) ca i caller s = Ret (slot i ?p 0, make_slab i ?p ?p caller t)"
      using True hd kt(1) p0 fl c assms(2) cc by (simp add: kind_head_fields make_slab_def Let_def kt(6) [symmetric])
    then show ?thesis using ok g(2) by blast
  qed
qed

lemma blkno_inside: "al 64 h \<Longrightarrow> blkno b = blkno h \<Longrightarrow> inside 2 h b"
  by (auto simp: al_def blkno_def inside_def slot_size_def elim!: dvdE)

lemma inside_self: "inside i f f"
  using slot_size_pos [of i] by (simp add: inside_def)

text \<open>A slab of a large cache: its page comes first, then its header from cache 2.\<close>

lemma grows_off_slab:
  assumes "slab_ok s H V L U" "i < 8" "\<not> i < 6" "new_page H V p" "p = page_addr s j" "(j, 0) \<notin> L"
    "slab_ok t1 H V (insert (j, 0) L) U" "mem t1 = mem s" "rest_same s t1"
    "slab_ok t2 H' V' L' U" "grows t1 H V (insert (j, 0) L) 2 h t2 H' V' L'"
    "kind_head t1 (i, Partial) = 0"
  shows "slab_ok (make_slab i h p caller t2) (insert h H') (V'(h := new_view i p)) L' U"
    "grows s H V L i (slot i p 0) (make_slab i h p caller t2) (insert h H') (V'(h := new_view i p)) L'"
proof -
  note k1 = slab_okD [OF assms(7)] and k2 = slab_okD [OF assms(10)] and g = growsD [OF assms(11)]
  have pb: "page_base p" using assms(4) by (simp add: new_page_def)
  have addr: "page_addr t1 = page_addr s" "page_addr t2 = page_addr s"
    using rest_same_addr [OF assms(9)] rest_same_addr [OF g(3)] by simp_all
  have jL: "(j, 0) \<in> L'" using g(1) by auto
  have np: "new_page H' V' p"
  proof -
    have "p \<noteq> v_page (V' q)" if q: "q \<in> H'" for q
    proof (cases "q \<in> H")
      case True
      then show ?thesis using g(6) [OF True] assms(4) by (auto simp: new_page_def)
    next
      case False
      then obtain m where m: "v_page (V' q) = page_addr s m" "(m, 0) \<in> L'" "(m, 0) \<notin> insert (j, 0) L"
        using g(7) [of q] q addr by auto
      have "m < total_pages t2" "j < total_pages t2" using heap_ok_live(1) [OF k2(1)] m(2) jL by blast+
      then have "page_addr t2 j = page_addr t2 m \<longrightarrow> j = m" using page_addr_inj by blast
      then show ?thesis using m assms(5) addr by auto
    qed
    then show ?thesis using assms(4) by (auto simp: new_page_def)
  qed
  have ho: "(2, h) \<in> objects H' V'" using g(4) by simp
  then have nh: "new_header H' V' i p h" using assms(3) by (auto simp: new_header_def objects_def in_use_def)
  note pl = new_header_place [OF k2(4) assms(2) np nh]
  have "members H' V' (i, Partial) = {}"
  proof -
    have "members H V (i, Partial) = {}"
      using family_head [OF linkedD [OF k1(7)], of "(i, Partial)"] assms(2,12) by simp
    then show ?thesis using g(10) assms(3) by (fastforce simp: members_def)
  qed
  then have hd: "kind_head t2 (i, Partial) = 0"
    using family_head [OF linkedD [OF k2(7)], of "(i, Partial)"] assms(2) by simp
  show "slab_ok (make_slab i h p caller t2) (insert h H') (V'(h := new_view i p)) L' U"
    by (rule new_slab_ok [OF assms(10,2) np nh _ hd]) (use jL assms(5) addr in auto)
  have hn: "h \<notin> H'" using nh by (simp add: new_header_def)
  note ns = new_slot [OF k2(4) assms(2) np nh]
  have "f \<noteq> h" if "(c, f) \<in> objects H V" for c f
  proof
    assume "f = h"
    then have "(c, h) \<in> objects H' V'" "(c, h) \<in> objects H V" using that g(4) by auto
    then have "c = 2" using objects_disjoint [OF k2(4) _ ho inside_self inside_self] by auto
    then show False using g(5) \<open>(c, h) \<in> objects H V\<close> by simp
  qed
  then have "{(c, f) \<in> objects H' V'. f \<noteq> h} = objects H V" using g(4) by auto
  then have obj: "objects (insert h H') (V'(h := new_view i p)) = insert (i, slot i p 0) (objects H V)"
    using objects_new [OF hn ns(1)] by simp
  have new: "(i, slot i p 0) \<notin> objects H V" using ns(2) g(4) by (auto simp: objects_def)
  have st: "slab_step (header_cells {h} \<union> slot_cells i p) t2 (make_slab i h p caller t2)"
    by (rule make_slab_step [OF assms(2) pb pl(1)])
  have rs: "rest_same s (make_slab i h p caller t2)"
    by (rule rest_same_trans [OF rest_same_trans [OF assms(9) g(3)] rest_same_step [OF st]])
  have frame: "mem (make_slab i h p caller t2) b = mem s b"
    if b: "\<not> reserved H V b" and far: "\<And>q. q \<in> insert h H' - H \<Longrightarrow> pageno b \<noteq> pageno (v_page ((V'(h := new_view i p)) q))" for b
  proof -
    have hH: "h \<notin> H" using hn g(2) by auto
    have farp: "pageno b \<noteq> pageno p" using far [of h] hH by simp
    have farq: "pageno b \<noteq> pageno (v_page (V' q))" if "q \<in> H' - H" for q
      using far [of q] that hn by (auto split: if_splits)
    have "blkno b \<noteq> blkno h"
    proof
      assume e: "blkno b = blkno h"
      from g(8) show False
      proof (elim disjE bexE conjE)
        fix q assume "q \<in> H" "v_cache (V q) = 2" "h \<in> set (v_free (V q))"
        then show False using b blkno_inside [OF pl(1) e] by (auto simp: reserved_def)
      next
        fix q assume q: "q \<in> H' - H" "pageno h = pageno (v_page (V' q))"
        show False using farq [OF q(1)] q(2) blkno_pageno [OF e] by simp
      qed
    qed
    then have "cellno b \<notin> header_cells {h} \<union> slot_cells i p"
      using slot_cells_page [OF assms(2) pb, of b] farp by (auto simp: header_cells_iff)
    then have "mem (make_slab i h p caller t2) b = mem t2 b" using st by (simp add: slab_step_def)
    then show ?thesis using g(9) [OF b farq] assms(8) by simp
  qed
  have "L \<subseteq> L'" "H \<subseteq> insert h H'" using g(1,2) by auto
  moreover have "v_cache ((V'(h := new_view i p)) q) = v_cache (V q) \<and> v_page ((V'(h := new_view i p)) q) = v_page (V q)"
    if "q \<in> H" for q using g(2,6) hn that by auto
  moreover have "v_page ((V'(h := new_view i p)) q) \<in> {page_addr s m | m. (m, 0) \<in> L' - L}" if q: "q \<in> insert h H' - H" for q
    using g(7) [of q] q assms(5,6) jL addr by (cases "q = h") auto
  moreover have "q \<in> H \<and> (V'(h := new_view i p)) q = V q"
    if "q \<in> insert h H'" "v_cache ((V'(h := new_view i p)) q) \<noteq> i" "v_cache ((V'(h := new_view i p)) q) \<noteq> 2" for q
    using g(10) [of q] that by (cases "q = h") auto
  moreover have "\<exists>q\<in>insert h H' - H. pageno (slot i p 0) = pageno (v_page ((V'(h := new_view i p)) q))"
    using hn g(2) ns(3) by (intro bexI [of _ h]) auto
  ultimately show "grows s H V L i (slot i p 0) (make_slab i h p caller t2) (insert h H') (V'(h := new_view i p)) L'"
    unfolding grows_def using rs obj new frame by blast
qed

lemma cache_alloc_large:
  assumes "slab_ok s H V L U" "i < 8" "\<not> i < 6"
  shows "kvmem_cache_alloc (Suc (Suc n)) ca i caller s = Panic 101 0 \<or>
    (\<exists>f t H' V' L'. kvmem_cache_alloc (Suc (Suc n)) ca i caller s = Ret (f, t) \<and> slab_ok t H' V' L' U \<and> grows s H V L i f t H' V' L')"
proof (cases "kind_head s (i, Partial) = 0 \<and> kind_head s (i, Empty) = 0")
  case False
  then show ?thesis using cache_alloc_there [OF assms(1,2), of "Suc n" ca caller] by fastforce
next
  case True
  from slab_kalloc [OF assms(1), of ca] show ?thesis
  proof (elim disjE exE conjE)
    assume "kalloc 0 ca s = Panic 101 0"
    then show ?thesis using True by (simp add: kind_head_fields)
  next
    fix j t
    assume kt: "kalloc 0 ca s = Ret (page_addr s j, t)" "(j, 0) \<notin> L" "slab_ok t H V (insert (j, 0) L) U"
      "new_page H V (page_addr s j)" "mem t = mem s" "caches t = caches s" "rest_same s t"
    let ?p = "page_addr s j"
    have hd: "kind_head t (i, Partial) = 0" "kind_head t (i, Empty) = 0"
      using True by (simp_all add: kind_head_def kt(6))
    have p0: "?p \<noteq> 0" using kt(4) by (simp add: new_page_def)
    have ct: "configured t" using slab_okD(5) [OF kt(3)] .
    have fl: "cache_flag (caches t i) \<noteq> 0" using slots_per_slab(2) [OF ct assms(2)] assms(3) by simp
    note c = new_slab_code(1) [OF ct assms(2)] new_slab_code(2-4) [OF ct assms(2), where p = ?p]
    have run: "kvmem_cache_alloc (Suc (Suc n)) ca i caller s =
      bindO (kvmem_cache_alloc (Suc n) ca 2 caller t) (\<lambda>(header, s). if header = 0 then Panic 109 (cache_addr i s)
        else Ret (?p, upd_cache i (\<lambda>c. c\<lparr>list_partial := header\<rparr>) (fill_header header (slot i ?p 1) ?p caller
          (link_slots (slot_count i - 1) ?p (of_nat (slot_size i)) (store (header + 0) (cache_addr i s) s)))))"
      using True hd kt(1) p0 fl c assms(3)
      by (subst kvmem_cache_alloc.simps(2)) (simp add: kind_head_fields Let_def split_def kt(6) [symmetric] cong: if_cong del: kvmem_cache_alloc.simps)
    have two: "(2 :: nat) < 6" by simp
    from cache_alloc_small [OF kt(3) two, of n ca caller] show ?thesis
    proof (elim disjE exE conjE)
      assume "kvmem_cache_alloc (Suc n) ca 2 caller t = Panic 101 0"
      then show ?thesis unfolding run by simp
    next
      fix h t2 H' V' L'
      assume a: "kvmem_cache_alloc (Suc n) ca 2 caller t = Ret (h, t2)" "slab_ok t2 H' V' L' U"
        "grows t H V (insert (j, 0) L) 2 h t2 H' V' L'"
      note o = grows_off_slab [OF assms kt(4) refl kt(2,3,5,7) a(2,3) hd(1), where caller = caller]
      have "(2, h) \<in> objects H' V'" using growsD(4) [OF a(3)] by simp
      then obtain q where q: "q \<in> H'" "h \<in> v_used (V' q)" by (auto simp: objects_def in_use_def)
      then have "h \<noteq> 0" using slab_slot(3) [OF slab_okD(4) [OF a(2)] q(1), of h] by simp
      then have "kvmem_cache_alloc (Suc (Suc n)) ca i caller s = Ret (slot i ?p 0, make_slab i h ?p caller t2)"
        unfolding run a(1) using c assms(3) by (simp add: make_slab_def)
      then show ?thesis using o by blast
    qed
  qed
qed

lemma cache_alloc_ok:
  assumes "slab_ok s H V L U" "i < 8"
  shows "kvmem_cache_alloc 2 ca i caller s = Panic 101 0 \<or>
    (\<exists>f t H' V' L'. kvmem_cache_alloc 2 ca i caller s = Ret (f, t) \<and> slab_ok t H' V' L' U \<and> grows s H V L i f t H' V' L')"
  using cache_alloc_small [OF assms(1), of i "Suc 0" ca caller] cache_alloc_large [OF assms, of 0 ca caller]
  by (cases "i < 6") (simp_all add: numeral_2_eq_2)

text \<open>The class of a size is the first cache whose slots are large enough.\<close>

lemma size_class_ok:
  assumes "configured s" "0 < sz" "sz \<le> 2048"
  shows "\<exists>i<8. size_class 8 0 sz s = Ret i \<and> unat sz \<le> slot_size i \<and> (i = 0 \<or> slot_size (i - 1) < unat sz)"
proof -
  have a: "ucast (aligned_size (caches s i)) = (of_nat (slot_size i) :: u64)" if "i < 8" for i
    using new_slab_code(1) [OF assms(1) that] .
  have "unat sz \<le> 2048" using assms(3) by (simp add: word_le_nat_alt)
  have lt: "(of_nat (slot_size i) < sz) = (slot_size i < unat sz)" if "i < 8" for i
    using less_8 [OF that] by (auto simp: word_less_nat_alt slot_size_def)
  have step: "size_class (8 - i) i sz s = (if slot_size i < unat sz then size_class (8 - Suc i) (Suc i) sz s else Ret i)"
    if i: "i < 8" for i
  proof -
    obtain m where "8 - i = Suc m" "8 - Suc i = m" using i by (cases "8 - i") auto
    then show ?thesis using a [OF i] lt [OF i] by simp
  qed
  have search: "\<exists>k<8. size_class (8 - i) i sz s = Ret k \<and> unat sz \<le> slot_size k \<and> (k = 0 \<or> slot_size (k - 1) < unat sz)"
    if "i \<le> 7" "i = 0 \<or> slot_size (i - 1) < unat sz" for i
    using that
  proof (induction "7 - i" arbitrary: i)
    case 0
    then have "i = 7" by simp
    then have "\<not> slot_size i < unat sz" using \<open>unat sz \<le> 2048\<close> by (simp add: slot_size_def)
    then show ?case using step [of i] 0 \<open>i = 7\<close> by (intro exI [of _ i]) simp
  next
    case (Suc d)
    show ?case
    proof (cases "slot_size i < unat sz")
      case True
      then show ?thesis using step [of i] Suc.hyps(1) [of "Suc i"] Suc.hyps(2) by simp
    next
      case False
      then show ?thesis using step [of i] Suc.prems by (intro exI [of _ i]) simp
    qed
  qed
  show ?thesis using search [of 0] by simp
qed

section \<open>kvmalloc\<close>

lemma slab_ok_lock [simp]: "slab_ok (s\<lparr>kvmalloc_lock := l\<rparr>) H V L U = slab_ok s H V L U"
proof -
  have "heap_ok (s\<lparr>kvmalloc_lock := l\<rparr>) L U = heap_ok s L U"
    by (simp add: heap_ok_def buddy_inv_def lists_ok_def flags_ok_def blocks_ok_def ram_ok_def
        nxt_def prv_def flg_def ordr_def total_pages_def)
  moreover have "page_addr (s\<lparr>kvmalloc_lock := l\<rparr>) = page_addr s" by (rule ext) (simp add: page_addr_def)
  moreover have "kind_head (s\<lparr>kvmalloc_lock := l\<rparr>) = kind_head s"
    by (rule ext) (simp add: kind_head_def split: prod.splits)
  ultimately show ?thesis by (simp add: slab_ok_def configured_def linked_def)
qed

lemma inside_page:
  assumes "geometry H V" "g \<in> H" "f \<in> set (v_free (V g)) \<union> v_used (V g)" "inside (v_cache (V g)) f b"
  shows "pageno b = pageno (v_page (V g))"
proof -
  note G = geometryD [OF assms(1,2)]
  obtain k where k: "k < slot_count (v_cache (V g))" "f = slot (v_cache (V g)) (v_page (V g)) k"
    using assms(3) unfolding G(6) in_slots by blast
  show ?thesis by (rule inside_slot(1) [OF G(1,2) k(1) assms(4) [unfolded k(2)]])
qed

text \<open>Memory outside the slabs' pages is no memory of the allocator.\<close>

lemma reserved_page: "geometry H V \<Longrightarrow> reserved H V b \<Longrightarrow> \<exists>g\<in>H. pageno b = pageno (v_page (V g))"
proof -
  assume a: "geometry H V" "reserved H V b"
  from a(2) consider h where "h \<in> H" "blkno b = blkno h"
    | g f where "g \<in> H" "f \<in> set (v_free (V g))" "inside (v_cache (V g)) f b"
    by (auto simp: reserved_def)
  then show ?thesis
  proof cases
    case (1 h)
    then show ?thesis using header_page [OF a(1) 1(1)] blkno_pageno [OF 1(2)] by simp
  next
    case (2 g f)
    then show ?thesis using inside_page [OF a(1) 2(1) _ 2(3)] by auto
  qed
qed

text \<open>What \<open>grows\<close> means to the owners of objects and of other memory.\<close>

lemma grows_frame:
  assumes "slab_ok s H V L U" "slab_ok t H' V' L' U" "grows s H V L i f t H' V' L'"
  shows "(j, e) \<in> objects H V \<Longrightarrow> inside j e b \<Longrightarrow> \<not> inside i f b \<and> mem t b = mem s b"
    "\<forall>g\<in>H'. pageno b \<noteq> pageno (v_page (V' g)) \<Longrightarrow> mem t b = mem s b"
    "f \<noteq> 0" "al 16 f"
proof -
  note k = slab_okD [OF assms(1)] and k' = slab_okD [OF assms(2)] and g = growsD [OF assms(3)]
  have new: "(i, f) \<in> objects H' V'" using g(4) by simp
  then obtain q where q: "q \<in> H'" "f \<in> v_used (V' q)" by (auto simp: objects_def in_use_def)
  show "f \<noteq> 0" "al 16 f" using slab_slot(2,3) [OF k'(4) q(1), of f] q(2) by simp_all
  show "\<not> inside i f b \<and> mem t b = mem s b" if o: "(j, e) \<in> objects H V" "inside j e b"
  proof -
    have "(j, e) \<in> objects H' V'" using o(1) g(4) by simp
    then have "\<not> inside i f b" using objects_disjoint [OF k'(4) _ new o(2)] o(1) g(5) by auto
    moreover have "mem t b = mem s b"
    proof (rule g(9) [OF object_not_reserved(1) [OF k(4) o]])
      fix r assume r: "r \<in> H' - H"
      obtain m where m: "m \<in> H" "pageno b = pageno (v_page (V m))" using object_not_reserved(2) [OF k(4) o] by blast
      then show "pageno b \<noteq> pageno (v_page (V' r))"
        using same_slab [OF k'(4), of m r] r g(2) g(6) [OF m(1)] by auto
    qed
    ultimately show ?thesis by simp
  qed
  show "mem t b = mem s b" if "\<forall>g\<in>H'. pageno b \<noteq> pageno (v_page (V' g))"
  proof (rule g(9))
    show "\<not> reserved H V b"
    proof
      assume "reserved H V b"
      then obtain m where m: "m \<in> H" "pageno b = pageno (v_page (V m))" using reserved_page [OF k(4)] by blast
      then show False using \<open>\<forall>g\<in>H'. pageno b \<noteq> pageno (v_page (V' g))\<close> g(2) g(6) [OF m(1)] m
        by (metis subsetD)
    qed
    show "pageno b \<noteq> pageno (v_page (V' r))" if "r \<in> H' - H" for r
      using \<open>\<forall>g\<in>H'. pageno b \<noteq> pageno (v_page (V' g))\<close> that by blast
  qed
qed

lemma kvmalloc_small:
  assumes "0 < sz" "sz \<le> 2048" "kvmalloc_lock s = 0"
  shows "kvmalloc ca sz s = bindO (size_class 8 0 sz s) (\<lambda>i. bindO (kvmem_cache_alloc 2 ca i ca (s\<lparr>kvmalloc_lock := 1\<rparr>))
    (\<lambda>(slot, t). Ret (slot, t\<lparr>kvmalloc_lock := 0\<rparr>)))"
proof -
  have "size_class n i sz (s\<lparr>kvmalloc_lock := 1\<rparr>) = size_class n i sz s" for n i
    by (induction n arbitrary: i) simp_all
  moreover have "sz \<noteq> 0" using assms(1) by auto
  ultimately show ?thesis using assms(2,3)
    by (simp add: kvmalloc_def spinlock_acquire_def spinlock_release_def bindO_assoc)
qed

end
