(* ===== verification/SlabFree.thy ===== *)
theory SlabFree
  imports SlabSpec
begin

text \<open>
  Release against the invariant of the slab allocator: a slot goes back to the front of its slab's chain, and a
  slab that is no longer full, or that becomes empty, moves to the list of its new kind.
\<close>

section \<open>Moving a slab between lists\<close>

text \<open>\<open>unlink_slab\<close> and \<open>push_slab\<close> for any two lists of a cache.\<close>

lemma relink_ok:
  assumes "family (\<lambda>(i, c). i < 8) (fld sl_next (mem s)) (fld sl_prev (mem s)) (kind_head s) M"
    and "i < 8" "h \<in> M (i, c)" "c \<noteq> c'" "\<And>j x y. j < 8 \<Longrightarrow> x \<in> M (j, y) \<Longrightarrow> al 64 x \<and> x \<in> H"
    and "\<And>(s :: 'a slabs_scheme) v. kind_head (upd_cache i (set_c v) s) = (kind_head s)((i, c) := v)"
    and "\<And>(s :: 'a slabs_scheme) v. kind_head (upd_cache i (set_d v) s) = (kind_head s)((i, c') := v)"
    and "\<And>s :: 'a slabs_scheme. get_d (caches s i) = kind_head s (i, c')"
    and t_def: "t = push_slab h i get_d set_d (unlink_slab h i set_c (s :: 'a slabs_scheme))"
  shows "family (\<lambda>(i, c). i < 8) (fld sl_next (mem t)) (fld sl_prev (mem t)) (kind_head t)
      (M((i, c) := M (i, c) - {h}, (i, c') := insert h (M (i, c'))))"
    "fofs d \<Longrightarrow> d \<noteq> 16 \<Longrightarrow> d \<noteq> 24 \<Longrightarrow> fld d (mem t) = fld d (mem s)"
    "slab_step (header_cells H) s t"
proof -
  let ?K = "\<lambda>(i, c :: slab_kind). i < (8 :: nat)"
  define N P where "N = fld sl_next (mem s)" and "P = fld sl_prev (mem s)"
  note fm = assms(1) [folded N_def P_def]
  have K: "?K (i, c)" "?K (i, c')" using assms(2) by simp_all
  note nx = family_next [OF fm K(1) assms(3)]
  have h: "al 64 h" "h \<in> H" using assms(5) [OF assms(2,3)] by simp_all
  have nal: "N h \<noteq> 0 \<Longrightarrow> al 64 (N h) \<and> N h \<in> H \<and> N h \<noteq> h" using nx(1) assms(5) [OF assms(2)] by blast
  have pal: "P h \<noteq> 0 \<Longrightarrow> al 64 (P h) \<and> P h \<in> H \<and> P h \<noteq> h" using nx(2) assms(5) [OF assms(2)] by blast
  define u1 where "u1 = (if P h \<noteq> 0 then store (P h + sl_next) (N h) s else upd_cache i (set_c (N h)) s)"
  define u where "u = (if N h \<noteq> 0 then store (N h + sl_prev) (P h) u1 else u1)"
  have u1: "fld d (mem u1) = (if d = 24 \<and> P h \<noteq> 0 then N(P h := N h) else fld d (mem s))" if "fofs d" for d
    using that pal by (auto simp: u1_def fld_st64 N_def)
  have eq: "unlink_slab h i set_c s = u"
    using h(1) u1 [of 24] u1 [of 16] pal
    by (auto simp: unlink_slab_def Let_def fld_load N_def P_def u_def u1_def)
  have uf: "fld d (mem u) = (if d = 24 \<and> P h \<noteq> 0 then N(P h := N h) else
      if d = 16 \<and> N h \<noteq> 0 then P(N h := P h) else fld d (mem s))" if "fofs d" for d
    using that nal u1 [OF that] by (auto simp: u_def fld_st64 P_def)
  have uk: "kind_head u = (if P h = 0 then (kind_head s)((i, c) := N h) else kind_head s)"
    by (simp add: u_def u1_def assms(6))
  let ?M = "M((i, c) := M (i, c) - {h})"
  have n24: "fld 24 (mem u) = (if P h \<noteq> 0 then N(P h := N h) else N)"
    and n16: "fld 16 (mem u) = (if N h \<noteq> 0 then P(N h := P h) else P)"
    using uf [of 24] uf [of 16] by (simp_all add: N_def P_def)
  have fu: "family ?K (fld sl_next (mem u)) (fld sl_prev (mem u)) (kind_head u) ?M"
    using family_remove [OF fm K(1) assms(3)] by (simp only: n24 n16 uk)
  define x where "x = kind_head u (i, c')"
  have x: "x \<noteq> 0 \<Longrightarrow> al 64 x \<and> x \<in> H \<and> x \<noteq> h"
  proof -
    assume "x \<noteq> 0"
    then have xm: "x \<in> M (i, c')" using family_head_in [OF fu K(2)] assms(4) by (simp add: x_def)
    then show ?thesis using assms(5) [OF assms(2) xm] family_disjoint [OF fm K] assms(3,4) by auto
  qed
  define w where "w = store (h + sl_prev) 0 (store (h + sl_next) x u)"
  have wf: "fld d (mem w) = (if d = 16 then (fld 16 (mem u))(h := 0) else if d = 24 then (fld 24 (mem u))(h := x)
      else fld d (mem u))" if "fofs d" for d
    using that h(1) by (auto simp: w_def fld_st64)
  have t: "t = upd_cache i (set_d h) (if x \<noteq> 0 then store (x + sl_prev) h w else w)"
    using h(1) by (simp add: t_def eq push_slab_def Let_def fld_load assms(8) x_def [symmetric] w_def fld_st64)
  have tf: "fld d (mem t) = (if d = 16 then (if x \<noteq> 0 then (fld 16 (mem u))(h := 0, x := h) else (fld 16 (mem u))(h := 0))
      else if d = 24 then (fld 24 (mem u))(h := x) else fld d (mem u))" if "fofs d" for d
    using that x wf [OF that] by (auto simp: t fld_st64)
  have tk: "kind_head t = (kind_head u)((i, c') := h)" by (simp add: t assms(7) w_def)
  have hn: "h \<notin> ?M j" if "?K j" for j
    using family_disjoint [OF fm that K(1)] assms(3) by (cases "j = (i, c)") auto
  have "family ?K ((fld 24 (mem u))(h := x)) ((if x \<noteq> 0 then (fld 16 (mem u))(x := h) else fld 16 (mem u))(h := 0))
    ((kind_head u)((i, c') := h)) (?M((i, c') := insert h (?M (i, c'))))"
    unfolding x_def by (rule family_push [OF fu K(2) nx(4) hn])
  moreover have "?M (i, c') = M (i, c')" using assms(4) by simp
  moreover have "(if x \<noteq> 0 then (fld 16 (mem u))(x := h) else fld 16 (mem u))(h := 0) = fld 16 (mem t)"
    using tf [of 16] x by (auto simp: fun_upd_twist)
  ultimately show "family ?K (fld sl_next (mem t)) (fld sl_prev (mem t)) (kind_head t)
      (M((i, c) := M (i, c) - {h}, (i, c') := insert h (M (i, c'))))"
    using tf [of 24] by (simp add: tk)
  show "fld d (mem t) = fld d (mem s)" if "fofs d" "d \<noteq> 16" "d \<noteq> 24"
    using tf [OF that(1)] uf [OF that(1)] that by simp
  have s1: "slab_step (header_cells H) s u1"
  proof (cases "P h = 0")
    case False
    then show ?thesis using pal unfolding u1_def by (auto intro: step_field)
  qed (simp add: u1_def slab_step_cache)
  have s2: "slab_step (header_cells H) s u"
    using s1 nal unfolding u_def by (auto intro: step_field)
  have s3: "slab_step (header_cells H) s w" unfolding w_def by (intro step_field s2 h fofs_fields)
  show "slab_step (header_cells H) s t" unfolding t
    by (rule step_cache) (use s3 x in \<open>auto intro: step_field\<close>)
qed

section \<open>Giving a slot back\<close>

definition released :: "u64 \<Rightarrow> slab_view \<Rightarrow> slab_view" where
  "released f v = v\<lparr>v_free := f # v_free v, v_used := v_used v - {f}\<rparr>"

lemma released_simps [simp]: "v_cache (released f v) = v_cache v" "v_page (released f v) = v_page v"
  "v_free (released f v) = f # v_free v" "v_used (released f v) = v_used v - {f}"
  by (simp_all add: released_def)

lemma object_slab:
  assumes "(i, f) \<in> objects H V"
  obtains h where "h \<in> H" "v_cache (V h) = i" "f \<in> v_used (V h)" "f \<notin> H"
  using assms by (auto simp: objects_def in_use_def)

lemma released_ok:
  assumes "geometry H V" "h \<in> H" "f \<in> v_used (V h)" "f \<notin> H"
  shows "geometry H (V(h := released f (V h)))" "Suc (card (v_used (released f (V h)))) = card (v_used (V h))"
    "kind_of (released f (V h)) = (if card (v_used (released f (V h))) = 0 then Empty else Partial)"
    "kind_of (V h) = (if Suc (card (v_used (released f (V h)))) = slot_count (v_cache (V h)) then Full else Partial)"
    "objects H (V(h := released f (V h))) = objects H V - {(v_cache (V h), f)}"
proof -
  note g = geometryD [OF assms(1,2)]
  show "geometry H (V(h := released f (V h)))"
    by (rule geometry_change [OF assms(1,2)]) (use g(4,5) assms(3,4) in auto)
  note c = card_used [OF assms(1,2)]
  show n: "Suc (card (v_used (released f (V h)))) = card (v_used (V h))"
    using card_Suc_Diff1 [OF c(1) assms(3)] by (simp only: released_simps)
  show "kind_of (released f (V h)) = (if card (v_used (released f (V h))) = 0 then Empty else Partial)"
    using c(1) by (auto simp: kind_of_def)
  show "kind_of (V h) = (if Suc (card (v_used (released f (V h)))) = slot_count (v_cache (V h)) then Full else Partial)"
    unfolding n using c(2) assms(3) by (auto simp: kind_of_def)
  have only: "g = h" if "g \<in> H" "f \<in> v_used (V g)" for g
    using slot_slab [OF assms(1) that(1) assms(2)] that(2) assms(3) by blast
  let ?V = "V(h := released f (V h))"
  have "(j, e) \<in> in_use H ?V \<longleftrightarrow> (j, e) \<in> in_use H V - {(v_cache (V h), f)}" for j e
  proof (cases "e = f")
    case True
    have "f \<notin> v_used (?V g)" if "g \<in> H" for g using only [OF that] by auto
    then show ?thesis using True only by (auto simp: in_use_def)
  next
    case False
    then have "v_cache (?V g) = v_cache (V g)" "e \<in> v_used (?V g) \<longleftrightarrow> e \<in> v_used (V g)" for g by simp_all
    then show ?thesis using False by (simp add: in_use_def del: fun_upd_apply)
  qed
  then have "in_use H ?V = in_use H V - {(v_cache (V h), f)}" by auto
  then show "objects H (V(h := released f (V h))) = objects H V - {(v_cache (V h), f)}"
    unfolding objects_def by auto
qed

lemma push_slot_ok:
  assumes "slab_ok s H V L U" "h \<in> H" "f \<in> v_used (V h)" "f \<notin> H"
  shows "ld64 (mem (push_slot f h s)) f = head0 (v_free (V h))"
    "g \<in> H \<Longrightarrow> fofs d \<Longrightarrow> fld d (mem (push_slot f h s)) g = (if g = h \<and> d = 32 then f else if g = h \<and> d = 8
       then of_nat (card (v_used (released f (V h)))) else fld d (mem s) g)"
    "slab_step (insert (cellno f) (header_cells H)) s (push_slot f h s)" "caches (push_slot f h s) = caches s"
    "blkno f \<notin> blkno ` H" "al 8 f"
proof -
  note k = slab_okD [OF assms(1)]
  have al: "al 64 h" using header_al(1) [OF k(4) assms(2)] .
  note ho = k(6) [OF assms(2), unfolded header_ok_def]
  have o: "(v_cache (V h), f) \<in> objects H V" using assms(2-4) by (auto simp: objects_def in_use_def)
  show nb: "blkno f \<notin> blkno ` H"
    using object_not_reserved(1) [OF k(4) o inside_self] by (simp add: reserved_def)
  show a8: "al 8 f" using slab_slot(2) [OF k(4) assms(2), of f] assms(3) al_16_8 by simp
  have fh: "blkno f \<noteq> blkno h" using nb assms(2) by auto
  have hd: "load s (h + 32) = head0 (v_free (V h))" using al ho by (simp add: fld_load)
  define a where "a = store f (head0 (v_free (V h))) s"
  define b where "b = store (h + 32) f a"
  have af: "fld d (mem a) g = fld d (mem s) g" if "g \<in> H" "fofs d" for d g
    unfolding a_def store_fields by (rule fld_st64_slot [OF a8 that(2)]) (use nb that(1) in auto)
  have c: "load b (h + 8) = of_nat (card (v_used (V h)))"
    using al ho af [OF assms(2), of 8] by (simp add: b_def fld_load fld_st64)
  have eq: "push_slot f h s = store (h + 8) (of_nat (card (v_used (released f (V h))))) b"
  proof -
    have "(of_nat (card (v_used (V h))) :: u64) - 1 = of_nat (card (v_used (released f (V h))))"
      unfolding released_ok(2) [OF k(4) assms(2-4), symmetric] by simp
    then show ?thesis using c by (simp add: push_slot_def Let_def hd a_def [symmetric] b_def [symmetric])
  qed
  show "caches (push_slot f h s) = caches s" by (simp add: eq b_def a_def)
  show "fld d (mem (push_slot f h s)) g = (if g = h \<and> d = 32 then f else if g = h \<and> d = 8
       then of_nat (card (v_used (released f (V h)))) else fld d (mem s) g)" if "g \<in> H" "fofs d"
    using al af that by (auto simp: eq b_def fld_st64)
  show "ld64 (mem (push_slot f h s)) f = head0 (v_free (V h))"
    using al a8 fh by (simp add: eq b_def ld64_st64_field a_def)
  show "slab_step (insert (cellno f) (header_cells H)) s (push_slot f h s)"
  proof (rule slab_step_mono)
    have "slab_step {cellno f} s a" unfolding a_def by (rule slab_step_cell [OF a8]) simp
    moreover have "slab_step (header_cells H) a (push_slot f h s)" unfolding eq b_def
      by (intro step_field slab_step_refl al assms(2) fofs_fields)
    ultimately show "slab_step ({cellno f} \<union> header_cells H) s (push_slot f h s)" by (rule slab_step_trans)
  qed simp
qed

text \<open>
  After the slot is pushed and the slab is in the list of its new kind, the invariant holds
  with the released view.
\<close>

lemma slab_ok_released:
  assumes "slab_ok s H V L U" "h \<in> H" "f \<in> v_used (V h)" "f \<notin> H"
    "slab_step (header_cells H) (push_slot f h s) t" "linked t H (V(h := released f (V h)))"
    "\<And>d. fofs d \<Longrightarrow> d \<noteq> 16 \<Longrightarrow> d \<noteq> 24 \<Longrightarrow> fld d (mem t) = fld d (mem (push_slot f h s))" "configured t"
  shows "slab_ok t H (V(h := released f (V h))) L U"
    "slab_step (insert (cellno f) (header_cells H)) s t"
proof -
  note k = slab_okD [OF assms(1)]
  note p = push_slot_ok [OF assms(1-4)]
  show st: "slab_step (insert (cellno f) (header_cells H)) s t"
    by (rule slab_step_mono [OF slab_step_trans [OF p(3) assms(5)]]) auto
  note e = slab_step_fields [OF st]
  have fl: "fld d (mem t) g = (if g = h \<and> d = 32 then f else if g = h \<and> d = 8
      then of_nat (card (v_used (released f (V h)))) else fld d (mem s) g)"
    if "g \<in> H" "d \<in> {0, 8, 32, 40}" for g d
  proof -
    have d: "fofs d" "d \<noteq> 16" "d \<noteq> 24" using that(2) by auto
    show ?thesis unfolding assms(7) [OF d] by (rule p(2) [OF that(1) d(1)])
  qed
  have out: "cellno x \<notin> insert (cellno f) (header_cells H)" if "g \<in> H" "x \<in> set (v_free (V g))" for g x
  proof -
    have "x \<noteq> f"
      using slot_slab [OF k(4) that(1) assms(2), of f] geometryD(5) [OF k(4) assms(2)] that(2) assms(3) by auto
    then have "cellno x \<noteq> cellno f"
      using cellno_inj [OF _ p(6)] slab_slot(2) [OF k(4) that(1), of x] that(2) al_16_8 by blast
    then show ?thesis using free_not_header [OF k(4) that] by (auto simp: header_cells_iff)
  qed
  have "chain (mem t) (v_free (V h)) = chain (mem s) (v_free (V h))"
    by (rule chain_cong, rule slab_step_ld64 [OF st])
      (use out [OF assms(2)] slab_slot(2) [OF k(4) assms(2)] al_16_8 in auto)
  moreover have "ld64 (mem t) f = head0 (v_free (V h))"
    using slab_step_ld64 [OF assms(5) p(6)] p(1,5) by (simp add: header_cells_iff)
  ultimately have hh: "header_ok (caches_addr s) (mem t) h (released f (V h))"
    using k(6) [OF assms(2)] fl [OF assms(2)] by (simp add: header_ok_def)
  have all: "header_ok (caches_addr s) (mem t) g ((V(h := released f (V h))) g)" if "g \<in> H" for g
    by (rule headers_step [OF k(4) st k(6) _ _ hh that]) (use fl out in auto)
  have "(\<lambda>g. v_page ((V(h := released f (V h))) g)) = (\<lambda>g. v_page (V g))" by (simp add: fun_eq_iff)
  then have "(\<lambda>g. v_page ((V(h := released f (V h))) g)) ` H \<subseteq> {page_addr s i | i. (i, 0) \<in> L}" using k(3) by (simp only:)
  then show "slab_ok t H (V(h := released f (V h))) L U"
    unfolding slab_ok_def e using k(1,2) released_ok(1) [OF k(4) assms(2-4)] assms(6,8) all by blast
qed

text \<open>The list of the new kind.\<close>

lemma configured_relink:
  assumes "configured s" "\<And>v c. aligned_size (set_c v c) = aligned_size c \<and> cache_flag (set_c v c) = cache_flag c"
    "\<And>v c. aligned_size (set_d v c) = aligned_size c \<and> cache_flag (set_d v c) = cache_flag c"
  shows "configured (push_slab h i get_d set_d (unlink_slab h i set_c s))"
  by (rule configured_same [OF _ assms(1)]) (simp add: push_slab_def unlink_slab_def Let_def assms(2,3))

lemma pushed_family:
  assumes "slab_ok s H V L U" "h \<in> H" "f \<in> v_used (V h)" "f \<notin> H"
  shows "family (\<lambda>(i, c). i < 8) (fld sl_next (mem (push_slot f h s))) (fld sl_prev (mem (push_slot f h s)))
    (kind_head (push_slot f h s)) (members H V)"
proof (rule family_cong [OF linkedD [OF slab_okD(7) [OF assms(1)]]])
  note p = push_slot_ok [OF assms]
  show "kind_head (push_slot f h s) k = kind_head s k" for k
    by (cases k) (simp add: kind_head_def p(4))
  fix k x assume "x \<in> members H V k"
  then have "x \<in> H" by (cases k) (simp add: in_members)
  then show "fld sl_next (mem (push_slot f h s)) x = fld sl_next (mem s) x \<and>
      fld sl_prev (mem (push_slot f h s)) x = fld sl_prev (mem s) x"
    using p(2) by simp
qed simp

lemma released_stays:
  assumes "slab_ok s H V L U" "h \<in> H" "f \<in> v_used (V h)" "f \<notin> H" "kind_of (released f (V h)) = kind_of (V h)"
    and t_def: "t = push_slot f h s"
  shows "slab_ok t H (V(h := released f (V h))) L U" "slab_step (insert (cellno f) (header_cells H)) s t"
proof -
  have "members H (V(h := released f (V h))) = members H V" by (rule members_stay) (simp_all add: assms(5))
  then have l: "linked (push_slot f h s) H (V(h := released f (V h)))"
    using pushed_family [OF assms(1-4)] by (simp add: linked_def)
  have c: "configured (push_slot f h s)"
    using slab_okD(5) [OF assms(1)] push_slot_ok(4) [OF assms(1-4)] by (simp add: configured_def)
  show "slab_ok t H (V(h := released f (V h))) L U" "slab_step (insert (cellno f) (header_cells H)) s t"
    using slab_ok_released [OF assms(1-4) slab_step_refl l _ c] by (simp_all add: t_def)
qed

lemma released_moves:
  assumes "slab_ok s H V L U" "h \<in> H" "f \<in> v_used (V h)" "f \<notin> H" "v_cache (V h) = i"
    and "kind_of (V h) = c" "kind_of (released f (V h)) = c'" "c \<noteq> c'"
    and "\<And>(s :: 'a slabs_scheme) v. kind_head (upd_cache i (set_c v) s) = (kind_head s)((i, c) := v)"
    and "\<And>(s :: 'a slabs_scheme) v. kind_head (upd_cache i (set_d v) s) = (kind_head s)((i, c') := v)"
    and "\<And>s :: 'a slabs_scheme. get_d (caches s i) = kind_head s (i, c')"
    and "\<And>v c. aligned_size (set_c v c) = aligned_size c \<and> cache_flag (set_c v c) = cache_flag c"
    and "\<And>v c. aligned_size (set_d v c) = aligned_size c \<and> cache_flag (set_d v c) = cache_flag c"
    and t_def: "t = push_slab h i get_d set_d (unlink_slab h i set_c (push_slot f h (s :: 'a slabs_scheme)))"
  shows "slab_ok t H (V(h := released f (V h))) L U" "slab_step (insert (cellno f) (header_cells H)) s t"
proof -
  note k = slab_okD [OF assms(1)]
  have i: "i < 8" using geometryD(1) [OF k(4) assms(2)] assms(5) by simp
  have hm: "h \<in> members H V (i, c)" using assms(2,5,6) by (simp add: in_members)
  have al: "al 64 x \<and> x \<in> H" if "j < 8" "x \<in> members H V (j, y)" for j x y
    using that header_al(1) [OF k(4)] by (simp add: in_members)
  note rl = relink_ok [OF pushed_family [OF assms(1-4)] i hm assms(8) al assms(9-11) t_def]
  have m: "members H (V(h := released f (V h))) = (members H V)((i, c) := members H V (i, c) - {h},
      (i, c') := insert h (members H V (i, c')))"
    using members_move [OF assms(2), of "released f (V h)" i V] assms(5-8) by simp
  have l: "linked t H (V(h := released f (V h)))" unfolding linked_def m by (rule rl(1))
  have c: "configured t" unfolding t_def
    by (rule configured_relink [OF _ assms(12,13)])
      (use k(5) push_slot_ok(4) [OF assms(1-4)] in \<open>simp add: configured_def\<close>)
  show "slab_ok t H (V(h := released f (V h))) L U" "slab_step (insert (cellno f) (header_cells H)) s t"
    using slab_ok_released [OF assms(1-4) rl(3) l rl(2) c] by simp_all
qed

section \<open>kvmfree\<close>

text \<open>What the code does with the slab of the slot, once it is found.\<close>

definition free_slot_of :: "u64 \<Rightarrow> u64 \<Rightarrow> nat \<Rightarrow> slab_view \<Rightarrow> 'a slabs_scheme \<Rightarrow> 'a slabs_scheme" where
  "free_slot_of f h i v s = (let s = push_slot f h s in
     if v_free v = [] then full_to_partial h i s
     else if v_used v = {f} then partial_to_empty h i s else s)"

lemma free_slot_of_ok:
  assumes "slab_ok s H V L U" "h \<in> H" "f \<in> v_used (V h)" "f \<notin> H" "v_cache (V h) = i"
  shows "slab_ok (free_slot_of f h i (V h) s) H (V(h := released f (V h))) L U"
    "slab_step (insert (cellno f) (header_cells H)) s (free_slot_of f h i (V h) s)"
proof -
  note k = slab_okD [OF assms(1)]
  note r = released_ok [OF k(4) assms(2-4)] and c = card_used [OF k(4) assms(2)]
  have i: "i < 8" using geometryD(1) [OF k(4) assms(2)] assms(5) by simp
  have u0: "v_used (released f (V h)) = {} \<longleftrightarrow> v_used (V h) = {f}" using assms(3) by auto
  note head = kind_head_upd kind_head_fields
  have "slab_ok (free_slot_of f h i (V h) s) H (V(h := released f (V h))) L U \<and>
    slab_step (insert (cellno f) (header_cells H)) s (free_slot_of f h i (V h) s)"
  proof (cases "v_free (V h) = []")
    case True
    have "v_used (V h) \<noteq> {f}" using c(2) True slot_count_bounds [OF i] assms(5) by auto
    then have kd: "kind_of (V h) = Full" "kind_of (released f (V h)) = Partial"
      using True u0 by (simp_all add: kind_of_def)
    have t: "free_slot_of f h i (V h) s = push_slab h i list_partial (\<lambda>v c. c\<lparr>list_partial := v\<rparr>)
        (unlink_slab h i (\<lambda>v c. c\<lparr>list_full := v\<rparr>) (push_slot f h s))"
      using True by (simp add: free_slot_of_def full_to_partial_def)
    show ?thesis using released_moves [OF assms kd _ _ _ _ _ _ t] by (simp add: head)
  next
    case False
    show ?thesis
    proof (cases "v_used (V h) = {f}")
      case True
      then have kd: "kind_of (V h) = Partial" "kind_of (released f (V h)) = Empty"
        using False u0 by (simp_all add: kind_of_def)
      have t: "free_slot_of f h i (V h) s = push_slab h i list_empty (\<lambda>v c. c\<lparr>list_empty := v\<rparr>)
          (unlink_slab h i (\<lambda>v c. c\<lparr>list_partial := v\<rparr>) (push_slot f h s))"
        using True False by (simp add: free_slot_of_def partial_to_empty_def)
      show ?thesis using released_moves [OF assms kd _ _ _ _ _ _ t] by (simp add: head)
    next
      case neither: False
      then have "kind_of (released f (V h)) = kind_of (V h)" using False u0 assms(3) by (auto simp: kind_of_def)
      then show ?thesis using released_stays [OF assms(1-4) _ refl] False neither by (simp add: free_slot_of_def)
    qed
  qed
  then show "slab_ok (free_slot_of f h i (V h) s) H (V(h := released f (V h))) L U"
    "slab_step (insert (cellno f) (header_cells H)) s (free_slot_of f h i (V h) s)" by simp_all
qed

text \<open>The page of a slot.\<close>

lemma page_of_pageno:
  assumes "page_base p" "pageno f = pageno p"
  shows "f AND NOT 0xFFF = p"
proof -
  obtain x where x: "unat p = 4096 * x" using assms(1) by (auto simp: page_base_def elim!: dvdE)
  then have "unat f div 4096 = x" using assms(2) by (simp add: pageno_def)
  then have "unat p \<le> unat f" "unat f < unat p + 4096" using x by auto
  then show ?thesis using page_down_unique [OF assms(1)] by (simp add: page_down_def)
qed

text \<open>A small object: its header is found by its page, the header names its cache.\<close>

lemma kvmfree_on_slab_eq:
  assumes "slab_ok s H V L U" "h \<in> H" "f \<in> v_used (V h)" "f \<notin> H" "v_cache (V h) = i" "i < 6"
  shows "kvmfree_on_slab f h i s = free_slot_of f h i (V h) s"
proof -
  note k = slab_okD [OF assms(1)]
  note p = push_slot_ok [OF assms(1-4)] and r = released_ok [OF k(4) assms(2-4)] and c = card_used [OF k(4) assms(2)]
  define n where "n = card (v_used (released f (V h)))"
  have i: "i < 8" using assms(6) by simp
  have ct: "configured (push_slot f h s)" using k(5) p(4) by (simp add: configured_def)
  have ld: "load (push_slot f h s) (h + 8) = of_nat n"
    using p(2) [OF assms(2), of 8] header_al(1) [OF k(4) assms(2)] by (simp add: fld_load n_def)
  have full: "Suc n = slot_count i \<longleftrightarrow> v_free (V h) = []" and le: "Suc n \<le> slot_count i"
    using r(2) c(2) assms(5) by (auto simp: n_def)
  have mx: "ucast ((ucast (on_slab_objs (caches (push_slot f h s) i)) :: u32) - 1) = (of_nat (slot_count i - 1) :: u64)"
    using ct i assms(6) less_8 [OF i]
    by (auto simp: configured_def on_slab_objs_def slot_count_def slot_size_def slot_base_def)
  have b: "n \<le> slot_count i" "slot_count i - 1 \<le> slot_count i" "slot_count i \<le> 252" "2 \<le> slot_count i"
    using le slot_count_bounds [OF i] by simp_all
  have eq1: "(of_nat n :: u64) = of_nat (slot_count i - 1) \<longleftrightarrow> v_free (V h) = []"
  proof -
    have u: "unat (of_nat k :: u64) = k" if "k \<le> 252" for k using that by (simp add: unat_of_nat)
    have "unat (of_nat n :: u64) = n" "unat (of_nat (slot_count i - 1) :: u64) = slot_count i - 1"
      by (rule u, use b in linarith)+
    then have "(of_nat n :: u64) = of_nat (slot_count i - 1) \<longleftrightarrow> n = slot_count i - 1" by metis
    then show ?thesis using full b(4) by auto
  qed
  have eq0: "(of_nat n :: u64) = 0 \<longleftrightarrow> v_used (V h) = {f}"
  proof -
    have "unat (of_nat n :: u64) = n" using b by (simp add: unat_of_nat)
    then have "(of_nat n :: u64) = 0 \<longleftrightarrow> n = 0" by (simp only: word_unat_eq_iff [of _ 0] unat_0)
    also have "\<dots> \<longleftrightarrow> v_used (V h) - {f} = {}" using c(1) by (simp add: n_def del: Diff_eq_empty_iff)
    also have "\<dots> \<longleftrightarrow> v_used (V h) = {f}" using assms(3) by blast
    finally show ?thesis .
  qed
  show ?thesis unfolding kvmfree_on_slab_def free_slot_of_def Let_def mx ld by (simp only: eq1 eq0)
qed

text \<open>The walk along a list of headers of a large cache.\<close>

lemma find_slab_path:
  "dpath (fld sl_next (mem s)) (fld sl_prev (mem s)) p h xs 0 \<Longrightarrow> 0 \<notin> set xs \<Longrightarrow> (\<And>x. x \<in> set xs \<Longrightarrow> al 64 x) \<Longrightarrow>
   length xs \<le> n \<Longrightarrow> find_slab n h base s = Ret (case find (\<lambda>x. fld virt_start (mem s) x = base) xs of Some x \<Rightarrow> x | None \<Rightarrow> 0)"
proof (induction xs arbitrary: n p h)
  case Nil
  then show ?case by (cases n) simp_all
next
  case (Cons x xs)
  then obtain m where m: "n = Suc m" by (cases n) auto
  have h: "h = x" "x \<noteq> 0" "al 64 x" using Cons.prems(1-3) by auto
  have "dpath (fld sl_next (mem s)) (fld sl_prev (mem s)) x (fld sl_next (mem s) x) xs 0" using Cons.prems(1) by simp
  then have "find_slab m (fld sl_next (mem s) x) base s =
      Ret (case find (\<lambda>x. fld virt_start (mem s) x = base) xs of Some x \<Rightarrow> x | None \<Rightarrow> 0)"
    using Cons.prems(2-4) m by (intro Cons.IH) auto
  then show ?case using h m by (simp add: fld_load)
qed

lemma headers_bound:
  assumes "slab_ok s H V L U"
  shows "card H \<le> unat (ram_size s)"
proof -
  note k = slab_okD [OF assms]
  have "card H = card ((\<lambda>h. v_page (V h)) ` H)" using k(4) by (simp add: geometry_def card_image)
  also have "\<dots> \<le> card (page_addr s ` {i. i < total_pages s})"
  proof (rule card_mono)
    show "(\<lambda>h. v_page (V h)) ` H \<subseteq> page_addr s ` {i. i < total_pages s}"
      using k(3) heap_ok_live(1) [OF k(1)] by blast
  qed simp
  also have "\<dots> \<le> card {i. i < total_pages s}" by (rule card_image_le) simp
  also have "card {i. i < total_pages s} \<le> card {..<unat (total_pages s)}"
  proof (rule card_inj_on_le [where f = unat])
    show "unat ` {i. i < total_pages s} \<subseteq> {..<unat (total_pages s)}" by (auto simp: word_less_nat_alt)
  qed (auto simp: inj_on_def word_unat_eq_iff)
  also have "\<dots> \<le> unat (ram_size s)" by (simp add: total_pages_def unat_div)
  finally show ?thesis .
qed

lemma find_slab_ok:
  assumes "slab_ok s H V L U" "i < 8" "unat (ram_size s) \<le> n"
  shows "find_slab n (kind_head s (i, c)) base s =
    Ret (if \<exists>h\<in>members H V (i, c). v_page (V h) = base then THE h. h \<in> H \<and> v_page (V h) = base else 0)"
proof -
  note k = slab_okD [OF assms(1)]
  obtain xs where x: "dlist 0 (fld sl_next (mem s)) (fld sl_prev (mem s)) (kind_head s (i, c)) xs"
    "set xs = members H V (i, c)" using familyE [OF linkedD [OF k(7)], of "(i, c)"] assms(2) by auto
  have sub: "set xs \<subseteq> H" using x(2) by (auto simp: in_members)
  have "length xs = card (set xs)" using x(1) distinct_card dlist_distinct by metis
  also have "\<dots> \<le> card H" using sub k(4) by (intro card_mono) (simp_all add: geometry_def)
  finally have len: "length xs \<le> n" using headers_bound [OF assms(1)] assms(3) by simp
  have pg: "fld virt_start (mem s) x = v_page (V x)" if "x \<in> set xs" for x
    using k(6) [of x] sub that by (auto simp: header_ok_def)
  have fd: "find (\<lambda>x. fld virt_start (mem s) x = base) xs = find (\<lambda>x. v_page (V x) = base) xs"
    by (rule find_cong) (simp_all add: pg)
  have "find_slab n (kind_head s (i, c)) base s = Ret (case find (\<lambda>x. v_page (V x) = base) xs of Some x \<Rightarrow> x | None \<Rightarrow> 0)"
    using find_slab_path [of s 0 "kind_head s (i, c)" xs n base] x(1) len sub header_al(1) [OF k(4)]
    by (auto simp: dlist_def fd)
  moreover have "(case find (\<lambda>x. v_page (V x) = base) xs of Some x \<Rightarrow> x | None \<Rightarrow> 0) =
    (if \<exists>h\<in>members H V (i, c). v_page (V h) = base then THE h. h \<in> H \<and> v_page (V h) = base else 0)"
  proof (cases "find (\<lambda>x. v_page (V x) = base) xs")
    case None
    then have "\<not> (\<exists>h\<in>members H V (i, c). v_page (V h) = base)" using x(2) by (auto simp: find_None_iff)
    then show ?thesis using None by simp
  next
    case (Some y)
    then have y: "y \<in> set xs" "v_page (V y) = base" by (auto simp: find_Some_iff)
    have "(THE h. h \<in> H \<and> v_page (V h) = base) = y"
      using y sub k(4) by (intro the_equality) (auto simp: geometry_def inj_on_def)
    then show ?thesis using Some y x(2) by auto
  qed
  ultimately show ?thesis by simp
qed

text \<open>A large object: its header is found in the lists of its cache.\<close>

lemma count_zero:
  assumes "slab_ok s H V L U" "h \<in> H" "f \<in> v_used (V h)" "f \<notin> H"
  shows "load (push_slot f h s) (h + active_obj_count) = 0 \<longleftrightarrow> v_used (V h) = {f}"
proof -
  note k = slab_okD [OF assms(1)]
  note r = released_ok [OF k(4) assms(2-4)] and c = card_used [OF k(4) assms(2)]
  define n where "n = card (v_used (released f (V h)))"
  have ld: "load (push_slot f h s) (h + 8) = of_nat n"
    using push_slot_ok(2) [OF assms assms(2), of 8] header_al(1) [OF k(4) assms(2)] by (simp add: fld_load n_def)
  have "n \<le> 252" using r(2) c(2) slot_count_bounds [OF geometryD(1) [OF k(4) assms(2)]] by (simp add: n_def)
  then have "unat (of_nat n :: u64) = n" by (simp add: unat_of_nat)
  then have "(of_nat n :: u64) = 0 \<longleftrightarrow> n = 0" by (simp only: word_unat_eq_iff [of _ 0] unat_0)
  also have "\<dots> \<longleftrightarrow> v_used (V h) - {f} = {}" using c(1) by (simp add: n_def del: Diff_eq_empty_iff)
  also have "\<dots> \<longleftrightarrow> v_used (V h) = {f}" using assms(3) by blast
  finally show ?thesis unfolding ld .
qed

lemma kvmfree_off_slab_eq:
  assumes "slab_ok s H V L U" "h \<in> H" "f \<in> v_used (V h)" "f \<notin> H" "j < 8" "unat (ram_size s) \<le> n"
  shows "kvmfree_off_slab n f (v_page (V h)) j s =
    Ret (if v_cache (V h) = j then (True, free_slot_of f h j (V h) s) else (False, s))"
proof -
  note k = slab_okD [OF assms(1)]
  have inj: "g = h" if "g \<in> H" "v_page (V g) = v_page (V h)" for g
    using k(4) assms(2) that by (auto simp: geometry_def inj_on_def)
  have only: "(\<exists>g\<in>members H V (j, c). v_page (V g) = v_page (V h)) \<longleftrightarrow> v_cache (V h) = j \<and> kind_of (V h) = c" for c
    using inj assms(2) unfolding Bex_def in_members by metis
  have the: "(THE g. g \<in> H \<and> v_page (V g) = v_page (V h)) = h"
    using inj assms(2) by (intro the_equality) auto
  have fd: "find_slab n (kind_head s (j, c)) (v_page (V h)) s = Ret (if v_cache (V h) = j \<and> kind_of (V h) = c then h else 0)" for c
    using find_slab_ok [OF assms(1,5,6), of c "v_page (V h)"] by (simp only: only the)
  have h0: "h \<noteq> 0" by (rule header_al(2) [OF k(4) assms(2)])
  have kd: "kind_of (V h) = (if v_free (V h) = [] then Full else Partial)" using assms(3) by (auto simp: kind_of_def)
  show ?thesis
    using count_zero [OF assms(1-4)] h0
    by (simp add: kvmfree_off_slab_def kind_head_fields fd kd free_slot_of_def Let_def)
qed

text \<open>Releasing an object.\<close>

lemma cache_addr_inj: "i < 6 \<Longrightarrow> j < 6 \<Longrightarrow> cache_addr i s = cache_addr j s \<longleftrightarrow> i = j"
proof -
  assume "i < 6" "j < 6"
  then have "i \<in> {0, 1, 2, 3, 4, 5}" "j \<in> {0, 1, 2, 3, 4, 5}" by auto
  then show ?thesis by (auto simp: cache_addr_def)
qed

lemma kvmfree_eq:
  assumes "slab_ok s H V L U" "kvmalloc_lock s = 0" "h \<in> H" "f \<in> v_used (V h)" "f \<notin> H"
    "v_cache (V h) < 6 \<or> (\<forall>j<6. load s (f AND NOT 0xFFF) \<noteq> cache_addr j s)"
  shows "kvmfree f s = Ret ((free_slot_of f h (v_cache (V h)) (V h) (s\<lparr>kvmalloc_lock := 1\<rparr>))\<lparr>kvmalloc_lock := 0\<rparr>)"
proof -
  let ?s = "s\<lparr>kvmalloc_lock := 1\<rparr>" and ?i = "v_cache (V h)"
  have ok: "slab_ok ?s H V L U" using assms(1) by simp
  note k = slab_okD [OF ok]
  note sl = slab_slot [OF k(4) assms(3), of f]
  have f0: "f \<noteq> 0" using sl(3) assms(4) by simp
  have base: "f AND NOT 0xFFF = v_page (V h)"
    by (rule page_of_pageno [OF geometryD(2) [OF k(4) assms(3)]]) (use sl(1) assms(4) in simp)
  then have base': "f AND - 4096 = v_page (V h)" by simp
  have adr: "cache_addr j ?s = cache_addr j s" for j by (simp add: cache_addr_def)
  define found where "found = find (\<lambda>j. cache_addr j ?s = load ?s (v_page (V h) + parent_cache)) [0..<6]"
  have run: "kvmfree f s = bindO (case found of Some i \<Rightarrow> Ret (kvmfree_on_slab f (v_page (V h)) i ?s)
      | None \<Rightarrow> bindO (kvmfree_off_slab (unat (ram_size ?s)) f (v_page (V h)) 6 ?s) (\<lambda>(done, s).
          if done then Ret s else bindO (kvmfree_off_slab (unat (ram_size ?s)) f (v_page (V h)) 7 s) (\<lambda>(done, s).
            if done then Ret s else kfree (v_page (V h)) s)))
      (\<lambda>s. Ret (s\<lparr>kvmalloc_lock := 0\<rparr>))"
    using f0 assms(2) by (simp add: kvmfree_def spinlock_acquire_def spinlock_release_def base' Let_def found_def)
  show ?thesis
  proof (cases "?i < 6")
    case True
    have hp: "v_page (V h) = h" using geometryD(7) [OF k(4) assms(3) True] by simp
    have "load ?s h = cache_addr ?i ?s"
      using k(6) [OF assms(3)] header_al(1) [OF k(4) assms(3)] fld_load [of h ?s 0]
      by (simp add: header_ok_def cache_addr_def)
    then have "found = find (\<lambda>j. j = ?i) [0..<6]"
      unfolding found_def hp using True by (intro find_cong) (simp_all add: cache_addr_inj)
    also have "\<dots> = Some ?i"
    proof -
      have "?i \<in> {0, 1, 2, 3, 4, 5}" using True by auto
      then show ?thesis by (auto simp: upt_rec)
    qed
    finally show ?thesis unfolding run hp
      using kvmfree_on_slab_eq [OF ok assms(3-5) refl True] by simp
  next
    case False
    have i: "?i = 6 \<or> ?i = 7" using False geometryD(1) [OF k(4) assms(3)] by linarith
    have fn: "found = None" using assms(6) False
      by (auto simp: found_def find_None_iff adr base' load_def)
    have off: "kvmfree_off_slab (unat (ram_size ?s)) f (v_page (V h)) j ?s =
        Ret (if ?i = j then (True, free_slot_of f h j (V h) ?s) else (False, ?s))" if "j < 8" for j
      by (rule kvmfree_off_slab_eq [OF ok assms(3-5) that]) simp
    show ?thesis unfolding run fn using i off [of 6] off [of 7] by auto
  qed
qed

end
