(* ===== verification/SlabResult.thy ===== *)
theory SlabResult
  imports SlabFree VmSpec
begin

text \<open>
  The properties of the slab allocator of \<open>kernel/vm.c\<close>, with the state after \<open>kvmalloc_init\<close> on a booted page
  allocator as the concrete input.
\<close>

section \<open>Initialisation\<close>

lemma kvmalloc_init_fold: "\<exists>c. fold kvmalloc_init_cache xs s = s\<lparr>caches := c\<rparr> \<and> (\<forall>i\<in>set xs.
    aligned_size (c i) = 16 * push_bit i 1 \<and> cache_flag (c i) = (if (16 * push_bit i 1 :: u32) > 512 then 1 else 0) \<and>
    list_full (c i) = 0 \<and> list_partial (c i) = 0 \<and> list_empty (c i) = 0)"
proof (induction xs rule: rev_induct)
  case Nil
  have "s = s\<lparr>caches := caches s\<rparr>" by simp
  then show ?case by (metis fold_Nil id_apply empty_iff list.set(1))
next
  case (snoc x xs)
  then obtain c where c: "fold kvmalloc_init_cache xs s = s\<lparr>caches := c\<rparr>" "\<forall>i\<in>set xs.
    aligned_size (c i) = 16 * push_bit i 1 \<and> cache_flag (c i) = (if (16 * push_bit i 1 :: u32) > 512 then 1 else 0) \<and>
    list_full (c i) = 0 \<and> list_partial (c i) = 0 \<and> list_empty (c i) = 0" by blast
  define v where "v = caches (kvmalloc_init_cache x (s\<lparr>caches := c\<rparr>)) x"
  define c' where "c' = c(x := v)"
  have "fold kvmalloc_init_cache (xs @ [x]) s = s\<lparr>caches := c'\<rparr>"
    by (simp add: c(1) kvmalloc_init_cache_def Let_def v_def c'_def)
  moreover have "aligned_size v = 16 * push_bit x 1 \<and> cache_flag v = (if (16 * push_bit x 1 :: u32) > 512 then 1 else 0) \<and>
    list_full v = 0 \<and> list_partial v = 0 \<and> list_empty v = 0"
    by (simp add: v_def kvmalloc_init_cache_def Let_def)
  then have "\<forall>i\<in>set (xs @ [x]). aligned_size (c' i) = 16 * push_bit i 1 \<and>
    cache_flag (c' i) = (if (16 * push_bit i 1 :: u32) > 512 then 1 else 0) \<and>
    list_full (c' i) = 0 \<and> list_partial (c' i) = 0 \<and> list_empty (c' i) = 0" using c(2) by (simp add: c'_def)
  ultimately show ?case by blast
qed

lemma kvmalloc_init_ok:
  assumes "heap_ok s L U" "ram_base s \<noteq> 0"
  shows "slab_ok (kvmalloc_init s) {} V L U" "kvmalloc_lock (kvmalloc_init s) = kvmalloc_lock s"
    "\<exists>c. kvmalloc_init s = s\<lparr>caches := c\<rparr>" "i < 8 \<Longrightarrow> kind_head (kvmalloc_init s) (i, k) = 0"
proof -
  obtain c where c: "kvmalloc_init s = s\<lparr>caches := c\<rparr>" "\<forall>i\<in>set [0..<8].
    aligned_size (c i) = 16 * push_bit i 1 \<and> cache_flag (c i) = (if (16 * push_bit i 1 :: u32) > 512 then 1 else 0) \<and>
    list_full (c i) = 0 \<and> list_partial (c i) = 0 \<and> list_empty (c i) = 0"
    using kvmalloc_init_fold [of "[0..<8]" s] unfolding kvmalloc_init_def by blast
  show "\<exists>c. kvmalloc_init s = s\<lparr>caches := c\<rparr>" using c(1) by blast
  show "kvmalloc_lock (kvmalloc_init s) = kvmalloc_lock s" by (simp add: c(1))
  have h: "kind_head (kvmalloc_init s) (i, k) = 0" if "i < 8" for i k
    using c(2) that by (cases k) (simp_all add: kind_head_def c(1))
  then show "i < 8 \<Longrightarrow> kind_head (kvmalloc_init s) (i, k) = 0" .
  have cf: "configured (kvmalloc_init s)"
  proof -
    have "aligned_size (c i) = of_nat (slot_size i) \<and> cache_flag (c i) = (if i < 6 then 0 else 1)" if "i < 8" for i
      using c(2) less_8 [OF that] by (auto simp: slot_size_def)
    then show ?thesis by (simp add: configured_def c(1))
  qed
  have lk: "linked (kvmalloc_init s) {} V"
    unfolding linked_def family_def using h by (auto simp: members_def intro!: exI [of _ "[]"])
  have "slab_step {} s (kvmalloc_init s)" by (simp add: slab_step_def c(1))
  note e = slab_step_fields [OF this]
  show "slab_ok (kvmalloc_init s) {} V L U"
    unfolding slab_ok_def e using assms cf lk by (simp add: geometry_def)
qed

section \<open>A concrete state\<close>

definition no_cache :: cache where
  "no_cache = \<lparr>obj_size = 0, aligned_size = 0, cache_flag = 0, cache_name = [], list_full = 0, list_partial = 0,
     list_empty = 0, next_cache = 0\<rparr>"

definition demo_slabs :: slabs where
  "demo_slabs = kvmalloc_init (vmem.extend demo_vm (slabs.fields (\<lambda>_. no_cache) 0x80007000 0))"

lemma demo_slabs_ok: "slab_ok demo_slabs {} V {} (pool 1 2)" "kvmalloc_lock demo_slabs = 0"
  "i < 8 \<Longrightarrow> kind_head demo_slabs (i, k) = 0"
proof -
  let ?s = "vmem.extend demo_vm (slabs.fields (\<lambda>_. no_cache) 0x80007000 0)"
  have "heap_ok ?s {} (pool 1 2)" using demo_heap_ok
    by (simp add: heap_ok_def buddy_inv_def lists_ok_def flags_ok_def blocks_ok_def ram_ok_def
      nxt_def prv_def flg_def ordr_def total_pages_def kmem.extend_def vmem.extend_def demo_vm_def)
  moreover have "ram_base ?s \<noteq> 0" using demo_vm_fields(1) by (simp add: vmem.extend_def)
  moreover have "kvmalloc_lock ?s = 0" by (simp add: vmem.extend_def slabs.fields_def)
  ultimately show "slab_ok demo_slabs {} V {} (pool 1 2)" "kvmalloc_lock demo_slabs = 0"
    "i < 8 \<Longrightarrow> kind_head demo_slabs (i, k) = 0"
    using kvmalloc_init_ok [of ?s "{}" "pool 1 2"] by (simp_all add: demo_slabs_def)
qed

text \<open>In that state there is a page, so an object of a small cache can be had.\<close>

lemma demo_slabs_page: "\<exists>p t. kalloc 0 ca (demo_slabs\<lparr>kvmalloc_lock := l\<rparr>) = Ret (p, t)"
proof -
  have "slab_ok (demo_slabs\<lparr>kvmalloc_lock := l\<rparr>) {} (\<lambda>_. undefined) {} (pool 1 2)"
    unfolding slab_ok_lock by (rule demo_slabs_ok(1))
  then have h: "heap_ok (demo_slabs\<lparr>kvmalloc_lock := l\<rparr>) {} (pool 1 2)" by (rule slab_okD(1))
  have "free_lists (demo_slabs\<lparr>kvmalloc_lock := l\<rparr>) 11 \<noteq> NIL"
  proof -
    obtain c where e: "demo_slabs = vmem.extend demo_vm (slabs.fields (\<lambda>_. no_cache) 0x80007000 0)\<lparr>caches := c\<rparr>"
      using kvmalloc_init_fold [of "[0..<8]" "vmem.extend demo_vm (slabs.fields (\<lambda>_. no_cache) 0x80007000 0)"]
      unfolding demo_slabs_def kvmalloc_init_def by blast
    show ?thesis unfolding e by (simp add: demo_vm_fields demo_heap_fields vmem.extend_def)
  qed
  then show ?thesis using kalloc_heap_ok [OF h, of 0 ca] by force
qed

lemma demo_slabs_object: "\<exists>f t H V L. kvmalloc ca 100 demo_slabs = Ret (f, t) \<and> slab_ok t H V L (pool 1 2) \<and>
    kvmalloc_lock t = 0 \<and> objects H V = {(3, f)} \<and> f \<noteq> 0"
proof -
  obtain i where i: "i < 8" "size_class 8 0 100 demo_slabs = Ret i" "i = 0 \<or> slot_size (i - 1) < unat (100 :: u64)"
    "unat (100 :: u64) \<le> slot_size i"
    using size_class_ok [OF slab_okD(5) [OF demo_slabs_ok(1)], of 100] by auto
  have i3: "i = 3" using less_8 [OF i(1)] i(3,4) by (auto simp: slot_size_def)
  let ?s = "demo_slabs\<lparr>kvmalloc_lock := 1\<rparr>"
  obtain p t where k: "kalloc 0 ca ?s = Ret (p, t)" using demo_slabs_page by blast
  have ok: "slab_ok ?s {} (\<lambda>_. undefined) {} (pool 1 2)" using demo_slabs_ok(1) by simp
  have "caches t = caches ?s" using slab_kalloc [OF ok, of ca] k by auto
  then have "cache_flag (caches t i) = 0"
    using slots_per_slab(2) [OF slab_okD(5) [OF demo_slabs_ok(1)] i(1)] i3 by simp
  then have "kvmem_cache_alloc (Suc n) ca i ca ?s \<noteq> Panic 101 0" for n
    using k demo_slabs_ok(3) [OF i(1)] by (simp add: kind_head_fields Let_def)
  then have "kvmem_cache_alloc 2 ca i ca ?s \<noteq> Panic 101 0" unfolding numeral_2_eq_2 .
  then obtain f t H V L where a: "kvmem_cache_alloc 2 ca i ca ?s = Ret (f, t)" "slab_ok t H V L (pool 1 2)"
    "grows ?s {} (\<lambda>_. undefined) {} i f t H V L" using cache_alloc_ok [OF ok i(1), of ca ca] by auto
  have "kvmalloc ca 100 demo_slabs = Ret (f, t\<lparr>kvmalloc_lock := 0\<rparr>)"
    using kvmalloc_small [OF _ _ demo_slabs_ok(2), of 100 ca] i(2) a(1) by simp
  moreover have "objects {} (\<lambda>_. undefined) = {}" by (simp add: objects_def in_use_def)
  then have "objects H V = {(3, f)}" using growsD(4) [OF a(3)] i3 by simp
  moreover have "f \<noteq> 0" by (rule grows_frame(3) [OF ok a(2,3)])
  moreover have "slab_ok (t\<lparr>kvmalloc_lock := 0\<rparr>) H V L (pool 1 2)" using a(2) by simp
  moreover have "kvmalloc_lock (t\<lparr>kvmalloc_lock := 0\<rparr>) = 0" by simp
  ultimately show ?thesis by blast
qed

section \<open>Properties\<close>

text \<open>
  C10. For a size up to 2048 bytes \<open>kvmalloc\<close> either panics because no page is left (101) or returns an
  object of the smallest class that holds the size. The object is not null, is 16-byte aligned, shares no byte with any
  other object, no byte of another object and no byte outside the slabs' pages is written, and
  the allocator's invariant holds again with exactly that object added.
\<close>

theorem kvmalloc_fresh_object:
  assumes "slab_ok s H V L U" and "kvmalloc_lock s = 0" and "0 < sz" and "sz \<le> 2048"
  shows "kvmalloc ca sz s = Panic 101 0 \<or>
    (\<exists>f t i H' V' L'. kvmalloc ca sz s = Ret (f, t) \<and> slab_ok t H' V' L' U \<and> L \<subseteq> L' \<and> kvmalloc_lock t = 0 \<and>
       i < 8 \<and> unat sz \<le> slot_size i \<and> (i = 0 \<or> slot_size (i - 1) < unat sz) \<and> f \<noteq> 0 \<and> al 16 f \<and>
       objects H' V' = insert (i, f) (objects H V) \<and> (i, f) \<notin> objects H V \<and>
       (\<forall>j e b. (j, e) \<in> objects H V \<longrightarrow> inside j e b \<longrightarrow> \<not> inside i f b \<and> mem t b = mem s b) \<and>
       (\<forall>b. (\<forall>g\<in>H'. pageno b \<noteq> pageno (v_page (V' g))) \<longrightarrow> mem t b = mem s b))"
proof -
  obtain i where i: "i < 8" "size_class 8 0 sz s = Ret i" "unat sz \<le> slot_size i" "i = 0 \<or> slot_size (i - 1) < unat sz"
    using size_class_ok [OF slab_okD(5) [OF assms(1)] assms(3,4)] by blast
  let ?s = "s\<lparr>kvmalloc_lock := 1\<rparr>"
  have ok: "slab_ok ?s H V L U" using assms(1) by simp
  have run: "kvmalloc ca sz s = bindO (kvmem_cache_alloc 2 ca i ca ?s) (\<lambda>(slot, t). Ret (slot, t\<lparr>kvmalloc_lock := 0\<rparr>))"
    using kvmalloc_small [OF assms(3,4,2)] i(2) by simp
  from cache_alloc_ok [OF ok i(1), of ca ca] show ?thesis
  proof (elim disjE exE conjE)
    assume "kvmem_cache_alloc 2 ca i ca ?s = Panic 101 0"
    then show ?thesis using run by simp
  next
    fix f t H' V' L'
    assume a: "kvmem_cache_alloc 2 ca i ca ?s = Ret (f, t)" "slab_ok t H' V' L' U" "grows ?s H V L i f t H' V' L'"
    note fr = grows_frame [OF ok a(2,3)] and g = growsD [OF a(3)]
    have "kvmalloc ca sz s = Ret (f, t\<lparr>kvmalloc_lock := 0\<rparr>)" using run a(1) by simp
    then show ?thesis using a(2) i(1,3,4) g(1,4,5) fr
      by (intro disjI2 exI [of _ f] exI [of _ "t\<lparr>kvmalloc_lock := 0\<rparr>"] exI [of _ i] exI [of _ H'] exI [of _ V'] exI [of _ L']) simp
  qed
qed

theorem kvmalloc_fresh_object_witness:
  "\<exists>f t H' V' L'. kvmalloc 7 100 demo_slabs = Ret (f, t) \<and> slab_ok t H' V' L' (pool 1 2) \<and> f \<noteq> 0 \<and>
     objects H' V' = {(3, f)}"
proof -
  obtain f t where r: "kvmalloc 7 100 demo_slabs = Ret (f, t)" using demo_slabs_object [of 7] by blast
  have "kvmalloc_lock demo_slabs = 0" "0 < (100 :: u64)" "(100 :: u64) \<le> 2048" using demo_slabs_ok(2) by simp_all
  from kvmalloc_fresh_object [OF demo_slabs_ok(1) [of "\<lambda>_. undefined"] this, of 7] r
  obtain i H' V' L' where o: "slab_ok t H' V' L' (pool 1 2)" "i < 8" "unat (100 :: u64) \<le> slot_size i"
    "i = 0 \<or> slot_size (i - 1) < unat (100 :: u64)" "f \<noteq> 0" "objects H' V' = insert (i, f) (objects {} (\<lambda>_. undefined))"
    by auto
  have "i = 3" using less_8 [OF o(2)] o(3,4) by (auto simp: slot_size_def)
  moreover have "objects {} (\<lambda>_. undefined) = {}" by (simp add: objects_def in_use_def)
  ultimately show ?thesis using r o by auto
qed

text \<open>
  C11. \<open>kvmfree\<close> of a live object always returns and takes exactly that object out of the live ones,
  keeping the allocator's invariant and every byte of every other object and of the memory outside the slabs. For
  objects of the two large classes this needs that the first word of the object's page, which belongs to a client,
  is none of the addresses of the six small caches.
\<close>

theorem kvmfree_live_object:
  assumes "slab_ok s H V L U" and "kvmalloc_lock s = 0" and "(i, f) \<in> objects H V"
    and "i < 6 \<or> (\<forall>j<6. load s (f AND NOT 0xFFF) \<noteq> cache_addr j s)"
  shows "\<exists>t V'. kvmfree f s = Ret t \<and> slab_ok t H V' L U \<and> kvmalloc_lock t = 0 \<and>
    objects H V' = objects H V - {(i, f)} \<and>
    (\<forall>j e b. (j, e) \<in> objects H V - {(i, f)} \<longrightarrow> inside j e b \<longrightarrow> mem t b = mem s b) \<and>
    (\<forall>b. (\<forall>g\<in>H. pageno b \<noteq> pageno (v_page (V g))) \<longrightarrow> mem t b = mem s b)"
proof -
  obtain h where h: "h \<in> H" "v_cache (V h) = i" "f \<in> v_used (V h)" "f \<notin> H" by (rule object_slab [OF assms(3)])
  let ?s = "s\<lparr>kvmalloc_lock := 1\<rparr>" and ?t = "free_slot_of f h i (V h) (s\<lparr>kvmalloc_lock := 1\<rparr>)"
  have ok: "slab_ok ?s H V L U" using assms(1) by simp
  note k = slab_okD [OF ok]
  have "kvmfree f s = Ret (?t\<lparr>kvmalloc_lock := 0\<rparr>)"
    using kvmfree_eq [OF assms(1,2) h(1,3,4)] assms(4) h(2) by simp
  moreover note fs = free_slot_of_ok [OF ok h(1,3,4,2)]
  have "slab_ok (?t\<lparr>kvmalloc_lock := 0\<rparr>) H (V(h := released f (V h))) L U" using fs(1) by simp
  moreover have "objects H (V(h := released f (V h))) = objects H V - {(i, f)}"
    using released_ok(5) [OF k(4) h(1,3,4)] h(2) by simp
  moreover have same: "mem ?t b = mem s b" if "\<not> reserved H V b" "\<not> inside i f b" for b
  proof -
    have "cellno b \<noteq> cellno f"
    proof
      assume e: "cellno b = cellno f"
      obtain x where x: "unat f = 8 * x" using push_slot_ok(6) [OF ok h(1,3,4)] by (auto simp: al_def elim!: dvdE)
      then have "8 * x \<le> unat b" "unat b < 8 * x + 8" using e by (auto simp: cellno_def)
      then show False using that(2) x slot_size_pos [of i] by (simp add: inside_def)
    qed
    then have "cellno b \<notin> insert (cellno f) (header_cells H)" using that(1) by (simp add: reserved_def header_cells_iff)
    then show ?thesis using fs(2) by (simp add: slab_step_def)
  qed
  moreover have "mem ?t b = mem s b" if o: "(j, e) \<in> objects H V - {(i, f)}" "inside j e b" for j e b
    using same [OF object_not_reserved(1) [OF k(4) _ o(2)]] objects_disjoint [OF k(4) _ assms(3) o(2)] o(1) by blast
  moreover have "mem ?t b = mem s b" if far: "\<forall>g\<in>H. pageno b \<noteq> pageno (v_page (V g))" for b
    using same [of b] reserved_page [OF k(4), of b] object_not_reserved(2) [OF k(4) assms(3), of b] far by blast
  ultimately show ?thesis
    by (intro exI [of _ "?t\<lparr>kvmalloc_lock := 0\<rparr>"] exI [of _ "V(h := released f (V h))"]) simp
qed

theorem kvmfree_live_object_witness:
  "\<exists>f s u H V V'. kvmalloc 7 100 demo_slabs = Ret (f, s) \<and> objects H V = {(3, f)} \<and> kvmfree f s = Ret u \<and> objects H V' = {}"
proof -
  obtain f s H V L where r: "kvmalloc 7 100 demo_slabs = Ret (f, s)" "slab_ok s H V L (pool 1 2)" "kvmalloc_lock s = 0"
    "objects H V = {(3, f)}" using demo_slabs_object [of 7] by blast
  have "(3, f) \<in> objects H V" using r(4) by simp
  from kvmfree_live_object [OF r(2,3) this] r(1,4) show ?thesis by auto
qed

section \<open>Large sizes\<close>

lemma unat_push_4096: "k \<le> 51 \<Longrightarrow> unat (push_bit k 4096 :: u64) = 4096 * 2 ^ k"
proof -
  assume "k \<le> 51"
  then have "(2 :: nat) ^ k \<le> 2 ^ 51" by (intro power_increasing) simp_all
  then have "4096 * (2 :: nat) ^ k < 2 ^ LENGTH(64)" by simp
  then have "unat (of_nat (4096 * 2 ^ k) :: u64) = 4096 * 2 ^ k" by (subst unat_of_nat) (rule mod_less)
  moreover have "push_bit k 4096 = (of_nat (4096 * 2 ^ k) :: u64)" by (simp add: push_bit_eq_mult mult.commute)
  ultimately show ?thesis by (simp only:)
qed

lemma size_order_ok:
  "k \<le> 51 \<Longrightarrow> unat sz \<le> 2 ^ 63 \<Longrightarrow> k = 0 \<or> 4096 * 2 ^ (k - 1) < unat sz \<Longrightarrow>
   \<exists>ord\<le>51. size_order (64 - k) k sz = Ret ord \<and> unat sz \<le> 4096 * 2 ^ ord \<and> (ord = 0 \<or> 4096 * 2 ^ (ord - 1) < unat sz)"
proof (induction "51 - k" arbitrary: k)
  case 0
  then have k: "k = 51" by simp
  have "\<not> push_bit k 4096 < sz" using unat_push_4096 [of k] 0(3) k by (simp add: word_less_nat_alt)
  then have "size_order (Suc 12) k sz = Ret k" by (simp only: size_order.simps if_False)
  moreover have "64 - k = Suc 12" using k by simp
  ultimately have "size_order (64 - k) k sz = Ret k" by (simp only:)
  then show ?case using 0(3,4) k by (intro exI [of _ k]) simp
next
  case (Suc d)
  obtain m where m: "64 - k = Suc m" "64 - Suc k = m" using Suc.prems(1) by (cases "64 - k") auto
  have lt: "push_bit k 4096 < sz \<longleftrightarrow> 4096 * 2 ^ k < unat sz"
    using unat_push_4096 [OF Suc.prems(1)] by (simp add: word_less_nat_alt)
  show ?case
  proof (cases "4096 * 2 ^ k < unat sz")
    case True
    then show ?thesis using Suc.hyps(1) [of "Suc k"] Suc.hyps(2) Suc.prems(2) m lt by simp
  next
    case False
    then show ?thesis using Suc.prems m lt by (intro exI [of _ k]) simp
  qed
qed

lemma size_order_hang: "2 ^ 63 < unat sz \<Longrightarrow> size_order n k sz = Hang"
proof (induction n arbitrary: k)
  case (Suc n)
  have "push_bit k (4096 :: u64) < sz"
  proof (cases "k \<le> 51")
    case True
    then have "(2 :: nat) ^ k \<le> 2 ^ 51" by (intro power_increasing) simp_all
    then show ?thesis using unat_push_4096 [OF True] Suc.prems by (simp add: word_less_nat_alt)
  next
    case False
    have "(4096 :: u64) = push_bit 12 1" by simp
    then have "push_bit k (4096 :: u64) = push_bit (k + 12) 1" by (simp only: push_bit_push_bit)
    also have "\<dots> = 0" using False by (intro bit_word_eqI) (simp add: bit_exp_iff)
    finally have "push_bit k (4096 :: u64) = 0" .
    moreover have "sz \<noteq> 0" using Suc.prems by auto
    ultimately show ?thesis by (simp add: word_gt_0)
  qed
  then show ?case using Suc by simp
qed simp

lemma kvmalloc_pages_eq:
  assumes "kvmalloc_lock s = 0" "2048 < unat sz"
  shows "kvmalloc ca sz s = bindO (size_order 64 0 sz) (\<lambda>ord. bindO (kalloc ord ca (s\<lparr>kvmalloc_lock := 1\<rparr>))
      (\<lambda>(slot, t). Ret (slot, t\<lparr>kvmalloc_lock := 0\<rparr>)))"
proof -
  have "sz \<noteq> 0" "\<not> sz \<le> 2048" using assms(2) by (auto simp: word_le_nat_alt)
  then show ?thesis using assms(1) by (simp add: kvmalloc_def spinlock_acquire_def spinlock_release_def bindO_assoc)
qed

lemma kvmalloc_pages:
  assumes ok: "slab_ok s H V L U" and lk: "kvmalloc_lock s = 0" and sz: "2048 < unat sz" "unat sz \<le> 2 ^ 23"
  shows "kvmalloc ca sz s = Panic 101 0 \<or>
    (\<exists>j ord t. kvmalloc ca sz s = Ret (page_addr s j, t) \<and> unat sz \<le> 4096 * 2 ^ ord \<and>
       (ord = 0 \<or> 4096 * 2 ^ (ord - 1) < unat sz) \<and> (j, ord) \<notin> L \<and>
       slab_ok t H V (insert (j, ord) L) U \<and> kvmalloc_lock t = 0 \<and> mem t = mem s)"
proof -
  let ?s = "s\<lparr>kvmalloc_lock := 1\<rparr>"
  have ok1: "slab_ok ?s H V L U" using ok by simp
  have addr: "page_addr ?s = page_addr s" by (rule ext) (simp add: page_addr_def)
  note run = kvmalloc_pages_eq [OF lk sz(1)]
  have le: "unat sz \<le> 2 ^ 63" using sz(2) by simp
  obtain ord where o: "size_order 64 0 sz = Ret ord" "unat sz \<le> 4096 * 2 ^ ord" "ord = 0 \<or> 4096 * 2 ^ (ord - 1) < unat sz"
    using size_order_ok [OF _ le, of 0] by auto
  have "ord < 12"
  proof (rule ccontr)
    assume n: "\<not> ord < 12"
    then have "(2 :: nat) ^ 11 \<le> 2 ^ (ord - 1)" by (intro power_increasing) simp_all
    then show False using o(3) sz(2) n by auto
  qed
  from kalloc_heap_ok [OF slab_okD(1) [OF ok1] this, of ca] show ?thesis
  proof (elim disjE exE conjE)
    fix j t assume a: "kalloc ord ca ?s = Ret (page_addr ?s j, t)" "(j, ord) \<notin> L" "heap_ok t (insert (j, ord) L) U" "same_ram ?s t"
    have "slab_ok (t\<lparr>kvmalloc_lock := 0\<rparr>) H V (insert (j, ord) L) U" using slab_ok_kalloc [OF ok1 a(3,4)] by simp
    moreover have "kvmalloc ca sz s = Ret (page_addr s j, t\<lparr>kvmalloc_lock := 0\<rparr>)" using run o(1) a(1) addr by simp
    moreover have "mem (t\<lparr>kvmalloc_lock := 0\<rparr>) = mem s" using same_ram_slabs(1) [OF a(4)] by simp
    moreover have "kvmalloc_lock (t\<lparr>kvmalloc_lock := 0\<rparr>) = 0" by simp
    ultimately show ?thesis using o(2,3) a(2) by blast
  qed (use run o(1) in simp)
qed

lemma kvmalloc_too_large:
  assumes ok: "slab_ok s H V L U" and lk: "kvmalloc_lock s = 0" and sz: "2 ^ 23 < unat sz" "unat sz \<le> 2 ^ 63"
  shows "\<exists>ord\<ge>12. kvmalloc ca sz s = Panic 100 (of_nat ord)"
proof -
  obtain ord where o: "size_order 64 0 sz = Ret ord" "unat sz \<le> 4096 * 2 ^ ord" using size_order_ok [OF _ sz(2), of 0] by auto
  have ge: "12 \<le> ord"
  proof (rule ccontr)
    assume "\<not> 12 \<le> ord"
    then have "(2 :: nat) ^ ord \<le> 2 ^ 11" by (intro power_increasing) simp_all
    then show False using o(2) sz(1) by simp
  qed
  have "kalloc_lock (s\<lparr>kvmalloc_lock := 1\<rparr>) = 0" using slab_okD(1) [OF ok] by (simp add: heap_ok_def)
  then have "kalloc ord ca (s\<lparr>kvmalloc_lock := 1\<rparr>) = Panic 100 (of_nat ord)" using ge by (simp add: kalloc_def spinlock_acquire_def)
  then show ?thesis using kvmalloc_pages_eq [OF lk] sz(1) o(1) ge by auto
qed

text \<open>
  C12. What \<open>kvmalloc\<close> does with the sizes that no cache serves: nothing for size 0, a block of the smallest order
  that holds the size, straight from the page allocator and with the slabs left alone, up to 8 MiB, panic 100 with
  that order above, and an endless loop for sizes above \<open>2 ^ 63\<close>, which no shift of 4096 reaches.
\<close>

theorem kvmalloc_sizes:
  assumes "slab_ok s H V L U" and "kvmalloc_lock s = 0"
  shows "kvmalloc ca 0 s = Ret (0, s) \<and>
    (2048 < unat sz \<longrightarrow> unat sz \<le> 2 ^ 23 \<longrightarrow> kvmalloc ca sz s = Panic 101 0 \<or>
      (\<exists>j ord t. kvmalloc ca sz s = Ret (page_addr s j, t) \<and> unat sz \<le> 4096 * 2 ^ ord \<and>
         (ord = 0 \<or> 4096 * 2 ^ (ord - 1) < unat sz) \<and> (j, ord) \<notin> L \<and>
         slab_ok t H V (insert (j, ord) L) U \<and> kvmalloc_lock t = 0 \<and> mem t = mem s)) \<and>
    (2 ^ 23 < unat sz \<longrightarrow> unat sz \<le> 2 ^ 63 \<longrightarrow> (\<exists>ord\<ge>12. kvmalloc ca sz s = Panic 100 (of_nat ord))) \<and>
    (2 ^ 63 < unat sz \<longrightarrow> kvmalloc ca sz s = Hang)"
proof (intro conjI impI)
  show "kvmalloc ca 0 s = Ret (0, s)"
    using assms(2) by (simp add: kvmalloc_def spinlock_acquire_def spinlock_release_def)
  show "kvmalloc ca sz s = Hang" if sz: "2 ^ 63 < unat sz"
    using kvmalloc_pages_eq [OF assms(2)] size_order_hang [OF sz] sz by simp
qed (use kvmalloc_pages [OF assms] kvmalloc_too_large [OF assms] in blast)+

theorem kvmalloc_sizes_witness:
  "kvmalloc 7 0 demo_slabs = Ret (0, demo_slabs) \<and> (\<exists>ord\<ge>12. kvmalloc 7 0x1000000 demo_slabs = Panic 100 (of_nat ord)) \<and>
   kvmalloc 7 0xFFFFFFFFFFFFFFFF demo_slabs = Hang"
proof -
  note w = kvmalloc_sizes [OF demo_slabs_ok(1) [of "\<lambda>_. undefined"] demo_slabs_ok(2), where ca = 7]
  show ?thesis using w [where sz = "0x1000000"] w [where sz = "0xFFFFFFFFFFFFFFFF"] by simp
qed

end
