(* ===== verification/LifeOk.thy ===== *)
theory LifeOk
  imports SchedMove Lifecycle
begin

text \<open>
  Lemmas on the life cycle: giving up children, the searches of the zombie list, and the
  registry of process ids.
\<close>

section \<open>Giving up children\<close>

text \<open>Of the processes \<open>A\<close>, those with parent \<open>n\<close> are given to the idle process.\<close>

definition reparent :: "u64 set \<Rightarrow> u64 \<Rightarrow> kstate \<Rightarrow> kstate" where
  "reparent A n s = s\<lparr>procs := (\<lambda>q. if q \<in> A \<and> parent_pid (procs s q) = n
     then (procs s q)\<lparr>parent_pid := 0\<rparr> else procs s q)\<rparr>"

lemma reparent_fields [simp]:
  "rqs (reparent A n s) = rqs s" "lists (reparent A n s) = lists s" "tp (reparent A n s) = tp s"
  "locks (reparent A n s) = locks s" "curr (reparent A n s) = curr s" "nxp (reparent A n s) = nxp s"
  "pvp (reparent A n s) = pvp s" "pid (procs (reparent A n s) p) = pid (procs s p)"
  "closet_rq (reparent A n s) = closet_rq s" "hart (reparent A n s) = hart s"
  by (simp_all add: reparent_def curr_def nxp_def pvp_def fun_eq_iff)

lemma reparent_Un: "reparent A n (reparent B n s) = reparent (B \<union> A) n s"
proof -
  have "(procs (reparent A n (reparent B n s))) q = procs (reparent (B \<union> A) n s) q" for q
    by (auto simp: reparent_def)
  then have "procs (reparent A n (reparent B n s)) = procs (reparent (B \<union> A) n s)" by (rule ext)
  then show ?thesis by (simp add: reparent_def)
qed

lemma reparent_empty [simp]: "reparent {} n s = s"
  by (simp add: reparent_def)

lemma reparent_locks: "(reparent A n s)\<lparr>locks := X\<rparr> = reparent A n (s\<lparr>locks := X\<rparr>)"
  by (simp add: reparent_def cong: if_cong)

lemma orphan_eq: "orphan p s = reparent {p} (pid (procs s (curr s))) s"
proof -
  have "procs (orphan p s) q = procs (reparent {p} (pid (procs s (curr s))) s) q" for q
    by (auto simp: orphan_def reparent_def upd_proc_def)
  then have "procs (orphan p s) = procs (reparent {p} (pid (procs s (curr s))) s)" by (rule ext)
  then show ?thesis by (simp add: orphan_def reparent_def upd_proc_def)
qed

lemma placed_reparent: "placed (reparent A n s) Q L = placed s Q L"
proof -
  have "linked (reparent A n s) x xs = linked s x xs" for x xs by (cases x) simp_all
  moreover have "fits (reparent A n s) x p = fits s x p" for x p
    by (cases x) (simp_all add: fits.simps reparent_def)
  ultimately show ?thesis by (simp add: placed_def)
qed

lemma each_circle_orphan:
  assumes "circ (nxp s) (pvp s) (as @ p # bs)" and "length (p # bs) \<le> k" and "n = pid (procs s (curr s))"
  shows "each_circle k orphan (hd (as @ p # bs)) p s = Ret (reparent (set (p # bs)) n s)"
  using assms
proof (induction bs arbitrary: as p k s)
  case Nil
  then obtain m where k: "k = Suc m" by (cases k) auto
  have "nxp s p = hd (as @ [p])" using circ_fields(1) [OF Nil(1)] by simp
  then show ?case using Nil(3) by (simp add: k orphan_eq Let_def proc_links)
next
  case (Cons b bs)
  then obtain m where k: "k = Suc m" "length (b # bs) \<le> m" by (cases k) auto
  have nx: "nxp s p = b" using circ_fields(1) [OF Cons.prems(1)] by simp
  have "distinct (as @ p # b # bs)" using Cons.prems(1) by (simp add: circ_def)
  then have ne: "b \<noteq> hd (as @ p # b # bs)" by (cases as) auto
  have "each_circle m orphan (hd ((as @ [p]) @ b # bs)) b (reparent {p} n s) =
      Ret (reparent (set (b # bs)) n (reparent {p} n s))"
    by (rule Cons.IH) (use Cons.prems k in simp_all)
  then show ?case using Cons.prems(3) nx ne
    by (simp add: k orphan_eq [of p] Let_def proc_links reparent_Un insert_commute)
qed

lemma each_list_orphan:
  assumes "dpath (nxp s) (pvp s) v h xs 0" and "0 \<notin> set xs" and "length xs \<le> k"
    and "n = pid (procs s (curr s))"
  shows "each_list k (\<lambda>p s. Ret (orphan p s)) h s = Ret (reparent (set xs) n s)"
  using assms
proof (induction xs arbitrary: v h k s)
  case Nil
  then show ?case by (cases k) simp_all
next
  case (Cons x xs)
  then obtain m where k: "k = Suc m" "length xs \<le> m" by (cases k) auto
  have h: "h = x" "x \<noteq> 0" "dpath (nxp s) (pvp s) x (nxp s x) xs 0" using Cons.prems by auto
  have "each_list m (\<lambda>p s. Ret (orphan p s)) (nxp s x) (reparent {x} n s) =
      Ret (reparent (set xs) n (reparent {x} n s))"
    by (rule Cons.IH) (use Cons.prems h k in simp_all)
  then show ?case using Cons.prems(4) h k by (simp add: orphan_eq Let_def proc_links reparent_Un)
qed

text \<open>Under a lock that is free before and after.\<close>

abbreviation (input) holding :: "lockid \<Rightarrow> kstate \<Rightarrow> kstate" where
  "holding l s \<equiv> s\<lparr>locks := (\<lambda>_. 0)(l := 1)\<rparr>"

lemma acquire_reparent: "calm s \<Longrightarrow> acquire l (reparent A n s) = Ret (reparent A n (holding l s))"
  by (simp add: acquire_free calm_def reparent_locks)

lemma release_reparent: "calm s \<Longrightarrow> release l (reparent A n (holding l s)) = reparent A n s"
proof -
  have z: "(\<lambda>_. 0 :: u64)(l := 0) = (\<lambda>_. 0)" by (rule ext) simp
  show "calm s \<Longrightarrow> release l (reparent A n (holding l s)) = reparent A n s"
    by (cases s) (simp add: release_def reparent_def calm_def spinlock_release_def z cong: if_cong)
qed

lemma holding_fields:
  "curr (holding l s) = curr s" "nxp (holding l s) = nxp s" "pvp (holding l s) = pvp s"
  by (simp_all add: curr_def nxp_def pvp_def)

lemma orphan_list_ok:
  assumes "calm s" and "linked s (OnList w) xs" and "length xs \<le> walk_fuel" and "n = pid (procs s (curr s))"
  shows "orphan_list w (reparent A n s) = Ret (reparent (A \<union> set xs) n s)"
proof -
  let ?s = "holding (ListLock w) s"
  have "dpath (nxp s) (pvp s) 0 (lists s w) xs 0" "0 \<notin> set xs" using assms(2) by (simp_all add: dlist_def)
  then have "each_list walk_fuel (\<lambda>p s. Ret (orphan p s)) (lists s w) (reparent A n ?s) =
      Ret (reparent (set xs) n (reparent A n ?s))"
    using assms(3,4) by (intro each_list_orphan) (simp_all add: holding_fields)
  then show ?thesis
    by (simp add: orphan_list_def acquire_reparent [OF assms(1)] release_reparent [OF assms(1)] reparent_Un)
qed

lemma forO_reparent:
  assumes "\<And>x A. x \<in> set xs \<Longrightarrow> body x (reparent A n s) = Ret (reparent (A \<union> B x) n s)"
  shows "forO xs body (reparent A n s) = Ret (reparent (A \<union> (\<Union>x\<in>set xs. B x)) n s)"
  using assms
proof (induction xs arbitrary: A)
  case (Cons x xs)
  then have "forO xs body (reparent (A \<union> B x) n s) = Ret (reparent ((A \<union> B x) \<union> (\<Union>x\<in>set xs. B x)) n s)" by simp
  then show ?case using Cons.prems [of x A] by (simp add: Un_assoc)
qed simp

text \<open>All processes on one run queue.\<close>

definition on_queue :: "layout_of \<Rightarrow> u64 \<Rightarrow> u64 set" where
  "on_queue L r = (\<Union>i\<in>{..<32}. set (L (OnQueue r i)))"

lemma orphan_circles_ok:
  assumes "calm s" and "placed s Q L" and "tp s \<in> Q" and "\<And>i. length (L (OnQueue (tp s) i)) \<le> walk_fuel"
    and "n = pid (procs s (curr s))"
  shows "orphan_circles j (reparent A n s) =
    Ret (reparent (A \<union> (if closet_rq s j = 0 then {} else on_queue L (tp s))) n s)"
proof (cases "closet_rq s j = 0")
  case False
  let ?l = "RqLock (closet_rq s j)"
  let ?s = "holding ?l s"
  define body where "body = (\<lambda>i s. if lookup_bitmap (rqs s (tp s)) AND shl1 i \<noteq> 0
    then each_circle walk_fuel orphan (circles (rqs s (tp s)) i) (circles (rqs s (tp s)) i) s else Ret s)"
  have step: "body i (reparent A n ?s) = Ret (reparent (A \<union> set (L (OnQueue (tp s) i))) n ?s)"
    if "i \<in> set [0..<32]" for i A
  proof -
    have i: "i < 32" using that by simp
    have l: "linked s (OnQueue (tp s) i) (L (OnQueue (tp s) i))" 
      by (rule placedD(1) [OF assms(2)]) (use assms(3) i in simp)
    show ?thesis
    proof (cases "L (OnQueue (tp s) i)")
      case Nil
      then show ?thesis using l i by (simp add: body_def shl1_test)
    next
      case (Cons p bs)
      have "each_circle walk_fuel orphan (hd ([] @ p # bs)) p (reparent A n ?s) =
          Ret (reparent (set (p # bs)) n (reparent A n ?s))"
        by (rule each_circle_orphan) (use l assms(4) [of i] Cons assms(5) in \<open>auto simp: holding_fields\<close>)
      then show ?thesis using l i Cons by (simp add: body_def shl1_test reparent_Un)
    qed
  qed
  have "forO [0..<32] body (reparent A n ?s) = Ret (reparent (A \<union> on_queue L (tp s)) n ?s)"
    using forO_reparent [of "[0..<32]" body n ?s, OF step] by (simp add: on_queue_def atLeast0LessThan)
  then show ?thesis
    using False by (simp add: orphan_circles_def acquire_reparent [OF assms(1)] release_reparent [OF assms(1)]
        flip: body_def)
qed (simp add: orphan_circles_def)

end
