(* ===== verification/PidSpec.thy ===== *)
theory PidSpec
  imports LifeOk
begin

text \<open>
  Process ids: the registry as a set of ids, its allocation and release, and what happens when
  the ids have all been handed out once.
\<close>

section \<open>The registry as a set\<close>

definition pid_cell :: "nat \<Rightarrow> kstate \<Rightarrow> u64" where
  "pid_cell n s = pid_registry s + 8 * of_nat (n div 64)"

definition pid_taken :: "nat \<Rightarrow> kstate \<Rightarrow> bool" where
  "pid_taken n s \<longleftrightarrow> bit (load s (pid_cell n s)) (n mod 64)"

lemma pid_index:
  assumes "n \<le> 32768"
  shows "registry_cell (pid_idx (of_nat n)) s = pid_cell n s" and "pid_offset (of_nat n) = n mod 64"
proof -
  have u: "unat (of_nat n :: u64) = n" using assms by (simp add: unat_of_nat)
  then have d: "(of_nat n :: u64) div 64 = of_nat (n div 64)"
    by (simp add: word_unat_eq_iff unat_div) (use assms in \<open>simp add: unat_of_nat\<close>)
  have "unat (of_nat (n div 64) :: u32) = n div 64" using assms by (simp add: unat_of_nat)
  then have "(ucast (ucast (of_nat (n div 64) :: u64) :: u32) :: u64) = of_nat (n div 64)"
    using assms by (simp add: word_unat_eq_iff unsigned_ucast_eq unsigned_take_bit_eq unat_of_nat take_bit_nat_eq_self)
  then show "registry_cell (pid_idx (of_nat n)) s = pid_cell n s"
    by (simp add: registry_cell_def pid_idx_def d pid_cell_def)
  show "pid_offset (of_nat n) = n mod 64" using u by (simp add: pid_offset_def unat_mod)
qed

lemma pid_used_iff: "n \<le> 32768 \<Longrightarrow> pid_used (pid_idx (of_nat n)) (pid_offset (of_nat n)) s = pid_taken n s"
  by (simp add: pid_used_def pid_index pid_taken_def shl1_test)

lemma pid_cells_apart:
  assumes "page_base (pid_registry s)" and "m \<le> 32768" and "n \<le> 32768" and "m div 64 \<noteq> n div 64"
    and "unat (pid_registry s) + 4104 \<le> 2 ^ 64"
  shows "apart (pid_cell m s) (pid_cell n s)"
proof -
  have u: "unat (pid_cell k s) = unat (pid_registry s) + 8 * (k div 64)" if "k \<le> 32768" for k
  proof -
    have "k div 64 \<le> 512" using that div_le_mono [of k 32768 64] by simp
    then show ?thesis using assms(5) by (simp add: pid_cell_def unat_word_ariths unat_of_nat)
  qed
  have b: "k div 64 \<le> 512" if "k \<le> 32768" for k :: nat using that div_le_mono [of k 32768 64] by simp
  show ?thesis
  proof (cases "m div 64 < n div 64")
    case True
    then show ?thesis using u assms b [of n] by (intro apart_nat) simp_all
  next
    case False
    then have "apart (pid_cell n s) (pid_cell m s)" using u assms b [of m] by (intro apart_nat) simp_all
    then show ?thesis by (simp add: apart_sym)
  qed
qed

text \<open>Writing one cell of the registry.\<close>

lemma pid_taken_store:
  assumes "page_base (pid_registry s)" and "unat (pid_registry s) + 4104 \<le> 2 ^ 64" and "k \<le> 32768" and "n \<le> 32768"
    and "mem t = st64 (pid_cell k s) v (mem s)" and "pid_registry t = pid_registry s"
  shows "pid_taken n t \<longleftrightarrow> (if n div 64 = k div 64 then bit v (n mod 64) else pid_taken n s)"
proof -
  have c: "pid_cell n t = pid_cell n s" using assms(6) by (simp add: pid_cell_def)
  show ?thesis
  proof (cases "n div 64 = k div 64")
    case True
    then have "pid_cell n s = pid_cell k s" by (simp add: pid_cell_def)
    then show ?thesis using True by (simp add: pid_taken_def c load_def assms(5))
  next
    case False
    then have "apart (pid_cell k s) (pid_cell n s)" using pid_cells_apart [OF assms(1,3,4) _ assms(2)] by auto
    then show ?thesis using False by (simp add: pid_taken_def c load_def assms(5))
  qed
qed

lemma same_pid: "n div 64 = k div 64 \<Longrightarrow> n mod 64 = k mod 64 \<longleftrightarrow> n = (k :: nat)"
  by (metis div_mult_mod_eq)

section \<open>Allocation\<close>

lemma pid_scan_ok:
  assumes "\<forall>n. m \<le> n \<and> n < k \<longrightarrow> pid_taken n s" and "\<not> pid_taken k s" and "m \<le> k" and "k < 32768" and "k - m \<le> fuel"
    and "next_pid s = of_nat m"
  shows "pid_scan fuel (pid_idx (of_nat m)) (pid_offset (of_nat m)) s =
    Ret (pid_idx (of_nat k), pid_offset (of_nat k), s\<lparr>next_pid := of_nat k\<rparr>)"
  using assms
proof (induction fuel arbitrary: m s)
  case 0
  then show ?case by (simp add: pid_used_iff)
next
  case (Suc fuel)
  show ?case
  proof (cases "m = k")
    case True
    then show ?thesis using Suc.prems by (simp add: pid_used_iff)
  next
    case False
    let ?s = "s\<lparr>next_pid := of_nat (Suc m)\<rparr>"
    have m: "m < k" "pid_taken m s" using False Suc.prems by simp_all
    have lt: "(of_nat (Suc m) :: u64) < 32768"
      using m Suc.prems(4) by (simp add: word_less_nat_alt unat_of_nat del: of_nat_Suc)
    have tk: "pid_taken n ?s = pid_taken n s" for n by (simp add: pid_taken_def pid_cell_def load_def)
    have "pid_scan fuel (pid_idx (of_nat (Suc m))) (pid_offset (of_nat (Suc m))) ?s =
        Ret (pid_idx (of_nat k), pid_offset (of_nat k), ?s\<lparr>next_pid := of_nat k\<rparr>)"
      by (rule Suc.IH) (use Suc.prems m in \<open>simp_all add: tk del: of_nat_Suc\<close>)
    moreover have "next_pid s + 1 = of_nat (Suc m)" using Suc.prems(6) by simp
    ultimately show ?thesis using m lt Suc.prems(4)
      by (simp add: pid_used_iff Let_def not_le [symmetric] del: of_nat_Suc)
  qed
qed

definition pid_new :: "nat \<Rightarrow> kstate \<Rightarrow> kstate" where
  "pid_new k s = s\<lparr>mem := st64 (pid_cell k s) (load s (pid_cell k s) OR shl1 (k mod 64)) (mem s),
     alive_thread_counter := alive_thread_counter s + 1, next_pid := of_nat (Suc k)\<rparr>"

lemma take_pid_ok:
  assumes "locks s AliveLock = 0" and "k \<le> 32768" and "next_pid s = p" and "p + 1 = of_nat (Suc j)"
  shows "take_pid (pid_idx (of_nat k)) (pid_offset (of_nat k)) s = Ret (p, (pid_new k s)\<lparr>next_pid := of_nat (Suc j)\<rparr>)"
proof -
  have "locks s = (locks s)(AliveLock := 0)" using assms(1) by (auto simp: fun_eq_iff)
  then have "s\<lparr>locks := (locks s)(AliveLock := 0)\<rparr> = s" by simp
  then show ?thesis using assms
    by (cases s) (simp add: take_pid_def acquire_free store_def load_def pid_index release_def spinlock_release_def
        pid_new_def pid_cell_def fun_upd_idem)
qed

lemma holding_pid:
  "pid_taken n (holding l s) = pid_taken n s"
  "pid_taken n (s\<lparr>next_pid := q\<rparr>) = pid_taken n s"
  by (simp_all add: pid_taken_def pid_cell_def load_def)

lemma release_pid: "calm s \<Longrightarrow> release l ((pid_new k (holding l s))\<lparr>next_pid := q\<rparr>) = (pid_new k s)\<lparr>next_pid := q\<rparr>"
proof -
  have z: "(\<lambda>_. 0 :: u64)(l := 0) = (\<lambda>_. 0)" by (rule ext) simp
  show "calm s \<Longrightarrow> release l ((pid_new k (holding l s))\<lparr>next_pid := q\<rparr>) = (pid_new k s)\<lparr>next_pid := q\<rparr>"
    by (cases s) (simp add: release_def pid_new_def calm_def spinlock_release_def pid_cell_def load_def z)
qed

lemma pid_new_next [simp]: "(pid_new k s)\<lparr>next_pid := of_nat (Suc k)\<rparr> = pid_new k s"
  by (simp add: pid_new_def)

lemma pid_new_from [simp]: "pid_new k (s\<lparr>next_pid := q\<rparr>) = pid_new k s"
  by (simp add: pid_new_def load_def pid_cell_def)

lemma alloc_pid_ok:
  assumes "calm s" and "next_pid s = of_nat m" and "m \<le> k" and "k < 32768"
    and "\<forall>n. m \<le> n \<and> n < k \<longrightarrow> pid_taken n s" and "\<not> pid_taken k s"
  shows "alloc_pid s = Ret (of_nat k, pid_new k s)"
proof -
  let ?s = "holding PidLock s"
  have a: "acquire PidLock s = Ret ?s" using assms(1) by (simp add: acquire_free calm_def)
  have m: "(of_nat m :: u64) < 32768" using assms(3,4) by (simp add: word_less_nat_alt unat_of_nat)
  have used: "pid_used (pid_idx (of_nat m)) (pid_offset (of_nat m)) ?s = pid_taken m s"
    using assms(3,4) by (simp add: pid_used_iff holding_pid)
  have take: "take_pid (pid_idx (of_nat k)) (pid_offset (of_nat k)) (?s\<lparr>next_pid := of_nat k\<rparr>) = Ret (of_nat k, pid_new k ?s)"
    using take_pid_ok [of "?s\<lparr>next_pid := of_nat k\<rparr>" k "of_nat k" k] assms(4) by (simp del: of_nat_Suc) simp
  have rel: "release PidLock (pid_new k ?s) = pid_new k s"
    using release_pid [OF assms(1), where l = PidLock and k = k and q = "of_nat (Suc k)"] by (simp del: of_nat_Suc)
  show ?thesis
  proof (cases "m = k")
    case True
    then have e: "?s\<lparr>next_pid := of_nat k\<rparr> = ?s" using assms(2) by simp
    show ?thesis using True assms(2,6) a m used take [unfolded e] rel by (simp add: alloc_pid_def Let_def)
  next
    case False
    then have "pid_taken m s" using assms(3,5) by simp
    moreover have "pid_scan pid_fuel (pid_idx (of_nat m)) (pid_offset (of_nat m)) ?s =
        Ret (pid_idx (of_nat k), pid_offset (of_nat k), ?s\<lparr>next_pid := of_nat k\<rparr>)"
      by (rule pid_scan_ok) (use assms in \<open>simp_all add: holding_pid pid_fuel_def\<close>)
    ultimately show ?thesis using assms(2) a m used take rel by (simp add: alloc_pid_def Let_def not_le [symmetric])
  qed
qed

text \<open>Where the registry is: a page, and eight bytes after it, inside the address space.\<close>

definition registry_ok :: "kstate \<Rightarrow> bool" where
  "registry_ok s \<longleftrightarrow> page_base (pid_registry s) \<and> unat (pid_registry s) + 4104 \<le> 2 ^ 64"

lemma pid_new_taken:
  assumes "registry_ok s" and "k \<le> 32768" and "n \<le> 32768"
  shows "pid_taken n ((pid_new k s)\<lparr>next_pid := q\<rparr>) \<longleftrightarrow> pid_taken n s \<or> n = k"
proof -
  have "pid_taken n ((pid_new k s)\<lparr>next_pid := q\<rparr>) \<longleftrightarrow> (if n div 64 = k div 64
      then bit (load s (pid_cell k s) OR shl1 (k mod 64)) (n mod 64) else pid_taken n s)"
    by (rule pid_taken_store) (use assms in \<open>simp_all add: registry_ok_def pid_new_def\<close>)
  moreover have "n div 64 = k div 64 \<Longrightarrow> pid_cell n s = pid_cell k s" by (simp add: pid_cell_def)
  ultimately show ?thesis using same_pid [of n k] by (auto simp: bit_or_iff bit_shl1 pid_taken_def)
qed

section \<open>Properties\<close>

text \<open>
  C35. Allocating an id from a registry with a free id at or above \<open>next_pid\<close>: the result is the
  least such id, exactly its bit is set, the next search starts after it, the count of
  processes goes up by one, and memory outside the one cell of the registry is untouched.
\<close>

theorem alloc_pid_least:
  assumes "calm s" and "registry_ok s" and "next_pid s = of_nat m" and "m \<le> k" and "k < 32768"
    and "\<forall>n. m \<le> n \<and> n < k \<longrightarrow> pid_taken n s" and "\<not> pid_taken k s"
  shows "\<exists>t. alloc_pid s = Ret (of_nat k, t) \<and> calm t \<and>
    (\<forall>n<32768. pid_taken n t \<longleftrightarrow> pid_taken n s \<or> n = k) \<and> next_pid t = of_nat (k + 1) \<and>
    alive_thread_counter t = alive_thread_counter s + 1 \<and>
    (\<forall>a. 8 \<le> a - (pid_registry s + 8 * of_nat (k div 64)) \<longrightarrow> mem t a = mem s a)"
proof (intro exI conjI)
  show "alloc_pid s = Ret (of_nat k, pid_new k s)" by (rule alloc_pid_ok [OF assms(1,3-7)])
  show "calm (pid_new k s)" using assms(1) by (simp add: calm_def pid_new_def)
  show "\<forall>n<32768. pid_taken n (pid_new k s) \<longleftrightarrow> pid_taken n s \<or> n = k"
    using pid_new_taken [OF assms(2), where k = k and q = "of_nat (Suc k)"] assms(5) by (simp del: of_nat_Suc)
  show "\<forall>a. 8 \<le> a - (pid_registry s + 8 * of_nat (k div 64)) \<longrightarrow> mem (pid_new k s) a = mem s a"
    by (auto simp: pid_new_def pid_cell_def st64_def)
qed (simp_all add: pid_new_def)

text \<open>A registry at 1 MiB in which the ids 0 to 5 are taken.\<close>

definition demo_registry :: "kstate \<Rightarrow> kstate" where
  "demo_registry s = s\<lparr>mem := st64 0x100000 0x3F (\<lambda>_. 0), pid_registry := 0x100000, next_pid := 4,
     locks := (\<lambda>_. 0)\<rparr>"

lemma demo_registry_ok: "calm (demo_registry s)" "registry_ok (demo_registry s)" "next_pid (demo_registry s) = of_nat 4"
  by (simp_all add: demo_registry_def calm_def registry_ok_def page_base_def)

lemma demo_registry_taken: "n < 64 \<Longrightarrow> pid_taken n (demo_registry s) \<longleftrightarrow> n < 6"
proof -
  assume n: "n < 64"
  have "(0x3F :: u64) = mask 6" by (simp add: mask_eq_exp_minus_1)
  then have "bit (0x3F :: u64) n \<longleftrightarrow> n < 6" using n by (simp only: bit_mask_iff) auto
  then show "pid_taken n (demo_registry s) \<longleftrightarrow> n < 6"
    using n by (simp only: pid_taken_def pid_cell_def demo_registry_def load_def) simp
qed

theorem alloc_pid_least_witness:
  "\<forall>s. \<exists>t. alloc_pid (demo_registry s) = Ret (6, t) \<and> next_pid t = 7 \<and> pid_taken 6 t"
proof
  fix s
  show "\<exists>t. alloc_pid (demo_registry s) = Ret (6, t) \<and> next_pid t = 7 \<and> pid_taken 6 t"
    using alloc_pid_least [OF demo_registry_ok, of 6 s] by (auto simp: demo_registry_taken)
qed

text \<open>
  C37. Releasing the id that was just allocated gives the registry back as it was: an id is
  taken afterwards exactly when it was before.
\<close>

theorem pid_roundtrip:
  assumes "calm s" and "registry_ok s" and "next_pid s = of_nat m" and "m \<le> k" and "k < 32768"
    and "\<forall>n. m \<le> n \<and> n < k \<longrightarrow> pid_taken n s" and "\<not> pid_taken k s"
  shows "\<exists>t u. alloc_pid s = Ret (of_nat k, t) \<and> free_pid (of_nat k) t = Ret u \<and>
    (\<forall>n<32768. pid_taken n u = pid_taken n s)"
proof -
  let ?t = "pid_new k s" and ?v = "load (pid_new k s) (pid_cell k s) AND NOT (shl1 (k mod 64))"
  define u where "u = release PidLock (store (pid_cell k s) ?v (holding PidLock ?t))"
  have c: "pid_cell k ?t = pid_cell k s" "pid_registry ?t = pid_registry s" "locks ?t = locks s"
    by (simp_all add: pid_new_def pid_cell_def)
  have "free_pid (of_nat k) ?t = Ret u"
    using assms(1,5) pid_index(1) [of k "holding PidLock ?t"] c
    by (simp add: free_pid_def Let_def acquire_free calm_def pid_index(2) u_def load_def)
      (simp add: pid_cell_def)
  moreover have "pid_taken n u = pid_taken n s" if n: "n < 32768" for n
  proof -
    have "pid_taken n u \<longleftrightarrow> (if n div 64 = k div 64 then bit ?v (n mod 64) else pid_taken n ?t)"
      by (rule pid_taken_store) (use assms(2,5) n c in \<open>simp_all add: registry_ok_def u_def store_def release_def\<close>)
    moreover have "n div 64 = k div 64 \<Longrightarrow> bit (load ?t (pid_cell k s)) (n mod 64) = pid_taken n ?t"
      by (simp add: pid_taken_def pid_cell_def pid_new_def)
    moreover have "pid_taken n ?t \<longleftrightarrow> pid_taken n s \<or> n = k"
      using pid_new_taken [OF assms(2), where k = k and n = n and q = "of_nat (Suc k)"] assms(5) n by (simp del: of_nat_Suc)
    ultimately show ?thesis using same_pid [of n k] assms(7)
      by (auto simp: bit_and_iff bit_not_iff bit_shl1)
  qed
  ultimately show ?thesis using alloc_pid_ok [OF assms(1,3-7)] by blast
qed

theorem pid_roundtrip_witness:
  "\<forall>s. \<exists>t u. alloc_pid (demo_registry s) = Ret (6, t) \<and> free_pid 6 t = Ret u \<and> \<not> pid_taken 6 u"
proof
  fix s
  show "\<exists>t u. alloc_pid (demo_registry s) = Ret (6, t) \<and> free_pid 6 t = Ret u \<and> \<not> pid_taken 6 u"
    using pid_roundtrip [OF demo_registry_ok, of 6 s] by (auto simp: demo_registry_taken)
qed

text \<open>
  When \<open>next_pid\<close> has reached the end, it restarts at 1 but the bit that is looked at and
  set is still the one after the last id, in the page after the registry: if that bit is
  clear, id 1 is handed out whether or not a process has it, and no id is recorded as taken.
\<close>

theorem alloc_pid_wraps:
  assumes "calm s" and "registry_ok s" and "next_pid s = 32768" and "\<not> pid_taken 32768 s"
  shows "\<exists>t. alloc_pid s = Ret (1, t) \<and> (\<forall>n<32768. pid_taken n t = pid_taken n s) \<and>
    bit (load t (pid_registry s + 4096)) 0"
proof -
  let ?s = "holding PidLock s" and ?n = "of_nat 32768 :: u64"
  let ?t = "(pid_new 32768 s)\<lparr>next_pid := 2\<rparr>"
  have a: "acquire PidLock s = Ret ?s" using assms(1) by (simp add: acquire_free calm_def)
  have n: "(32768 :: u64) = of_nat 32768" by simp
  have used: "\<not> pid_used (pid_idx ?n) (pid_offset ?n) (?s\<lparr>next_pid := 1\<rparr>)"
    using assms(4) pid_used_iff [of 32768 "?s\<lparr>next_pid := 1\<rparr>"] by (simp add: holding_pid)
  have scan: "pid_scan pid_fuel (pid_idx ?n) (pid_offset ?n) (?s\<lparr>next_pid := 1\<rparr>) =
      Ret (pid_idx ?n, pid_offset ?n, ?s\<lparr>next_pid := 1\<rparr>)"
    using used unfolding pid_fuel_def by (subst pid_scan.simps(2) [of 65535, simplified]) simp
  have take: "take_pid (pid_idx ?n) (pid_offset ?n) (?s\<lparr>next_pid := 1\<rparr>) = Ret (1, (pid_new 32768 ?s)\<lparr>next_pid := 2\<rparr>)"
    using take_pid_ok [of "?s\<lparr>next_pid := 1\<rparr>" 32768 1 1] by simp
  have "alloc_pid s = Ret (1, ?t)"
    using assms(3) a scan take release_pid [OF assms(1), where l = PidLock and k = 32768 and q = 2]
    by (simp add: alloc_pid_def Let_def n del: of_nat_numeral)
  moreover have "\<forall>n<32768. pid_taken n ?t = pid_taken n s"
    using pid_new_taken [OF assms(2), where k = 32768 and q = 2] by simp
  moreover have "bit (load ?t (pid_registry s + 4096)) 0"
    using pid_new_taken [OF assms(2), where k = 32768 and n = 32768 and q = 2]
    by (simp add: pid_taken_def pid_cell_def) (simp add: pid_new_def)
  ultimately show ?thesis by blast
qed

text \<open>The registry of the demo machine, with id 1 taken and all ids handed out.\<close>

theorem alloc_pid_wraps_witness:
  "\<forall>s. pid_taken 1 (demo_registry s) \<and>
     (\<exists>t. alloc_pid ((demo_registry s)\<lparr>next_pid := 32768\<rparr>) = Ret (1, t))"
proof
  fix s
  let ?s = "(demo_registry s)\<lparr>next_pid := 32768\<rparr>"
  have a: "apart 0x100000 (0x101000 :: u64)" by (simp add: apart_def)
  have "\<not> pid_taken 32768 ?s"
    using ld64_st64_apart [OF a, of "0x3F" "\<lambda>_. 0"]
    by (simp add: pid_taken_def pid_cell_def load_def demo_registry_def) (simp add: bit_ld64)
  moreover have "calm ?s" "registry_ok ?s" using demo_registry_ok by (simp_all add: calm_def registry_ok_def)
  ultimately show "pid_taken 1 (demo_registry s) \<and> (\<exists>t. alloc_pid ?s = Ret (1, t))"
    using alloc_pid_wraps [of ?s] by (auto simp: demo_registry_taken)
qed

end
