(* ===== verification/SpawnMem.thy ===== *)
theory SpawnMem
  imports ElfSpec SlabResult PidSpec
begin

text \<open>
  Memory while a process is spawned. The kernel keeps taking blocks and pages; the bytes somebody held before stay as they
  are. \<open>kept\<close> names those bytes, \<open>beside_grown\<close> the steps that respect them, and the lemmas say that every allocating
  step of \<open>spawn_process\<close> is one.
\<close>

section \<open>Bytes that are held\<close>

definition kept :: "(u64 \<times> nat) set \<Rightarrow> u64 set \<Rightarrow> 'a kmem_scheme \<Rightarrow> u64 \<Rightarrow> bool" where
  "kept B U s b \<longleftrightarrow> unat b \<notin> pool_range s U \<or> (\<exists>q\<in>B. unat b \<in> block_range s q)"

lemma kept_mono: "kept B U s b \<Longrightarrow> B \<subseteq> B' \<Longrightarrow> kept B' U s b"
  by (auto simp: kept_def)

lemma ram_addr: "ram_base t = ram_base s \<Longrightarrow> page_addr t = page_addr s \<and> block_range t = block_range s \<and>
    pool_range t = pool_range s \<and> kept B U t = kept B U s"
  by (auto simp: page_addr_def block_range_def pool_range_def kept_def fun_eq_iff)

lemma own_beside_kept: "own_beside B U s P \<Longrightarrow> kept B U s b \<Longrightarrow> page_down b \<notin> P"
  using own_beside_apart own_beside_outside unfolding kept_def by blast

lemma kept_new:
  assumes "own_beside (insert q B) U s P" "q \<notin> B" "kept B U s b"
  shows "unat b \<notin> block_range s q"
proof
  assume b: "unat b \<in> block_range s q"
  obtain L where L: "heap_ok s L U" "insert q B \<subseteq> L" using assms(1) by (auto simp: own_beside_def)
  have "unat b \<in> pool_range s U" using block_in_pool [OF L(1) _ b] L(2) by blast
  then obtain p where "p \<in> B" "unat b \<in> block_range s p" using assms(3) by (auto simp: kept_def)
  moreover have "p \<noteq> q" using assms(2) \<open>p \<in> B\<close> by blast
  then have "block_range s p \<inter> block_range s q = {}" using \<open>p \<in> B\<close> L by (intro block_range_disjoint [OF L(1)]) auto
  ultimately show False using b by blast
qed

definition beside_grown :: "u64 set \<Rightarrow> 'a vmem_scheme \<Rightarrow> (u64 \<times> nat) set \<Rightarrow> 'a vmem_scheme \<Rightarrow> (u64 \<times> nat) set \<Rightarrow> bool" where
  "beside_grown U s B t B' \<longleftrightarrow> ram_base t = ram_base s \<and> ram_size t = ram_size s \<and> root_table t = root_table s \<and>
     B \<subseteq> B' \<and> (\<forall>b. kept B U s b \<longrightarrow> mem t b = mem s b)"

lemma beside_grown_refl: "beside_grown U s B s B"
  by (simp add: beside_grown_def)

lemma beside_grown_trans: "beside_grown U s B t C \<Longrightarrow> beside_grown U t C u D \<Longrightarrow> beside_grown U s B u D"
  unfolding beside_grown_def using ram_addr [of t s] kept_mono [of B U s _ C] by auto

lemma beside_grown_kernel:
  "same_kernel s t \<Longrightarrow> B \<subseteq> B' \<Longrightarrow> (\<And>b. kept B U s b \<Longrightarrow> mem t b = mem s b) \<Longrightarrow> beside_grown U s B t B'"
  by (simp add: beside_grown_def same_kernel_def)

section \<open>The steps\<close>

text \<open>
  A step that may run out of memory: it panics in the way \<open>E\<close> allows, or returns something with property \<open>P\<close>.
\<close>

definition gives :: "(u64 \<Rightarrow> u64 \<Rightarrow> bool) \<Rightarrow> ('a \<Rightarrow> bool) \<Rightarrow> 'a outcome \<Rightarrow> bool" where
  "gives E P m \<longleftrightarrow> (\<exists>c x. m = Panic c x \<and> E c x) \<or> (\<exists>r. m = Ret r \<and> P r)"

lemma gives_Ret [simp]: "gives E P (Ret r) = P r"
  by (auto simp: gives_def)

lemma gives_bind: "gives E P m \<Longrightarrow> (\<And>r. P r \<Longrightarrow> gives E Q (k r)) \<Longrightarrow> gives E Q (bindO m k)"
  by (cases m) (auto simp: gives_def)

lemma gives_mono: "gives E P m \<Longrightarrow> (\<And>c x. E c x \<Longrightarrow> E' c x) \<Longrightarrow> (\<And>r. P r \<Longrightarrow> Q r) \<Longrightarrow> gives E' Q m"
  by (auto simp: gives_def)

lemma gives_from:
  assumes "gives F P m" and "\<And>c x. F c x \<Longrightarrow> E c x" and "\<And>r. P r \<Longrightarrow> gives E Q (k r)"
  shows "gives E Q (bindO m k)"
  by (rule gives_bind [OF gives_mono [OF assms(1)]]) (use assms(2,3) in auto)

lemma gives_pair:
  assumes "gives F (\<lambda>(a, t). R a t) m" and "\<And>c x. F c x \<Longrightarrow> E c x" and "\<And>a t. R a t \<Longrightarrow> gives E Q (k (a, t))"
  shows "gives E Q (bindO m k)"
proof (rule gives_bind [OF gives_mono [OF assms(1)]])
  show "gives E Q (k r)" if "case r of (a, t) \<Rightarrow> R a t" for r
    using that assms(3) by (cases r) simp
qed (use assms(2) in auto)

definition no_memory :: "u64 \<Rightarrow> u64 \<Rightarrow> bool" where
  "no_memory c x \<longleftrightarrow> c = 101 \<and> x = 0"

text \<open>A block of any order.\<close>

lemma kalloc_gives:
  assumes o: "own_beside B U (s :: 'a vmem_scheme) P" and "ord < MAX_ORDER"
  shows "gives no_memory (\<lambda>(a, t). \<exists>i. a = page_addr s i \<and> (i, ord) \<notin> B \<and> own_beside (insert (i, ord) B) U t P \<and>
    same_kernel s t \<and> mem t = mem s \<and> page_base a \<and> a \<noteq> 0 \<and> unat a + 4096 * 2 ^ ord \<le> 2 ^ 64) (kalloc ord ca s)"
proof -
  from own_beside_total [OF o assms(2), of ca] consider "kalloc ord ca s = Panic 101 0"
    | a t where "kalloc ord ca s = Ret (a, t)" by blast
  then show ?thesis
  proof cases
    case 1
    then show ?thesis by (simp add: gives_def no_memory_def)
  next
    case 2
    note k = own_beside_block [OF o 2]
    then have "outside_pages t = outside_pages s" using same_ram_addr [of s t] by blast
    then have "same_kernel s t" "mem t = mem s" by (simp_all add: outside_pages_kernel outside_pages_vmem)
    then show ?thesis using k 2 by (auto simp: gives_def)
  qed
qed

section \<open>The slabs\<close>

text \<open>Bytes that are held by somebody else than the slabs.\<close>

definition settled ::
  "u64 set \<Rightarrow> (u64 \<Rightarrow> slab_view) \<Rightarrow> (u64 \<times> nat) set \<Rightarrow> u64 set \<Rightarrow> 'a kmem_scheme \<Rightarrow> u64 \<Rightarrow> bool" where
  "settled H V L U s b \<longleftrightarrow> kept L U s b \<and> (\<forall>h\<in>H. pageno b \<noteq> pageno (v_page (V h)))"

lemma settled_cong: "ram_base t = ram_base s \<Longrightarrow> settled H V L U t = settled H V L U s"
  using ram_addr [of t s] by (simp add: settled_def fun_eq_iff)

lemma settled_lock [simp]: "settled H V L U (t\<lparr>kvmalloc_lock := l\<rparr>) = settled H V L U t"
  by (rule settled_cong) simp

lemma slab_page_block:
  assumes "slab_ok s H V L U" "h \<in> H" "pageno b = pageno (v_page (V h))" "v_page (V h) = page_addr s j"
  shows "unat b \<in> block_range s (j, 0)"
proof -
  have "page_base (page_addr s j)" using geometryD(2) [OF slab_okD(4) [OF assms(1)] assms(2)] assms(4) by simp
  then obtain x where x: "unat (page_addr s j) = 4096 * x" by (auto simp: page_base_def elim!: dvdE)
  have "unat b div 4096 = x" using assms(3,4) x by (simp add: pageno_def)
  then have "4096 * x \<le> unat b" "unat b < 4096 * x + 4096" by auto
  then show ?thesis using x by (simp add: block_range_def)
qed

lemma new_slab_far:
  assumes t: "slab_ok t H' V' L' U" and g: "grows s H V L i f t H' V' L'" and b: "kept L U s b" and q: "q \<in> H' - H"
  shows "pageno b \<noteq> pageno (v_page (V' q))"
proof
  assume e: "pageno b = pageno (v_page (V' q))"
  have rb: "ram_base t = ram_base s" using growsD(3) [OF g] by (simp add: rest_same_def)
  note a = ram_addr [OF rb] and h = slab_okD(1) [OF t]
  obtain j where j: "v_page (V' q) = page_addr s j" "(j, 0) \<in> L' - L" using growsD(7) [OF g q] by blast
  have "unat b \<in> block_range t (j, 0)" using slab_page_block [OF t _ e, of j] q j(1) a by simp
  moreover have "unat b \<in> pool_range t U" using block_in_pool [OF h _ calculation] j(2) by blast
  then obtain p where p: "p \<in> L" "unat b \<in> block_range t p" using b a by (auto simp: kept_def)
  moreover have "block_range t p \<inter> block_range t (j, 0) = {}"
    using p(1) j(2) growsD(1) [OF g] by (intro block_range_disjoint [OF h]) auto
  ultimately show False by blast
qed

lemma kvmalloc_gives:
  assumes ok: "slab_ok s H V L U" and "kvmalloc_lock s = 0" "0 < sz" "sz \<le> 2048"
  shows "gives no_memory (\<lambda>(p, t). \<exists>i H' V' L'. slab_ok t H' V' L' U \<and> kvmalloc_lock t = 0 \<and> L \<subseteq> L' \<and> rest_same s t \<and>
    i < 8 \<and> unat sz \<le> slot_size i \<and> objects H' V' = insert (i, p) (objects H V) \<and> p \<noteq> 0 \<and>
    (\<forall>j. (j, p) \<notin> objects H V) \<and> \<not> settled H V L U s p \<and> (\<forall>b. settled H V L U s b \<longrightarrow> mem t b = mem s b) \<and>
    (\<forall>b. settled H V L U s b \<longrightarrow> settled H' V' L' U t b)) (kvmalloc ca sz s)"
proof -
  obtain i where i: "i < 8" "size_class 8 0 sz s = Ret i" "unat sz \<le> slot_size i"
    using size_class_ok [OF slab_okD(5) [OF ok] assms(3,4)] by blast
  let ?s = "s\<lparr>kvmalloc_lock := 1\<rparr>"
  have ok1: "slab_ok ?s H V L U" using ok by simp
  have e1: "kept L U ?s = kept L U s" by (rule ram_addr [THEN conjunct2, THEN conjunct2, THEN conjunct2]) simp
  have run: "kvmalloc ca sz s = bindO (kvmem_cache_alloc 2 ca i ca ?s) (\<lambda>(slot, t). Ret (slot, t\<lparr>kvmalloc_lock := 0\<rparr>))"
    using kvmalloc_small [OF assms(3,4,2)] i(2) by simp
  from cache_alloc_ok [OF ok1 i(1), of ca ca] show ?thesis
  proof (elim disjE exE conjE)
    assume "kvmem_cache_alloc 2 ca i ca ?s = Panic 101 0"
    then show ?thesis by (simp add: run gives_def no_memory_def)
  next
    fix p t H' V' L'
    assume a: "kvmem_cache_alloc 2 ca i ca ?s = Ret (p, t)" "slab_ok t H' V' L' U" "grows ?s H V L i p t H' V' L'"
    note g = growsD [OF a(3)] and fr = grows_frame [OF ok1 a(2,3)]
    have rb: "ram_base t = ram_base s" using g(3) by (simp add: rest_same_def)
    note e2 = ram_addr [OF rb]
    have far: "pageno b \<noteq> pageno (v_page (V' q))" if "settled H V L U s b" "q \<in> H'" for b q
    proof (cases "q \<in> H")
      case True
      then show ?thesis using that g(6) [OF True] by (simp add: settled_def)
    next
      case False
      then show ?thesis using new_slab_far [OF a(2,3), of b q] that e1 by (simp add: settled_def)
    qed
    have "\<not> settled H V L U s p"
    proof
      assume st: "settled H V L U s p"
      have "(i, p) \<in> objects H' V'" using g(4) by simp
      then obtain q where q: "q \<in> H'" "p \<in> v_used (V' q)" by (auto simp: objects_def in_use_def)
      then show False using far [OF st q(1)] slab_slot(1) [OF slab_okD(4) [OF a(2)] q(1), of p] by simp
    qed
    moreover have "(j, p) \<notin> objects H V" for j
      using fr(1) [of j p p] inside_self by blast
    moreover have "mem t b = mem s b" if "settled H V L U s b" for b
      using fr(2) [of b] far [OF that] by simp
    moreover have "settled H' V' L' U t b" if "settled H V L U s b" for b
      using that far [OF that] kept_mono [of L U s b, OF _ g(1)] e2 by (simp add: settled_def)
    moreover have "rest_same s (t\<lparr>kvmalloc_lock := 0\<rparr>)" using g(3) assms(2) by (simp add: rest_same_def)
    ultimately have "slab_ok (t\<lparr>kvmalloc_lock := 0\<rparr>) H' V' L' U \<and> kvmalloc_lock (t\<lparr>kvmalloc_lock := 0\<rparr>) = 0 \<and> L \<subseteq> L' \<and>
        rest_same s (t\<lparr>kvmalloc_lock := 0\<rparr>) \<and> i < 8 \<and> unat sz \<le> slot_size i \<and> objects H' V' = insert (i, p) (objects H V) \<and>
        p \<noteq> 0 \<and> (\<forall>j. (j, p) \<notin> objects H V) \<and> \<not> settled H V L U s p \<and>
        (\<forall>b. settled H V L U s b \<longrightarrow> mem (t\<lparr>kvmalloc_lock := 0\<rparr>) b = mem s b) \<and>
        (\<forall>b. settled H V L U s b \<longrightarrow> settled H' V' L' U (t\<lparr>kvmalloc_lock := 0\<rparr>) b)"
      using a(2) g(1,4) i(1,3) fr(3) by simp
    then show ?thesis unfolding run a(1) bindO.simps prod.case gives_Ret by blast
  qed
qed

text \<open>The slabs survive whatever leaves their pages alone.\<close>

lemma ld64_page: "al 8 a \<Longrightarrow> (\<And>b. pageno b = pageno a \<Longrightarrow> m' b = m b) \<Longrightarrow> ld64 m' a = ld64 m a"
proof (rule ld64_cong)
  fix k :: nat
  assume a: "al 8 a" and k: "k < 8" and s: "\<And>b. pageno b = pageno a \<Longrightarrow> m' b = m b"
  obtain x where x: "unat a = 8 * x" using a by (auto simp: al_def)
  have "8 * x < 8 * 2 ^ 61" using unat64_less [of a] x by simp
  then have "x < 2 ^ 61" by simp
  then have "unat a + k < 2 ^ 64" using x k by simp
  then have u: "unat (a + of_nat k) = 8 * x + k" using x by (simp add: unat_add_small)
  have "(8 * x + k) div 8 div 512 = 8 * x div 8 div 512" using k by simp
  then have "(8 * x + k) div 4096 = 8 * x div 4096" by (simp only: div_mult2_eq [symmetric]) simp
  then have "pageno (a + of_nat k) = pageno a" using u x by (simp add: pageno_def)
  then show "m' (a + of_nat k) = m (a + of_nat k)" by (rule s)
qed

lemma slab_ok_frame:
  assumes ok: "slab_ok s H V L U" and h: "heap_ok t L' U" "L \<subseteq> L'"
    and r: "ram_base t = ram_base s" "caches t = caches s" "caches_addr t = caches_addr s"
    and m: "\<And>b h. h \<in> H \<Longrightarrow> pageno b = pageno (v_page (V h)) \<Longrightarrow> mem t b = mem s b"
  shows "slab_ok t H V L' U"
proof -
  note k = slab_okD [OF ok] and e = ram_addr [OF r(1)]
  have f: "fld d (mem t) g = fld d (mem s) g" if gd: "g \<in> H" "fofs d" for d g
  proof -
    obtain q where q: "q \<in> H" "pageno g = pageno (v_page (V q))" using header_page [OF k(4) gd(1)] by blast
    note a = header_al(1) [OF k(4) gd(1)]
    have "blkno (g + d) = blkno g" by (rule blkno_field [OF a gd(2)])
    then have "pageno (g + d) = pageno g" by (rule blkno_pageno)
    then have "ld64 (mem t) (g + d) = ld64 (mem s) (g + d)" using m q al_field [OF a gd(2)] by (intro ld64_page) auto
    then show ?thesis by (simp add: fld_def)
  qed
  have c: "chain (mem t) (v_free (V g)) = chain (mem s) (v_free (V g))" if "g \<in> H" for g
  proof (rule chain_cong)
    fix x assume x: "x \<in> set (v_free (V g))"
    note sl = slab_slot [OF k(4) that, of x]
    show "ld64 (mem t) x = ld64 (mem s) x" using x sl(1,2) m [OF that] al_16_8 by (intro ld64_page) auto
  qed
  have "header_ok (caches_addr t) (mem t) g (V g)" if "g \<in> H" for g
    using k(6) [OF that] c [OF that] f [OF that] r(3) by (simp add: header_ok_def fofs_def)
  moreover have "SlabAlloc.linked t H V"
  proof -
    have "kind_head t = kind_head s" by (rule ext) (simp add: kind_head_def r(2) split: prod.splits)
    then show ?thesis unfolding SlabAlloc.linked_def
      by (intro family_cong [OF linkedD [OF k(7)]]) (auto simp: members_def f fofs_def split: prod.splits)
  qed
  moreover have "configured t" using k(5) r(2) by (simp add: configured_def)
  moreover have "page_addr t = page_addr s" using e by blast
  then have "(\<lambda>h. v_page (V h)) ` H \<subseteq> {page_addr t i | i. (i, 0) \<in> L'}" using k(3) h(2) by (simp only:) blast
  ultimately show ?thesis using h(1) k(2,4) r(1) by (simp add: slab_ok_def)
qed

end
