(* ===== verification/Strings.thy ===== *)
theory Strings
  imports Memory "HOL-Library.Sublist"
begin

text \<open>
  The string routines of \<open>kernel/string.c\<close> and \<open>user/util.c\<close>. A C string pointer is the
  function from index to byte; \<open>cstr s xs\<close> says that the bytes before the terminator are
  \<open>xs\<close>. The loops have no bound in the code, so they run on fuel, and fuel beyond the
  shorter string gives the result.
\<close>

type_synonym cstring = "nat \<Rightarrow> u8"

definition at :: "memory \<Rightarrow> u64 \<Rightarrow> cstring" where
  "at m a = (\<lambda>i. m (a + of_nat i))"

definition lit :: "string \<Rightarrow> cstring" where
  "lit t = (\<lambda>i. if i < length t then of_nat (of_char (t ! i)) else 0)"

section \<open>Comparison, length, prefix\<close>

fun strcmp_from :: "nat \<Rightarrow> nat \<Rightarrow> cstring \<Rightarrow> cstring \<Rightarrow> bool outcome" where
  "strcmp_from 0 idx s1 s2 = Hang"
| "strcmp_from (Suc n) idx s1 s2 =
     (if s1 idx \<noteq> s2 idx then Ret False
      else if s1 idx = 0 then Ret True
      else strcmp_from n (Suc idx) s1 s2)"

definition kstrcmp :: "nat \<Rightarrow> cstring \<Rightarrow> cstring \<Rightarrow> bool outcome" where
  "kstrcmp fuel s1 s2 = strcmp_from fuel 0 s1 s2"

fun strlen_from :: "nat \<Rightarrow> nat \<Rightarrow> cstring \<Rightarrow> nat outcome" where
  "strlen_from 0 len s = Hang"
| "strlen_from (Suc n) len s = (if s len \<noteq> 0 then strlen_from n (Suc len) s else Ret len)"

definition kstrlen :: "nat \<Rightarrow> cstring \<Rightarrow> nat outcome" where
  "kstrlen fuel s = strlen_from fuel 0 s"

fun prefix_from :: "nat \<Rightarrow> nat \<Rightarrow> cstring \<Rightarrow> cstring \<Rightarrow> bool outcome" where
  "prefix_from 0 idx pre s = Hang"
| "prefix_from (Suc n) idx pre s =
     (if pre idx = 0 then Ret True
      else if s idx = 0 then Ret False
      else if pre idx \<noteq> s idx then Ret False
      else prefix_from n (Suc idx) pre s)"

definition kstr_has_prefix :: "nat \<Rightarrow> cstring \<Rightarrow> cstring \<Rightarrow> bool outcome" where
  "kstr_has_prefix fuel pre s = prefix_from fuel 0 pre s"

section \<open>Terminated strings\<close>

definition cstr :: "cstring \<Rightarrow> u8 list \<Rightarrow> bool" where
  "cstr s xs \<longleftrightarrow> (\<forall>i<length xs. s i = xs ! i) \<and> s (length xs) = 0 \<and> 0 \<notin> set xs"

lemma cstr_nonzero: "cstr s xs \<Longrightarrow> i < length xs \<Longrightarrow> s i \<noteq> 0"
  by (metis cstr_def nth_mem)

lemma cstr_zero: "cstr s xs \<Longrightarrow> i \<le> length xs \<Longrightarrow> s i = 0 \<longleftrightarrow> i = length xs"
  by (metis cstr_def cstr_nonzero le_neq_implies_less)

lemma drop_Cons: "cstr s xs \<Longrightarrow> i < length xs \<Longrightarrow> drop i xs = s i # drop (Suc i) xs"
  by (simp add: cstr_def Cons_nth_drop_Suc)

lemma strcmp_from_ok:
  assumes "cstr s xs" and "cstr t ys" and "i \<le> length xs" and "i \<le> length ys"
    and "min (length xs) (length ys) < i + n"
  shows "strcmp_from n i s t = Ret (drop i xs = drop i ys)"
  using assms
proof (induction n arbitrary: i)
  case (Suc n)
  note z = cstr_zero [OF Suc.prems(1,3)] cstr_zero [OF Suc.prems(2,4)]
  show ?case
  proof (cases "i = length xs \<or> i = length ys")
    case True
    then show ?thesis using z Suc.prems(3,4) by auto
  next
    case False
    then have "drop i xs = s i # drop (Suc i) xs" "drop i ys = t i # drop (Suc i) ys"
      using Suc.prems drop_Cons by auto
    then show ?thesis using Suc z False by auto
  qed
qed simp

lemma strlen_from_ok: "cstr s xs \<Longrightarrow> i \<le> length xs \<Longrightarrow> length xs < i + n \<Longrightarrow> strlen_from n i s = Ret (length xs)"
proof (induction n arbitrary: i)
  case (Suc n)
  then show ?case using cstr_zero [OF Suc.prems(1,2)] by auto
qed simp

lemma prefix_from_ok:
  assumes "cstr s xs" and "cstr t ys" and "i \<le> length xs" and "i \<le> length ys"
    and "min (length xs) (length ys) < i + n"
  shows "prefix_from n i s t = Ret (prefix (drop i xs) (drop i ys))"
  using assms
proof (induction n arbitrary: i)
  case (Suc n)
  note z = cstr_zero [OF Suc.prems(1,3)] cstr_zero [OF Suc.prems(2,4)]
  show ?case
  proof (cases "i = length xs \<or> i = length ys")
    case True
    then show ?thesis using z Suc.prems(3,4) by auto
  next
    case False
    then have "drop i xs = s i # drop (Suc i) xs" "drop i ys = t i # drop (Suc i) ys"
      using Suc.prems drop_Cons by auto
    then show ?thesis using Suc z False by auto
  qed
qed simp

lemma of_nat_of_char_zero: "(of_nat (of_char c) :: u8) = 0 \<longleftrightarrow> c = CHR 0x00"
proof -
  have b: "of_char c < (256 :: nat)" by simp
  have "(of_nat (of_char c) :: u8) = 0 \<longleftrightarrow> 2 ^ 8 dvd (of_char c :: nat)"
    by (simp add: word_of_nat_eq_0_iff)
  also have "\<dots> \<longleftrightarrow> of_char c = (0 :: nat)"
    using b nat_dvd_not_less [of "of_char c" 256] by (cases "of_char c = (0 :: nat)") auto
  also have "\<dots> \<longleftrightarrow> c = CHR 0x00"
    using of_char_eq_iff [where 'a = nat, of c "CHR 0x00"] by simp
  finally show ?thesis .
qed

definition bytes_of :: "string \<Rightarrow> u8 list" where
  "bytes_of str = map (\<lambda>c. of_nat (of_char c)) str"

lemma cstr_lit:
  assumes "CHR 0x00 \<notin> set t"
  shows "cstr (lit t) (bytes_of t)"
proof -
  have "0 \<notin> set (bytes_of t)"
  proof
    assume "0 \<in> set (bytes_of t)"
    then obtain c where "c \<in> set t" "(of_nat (of_char c) :: u8) = 0" by (auto simp: bytes_of_def)
    then have "c = CHR 0x00" by (simp only: of_nat_of_char_zero)
    then show False using assms \<open>c \<in> set t\<close> by simp
  qed
  moreover have "\<forall>i<length (bytes_of t). lit t i = bytes_of t ! i" by (simp add: lit_def bytes_of_def)
  moreover have "lit t (length (bytes_of t)) = 0" by (simp add: lit_def bytes_of_def)
  ultimately show ?thesis by (simp add: cstr_def)
qed

text \<open>
  C40. The string routines end on every pair of terminated strings, after at most one step more
  than the shorter one is long (for \<open>kstrlen\<close>, the string itself), and compute equality, length
  and the prefix relation of the strings; what follows the terminators plays no part.
\<close>

theorem string_routines_correct:
  assumes "cstr s xs" and "cstr t ys"
  shows "kstrcmp (Suc (min (length xs) (length ys))) s t = Ret (xs = ys) \<and>
    kstr_has_prefix (Suc (min (length xs) (length ys))) s t = Ret (prefix xs ys) \<and>
    kstrlen (Suc (length xs)) s = Ret (length xs)"
  using strcmp_from_ok [OF assms, of 0] prefix_from_ok [OF assms, of 0] strlen_from_ok [OF assms(1), of 0]
  by (simp add: kstrcmp_def kstr_has_prefix_def kstrlen_def del: strcmp_from.simps prefix_from.simps strlen_from.simps)

theorem string_routines_correct_witness:
  "kstrcmp 4 (lit ''cpu'') (lit ''cpus'') = Ret False \<and> kstr_has_prefix 4 (lit ''cpu'') (lit ''cpus'') = Ret True \<and>
    kstrlen 4 (lit ''cpu'') = Ret 3"
proof -
  have "cstr (lit ''cpu'') (bytes_of ''cpu'')" "cstr (lit ''cpus'') (bytes_of ''cpus'')" by (simp_all add: cstr_lit)
  note strs = string_routines_correct [OF this]
  have "length (bytes_of ''cpu'') = 3" "length (bytes_of ''cpus'') = 4" by (simp_all add: bytes_of_def)
  moreover have "bytes_of ''cpu'' \<noteq> bytes_of ''cpus''" "prefix (bytes_of ''cpu'') (bytes_of ''cpus'')" by code_simp+
  ultimately show ?thesis using strs by simp
qed

end
