(* ===== verification/Uart.thy ===== *)
theory Uart
  imports Process Strings
begin

text \<open>
  The console and interrupt controller of \<open>kernel/uart.c\<close> and the timer of \<open>kernel/timer.c\<close>. The
  transmit register is the byte stream \<open>uart_out\<close>: the polling loop before each byte ends
  when the device reports an empty transmit FIFO, which it does after every byte. What a read of
  a device register returns is an argument of the operation, and configuration is the list of
  register writes.
\<close>

section \<open>Registers\<close>

definition get_uart_reg :: "u64 \<Rightarrow> u32 \<Rightarrow> u64" where
  "get_uart_reg base offset = base + ucast offset"

definition get_plic_reg :: "u64 \<Rightarrow> u64 \<Rightarrow> u64" where
  "get_plic_reg base offset = base + offset"

definition uart_init :: "u64 \<Rightarrow> (u64 \<times> u8) list" where
  "uart_init base =
     [(get_uart_reg base 1, 0x00), (get_uart_reg base 3, 0x80), (get_uart_reg base 0, 0x03),
      (get_uart_reg base 1, 0x00), (get_uart_reg base 3, 0x03), (get_uart_reg base 2, 0x07)]"

definition uart_ier_enable :: "u64 \<Rightarrow> (u64 \<times> u8) list" where
  "uart_ier_enable base = [(get_uart_reg base 1, 0x1)]"

text \<open>\<open>context_idx\<close> is an \<open>unsigned int\<close>, so the products are taken modulo \<open>2 ^ 32\<close>.\<close>

definition plic_enable_offset :: "u32 \<Rightarrow> u64" where
  "plic_enable_offset ctx = ucast (0x2000 + ctx * 0x80)"

definition plic_threshold_offset :: "u32 \<Rightarrow> u64" where
  "plic_threshold_offset ctx = ucast (0x200000 + ctx * 0x1000)"

definition plic_claim_offset :: "u32 \<Rightarrow> u64" where
  "plic_claim_offset ctx = ucast (0x200004 + ctx * 0x1000)"

definition plic_init :: "u64 \<Rightarrow> u32 \<Rightarrow> (u64 \<times> u32) list" where
  "plic_init base ctx =
     [(get_plic_reg base 0x28, 1), (get_plic_reg base (plic_enable_offset ctx), push_bit 10 1),
      (get_plic_reg base (plic_threshold_offset ctx), 0)]"

text \<open>The claim register is read by \<open>plic_claim\<close> and written by \<open>plic_complete\<close>.\<close>

definition plic_claim_reg :: "u64 \<Rightarrow> u32 \<Rightarrow> u64" where
  "plic_claim_reg base ctx = get_plic_reg base (plic_claim_offset ctx)"

definition plic_complete :: "u64 \<Rightarrow> u32 \<Rightarrow> u32 \<Rightarrow> (u64 \<times> u32) list" where
  "plic_complete base ctx irq = [(plic_claim_reg base ctx, irq)]"

section \<open>Timer\<close>

definition mtime_reg :: "u64 \<Rightarrow> u64" where
  "mtime_reg base = base + 0xBFF8"

definition mtimecmp_reg :: "u64 \<Rightarrow> u64 \<Rightarrow> u64" where
  "mtimecmp_reg base mhartid = base + 0x4000 + mhartid * 8"

text \<open>The next deadline is one hundredth of a second away.\<close>

definition update_timer :: "u64 \<Rightarrow> u64 \<Rightarrow> u64 \<Rightarrow> u64 \<Rightarrow> (u64 \<times> u64) list" where
  "update_timer base timebase_freq curr_time mhartid =
     [(mtimecmp_reg base mhartid, curr_time + timebase_freq div 100)]"

definition disable_timer_interrupts :: "u64 \<Rightarrow> u64 \<Rightarrow> (u64 \<times> u64) list" where
  "disable_timer_interrupts base mhartid = [(mtimecmp_reg base mhartid, - 1)]"

text \<open>\<open>timer_init\<close> sets the deadline of the running hart and enables its software interrupt.\<close>

definition timer_init :: "u64 \<Rightarrow> u64 \<Rightarrow> u64 \<Rightarrow> kstate \<Rightarrow> (u64 \<times> u64) list \<times> kstate" where
  "timer_init base timebase_freq curr_time s =
     (update_timer base timebase_freq curr_time (hart_id (rqs s (tp s))), s\<lparr>ssie := True\<rparr>)"

section \<open>Output\<close>

definition uart_putc_core :: "u8 \<Rightarrow> kstate \<Rightarrow> kstate" where
  "uart_putc_core c s = s\<lparr>uart_out := uart_out s @ [c]\<rparr>"

definition uart_putc :: "u8 \<Rightarrow> kstate \<Rightarrow> kstate outcome" where
  "uart_putc c s =
     bindO (acquire UartLock s) (\<lambda>s. Ret (release UartLock (uart_putc_core c s)))"

text \<open>A string is the list of its bytes before the terminator.\<close>

definition uart_puts :: "u8 list \<Rightarrow> kstate \<Rightarrow> kstate outcome" where
  "uart_puts str s =
     bindO (acquire UartLock s) (\<lambda>s. Ret (release UartLock (fold uart_putc_core str s)))"

definition uart_putsn :: "u8 list \<Rightarrow> nat \<Rightarrow> kstate \<Rightarrow> kstate outcome" where
  "uart_putsn str max_length s =
     bindO (acquire UartLock s) (\<lambda>s. Ret (release UartLock (fold uart_putc_core (take max_length str) s)))"

definition hex_digit :: "u64 \<Rightarrow> u8" where
  "hex_digit nibble = (if nibble \<le> 9 then ucast nibble + 0x30 else ucast nibble - 10 + 0x41)"

definition hex_digits :: "u64 \<Rightarrow> u8 list" where
  "hex_digits code = map (\<lambda>i. hex_digit (drop_bit (60 - i * 4) code AND 0xF)) [0..<16]"

definition uart_puth :: "u64 \<Rightarrow> kstate \<Rightarrow> kstate outcome" where
  "uart_puth code s =
     bindO (acquire UartLock s) (\<lambda>s. Ret (release UartLock (fold uart_putc_core (hex_digits code) s)))"

section \<open>Input\<close>

text \<open>\<open>lsr\<close> and \<open>rbr\<close> are what the line status and receive registers read.\<close>

definition uart_getc :: "u8 \<Rightarrow> u8 \<Rightarrow> kstate \<Rightarrow> (u8 \<times> kstate) outcome" where
  "uart_getc lsr rbr s =
     bindO (acquire UartLock s) (\<lambda>s.
     let text = (if lsr AND 1 = 1 then rbr else 0)
     in Ret (text, release UartLock s))"

section \<open>Messages\<close>

text \<open>
  The kernel's messages are sequences of calls of the three printing functions. The name of a
  process ends at its first zero byte.
\<close>

datatype item = Text string | Hex u64 | Name "u8 list" | Chr u8

fun uart_item :: "item \<Rightarrow> kstate \<Rightarrow> kstate outcome" where
  "uart_item (Text str) = uart_puts (bytes_of str)"
| "uart_item (Hex v) = uart_puth v"
| "uart_item (Name bs) = uart_puts (takeWhile (\<lambda>b. b \<noteq> 0) bs)"
| "uart_item (Chr c) = uart_putc c"

definition say :: "item list \<Rightarrow> kstate \<Rightarrow> kstate outcome" where
  "say items = forO items uart_item"

text \<open>The bytes a message puts on the line.\<close>

fun item_bytes :: "item \<Rightarrow> u8 list" where
  "item_bytes (Text str) = bytes_of str"
| "item_bytes (Hex v) = hex_digits v"
| "item_bytes (Name bs) = takeWhile (\<lambda>b. b \<noteq> 0) bs"
| "item_bytes (Chr c) = [c]"

lemma fold_putc_core: "fold uart_putc_core xs s = s\<lparr>uart_out := uart_out s @ xs\<rparr>"
  by (induction xs arbitrary: s) (simp_all add: uart_putc_core_def)

lemma locked_print:
  assumes "locks s UartLock = 0"
  shows "bindO (acquire UartLock s) (\<lambda>s. Ret (release UartLock (fold uart_putc_core xs s))) =
    Ret (s\<lparr>uart_out := uart_out s @ xs\<rparr>)"
  using assms
  by (cases s) (simp add: acquire_def spinlock_acquire_def release_def spinlock_release_def fold_putc_core
      fun_upd_idem)

lemma uart_item_ok:
  assumes "locks s UartLock = 0"
  shows "uart_item x s = Ret (s\<lparr>uart_out := uart_out s @ item_bytes x\<rparr>)"
  using locked_print [OF assms] locked_print [OF assms, of "[_]"]
  by (cases x) (simp_all add: uart_puts_def uart_puth_def uart_putc_def)

lemma say_ok:
  "locks s UartLock = 0 \<Longrightarrow> say items s = Ret (s\<lparr>uart_out := uart_out s @ concat (map item_bytes items)\<rparr>)"
  unfolding say_def by (induction items arbitrary: s) (simp_all add: uart_item_ok)

end
