(* ===== verification/Syscall.thy ===== *)
theory Syscall
  imports Lifecycle Uart
begin

text \<open>
  The system calls of \<open>kernel/main.c\<close>, one definition per case of the switch in
  \<open>strap_router\<close>. The trap frame of the running process holds the arguments and receives the
  result in register a0 (cell 10). User pointers are translated by the kernel's software walk
  and then used as physical addresses.
\<close>

section \<open>Arguments, results, messages\<close>

definition reg :: "nat \<Rightarrow> kstate \<Rightarrow> u64" where
  "reg i s = u_context (tframes s (p_tf (procs s (curr s)))) i"

definition ret :: "u64 \<Rightarrow> kstate \<Rightarrow> kstate" where
  "ret v s = set_a0 (curr s) v s"

definition proc_header :: "u64 \<Rightarrow> kstate \<Rightarrow> item list" where
  "proc_header p s =
     [Text (CHR 0x0A # '' [RexOS] Process ''), Hex (pid (procs s p)), Text '' ['',
      Name (p_name (procs s p)), Text ''] '']"

text \<open>A refusal: the message, then -1.\<close>

definition deny :: "u64 \<Rightarrow> item list \<Rightarrow> kstate \<Rightarrow> kstate outcome" where
  "deny p items s = bindO (say (proc_header p s @ items) s) (\<lambda>s. Ret (ret (- 1) s))"

definition bad_pointer :: "kstate \<Rightarrow> kstate outcome" where
  "bad_pointer s =
     bindO (say (proc_header (curr s) s @
       [Text ('' terminated (Segmentation Fault - Bad Syscall Pointer)'' @ [CHR 0x0A])]) s)
     (exit_process (- 1))"

section \<open>Finding a process\<close>

text \<open>Once around a circle, and along a list, for a process id; 0 when it is not there.\<close>

fun find_in_circle :: "nat \<Rightarrow> u64 \<Rightarrow> u64 \<Rightarrow> u64 \<Rightarrow> kstate \<Rightarrow> u64 outcome" where
  "find_in_circle 0 n start ptr s = Hang"
| "find_in_circle (Suc k) n start ptr s =
     (let target = (if pid (procs s ptr) = n then ptr else 0);
          ptr = p_next (procs s ptr)
      in if ptr \<noteq> start \<and> target = 0 then find_in_circle k n start ptr s else Ret target)"

fun find_in_list :: "nat \<Rightarrow> u64 \<Rightarrow> u64 \<Rightarrow> kstate \<Rightarrow> u64 outcome" where
  "find_in_list 0 n ptr s = (if ptr = 0 then Ret 0 else Hang)"
| "find_in_list (Suc k) n ptr s =
     (if ptr = 0 then Ret 0
      else if pid (procs s ptr) = n then Ret ptr
      else find_in_list k n (p_next (procs s ptr)) s)"

text \<open>
  The priorities of one hart: a later circle is searched even after a hit, for the first of
  its members only.
\<close>

fun find_on_hart :: "nat list \<Rightarrow> u64 \<Rightarrow> u64 \<Rightarrow> u64 \<Rightarrow> kstate \<Rightarrow> u64 outcome" where
  "find_on_hart [] n r target s = Ret target"
| "find_on_hart (i # is) n r target s =
     (if lookup_bitmap (rqs s r) AND shl1 i \<noteq> 0 then
        (let head = circles (rqs s r) i in
         bindO
           (if target = 0 then find_in_circle walk_fuel n head head s
            else Ret (if pid (procs s head) = n then head else target))
           (\<lambda>target. find_on_hart is n r target s))
      else find_on_hart is n r target s)"

fun find_on_harts :: "nat list \<Rightarrow> u64 \<Rightarrow> kstate \<Rightarrow> (u64 \<times> kstate) outcome" where
  "find_on_harts [] n s = Ret (0, s)"
| "find_on_harts (j # js) n s =
     (if closet_rq s j = 0 then find_on_harts js n s
      else
        bindO (acquire (RqLock (closet_rq s j)) s) (\<lambda>s.
        bindO (find_on_hart [0..<32] n (closet_rq s j) 0 s) (\<lambda>target.
        let s = release (RqLock (closet_rq s j)) s in
        if target \<noteq> 0 then Ret (target, s) else find_on_harts js n s)))"

definition find_waiting :: "wlist \<Rightarrow> u64 \<Rightarrow> u64 \<Rightarrow> kstate \<Rightarrow> (u64 \<times> kstate) outcome" where
  "find_waiting w n target s =
     bindO (acquire (ListLock w) s) (\<lambda>s.
     bindO (if target = 0 then find_in_list walk_fuel n (lists s w) s else Ret target) (\<lambda>target.
     Ret (target, release (ListLock w) s)))"

definition get_process_by_pid :: "u64 \<Rightarrow> kstate \<Rightarrow> (u64 \<times> kstate) outcome" where
  "get_process_by_pid n s =
     bindO (find_on_harts [0..<hart s] n s) (\<lambda>(target, s).
     bindO (find_waiting Blocked n target s) (\<lambda>(target, s).
     bindO (find_waiting BlockedIpc n target s) (\<lambda>(target, s).
     bindO (find_waiting BlockedIpcSend n target s) (\<lambda>(target, s).
     find_waiting Sleeping n target s))))"

section \<open>Console and process calls\<close>

definition sys_write :: "kstate \<Rightarrow> kstate outcome" where
  "sys_write s = uart_putc (ucast (reg 10 s)) s"

definition sys_read :: "kstate \<Rightarrow> kstate outcome" where
  "sys_read s =
     (let s = s\<lparr>shell_ptr := curr s\<rparr> in
      if uart_buff s \<noteq> 0 then Ret ((ret (ucast (uart_buff s)) s)\<lparr>uart_buff := 0\<rparr>)
      else block_process (shell_ptr s) s)"

definition sys_exit :: "kstate \<Rightarrow> kstate outcome" where
  "sys_exit s = exit_process (reg 10 s) s"

definition sys_getpid :: "kstate \<Rightarrow> kstate outcome" where
  "sys_getpid s = Ret (ret (pid (procs s (curr s))) s)"

definition sys_yield :: "kstate \<Rightarrow> kstate outcome" where
  "sys_yield s = Ret (trigger_software_interrupt (upd_proc (curr s) (\<lambda>p. p\<lparr>p_state := 0\<rparr>) s))"

definition sys_sleep :: "kstate \<Rightarrow> kstate outcome" where
  "sys_sleep s = sleep_process (curr s) (ucast (reg 10 s)) s"

definition sys_wait :: "kstate \<Rightarrow> kstate outcome" where
  "sys_wait s = bindO (wait_process s) (\<lambda>(v, s). Ret (ret v s))"

definition sys_process_count :: "kstate \<Rightarrow> kstate outcome" where
  "sys_process_count s = Ret (ret (alive_thread_counter s) s)"

definition sys_probe_vaddr :: "kstate \<Rightarrow> kstate outcome" where
  "sys_probe_vaddr s =
     Ret (ret (if uvm_translate (p_satp (procs s (curr s))) (reg 10 s) s \<noteq> 0 then 1 else 0) s)"

section \<open>Messages\<close>

text \<open>The four bits of the rights of \<open>p\<close> on process id \<open>n\<close>, tested with a mask.\<close>

definition has_rights :: "u64 \<Rightarrow> u64 \<Rightarrow> u64 \<Rightarrow> kstate \<Rightarrow> bool" where
  "has_rights p n bits s \<longleftrightarrow> load s (cap_cell p n s) AND push_bit (cap_shift n) bits \<noteq> 0"

definition copy_to_mailbox :: "u64 \<Rightarrow> u64 \<Rightarrow> kstate \<Rightarrow> kstate" where
  "copy_to_mailbox target phys_addr s =
     upd_proc target (\<lambda>p. p\<lparr>mailbox := (\<lambda>i. if i < 9 then load s (phys_addr + 8 * of_nat i) else mailbox p i)\<rparr>) s"

definition sys_send_msg :: "kstate \<Rightarrow> kstate outcome" where
  "sys_send_msg s =
     (let a0 = reg 10 s; a1 = reg 11 s;
          phys_addr = uvm_translate (p_satp (procs s (curr s))) a1 s in
      if phys_addr = 0 then bad_pointer s
      else
        bindO (get_process_by_pid a0 s) (\<lambda>(target, s).
        if target = 0 then Ret (ret (- 1) s)
        else
          let me = pid (procs s (curr s)); you = pid (procs s target);
              yours = [Hex you, Text '' ['', Name (p_name (procs s target)), Text ''] '', Text '')'', Chr 0x0A];
              mine = [Hex me, Text '' ['', Name (p_name (procs s (curr s))), Text ''] '', Text '')'', Chr 0x0A] in
          if \<not> has_rights (curr s) you 15 s then
            deny (curr s) (Text ''(Access Denied to send message to - '' # yours) s
          else if \<not> has_rights (curr s) you 2 s then
            deny (curr s) (Text ''(Write Rights Denied to - '' # yours) s
          else if \<not> has_rights target me 1 s then
            deny target (Text ''(Read Rights Denied to - '' # mine) s
          else if mailbox_status (procs s target) = 0 then
            let s = copy_to_mailbox target phys_addr s;
                s = upd_proc target (\<lambda>p. p\<lparr>mailbox := (mailbox p)(0 := me)\<rparr>) s in
            bindO (if p_state (procs s target) = 5 then unblock_ipc_process target s else Ret s) (\<lambda>s.
            let s = upd_proc target (\<lambda>p. p\<lparr>mailbox_status := 1\<rparr>) s
            in Ret (ret 1 s))
          else
            let s = upd_tf (p_tf (procs s (curr s))) (\<lambda>t. t\<lparr>epc := epc t - 4\<rparr>) s;
                s = upd_proc (curr s) (\<lambda>p. p\<lparr>ipc_pending_pid := you\<rparr>) s
            in block_ipc_send_process (curr s) s))"

text \<open>The loop that wakes the senders blocked on the running process, one at a time.\<close>

fun find_sender :: "nat \<Rightarrow> u64 \<Rightarrow> u64 \<Rightarrow> kstate \<Rightarrow> u64 outcome" where
  "find_sender 0 n ptr s = (if ptr = 0 then Ret 0 else Hang)"
| "find_sender (Suc k) n ptr s =
     (if ptr = 0 then Ret 0
      else if ipc_pending_pid (procs s ptr) = n then Ret ptr
      else find_sender k n (p_next (procs s ptr)) s)"

fun wake_senders :: "nat \<Rightarrow> kstate \<Rightarrow> kstate outcome" where
  "wake_senders 0 s = Hang"
| "wake_senders (Suc k) s =
     bindO (acquire (ListLock BlockedIpcSend) s) (\<lambda>s.
     bindO (find_sender walk_fuel (pid (procs s (curr s))) (lists s BlockedIpcSend) s) (\<lambda>ptr.
     let s = release (ListLock BlockedIpcSend) s in
     if ptr \<noteq> 0 then bindO (unblock_ipc_send_process ptr s) (wake_senders k) else Ret s))"

definition copy_from_mailbox :: "u64 \<Rightarrow> u64 \<Rightarrow> kstate \<Rightarrow> kstate" where
  "copy_from_mailbox p phys_addr s =
     fold (\<lambda>i s. store (phys_addr + 8 * of_nat i) (mailbox (procs s p) i) s) [0..<9] s"

definition sys_recv_msg :: "kstate \<Rightarrow> kstate outcome" where
  "sys_recv_msg s =
     (let phys_addr = uvm_translate (p_satp (procs s (curr s))) (reg 10 s) s in
      if phys_addr = 0 then bad_pointer s
      else if mailbox_status (procs s (curr s)) = 0 then block_ipc_process (curr s) s
      else
        let s = copy_from_mailbox (curr s) phys_addr s;
            s = upd_proc (curr s) (\<lambda>p. p\<lparr>mailbox_status := 0\<rparr>) s
        in wake_senders walk_fuel (ret 1 s))"

section \<open>Rights\<close>

text \<open>The id whose rights are set is an argument of the call; nothing bounds it.\<close>

definition set_rights :: "u64 \<Rightarrow> u64 \<Rightarrow> u64 \<Rightarrow> kstate \<Rightarrow> kstate" where
  "set_rights p n rights s =
     store (cap_cell p n s)
       ((load s (cap_cell p n s) AND NOT (push_bit (cap_shift n) 15)) OR push_bit (cap_shift n) (rights AND 15)) s"

text \<open>The \<open>active_grant\<close> first entries of the whitelist.\<close>

definition whitelisted :: "u64 \<Rightarrow> u64 \<Rightarrow> kstate \<Rightarrow> nat option" where
  "whitelisted p n s =
     find (\<lambda>i. grant_whitelist (procs s p) i = n) [0..<unat (active_grant (procs s p))]"

definition sys_grant_permit :: "kstate \<Rightarrow> kstate outcome" where
  "sys_grant_permit s =
     (let a0 = reg 10 s; a1 = reg 11 s; a2 = reg 12 s in
      bindO (get_process_by_pid a0 s) (\<lambda>(target, s).
      if target = 0 then Ret (ret (- 1) s)
      else
        let rights = drop_bit (cap_shift a1) (load s (cap_cell (curr s) a1 s)) AND 15 in
        if rights AND 4 = 0 then
          deny (curr s) [Text ''(Don't have right to grant )'', Chr 0x0A] s
        else if rights AND (a2 AND 15) \<noteq> a2 AND 15 then
          deny (curr s) [Text ''(Can't grant unpossessed rights )'', Chr 0x0A] s
        else if rights AND 8 \<noteq> 0 \<or> pid (procs s (curr s)) = 1 then
          Ret (ret 1 (set_rights target a1 a2 s))
        else if whitelisted (curr s) a0 s \<noteq> None then
          Ret (ret 1 (set_rights target a1 a2 s))
        else
          deny (curr s) [Text ''(This PID is not in whitelist : '', Hex a0, Text '')'', Chr 0x0A] s))"

definition sys_revoke_permit :: "kstate \<Rightarrow> kstate outcome" where
  "sys_revoke_permit s =
     (let a0 = reg 10 s; a1 = reg 11 s in
      bindO (get_process_by_pid a0 s) (\<lambda>(target, s).
      if target = 0 then Ret (ret (- 1) s)
      else if parent_pid (procs s target) \<noteq> pid (procs s (curr s)) \<and> pid (procs s (curr s)) \<noteq> 1 then
        deny (curr s) [Text ''(Permission denied to revoke permission as PID: '', Hex a0,
          Text ''is not its child )'', Chr 0x0A] s
      else Ret (ret 1 (set_rights target a1 0 s))))"

definition add_whitelist :: "u64 \<Rightarrow> kstate \<Rightarrow> kstate outcome" where
  "add_whitelist n s =
     (if whitelisted (curr s) n s \<noteq> None then Ret (ret 1 s)
      else if active_grant (procs s (curr s)) = 8 then
        deny (curr s) [Text ''(Whitelist if already full)'', Chr 0x0A] s
      else
        Ret (ret 1 (upd_proc (curr s) (\<lambda>p. p\<lparr>grant_whitelist := (grant_whitelist p)(unat (active_grant p) := n),
          active_grant := active_grant p + 1\<rparr>) s)))"

definition remove_whitelist :: "u64 \<Rightarrow> kstate \<Rightarrow> kstate outcome" where
  "remove_whitelist n s =
     (case whitelisted (curr s) n s of
        None \<Rightarrow> Ret (ret 1 s)
      | Some idx \<Rightarrow>
          Ret (ret 1 (upd_proc (curr s) (\<lambda>p.
            let top = unat (active_grant p - 1) in
            p\<lparr>grant_whitelist := (grant_whitelist p)(idx := grant_whitelist p top, top := 0),
              active_grant := active_grant p - 1\<rparr>) s)))"

definition sys_update_whitelist :: "kstate \<Rightarrow> kstate outcome" where
  "sys_update_whitelist s =
     (let a0 = reg 10 s; a1 = reg 11 s in
      if a1 = 1 then add_whitelist a0 s
      else if a1 = 0 then remove_whitelist a0 s
      else deny (curr s) [Text ''(Unrecognized syscall argument.)'', Chr 0x0A] s)"

section \<open>Shared pages\<close>

definition may_map :: "u64 \<Rightarrow> kstate \<Rightarrow> bool" where
  "may_map target s \<longleftrightarrow>
     drop_bit (cap_shift (pid (procs s target))) (load s (cap_cell (curr s) (pid (procs s target)) s)) AND 15 AND 4 \<noteq> 0 \<or>
     pid (procs s (curr s)) = pid (procs s target)"

definition sys_map_shared_page :: "u64 \<Rightarrow> kstate \<Rightarrow> kstate outcome" where
  "sys_map_shared_page ca s =
     (let a0 = reg 10 s; a1 = reg 11 s; a2 = reg 12 s; a3 = reg 13 s;
          phys_addr = uvm_translate (p_satp (procs s (curr s))) a1 s in
      if phys_addr = 0 then bad_pointer s
      else
        bindO (get_process_by_pid a0 s) (\<lambda>(target, s).
        if target = 0 then Ret (ret (- 1) s)
        else if \<not> may_map target s then
          deny (curr s) [Text ''(Don't have right to grant )'', Chr 0x0A] s
        else
          bindO (uvm_map ca (satp_root (p_satp (procs s target))) a2 phys_addr 4096 (ucast a3) s) (\<lambda>s.
          Ret (ret 1 s))))"

definition sys_unmap_shared_page :: "kstate \<Rightarrow> kstate outcome" where
  "sys_unmap_shared_page s =
     (let a0 = reg 10 s; a1 = reg 11 s in
      bindO (get_process_by_pid a0 s) (\<lambda>(target, s).
      if target = 0 then Ret (ret (- 1) s)
      else if \<not> may_map target s then
        deny (curr s) [Text ''(Don't have right to grant )'', Chr 0x0A] s
      else
        let (done, s) = uvm_unmap (p_satp (procs s target)) a1 s
        in Ret (ret (if done then 1 else - 1) s)))"

section \<open>Interrupt lines\<close>

definition sys_register_irq :: "kstate \<Rightarrow> kstate outcome" where
  "sys_register_irq s =
     (let a0 = reg 10 s in
      if pid (procs s (curr s)) \<noteq> 1 then
        deny (curr s) [Text (''(Hardware Claim Denied: Requires PID 1)'' @ [CHR 0x0A])] s
      else if a0 \<ge> 64 then Ret (ret (- 1) s)
      else Ret (ret 1 (s\<lparr>irq_registry := (irq_registry s)(a0 := pid (procs s (curr s)))\<rparr>)))"

section \<open>The process list\<close>

text \<open>One \<open>struct process_info\<close>, 56 bytes.\<close>

definition write_info :: "u64 \<Rightarrow> u64 \<Rightarrow> kstate \<Rightarrow> kstate" where
  "write_info pif ptr s =
     (let p = procs s ptr in
      s\<lparr>mem := put_bytes (pif + 32) (take 24 (p_name p)) (st64 (pif + 24) (cpu_time p)
        (st32 (pif + 20) (of_nat (priority p)) (st32 (pif + 16) (p_state p)
        (st64 (pif + 8) (parent_pid p) (st64 pif (pid p) (mem s))))))\<rparr>)"

text \<open>
  A circle of hart \<open>j\<close>. The \<open>continue\<close> for the idle process of another hart goes to the test
  of the loop without advancing.
\<close>

fun list_circle ::
  "nat \<Rightarrow> nat \<Rightarrow> u64 \<Rightarrow> u64 \<Rightarrow> u64 \<Rightarrow> u64 \<Rightarrow> u64 \<Rightarrow> kstate \<Rightarrow> (u64 \<times> u64 \<times> kstate) outcome" where
  "list_circle 0 j head target_idx ptr pif idx s = Hang"
| "list_circle (Suc n) j head target_idx ptr pif idx s =
     (let (ptr, pif, idx, s) =
        (if pid (procs s ptr) = 0 \<and> j \<noteq> 0 then (ptr, pif, idx, s)
         else (p_next (procs s ptr), pif + 56, idx + 1, write_info pif ptr s))
      in if ptr \<noteq> head \<and> idx < target_idx then list_circle n j head target_idx ptr pif idx s
         else Ret (pif, idx, s))"

definition list_hart ::
  "u64 \<Rightarrow> nat \<Rightarrow> u64 \<times> u64 \<times> kstate \<Rightarrow> (u64 \<times> u64 \<times> kstate) outcome" where
  "list_hart target_idx j = (\<lambda>(pif, idx, s).
     let r = closet_rq s j in
     if r = 0 then Ret (pif, idx, s)
     else
       bindO (acquire (RqLock r) s) (\<lambda>s.
       bindO (forO [0..<32] (\<lambda>i (pif, idx, s).
           if lookup_bitmap (rqs s r) AND shl1 i \<noteq> 0
           then list_circle walk_fuel j (circles (rqs s r) i) target_idx (circles (rqs s r) i) pif idx s
           else Ret (pif, idx, s)) (pif, idx, s)) (\<lambda>(pif, idx, s).
       Ret (pif, idx, release (RqLock r) s))))"

fun list_waiting :: "nat \<Rightarrow> u64 \<Rightarrow> u64 \<Rightarrow> u64 \<times> u64 \<times> kstate \<Rightarrow> (u64 \<times> u64 \<times> kstate) outcome" where
  "list_waiting 0 target_idx ptr (pif, idx, s) =
     (if ptr \<noteq> 0 \<and> idx < target_idx then Hang else Ret (pif, idx, s))"
| "list_waiting (Suc n) target_idx ptr (pif, idx, s) =
     (if ptr \<noteq> 0 \<and> idx < target_idx
      then list_waiting n target_idx (p_next (procs s ptr)) (pif + 56, idx + 1, write_info pif ptr s)
      else Ret (pif, idx, s))"

definition list_wlist ::
  "u64 \<Rightarrow> wlist \<Rightarrow> u64 \<times> u64 \<times> kstate \<Rightarrow> (u64 \<times> u64 \<times> kstate) outcome" where
  "list_wlist target_idx w = (\<lambda>(pif, idx, s).
     bindO (acquire (ListLock w) s) (\<lambda>s.
     bindO (list_waiting walk_fuel target_idx (lists s w) (pif, idx, s)) (\<lambda>(pif, idx, s).
     Ret (pif, idx, release (ListLock w) s))))"

definition sys_process_list :: "kstate \<Rightarrow> kstate outcome" where
  "sys_process_list s =
     (let phys_addr = uvm_translate (p_satp (procs s (curr s))) (reg 10 s) s;
          target_idx = reg 11 s in
      if phys_addr = 0 then bad_pointer s
      else if target_idx = 0 then
        deny (curr s) [Text ('' ( Count of Processes to be listed must be positive )'' @ [CHR 0x0A])] s
      else
        bindO (forO [0..<hart s] (list_hart target_idx) (phys_addr, 0, s)) (\<lambda>x.
        bindO (forO [Blocked, BlockedIpc, Sleeping, BlockedIpcSend, Zombie] (list_wlist target_idx) x)
          (\<lambda>(pif, idx, s). Ret (ret idx s))))"

end
