(* ===== verification/FindSpec.thy ===== *)
theory FindSpec
  imports SchedSpec Syscall
begin

text \<open>
  \<open>get_process_by_pid\<close> against the layout of the run queues and lists: it finds a process with
  the id exactly when one is at a place it searches, and leaves the state as it was.
\<close>

section \<open>What a search has found\<close>

text \<open>\<open>t\<close> is the result of looking for id \<open>n\<close> at the places \<open>X\<close>.\<close>

definition found :: "kstate \<Rightarrow> layout_of \<Rightarrow> place set \<Rightarrow> u64 \<Rightarrow> u64 \<Rightarrow> bool" where
  "found s L X n t \<longleftrightarrow>
     (if t = 0 then \<forall>x\<in>X. \<forall>p\<in>set (L x). pid (procs s p) \<noteq> n
      else pid (procs s t) = n \<and> (\<exists>x\<in>X. t \<in> set (L x)))"

lemma found_empty: "found s L {} n 0"
  by (simp add: found_def)

lemma found_more: "t \<noteq> 0 \<Longrightarrow> found s L X n t \<Longrightarrow> found s L (X \<union> Y) n t"
  by (auto simp: found_def)

lemma found_other: "found s L X n 0 \<Longrightarrow> found s L Y n t \<Longrightarrow> found s L (X \<union> Y) n t"
  unfolding found_def by (cases "t = 0") auto

lemma found_find:
  assumes "0 \<notin> set (L x)"
  shows "found s L {x} n (case find (\<lambda>p. pid (procs s p) = n) (L x) of Some p \<Rightarrow> p | None \<Rightarrow> 0)"
proof (cases "find (\<lambda>p. pid (procs s p) = n) (L x)")
  case None
  then have "\<forall>p\<in>set (L x). pid (procs s p) \<noteq> n" by (auto simp: find_None_iff)
  with None show ?thesis by (simp add: found_def)
next
  case (Some p)
  then have "p \<in> set (L x)" "pid (procs s p) = n" by (auto simp: find_Some_iff)
  moreover from this have "p \<noteq> 0" using assms by auto
  ultimately show ?thesis using Some by (simp add: found_def)
qed

section \<open>The walks\<close>

lemma find_in_circle_walk:
  assumes "circ (nxp s) (pvp s) (as @ p # bs)" and "length (p # bs) \<le> k" and "0 \<notin> set (p # bs)"
  shows "find_in_circle k n (hd (as @ p # bs)) p s =
    Ret (case find (\<lambda>q. pid (procs s q) = n) (p # bs) of Some q \<Rightarrow> q | None \<Rightarrow> 0)"
  using assms
proof (induction bs arbitrary: as p k)
  case Nil
  then obtain m where k: "k = Suc m" by (cases k) auto
  have "nxp s p = hd (as @ [p])" using circ_fields(1) [OF Nil(1)] by simp
  then show ?case by (simp add: k proc_links Let_def)
next
  case (Cons b bs)
  then obtain m where k: "k = Suc m" "length (b # bs) \<le> m" by (cases k) auto
  have nx: "nxp s p = b" using circ_fields(1) [OF Cons.prems(1)] by simp
  have "distinct (as @ p # b # bs)" using Cons.prems(1) by (simp add: circ_def)
  then have ne: "b \<noteq> hd (as @ p # b # bs)" by (cases as) auto
  show ?case
    using Cons.IH [of "as @ [p]" b m] Cons.prems(1,3) k nx ne
    by (cases "pid (procs s p) = n") (auto simp: proc_links Let_def)
qed

lemma find_in_circle_ok:
  assumes "linked s (OnQueue r i) xs" and "xs \<noteq> []" and "length xs \<le> k"
  shows "find_in_circle k n (circles (rqs s r) i) (circles (rqs s r) i) s =
    Ret (case find (\<lambda>q. pid (procs s q) = n) xs of Some q \<Rightarrow> q | None \<Rightarrow> 0)"
proof -
  obtain p bs where xs: "xs = p # bs" using assms(2) by (cases xs) auto
  have "circ (nxp s) (pvp s) ([] @ p # bs)" "circles (rqs s r) i = p" "0 \<notin> set (p # bs)"
    using assms(1) xs by auto
  then show ?thesis using find_in_circle_walk [of s "[]" p bs k n] assms(3) xs by simp
qed

lemma find_in_list_ok:
  assumes "dpath (nxp s) (pvp s) v h xs 0" and "0 \<notin> set xs" and "length xs \<le> k"
  shows "find_in_list k n h s = Ret (case find (\<lambda>p. pid (procs s p) = n) xs of Some p \<Rightarrow> p | None \<Rightarrow> 0)"
  using assms
proof (induction xs arbitrary: v h k)
  case Nil
  then show ?case by (cases k) simp_all
next
  case (Cons x xs)
  then obtain m where k: "k = Suc m" "length xs \<le> m" by (cases k) auto
  have h: "h = x" "x \<noteq> 0" "dpath (nxp s) (pvp s) x (nxp s x) xs 0" "0 \<notin> set xs" using Cons.prems by auto
  show ?case using Cons.IH [OF h(3,4) k(2)] h(1,2) by (simp add: k proc_links)
qed

text \<open>The walks read the processes only, so the locks held around them are irrelevant.\<close>

lemma find_locked [simp]:
  "find_in_circle k n h p (s\<lparr>locks := l\<rparr>) = find_in_circle k n h p s"
  "find_in_list k n p (s\<lparr>locks := l\<rparr>) = find_in_list k n p s"
  "find_on_hart is n r t (s\<lparr>locks := l\<rparr>) = find_on_hart is n r t s"
proof -
  show c: "find_in_circle k n h p (s\<lparr>locks := l\<rparr>) = find_in_circle k n h p s" for k h p
    by (induction k arbitrary: p) (simp_all add: Let_def)
  show "find_in_list k n p (s\<lparr>locks := l\<rparr>) = find_in_list k n p s"
    by (induction k arbitrary: p) simp_all
  show "find_on_hart is n r t (s\<lparr>locks := l\<rparr>) = find_on_hart is n r t s"
    by (induction "is" arbitrary: t) (simp_all add: Let_def c)
qed

lemma acquire_calm: "calm s \<Longrightarrow> acquire l s = Ret (s\<lparr>locks := (locks s)(l := 1)\<rparr>)"
  by (simp add: acquire_free calm_def)

lemma release_own: "calm s \<Longrightarrow> release l (s\<lparr>locks := (locks s)(l := 1)\<rparr>) = s"
  by (cases s) (simp add: release_def spinlock_release_def calm_def fun_upd_def fun_eq_iff)

section \<open>The stages of the search\<close>

lemma find_on_hart_ok:
  assumes pl: "placed s Q L" and r: "r \<in> Q" and len: "\<And>x. length (L x) \<le> walk_fuel"
    and ks: "\<forall>i\<in>set ks. i < 32" and t: "found s L X n t"
  shows "\<exists>u. find_on_hart ks n r t s = Ret u \<and> found s L (X \<union> OnQueue r ` set ks) n u"
  using ks t
proof (induction ks arbitrary: X t)
  case (Cons i ks)
  have i: "i < 32" using Cons.prems by simp
  have l: "linked s (OnQueue r i) (L (OnQueue r i))" by (rule placedD(1) [OF pl]) (use r i in simp)
  have b: "lookup_bitmap (rqs s r) AND shl1 i \<noteq> 0 \<longleftrightarrow> L (OnQueue r i) \<noteq> []"
    using placed_bit [OF pl r i] i by (simp add: shl1_test)
  define v where "v = (if L (OnQueue r i) = [] then t else if t = 0
    then case find (\<lambda>q. pid (procs s q) = n) (L (OnQueue r i)) of Some q \<Rightarrow> q | None \<Rightarrow> 0
    else if pid (procs s (circles (rqs s r) i)) = n then circles (rqs s r) i else t)"
  have z: "0 \<notin> set (L (OnQueue r i))" by (rule linked_nonzero [OF l])
  have hd: "circles (rqs s r) i \<in> set (L (OnQueue r i))" "circles (rqs s r) i \<noteq> 0" if "L (OnQueue r i) \<noteq> []"
  proof -
    have "circles (rqs s r) i = hd (L (OnQueue r i))" using l that by simp
    then show "circles (rqs s r) i \<in> set (L (OnQueue r i))" using that by simp
    then show "circles (rqs s r) i \<noteq> 0" using z by auto
  qed
  have "found s L (X \<union> {OnQueue r i}) n v"
  proof (cases "t = 0")
    case True
    then have "v = (case find (\<lambda>q. pid (procs s q) = n) (L (OnQueue r i)) of Some q \<Rightarrow> q | None \<Rightarrow> 0)"
      by (simp add: v_def)
    then show ?thesis using found_other [OF _ found_find [where L = L and x = "OnQueue r i", OF z]] Cons.prems(2) True by simp
  next
    case False
    then show ?thesis using Cons.prems(2) hd by (auto simp: v_def found_def)
  qed
  then have "\<exists>u. find_on_hart ks n r v s = Ret u \<and> found s L (X \<union> {OnQueue r i} \<union> OnQueue r ` set ks) n u"
    using Cons.IH [of "X \<union> {OnQueue r i}" v] Cons.prems(1) by simp
  moreover have "find_on_hart (i # ks) n r t s = find_on_hart ks n r v s"
    using b find_in_circle_ok [OF l _ len] by (auto simp: v_def Let_def)
  ultimately show ?case by (simp add: Un_assoc)
qed auto

definition hart_places :: "kstate \<Rightarrow> nat list \<Rightarrow> place set" where
  "hart_places s js = {OnQueue (closet_rq s j) i | j i. j \<in> set js \<and> closet_rq s j \<noteq> 0 \<and> i < 32}"

lemma hart_places_simps [simp]:
  "hart_places s [] = {}"
  "hart_places s (j # js) =
     (if closet_rq s j = 0 then {} else OnQueue (closet_rq s j) ` set [0..<32]) \<union> hart_places s js"
  by (auto simp: hart_places_def)

lemma find_on_harts_ok:
  assumes pl: "placed s Q L" and c: "calm s" and len: "\<And>x. length (L x) \<le> walk_fuel"
    and q: "\<forall>j\<in>set js. closet_rq s j = 0 \<or> closet_rq s j \<in> Q"
  shows "\<exists>t. find_on_harts js n s = Ret (t, s) \<and> found s L (hart_places s js) n t"
  using q
proof (induction js)
  case (Cons j js)
  then obtain t where IH: "find_on_harts js n s = Ret (t, s)" "found s L (hart_places s js) n t" by auto
  show ?case
  proof (cases "closet_rq s j = 0")
    case False
    then have r: "closet_rq s j \<in> Q" using Cons.prems by simp
    obtain u where u: "find_on_hart [0..<32] n (closet_rq s j) 0 s = Ret u"
      "found s L (OnQueue (closet_rq s j) ` set [0..<32]) n u"
      using find_on_hart_ok [OF pl r len _ found_empty, of "[0..<32]" n] by auto
    note a = acquire_calm [OF c]
    have f: "find_on_harts (j # js) n s = (if u \<noteq> 0 then Ret (u, s) else find_on_harts js n s)"
      using False u(1) by (simp add: a release_own [OF c] del: upt_rec)
    show ?thesis
      using False IH found_more [OF _ u(2)] found_other [OF _ IH(2)] u(2)
      by (cases "u = 0") (simp_all add: f del: set_upt find_on_harts.simps)
  qed (use IH in simp)
qed (simp add: found_empty)

lemma find_waiting_ok:
  assumes pl: "placed s Q L" and c: "calm s" and len: "\<And>x. length (L x) \<le> walk_fuel"
    and t: "found s L X n t"
  shows "\<exists>u. find_waiting w n t s = Ret (u, s) \<and> found s L (X \<union> {OnList w}) n u"
proof -
  have l: "linked s (OnList w) (L (OnList w))" by (rule placedD(1) [OF pl]) simp
  define v where "v = (if t = 0 then case find (\<lambda>p. pid (procs s p) = n) (L (OnList w)) of Some p \<Rightarrow> p | None \<Rightarrow> 0 else t)"
  have f: "find_in_list walk_fuel n (lists s w) s =
      Ret (case find (\<lambda>p. pid (procs s p) = n) (L (OnList w)) of Some p \<Rightarrow> p | None \<Rightarrow> 0)"
    using l find_in_list_ok [OF _ _ len] by (auto simp: dlist_def)
  note a = acquire_calm [OF c]
  have "find_waiting w n t s = Ret (v, s)"
    using f by (simp add: find_waiting_def a v_def release_own [OF c])
  moreover have "found s L (X \<union> {OnList w}) n v"
    using t found_more [OF _ t, of "{OnList w}"] found_other [OF _ found_find [where L = L and x = "OnList w", OF linked_nonzero [OF l]]] by (auto simp: v_def)
  ultimately show ?thesis by blast
qed

text \<open>All the places the search visits.\<close>

definition searched :: "kstate \<Rightarrow> place set" where
  "searched s = hart_places s [0..<hart s] \<union> OnList ` {Blocked, BlockedIpc, BlockedIpcSend, Sleeping}"

lemma get_process_ok:
  assumes pl: "placed s Q L" and c: "calm s" and len: "\<And>x. length (L x) \<le> walk_fuel"
    and q: "\<forall>j<hart s. closet_rq s j = 0 \<or> closet_rq s j \<in> Q"
  shows "\<exists>t. get_process_by_pid n s = Ret (t, s) \<and> found s L (searched s) n t"
proof -
  obtain t where "find_on_harts [0..<hart s] n s = Ret (t, s)" "found s L (hart_places s [0..<hart s]) n t"
    using find_on_harts_ok [OF pl c len, of "[0..<hart s]" n] q by auto
  moreover note w = find_waiting_ok [OF pl c len]
  ultimately obtain t1 where 1: "find_waiting Blocked n t s = Ret (t1, s)"
    "found s L (hart_places s [0..<hart s] \<union> {OnList Blocked}) n t1" using w by blast
  then obtain t2 where 2: "find_waiting BlockedIpc n t1 s = Ret (t2, s)"
    "found s L (hart_places s [0..<hart s] \<union> {OnList Blocked} \<union> {OnList BlockedIpc}) n t2" using w by blast
  then obtain t3 where 3: "find_waiting BlockedIpcSend n t2 s = Ret (t3, s)"
    "found s L (hart_places s [0..<hart s] \<union> {OnList Blocked} \<union> {OnList BlockedIpc} \<union> {OnList BlockedIpcSend}) n t3"
    using w by blast
  then obtain t4 where 4: "find_waiting Sleeping n t3 s = Ret (t4, s)"
    "found s L (hart_places s [0..<hart s] \<union> {OnList Blocked} \<union> {OnList BlockedIpc} \<union> {OnList BlockedIpcSend}
      \<union> {OnList Sleeping}) n t4" using w by blast
  have e: "searched s = hart_places s [0..<hart s] \<union> {OnList Blocked} \<union> {OnList BlockedIpc} \<union>
      {OnList BlockedIpcSend} \<union> {OnList Sleeping}" by (auto simp: searched_def)
  show ?thesis using 1 2 3 4 \<open>find_on_harts _ _ _ = _\<close> by (simp add: get_process_by_pid_def e)
qed

text \<open>
  C29. Looking a process up by id, on a machine whose lists are well formed: the search always ends,
  leaves the whole state as it was (every lock it took is free again), and finds a process with
  that id exactly when one is on a run queue of any hart or on the list of the blocked, the
  sleeping, the waiting receivers or the waiting senders. Exited processes are never found.
\<close>

theorem get_process_by_pid_correct:
  assumes "placed s Q L" and "calm s" and "\<And>x. length (L x) \<le> walk_fuel"
    and "\<forall>j<hart s. closet_rq s j = 0 \<or> closet_rq s j \<in> Q"
  shows "\<exists>t. get_process_by_pid n s = Ret (t, s) \<and>
    (if t = 0 then \<forall>x\<in>searched s. \<forall>p\<in>set (L x). pid (procs s p) \<noteq> n
     else pid (procs s t) = n \<and> (\<exists>x\<in>searched s. t \<in> set (L x)))"
  using get_process_ok [OF assms, of n] by (simp add: found_def)

theorem get_process_by_pid_correct_witness:
  "\<exists>t. get_process_by_pid 3 demo_ks = Ret (t, demo_ks) \<and> t \<noteq> 0 \<and> pid (procs demo_ks t) = 3"
proof -
  have "length (demo_L x) \<le> walk_fuel" for x by (cases x) (simp_all add: walk_fuel_def)
  moreover have "\<forall>j<hart demo_ks. closet_rq demo_ks j = 0 \<or> closet_rq demo_ks j \<in> demo_Q" by (simp add: demo_Q_def)
  ultimately obtain t where t: "get_process_by_pid 3 demo_ks = Ret (t, demo_ks)"
    "if t = 0 then \<forall>x\<in>searched demo_ks. \<forall>p\<in>set (demo_L x). pid (procs demo_ks p) \<noteq> 3
     else pid (procs demo_ks t) = 3 \<and> (\<exists>x\<in>searched demo_ks. t \<in> set (demo_L x))"
    using get_process_by_pid_correct [OF demo_placed demo_ok(1), of 3] by blast
  have "OnList Sleeping \<in> searched demo_ks" "0x5000 \<in> set (demo_L (OnList Sleeping))" "pid (procs demo_ks 0x5000) = 3"
    by (simp_all add: searched_def demo_procs_def demo_proc_def)
  then have "t \<noteq> 0" using t(2) by (metis (no_types, lifting))
  then show ?thesis using t by auto
qed

end
