(* ===== verification/RightsSpec.thy ===== *)
theory RightsSpec
  imports FindSpec
begin

text \<open>
  Rights: a process's table has four bits for every process id. What \<open>grant\<close> and \<open>revoke\<close>
  write, and that no sequence of them gives anyone a right that nobody had.
\<close>

section \<open>Four bits of a cell\<close>

lemma bit_15: "bit (15 :: int) i \<longleftrightarrow> i < 4"
proof -
  have "(15 :: int) = mask 4" by (simp add: mask_eq_exp_minus_1)
  then show ?thesis by (simp only: bit_mask_iff) auto
qed

definition nibble :: "u64 \<Rightarrow> nat \<Rightarrow> u64" where
  "nibble w k = drop_bit (4 * k) w AND 15"

lemma bit_nibble: "bit (nibble w k) i \<longleftrightarrow> i < 4 \<and> bit w (4 * k + i)"
  by (auto simp: nibble_def bit_and_iff bit_15 bit_drop_bit_eq)

lemma nibble_write:
  assumes "j < 16" and "k < 16"
  shows "nibble ((w AND NOT (push_bit (4 * k) 15)) OR push_bit (4 * k) (v AND 15)) j =
    (if j = k then v AND 15 else nibble w j)"
proof (rule bit_eqI)
  fix i
  have "4 * j + i < 64" "4 * k \<le> 4 * j + i \<and> 4 * j + i - 4 * k < 4 \<longleftrightarrow> j = k" if "i < 4"
    using assms that by auto
  then show "bit (nibble ((w AND NOT (push_bit (4 * k) 15)) OR push_bit (4 * k) (v AND 15)) j) i \<longleftrightarrow>
      bit (if j = k then v AND 15 else nibble w j) i"
    by (auto simp: bit_nibble bit_or_iff bit_and_iff bit_not_iff bit_push_bit_iff bit_15)
qed

section \<open>Tables\<close>

definition rights_of :: "u64 \<Rightarrow> u64 \<Rightarrow> kstate \<Rightarrow> u64" where
  "rights_of p n s = drop_bit (cap_shift n) (load s (cap_cell p n s)) AND 15"

text \<open>The tables of the processes \<open>P\<close> are four pages each and do not overlap.\<close>

definition table_at :: "kstate \<Rightarrow> u64 \<Rightarrow> nat" where
  "table_at s p = unat (capability_root (procs s p))"

definition cap_tables :: "kstate \<Rightarrow> u64 set \<Rightarrow> bool" where
  "cap_tables s P \<longleftrightarrow>
     (\<forall>p\<in>P. table_at s p + 16384 \<le> 2 ^ 64) \<and>
     (\<forall>p\<in>P. \<forall>q\<in>P. p \<noteq> q \<longrightarrow> table_at s p + 16384 \<le> table_at s q \<or> table_at s q + 16384 \<le> table_at s p)"

lemma cap_shift_eq: "cap_shift n = 4 * (unat n mod 16)"
proof -
  have "unat n mod 16 * 4 < 2 ^ 64" using mod_less_divisor [of 16 "unat n"] by simp
  then show ?thesis by (simp add: cap_shift_def unat_word_ariths unat_mod)
qed

lemma rights_nibble: "rights_of p n s = nibble (load s (cap_cell p n s)) (unat n mod 16)"
  by (simp add: rights_of_def nibble_def cap_shift_eq)

lemma cap_offset:
  fixes n :: u64
  assumes "n < 32768"
  shows "unat (8 * ucast (ucast (n div 16) :: u32) :: u64) = 8 * (unat n div 16)" and "unat n div 16 < 2048"
proof -
  have "unat n < 32768" using assms by (simp add: word_less_nat_alt)
  then show d: "unat n div 16 < 2048" by (simp add: less_mult_imp_div_less)
  have "take_bit 32 (unat n div 16) = unat n div 16" by (rule take_bit_nat_eq_self) (use d in simp)
  then have "unat (ucast (ucast (n div 16) :: u32) :: u64) = unat n div 16"
    by (simp add: unsigned_ucast_eq unsigned_take_bit_eq unat_div)
  then show "unat (8 * ucast (ucast (n div 16) :: u32) :: u64) = 8 * (unat n div 16)"
    using d by (simp add: unat_word_ariths)
qed

lemma unat_cap_cell:
  assumes "table_at s p + 16384 \<le> 2 ^ 64" and "n < 32768"
  shows "unat (cap_cell p n s) = table_at s p + 8 * (unat n div 16)"
  using assms cap_offset [OF assms(2)] by (simp add: cap_cell_def table_at_def unat_word_ariths)

lemma cap_cells_apart:
  assumes "cap_tables s P" and "p \<in> P" and "q \<in> P" and "m < 32768" and "n < 32768"
    and "p \<noteq> q \<or> unat m div 16 \<noteq> unat n div 16"
  shows "apart (cap_cell p m s) (cap_cell q n s)"
proof -
  have b: "table_at s p + 16384 \<le> 2 ^ 64" "table_at s q + 16384 \<le> 2 ^ 64" using assms by (auto simp: cap_tables_def)
  note u = unat_cap_cell [OF b(1) assms(4)] unat_cap_cell [OF b(2) assms(5)]
  note d = cap_offset(2) [OF assms(4)] cap_offset(2) [OF assms(5)]
  have "unat (cap_cell p m s) + 8 \<le> unat (cap_cell q n s) \<and> unat (cap_cell q n s) + 8 \<le> 2 ^ 64 \<or>
      unat (cap_cell q n s) + 8 \<le> unat (cap_cell p m s) \<and> unat (cap_cell p m s) + 8 \<le> 2 ^ 64"
  proof (cases "p = q")
    case True
    then show ?thesis using u d b assms(6) by (cases "unat m div 16 < unat n div 16") auto
  next
    case False
    then have "table_at s p + 16384 \<le> table_at s q \<or> table_at s q + 16384 \<le> table_at s p"
      using assms(1-3) by (auto simp: cap_tables_def)
    then show ?thesis using u d b by auto
  qed
  then show ?thesis using apart_nat [of "cap_cell p m s" "cap_cell q n s"] apart_nat [of "cap_cell q n s" "cap_cell p m s"]
    by (auto simp: apart_sym)
qed

lemma procs_set_rights [simp]: "procs (set_rights p n v s) = procs s"
  by (simp add: set_rights_def store_def)

lemma rights_set_rights:
  assumes "cap_tables s P" and "p \<in> P" and "q \<in> P" and "m < 32768" and "n < 32768"
  shows "rights_of q m (set_rights p n v s) = (if q = p \<and> m = n then v AND 15 else rights_of q m s)"
proof -
  have c: "cap_cell q m (set_rights p n v s) = cap_cell q m s" by (simp add: cap_cell_def)
  let ?w = "(load s (cap_cell p n s) AND NOT (push_bit (cap_shift n) 15)) OR push_bit (cap_shift n) (v AND 15)"
  have l: "load (set_rights p n v s) a = ld64 (st64 (cap_cell p n s) ?w (mem s)) a" for a
    by (simp add: set_rights_def load_def store_def)
  show ?thesis
  proof (cases "q = p \<and> unat m div 16 = unat n div 16")
    case True
    then have "8 * ucast (ucast (m div 16) :: u32) = (8 * ucast (ucast (n div 16) :: u32) :: u64)"
      using cap_offset(1) [OF assms(4)] cap_offset(1) [OF assms(5)] by (metis word_unat_eq_iff)
    then have "cap_cell q m s = cap_cell p n s" using True by (simp only: cap_cell_def)
    then have "rights_of q m (set_rights p n v s) = nibble ?w (unat m mod 16)"
      by (simp only: rights_nibble c l ld64_st64_same)
    also have "\<dots> = (if unat m mod 16 = unat n mod 16 then v AND 15 else rights_of q m s)"
      using nibble_write [of "unat m mod 16" "unat n mod 16"] \<open>cap_cell q m s = _\<close>
      by (simp add: cap_shift_eq rights_nibble)
    also have "unat m mod 16 = unat n mod 16 \<longleftrightarrow> m = n"
      using True by (metis div_mult_mod_eq word_unat_eq_iff)
    finally show ?thesis using True by simp
  next
    case False
    then have "apart (cap_cell p n s) (cap_cell q m s)" using cap_cells_apart [OF assms(1-3,5,4)] by auto
    then have "ld64 (st64 (cap_cell p n s) ?w (mem s)) (cap_cell q m s) = load s (cap_cell q m s)"
      by (simp add: load_def)
    then have "load (set_rights p n v s) (cap_cell q m s) = load s (cap_cell q m s)" by (simp only: l)
    then show ?thesis using False by (auto simp: rights_nibble c)
  qed
qed

section \<open>The calls\<close>

lemma deny_ok: "calm s \<Longrightarrow> \<exists>out. deny p items s = Ret (ret (- 1) (s\<lparr>uart_out := uart_out s @ out\<rparr>))"
  by (simp add: deny_def say_ok calm_def) blast

text \<open>A machine on which a call looks processes up, and whose tables are the ones of \<open>P\<close>.\<close>

definition lookup_ok :: "kstate \<Rightarrow> u64 set \<Rightarrow> layout_of \<Rightarrow> bool" where
  "lookup_ok s Q L \<longleftrightarrow> placed s Q L \<and> calm s \<and> (\<forall>x. length (L x) \<le> walk_fuel) \<and>
     (\<forall>j<hart s. closet_rq s j = 0 \<or> closet_rq s j \<in> Q)"

lemma lookup: "lookup_ok s Q L \<Longrightarrow> \<exists>t. get_process_by_pid n s = Ret (t, s) \<and> found s L (searched s) n t"
  using get_process_ok [of s Q L n] by (simp add: lookup_ok_def)

definition monitored :: "u64 set \<Rightarrow> kstate \<Rightarrow> u64 set \<Rightarrow> layout_of \<Rightarrow> bool" where
  "monitored P s Q L \<longleftrightarrow> lookup_ok s Q L \<and> cap_tables s P \<and> curr s \<in> P \<and>
     (\<forall>x\<in>searched s. set (L x) \<subseteq> P) \<and> reg 11 s < 32768"

lemma found_in: "monitored P s Q L \<Longrightarrow> found s L (searched s) n t \<Longrightarrow> t \<noteq> 0 \<Longrightarrow> t \<in> P"
  by (auto simp: monitored_def found_def)

text \<open>What the caller needs for a grant; the fourth right lifts the whitelist.\<close>

definition may_grant :: "kstate \<Rightarrow> bool" where
  "may_grant s \<longleftrightarrow>
     (let r = rights_of (curr s) (reg 11 s) s; given = reg 12 s AND 15; me = procs s (curr s) in
      r AND 4 \<noteq> 0 \<and> r AND given = given \<and>
      (r AND 8 \<noteq> 0 \<or> pid me = 1 \<or> (\<exists>i<unat (active_grant me). grant_whitelist me i = reg 10 s)))"

lemma whitelisted_iff: "whitelisted p n s \<noteq> None \<longleftrightarrow> (\<exists>i<unat (active_grant (procs s p)). grant_whitelist (procs s p) i = n)"
  by (auto simp: whitelisted_def find_None_iff)

lemma grant_ok:
  assumes "lookup_ok s Q L"
  shows "\<exists>t out. found s L (searched s) (reg 10 s) t \<and>
    sys_grant_permit s = Ret (if t \<noteq> 0 \<and> may_grant s then ret 1 (set_rights t (reg 11 s) (reg 12 s) s)
      else ret (- 1) (s\<lparr>uart_out := uart_out s @ out\<rparr>))"
proof -
  obtain t where t: "get_process_by_pid (reg 10 s) s = Ret (t, s)" "found s L (searched s) (reg 10 s) t"
    using lookup [OF assms] by blast
  have "calm s" using assms by (simp add: lookup_ok_def)
  note d = deny_ok [OF this]
  define r where "r = rights_of (curr s) (reg 11 s) s"
  define given where "given = reg 12 s AND 15"
  define listed where "listed \<longleftrightarrow> whitelisted (curr s) (reg 10 s) s \<noteq> None"
  obtain i1 i2 i3 where g: "sys_grant_permit s =
      (if t = 0 then Ret (ret (- 1) s)
       else if r AND 4 = 0 then deny (curr s) i1 s
       else if r AND given \<noteq> given then deny (curr s) i2 s
       else if r AND 8 \<noteq> 0 \<or> pid (procs s (curr s)) = 1 then Ret (ret 1 (set_rights t (reg 11 s) (reg 12 s) s))
       else if listed then Ret (ret 1 (set_rights t (reg 11 s) (reg 12 s) s))
       else deny (curr s) i3 s)"
    by (simp only: sys_grant_permit_def Let_def t(1) bindO.simps split_conv rights_of_def [symmetric]
        r_def [symmetric] given_def [symmetric] listed_def [symmetric])
  have m: "may_grant s \<longleftrightarrow> r AND 4 \<noteq> 0 \<and> r AND given = given \<and> (r AND 8 \<noteq> 0 \<or> pid (procs s (curr s)) = 1 \<or> listed)"
    unfolding may_grant_def Let_def r_def given_def listed_def whitelisted_iff by (rule refl)
  show ?thesis
  proof (cases "t = 0 \<or> may_grant s")
    case True
    have "sys_grant_permit s = Ret (if t \<noteq> 0 \<and> may_grant s then ret 1 (set_rights t (reg 11 s) (reg 12 s) s)
      else ret (- 1) (s\<lparr>uart_out := uart_out s @ []\<rparr>))"
      using True unfolding g m by (cases "t = 0") auto
    then show ?thesis using t(2) by blast
  next
    case False
    then have "\<exists>items. sys_grant_permit s = deny (curr s) items s"
      unfolding g m by auto
    then obtain items where "sys_grant_permit s = deny (curr s) items s" ..
    then show ?thesis using d [of "curr s" items] t(2) False by auto
  qed
qed

definition may_revoke :: "u64 \<Rightarrow> kstate \<Rightarrow> bool" where
  "may_revoke t s \<longleftrightarrow> parent_pid (procs s t) = pid (procs s (curr s)) \<or> pid (procs s (curr s)) = 1"

lemma revoke_ok:
  assumes "lookup_ok s Q L"
  shows "\<exists>t out. found s L (searched s) (reg 10 s) t \<and>
    sys_revoke_permit s = Ret (if t \<noteq> 0 \<and> may_revoke t s then ret 1 (set_rights t (reg 11 s) 0 s)
      else ret (- 1) (s\<lparr>uart_out := uart_out s @ out\<rparr>))"
proof -
  obtain t where t: "get_process_by_pid (reg 10 s) s = Ret (t, s)" "found s L (searched s) (reg 10 s) t"
    using lookup [OF assms] by blast
  have "calm s" using assms by (simp add: lookup_ok_def)
  note d = deny_ok [OF this]
  obtain items where g: "sys_revoke_permit s =
      (if t = 0 then Ret (ret (- 1) s)
       else if parent_pid (procs s t) \<noteq> pid (procs s (curr s)) \<and> pid (procs s (curr s)) \<noteq> 1
       then deny (curr s) items s else Ret (ret 1 (set_rights t (reg 11 s) 0 s)))"
    by (simp only: sys_revoke_permit_def Let_def t(1) bindO.simps split_conv)
  show ?thesis
  proof (cases "t \<noteq> 0 \<and> \<not> may_revoke t s")
    case True
    then have "sys_revoke_permit s = deny (curr s) items s" unfolding g may_revoke_def by simp
    then show ?thesis using d [of "curr s" items] t(2) True by auto
  next
    case False
    then have "sys_revoke_permit s = Ret (if t \<noteq> 0 \<and> may_revoke t s then ret 1 (set_rights t (reg 11 s) 0 s)
      else ret (- 1) (s\<lparr>uart_out := uart_out s @ []\<rparr>))"
      unfolding g may_revoke_def by (cases "t = 0") auto
    then show ?thesis using t(2) by blast
  qed
qed

lemma rights_other [simp]:
  "rights_of p n (ret v s) = rights_of p n s" "rights_of p n (s\<lparr>uart_out := out\<rparr>) = rights_of p n s"
  by (simp_all add: rights_of_def ret_def set_a0_def upd_tf_def cap_cell_def load_def)

lemma reg_ret: "reg 10 (ret v s) = v"
  by (simp add: reg_def ret_def set_a0_def upd_tf_def curr_def)

lemma grant_rights:
  assumes m: "monitored P s Q L"
  shows "\<exists>t s'. sys_grant_permit s = Ret s' \<and> found s L (searched s) (reg 10 s) t \<and>
    (let ok = t \<noteq> 0 \<and> may_grant s in reg 10 s' = (if ok then 1 else - 1) \<and>
      (\<forall>p\<in>P. \<forall>n<32768. rights_of p n s' =
        (if ok \<and> p = t \<and> n = reg 11 s then reg 12 s AND 15 else rights_of p n s)))"
proof -
  have lk: "lookup_ok s Q L" and tb: "cap_tables s P" and a1: "reg 11 s < 32768" using m by (auto simp: monitored_def)
  obtain t out where t: "found s L (searched s) (reg 10 s) t"
    "sys_grant_permit s = Ret (if t \<noteq> 0 \<and> may_grant s then ret 1 (set_rights t (reg 11 s) (reg 12 s) s)
      else ret (- 1) (s\<lparr>uart_out := uart_out s @ out\<rparr>))" using grant_ok [OF lk] by blast
  have "rights_of p n (set_rights t (reg 11 s) (reg 12 s) s) =
      (if p = t \<and> n = reg 11 s then reg 12 s AND 15 else rights_of p n s)" if "p \<in> P" "n < 32768" "t \<noteq> 0" for p n
    using rights_set_rights [OF tb found_in [OF m t(1)]] that a1 by simp
  then show ?thesis using t by (intro exI [of _ t] exI conjI) (auto simp: reg_ret Let_def)
qed

lemma revoke_rights:
  assumes m: "monitored P s Q L"
  shows "\<exists>t s'. sys_revoke_permit s = Ret s' \<and> found s L (searched s) (reg 10 s) t \<and>
    (let ok = t \<noteq> 0 \<and> may_revoke t s in reg 10 s' = (if ok then 1 else - 1) \<and>
      (\<forall>p\<in>P. \<forall>n<32768. rights_of p n s' = (if ok \<and> p = t \<and> n = reg 11 s then 0 else rights_of p n s)))"
proof -
  have lk: "lookup_ok s Q L" and tb: "cap_tables s P" and a1: "reg 11 s < 32768" using m by (auto simp: monitored_def)
  obtain t out where t: "found s L (searched s) (reg 10 s) t"
    "sys_revoke_permit s = Ret (if t \<noteq> 0 \<and> may_revoke t s then ret 1 (set_rights t (reg 11 s) 0 s)
      else ret (- 1) (s\<lparr>uart_out := uart_out s @ out\<rparr>))" using revoke_ok [OF lk] by blast
  have "rights_of p n (set_rights t (reg 11 s) 0 s) =
      (if p = t \<and> n = reg 11 s then 0 else rights_of p n s)" if "p \<in> P" "n < 32768" "t \<noteq> 0" for p n
    using rights_set_rights [OF tb found_in [OF m t(1)]] that a1 by simp
  then show ?thesis using t by (intro exI [of _ t] exI conjI) (auto simp: reg_ret Let_def)
qed

section \<open>Any sequence of calls\<close>

text \<open>
  Between two calls anything may happen that leaves the tables' rights as they are: other
  processes run, and the next caller's registers are arbitrary.
\<close>

inductive rights_run :: "u64 set \<Rightarrow> kstate \<Rightarrow> kstate \<Rightarrow> bool" for P s where
  start: "rights_run P s s"
| elsewhere: "rights_run P s t \<Longrightarrow> \<forall>p\<in>P. \<forall>n<32768. rights_of p n u = rights_of p n t \<Longrightarrow> rights_run P s u"
| granted: "rights_run P s t \<Longrightarrow> monitored P t Q L \<Longrightarrow> sys_grant_permit t = Ret u \<Longrightarrow> rights_run P s u"
| revoked: "rights_run P s t \<Longrightarrow> monitored P t Q L \<Longrightarrow> sys_revoke_permit t = Ret u \<Longrightarrow> rights_run P s u"

definition held :: "u64 set \<Rightarrow> kstate \<Rightarrow> u64 \<Rightarrow> nat set" where
  "held P s n = {b. \<exists>p\<in>P. bit (rights_of p n s) b}"

lemma grant_held:
  assumes "monitored P s Q L" and "sys_grant_permit s = Ret s'" and "n < 32768"
  shows "held P s' n \<subseteq> held P s n"
proof
  fix b assume "b \<in> held P s' n"
  then obtain p where p: "p \<in> P" "bit (rights_of p n s') b" by (auto simp: held_def)
  obtain t where r: "rights_of p n s' = (if t \<noteq> 0 \<and> may_grant s \<and> p = t \<and> n = reg 11 s then reg 12 s AND 15 else rights_of p n s)"
    using grant_rights [OF assms(1)] assms(2,3) p(1) by (auto simp: Let_def)
  have c: "curr s \<in> P" using assms(1) by (simp add: monitored_def)
  show "b \<in> held P s n"
  proof (cases "may_grant s \<and> p = t \<and> n = reg 11 s \<and> t \<noteq> 0")
    case True
    then have "rights_of (curr s) n s AND (reg 12 s AND 15) = reg 12 s AND 15" by (simp only: may_grant_def Let_def)
    moreover have "bit (reg 12 s AND 15) b" using p(2) r True by simp
    ultimately have "bit (rights_of (curr s) n s) b" by (metis bit_and_iff)
    then show ?thesis using c by (auto simp: held_def)
  qed (use p r in \<open>auto simp: held_def split: if_splits\<close>)
qed

lemma revoke_held:
  assumes "monitored P s Q L" and "sys_revoke_permit s = Ret s'" and "n < 32768"
  shows "held P s' n \<subseteq> held P s n"
proof
  fix b assume "b \<in> held P s' n"
  then obtain p where p: "p \<in> P" "bit (rights_of p n s') b" by (auto simp: held_def)
  then obtain t where "rights_of p n s' = (if t \<noteq> 0 \<and> may_revoke t s \<and> p = t \<and> n = reg 11 s then 0 else rights_of p n s)"
    using revoke_rights [OF assms(1)] assms(2,3) by (auto simp: Let_def)
  then show "b \<in> held P s n" using p by (auto simp: held_def split: if_splits)
qed

text \<open>
  C25. No sequence of grants and revocations of rights on ids below 32768, by whatever processes of \<open>P\<close>, to whatever
  targets and for whatever rights, creates authority: a right on a process id that some process holds at the end was
  held by some process at the beginning. The kernel does not check the id: a call with an id of 32768 or more
  reads and writes after the tables and is not covered.
\<close>

theorem rights_never_created:
  assumes "rights_run P s t" and "n < 32768"
  shows "held P t n \<subseteq> held P s n"
  using assms(1)
proof induction
  case (elsewhere t u)
  then show ?case using assms(2) by (auto simp: held_def)
next
  case (granted t Q L u)
  then show ?case using grant_held [OF granted(2,3) assms(2)] by blast
next
  case (revoked t Q L u)
  then show ?case using revoke_held [OF revoked(2,3) assms(2)] by blast
qed simp

text \<open>Process 1 holds rights 7 on id 3 and asks for process 2 to have right 1 on it.\<close>

definition rights_ks :: kstate where
  "rights_ks = demo_ks\<lparr>procs := (\<lambda>p. (demo_procs p)\<lparr>capability_root := 16 * p\<rparr>),
     mem := (\<lambda>a. if a = 0x30001 then 0x70 else 0),
     tframes := (\<lambda>_. \<lparr>u_context = (\<lambda>i. if i = 10 then 2 else if i = 11 then 3 else if i = 12 then 1 else 0),
       epc = 0, sstatus = 0, kernel_satp = 0, kernel_sp = 0, kernel_trap = 0, user_satp = 0, kernel_tp = 0\<rparr>)\<rparr>"

abbreviation demo_P :: "u64 set" where
  "demo_P \<equiv> {0x2000, 0x3000, 0x4000, 0x5000, 0x6000}"

lemma rights_ks_fields:
  "procs rights_ks p = (demo_procs p)\<lparr>capability_root := 16 * p\<rparr>" "rqs rights_ks = demo_rq"
  "locks rights_ks = (\<lambda>_. 0)" "curr rights_ks = 0x3000" "hart rights_ks = 2"
  "closet_rq rights_ks j = (if j = 0 then 0x1000 else if j = 1 then 0x1800 else 0)"
  "lists rights_ks w = (if w = Sleeping then 0x5000 else 0)"
  "reg 10 rights_ks = 2" "reg 11 rights_ks = 3" "reg 12 rights_ks = 1"
  by (simp_all add: rights_ks_def reg_def) (simp add: curr_def demo_rq_def)

lemma rights_ks_placed: "placed rights_ks demo_Q demo_L"
proof -
  have n: "nxp rights_ks = nxp demo_ks" "pvp rights_ks = pvp demo_ks"
    by (simp_all add: nxp_def pvp_def rights_ks_fields fun_eq_iff)
  have "linked rights_ks x (demo_L x)" if "x \<in> places demo_Q" for x
    using placedD(1) [OF demo_placed that] by (cases x) (auto simp: rights_ks_fields n)
  moreover have "fits rights_ks x p" if "x \<in> places demo_Q" "p \<in> set (demo_L x)" for x p
    using placedD(2) [OF demo_placed that] by (cases x) (simp_all add: fits.simps rights_ks_fields)
  ultimately show ?thesis using demo_placed by (simp add: placed_def)
qed

lemma rights_ks_monitored: "monitored demo_P rights_ks demo_Q demo_L"
proof -
  have "length (demo_L x) \<le> walk_fuel" for x by (cases x) (simp_all add: walk_fuel_def)
  then have "lookup_ok rights_ks demo_Q demo_L"
    using rights_ks_placed by (simp add: lookup_ok_def calm_def rights_ks_fields) (simp add: demo_Q_def)
  moreover have "cap_tables rights_ks demo_P"
    by (simp add: cap_tables_def table_at_def rights_ks_fields)
  moreover have "set (demo_L x) \<subseteq> demo_P" for x by (cases x) auto
  ultimately show ?thesis by (simp add: monitored_def rights_ks_fields)
qed

theorem rights_never_created_witness:
  "\<exists>t. sys_grant_permit rights_ks = Ret t \<and> rights_of 0x4000 3 t = 1 \<and>
    held demo_P t 3 \<subseteq> held demo_P rights_ks 3"
proof -
  have "mem rights_ks = (\<lambda>a. if a = 0x30001 then 0x70 else 0)" "cap_cell 0x3000 3 rights_ks = 0x30000"
    by (simp_all add: rights_ks_def cap_cell_def)
  then have "ld64 (mem rights_ks) (cap_cell 0x3000 3 rights_ks) = 0x7000"
    by (simp add: ld64_def ld_bytes_numeral)
  then have seven: "rights_of 0x3000 3 rights_ks = 7" by (simp add: rights_nibble nibble_def load_def)
  then have may: "may_grant rights_ks" by (simp add: may_grant_def rights_ks_fields demo_procs_def demo_proc_def)
  obtain p t where r: "sys_grant_permit rights_ks = Ret t" "found rights_ks demo_L (searched rights_ks) 2 p"
    "p \<noteq> 0 \<longrightarrow> p \<in> demo_P \<longrightarrow> rights_of p 3 t = 1"
    using grant_rights [OF rights_ks_monitored] may by (auto simp: rights_ks_fields Let_def)
  have "OnQueue 0x1000 16 \<in> searched rights_ks" by (auto simp: searched_def hart_places_def rights_ks_fields)
  moreover have "0x4000 \<in> set (demo_L (OnQueue 0x1000 16))" "pid (procs rights_ks 0x4000) = 2"
    by (simp_all add: rights_ks_fields demo_procs_def demo_proc_def)
  ultimately have "p \<noteq> 0" using r(2) unfolding found_def by metis
  moreover have "p \<in> demo_P" using found_in [OF rights_ks_monitored, of 2 p] r(2) \<open>p \<noteq> 0\<close> by simp
  moreover have "pid (procs rights_ks p) = 2" using r(2) \<open>p \<noteq> 0\<close> by (simp add: found_def)
  ultimately have "rights_of 0x4000 3 t = 1"
    using r(3) by (auto simp: rights_ks_fields demo_procs_def demo_proc_def)
  moreover have "rights_run demo_P rights_ks t"
    by (rule granted [OF start rights_ks_monitored r(1)])
  ultimately show ?thesis using rights_never_created [of demo_P rights_ks t 3] r(1) by simp
qed

end
