(* ===== verification/SpawnCaps.thy ===== *)
theory SpawnCaps
  imports SpawnMem RightsSpec
begin

text \<open>
  The rights \<open>spawn_process\<close> hands out: those of the new process start from a cleared table, its parent gets 7 and the
  shell 15 on it, and nothing else changes.
\<close>

section \<open>Clearing cells\<close>

lemma zero64_bytes:
  "unat a + 8 * n \<le> 2 ^ 64 \<Longrightarrow>
   zero64 n a m b = (if unat a \<le> unat b \<and> unat b < unat a + 8 * n then 0 else m b)"
proof (induction n arbitrary: a m)
  case (Suc n)
  have st: "st64 a 0 m b = (if unat a \<le> unat b \<and> unat b < unat a + 8 then 0 else m b)"
  proof -
    have "b - a < 8 \<longleftrightarrow> unat a \<le> unat b \<and> unat b < unat a + 8"
    proof (cases "a \<le> b")
      case True
      then have "unat a \<le> unat b" "unat (b - a) = unat b - unat a" by (simp_all add: unat_sub word_le_nat_alt)
      then show ?thesis unfolding word_less_nat_alt by (auto simp: less_diff_conv2)
    next
      case False
      then have "unat b < unat a" by (simp add: word_le_nat_alt)
      moreover have "unat (b - a) = unat b + 2 ^ 64 - unat a"
        using False unat_sub_if_size [of b a] by (simp add: word_size word_le_nat_alt)
      ultimately show ?thesis using Suc.prems by (simp add: word_less_nat_alt)
    qed
    then show ?thesis by (simp add: st64_def byte_of_def)
  qed
  show ?case
  proof (cases n)
    case 0
    then show ?thesis using st by simp
  next
    case (Suc k)
    then have u: "unat (a + 8) = unat a + 8" using Suc.prems unat_add_small [of a 8] by simp
    then show ?thesis using Suc.IH [of "a + 8" "st64 a 0 m"] Suc.prems st by (simp add: algebra_simps)
  qed
qed auto

section \<open>Adding rights\<close>

lemma nibble_or: "nibble (w OR v) k = nibble w k OR nibble v k"
  by (rule bit_eqI) (auto simp: bit_nibble bit_or_iff)

lemma nibble_push:
  assumes "j < 16" "k < 16" "v AND 15 = v"
  shows "nibble (push_bit (4 * k) v) j = (if j = k then v else 0)"
proof (rule bit_eqI)
  fix i
  have b: "bit v x \<longleftrightarrow> bit v x \<and> x < 4" for x
    using assms(3) bit_and_iff [of v 15 x] bit_15 [of x] by auto
  have "4 * j + i < 64" "4 * k \<le> 4 * j + i \<and> 4 * j + i - 4 * k < 4 \<longleftrightarrow> j = k" if "i < 4"
    using assms that by auto
  then show "bit (nibble (push_bit (4 * k) v) j) i \<longleftrightarrow> bit (if j = k then v else 0) i"
    using b [of "4 * j + i - 4 * k"] b [of i] by (auto simp: bit_nibble bit_push_bit_iff)
qed

lemma procs_add_caps [simp]: "procs (add_caps p n v s) = procs s"
  by (simp add: add_caps_def store_def)

lemma rights_add_caps:
  assumes "cap_tables s P" and "p \<in> P" and "q \<in> P" and "m < 32768" and "n < 32768" and v: "v AND 15 = v"
  shows "rights_of q m (add_caps p n v s) = rights_of q m s OR (if q = p \<and> m = n then v else 0)"
proof -
  have c: "cap_cell q m (add_caps p n v s) = cap_cell q m s" by (simp add: cap_cell_def)
  let ?w = "load s (cap_cell p n s) OR push_bit (cap_shift n) v"
  have l: "load (add_caps p n v s) a = ld64 (st64 (cap_cell p n s) ?w (mem s)) a" for a
    by (simp add: add_caps_def load_def store_def)
  show ?thesis
  proof (cases "q = p \<and> unat m div 16 = unat n div 16")
    case True
    then have "8 * ucast (ucast (m div 16) :: u32) = (8 * ucast (ucast (n div 16) :: u32) :: u64)"
      using cap_offset(1) [OF assms(4)] cap_offset(1) [OF assms(5)] by (metis word_unat_eq_iff)
    then have e: "cap_cell q m s = cap_cell p n s" using True by (simp only: cap_cell_def)
    then have "rights_of q m (add_caps p n v s) = nibble ?w (unat m mod 16)"
      by (simp only: rights_nibble c l ld64_st64_same)
    also have "\<dots> = rights_of q m s OR (if unat m mod 16 = unat n mod 16 then v else 0)"
      using nibble_push [OF _ _ v, of "unat m mod 16" "unat n mod 16"] e
      by (simp add: nibble_or cap_shift_eq rights_nibble)
    also have "unat m mod 16 = unat n mod 16 \<longleftrightarrow> m = n"
      using True by (metis div_mult_mod_eq word_unat_eq_iff)
    finally show ?thesis using True by simp
  next
    case False
    then have "apart (cap_cell p n s) (cap_cell q m s)" using cap_cells_apart [OF assms(1-3,5,4)] by auto
    then have "ld64 (st64 (cap_cell p n s) ?w (mem s)) (cap_cell q m s) = load s (cap_cell q m s)"
      by (simp add: load_def)
    then have "load (add_caps p n v s) (cap_cell q m s) = load s (cap_cell q m s)" by (simp only: l)
    then show ?thesis using False by (auto simp: rights_nibble c)
  qed
qed

text \<open>The bytes of a table.\<close>

definition in_table :: "kstate \<Rightarrow> u64 \<Rightarrow> u64 \<Rightarrow> bool" where
  "in_table s p b \<longleftrightarrow> table_at s p \<le> unat b \<and> unat b < table_at s p + 16384"

lemma mem_add_caps:
  assumes "table_at s p + 16384 \<le> 2 ^ 64" "n < 32768" "\<not> in_table s p b"
  shows "mem (add_caps p n v s) b = mem s b"
proof -
  let ?c = "cap_cell p n s"
  have u: "unat ?c = table_at s p + 8 * (unat n div 16)" and d: "unat n div 16 < 2048"
    using unat_cap_cell [OF assms(1,2)] cap_offset(2) [OF assms(2)] by simp_all
  have "\<not> b - ?c < 8"
  proof
    assume l: "b - ?c < 8"
    have "b = ?c + of_nat (unat (b - ?c))" by simp
    moreover have "unat ?c + unat (b - ?c) < 2 ^ 64" using l u d assms(1) by (simp add: word_less_nat_alt)
    ultimately have "unat b = unat ?c + unat (b - ?c)" by (metis unat_add_small)
    then show False using l u d assms(3) by (simp add: in_table_def word_less_nat_alt)
  qed
  then show ?thesis by (simp add: add_caps_def store_def st64_def)
qed

section \<open>The rights of a new process\<close>

lemma spawn_caps_eq:
  "spawn_caps p s = (let n = pid (procs s p); t = add_caps (curr s) n 7 (add_caps p 1 3 s)
     in add_caps p n 1 (if shell_ptr s \<noteq> 0 \<and> n \<noteq> 1 then add_caps (shell_ptr s) n 15 t else t))"
proof -
  have "cap_cell p 1 s = capability_root (procs s p)" "cap_shift 1 = 4" by (simp_all add: cap_cell_def cap_shift_def)
  then have "store (capability_root (procs s p)) (load s (capability_root (procs s p)) OR push_bit 4 3) s = add_caps p 1 3 s"
    by (simp add: add_caps_def)
  moreover have "curr (add_caps q n v s) = curr s" "shell_ptr (add_caps q n v s) = shell_ptr s" for q n v s
    by (simp_all add: add_caps_def store_def curr_def)
  ultimately show ?thesis by (simp add: spawn_caps_def Let_def)
qed

definition new_rights :: "kstate \<Rightarrow> u64 \<Rightarrow> u64 \<Rightarrow> u64 \<Rightarrow> u64 \<Rightarrow> u64" where
  "new_rights s p n q m =
     (if q = p \<and> m = 1 then 3 else 0) OR (if q = p \<and> m = n then 1 else 0) OR
     (if q = curr s \<and> m = n then 7 else 0) OR (if q = shell_ptr s \<and> shell_ptr s \<noteq> 0 \<and> n \<noteq> 1 \<and> m = n then 15 else 0)"

lemma cap_tables_cong: "(\<And>q. q \<in> P \<Longrightarrow> capability_root (procs t q) = capability_root (procs s q)) \<Longrightarrow> cap_tables t P = cap_tables s P"
  by (simp add: cap_tables_def table_at_def)

lemma spawn_caps_ok:
  assumes c: "cap_tables s P" and P: "p \<in> P" "curr s \<in> P" "shell_ptr s \<noteq> 0 \<Longrightarrow> shell_ptr s \<in> P"
    and n: "pid (procs s p) < 32768"
  shows "q \<in> P \<Longrightarrow> m < 32768 \<Longrightarrow>
      rights_of q m (spawn_caps p s) = rights_of q m s OR new_rights s p (pid (procs s p)) q m"
    and "(\<And>q. q \<in> P \<Longrightarrow> \<not> in_table s q b) \<Longrightarrow> mem (spawn_caps p s) b = mem s b"
    and "\<exists>m. spawn_caps p s = s\<lparr>mem := m\<rparr>"
proof -
  have ct: "cap_tables (add_caps r k v t) P = cap_tables t P" for r k v t by (rule cap_tables_cong) simp
  have it: "table_at (add_caps r k v t) = table_at t" for r k v t by (simp add: table_at_def fun_eq_iff)
  have nb: "table_at s q + 16384 \<le> 2 ^ 64" if "q \<in> P" for q using c that by (simp add: cap_tables_def)
  have f: "(3 :: u64) AND 15 = 3" "(7 :: u64) AND 15 = 7" "(1 :: u64) AND 15 = 1" "(15 :: u64) AND 15 = 15" by simp_all
  let ?n = "pid (procs s p)"
  let ?t1 = "add_caps p 1 3 s"
  let ?t2 = "add_caps (curr s) ?n 7 ?t1"
  define t3 where "t3 = (if shell_ptr s \<noteq> 0 \<and> ?n \<noteq> 1 then add_caps (shell_ptr s) ?n 15 ?t2 else ?t2)"
  have eq: "spawn_caps p s = add_caps p ?n 1 t3" unfolding spawn_caps_eq Let_def t3_def ..
  have ct3: "cap_tables t3 P" by (simp add: t3_def ct c)
  show "rights_of q m (spawn_caps p s) = rights_of q m s OR new_rights s p ?n q m" if q: "q \<in> P" "m < 32768"
  proof -
    have r1: "rights_of q m ?t1 = rights_of q m s OR (if q = p \<and> m = 1 then 3 else 0)"
      by (rule rights_add_caps [OF c P(1) q _ f(1)]) simp
    have r2: "rights_of q m ?t2 = rights_of q m ?t1 OR (if q = curr s \<and> m = ?n then 7 else 0)"
      by (rule rights_add_caps [OF _ P(2) q n f(2)]) (simp add: ct c)
    have r3: "rights_of q m t3 = rights_of q m ?t2 OR
        (if q = shell_ptr s \<and> shell_ptr s \<noteq> 0 \<and> ?n \<noteq> 1 \<and> m = ?n then 15 else 0)"
    proof (cases "shell_ptr s \<noteq> 0 \<and> ?n \<noteq> 1")
      case True
      have "rights_of q m (add_caps (shell_ptr s) ?n 15 ?t2) =
          rights_of q m ?t2 OR (if q = shell_ptr s \<and> m = ?n then 15 else 0)"
        by (rule rights_add_caps [OF _ P(3) q n f(4)]) (use True in \<open>simp_all add: ct c\<close>)
      then show ?thesis using True by (simp add: t3_def)
    next
      case False
      then show ?thesis by (auto simp: t3_def)
    qed
    have r4: "rights_of q m (add_caps p ?n 1 t3) = rights_of q m t3 OR (if q = p \<and> m = ?n then 1 else 0)"
      by (rule rights_add_caps [OF ct3 P(1) q n f(3)])
    show ?thesis unfolding eq r4 r3 r2 r1 new_rights_def by (simp only: or.assoc or.commute or.left_commute)
  qed
  show "mem (spawn_caps p s) b = mem s b" if b: "\<And>q. q \<in> P \<Longrightarrow> \<not> in_table s q b"
  proof -
    have step: "mem (add_caps r k v t) b = mem t b"
      if "r \<in> P" "k < 32768" "table_at t = table_at s" for r k v t
      using that b [OF that(1)] nb [OF that(1)] by (intro mem_add_caps) (simp_all add: in_table_def)
    have t3: "mem t3 b = mem s b" using step P n by (simp add: t3_def it)
    have "table_at t3 = table_at s" by (simp add: t3_def it)
    then show ?thesis unfolding eq using step [OF P(1) n] t3 by simp
  qed
  show "\<exists>m. spawn_caps p s = s\<lparr>mem := m\<rparr>"
    unfolding spawn_caps_eq Let_def by (auto simp: add_caps_def store_def)
qed

text \<open>The rights of a process are bytes of its table.\<close>

lemma cap_cell_byte:
  assumes "table_at s q + 16384 \<le> 2 ^ 64" "n < 32768" "k < 8"
  shows "in_table s q (cap_cell q n s + of_nat k)"
proof -
  note u = unat_cap_cell [OF assms(1,2)] and d = cap_offset(2) [OF assms(2)]
  have "unat (cap_cell q n s + of_nat k) = unat (cap_cell q n s) + k" using u d assms by (intro unat_add_small) simp
  then show ?thesis using u d assms(3) by (simp add: in_table_def)
qed

lemma rights_cong:
  assumes "table_at s q + 16384 \<le> 2 ^ 64" "n < 32768" "capability_root (procs t q) = capability_root (procs s q)"
    and "\<And>b. in_table s q b \<Longrightarrow> mem t b = mem s b"
  shows "rights_of q n t = rights_of q n s"
proof -
  have c: "cap_cell q n t = cap_cell q n s" using assms(3) by (simp add: cap_cell_def)
  have "ld64 (mem t) (cap_cell q n s) = ld64 (mem s) (cap_cell q n s)"
    by (rule ld64_cong) (use assms(4) cap_cell_byte [OF assms(1,2)] in blast)
  then show ?thesis by (simp add: rights_of_def c load_def)
qed

lemma rights_cleared:
  assumes "table_at s q + 16384 \<le> 2 ^ 64" "n < 32768" and "\<And>b. in_table s q b \<Longrightarrow> mem s b = 0"
  shows "rights_of q n s = 0"
proof -
  have "ld64 (mem s) (cap_cell q n s) = ld64 (\<lambda>_. 0) (cap_cell q n s)"
    by (rule ld64_cong) (use assms(3) cap_cell_byte [OF assms(1,2)] in blast)
  also have "\<dots> = 0" by (rule bit_eqI) (simp add: bit_ld64)
  finally show ?thesis by (simp add: rights_of_def load_def)
qed

text \<open>Two tables with no byte in common.\<close>

lemma tables_apart:
  assumes "\<And>b. in_table s p b \<Longrightarrow> \<not> in_table s q b" "table_at s p + 16384 \<le> 2 ^ 64" "table_at s q + 16384 \<le> 2 ^ 64"
  shows "table_at s p + 16384 \<le> table_at s q \<or> table_at s q + 16384 \<le> table_at s p"
proof (rule ccontr)
  assume h: "\<not> ?thesis"
  define x where "x = max (table_at s p) (table_at s q)"
  have "x < 2 ^ 64" using assms(2,3) unfolding x_def by simp
  then have "unat (of_nat x :: u64) = x" by (simp add: unat_of_nat)
  then have "in_table s p (of_nat x)" "in_table s q (of_nat x)" using h by (auto simp: in_table_def x_def)
  then show False using assms(1) by blast
qed

end
