(* ===== verification/SpawnSteps.thy ===== *)
theory SpawnSteps
  imports SpawnCaps
begin

text \<open>
  The steps of \<open>spawn_process\<close>: kernel stack and user table, then the image and the user stack, then the joining of a
  run queue. Each lemma takes its piece of the code with an arbitrary continuation.
\<close>

section \<open>The kernel's own state\<close>

lemma own_beside_cong:
  assumes "ram_base t = ram_base s" "ram_size t = ram_size s" "page_array t = page_array s" "free_lists t = free_lists s"
    "kalloc_lock t = kalloc_lock s"
  shows "own_beside B U t = own_beside B U s"
proof -
  have "heap_ok t = heap_ok s" using assms
    by (simp add: fun_eq_iff heap_ok_def buddy_inv_def lists_ok_def flags_ok_def blocks_ok_def ram_ok_def
        nxt_def prv_def flg_def ordr_def total_pages_def)
  moreover have "page_addr t = page_addr s" using assms(1) by (simp add: fun_eq_iff page_addr_def)
  ultimately show ?thesis using assms(1) by (simp add: own_beside_def fun_eq_iff)
qed

text \<open>
  \<open>stage u p r T s\<close>: beside the heap and memory, \<open>s\<close> is \<open>u\<close> with the record \<open>r\<close> for process \<open>p\<close> and the trap frames \<open>T\<close>.
\<close>

definition stage :: "kstate \<Rightarrow> u64 \<Rightarrow> process \<Rightarrow> (u64 \<Rightarrow> trapframe) \<Rightarrow> kstate \<Rightarrow> bool" where
  "stage u p r T s \<longleftrightarrow> vmem.more s = vmem.more (u\<lparr>procs := (procs u)(p := r), tframes := T\<rparr>)"

lemma stageD:
  assumes "stage u p r T s"
  shows "procs s = (procs u)(p := r)" "tframes s = T" "rqs s = rqs u" "tp s = tp u" "lists s = lists u" "locks s = locks u"
    "shell_ptr s = shell_ptr u" "pid_registry s = pid_registry u" "next_pid s = next_pid u"
    "alive_thread_counter s = alive_thread_counter u" "caches s = caches u" "caches_addr s = caches_addr u"
    "kvmalloc_lock s = kvmalloc_lock u" "curr s = curr u"
  using assms unfolding curr_def by (cases s; cases u; simp add: stage_def)+

lemma stage_refl: "stage u p (procs u p) (tframes u) u"
  by (simp add: stage_def)

lemma stage_kernel: "stage u p r T s \<Longrightarrow> same_kernel s t \<Longrightarrow> stage u p r T t"
  by (simp add: stage_def same_kernel_def)

lemma stage_proc: "stage u p r T s \<Longrightarrow> stage u p (f r) T (upd_proc p f s)"
  using stageD(1) [of u p r T s] by (cases s; cases u; simp add: stage_def upd_proc_def)

lemma stage_tf: "stage u p r T s \<Longrightarrow> stage u p r (T(a := f (T a))) (upd_tf a f s)"
  using stageD(2) [of u p r T s] by (cases s; cases u; simp add: stage_def upd_tf_def)

lemma stage_mem: "stage u p r T s \<Longrightarrow> stage u p r T (s\<lparr>mem := m\<rparr>)"
  by (cases s; cases u; simp add: stage_def)

text \<open>Updates of records and frames leave heap, memory and tables alone.\<close>

lemma heap_upd [simp]:
  "mem (upd_proc p f s) = mem s" "mem (upd_tf a g s) = mem s" "ram_base (upd_proc p f s) = ram_base s"
  "ram_base (upd_tf a g s) = ram_base s" "ram_size (upd_proc p f s) = ram_size s" "ram_size (upd_tf a g s) = ram_size s"
  "root_table (upd_proc p f s) = root_table s" "root_table (upd_tf a g s) = root_table s"
  "own_beside B U (upd_proc p f s) = own_beside B U s" "own_beside B U (upd_tf a g s) = own_beside B U s"
  by (simp_all add: upd_proc_def upd_tf_def) (intro own_beside_cong; simp)+

lemma pt_inv_upd [simp]:
  "pt_inv_on (own_beside B U) (upd_proc p f s) = pt_inv_on (own_beside B U) s"
  "pt_inv_on (own_beside B U) (upd_tf a g s) = pt_inv_on (own_beside B U) s"
  by (simp_all add: pt_inv_on_def fun_eq_iff)

lemma beside_grown_upd [simp]:
  "beside_grown U s B (upd_proc p f t) B' = beside_grown U s B t B'"
  "beside_grown U s B (upd_tf a g t) B' = beside_grown U s B t B'"
  "beside_grown U (upd_proc p f s) B t B' = beside_grown U s B t B'"
  "beside_grown U (upd_tf a g s) B t B' = beside_grown U s B t B'"
  using ram_addr [of "upd_proc p f s" s] ram_addr [of "upd_tf a g s" s] by (simp_all add: beside_grown_def)

lemma page_addr_upd [simp]: "page_addr (upd_proc p f s) = page_addr s" "page_addr (upd_tf a g s) = page_addr s"
  by (simp_all add: fun_eq_iff page_addr_def)

section \<open>The first piece: kernel stack and user table\<close>

text \<open>What a new user table shows.\<close>

definition bare_space :: "layout \<Rightarrow> u64 \<Rightarrow> u64 \<Rightarrow> (u64 \<times> u64) option" where
  "bare_space ly stack a =
     (if 0x3FFFFFF000 \<le> a \<and> a \<le> 0x3FFFFFFFFF then Some (page_down (user_trampoline ly) + (a - 0x3FFFFFF000), leaf_flags 0 8)
      else if 0x3FFFFFE000 \<le> a \<and> a < 0x3FFFFFF000 then Some (page_down stack + (a - 0x3FFFFFE000), leaf_flags 0 6)
      else None)"

lemma create_user_table_gives:
  assumes o: "own_beside B U (s :: kstate) {}"
  shows "gives no_memory (\<lambda>(root, t). \<exists>N. pt_inv_on (own_beside B U) t root N {} \<and> same_kernel s t \<and>
    beside_grown U s B t B \<and> (\<forall>a. unat a < 2 ^ 39 \<longrightarrow> xlate (mem t) root a = bare_space ly stack a))
    (create_user_table ca ly stack s)"
proof -
  from held.create_user_table_ok [OF o, of ca ly stack]
  consider "create_user_table ca ly stack s = Panic 101 0"
    | root t N where "create_user_table ca ly stack s = Ret (root, t)" "pt_inv_on (own_beside B U) t root N {}"
      "same_kernel s t" "\<forall>b. page_down b \<notin> N \<longrightarrow> mem t b = mem s b"
      "\<forall>a. unat a < 2 ^ 39 \<longrightarrow> xlate (mem t) root a = bare_space ly stack a"
    unfolding bare_space_def by blast
  then show ?thesis
  proof cases
    case 1
    then show ?thesis by (simp add: gives_def no_memory_def)
  next
    case 2
    have "own_beside B U t N" using 2(2) by (simp add: pt_inv_on_def)
    moreover have "ram_base t = ram_base s" using 2(3) by (simp add: same_kernel_def)
    ultimately have "page_down b \<notin> N" if "kept B U s b" for b
      using own_beside_kept that ram_addr [of t s] by fastforce
    then have "beside_grown U s B t B" using 2(3,4) by (intro beside_grown_kernel) auto
    then show ?thesis using 2 by (auto simp: gives_def)
  qed
qed

definition frame_record :: "entry_points \<Rightarrow> u64 \<Rightarrow> u8 list \<Rightarrow> process \<Rightarrow> process" where
  "frame_record ep stack name r =
     set_name name (r\<lparr>kstack := stack, p_tf := stack + 4096 - sizeof_trapframe,
       p_context := (p_context r)(1 := stack + 4096 - sizeof_trapframe, 0 := process_bootstrap ep)\<rparr>)"

definition first_frame :: "entry_points \<Rightarrow> u64 \<Rightarrow> u64 \<Rightarrow> kstate \<Rightarrow> trapframe" where
  "first_frame ep stack sstatus_val u = zero_trapframe\<lparr>sstatus := sstatus_val,
     kernel_satp := make_satp (root_table u), kernel_trap := strap_entry ep,
     kernel_sp := stack + 4096 - sizeof_trapframe, kernel_tp := tp u\<rparr>"

lemma spawn_frame_stage:
  assumes "stage u p r T s" "root_table s = root_table u"
  shows "stage u p (frame_record ep stack name r)
    (T(stack + 4096 - sizeof_trapframe := first_frame ep stack sstatus_val u)) (spawn_frame ep p stack name sstatus_val s)"
proof -
  note st = stage_proc [OF stage_proc [OF assms(1)], of "set_name name"
      "\<lambda>x. x\<lparr>kstack := stack, p_tf := stack + 4096 - sizeof_trapframe,
         p_context := (p_context x)(1 := stack + 4096 - sizeof_trapframe, 0 := process_bootstrap ep)\<rparr>"]
  show ?thesis
    using stage_tf [OF st, of "stack + 4096 - sizeof_trapframe" "\<lambda>_. first_frame ep stack sstatus_val u"] assms(2)
      stageD(4) [OF assms(1)]
    by (simp add: spawn_frame_def Let_def frame_record_def first_frame_def) (simp add: upd_proc_def)
qed

lemma own_beside_frame [simp]: "own_beside B U (spawn_frame ep p stack name sv s) = own_beside B U s"
  by (simp add: spawn_frame_def Let_def)

lemma heap_frame [simp]:
  "mem (spawn_frame ep p stack name sv s) = mem s" "ram_base (spawn_frame ep p stack name sv s) = ram_base s"
  "ram_size (spawn_frame ep p stack name sv s) = ram_size s" "root_table (spawn_frame ep p stack name sv s) = root_table s"
  by (simp_all add: spawn_frame_def Let_def)

lemma spawn_tables_gives:
  assumes o: "own_beside B U s {}" and st: "stage u p r T s" "root_table s = root_table u" and E: "E 101 0"
    and k: "\<And>root t stack i N. \<lbrakk>stack = page_addr s i; (i, 0) \<notin> B; pt_inv_on (own_beside (insert (i, 0) B) U) t root N {};
      beside_grown U s B t (insert (i, 0) B); \<And>a. unat a < 2 ^ 39 \<Longrightarrow> xlate (mem t) root a = bare_space ly stack a;
      stage u p (frame_record ep stack name r) (T(stack + 4096 - sizeof_trapframe := first_frame ep stack sv u)) t;
      page_base stack\<rbrakk> \<Longrightarrow> gives E Q (k (root, t))"
  shows "gives E Q (bindO (kalloc 0 ca s) (\<lambda>(stack, s). if stack = 0 then Ret (0, s)
    else bindO (create_user_table ca ly stack (spawn_frame ep p stack name sv s)) k))"
proof (rule gives_pair [OF kalloc_gives [OF o, of 0 ca]], simp, goal_cases)
  case (2 stack t)
  then obtain i where x: "stack = page_addr s i" "(i, 0) \<notin> B" "own_beside (insert (i, 0) B) U t {}" "same_kernel s t"
    "mem t = mem s" "page_base stack" "stack \<noteq> 0" by blast
  let ?t = "spawn_frame ep p stack name sv t" and ?B = "insert (i, 0) B"
  have rt: "root_table t = root_table u" using x(4) st(2) by (simp add: same_kernel_def)
  have sg: "stage u p (frame_record ep stack name r) (T(stack + 4096 - sizeof_trapframe := first_frame ep stack sv u)) ?t"
    by (rule spawn_frame_stage [OF stage_kernel [OF st(1) x(4)] rt])
  have g: "beside_grown U s B ?t ?B"
    using x(4,5) by (simp add: beside_grown_def same_kernel_def subset_insertI)
  have oe: "own_beside ?B U ?t {}" using x(3) by simp
  have "gives E Q (bindO (create_user_table ca ly stack ?t) k)"
  proof (rule gives_pair [OF create_user_table_gives [OF oe, of ly stack ca]], goal_cases)
    case (2 root v)
    then obtain N where y: "pt_inv_on (own_beside ?B U) v root N {}" "same_kernel ?t v"
      "beside_grown U ?t ?B v ?B" "\<forall>a. unat a < 2 ^ 39 \<longrightarrow> xlate (mem v) root a = bare_space ly stack a"
      by blast
    show ?case
      by (rule k [OF x(1,2) y(1) beside_grown_trans [OF g y(3)] _ stage_kernel [OF sg y(2)] x(6)]) (use y(4) in blast)
  qed (use E in \<open>auto simp: no_memory_def\<close>)
  then show ?case using x(7) by simp
qed (use E in \<open>auto simp: no_memory_def\<close>)

section \<open>The second piece: the image and the user stack\<close>

lemma seg_loaded_grown:
  assumes ld: "seg_loaded s t root binary ph p" and ok: "seg_ok (mem s) ph" and p: "p \<in> B"
    and o: "own_beside B U t P" and r: "ram_base t = ram_base s" and g: "beside_grown U t B u B'"
    and tr: "\<And>a. unat a < 2 ^ 39 \<Longrightarrow> unat a \<in> seg_range (mem s) ph \<Longrightarrow> xlate (mem u) root a = xlate (mem t) root a"
  shows "seg_loaded s u root binary ph p"
proof -
  note e = ram_addr [OF r]
  obtain L where L: "heap_ok t L U" "B \<subseteq> L" using o by (auto simp: own_beside_def)
  have ms: "unat (ph_memsz (mem s) ph) \<le> 4096 * 2 ^ snd p"
    using ok ld seg_order_ok(3) [of "mem s" ph] by (simp add: seg_ok_def seg_loaded_def seg_span_def)
  have "mem u (page_addr s (fst p) + of_nat j) = mem t (page_addr s (fst p) + of_nat j)"
    if j: "j < unat (ph_memsz (mem s) ph)" for j
  proof -
    have "unat (page_addr s (fst p) + of_nat j) \<in> block_range t p" using block_byte [OF L(1), of p j] L(2) p j ms e by auto
    then have "kept B U t (page_addr s (fst p) + of_nat j)" using p by (auto simp: kept_def)
    then show ?thesis using g by (simp add: beside_grown_def)
  qed
  then show ?thesis using ld tr by (simp add: seg_loaded_def)
qed

lemma load_frame_grown:
  assumes "load_frame U root s B N t B' N'"
  shows "beside_grown U s B t B'"
proof -
  have f: "own_beside B' U t N'" "same_kernel s t" "B \<subseteq> B'"
    "\<And>b. page_down b \<notin> N' \<Longrightarrow> \<forall>p\<in>B' - B. unat b \<notin> block_range s p \<Longrightarrow> mem t b = mem s b"
    using assms by (simp_all add: load_frame_def pt_inv_on_def)
  have r: "ram_base t = ram_base s" using f(2) by (simp add: same_kernel_def)
  note e = ram_addr [OF r]
  obtain L where L: "heap_ok t L U" "B' \<subseteq> L" using f(1) by (auto simp: own_beside_def)
  show ?thesis
  proof (rule beside_grown_kernel [OF f(2,3)], rule f(4))
    fix b assume b: "kept B U s b"
    show "page_down b \<notin> N'" using own_beside_kept [OF f(1)] kept_mono [OF b f(3)] e by simp
    show "\<forall>p\<in>B' - B. unat b \<notin> block_range s p"
    proof
      fix p assume p: "p \<in> B' - B"
      show "unat b \<notin> block_range s p"
      proof
        assume h: "unat b \<in> block_range s p"
        then have "unat b \<in> pool_range s U" using block_in_pool [OF L(1), of p b] L(2) p e by auto
        then obtain q where q: "q \<in> B" "unat b \<in> block_range s q" using b by (auto simp: kept_def)
        have "block_range t q \<inter> block_range t p = {}" using q(1) p L f(3) by (intro block_range_disjoint [OF L(1)]) auto
        then show False using h q(2) e by auto
      qed
    qed
  qed
qed

definition load_panic :: "memory \<Rightarrow> u64 \<Rightarrow> u64 \<Rightarrow> u64 \<Rightarrow> bool" where
  "load_panic m binary c x \<longleftrightarrow> c = 101 \<and> x = 0 \<or> c = 107 \<and> huge_segment m binary"

lemma load_elf_gives:
  assumes "pt_inv_on (own_beside B U) s root N {}" and "elf_ok (mem s) binary" and "elf_clear (mem s) root binary"
    and "\<And>a. a \<in> elf_reads (mem s) binary \<Longrightarrow> unat a \<notin> pool_range s U"
  shows "gives (load_panic (mem s) binary) (loaded_upto U root binary s B N (phnum (mem s) binary)) (load_elf ca root binary s)"
proof -
  have run: "load_elf ca root binary s = forO [0..<phnum (mem s) binary]
      (\<lambda>i. load_segment ca root binary (phdr_at (mem s) binary i)) s"
    by (simp add: load_elf_def phnum_def phdr_at_def)
  from load_steps [OF assms order_refl run] show ?thesis by (auto simp: gives_def load_panic_def)
qed

text \<open>A cleared page for the user stack.\<close>

lemma user_stack_gives:
  assumes inv: "pt_inv_on (own_beside B U) (s :: kstate) root N {}"
    and un: "\<forall>a. 0x7FFFF000 \<le> unat a \<and> unat a < 0x80000000 \<longrightarrow> xlate (mem s) root a = None"
  shows "gives no_memory (\<lambda>t. \<exists>i N'. (i, 0) \<notin> B \<and> pt_inv_on (own_beside (insert (i, 0) B) U) t root N' {} \<and>
      same_kernel s t \<and> beside_grown U s B t (insert (i, 0) B) \<and>
      mapped (mem s) (mem t) root 0x7FFFF000 (page_addr s i) 4096 (leaf_flags 0x10 6) \<and>
      (\<forall>k<4096. mem t (page_addr s i + of_nat k) = 0))
    (bindO (kalloc 0 ca s) (\<lambda>(ustack, s). uvm_map ca root 0x7FFFF000 ustack 4096 6 (s\<lparr>mem := zero64 512 ustack (mem s)\<rparr>)))"
proof -
  have o: "own_beside B U s N" and tr: "tree (mem s) root N" using inv by (simp_all add: pt_inv_on_def)
  show ?thesis
  proof (rule gives_pair [OF kalloc_gives [OF o, of 0 ca]], simp, goal_cases)
    case (2 z t)
    then obtain i where z: "z = page_addr s i" "(i, 0) \<notin> B" "own_beside (insert (i, 0) B) U t N" "same_kernel s t"
      "mem t = mem s" "page_base z" "unat z + 4096 \<le> 2 ^ 64" by auto
    let ?B = "insert (i, 0) B"
    define v where "v = t\<lparr>mem := zero64 512 z (mem t)\<rparr>"
    have r: "ram_base t = ram_base s" using z(4) by (simp add: same_kernel_def)
    note e = ram_addr [OF r]
    have zb: "mem v b = (if unat b \<in> block_range s (i, 0) then 0 else mem s b)" for b
      using zero64_bytes [of z 512 "mem s" b] z(1,7) by (simp add: v_def z(5) block_range_def)
    have same: "mem v b = mem s b" if "page_down b \<in> N" for b
      using own_beside_apart [OF z(3), of "(i, 0)" b] that e zb by auto
    note ts = tree_same [OF tr same]
    have iv: "pt_inv_on (own_beside ?B U) v root N {}" using z(3) ts(3) by (simp add: pt_inv_on_def v_def)
    have kv: "same_kernel s v" using z(4) by (simp add: same_kernel_def v_def)
    have gv: "beside_grown U s B v ?B"
      using kept_new [OF z(3,2)] e zb by (intro beside_grown_kernel [OF kv]) auto
    have c: "page_down 0x7FFFF000 = 0x7FFFF000" "page_up 4096 = 4096" by (simp_all add: page_down_def page_up_def)
    have cz: "page_down z = z" using z(6) by (rule page_down_id)
    have pm: "perm_ok 0x10 6" by (simp add: perm_ok_def)
    have "unmapped (mem v) root 0x7FFFF000 4096"
      using un by (simp add: unmapped_def xlate_None [symmetric] ts(5))
    then have M: "loop_ok (own_beside ?B U) v root N {} 0x7FFFF000 z 4096 (leaf_flags 0x10 6)
        (uvm_map ca root 0x7FFFF000 z 4096 6 v)"
      using held.map_range_ok [OF iv pm, of "0x7FFFF000" 4096 z ca] by (simp add: c cz uvm_map_def)
    then consider "uvm_map ca root 0x7FFFF000 z 4096 6 v = Panic 101 0"
      | w N' where "uvm_map ca root 0x7FFFF000 z 4096 6 v = Ret w" "pt_inv_on (own_beside ?B U) w root N' {}"
        "pt_grown v N w N'" "mapped (mem v) (mem w) root 0x7FFFF000 z 4096 (leaf_flags 0x10 6)"
      by (auto simp: loop_ok_def)
    then show ?case
    proof cases
      case 1
      then show ?thesis by (simp add: v_def gives_def no_memory_def)
    next
      case 2
      have kw: "same_kernel v w" by (rule pt_grown_kernel [OF 2(3)])
      have ow: "own_beside ?B U w N'" using 2(2) by (simp add: pt_inv_on_def)
      have rw: "ram_base w = ram_base v" using kw by (simp add: same_kernel_def)
      have gw: "beside_grown U v ?B w ?B"
        using 2(3) own_beside_kept [OF ow] ram_addr [OF rw] by (intro beside_grown_kernel [OF kw]) (auto simp: pt_grown_def)
      have "mem w (page_addr s i + of_nat k) = 0" if k: "k < 4096" for k
      proof -
        have "unat (z + of_nat k) = unat z + k" using k z(7) by (intro unat_add_small) simp
        then have b: "unat (z + of_nat k) \<in> block_range s (i, 0)" using k z(1) by (simp add: block_range_def)
        have "block_range v (i, 0) = block_range s (i, 0)" using r by (simp add: v_def block_range_def page_addr_def)
        then have "kept ?B U v (z + of_nat k)" using b by (auto simp: kept_def)
        then show ?thesis using gw zb b z(1) by (simp add: beside_grown_def)
      qed
      moreover have "mapped (mem s) (mem w) root 0x7FFFF000 (page_addr s i) 4096 (leaf_flags 0x10 6)"
        using 2(4) ts(5) unfolding mapped_def z(1) by simp
      ultimately show ?thesis using 2(1,2) z(2) same_kernel_trans [OF kv kw] beside_grown_trans [OF gv gw]
        by (auto simp: v_def [symmetric])
    qed
  qed (simp add: no_memory_def)
qed

text \<open>
  The address space of a new process: the segments of its image, each in a block of its own, a cleared page below
  2 GiB as its stack, the trampoline and the kernel stack, and nothing else.
\<close>

definition user_space ::
  "kstate \<Rightarrow> kstate \<Rightarrow> u64 \<Rightarrow> u64 \<Rightarrow> (nat \<Rightarrow> u64 \<times> nat) \<Rightarrow> u64 \<Rightarrow> (u64 \<Rightarrow> (u64 \<times> u64) option) \<Rightarrow> bool" where
  "user_space s t root binary f ust bare \<longleftrightarrow>
     (\<forall>i<phnum (mem s) binary. loadable (mem s) binary i \<longrightarrow>
        seg_loaded s t root binary (phdr_at (mem s) binary i) (f i) \<and>
        (\<forall>j<i. loadable (mem s) binary j \<longrightarrow> f j \<noteq> f i) \<and> fst (f i) \<noteq> ust) \<and>
     (\<forall>k<4096. mem t (page_addr s ust + of_nat k) = 0) \<and>
     (\<forall>a. unat a < 2 ^ 39 \<longrightarrow>
        (\<forall>i<phnum (mem s) binary. loadable (mem s) binary i \<longrightarrow> unat a \<notin> seg_range (mem s) (phdr_at (mem s) binary i)) \<longrightarrow>
        xlate (mem t) root a = (if 0x7FFFF000 \<le> unat a \<and> unat a < 0x80000000
          then Some (page_addr s ust + (a - 0x7FFFF000), leaf_flags 0x10 6) else bare a))"

text \<open>The segments keep off the pages the kernel maps itself.\<close>

definition image_fits :: "memory \<Rightarrow> u64 \<Rightarrow> bool" where
  "image_fits m binary \<longleftrightarrow> elf_ok m binary \<and> (\<forall>i<phnum m binary. loadable m binary i \<longrightarrow>
     seg_range m (phdr_at m binary i) \<inter> ({0x7FFFF000 ..< 0x80000000} \<union> {0x3FFFFFE000 ..< 0x4000000000}) = {})"

lemma user_space_loaded:
  assumes im: "image_loaded s t root binary (phnum (mem s) binary) f (B1 - B)" and fr: "load_frame U root s B N t B1 N1"
    and fit: "image_fits (mem s) binary" and bare: "\<And>a. unat a < 2 ^ 39 \<Longrightarrow> xlate (mem s) root a = bare a"
    and g: "beside_grown U t B1 v B2" and ust: "(ust, 0) \<notin> B1"
    and m: "mapped (mem t) (mem v) root 0x7FFFF000 (page_addr t ust) 4096 (leaf_flags 0x10 6)"
    and z: "\<forall>k<4096. mem v (page_addr t ust + of_nat k) = 0" and own: "own_beside B2 U v P" "(ust, 0) \<in> B2"
  shows "user_space s v root binary f ust bare"
proof -
  let ?n = "phnum (mem s) binary" and ?ph = "phdr_at (mem s) binary"
  have o: "own_beside B1 U t N1" and k: "same_kernel s t" using fr by (simp_all add: load_frame_def pt_inv_on_def)
  have r: "ram_base t = ram_base s" using k by (simp add: same_kernel_def)
  note e = ram_addr [OF r]
  have off: "xlate (mem v) root a = xlate (mem t) root a" if "unat a < 2 ^ 39" "\<not> (0x7FFFF000 \<le> unat a \<and> unat a < 0x80000000)" for a
    using mappedD(2) [OF m that(1)] that(2) by simp
  have seg: "seg_loaded s v root binary (?ph i) (f i)" if i: "i < ?n" "loadable (mem s) binary i" for i
  proof (rule seg_loaded_grown [OF _ _ _ o r g])
    show "seg_loaded s t root binary (?ph i) (f i)" "f i \<in> B1" using im i by (auto simp: image_loaded_def)
    show "seg_ok (mem s) (?ph i)" using fit i by (simp add: image_fits_def elf_ok_def)
    fix a :: u64 assume a: "unat a < 2 ^ 39" "unat a \<in> seg_range (mem s) (?ph i)"
    then have "\<not> (0x7FFFF000 \<le> unat a \<and> unat a < 0x80000000)" using fit i by (fastforce simp: image_fits_def)
    then show "xlate (mem v) root a = xlate (mem t) root a" by (rule off [OF a(1)])
  qed
  have ne: "fst (f i) \<noteq> ust" if i: "i < ?n" "loadable (mem s) binary i" for i
  proof
    assume h: "fst (f i) = ust"
    obtain L where L: "heap_ok v L U" "B2 \<subseteq> L" using own(1) by (auto simp: own_beside_def)
    have f: "f i \<in> B1" using im i by (auto simp: image_loaded_def)
    then have "f i \<noteq> (ust, 0)" using ust by auto
    moreover have "f i \<in> L" "(ust, 0) \<in> L" using f g own(2) L(2) by (auto simp: beside_grown_def)
    ultimately have "block_range v (f i) \<inter> block_range v (ust, 0) = {}" by (intro block_range_disjoint [OF L(1)]) auto
    moreover have "unat (page_addr v ust) \<in> block_range v (f i)" using h by (simp add: block_range_def)
    moreover have "unat (page_addr v ust) \<in> block_range v (ust, 0)" by (simp add: block_range_def)
    ultimately show False by blast
  qed
  have "xlate (mem v) root a = (if 0x7FFFF000 \<le> unat a \<and> unat a < 0x80000000
      then Some (page_addr s ust + (a - 0x7FFFF000), leaf_flags 0x10 6) else bare a)"
    if a: "unat a < 2 ^ 39" "\<forall>i<?n. loadable (mem s) binary i \<longrightarrow> unat a \<notin> seg_range (mem s) (?ph i)" for a
  proof (cases "0x7FFFF000 \<le> unat a \<and> unat a < 0x80000000")
    case True
    then show ?thesis using mappedD(1) [OF m a(1)] e by simp
  next
    case False
    have "xlate (mem t) root a = xlate (mem s) root a" using im a by (simp add: image_loaded_def)
    then show ?thesis unfolding if_not_P [OF False] using off [OF a(1) False] bare [OF a(1)] by simp
  qed
  moreover have "\<forall>j<i. loadable (mem s) binary j \<longrightarrow> f j \<noteq> f i" if "i < ?n" "loadable (mem s) binary i" for i
    using im that by (auto simp: image_loaded_def)
  ultimately show ?thesis using seg ne z e unfolding user_space_def by auto
qed

lemma bare_space_below:
  assumes "unat a < 0x3FFFFFE000"
  shows "bare_space ly stack a = None"
  using assms by (simp add: bare_space_def word_le_nat_alt word_less_nat_alt)

lemma spawn_image_gives:
  assumes inv: "pt_inv_on (own_beside B U) s root N {}" and st: "stage u p r T s"
    and fit: "image_fits (mem s) binary" and out: "\<And>a. a \<in> elf_reads (mem s) binary \<Longrightarrow> unat a \<notin> pool_range s U"
    and bare: "\<And>a. unat a < 2 ^ 39 \<Longrightarrow> xlate (mem s) root a = bare_space ly stack a"
    and E: "\<And>c x. load_panic (mem s) binary c x \<Longrightarrow> E c x"
    and k: "\<And>t f ust B' N'. \<lbrakk>pt_inv_on (own_beside B' U) t root N' {}; beside_grown U s B t B';
      stage u p r (T(p_tf r := (T (p_tf r))\<lparr>epc := ld64 (mem s) (binary + 24)\<rparr>)) t;
      user_space s t root binary f ust (bare_space ly stack);
      \<And>i. i < phnum (mem s) binary \<Longrightarrow> loadable (mem s) binary i \<Longrightarrow> f i \<in> B' - B; (ust, 0) \<in> B' - B\<rbrakk> \<Longrightarrow> gives E Q (k t)"
  shows "gives E Q (bindO (load_elf ca root binary s) (\<lambda>s.
    bindO (kalloc 0 ca (upd_tf (p_tf (procs s p)) (\<lambda>t. t\<lparr>epc := ld64 (mem s) (binary + 24)\<rparr>) s)) (\<lambda>(ustack, s).
    bindO (uvm_map ca root 0x7FFFF000 ustack 4096 6 (s\<lparr>mem := zero64 512 ustack (mem s)\<rparr>)) k)))"
proof -
  let ?n = "phnum (mem s) binary"
  have ok: "elf_ok (mem s) binary" using fit by (simp add: image_fits_def)
  have nob: "xlate (mem s) root a = None"
    if "i < ?n" "loadable (mem s) binary i" "unat a \<in> seg_range (mem s) (phdr_at (mem s) binary i)" for i a
  proof -
    have so: "seg_ok (mem s) (phdr_at (mem s) binary i)" using ok that by (simp add: elf_ok_def)
    have "unat a < 2 ^ 38" by (rule seg_range_low [OF so that(3)])
    moreover have "unat a \<notin> {0x3FFFFFE000 ..< 0x4000000000}" using fit that by (fastforce simp: image_fits_def)
    ultimately show ?thesis using bare [of a] bare_space_below [of a] by simp
  qed
  then have cl: "elf_clear (mem s) root binary"
    by (auto simp: elf_clear_def unmapped_def xlate_None [symmetric] seg_range_def)
  show ?thesis
  proof (rule gives_from [OF load_elf_gives [OF inv ok cl out]], goal_cases)
    case (2 c x)
    then show ?case by (rule E)
  next
    case (3 t)
    then obtain B1 N1 f where fr: "load_frame U root s B N t B1 N1" and im: "image_loaded s t root binary ?n f (B1 - B)"
      by (auto simp: loaded_upto_def)
    let ?e = "ld64 (mem t) (binary + 24)"
    let ?t = "upd_tf (p_tf (procs t p)) (\<lambda>t. t\<lparr>epc := ?e\<rparr>) t"
    have kt: "same_kernel s t" using fr by (simp add: load_frame_def)
    have st1: "stage u p r T t" by (rule stage_kernel [OF st kt])
    have e: "?e = ld64 (mem s) (binary + 24)"
    proof (rule ld64_cong)
      fix j :: nat assume "j < 8"
      then have "binary + 24 + of_nat j \<in> elf_reads (mem s) binary"
        unfolding elf_reads_def by (intro UnI1 CollectI exI [of _ "24 + j"]) (simp add: algebra_simps)
      then show "mem t (binary + 24 + of_nat j) = mem s (binary + 24 + of_nat j)"
        by (rule load_frame_outside [OF fr out])
    qed
    have "p_tf (procs t p) = p_tf r" using stageD(1) [OF st1] by simp
    then have st2: "stage u p r (T(p_tf r := (T (p_tf r))\<lparr>epc := ld64 (mem s) (binary + 24)\<rparr>)) ?t"
      using stage_tf [OF st1, of "p_tf r" "\<lambda>t. t\<lparr>epc := ?e\<rparr>"] e by simp
    have iv: "pt_inv_on (own_beside B1 U) ?t root N1 {}" using fr by (simp add: load_frame_def)
    have un: "\<forall>a. 0x7FFFF000 \<le> unat a \<and> unat a < 0x80000000 \<longrightarrow> xlate (mem ?t) root a = None"
    proof (intro allI impI)
      fix a :: u64 assume a: "0x7FFFF000 \<le> unat a \<and> unat a < 0x80000000"
      have "\<forall>i<?n. loadable (mem s) binary i \<longrightarrow> unat a \<notin> seg_range (mem s) (phdr_at (mem s) binary i)"
        using fit a by (fastforce simp: image_fits_def)
      then have "xlate (mem t) root a = xlate (mem s) root a" using im a by (simp add: image_loaded_def)
      then show "xlate (mem ?t) root a = None" using bare [of a] bare_space_below [of a] a by simp
    qed
    note us = user_stack_gives [OF iv un, of ca]
    have eq: "bindO (kalloc 0 ca ?t) (\<lambda>(ustack, s). bindO (uvm_map ca root 0x7FFFF000 ustack 4096 6 (s\<lparr>mem := zero64 512 ustack (mem s)\<rparr>)) k) =
        bindO (bindO (kalloc 0 ca ?t) (\<lambda>(ustack, s). uvm_map ca root 0x7FFFF000 ustack 4096 6 (s\<lparr>mem := zero64 512 ustack (mem s)\<rparr>))) k"
      by (simp add: bindO_assoc case_prod_unfold)
    show ?case unfolding eq
    proof (rule gives_from [OF us], goal_cases)
      case (2 v)
      then obtain i N2 where v: "(i, 0) \<notin> B1" "pt_inv_on (own_beside (insert (i, 0) B1) U) v root N2 {}" "same_kernel ?t v"
        "beside_grown U ?t B1 v (insert (i, 0) B1)"
        "mapped (mem ?t) (mem v) root 0x7FFFF000 (page_addr ?t i) 4096 (leaf_flags 0x10 6)"
        "\<forall>k<4096. mem v (page_addr ?t i + of_nat k) = 0" by blast
      have us: "user_space s v root binary f i (bare_space ly stack)"
        by (rule user_space_loaded [OF im fr fit bare _ v(1), where v = v and ?B2.0 = "insert (i, 0) B1" and P = N2])
          (use v in \<open>simp_all add: pt_inv_on_def\<close>)
      show ?case
      proof (rule k [OF v(2) _ stage_kernel [OF st2 v(3)] us])
        show "beside_grown U s B v (insert (i, 0) B1)"
          using beside_grown_trans [OF load_frame_grown [OF fr]] v(4) by simp
        have "B \<subseteq> B1" using fr by (simp add: load_frame_def)
        then show "(i, 0) \<in> insert (i, 0) B1 - B" using v(1) by auto
      qed (use im in \<open>auto simp: image_loaded_def\<close>)
    qed (use E in \<open>auto simp: no_memory_def load_panic_def\<close>)
  qed
qed

section \<open>The third piece: rights and the run queue\<close>

definition links_only :: "kstate \<Rightarrow> kstate \<Rightarrow> bool" where
  "links_only s t \<longleftrightarrow> t = s\<lparr>procs := procs t, rqs := rqs t\<rparr>"

lemma links_only_upd:
  "links_only s t \<Longrightarrow> links_only s (set_next a b t)" "links_only s t \<Longrightarrow> links_only s (set_prev a b t)"
  "links_only s t \<Longrightarrow> links_only s (set_circle r i b t)" "links_only s t \<Longrightarrow> links_only s (upd_rq r g t)"
  by (cases s; cases t; simp add: links_only_def set_next_def set_prev_def upd_proc_def set_circle_def upd_rq_def)+

lemma links_onlyD:
  assumes "links_only s t"
  shows "mem t = mem s" "vmem.truncate t = vmem.truncate s" "kmem.truncate t = kmem.truncate s" "locks t = locks s"
    "tframes t = tframes s" "tp t = tp s" "lists t = lists s" "shell_ptr t = shell_ptr s" "pid_registry t = pid_registry s"
    "next_pid t = next_pid s" "alive_thread_counter t = alive_thread_counter s" "caches t = caches s"
    "caches_addr t = caches_addr s" "kvmalloc_lock t = kvmalloc_lock s" "own_beside B U t = own_beside B U s"
    "ram_base t = ram_base s" "ram_size t = ram_size s" "root_table t = root_table s"
proof -
  have t: "t = s\<lparr>procs := procs t, rqs := rqs t\<rparr>" using assms by (simp add: links_only_def)
  have "own_beside B U (s\<lparr>procs := P, rqs := R\<rparr>) = own_beside B U s" for P R by (rule own_beside_cong) simp_all
  then show "own_beside B U t = own_beside B U s" by (subst t) blast
qed (subst (1) assms [unfolded links_only_def], simp add: vmem.truncate_def kmem.truncate_def)+

lemma links_only_link: "links_only s (rq_link r p s)"
proof -
  have "links_only s s" by (simp add: links_only_def)
  then show ?thesis by (simp add: rq_link_def Let_def links_only_upd)
qed

text \<open>The last lines: the process joins the end of the circle of its priority on the running hart.\<close>

definition enlisted :: "u64 \<Rightarrow> kstate \<Rightarrow> kstate" where
  "enlisted p s = upd_rq (tp s) (\<lambda>x. x\<lparr>process_count := process_count x + 1\<rparr>) (rq_link (tp s) p s)"

lemma enlisted_ok:
  assumes "placed s Q L" "nowhere Q L p" "p \<noteq> 0" "tp s \<in> Q" "priority (procs s p) = i" "i < 32"
    and "magic (procs s p) = PROCESS_MAGIC" "p_state (procs s p) = 0"
  shows "placed (enlisted p s) Q (L(OnQueue (tp s) i := L (OnQueue (tp s) i) @ [p]))" "links_only s (enlisted p s)"
    "data (procs (enlisted p s) q) = data (procs s q)"
proof -
  have e: "procs (rq_insert (tp s) p s) = procs (enlisted p s)" "rqs (rq_insert (tp s) p s) = rqs (enlisted p s)"
    "lists (rq_insert (tp s) p s) = lists (enlisted p s)"
    by (simp_all add: rq_insert_def enlisted_def Let_def upd_tf_def upd_rq_def)
  have "placed (rq_insert (tp s) p s) Q (L(OnQueue (tp s) i := L (OnQueue (tp s) i) @ [p]))"
    by (rule placed_join [OF assms(1-4) _ assms(6-8)]) (use assms(5) in simp)
  then show "placed (enlisted p s) Q (L(OnQueue (tp s) i := L (OnQueue (tp s) i) @ [p]))"
    using placed_cong [OF e [symmetric]] by simp
  show "links_only s (enlisted p s)" by (simp add: enlisted_def links_only_upd links_only_link)
  show "data (procs (enlisted p s) q) = data (procs s q)"
    using rq_insert_fields(8) [of s "tp s" p] e(1) by (simp add: same_data_def)
qed

lemma enlist_code:
  assumes "calm s"
  shows "bindO (acquire (RqLock (tp s)) s) (\<lambda>s. Ret (p, release (RqLock (tp s))
      (upd_rq (tp s) (\<lambda>x. x\<lparr>process_count := process_count x + 1\<rparr>) (rq_link (tp s) p s)))) = Ret (p, enlisted p s)"
proof -
  let ?l = "RqLock (tp s)"
  let ?h = "s\<lparr>locks := (locks s)(?l := 1)\<rparr>"
  have l: "upd_rq r g (t\<lparr>locks := k\<rparr>) = (upd_rq r g t)\<lparr>locks := k\<rparr>" "set_next a b (t\<lparr>locks := k\<rparr>) = (set_next a b t)\<lparr>locks := k\<rparr>"
    "set_prev a b (t\<lparr>locks := k\<rparr>) = (set_prev a b t)\<lparr>locks := k\<rparr>"
    "set_circle r i b (t\<lparr>locks := k\<rparr>) = (set_circle r i b t)\<lparr>locks := k\<rparr>" for r g t k a b i
    by (simp_all add: upd_rq_def set_next_def set_prev_def upd_proc_def set_circle_def)
  have "rq_link (tp s) p ?h = (rq_link (tp s) p s)\<lparr>locks := (locks s)(?l := 1)\<rparr>"
    by (simp add: rq_link_def Let_def l)
  then have "upd_rq (tp s) (\<lambda>x. x\<lparr>process_count := process_count x + 1\<rparr>) (rq_link (tp s) p ?h) =
      (enlisted p s)\<lparr>locks := (locks s)(?l := 1)\<rparr>" by (simp add: enlisted_def l)
  moreover have "release ?l ((enlisted p s)\<lparr>locks := (locks s)(?l := 1)\<rparr>) = enlisted p s"
  proof -
    have "locks (enlisted p s) = locks s"
      by (rule links_onlyD(4)) (simp add: enlisted_def links_only_upd links_only_link)
    moreover have "(\<lambda>_. 0 :: u64)(?l := 1, ?l := 0) = (\<lambda>_. 0)" by (rule ext) simp
    ultimately show ?thesis using assms by (cases "enlisted p s") (simp add: release_def spinlock_release_def calm_def)
  qed
  ultimately show ?thesis using assms by (simp add: acquire_free calm_def)
qed

end
