(* ===== verification/SpawnImage.thy ===== *)
theory SpawnImage
  imports SpawnSteps
begin

text \<open>
  An image depends on the bytes the loader reads and on nothing else: while they stay the same, so does what the loader and
  the user of the address space see of it.
\<close>

lemma image_same:
  assumes same: "\<forall>a\<in>elf_reads m b. m' a = m a"
  shows "phnum m' b = phnum m b" "phdr_at m' b i = phdr_at m b i"
    and "i < phnum m b \<Longrightarrow> same_header m m' (phdr_at m b i)"
    and "i < phnum m b \<Longrightarrow> loadable m' b i = loadable m b i"
    and "k < 64 \<Longrightarrow> m' (b + of_nat k) = m (b + of_nat k)"
proof -
  show h: "m' (b + of_nat k) = m (b + of_nat k)" if "k < 64" for k
    by (rule same [rule_format]) (use that in \<open>auto simp: elf_reads_def\<close>)
  have l: "ld_bytes n m' (b + of_nat j) = ld_bytes n m (b + of_nat j)" if "j + n \<le> 64" for n j
  proof (rule ld_bytes_cong)
    fix k assume "k < n"
    then show "m' (b + of_nat j + of_nat k) = m (b + of_nat j + of_nat k)"
      using h [of "j + k"] that by (simp add: algebra_simps)
  qed
  show n: "phnum m' b = phnum m b" using l [of 56 2] by (simp add: phnum_def ld16_def)
  show p: "phdr_at m' b i = phdr_at m b i" for i using l [of 32 8] l [of 54 2] by (simp add: phdr_at_def ld16_def ld64_def)
  show s: "same_header m m' (phdr_at m b i)" if "i < phnum m b"
    by (rule same_header, rule same [rule_format]) (use that in \<open>auto simp: elf_reads_def\<close>)
  show "loadable m' b i = loadable m b i" if "i < phnum m b"
    using s [OF that] p by (simp add: loadable_def same_header_def)
qed

lemma image_fits_same:
  assumes "\<forall>a\<in>elf_reads m b. m' a = m a" and "image_fits m b"
  shows "image_fits m' b" "elf_reads m' b = elf_reads m b" "huge_segment m' b = huge_segment m b"
proof -
  note i = image_same [of m b m', OF assms(1)]
  have hd: "seg_range m' (phdr_at m b j) = seg_range m (phdr_at m b j)" "seg_ok m' (phdr_at m b j) = seg_ok m (phdr_at m b j)"
    "seg_span m' (phdr_at m b j) = seg_span m (phdr_at m b j)" "ph_offset m' (phdr_at m b j) = ph_offset m (phdr_at m b j)"
    "ph_filesz m' (phdr_at m b j) = ph_filesz m (phdr_at m b j)" "loadable m' b j = loadable m b j"
    if "j < phnum m b" for j
    using same_header_seg [OF i(3) [OF that]] i(3) [OF that] i(4) [OF that] by (simp_all add: same_header_def)
  show "image_fits m' b"
    unfolding image_fits_def elf_ok_def i(1,2)
  proof (intro conjI allI impI)
    fix j assume j: "j < phnum m b" "loadable m' b j"
    then show "seg_ok m' (phdr_at m b j)"
      "seg_range m' (phdr_at m b j) \<inter> ({0x7FFFF000 ..< 0x80000000} \<union> {0x3FFFFFE000 ..< 0x4000000000}) = {}"
      using assms(2) hd(1,2,6) [OF j(1)] unfolding image_fits_def elf_ok_def by simp_all
    fix l assume l: "l < j" "loadable m' b l"
    then have "l < phnum m b" using j(1) by simp
    then show "seg_range m' (phdr_at m b j) \<inter> seg_range m' (phdr_at m b l) = {}"
      using assms(2) j l hd(1,6) [OF j(1)] hd(1,6) [of l] unfolding image_fits_def elf_ok_def by simp
  qed
  show "huge_segment m' b = huge_segment m b" unfolding huge_segment_def i(1,2) using hd by auto
  have "{b + ph_offset m' (phdr_at m b i) + of_nat k | i k. i < phnum m b \<and> loadable m' b i \<and> k < unat (ph_filesz m' (phdr_at m b i))} =
      {b + ph_offset m (phdr_at m b i) + of_nat k | i k. i < phnum m b \<and> loadable m b i \<and> k < unat (ph_filesz m (phdr_at m b i))}"
    using hd by (intro Collect_cong ex_cong1) auto
  then show "elf_reads m' b = elf_reads m b" unfolding elf_reads_def i(1,2) by simp
qed

lemma user_space_same:
  assumes same: "\<forall>a\<in>elf_reads (mem s) b. mem s' a = mem s a" and r: "ram_base s' = ram_base s"
    and us: "user_space s' t root b f ust bare"
  shows "user_space s t root b f ust bare"
proof -
  note i = image_same [of "mem s" b "mem s'", OF same] and e = ram_addr [OF r]
  let ?ph = "phdr_at (mem s) b"
  have rg: "seg_range (mem s') (?ph j) = seg_range (mem s) (?ph j)" if "j < phnum (mem s) b" for j
    using same_header_seg(4) [OF i(3) [OF that]] .
  have ld: "seg_loaded s t root b (?ph j) q" if j: "j < phnum (mem s) b" "loadable (mem s) b j" "seg_loaded s' t root b (?ph j) q" for j q
  proof -
    note h = i(3) [OF j(1), unfolded same_header_def] and o = same_header_seg(1) [OF i(3) [OF j(1)]]
    have "mem s' (b + ph_offset (mem s) (?ph j) + of_nat k) = mem s (b + ph_offset (mem s) (?ph j) + of_nat k)"
      if "k < unat (ph_filesz (mem s) (?ph j))" for k
      by (rule same [rule_format]) (use j that in \<open>auto simp: elf_reads_def\<close>)
    then show ?thesis using j(3) h o rg [OF j(1)] e by (simp add: seg_loaded_def cong: if_cong)
  qed
  show ?thesis
    using us i(4) rg ld e unfolding user_space_def i(1,2) by auto
qed

end
