(* ===== verification/SpawnSpec.thy ===== *)
theory SpawnSpec
  imports SpawnImage
begin

text \<open>
  \<open>spawn_process\<close> as a whole: the invariant \<open>machine_ok\<close> of a machine that can spawn, and the trace \<open>spawn_trace\<close> of a
  call from it, step by step.
\<close>

section \<open>Rights and the run queue\<close>

text \<open>The record of the process when it joins its queue.\<close>

definition rights_record :: "u64 \<Rightarrow> u32 \<Rightarrow> process \<Rightarrow> process" where
  "rights_record caps prio r = (r\<lparr>capability_root := caps\<rparr>)\<lparr>active_grant := 0,
     grant_whitelist := (\<lambda>i. if i < 8 then 0 else grant_whitelist r i),
     priority := unat prio, time_slice := push_bit 2 prio + 4, ticks_left := push_bit 2 prio + 4, cpu_time := 0\<rparr>"

text \<open>What this piece leaves alone, beside the process and the run queues.\<close>

definition same_rest :: "kstate \<Rightarrow> kstate \<Rightarrow> bool" where
  "same_rest u t \<longleftrightarrow> tp t = tp u \<and> lists t = lists u \<and> locks t = locks u \<and> shell_ptr t = shell_ptr u \<and>
     pid_registry t = pid_registry u \<and> next_pid t = next_pid u \<and> alive_thread_counter t = alive_thread_counter u \<and>
     caches t = caches u \<and> caches_addr t = caches_addr u \<and> kvmalloc_lock t = kvmalloc_lock u"

lemma stage_same_rest: "stage u p r T s \<Longrightarrow> links_only s t \<Longrightarrow> same_rest u t \<and> tframes t = T"
  using stageD [of u p r T s] links_onlyD [of s t] by (simp add: same_rest_def)

text \<open>
  The state after the rights: the new table is a block of its own, the tables of \<open>P\<close> and it hold what they should, and
  only they were written.
\<close>

definition rights_done ::
  "u64 set \<Rightarrow> kstate \<Rightarrow> kstate \<Rightarrow> (u64 \<times> nat) set \<Rightarrow> u64 \<Rightarrow> u64 set \<Rightarrow> u64 set \<Rightarrow> u64 \<Rightarrow> u64 \<Rightarrow> (u64 \<times> nat) \<Rightarrow> kstate \<Rightarrow> bool" where
  "rights_done U u s B root N P p n c t \<longleftrightarrow>
     c \<notin> B \<and> pt_inv_on (own_beside (insert c B) U) t root N {} \<and>
     ram_base t = ram_base s \<and> ram_size t = ram_size s \<and> root_table t = root_table s \<and>
     (\<forall>b. in_table t p b \<longleftrightarrow> unat b \<in> block_range s c) \<and>
     (\<forall>b. kept B U s b \<longrightarrow> (\<forall>q\<in>P. \<not> in_table u q b) \<longrightarrow> mem t b = mem s b) \<and>
     (\<forall>a. xlate (mem t) root a = xlate (mem s) root a) \<and>
     (\<forall>q\<in>P. capability_root (procs s q) = capability_root (procs u q) \<and>
        capability_root (procs t q) = capability_root (procs u q)) \<and> cap_tables t (insert p P) \<and>
     (\<forall>q\<in>insert p P. \<forall>m<32768. rights_of q m t = (if q = p then 0 else rights_of q m s) OR new_rights u p n q m)"

lemma stage_rights:
  assumes "stage u p r T s" "p \<notin> P" "cap_tables u P" "\<forall>q\<in>P. \<forall>b. in_table u q b \<longrightarrow> kept B U s b"
    and "own_beside (insert (i, 2) B) U s N" "(i, 2) \<notin> B" "unat (page_addr s i) + 16384 \<le> 2 ^ 64"
    and "capability_root r = page_addr s i"
  shows "cap_tables s (insert p P)" "in_table s p b \<longleftrightarrow> unat b \<in> block_range s (i, 2)"
    "q \<in> P \<Longrightarrow> in_table s q b = in_table u q b" "q \<in> P \<Longrightarrow> in_table u q b \<Longrightarrow> unat b \<notin> block_range s (i, 2)"
proof -
  have c: "capability_root (procs s p) = page_addr s i" "\<And>q. q \<noteq> p \<Longrightarrow> procs s q = procs u q"
    using stageD(1) [OF assms(1)] assms(8) by simp_all
  have pq: "capability_root (procs s q) = capability_root (procs u q)" if "q \<in> P" for q
    using that assms(2) by (cases "q = p") (simp_all add: c(2))
  show ip: "in_table s p b \<longleftrightarrow> unat b \<in> block_range s (i, 2)" for b
    by (auto simp: in_table_def table_at_def c(1) block_range_def)
  show iq: "in_table s q b = in_table u q b" if "q \<in> P" for q b
    using pq [OF that] by (simp add: in_table_def table_at_def)
  show far: "unat b \<notin> block_range s (i, 2)" if "q \<in> P" "in_table u q b" for q b
    by (rule kept_new [OF assms(5,6)]) (use assms(4) that in blast)
  have tq: "table_at s q = table_at u q" if "q \<in> P" for q using pq [OF that] by (simp add: table_at_def)
  have nb: "table_at s q + 16384 \<le> 2 ^ 64" if "q \<in> P" for q using assms(3) tq [OF that] that by (simp add: cap_tables_def)
  have np: "table_at s p + 16384 \<le> 2 ^ 64" using assms(7) by (simp add: table_at_def c(1))
  have "table_at s p + 16384 \<le> table_at s q \<or> table_at s q + 16384 \<le> table_at s p" if "q \<in> P" for q
    by (rule tables_apart [OF _ np nb [OF that]]) (use ip iq [OF that] far [OF that] in blast)
  moreover have "table_at s q + 16384 \<le> table_at s q' \<or> table_at s q' + 16384 \<le> table_at s q"
    if "q \<in> P" "q' \<in> P" "q \<noteq> q'" for q q'
    using assms(3) that tq by (simp add: cap_tables_def)
  ultimately show "cap_tables s (insert p P)" unfolding cap_tables_def using nb np by blast
qed

lemma spawn_caps_gives:
  assumes inv: "pt_inv_on (own_beside B U) s root N {}" and st: "stage u p r T s"
    and P: "cap_tables u P" "p \<notin> P" "curr u \<in> P" "shell_ptr u \<noteq> 0 \<Longrightarrow> shell_ptr u \<in> P" and n: "pid r < 32768"
    and held: "\<forall>q\<in>P. \<forall>b. in_table u q b \<longrightarrow> kept B U s b"
  shows "gives no_memory (\<lambda>(caps, t). \<exists>i. caps = page_addr s i \<and> rights_done U u s B root N P p (pid r) (i, 2) t \<and>
      stage u p (r\<lparr>capability_root := caps\<rparr>) T t)
    (bindO (kalloc 2 ca s) (\<lambda>(caps, s). Ret (caps, spawn_caps p (clear_caps caps (upd_proc p (\<lambda>x. x\<lparr>capability_root := caps\<rparr>) s)))))"
proof -
  have o: "own_beside B U s N" and tr: "tree (mem s) root N" using inv by (simp_all add: pt_inv_on_def)
  show ?thesis
  proof (rule gives_pair [OF kalloc_gives [OF o, of 2 ca]], simp, goal_cases)
    case (2 caps t)
    then obtain i where z: "caps = page_addr s i" "(i, 2) \<notin> B" "own_beside (insert (i, 2) B) U t N" "same_kernel s t"
      "mem t = mem s" "unat caps + 16384 \<le> 2 ^ 64" by auto
    let ?B = "insert (i, 2) B" and ?r = "r\<lparr>capability_root := caps\<rparr>"
    have rt: "ram_base t = ram_base s" using z(4) by (simp add: same_kernel_def)
    note e = ram_addr [OF rt]
    define w where "w = clear_caps caps (upd_proc p (\<lambda>x. x\<lparr>capability_root := caps\<rparr>) t)"
    have sw: "stage u p ?r T w"
      using stage_mem [OF stage_proc [OF stage_kernel [OF st z(4)], of "\<lambda>x. x\<lparr>capability_root := caps\<rparr>"]]
      by (simp add: w_def clear_caps_def)
    have mw: "mem w b = (if unat b \<in> block_range s (i, 2) then 0 else mem s b)" for b
      using zero64_bytes [of caps 2048 "mem s" b] z(1,6) by (simp add: w_def clear_caps_def z(5) block_range_def)
    have rw: "ram_base w = ram_base s" "ram_size w = ram_size s" "root_table w = root_table s"
      using z(4) by (simp_all add: w_def clear_caps_def same_kernel_def)
    note ew = ram_addr [OF rw(1)]
    have ow: "own_beside ?B U w N" using z(3) by (simp add: w_def clear_caps_def)
    have hw: "\<forall>q\<in>P. \<forall>b. in_table u q b \<longrightarrow> kept B U w b" using held ew by simp
    have pw: "unat (page_addr w i) + 16384 \<le> 2 ^ 64" "capability_root ?r = page_addr w i" using z(1,6) ew by simp_all
    note R = stage_rights [OF sw P(2,1) hw ow z(2) pw]
    have cw: "curr w = curr u" "shell_ptr w = shell_ptr u" "pid (procs w p) = pid r"
      using stageD [OF sw] by simp_all
    have P': "p \<in> insert p P" "curr w \<in> insert p P" "shell_ptr w \<noteq> 0 \<Longrightarrow> shell_ptr w \<in> insert p P"
      using P(3,4) cw by auto
    have nw: "pid (procs w p) < 32768" using n cw by simp
    have C: "\<And>q k. q \<in> insert p P \<Longrightarrow> k < 32768 \<Longrightarrow>
        rights_of q k (spawn_caps p w) = rights_of q k w OR new_rights w p (pid (procs w p)) q k"
      "\<And>b. (\<And>q. q \<in> insert p P \<Longrightarrow> \<not> in_table w q b) \<Longrightarrow> mem (spawn_caps p w) b = mem w b"
      "\<exists>m. spawn_caps p w = w\<lparr>mem := m\<rparr>"
      by (rule spawn_caps_ok [OF R(1) P'(1,2) _ nw]; use P'(3) in blast)+
    obtain m where m: "spawn_caps p w = w\<lparr>mem := m\<rparr>" using C(3) by blast
    let ?v = "spawn_caps p w"
    have pv: "procs ?v = procs w" and rv: "ram_base ?v = ram_base s" "ram_size ?v = ram_size s" "root_table ?v = root_table s"
      using rw by (simp_all add: m)
    have iv: "in_table ?v = in_table w" by (simp add: m in_table_def table_at_def fun_eq_iff)
    have mem: "mem ?v b = mem s b" if "unat b \<notin> block_range s (i, 2)" "\<forall>q\<in>P. \<not> in_table u q b" for b
    proof -
      have "mem ?v b = mem w b" by (rule C(2)) (use that R(2,3) ew in auto)
      then show ?thesis using mw that by simp
    qed
    have kb: "unat b \<notin> block_range s (i, 2)" if "kept B U s b" for b
      using kept_new [OF ow z(2), of b] that ew by simp
    have tN: "mem ?v b = mem s b" if b: "page_down b \<in> N" for b
    proof (rule mem)
      show "unat b \<notin> block_range s (i, 2)" using own_beside_apart [OF ow, of "(i, 2)" b] b ew by auto
      show "\<forall>q\<in>P. \<not> in_table u q b" using own_beside_kept [OF o, of b] held b by blast
    qed
    note ts = tree_same [OF tr tN]
    have bound: "table_at w q + 16384 \<le> 2 ^ 64" if "q \<in> insert p P" for q using R(1) that unfolding cap_tables_def by blast
    have old: "rights_of q k w = (if q = p then 0 else rights_of q k s)" if q: "q \<in> insert p P" "k < 32768" for q k
    proof (cases "q = p")
      case True
      then show ?thesis using rights_cleared [OF bound [OF q(1)] q(2)] R(2) mw ew by simp
    next
      case False
      then have qP: "q \<in> P" using q(1) by simp
      have cs: "capability_root (procs w q) = capability_root (procs s q)"
        using False stageD(1) [OF sw] stageD(1) [OF st] by simp
      have "in_table s q b = in_table w q b" for b using cs by (simp add: in_table_def table_at_def)
      then have "rights_of q k s = rights_of q k w"
        using R(3,4) [OF qP] mw ew cs by (intro rights_cong [OF bound [OF q(1)] q(2)]) auto
      then show ?thesis using False by simp
    qed
    have "rights_done U u s B root N P p (pid r) (i, 2) ?v"
      unfolding rights_done_def
    proof (intro conjI)
      show "(i, 2) \<notin> B" by (rule z(2))
      show "pt_inv_on (own_beside ?B U) ?v root N {}" using ow ts(3) by (simp add: pt_inv_on_def m)
      show "ram_base ?v = ram_base s" "ram_size ?v = ram_size s" "root_table ?v = root_table s" by (fact rv)+
      show "\<forall>b. in_table ?v p b = (unat b \<in> block_range s (i, 2))" using R(2) iv ew by simp
      show "\<forall>b. kept B U s b \<longrightarrow> (\<forall>q\<in>P. \<not> in_table u q b) \<longrightarrow> mem ?v b = mem s b" using mem kb by blast
      show "\<forall>a. xlate (mem ?v) root a = xlate (mem s) root a" using ts(5) by blast
      show "\<forall>q\<in>P. capability_root (procs s q) = capability_root (procs u q) \<and>
          capability_root (procs ?v q) = capability_root (procs u q)"
        using P(2) pv stageD(1) [OF sw] stageD(1) [OF st] by auto
      show "cap_tables ?v (insert p P)" using R(1) cap_tables_cong [of "insert p P" ?v w] pv by simp
      show "\<forall>q\<in>insert p P. \<forall>k<32768. rights_of q k ?v = (if q = p then 0 else rights_of q k s) OR new_rights u p (pid r) q k"
        using C(1) old cw by (simp add: new_rights_def)
    qed
    moreover have "stage u p ?r T ?v" using stage_mem [OF sw, of m] by (simp add: m)
    ultimately show ?case unfolding prod.case gives_Ret w_def [symmetric] using z(1) by blast
  qed (simp add: no_memory_def)
qed

lemma rights_done_upd:
  assumes "rights_done U u s B root N P p n c t" and "capability_root (f (procs t p)) = capability_root (procs t p)"
  shows "rights_done U u s B root N P p n c (upd_proc p f t)"
proof -
  have c: "capability_root (procs (upd_proc p f t) q) = capability_root (procs t q)" for q
    using assms(2) by (simp add: upd_proc_def)
  then have "in_table (upd_proc p f t) = in_table t" "rights_of q m (upd_proc p f t) = rights_of q m t"
    "cap_tables (upd_proc p f t) = cap_tables t" for q m
    by (simp_all add: fun_eq_iff in_table_def table_at_def rights_of_def cap_cell_def load_def cap_tables_def)
  then show ?thesis using assms(1) c by (simp add: rights_done_def)
qed

lemma enlist_at_end:
  assumes "calm w"
  shows "bindO (acquire (RqLock (tp w)) w) (\<lambda>s.
      Ret (p, release (RqLock (tp (upd_rq (tp (rq_link (tp s) p s)) (\<lambda>x. x\<lparr>process_count := process_count x + 1\<rparr>) (rq_link (tp s) p s))))
        (upd_rq (tp (rq_link (tp s) p s)) (\<lambda>x. x\<lparr>process_count := process_count x + 1\<rparr>) (rq_link (tp s) p s)))) = Ret (p, enlisted p w)"
proof -
  have "tp (rq_link r p s) = tp s" "tp (upd_rq r g s) = tp s" for r s g
    using links_onlyD(6) [OF links_only_link] by (simp_all add: upd_rq_def)
  then show ?thesis using enlist_code [OF assms, of p] assms by (simp add: acquire_free calm_def)
qed

lemma spawn_end_gives:
  assumes inv: "pt_inv_on (own_beside B U) s root N {}" and st: "stage u p r T s"
    and P: "cap_tables u P" "p \<notin> P" "curr u \<in> P" "shell_ptr u \<noteq> 0 \<Longrightarrow> shell_ptr u \<in> P" and n: "pid r < 32768"
    and held: "\<forall>q\<in>P. \<forall>b. in_table u q b \<longrightarrow> kept B U s b" and calm: "calm u"
  shows "gives no_memory (\<lambda>(q, t). q = p \<and> (\<exists>i w. t = enlisted p w \<and>
      rights_done U u s B root N P p (pid r) (i, 2) w \<and> stage u p (rights_record (page_addr s i) prio r) T w))
    (bindO (kalloc 2 ca s) (\<lambda>(caps, s).
      bindO (acquire (RqLock (tp (upd_proc p (\<lambda>x. x\<lparr>active_grant := 0,
          grant_whitelist := (\<lambda>i. if i < 8 then 0 else grant_whitelist x i),
          priority := unat prio, time_slice := push_bit 2 prio + 4, ticks_left := push_bit 2 prio + 4, cpu_time := 0\<rparr>)
          (spawn_caps p (clear_caps caps (upd_proc p (\<lambda>x. x\<lparr>capability_root := caps\<rparr>) s))))))
        (upd_proc p (\<lambda>x. x\<lparr>active_grant := 0,
          grant_whitelist := (\<lambda>i. if i < 8 then 0 else grant_whitelist x i),
          priority := unat prio, time_slice := push_bit 2 prio + 4, ticks_left := push_bit 2 prio + 4, cpu_time := 0\<rparr>)
          (spawn_caps p (clear_caps caps (upd_proc p (\<lambda>x. x\<lparr>capability_root := caps\<rparr>) s))))) (\<lambda>s.
      Ret (p, release (RqLock (tp (upd_rq (tp (rq_link (tp s) p s)) (\<lambda>x. x\<lparr>process_count := process_count x + 1\<rparr>) (rq_link (tp s) p s))))
        (upd_rq (tp (rq_link (tp s) p s)) (\<lambda>x. x\<lparr>process_count := process_count x + 1\<rparr>) (rq_link (tp s) p s))))))"
proof -
  let ?F = "\<lambda>x. x\<lparr>active_grant := 0, grant_whitelist := (\<lambda>i. if i < 8 then 0 else grant_whitelist x i),
    priority := unat prio, time_slice := push_bit 2 prio + 4, ticks_left := push_bit 2 prio + 4, cpu_time := 0\<rparr>"
  let ?last = "\<lambda>(caps, s). bindO (acquire (RqLock (tp (upd_proc p ?F s))) (upd_proc p ?F s)) (\<lambda>s.
      Ret (p, release (RqLock (tp (upd_rq (tp (rq_link (tp s) p s)) (\<lambda>x. x\<lparr>process_count := process_count x + 1\<rparr>) (rq_link (tp s) p s))))
        (upd_rq (tp (rq_link (tp s) p s)) (\<lambda>x. x\<lparr>process_count := process_count x + 1\<rparr>) (rq_link (tp s) p s))))"
  have "gives no_memory (\<lambda>(q, t). q = p \<and> (\<exists>i w. t = enlisted p w \<and>
      rights_done U u s B root N P p (pid r) (i, 2) w \<and> stage u p (rights_record (page_addr s i) prio r) T w))
    (bindO (bindO (kalloc 2 ca s) (\<lambda>(caps, s). Ret (caps, spawn_caps p (clear_caps caps (upd_proc p (\<lambda>x. x\<lparr>capability_root := caps\<rparr>) s))))) ?last)"
  proof (rule gives_pair [OF spawn_caps_gives [OF inv st P(1-3) _ n held, of ca]], goal_cases)
    case (3 caps v)
    then obtain i where v: "caps = page_addr s i" "rights_done U u s B root N P p (pid r) (i, 2) v"
      "stage u p (r\<lparr>capability_root := caps\<rparr>) T v" by blast
    let ?w = "upd_proc p ?F v"
    have sw: "stage u p (rights_record caps prio r) T ?w"
      using stage_proc [OF v(3), of ?F] by (simp add: rights_record_def cong: if_cong)
    have cw: "calm ?w" using calm stageD(6) [OF sw] by (simp add: calm_def)
    have rd: "rights_done U u s B root N P p (pid r) (i, 2) ?w" by (rule rights_done_upd [OF v(2)]) simp
    show ?case unfolding prod.case enlist_at_end [OF cw] gives_Ret using rd sw v(1) by blast
  qed (use P(4) in simp_all)
  then show ?thesis by (simp add: bindO_assoc case_prod_unfold)
qed

section \<open>The whole call\<close>

text \<open>
  A sound machine: slabs, heap, queues and locks are in order; the processes \<open>P\<close> it knows are live objects (or lie outside
  the pool), their tables of rights and the registry of ids are bytes that nobody else has.
\<close>

definition machine_ok ::
  "kstate \<Rightarrow> u64 set \<Rightarrow> (u64 \<Rightarrow> slab_view) \<Rightarrow> (u64 \<times> nat) set \<Rightarrow> u64 set \<Rightarrow> u64 set \<Rightarrow> layout_of \<Rightarrow> u64 set \<Rightarrow> bool" where
  "machine_ok s H V L U Q Pl P \<longleftrightarrow>
     slab_ok s H V L U \<and> kvmalloc_lock s = 0 \<and> calm s \<and> placed s Q Pl \<and> tp s \<in> Q \<and>
     (\<forall>x\<in>places Q. set (Pl x) \<subseteq> P) \<and> curr s \<in> P \<and> (shell_ptr s = 0 \<or> shell_ptr s \<in> P) \<and>
     (\<forall>q\<in>P. (\<exists>i. (i, q) \<in> objects H V) \<or> settled H V L U s q) \<and>
     cap_tables s P \<and> (\<forall>q\<in>P. \<forall>b. in_table s q b \<longrightarrow> settled H V L U s b \<and> page_down b \<noteq> pid_registry s) \<and>
     registry_ok s \<and> (\<forall>b. page_down b = pid_registry s \<longrightarrow> settled H V L U s b)"

definition object_made ::
  "kstate \<Rightarrow> u64 set \<Rightarrow> (u64 \<Rightarrow> slab_view) \<Rightarrow> (u64 \<times> nat) set \<Rightarrow> u64 set \<Rightarrow>
   kstate \<Rightarrow> u64 \<Rightarrow> nat \<Rightarrow> u64 set \<Rightarrow> (u64 \<Rightarrow> slab_view) \<Rightarrow> (u64 \<times> nat) set \<Rightarrow> bool" where
  "object_made s H V L U t p c H' V' L' \<longleftrightarrow>
     slab_ok t H' V' L' U \<and> kvmalloc_lock t = 0 \<and> L \<subseteq> L' \<and> rest_same s t \<and>
     objects H' V' = insert (c, p) (objects H V) \<and> p \<noteq> 0 \<and> (\<forall>j. (j, p) \<notin> objects H V) \<and> \<not> settled H V L U s p \<and>
     (\<forall>b. settled H V L U s b \<longrightarrow> mem t b = mem s b \<and> settled H' V' L' U t b)"

lemma object_gives:
  assumes "machine_ok s H V L U Q Pl P"
  shows "gives no_memory (\<lambda>(p, t). \<exists>c H' V' L'. object_made s H V L U t p c H' V' L') (kvmalloc ca sizeof_process s)"
proof -
  have h: "slab_ok s H V L U" "kvmalloc_lock s = 0" "0 < (sizeof_process :: u64)" "(sizeof_process :: u64) \<le> 2048"
    using assms by (simp_all add: machine_ok_def)
  show ?thesis by (rule gives_mono [OF kvmalloc_gives [OF h]], assumption) (unfold object_made_def case_prod_unfold, blast)
qed

lemma rest_same_fields:
  assumes "rest_same (s :: kstate) t"
  shows "procs t = procs s" "tframes t = tframes s" "rqs t = rqs s" "tp t = tp s" "lists t = lists s" "locks t = locks s"
    "shell_ptr t = shell_ptr s" "pid_registry t = pid_registry s" "next_pid t = next_pid s"
    "alive_thread_counter t = alive_thread_counter s" "curr t = curr s" "ram_base t = ram_base s" "root_table t = root_table s"
  using assms unfolding curr_def by (cases s; cases t; simp add: rest_same_def)+

text \<open>The registry depends on its page only.\<close>

lemma registry_byte:
  assumes "registry_ok s" "n < 32768" "k < 8"
  shows "page_down (pid_cell n s + of_nat k) = pid_registry s"
proof -
  have d: "n div 64 < 512" using assms(2) by (simp add: less_mult_imp_div_less)
  have r: "page_base (pid_registry s)" "unat (pid_registry s) + 4104 \<le> 2 ^ 64" using assms(1) by (simp_all add: registry_ok_def)
  have e: "pid_cell n s + of_nat k = pid_registry s + of_nat (8 * (n div 64) + k)" by (simp add: pid_cell_def)
  have "unat (pid_cell n s + of_nat k) = unat (pid_registry s) + (8 * (n div 64) + k)"
    unfolding e using d r(2) assms(3) by (intro unat_add_small) simp
  then show ?thesis using d assms(3) by (intro page_down_unique [OF r(1)]) simp_all
qed

lemma pid_taken_cong:
  assumes "registry_ok s" "n < 32768" "pid_registry t = pid_registry s"
    and "\<forall>b. page_down b = pid_registry s \<longrightarrow> mem t b = mem s b"
  shows "pid_taken n t = pid_taken n s"
proof -
  have c: "pid_cell n t = pid_cell n s" using assms(3) by (simp add: pid_cell_def)
  have "ld64 (mem t) (pid_cell n s) = ld64 (mem s) (pid_cell n s)"
    by (rule ld64_cong) (use assms(4) registry_byte [OF assms(1,2)] in blast)
  then show ?thesis by (simp add: pid_taken_def c load_def)
qed

lemma pid_new_byte:
  assumes "registry_ok s" "k < 32768" "page_down b \<noteq> pid_registry s"
  shows "mem (pid_new k s) b = mem s b"
proof -
  have "\<not> b - pid_cell k s < 8"
  proof
    assume l: "b - pid_cell k s < 8"
    have "b = pid_cell k s + of_nat (unat (b - pid_cell k s))" by simp
    then show False using registry_byte [OF assms(1,2), of "unat (b - pid_cell k s)"] l assms(3)
      by (simp add: word_less_nat_alt)
  qed
  then show ?thesis by (simp add: pid_new_def st64_def)
qed

lemma pid_new_fields [simp]:
  "procs (pid_new k s) = procs s" "tframes (pid_new k s) = tframes s" "rqs (pid_new k s) = rqs s" "tp (pid_new k s) = tp s"
  "lists (pid_new k s) = lists s" "locks (pid_new k s) = locks s" "shell_ptr (pid_new k s) = shell_ptr s"
  "pid_registry (pid_new k s) = pid_registry s" "curr (pid_new k s) = curr s" "ram_base (pid_new k s) = ram_base s"
  "ram_size (pid_new k s) = ram_size s" "root_table (pid_new k s) = root_table s"
  "kvmalloc_lock (pid_new k s) = kvmalloc_lock s" "caches (pid_new k s) = caches s" "caches_addr (pid_new k s) = caches_addr s"
  "own_beside B U (pid_new k s) = own_beside B U s"
  by (simp_all add: pid_new_def curr_def) (rule own_beside_cong; simp)

text \<open>The record and the trap frame of the process before its rights are set.\<close>

definition born_record ::
  "entry_points \<Rightarrow> u64 \<Rightarrow> u8 list \<Rightarrow> u64 \<Rightarrow> u64 \<Rightarrow> u64 \<Rightarrow> process \<Rightarrow> process" where
  "born_record ep stack name n root parent r =
     (frame_record ep stack name (r\<lparr>pid := n, p_state := 0, p_context := (\<lambda>i. if i < 14 then 0 else p_context r i)\<rparr>))
       \<lparr>p_satp := make_satp root, magic := PROCESS_MAGIC, parent_pid := parent, mailbox_status := 0\<rparr>"

definition born_frame :: "entry_points \<Rightarrow> u64 \<Rightarrow> u64 \<Rightarrow> kstate \<Rightarrow> u64 \<Rightarrow> u64 \<Rightarrow> trapframe" where
  "born_frame ep stack sstatus_val u root start =
     (first_frame ep stack sstatus_val u)\<lparr>user_satp := make_satp root, epc := start, u_context := (\<lambda>_. 0)(2 := 0x80000000)\<rparr>"

definition parent_of :: "kstate \<Rightarrow> u64" where
  "parent_of s = (if curr s \<noteq> 0 then pid (procs s (curr s)) else 0)"

text \<open>What the call has done when it returns, step by step.\<close>

definition spawn_trace ::
  "kstate \<Rightarrow> u64 set \<Rightarrow> (u64 \<Rightarrow> slab_view) \<Rightarrow> (u64 \<times> nat) set \<Rightarrow> u64 set \<Rightarrow> u64 set \<Rightarrow>
   layout \<Rightarrow> entry_points \<Rightarrow> u64 \<Rightarrow> u8 list \<Rightarrow> u64 \<Rightarrow> u32 \<Rightarrow> nat \<Rightarrow> u64 \<times> kstate \<Rightarrow> bool" where
  "spawn_trace s H V L U P ly ep binary name sstatus_val prio k = (\<lambda>(p, t).
     \<exists>s1 c H1 V1 L1 i root B N f ust v j w.
       object_made s H V L U s1 p c H1 V1 L1 \<and> t = enlisted p w \<and>
       beside_grown U (pid_new k s1) L1 v B \<and>
       (\<forall>i<phnum (mem s) binary. loadable (mem s) binary i \<longrightarrow> f i \<in> B - L1) \<and> (ust, 0) \<in> B - L1 \<and>
       user_space s v root binary f ust (bare_space ly (page_addr s i)) \<and>
       rights_done U (pid_new k s1) v B root N P p (of_nat k) (j, 2) w \<and>
       stage (pid_new k s1) p
         (rights_record (page_addr s j) prio (born_record ep (page_addr s i) name (of_nat k) root (parent_of s) (procs s p)))
         ((tframes s)(page_addr s i + 4096 - sizeof_trapframe :=
            born_frame ep (page_addr s i) sstatus_val s root (ld64 (mem s) (binary + 24)))) w)"

lemma outside_settled: "slab_ok s H V L U \<Longrightarrow> unat b \<notin> pool_range s U \<Longrightarrow> settled H V L U s b"
proof -
  assume ok: "slab_ok s H V L U" and b: "unat b \<notin> pool_range s U"
  have "pageno b \<noteq> pageno (v_page (V h))" if h: "h \<in> H" for h
  proof
    assume e: "pageno b = pageno (v_page (V h))"
    obtain j where j: "v_page (V h) = page_addr s j" "(j, 0) \<in> L" using slab_okD(3) [OF ok] h by blast
    show False using block_in_pool [OF slab_okD(1) [OF ok] j(2)] slab_page_block [OF ok h e j(1)] b by blast
  qed
  then show ?thesis using b by (simp add: settled_def kept_def)
qed

lemma user_space_mem: "mem t' = mem t \<Longrightarrow> user_space s t' = user_space s t"
  by (intro ext) (simp add: user_space_def seg_loaded_def)

lemma born_frame_eq:
  assumes "root_table u = root_table s" "tp u = tp s"
  shows "(first_frame ep stack sv u)\<lparr>user_satp := make_satp root, epc := e, u_context :=
    (u_context ((first_frame ep stack sv u)\<lparr>user_satp := make_satp root, epc := e\<rparr>))(2 := 0x80000000)\<rparr> = born_frame ep stack sv s root e"
  using assms by (simp add: first_frame_def born_frame_def zero_trapframe_def)

text \<open>The last piece of the call, from the state with the loaded image on.\<close>

lemma spawn_finish:
  assumes ok: "machine_ok s H V L U Q Pl P" and o: "object_made s H V L U s1 p c H1 V1 L1" and k: "k < 32768"
    and inv: "pt_inv_on (own_beside B U) v root N {}" and g: "beside_grown U (pid_new k s1) L1 v B"
    and st: "stage (pid_new k s1) p r T v" and r: "pid r = of_nat k"
    and Q: "\<And>i w. rights_done U (pid_new k s1) v B root N P p (of_nat k) (i, 2) w \<Longrightarrow>
      stage (pid_new k s1) p (rights_record (page_addr s i) prio r) T w \<Longrightarrow> R (p, enlisted p w)"
  shows "gives no_memory R
    (bindO (kalloc 2 ca v) (\<lambda>(caps, s).
      bindO (acquire (RqLock (tp (upd_proc p (\<lambda>x. x\<lparr>active_grant := 0,
          grant_whitelist := (\<lambda>i. if i < 8 then 0 else grant_whitelist x i),
          priority := unat prio, time_slice := push_bit 2 prio + 4, ticks_left := push_bit 2 prio + 4, cpu_time := 0\<rparr>)
          (spawn_caps p (clear_caps caps (upd_proc p (\<lambda>x. x\<lparr>capability_root := caps\<rparr>) s))))))
        (upd_proc p (\<lambda>x. x\<lparr>active_grant := 0,
          grant_whitelist := (\<lambda>i. if i < 8 then 0 else grant_whitelist x i),
          priority := unat prio, time_slice := push_bit 2 prio + 4, ticks_left := push_bit 2 prio + 4, cpu_time := 0\<rparr>)
          (spawn_caps p (clear_caps caps (upd_proc p (\<lambda>x. x\<lparr>capability_root := caps\<rparr>) s))))) (\<lambda>s.
      Ret (p, release (RqLock (tp (upd_rq (tp (rq_link (tp s) p s)) (\<lambda>x. x\<lparr>process_count := process_count x + 1\<rparr>) (rq_link (tp s) p s))))
        (upd_rq (tp (rq_link (tp s) p s)) (\<lambda>x. x\<lparr>process_count := process_count x + 1\<rparr>) (rq_link (tp s) p s))))))"
proof -
  let ?u = "pid_new k s1"
  have ob: "rest_same s s1" "\<not> settled H V L U s p" "\<forall>j. (j, p) \<notin> objects H V"
    "\<And>b. settled H V L U s b \<Longrightarrow> settled H1 V1 L1 U s1 b"
    using o by (simp_all add: object_made_def)
  note f1 = rest_same_fields [OF ob(1)]
  have m: "calm s" "curr s \<in> P" "shell_ptr s = 0 \<or> shell_ptr s \<in> P" "cap_tables s P"
    "\<forall>q\<in>P. (\<exists>i. (i, q) \<in> objects H V) \<or> settled H V L U s q" "\<forall>q\<in>P. \<forall>b. in_table s q b \<longrightarrow> settled H V L U s b"
    using ok by (simp_all add: machine_ok_def)
  have pP: "p \<notin> P" using m(5) ob(2,3) by blast
  have ct: "cap_tables ?u P" using m(4) f1(1) cap_tables_cong [of P ?u s] by simp
  have gr: "L1 \<subseteq> B" "ram_base v = ram_base ?u" using g by (simp_all add: beside_grown_def)
  have rv: "ram_base v = ram_base s1" "ram_base v = ram_base s" using gr(2) f1(12) by simp_all
  have held: "\<forall>q\<in>P. \<forall>b. in_table ?u q b \<longrightarrow> kept B U v b"
  proof (intro ballI allI impI)
    fix q b assume "q \<in> P" "in_table ?u q b"
    then have "settled H V L U s b" using m(6) f1(1) by (simp add: in_table_def table_at_def)
    then have "kept L1 U s1 b" using ob(4) by (simp add: settled_def)
    then show "kept B U v b" using kept_mono [OF _ gr(1)] ram_addr [OF rv(1)] by simp
  qed
  have n: "pid r < 32768" using r k by (simp add: word_less_nat_alt unat_of_nat)
  have cm: "calm ?u" "curr ?u \<in> P" using m(1,2) f1 by (simp_all add: calm_def)
  have sh: "shell_ptr ?u \<noteq> 0 \<Longrightarrow> shell_ptr ?u \<in> P" using m(3) f1(7) by simp
  have pa: "page_addr v = page_addr s" using ram_addr [OF rv(2)] by blast
  show ?thesis
    by (rule gives_mono [OF spawn_end_gives [OF inv st ct pP cm(2) sh n held cm(1), where ca = ca and prio = prio]])
      (use Q r pa in \<open>auto simp: no_memory_def\<close>)
qed

text \<open>Bytes in use, the image among them, are the same until the rights are set.\<close>

lemma spawn_tables_kept:
  assumes "machine_ok s H V L U Q Pl P" and o: "object_made s H V L U s1 p c H1 V1 L1" and k: "k < 32768"
    and g: "beside_grown U (pid_new k s1) L1 v B" and b: "settled H V L U s b \<and> page_down b \<noteq> pid_registry s"
  shows "mem v b = mem s b"
proof -
  have rs: "rest_same s s1" and mv: "mem s1 b = mem s b" "settled H1 V1 L1 U s1 b" using o b by (simp_all add: object_made_def)
  note f1 = rest_same_fields [OF rs]
  have "registry_ok s1" using assms(1) f1(8) by (simp add: machine_ok_def registry_ok_def)
  then have "mem (pid_new k s1) b = mem s1 b" by (rule pid_new_byte [OF _ k]) (use b f1(8) in simp)
  moreover have "kept L1 U (pid_new k s1) b" using mv(2) ram_addr [of "pid_new k s1" s1] by (simp add: settled_def)
  ultimately show ?thesis using g mv(1) by (simp add: beside_grown_def)
qed

lemma image_kept:
  assumes ok: "machine_ok s H V L U Q Pl P" and "object_made s H V L U s1 p c H1 V1 L1" "k < 32768"
    and "beside_grown U (pid_new k s1) L1 v B"
    and im: "\<forall>a\<in>elf_reads (mem s) binary. unat a \<notin> pool_range s U \<and> page_down a \<noteq> pid_registry s"
  shows "\<forall>a\<in>elf_reads (mem s) binary. mem v a = mem s a"
proof
  fix a assume "a \<in> elf_reads (mem s) binary"
  then have "settled H V L U s a \<and> page_down a \<noteq> pid_registry s"
    using im ok outside_settled [of s H V L U a] by (simp add: machine_ok_def)
  then show "mem v a = mem s a" by (rule spawn_tables_kept [OF assms(1-4)])
qed

text \<open>The last writes to the record and the trap frame before the rights.\<close>

lemma born_stage:
  fixes v :: kstate and p :: u64
  defines "v1 \<equiv> upd_tf (p_tf (procs v p)) (\<lambda>t. t\<lparr>u_context := (u_context t)(2 := 0x80000000)\<rparr>) v"
  assumes sv: "stage u p r ((tframes s)(p_tf r := (first_frame ep stack sv u)\<lparr>user_satp := make_satp root, epc := e\<rparr>)) v"
    and same: "procs u = procs s" "curr u = curr s" "root_table u = root_table s" "tp u = tp s" and cp: "curr s \<noteq> p"
  shows "stage u p (r\<lparr>parent_pid := parent_of s, mailbox_status := 0\<rparr>)
    ((tframes s)(p_tf r := born_frame ep stack sv s root e))
    (upd_proc p (\<lambda>x. x\<lparr>parent_pid := (if curr v1 \<noteq> 0 then pid (procs v1 (curr v1)) else 0), mailbox_status := 0\<rparr>) v1)"
proof -
  have v1: "v1 = upd_tf (p_tf r) (\<lambda>t. t\<lparr>u_context := (u_context t)(2 := 0x80000000)\<rparr>) v"
    using stageD(1) [OF sv] by (simp add: v1_def)
  have cv: "curr v1 = curr s" using stageD(14) [OF sv] same(2) by (simp add: v1_def upd_tf_def curr_def)
  have par: "(if curr v1 \<noteq> 0 then pid (procs v1 (curr v1)) else 0) = parent_of s"
    using stageD(1) [OF sv] same(1) cp unfolding cv parent_of_def by (simp add: v1_def upd_tf_def)
  show ?thesis
    unfolding par
    unfolding born_frame_eq [OF same(3,4), symmetric] v1
    using stage_proc [where f = "\<lambda>x. x\<lparr>parent_pid := parent_of s, mailbox_status := 0\<rparr>",
      OF stage_tf [where f = "\<lambda>t. t\<lparr>u_context := (u_context t)(2 := 0x80000000)\<rparr>" and a = "p_tf r", OF sv]]
    unfolding fun_upd_same fun_upd_upd .
qed

lemma spawn_process_gives:
  assumes ok: "machine_ok s H V L U Q Pl P"
    and ids: "next_pid s = of_nat m" "m \<le> k" "k < 32768" "\<forall>n. m \<le> n \<and> n < k \<longrightarrow> pid_taken n s" "\<not> pid_taken k s"
    and alive: "alive_thread_counter s < PID_MAX"
    and image: "elf_magic (mem s) binary" "image_fits (mem s) binary"
      "\<forall>a\<in>elf_reads (mem s) binary. unat a \<notin> pool_range s U \<and> page_down a \<noteq> pid_registry s"
  shows "gives (load_panic (mem s) binary) (spawn_trace s H V L U P ly ep binary name sstatus_val prio k)
    (spawn_process ca ly ep binary name sstatus_val prio s)"
  unfolding spawn_process_def Let_def
proof (rule gives_pair [OF object_gives [OF ok, of ca]], goal_cases)
  case (1 c x)
  then show ?case by (simp add: no_memory_def load_panic_def)
next
  case (2 p s1)
  then obtain c H1 V1 L1 where o: "object_made s H V L U s1 p c H1 V1 L1" by blast
  have ob: "slab_ok s1 H1 V1 L1 U" "rest_same s s1" "p \<noteq> 0" "\<not> settled H V L U s p" "\<forall>j. (j, p) \<notin> objects H V"
    "\<And>b. settled H V L U s b \<Longrightarrow> mem s1 b = mem s b \<and> settled H1 V1 L1 U s1 b"
    using o by (simp_all add: object_made_def)
  note f1 = rest_same_fields [OF ob(2)]
  let ?u = "pid_new k s1"
  have ro: "registry_ok s" "\<forall>b. page_down b = pid_registry s \<longrightarrow> settled H V L U s b" "calm s"
    using ok by (simp_all add: machine_ok_def)
  have tk: "pid_taken n s1 = pid_taken n s" if "n < 32768" for n
    by (rule pid_taken_cong [OF ro(1) that f1(8)]) (use ro(2) ob(6) in blast)
  have al: "alloc_pid s1 = Ret (of_nat k, ?u)"
  proof (rule alloc_pid_ok [OF _ _ ids(2,3)])
    show "calm s1" "next_pid s1 = of_nat m" using ro(3) f1 ids(1) by (simp_all add: calm_def)
    show "\<forall>n. m \<le> n \<and> n < k \<longrightarrow> pid_taken n s1" "\<not> pid_taken k s1" using tk ids by simp_all
  qed
  have p0: "(p = 0) = False" "(PID_MAX \<le> alive_thread_counter s1) = False" using ob(3) alive f1(10) by simp_all
  have ou: "own_beside L1 U ?u {}"
    using slab_okD(1,2) [OF ob(1)] own_besideI [of s1 L1 U] by simp
  let ?n = "of_nat k :: u64"
  let ?F = "\<lambda>x. x\<lparr>pid := ?n, p_state := 0, p_context := (\<lambda>i. if i < 14 then 0 else p_context x i)\<rparr>"
  let ?r0 = "?F (procs s p)"
  let ?s2 = "upd_proc p ?F ?u"
  have st2: "stage ?u p ?r0 (tframes s) ?s2" using stage_proc [OF stage_refl [of ?u p], of ?F] f1 by (simp cong: if_cong)
  have o2: "own_beside L1 U ?s2 {}" "root_table ?s2 = root_table ?u" using ou by simp_all
  show ?case unfolding prod.case p0 if_False al bindO.simps
  proof (rule spawn_tables_gives [OF o2(1) st2 o2(2)], goal_cases)
    case 1
    then show ?case by (simp add: load_panic_def)
  next
    case (2 root t stack i N)
    note bare = 2(5)
    let ?B = "insert (i, 0) L1" and ?base = "stack + 4096 - sizeof_trapframe"
    have gt: "beside_grown U ?u L1 t ?B" using 2(4) by simp
    then have rt: "ram_base t = ram_base s" "root_table t = root_table s" using f1 by (simp_all add: beside_grown_def)
    note e = ram_addr [OF rt(1)]
    have stack: "stack = page_addr s i" using 2(1) f1(12) by (simp add: page_addr_def)
    note img = image_kept [OF ok o ids(3) gt image(3)]
    note I = image_same [OF img] and F = image_fits_same [OF img image(2)]
    let ?s3 = "upd_proc p (\<lambda>x. x\<lparr>magic := PROCESS_MAGIC\<rparr>)
      (upd_tf (p_tf (procs (upd_proc p (\<lambda>x. x\<lparr>p_satp := make_satp root\<rparr>) t) p)) (\<lambda>t. t\<lparr>user_satp := make_satp root\<rparr>)
        (upd_proc p (\<lambda>x. x\<lparr>p_satp := make_satp root\<rparr>) t))"
    have em: "elf_magic (mem ?s3) binary = True"
      using image(1) I(5) [of 0] I(5) [of 1] I(5) [of 2] I(5) [of 3] by (simp add: elf_magic_def)
    let ?r3 = "(frame_record ep stack name ?r0)\<lparr>p_satp := make_satp root\<rparr>\<lparr>magic := PROCESS_MAGIC\<rparr>"
    let ?T = "(tframes s)(?base := first_frame ep stack sstatus_val ?u)"
    have tb: "p_tf (procs (upd_proc p (\<lambda>x. x\<lparr>p_satp := make_satp root\<rparr>) t) p) = ?base"
      using stageD(1) [OF 2(6)] by (simp add: upd_proc_def frame_record_def set_name_def Let_def)
    have st3: "stage ?u p ?r3 (?T(?base := (?T ?base)\<lparr>user_satp := make_satp root\<rparr>)) ?s3"
      unfolding tb
      by (rule stage_proc [where f = "\<lambda>x. x\<lparr>magic := PROCESS_MAGIC\<rparr>", OF stage_tf [where f = "\<lambda>t. t\<lparr>user_satp := make_satp root\<rparr>",
          OF stage_proc [where f = "\<lambda>x. x\<lparr>p_satp := make_satp root\<rparr>", OF 2(6)]]])
    have inv3: "pt_inv_on (own_beside ?B U) ?s3 root N {}" using 2(3) by simp
    have fit3: "image_fits (mem ?s3) binary" using F(1) by simp
    have pr: "p_tf ?r3 = ?base" by (simp add: frame_record_def set_name_def Let_def)
    show ?case unfolding prod.case em not_True_eq_False if_False
    proof (rule spawn_image_gives [OF inv3 st3 fit3, where ly = ly and stack = stack], goal_cases)
      case (1 a)
      have "pool_range ?s3 U = pool_range s U" using e ram_addr [of ?s3 t] by simp
      then show ?case using 1 image(3) F(2) by simp
    next
      case (2 a)
      then show ?case using bare by simp
    next
      case (3 c x)
      then show ?case using F(3) by (simp add: load_panic_def)
    next
      case (4 v f ust B N1)
      let ?v = "upd_tf (p_tf (procs v p)) (\<lambda>t. t\<lparr>u_context := (u_context t)(2 := 0x80000000)\<rparr>) v"
      let ?rw = "?r3\<lparr>parent_pid := parent_of s, mailbox_status := 0\<rparr>"
      let ?w = "upd_proc p (\<lambda>x. x\<lparr>parent_pid := (if curr ?v \<noteq> 0 then pid (procs ?v (curr ?v)) else 0), mailbox_status := 0\<rparr>) ?v"
      let ?e = "ld64 (mem s) (binary + 24)"
      note sv = 4(3) [unfolded pr]
      have ee: "ld64 (mem ?s3) (binary + 24) = ?e"
      proof -
        have "ld64 (mem t) (binary + 24) = ?e"
        proof (rule ld64_cong)
          fix j :: nat assume "j < 8"
          then show "mem t (binary + 24 + of_nat j) = mem s (binary + 24 + of_nat j)"
            using I(5) [of "24 + j"] by (simp add: algebra_simps)
        qed
        then show ?thesis by simp
      qed
      have sv2: "stage ?u p ?r3 ((tframes s)(?base := (first_frame ep stack sstatus_val ?u)\<lparr>user_satp := make_satp root, epc := ?e\<rparr>)) v"
        using sv unfolding ee by simp
      have "curr s \<noteq> p" using ok ob(4,5) by (auto simp: machine_ok_def)
      then have st4: "stage ?u p ?rw ((tframes s)(?base := born_frame ep stack sstatus_val s root ?e)) ?w"
        using born_stage [where u = ?u and p = p and r = ?r3 and s = s and ep = ep and stack = stack and sv = sstatus_val and
          root = root and e = ?e and v = v] sv2 f1 unfolding pr by simp
      have inv4: "pt_inv_on (own_beside B U) ?w root N1 {}" using 4(1) by simp
      have gB: "beside_grown U ?u L1 ?w B" using beside_grown_trans [OF gt, of v B] 4(2) by simp
      have us: "user_space s ?w root binary f ust (bare_space ly stack)"
      proof -
        have "user_space s v root binary f ust (bare_space ly stack)"
          by (rule user_space_same [OF _ _ 4(4)]) (use img rt(1) in simp_all)
        then show ?thesis using user_space_mem [of ?w v s] by simp
      qed
      have fB: "\<forall>j<phnum (mem s) binary. loadable (mem s) binary j \<longrightarrow> f j \<in> B - L1" "(ust, 0) \<in> B - L1"
        using 4(5,6) I(1,4) by auto
      have br: "born_record ep stack name ?n root (parent_of s) (procs s p) = ?rw"
        by (simp add: born_record_def)
      have rn: "pid ?rw = of_nat k" by (simp add: frame_record_def set_name_def Let_def)
      have tr: "spawn_trace s H V L U P ly ep binary name sstatus_val prio k (p, enlisted p w)"
        if "rights_done U ?u ?w B root N1 P p (of_nat k) (j, 2) w"
          "stage ?u p (rights_record (page_addr s j) prio ?rw) ((tframes s)(?base := born_frame ep stack sstatus_val s root ?e)) w" for j w
        unfolding spawn_trace_def prod.case
        by (intro exI conjI, rule o, rule refl, rule gB, rule fB, rule fB, rule us [unfolded stack], rule that(1),
            rule that(2) [folded br, unfolded stack])
      note fin = spawn_finish [OF ok o ids(3) inv4 gB st4 rn, where ca = ca and prio = prio and
        R = "spawn_trace s H V L U P ly ep binary name sstatus_val prio k", OF tr]
      show ?case by (rule gives_mono [OF fin]) (simp_all add: no_memory_def load_panic_def)
    qed
  qed
qed

end
