(* ===== verification/SpawnResult.thy ===== *)
theory SpawnResult
  imports SpawnSpec
begin

text \<open>
  What \<open>spawn_process\<close> leaves behind: the machine with the new process is as sound as before, the process is what was asked
  for, its address space shows its image, and no byte in use was written beside the registry and the tables of rights.
\<close>

section \<open>The parts of the machine\<close>

lemma settled_mono: "settled H V L U s b \<Longrightarrow> L \<subseteq> L' \<Longrightarrow> settled H V L' U s b"
  by (simp add: settled_def) (blast intro: kept_mono)

lemma block_apart:
  assumes "own_beside B U s N" "kept B' U s b" "B' \<subseteq> B" "q \<in> B - B'"
  shows "unat b \<notin> block_range s q"
proof (rule kept_new)
  have "insert q (B - {q}) = B" using assms(4) by blast
  then show "own_beside (insert q (B - {q})) U s N" using assms(1) by simp
  show "q \<notin> B - {q}" by simp
  show "kept (B - {q}) U s b" by (rule kept_mono [OF assms(2)]) (use assms(3,4) in blast)
qed

text \<open>A record that is on no list may change as it likes.\<close>

lemma placed_record:
  assumes pl: "placed s Q L" and no: "nowhere Q L p" and "procs t = (procs s)(p := r)" "rqs t = rqs s" "lists t = lists s"
  shows "placed t Q L"
proof -
  have other: "nxp t q = nxp s q" "pvp t q = pvp s q" "fits t x q = fits s x q" if "q \<noteq> p" for q x
    using that assms(3,4) by (simp_all add: nxp_def pvp_def) (cases x; simp add: fits.simps)
  have "q \<noteq> p" if "x \<in> places Q" "q \<in> set (L x)" for x q using no that by (auto simp: nowhere_def)
  moreover have "same_head s t x" for x using assms(4,5) by (cases x) simp_all
  ultimately have "SchedInv.linked t x (L x)" "q \<in> set (L x) \<Longrightarrow> fits t x q" if "x \<in> places Q" for x q
    using linked_frame [OF placedD(1) [OF pl that]] other placedD(2) [OF pl that] that by blast+
  then show ?thesis using pl by (simp add: placed_def)
qed

lemma enlisted_curr: "curr (enlisted p s) = curr s"
  by (simp add: curr_def enlisted_def rq_link_def Let_def upd_rq_def set_next_def set_prev_def upd_proc_def set_circle_def)

text \<open>The memory of the machine once the rights are set.\<close>

lemma spawn_memory:
  assumes ok: "machine_ok s H V L U Q Pl P" and o: "object_made s H V L U s1 p c H1 V1 L1" and k: "k < 32768"
    and g: "beside_grown U (pid_new k s1) L1 v B" and rd: "rights_done U (pid_new k s1) v B root N P p n (j, 2) w"
  shows "settled H V L U s b \<Longrightarrow> settled H1 V1 B U w b"
    and "settled H V L U s b \<Longrightarrow> page_down b \<noteq> pid_registry s \<Longrightarrow> \<forall>q\<in>P. \<not> in_table s q b \<Longrightarrow> mem w b = mem s b"
    and "h \<in> H1 \<Longrightarrow> pageno b = pageno (v_page (V1 h)) \<Longrightarrow> mem w b = mem s1 b"
    and "page_down b = pid_registry s \<Longrightarrow> mem w b = mem (pid_new k s1) b"
    and "in_table w p b \<Longrightarrow> settled H1 V1 (insert (j, 2) B) U w b \<and> page_down b \<noteq> pid_registry s"
    and "q \<in> B - L1 \<Longrightarrow> unat b \<in> block_range s q \<Longrightarrow> mem w b = mem v b"
    and "ram_base w = ram_base s" "ram_base v = ram_base s"
proof -
  let ?u = "pid_new k s1"
  have so: "slab_ok s1 H1 V1 L1 U" and rs: "rest_same s s1"
    and mv: "\<And>b. settled H V L U s b \<Longrightarrow> mem s1 b = mem s b \<and> settled H1 V1 L1 U s1 b"
    using o by (simp_all add: object_made_def)
  note f1 = rest_same_fields [OF rs]
  have ro: "registry_ok s1" using ok f1(8) by (simp add: machine_ok_def registry_ok_def)
  have rg: "settled H V L U s b" if "page_down b = pid_registry s" for b using ok that by (simp add: machine_ok_def)
  have tb: "settled H V L U s b \<and> page_down b \<noteq> pid_registry s" if "q \<in> P" "in_table s q b" for q b
    using ok that by (simp add: machine_ok_def)
  have tu: "in_table ?u q b = in_table s q b" for q b using f1(1) by (simp add: in_table_def table_at_def)
  have gv: "ram_base v = ram_base ?u" "L1 \<subseteq> B" "\<And>b. kept L1 U ?u b \<Longrightarrow> mem v b = mem ?u b"
    using g by (simp_all add: beside_grown_def)
  have rv: "own_beside (insert (j, 2) B) U w N" "(j, 2) \<notin> B" "ram_base w = ram_base v"
    "\<And>b. in_table w p b \<longleftrightarrow> unat b \<in> block_range v (j, 2)"
    "\<And>b. kept B U v b \<Longrightarrow> \<forall>q\<in>P. \<not> in_table ?u q b \<Longrightarrow> mem w b = mem v b"
    using rd by (simp_all add: rights_done_def pt_inv_on_def)
  show rb: "ram_base v = ram_base s" "ram_base w = ram_base s" using gv(1) rv(3) f1(12) by simp_all
  have ru: "ram_base ?u = ram_base s" "ram_base s1 = ram_base s" using f1(12) by simp_all
  note e = ram_addr [OF rb(1)] ram_addr [OF rb(2)] ram_addr [OF ru(1)] ram_addr [OF ru(2)]
    settled_cong [OF rb(2)] settled_cong [OF ru(2)]
  have kv: "kept L1 U s b \<Longrightarrow> kept B U s b" for b using kept_mono [OF _ gv(2)] .
  have ks: "kept L1 U s b" "settled H1 V1 L1 U s b" if "settled H V L U s b" for b
    using mv [OF that] e by (simp_all add: settled_def)
  show "settled H V L U s b \<Longrightarrow> settled H1 V1 B U w b" using settled_mono [OF ks(2) gv(2)] e by simp
  have step: "mem w b = mem ?u b" if "kept L1 U s b" "\<forall>q\<in>P. \<not> in_table s q b" for b
    using gv(3) [of b] rv(5) [of b] kv [OF that(1)] that tu e by simp
  have reg: "mem ?u b = mem s1 b" if "page_down b \<noteq> pid_registry s" for b
    by (rule pid_new_byte [OF ro k]) (use that f1(8) in simp)
  show "settled H V L U s b \<Longrightarrow> page_down b \<noteq> pid_registry s \<Longrightarrow> \<forall>q\<in>P. \<not> in_table s q b \<Longrightarrow> mem w b = mem s b"
    using step [OF ks(1)] reg mv by simp
  show "mem w b = mem ?u b" if "page_down b = pid_registry s"
    using step [OF ks(1) [OF rg [OF that]]] tb that by blast
  have pg: "kept L1 U s b" "\<not> settled H1 V1 L1 U s b" if h: "h \<in> H1" "pageno b = pageno (v_page (V1 h))" for h b
  proof -
    obtain i where "v_page (V1 h) = page_addr s1 i" "(i, 0) \<in> L1" using slab_okD(3) [OF so] h(1) by blast
    then show "kept L1 U s b" using slab_page_block [OF so h] e by (auto simp: kept_def)
    show "\<not> settled H1 V1 L1 U s b" using h by (auto simp: settled_def)
  qed
  show "mem w b = mem s1 b" if h: "h \<in> H1" "pageno b = pageno (v_page (V1 h))"
  proof -
    have n: "\<not> settled H V L U s b" using pg(2) [OF h] ks(2) by blast
    then have "\<forall>q\<in>P. \<not> in_table s q b" "page_down b \<noteq> pid_registry s" using tb rg by blast+
    then show ?thesis using step [OF pg(1) [OF h]] reg by simp
  qed
  show "settled H1 V1 (insert (j, 2) B) U w b \<and> page_down b \<noteq> pid_registry s" if "in_table w p b"
  proof -
    have b: "unat b \<in> block_range w (j, 2)" using that rv(4) e by simp
    have "\<not> kept B U w b" using kept_new [OF rv(1,2)] b by blast
    then have nk: "\<not> kept L1 U s b" using kv e(2) by auto
    then have "pageno b \<noteq> pageno (v_page (V1 h))" if "h \<in> H1" for h using pg(1) [OF that] by blast
    moreover have "kept (insert (j, 2) B) U w b" using b by (auto simp: kept_def)
    ultimately show ?thesis using nk ks(1) rg unfolding settled_def by blast
  qed
  show "mem w b = mem v b" if q: "q \<in> B - L1" "unat b \<in> block_range s q"
  proof -
    have "own_beside (insert (j, 2) B) U w N" by (rule rv(1))
    then have "\<not> kept L1 U s b" using block_apart [of "insert (j, 2) B" U w N L1 b q] gv(2) q e by auto
    then have "\<forall>q\<in>P. \<not> in_table ?u q b" using tb ks(1) tu by blast
    moreover have "kept B U v b" using q e by (auto simp: kept_def)
    ultimately show ?thesis using rv(5) by blast
  qed
qed

section \<open>The machine with the process added\<close>

lemma machine_enlisted:
  assumes ok: "machine_ok s H V L U Q Pl P" and o: "object_made s H V L U s1 p c H1 V1 L1" and k: "k < 32768"
    and g: "beside_grown U (pid_new k s1) L1 v B" and rd: "rights_done U (pid_new k s1) v B root N P p n (j, 2) w"
    and st: "stage (pid_new k s1) p r T w"
    and r: "priority r = i" "i < 32" "magic r = PROCESS_MAGIC" "p_state r = 0"
  shows "\<exists>L'. L \<subseteq> L' \<and>
    machine_ok (enlisted p w) H1 V1 L' U Q (Pl(OnQueue (tp s) i := Pl (OnQueue (tp s) i) @ [p])) (insert p P)"
    and "data (procs (enlisted p w) q) = data (if q = p then r else procs s q)" "links_only w (enlisted p w)"
    and "capability_root (procs (enlisted p w) q) = capability_root (procs w q)"
proof -
  let ?u = "pid_new k s1" and ?t = "enlisted p w"
  have m: "kvmalloc_lock s = 0" "calm s" "placed s Q Pl" "tp s \<in> Q" "\<forall>x\<in>places Q. set (Pl x) \<subseteq> P" "curr s \<in> P"
    "shell_ptr s = 0 \<or> shell_ptr s \<in> P" "\<forall>q\<in>P. (\<exists>i. (i, q) \<in> objects H V) \<or> settled H V L U s q"
    "\<And>q b. q \<in> P \<Longrightarrow> in_table s q b \<Longrightarrow> settled H V L U s b \<and> page_down b \<noteq> pid_registry s"
    "registry_ok s" "\<And>b. page_down b = pid_registry s \<Longrightarrow> settled H V L U s b"
    using ok by (simp_all add: machine_ok_def)
  have ob: "slab_ok s1 H1 V1 L1 U" "kvmalloc_lock s1 = 0" "L \<subseteq> L1" "rest_same s s1" "objects H1 V1 = insert (c, p) (objects H V)"
    "p \<noteq> 0" "\<forall>j. (j, p) \<notin> objects H V" "\<not> settled H V L U s p"
    using o by (simp_all add: object_made_def)
  note f1 = rest_same_fields [OF ob(4)] and M = spawn_memory [OF ok o k g rd] and D = stageD [OF st]
  have pP: "p \<notin> P" using m(8) ob(7,8) by blast
  have no: "nowhere Q Pl p" using m(5) pP by (auto simp: nowhere_def)
  have pw: "placed w Q Pl" by (rule placed_record [OF m(3) no, where r = r]) (simp_all add: D f1)
  have rp: "procs w p = r" by (simp add: D)
  have tw: "tp w = tp s" by (simp add: D f1)
  have tQ: "tp w \<in> Q" using m(4) tw by simp
  note E = enlisted_ok [OF pw no ob(6) tQ, unfolded rp, OF r]
  note l = links_onlyD [OF E(2)]
  show "links_only w ?t" by (rule E(2))
  show dt: "data (procs ?t q) = data (if q = p then r else procs s q)" for q using E(3) [of q] by (simp add: D f1)
  show cr: "capability_root (procs ?t q) = capability_root (procs w q)" for q
    using E(3) [of q] by (rule data_fields(13))
  have it: "in_table ?t = in_table w" using cr by (simp add: fun_eq_iff in_table_def table_at_def)
  have old: "in_table w q b = in_table s q b" if "q \<in> P" for q b
    using that pP by (auto simp: in_table_def table_at_def D f1)
  have gB: "L1 \<subseteq> B" using g by (simp add: beside_grown_def)
  have ow: "own_beside (insert (j, 2) B) U w N" and ct: "cap_tables w (insert p P)"
    using rd by (simp_all add: rights_done_def pt_inv_on_def)
  have "own_beside (insert (j, 2) B) U ?t N" using ow l(15) by simp
  then obtain L' where L: "heap_ok ?t L' U" "insert (j, 2) B \<subseteq> L'" by (auto simp: own_beside_def)
  have LL: "L1 \<subseteq> L'" "L \<subseteq> L'" using L(2) gB ob(3) by blast+
  have rt: "ram_base ?t = ram_base w" "ram_base ?t = ram_base s1" using l(16) M(7) f1(12) by simp_all
  note es = settled_cong [OF rt(1)]
  have set: "settled H1 V1 L' U ?t b" if "settled H V L U s b" for b
    using settled_mono [OF M(1) [OF that], of L'] L(2) es by simp
  have sl: "slab_ok ?t H1 V1 L' U"
    by (rule slab_ok_frame [OF ob(1) L(1) LL(1) rt(2)]) (use M(3) l D ob(4) in \<open>simp_all add: rest_same_def\<close>)
  have "machine_ok ?t H1 V1 L' U Q (Pl(OnQueue (tp s) i := Pl (OnQueue (tp s) i) @ [p])) (insert p P)"
    unfolding machine_ok_def
  proof (intro conjI)
    show "slab_ok ?t H1 V1 L' U" by (rule sl)
    show "kvmalloc_lock ?t = 0" using l(14) D(13) ob(2) by simp
    show "calm ?t" using m(2) l(4) D(6) f1(6) by (simp add: calm_def)
    show "placed ?t Q (Pl(OnQueue (tp s) i := Pl (OnQueue (tp s) i) @ [p]))" using E(1) tw by simp
    show "tp ?t \<in> Q" using l(6) tQ by simp
    show "\<forall>x\<in>places Q. set ((Pl(OnQueue (tp s) i := Pl (OnQueue (tp s) i) @ [p])) x) \<subseteq> insert p P" using m(4,5) by auto
    show "curr ?t \<in> insert p P" using m(6) by (simp add: enlisted_curr D f1)
    show "shell_ptr ?t = 0 \<or> shell_ptr ?t \<in> insert p P" using m(7) by (auto simp: l(8) D f1)
    show "\<forall>q\<in>insert p P. (\<exists>i. (i, q) \<in> objects H1 V1) \<or> settled H1 V1 L' U ?t q" using m(8) ob(5) set by auto
    show "cap_tables ?t (insert p P)" using ct cr cap_tables_cong [of "insert p P" ?t w] by simp
    have pr: "pid_registry ?t = pid_registry s" by (simp add: l(9) D f1)
    show "registry_ok ?t" using m(10) pr by (simp add: registry_ok_def)
    show "\<forall>b. page_down b = pid_registry ?t \<longrightarrow> settled H1 V1 L' U ?t b" using m(11) set pr by simp
    show "\<forall>q\<in>insert p P. \<forall>b. in_table ?t q b \<longrightarrow> settled H1 V1 L' U ?t b \<and> page_down b \<noteq> pid_registry ?t"
    proof (intro ballI allI impI)
      fix q b assume h: "q \<in> insert p P" "in_table ?t q b"
      show "settled H1 V1 L' U ?t b \<and> page_down b \<noteq> pid_registry ?t"
      proof (cases "q = p")
        case True
        then show ?thesis using M(5) [of b] h(2) settled_mono [OF _ L(2)] it es pr by auto
      next
        case False
        then show ?thesis using h m(9) [of q b] old [of q b] set it pr by auto
      qed
    qed
  qed
  then show "\<exists>L'. L \<subseteq> L' \<and>
      machine_ok ?t H1 V1 L' U Q (Pl(OnQueue (tp s) i := Pl (OnQueue (tp s) i) @ [p])) (insert p P)" using LL(2) by blast
qed

text \<open>The address space, once the rights are set.\<close>

lemma user_space_kept:
  assumes us: "user_space s v root binary f ust bare" and fit: "image_fits (mem s) binary" and o: "own_beside (insert c B) U w N"
    and f: "\<forall>i<phnum (mem s) binary. loadable (mem s) binary i \<longrightarrow> f i \<in> B - L" "(ust, 0) \<in> B - L"
    and r: "ram_base w = ram_base s" and x: "\<forall>a. xlate (mem t) root a = xlate (mem v) root a"
    and m: "\<forall>q\<in>B - L. \<forall>b. unat b \<in> block_range s q \<longrightarrow> mem t b = mem v b"
  shows "user_space s t root binary f ust bare"
proof -
  note e = ram_addr [OF r]
  obtain L1 where L: "heap_ok w L1 U" "B \<subseteq> L1" using o by (auto simp: own_beside_def)
  have byte: "mem t (page_addr s (fst q) + of_nat j) = mem v (page_addr s (fst q) + of_nat j)"
    if "q \<in> B - L" "j < 4096 * 2 ^ snd q" for q j
    using block_byte [OF L(1), of q j] L(2) that m e by auto
  have seg: "seg_loaded s t root binary (phdr_at (mem s) binary i) (f i)"
    if i: "i < phnum (mem s) binary" "loadable (mem s) binary i"
      and ld: "seg_loaded s v root binary (phdr_at (mem s) binary i) (f i)" for i
  proof -
    have "unat (ph_memsz (mem s) (phdr_at (mem s) binary i)) \<le> 4096 * 2 ^ snd (f i)"
      using fit i ld seg_order_ok(3) [of "mem s" "phdr_at (mem s) binary i"]
      by (simp add: image_fits_def elf_ok_def seg_ok_def seg_loaded_def seg_span_def)
    then show ?thesis using ld byte [of "f i"] f(1) i x by (simp add: seg_loaded_def)
  qed
  show ?thesis using us seg byte [OF f(2)] x unfolding user_space_def by simp
qed

text \<open>The identities and the rights.\<close>

lemma spawn_rights:
  assumes ok: "machine_ok s H V L U Q Pl P" and o: "object_made s H V L U s1 p c H1 V1 L1" and k: "k < 32768"
    and g: "beside_grown U (pid_new k s1) L1 v B" and rd: "rights_done U (pid_new k s1) v B root N P p (of_nat k) (j, 2) w"
    and t: "mem t = mem w" "pid_registry t = pid_registry s" "\<forall>q. capability_root (procs t q) = capability_root (procs w q)"
  shows "n < 32768 \<Longrightarrow> pid_taken n t \<longleftrightarrow> pid_taken n s \<or> n = k"
    and "q \<in> insert p P \<Longrightarrow> i < 32768 \<Longrightarrow>
      rights_of q i t = (if q = p then 0 else rights_of q i s) OR new_rights s p (of_nat k) q i"
proof -
  let ?u = "pid_new k s1"
  note f1 = rest_same_fields [of s s1] and M = spawn_memory [OF ok o k g rd]
  have rs: "rest_same s s1" and mv: "\<And>b. settled H V L U s b \<Longrightarrow> mem s1 b = mem s b \<and> settled H1 V1 L1 U s1 b"
    using o by (simp_all add: object_made_def)
  note f1 = rest_same_fields [OF rs]
  have ro: "registry_ok s" and rg: "\<And>b. page_down b = pid_registry s \<Longrightarrow> settled H V L U s b"
    using ok by (simp_all add: machine_ok_def)
  have ro1: "registry_ok s1" using ro f1(8) by (simp add: registry_ok_def)
  show "pid_taken n t \<longleftrightarrow> pid_taken n s \<or> n = k" if n: "n < 32768"
  proof -
    have "pid_taken n t = pid_taken n ?u"
      by (rule pid_taken_cong) (use ro1 n t M(4) f1(8) in \<open>simp_all add: registry_ok_def\<close>)
    also have "\<dots> = (pid_taken n s1 \<or> n = k)"
      using pid_new_taken [OF ro1, of k n "next_pid ?u"] k n by simp
    also have "pid_taken n s1 = pid_taken n s"
      by (rule pid_taken_cong [OF ro n]) (use f1(8) mv rg in simp_all)
    finally show ?thesis .
  qed
  show "rights_of q i t = (if q = p then 0 else rights_of q i s) OR new_rights s p (of_nat k) q i"
    if q: "q \<in> insert p P" "i < 32768"
  proof -
    have "rights_of q i t = rights_of q i w"
      using t(1,3) by (simp add: rights_of_def cap_cell_def load_def)
    also have "\<dots> = (if q = p then 0 else rights_of q i v) OR new_rights ?u p (of_nat k) q i"
      using rd q unfolding rights_done_def by blast
    also have "new_rights ?u p (of_nat k) q i = new_rights s p (of_nat k) q i"
      using f1 by (simp add: new_rights_def)
    also have "(if q = p then 0 else rights_of q i v) = (if q = p then 0 else rights_of q i s)"
    proof (cases "q = p")
      case False
      then have qP: "q \<in> P" using q(1) by simp
      have b: "table_at s q + 16384 \<le> 2 ^ 64" and h: "\<And>b. in_table s q b \<Longrightarrow> settled H V L U s b \<and> page_down b \<noteq> pid_registry s"
        using ok qP by (simp_all add: machine_ok_def cap_tables_def)
      have c: "capability_root (procs v q) = capability_root (procs s q)"
        using rd qP f1(1) by (simp add: rights_done_def)
      have "mem v b = mem s b" if "in_table s q b" for b
        using spawn_tables_kept [OF ok o k g] h [OF that] by blast
      then show ?thesis using rights_cong [OF b q(2) c] False by simp
    qed simp
    finally show ?thesis .
  qed
qed

section \<open>The call as a whole\<close>

text \<open>
  What \<open>spawn_process\<close> promises of the process it returns: its record and first trap frame, an address space that shows
  the image, one id more, the rights of a new process and of its parent, and nothing else on record changed.
\<close>

definition spawned ::
  "kstate \<Rightarrow> u64 set \<Rightarrow> layout \<Rightarrow> entry_points \<Rightarrow> u64 \<Rightarrow> u8 list \<Rightarrow> u64 \<Rightarrow> u32 \<Rightarrow> nat \<Rightarrow> u64 \<Rightarrow> kstate \<Rightarrow> bool" where
  "spawned s P ly ep binary name sstatus_val prio k p t \<longleftrightarrow> p \<noteq> 0 \<and> p \<notin> P \<and>
     (\<exists>i j root f ust.
        data (procs t p) = data (rights_record (page_addr s j) prio
          (born_record ep (page_addr s i) name (of_nat k) root (parent_of s) (procs s p))) \<and>
        tframes t = (tframes s)(page_addr s i + 4096 - sizeof_trapframe :=
          born_frame ep (page_addr s i) sstatus_val s root (ld64 (mem s) (binary + 24))) \<and>
        user_space s t root binary f ust (bare_space ly (page_addr s i))) \<and>
     (\<forall>q. q \<noteq> p \<longrightarrow> data (procs t q) = data (procs s q)) \<and>
     next_pid t = of_nat (Suc k) \<and> alive_thread_counter t = alive_thread_counter s + 1 \<and>
     (\<forall>n<32768. pid_taken n t \<longleftrightarrow> pid_taken n s \<or> n = k) \<and>
     (\<forall>q\<in>insert p P. \<forall>m<32768.
        rights_of q m t = (if q = p then 0 else rights_of q m s) OR new_rights s p (of_nat k) q m)"

definition spawn_result ::
  "kstate \<Rightarrow> u64 set \<Rightarrow> (u64 \<Rightarrow> slab_view) \<Rightarrow> (u64 \<times> nat) set \<Rightarrow> u64 set \<Rightarrow> u64 set \<Rightarrow> layout_of \<Rightarrow> u64 set \<Rightarrow>
   nat \<Rightarrow> u64 \<Rightarrow> kstate \<Rightarrow> bool" where
  "spawn_result s H V L U Q Pl P i p t \<longleftrightarrow> (\<exists>H' V' L' c. L \<subseteq> L' \<and> objects H' V' = insert (c, p) (objects H V) \<and>
     machine_ok t H' V' L' U Q (Pl(OnQueue (tp s) i := Pl (OnQueue (tp s) i) @ [p])) (insert p P)) \<and>
     (\<forall>b. settled H V L U s b \<longrightarrow> page_down b \<noteq> pid_registry s \<longrightarrow> (\<forall>q\<in>P. \<not> in_table s q b) \<longrightarrow> mem t b = mem s b)"

lemma born_fields [simp]:
  "priority (rights_record c prio r) = unat prio" "magic (rights_record c prio (born_record ep st name n root pa x)) = PROCESS_MAGIC"
  "p_state (rights_record c prio (born_record ep st name n root pa x)) = 0"
  by (simp_all add: rights_record_def born_record_def frame_record_def set_name_def Let_def)

lemma spawn_trace_result:
  assumes ok: "machine_ok s H V L U Q Pl P" and k: "k < 32768" and prio: "prio < 32" and fit: "image_fits (mem s) binary"
    and tr: "spawn_trace s H V L U P ly ep binary name sstatus_val prio k (p, t)"
  shows "spawn_result s H V L U Q Pl P (unat prio) p t" "spawned s P ly ep binary name sstatus_val prio k p t"
proof -
  obtain s1 c H1 V1 L1 i root B N f ust v j w where
    o: "object_made s H V L U s1 p c H1 V1 L1" and t: "t = enlisted p w" and g: "beside_grown U (pid_new k s1) L1 v B"
    and f: "\<forall>i<phnum (mem s) binary. loadable (mem s) binary i \<longrightarrow> f i \<in> B - L1" "(ust, 0) \<in> B - L1"
    and us: "user_space s v root binary f ust (bare_space ly (page_addr s i))"
    and rd: "rights_done U (pid_new k s1) v B root N P p (of_nat k) (j, 2) w"
    and st: "stage (pid_new k s1) p
         (rights_record (page_addr s j) prio (born_record ep (page_addr s i) name (of_nat k) root (parent_of s) (procs s p)))
         ((tframes s)(page_addr s i + 4096 - sizeof_trapframe :=
            born_frame ep (page_addr s i) sstatus_val s root (ld64 (mem s) (binary + 24)))) w"
    using tr unfolding spawn_trace_def prod.case by blast
  let ?r = "rights_record (page_addr s j) prio (born_record ep (page_addr s i) name (of_nat k) root (parent_of s) (procs s p))"
  have pr: "unat prio < 32" using prio by (simp add: word_less_nat_alt)
  note M = spawn_memory [OF ok o k g rd]
  note E = machine_enlisted [OF ok o k g rd st born_fields(1) pr born_fields(2,3)]
  note l = links_onlyD [OF E(3)] and D = stageD [OF st]
  have ob: "objects H1 V1 = insert (c, p) (objects H V)" "L \<subseteq> L1" "rest_same s s1" "p \<noteq> 0" "\<forall>j. (j, p) \<notin> objects H V"
    "\<not> settled H V L U s p"
    using o by (simp_all add: object_made_def)
  note f1 = rest_same_fields [OF ob(3)]
  show "spawn_result s H V L U Q Pl P (unat prio) p t"
    unfolding spawn_result_def t using E(1) ob(1) M(2) l(1) by (metis (no_types, lifting))
  have pP: "p \<notin> P" using ok ob(5,6) by (auto simp: machine_ok_def)
  have cr: "capability_root (procs t q) = capability_root (procs w q)" for q
    unfolding t by (rule E(4))
  have pg: "pid_registry t = pid_registry s" by (simp add: t l(9) D f1)
  note R = spawn_rights [OF ok o k g rd, of t]
  have us2: "user_space s t root binary f ust (bare_space ly (page_addr s i))"
  proof (rule user_space_kept [OF us fit _ f M(7)])
    show "own_beside (insert (j, 2) B) U w N" using rd by (simp add: rights_done_def pt_inv_on_def)
    show "\<forall>a. xlate (mem t) root a = xlate (mem v) root a" using rd by (simp add: rights_done_def t l(1))
    show "\<forall>q\<in>B - L1. \<forall>b. unat b \<in> block_range s q \<longrightarrow> mem t b = mem v b" using M(6) by (simp add: t l(1))
  qed
  show "spawned s P ly ep binary name sstatus_val prio k p t"
    unfolding spawned_def
  proof (intro conjI)
    show "\<exists>i j root f ust.
        data (procs t p) = data (rights_record (page_addr s j) prio
          (born_record ep (page_addr s i) name (of_nat k) root (parent_of s) (procs s p))) \<and>
        tframes t = (tframes s)(page_addr s i + 4096 - sizeof_trapframe :=
          born_frame ep (page_addr s i) sstatus_val s root (ld64 (mem s) (binary + 24))) \<and>
        user_space s t root binary f ust (bare_space ly (page_addr s i))"
      by (intro exI conjI, use E(2) [of p] t in simp, use l(5) D(2) t in simp, rule us2)
    show "\<forall>q. q \<noteq> p \<longrightarrow> data (procs t q) = data (procs s q)" using E(2) t by simp
    show "next_pid t = of_nat (Suc k)" by (simp add: t l(10) D pid_new_def)
    show "alive_thread_counter t = alive_thread_counter s + 1" by (simp add: t l(11) D f1 pid_new_def)
    show "\<forall>n<32768. pid_taken n t \<longleftrightarrow> pid_taken n s \<or> n = k" using R(1) t l(1) pg cr by simp
    show "\<forall>q\<in>insert p P. \<forall>m<32768.
        rights_of q m t = (if q = p then 0 else rights_of q m s) OR new_rights s p (of_nat k) q m"
      using R(2) t l(1) pg cr by simp
  qed (use ob(4) pP in simp_all)
qed

text \<open>
  C4. Spawning a process on a sound machine with an image that fits never hangs or faults. It returns a new process, or the
  memory ran out (101), or a segment of 2 MiB or more met a table (107). When it returns, the machine with the process at
  the end of the circle of its priority is sound again: allocator, slabs, queues, locks, tables of rights and registry of
  ids. The record and the first trap frame are those the code asks for, with the entry point of the image and the id that
  was free; the address space shows the segments, a zeroed stack, the trampoline and the kernel stack, and nothing else;
  the new process has rights 3 on process 1 and 1 on itself, its parent 7 and the shell 15 on it, and every other right
  of a process in \<open>P\<close> is as before. No other record changes, and no byte in use is written beside the registry and the tables
  of rights.
\<close>

theorem spawn_process_correct:
  assumes "machine_ok s H V L U Q Pl P" and "alive_thread_counter s < PID_MAX" and "prio < 32"
    and "next_pid s = of_nat m" "m \<le> k" "k < 32768" "\<forall>n. m \<le> n \<and> n < k \<longrightarrow> pid_taken n s" "\<not> pid_taken k s"
    and "elf_magic (mem s) binary" "image_fits (mem s) binary"
    and "\<forall>a\<in>elf_reads (mem s) binary. unat a \<notin> pool_range s U \<and> page_down a \<noteq> pid_registry s"
  shows "spawn_process ca ly ep binary name sstatus_val prio s = Panic 101 0 \<or>
    (\<exists>x. spawn_process ca ly ep binary name sstatus_val prio s = Panic 107 x \<and> huge_segment (mem s) binary) \<or>
    (\<exists>p t. spawn_process ca ly ep binary name sstatus_val prio s = Ret (p, t) \<and>
       spawn_result s H V L U Q Pl P (unat prio) p t \<and> spawned s P ly ep binary name sstatus_val prio k p t)"
  using spawn_process_gives [OF assms(1,4-8,2,9-11), where ca = ca and ly = ly and ep = ep and name = name and
      sstatus_val = sstatus_val and prio = prio]
    spawn_trace_result [OF assms(1,6,3,10), where ly = ly and ep = ep and name = name and sstatus_val = sstatus_val]
  by (auto simp: gives_def load_panic_def)

section \<open>A concrete machine\<close>

text \<open>
  The machine of the schedule with tables of rights, a registry of ids at \<open>0x80300000\<close> and the small image at \<open>0x80200000\<close>;
  everything but the free pages lies below the pool. Process 1 runs and spawns; the next free id is 5.
\<close>

definition spawn_ks :: kstate where
  "spawn_ks = kvmalloc_init (demo_ks\<lparr>mem := demo_image, procs := (\<lambda>p. (demo_procs p)\<lparr>capability_root := 16 * p\<rparr>),
     pid_registry := 0x80300000, next_pid := 5, alive_thread_counter := 5, shell_ptr := 0x2000\<rparr>)"

lemma spawn_ks_fields:
  "mem spawn_ks = demo_image" "procs spawn_ks p = (demo_procs p)\<lparr>capability_root := 16 * p\<rparr>" "rqs spawn_ks = demo_rq"
  "tp spawn_ks = 0x1000" "lists spawn_ks w = (if w = Sleeping then 0x5000 else 0)" "locks spawn_ks = (\<lambda>_. 0)"
  "shell_ptr spawn_ks = 0x2000" "pid_registry spawn_ks = 0x80300000" "next_pid spawn_ks = 5" "alive_thread_counter spawn_ks = 5"
  "ram_base spawn_ks = 0x80000000" "heap_ok spawn_ks {} (pool 1 2)" "kvmalloc_lock spawn_ks = 0"
  "slab_ok spawn_ks {} V {} (pool 1 2)" "curr spawn_ks = 0x3000"
proof -
  let ?s = "demo_ks\<lparr>mem := demo_image, procs := (\<lambda>p. (demo_procs p)\<lparr>capability_root := 16 * p\<rparr>),
     pid_registry := 0x80300000, next_pid := 5, alive_thread_counter := 5, shell_ptr := 0x2000\<rparr>"
  have h: "heap_ok ?s {} (pool 1 2)" and b: "ram_base ?s = 0x80000000"
    using demo_elf_heap(1,2) by (simp_all add: demo_elf_ks_def heap_ok_def buddy_inv_def lists_ok_def flags_ok_def
        blocks_ok_def ram_ok_def nxt_def prv_def flg_def ordr_def total_pages_def)
  note K = kvmalloc_init_ok [OF h, folded spawn_ks_def]
  obtain c where c: "spawn_ks = ?s\<lparr>caches := c\<rparr>" using K(3) b by auto
  show f: "mem spawn_ks = demo_image" "procs spawn_ks p = (demo_procs p)\<lparr>capability_root := 16 * p\<rparr>" "rqs spawn_ks = demo_rq"
    "tp spawn_ks = 0x1000" "lists spawn_ks w = (if w = Sleeping then 0x5000 else 0)" "locks spawn_ks = (\<lambda>_. 0)"
    "shell_ptr spawn_ks = 0x2000" "pid_registry spawn_ks = 0x80300000" "next_pid spawn_ks = 5" "alive_thread_counter spawn_ks = 5"
    "ram_base spawn_ks = 0x80000000" for p w
    using b by (simp_all add: c)
  show "slab_ok spawn_ks {} V {} (pool 1 2)" using K(1) b by simp
  then show "heap_ok spawn_ks {} (pool 1 2)" by (rule slab_okD)
  show "kvmalloc_lock spawn_ks = 0" using K(2) b by (simp add: demo_ks_def slabs.extend_def vmem.extend_def slabs.fields_def)
  show "curr spawn_ks = 0x3000" by (simp add: curr_def f demo_rq_def)
qed

lemma spawn_ks_low: "unat b < 0x80800000 \<Longrightarrow> settled {} V {} (pool 1 2) spawn_ks b"
  using demo_below_pool [OF spawn_ks_fields(12,11), of "unat b"] by (simp add: settled_def kept_def)

lemma spawn_ks_table:
  assumes "q \<in> demo_P" "in_table spawn_ks q b"
  shows "unat b < 0x64000"
proof -
  have "unat b < unat (16 * q) + 16384" using assms(2) by (simp add: in_table_def table_at_def spawn_ks_fields)
  then show ?thesis using assms(1) by auto
qed

lemma spawn_ks_ok: "machine_ok spawn_ks {} V {} (pool 1 2) demo_Q demo_L demo_P"
  unfolding machine_ok_def
proof (intro conjI)
  show "slab_ok spawn_ks {} V {} (pool 1 2)" "kvmalloc_lock spawn_ks = 0" by (fact spawn_ks_fields)+
  show "calm spawn_ks" by (simp add: calm_def spawn_ks_fields)
  show "placed spawn_ks demo_Q demo_L"
    using rights_ks_placed by (subst placed_cong [of _ rights_ks]) (simp_all add: fun_eq_iff spawn_ks_fields rights_ks_fields)
  show "tp spawn_ks \<in> demo_Q" by (simp add: spawn_ks_fields demo_Q_def)
  show "\<forall>x\<in>places demo_Q. set (demo_L x) \<subseteq> demo_P"
  proof
    fix x show "set (demo_L x) \<subseteq> demo_P" by (cases x) (auto split: if_splits)
  qed
  show "curr spawn_ks \<in> demo_P" "shell_ptr spawn_ks = 0 \<or> shell_ptr spawn_ks \<in> demo_P" by (simp_all add: spawn_ks_fields)
  show "\<forall>q\<in>demo_P. (\<exists>i. (i, q) \<in> objects {} V) \<or> settled {} V {} (pool 1 2) spawn_ks q"
    using spawn_ks_low [of _ V] by auto
  show "cap_tables spawn_ks demo_P" by (simp add: cap_tables_def table_at_def spawn_ks_fields)
  show "\<forall>q\<in>demo_P. \<forall>b. in_table spawn_ks q b \<longrightarrow>
      settled {} V {} (pool 1 2) spawn_ks b \<and> page_down b \<noteq> pid_registry spawn_ks"
  proof (intro ballI allI impI)
    fix q b assume "q \<in> demo_P" "in_table spawn_ks q b"
    then have b: "unat b < 0x64000" by (rule spawn_ks_table)
    have "page_down b \<noteq> 0x80300000"
    proof
      assume "page_down b = 0x80300000"
      then show False using page_range(1) b by fastforce
    qed
    then show "settled {} V {} (pool 1 2) spawn_ks b \<and> page_down b \<noteq> pid_registry spawn_ks"
      using b spawn_ks_low by (simp add: spawn_ks_fields)
  qed
  show "registry_ok spawn_ks" by (simp add: registry_ok_def spawn_ks_fields page_base_def)
  show "\<forall>b. page_down b = pid_registry spawn_ks \<longrightarrow> settled {} V {} (pool 1 2) spawn_ks b"
  proof (intro allI impI)
    fix b assume "page_down b = pid_registry spawn_ks"
    then have "unat b < 0x80301000" using page_range(2) [of b] by (simp add: spawn_ks_fields)
    then show "settled {} V {} (pool 1 2) spawn_ks b" by (intro spawn_ks_low) simp
  qed
qed

lemma demo_image_reads:
  assumes "a \<in> elf_reads demo_image 0x80200000"
  shows "unat a < 0x80201000"
proof -
  note im = demo_image_sound [of demo_image]
  from assms consider j where "a = 0x80200000 + of_nat j" "j < 64" | j where "a = 0x80200040 + of_nat j" "j < 56"
    | j where "a = 0x80200078 + of_nat j" "j < 4"
    by (auto simp: elf_reads_def im)
  then show ?thesis by cases (simp_all add: unat_add_small)
qed

theorem spawn_process_correct_witness:
  "\<exists>s. \<forall>ly ep name. spawn_process 7 ly ep 0x80200000 name 0 4 s = Panic 101 0 \<or>
     (\<exists>p t. spawn_process 7 ly ep 0x80200000 name 0 4 s = Ret (p, t) \<and>
        pid (procs t p) = 5 \<and> priority (procs t p) = 4 \<and> parent_pid (procs t p) = 1 \<and>
        rights_of p 1 t = 3 \<and> rights_of 0x3000 5 t = 7)"
proof (intro exI allI)
  fix ly ep name
  let ?s = spawn_ks and ?b = "0x80200000 :: u64"
  note im = demo_image_sound [of "mem ?s"]
  have mm: "mem ?s = demo_image" by (rule spawn_ks_fields)
  have "seg_range demo_image 0x80200040 = {0x10000 ..< 0x11000}" using im mm by (simp add: seg_range_def)
  then have fit: "image_fits (mem ?s) ?b" using im mm by (auto simp: image_fits_def)
  have mg: "elf_magic (mem ?s) ?b" by (simp add: elf_magic_def mm demo_image_def)
  have rd: "\<forall>a\<in>elf_reads (mem ?s) ?b. unat a \<notin> pool_range ?s (pool 1 2) \<and> page_down a \<noteq> pid_registry ?s"
  proof
    fix a assume "a \<in> elf_reads (mem ?s) ?b"
    then have a: "a \<in> elf_reads demo_image ?b" unfolding mm .
    then have "unat a < 0x80800000" using demo_image_reads by fastforce
    moreover have "page_down a \<noteq> 0x80300000"
    proof
      assume "page_down a = 0x80300000"
      then have "0x80300000 \<le> unat a" using page_range(1) by fastforce
      then show False using demo_image_reads [OF a] by simp
    qed
    ultimately show "unat a \<notin> pool_range ?s (pool 1 2) \<and> page_down a \<noteq> pid_registry ?s"
      using demo_below_pool [OF spawn_ks_fields(12,11)] by (simp add: spawn_ks_fields)
  qed
  have al: "alive_thread_counter ?s < PID_MAX" "next_pid ?s = of_nat 5" by (simp_all add: spawn_ks_fields)
  have free: "\<not> pid_taken 5 ?s"
    by (simp add: pid_taken_def pid_cell_def load_def spawn_ks_fields ld64_def ld_bytes_numeral demo_image_def)
  have none: "rights_of 0x3000 5 ?s = 0"
    by (simp add: rights_of_def cap_cell_def cap_shift_def load_def spawn_ks_fields ld64_def ld_bytes_numeral demo_image_def)
  have none5: "\<forall>n. 5 \<le> n \<and> n < 5 \<longrightarrow> pid_taken n ?s" by auto
  from spawn_process_correct [OF spawn_ks_ok [of "\<lambda>_. undefined"] al(1) _ al(2) order_refl _ none5 free mg fit rd, of 4 7 ly ep name 0]
  consider "spawn_process 7 ly ep ?b name 0 4 ?s = Panic 101 0"
    | p t where "spawn_process 7 ly ep ?b name 0 4 ?s = Ret (p, t)" "spawned ?s demo_P ly ep ?b name 0 4 5 p t"
    using im mm by auto
  then show "spawn_process 7 ly ep ?b name 0 4 ?s = Panic 101 0 \<or> (\<exists>p t. spawn_process 7 ly ep ?b name 0 4 ?s = Ret (p, t) \<and>
        pid (procs t p) = 5 \<and> priority (procs t p) = 4 \<and> parent_pid (procs t p) = 1 \<and>
        rights_of p 1 t = 3 \<and> rights_of 0x3000 5 t = 7)"
  proof cases
    case 2
    have n: "of_nat 5 = (5 :: u64)" by simp
    note S = 2(2) [unfolded spawned_def n]
    obtain i j root where d: "data (procs t p) = data (rights_record j 4 (born_record ep i name 5 root (parent_of ?s) (procs ?s p)))"
      using S by blast
    have "parent_of ?s = 1" by (simp add: parent_of_def spawn_ks_fields demo_procs_def demo_proc_def)
    note F = data_fields [OF d [unfolded this]]
    have R: "rights_of q m t = (if q = p then 0 else rights_of q m ?s) OR new_rights ?s p 5 q m" if "q \<in> insert p demo_P" "m < 32768" for q m
      using S that by blast
    have "p \<noteq> 0x3000" "p \<noteq> 0x2000" using S by blast+
    moreover have "new_rights ?s p 5 p 1 = 3" "new_rights ?s p 5 0x3000 5 = 7"
      using calculation by (simp_all add: new_rights_def spawn_ks_fields)
    ultimately have "rights_of p 1 t = 3" "rights_of 0x3000 5 t = 7"
      using R [of p 1] R [of "0x3000" 5] none by simp_all
    then show ?thesis using 2(1) F(5,6,9) by (simp add: born_record_def frame_record_def set_name_def Let_def rights_record_def)
  qed blast
qed

end
