(* ===== verification/Trap.thy ===== *)
theory Trap
  imports Syscall
begin

text \<open>
  The trap handlers of \<open>kernel/main.c\<close>: \<open>strap_router\<close> with the timer tick, the system calls
  and the external interrupts, \<open>mtrap_router\<close>, one round of \<open>oxomoco_loop\<close> and of the
  \<open>idle_loop\<close> of \<open>kernel/smp.c\<close>, and the message of \<open>kpanic\<close>. After \<open>schedule\<close> has switched
  stacks, the rest of \<open>strap_router\<close> runs on the stack of the process switched to, which left
  the processor at the same point, so the handler is one sequence of steps.
\<close>

section \<open>Panic messages\<close>

definition exception_text :: "(u64 \<times> string) list" where
  "exception_text =
     [(0, ''[Instruction Address Misaligned]''),
      (1, ''[Instruction Access Fault]''),
      (2, ''[Illegal Instruction Fault]''),
      (3, ''[Breakpoint]''),
      (4, ''[Load Address Misaligned]''),
      (5, ''[Load Access Fault]''),
      (6, ''[Store Address Misaligned]''),
      (7, ''[Store Access Fault]''),
      (8, ''[Environment Call from U-mode (Syscall Entry !)]''),
      (9, ''[Environment Call from HS-mode]''),
      (10, ''[Environment Call from VS-mode]''),
      (11, ''[Environment Call from M-mode]''),
      (12, ''[Instruction Page Fault]''),
      (13, ''[Load Page Fault]''),
      (15, ''[Store Page Fault]''),
      (20, ''[Instruction Guest-Page Fault]''),
      (21, ''[Load Guest-Page Fault]''),
      (22, ''[Virtual Instruction]''),
      (23, ''[Store Guest-Page Fault]''),
      (100, ''[Requested Block Order Exceeds MAX_ORDER Limit]''),
      (101, ''[Out of Physical Memory]''),
      (102, ''[Attempted to Free an OUT-OF-BOUNDS Physical Address]''),
      (103, ''[Double-Free or Corruption Detected]''),
      (104, ''[Physical Address is Misaligned]''),
      (105, ''Attempted to Free an Invalid Block Head or Interior Page''),
      (106, ''[Metadata Size Suffocates Available Physical RAM]''),
      (107, ''[Memory Protection Violation]''),
      (108, ''[Out of Physical Memory for New Slab]''),
      (109, ''[Out of Memory for Off-Slab Descriptor Headers]''),
      (110, ''[Failed to Allocate Level-1 Page Table]''),
      (111, ''[Failed to Allocate Level-0 Page Table]''),
      (112, ''[Cannot Allocate Root Page Table]''),
      (113, ''[Attempted to Block Idle Thread]''),
      (114, ''[Corrupted Thread]''),
      (115, ''[Attempted to Unblock an Active Thread]''),
      (116, ''[Attempted to Load Corrupted ELF]''),
      (117, ''[Motherboard does not have a Supervisor PLIC Context]'')]"

definition interrupt_text :: "(u64 \<times> string) list" where
  "interrupt_text =
     [(1, ''[Supervisor Software Interrupt]''),
      (2, ''[Virtual Supervisor Software Interrupt]''),
      (3, ''[Machine Software Interrupt]''),
      (5, ''[Supervisor Timer Interrupt]''),
      (6, ''[Virtual Supervisor Timer Interrupt]''),
      (7, ''[Machine Time Interrupt]''),
      (9, ''[Supervisor External Interrupt]''),
      (10, ''[Virtual Supervisor External Interrupt]''),
      (11, ''[Machine External Interrupt]''),
      (12, ''[Supervisor Guest External Interrupt]'')]"

definition lookup_text :: "(u64 \<times> string) list \<Rightarrow> string \<Rightarrow> u64 \<Rightarrow> string" where
  "lookup_text table other code = (case map_of table code of Some t \<Rightarrow> t | None \<Rightarrow> other)"

definition kpanic_reason :: "u64 \<Rightarrow> item list" where
  "kpanic_reason mcause =
     (let error_code = mcause AND 0x7FFFFFFFFFFFFFFF in
      if drop_bit 63 mcause AND 1 = 0 then
        [Text ''Exception Caught ! Cause: '', Hex mcause,
         Text (lookup_text exception_text ''[Unhandled Hardware Exception]'' error_code)]
      else
        [Text ''Interrupt Occured ! Cause: '', Hex mcause,
         Text (lookup_text interrupt_text ''[Unhandled Hardware Interrrupt]'' error_code)])"

text \<open>What \<open>kpanic\<close> prints before it stops the hart for good.\<close>

definition kpanic_message :: "u64 \<Rightarrow> u64 \<Rightarrow> item list" where
  "kpanic_message mcause mepc =
     (let nl = CHR 0x0A; bar = replicate 55 (CHR ''='') @ [nl] in
      [Text [nl], Text bar, Text ('' !!! KERNEL PANIC !!!'' @ [nl]), Text bar, Text [nl]] @
      kpanic_reason mcause @
      [Text [nl], Text ''Faulting Address: '', Hex mepc, Text [nl], Text ''Halting system execution....''])"

section \<open>Causes\<close>

definition is_interrupt :: "u64 \<Rightarrow> bool" where
  "is_interrupt cause \<longleftrightarrow> drop_bit 63 cause AND 1 \<noteq> 0"

definition error_code :: "u64 \<Rightarrow> u64" where
  "error_code cause = cause AND 0x7FFFFFFFFFFFFFFF"

section \<open>The timer tick\<close>

definition count_tick :: "kstate \<Rightarrow> kstate" where
  "count_tick s =
     upd_proc (curr s) (\<lambda>p. p\<lparr>cpu_time := cpu_time p + 1,
       ticks_left := (if ticks_left p > 0 then ticks_left p - 1 else ticks_left p)\<rparr>) (s\<lparr>ssip := False\<rparr>)"

definition count_starvation :: "kstate \<Rightarrow> kstate" where
  "count_starvation s =
     (let s = upd_rq (tp s) (\<lambda>x. x\<lparr>starv_ticks := starv_ticks x + 1\<rparr>) s in
      if starv_ticks (rqs s (tp s)) = 1000
      then upd_rq (tp s) (\<lambda>x. x\<lparr>starv_ticks := 0\<rparr>) (anti_starvation_sweeper s) else s)"

definition reschedule :: "kstate \<Rightarrow> kstate outcome" where
  "reschedule s =
     (if ticks_left (procs s (curr s)) = 0 \<or> p_state (procs s (curr s)) \<noteq> 1 then schedule s else Ret s)"

definition load_stvec :: "kstate \<Rightarrow> kstate" where
  "load_stvec s =
     s\<lparr>stvec_user := p_tf (procs s (curr s)) \<noteq> 0 \<and>
        sstatus (tframes s (p_tf (procs s (curr s)))) AND 0x100 = 0\<rparr>"

definition software_interrupt :: "kstate \<Rightarrow> kstate outcome" where
  "software_interrupt s =
     bindO (update_sleep_list (count_tick s)) (\<lambda>s.
     bindO (reschedule (count_starvation s)) (\<lambda>s.
     Ret (load_stvec s)))"

section \<open>System calls\<close>

definition syscall :: "u64 \<Rightarrow> kstate \<Rightarrow> kstate outcome" where
  "syscall ca s =
     (let s = upd_tf (p_tf (procs s (curr s))) (\<lambda>t. t\<lparr>epc := epc t + 4\<rparr>) s; a7 = reg 17 s in
      if a7 = 1 then sys_write s
      else if a7 = 2 then sys_read s
      else if a7 = 3 then sys_exit s
      else if a7 = 4 then sys_getpid s
      else if a7 = 5 then sys_yield s
      else if a7 = 6 then sys_sleep s
      else if a7 = 7 then sys_wait s
      else if a7 = 8 then sys_send_msg s
      else if a7 = 9 then sys_recv_msg s
      else if a7 = 10 then sys_grant_permit s
      else if a7 = 11 then sys_revoke_permit s
      else if a7 = 12 then sys_process_count s
      else if a7 = 13 then sys_process_list s
      else if a7 = 14 then sys_update_whitelist s
      else if a7 = 15 then sys_map_shared_page ca s
      else if a7 = 16 then sys_unmap_shared_page s
      else if a7 = 17 then sys_register_irq s
      else if a7 = 18 then sys_probe_vaddr s
      else Ret s)"

section \<open>External interrupts\<close>

text \<open>What the devices answer: the claimed line, the UART's status and its received byte.\<close>

record devices =
  claimed :: u32
  line_status :: u8
  received :: u8

text \<open>
  \<open>base\<close> and \<open>ctx\<close> are the kernel's \<open>plic.base_addr\<close> and \<open>context_idx\<close>. The result has the register writes: every claimed
  line is completed.
\<close>

definition external_interrupt :: "u64 \<Rightarrow> u32 \<Rightarrow> devices \<Rightarrow> kstate \<Rightarrow> ((u64 \<times> u32) list \<times> kstate) outcome" where
  "external_interrupt base ctx io s =
     bindO
       (if claimed io = 10 then
          bindO (uart_getc (line_status io) (received io) s) (\<lambda>(c, s).
          if shell_ptr s \<noteq> 0 \<and> p_state (procs s (shell_ptr s)) = 2 then
            unblock_process (shell_ptr s) (set_a0 (shell_ptr s) (ucast c) s)
          else Ret (s\<lparr>uart_buff := c\<rparr>))
        else Ret s)
       (\<lambda>s. Ret (plic_complete base ctx (claimed io), s))"

section \<open>The routers\<close>

definition load_sscratch :: "kstate \<Rightarrow> kstate" where
  "load_sscratch s =
     (if p_tf (procs s (curr s)) \<noteq> 0 then s\<lparr>sscratch := p_tf (procs s (curr s))\<rparr> else s)"

definition strap_router ::
  "u64 \<Rightarrow> u64 \<Rightarrow> u32 \<Rightarrow> devices \<Rightarrow> u64 \<Rightarrow> u64 \<Rightarrow> kstate \<Rightarrow> ((u64 \<times> u32) list \<times> kstate) outcome" where
  "strap_router ca base ctx io scause stval s =
     bindO
       (if is_interrupt scause \<and> error_code scause = 1 then bindO (software_interrupt s) (\<lambda>s. Ret ([], s))
        else if \<not> is_interrupt scause \<and> error_code scause = 8 then bindO (syscall ca s) (\<lambda>s. Ret ([], s))
        else if is_interrupt scause \<and> error_code scause = 9 then external_interrupt base ctx io s
        else Panic scause stval)
       (\<lambda>(w, s). Ret (w, load_sscratch s))"

text \<open>
  The machine-mode router: the timer is set again and the tick forwarded as a software
  interrupt, the software interrupt is acknowledged at the CLINT, and the supervisor's
  environment call enables the machine timer. The result has the register writes and whether
  the timer is enabled.
\<close>

definition mtrap_router ::
  "u64 \<Rightarrow> u64 \<Rightarrow> u64 \<Rightarrow> u64 \<Rightarrow> u64 \<Rightarrow> u64 \<Rightarrow> kstate \<Rightarrow> ((u64 \<times> u64) list \<times> bool \<times> kstate) outcome" where
  "mtrap_router clint freq now mcause mepc mhartid s =
     (if is_interrupt mcause \<and> error_code mcause = 7 then
        Ret (update_timer clint freq now mhartid, False, trigger_software_interrupt s)
      else if is_interrupt mcause \<and> error_code mcause = 3 then Ret ([(clint + mhartid * 4, 0)], False, s)
      else if \<not> is_interrupt mcause \<and> error_code mcause = 9 then Ret ([], True, s)
      else Panic mcause mepc)"

section \<open>Idle processes\<close>

text \<open>
  One round of \<open>idle_loop\<close>: work stolen from another hart is run at once, otherwise the hart
  waits for an interrupt. The boot hart's \<open>oxomoco_loop\<close> also reaps orphans.
\<close>

definition idle_turn :: "kstate \<Rightarrow> kstate outcome" where
  "idle_turn s =
     bindO (steal_process (s\<lparr>ssie := False\<rparr>)) (\<lambda>(stolen, s).
     let s = s\<lparr>ssie := True\<rparr> in Ret (if stolen then trigger_software_interrupt s else s))"

definition oxomoco_turn :: "kstate \<Rightarrow> kstate outcome" where
  "oxomoco_turn s =
     bindO (orphan_cleaner (s\<lparr>ssie := False\<rparr>)) (\<lambda>s.
     bindO (steal_process s) (\<lambda>(stolen, s).
     let s = s\<lparr>ssie := True\<rparr> in Ret (if stolen then trigger_software_interrupt s else s)))"

end
