(* ===== verification/TickSpec.thy ===== *)
theory TickSpec
  imports SchedSpec Trap
begin

text \<open>
  The timer interrupt as a whole, \<open>software_interrupt\<close>: the running process is charged, the
  sleepers are ticked, the sweep runs every thousandth time and the dispatcher when the slice
  is over or the process no longer runs. Here the process that gives up the processor may be
  anywhere, also among the sleepers it has just joined.
\<close>

section \<open>What a tick leaves alone\<close>

text \<open>A process without its links, its state and its times.\<close>

definition lasting :: "process \<Rightarrow> process" where
  "lasting p = data (p\<lparr>p_state := 0, ticks_left := 0, cpu_time := 0\<rparr>)"

lemma lasting_data: "data p = data q \<Longrightarrow> lasting p = lasting q"
  by (cases p; cases q) (simp add: lasting_def data_def)

lemma lasting_upd [simp]:
  "lasting (p\<lparr>p_state := v\<rparr>) = lasting p" "lasting (p\<lparr>ticks_left := n\<rparr>) = lasting p"
  "lasting (p\<lparr>cpu_time := c\<rparr>) = lasting p"
  by (simp_all add: lasting_def)

lemma lasting_fields:
  assumes "lasting p = lasting q"
  shows "priority p = priority q" "magic p = magic q" "pid p = pid q" "p_tf p = p_tf q"
  using data_fields [OF assms [unfolded lasting_def]] by simp_all

text \<open>All the processes of the machine.\<close>

definition crowd :: "u64 set \<Rightarrow> layout_of \<Rightarrow> u64 set" where
  "crowd Q L = (\<Union>x\<in>places Q. set (L x))"

definition only_wakes :: "u64 set \<Rightarrow> kstate \<Rightarrow> layout_of \<Rightarrow> kstate \<Rightarrow> layout_of \<Rightarrow> bool" where
  "only_wakes Q s L t L' \<longleftrightarrow>
     locks t = locks s \<and> tp t = tp s \<and> curr t = curr s \<and> emergency_process t = emergency_process s \<and>
     (\<forall>q. lasting (procs t q) = lasting (procs s q)) \<and>
     (\<forall>q. q \<notin> set (L (OnList Sleeping)) \<longrightarrow> p_state (procs t q) = p_state (procs s q)) \<and>
     set (L' (OnList Sleeping)) \<subseteq> set (L (OnList Sleeping)) \<and>
     length (L' (OnList Sleeping)) \<le> length (L (OnList Sleeping)) \<and>
     (\<forall>i. set (L (OnQueue (tp s) i)) \<subseteq> set (L' (OnQueue (tp s) i))) \<and>
     (\<forall>w. w \<noteq> Sleeping \<longrightarrow> L' (OnList w) = L (OnList w)) \<and>
     (\<forall>r i. r \<noteq> tp s \<longrightarrow> L' (OnQueue r i) = L (OnQueue r i)) \<and>
     crowd Q L' = crowd Q L"

lemma only_wakes_refl: "only_wakes Q s L s L"
  by (simp add: only_wakes_def)

lemma only_wakes_trans:
  assumes "only_wakes Q s L t M" and "only_wakes Q t M u N"
  shows "only_wakes Q s L u N"
proof -
  have a: "locks t = locks s" "tp t = tp s" "curr t = curr s" "emergency_process t = emergency_process s"
    "\<And>q. lasting (procs t q) = lasting (procs s q)"
    "\<And>q. q \<notin> set (L (OnList Sleeping)) \<Longrightarrow> p_state (procs t q) = p_state (procs s q)"
    "set (M (OnList Sleeping)) \<subseteq> set (L (OnList Sleeping))"
    "length (M (OnList Sleeping)) \<le> length (L (OnList Sleeping))"
    "\<And>i. set (L (OnQueue (tp s) i)) \<subseteq> set (M (OnQueue (tp s) i))"
    "\<And>w. w \<noteq> Sleeping \<Longrightarrow> M (OnList w) = L (OnList w)" "crowd Q M = crowd Q L"
    "\<And>r i. r \<noteq> tp s \<Longrightarrow> M (OnQueue r i) = L (OnQueue r i)"
    using assms(1) unfolding only_wakes_def by blast+
  have b: "locks u = locks t" "tp u = tp t" "curr u = curr t" "emergency_process u = emergency_process t"
    "\<And>q. lasting (procs u q) = lasting (procs t q)"
    "\<And>q. q \<notin> set (M (OnList Sleeping)) \<Longrightarrow> p_state (procs u q) = p_state (procs t q)"
    "set (N (OnList Sleeping)) \<subseteq> set (M (OnList Sleeping))"
    "length (N (OnList Sleeping)) \<le> length (M (OnList Sleeping))"
    "\<And>i. set (M (OnQueue (tp t) i)) \<subseteq> set (N (OnQueue (tp t) i))"
    "\<And>w. w \<noteq> Sleeping \<Longrightarrow> N (OnList w) = M (OnList w)" "crowd Q N = crowd Q M"
    "\<And>r i. r \<noteq> tp t \<Longrightarrow> N (OnQueue r i) = M (OnQueue r i)"
    using assms(2) unfolding only_wakes_def by blast+
  have "p_state (procs u q) = p_state (procs s q)" if "q \<notin> set (L (OnList Sleeping))" for q
    using a(6) [OF that] b(6) [of q] a(7) that by auto
  moreover have "set (L (OnQueue (tp s) i)) \<subseteq> set (N (OnQueue (tp s) i))" for i
    using a(9) [of i] b(9) [of i] unfolding a(2) by (rule order.trans)
  moreover have "set (N (OnList Sleeping)) \<subseteq> set (L (OnList Sleeping))" using b(7) a(7) by (rule order.trans)
  moreover have "length (N (OnList Sleeping)) \<le> length (L (OnList Sleeping))" using b(8) a(8) by (rule order.trans)
  moreover have "N (OnList w) = L (OnList w)" if "w \<noteq> Sleeping" for w using a(10) b(10) that by simp
  ultimately show ?thesis unfolding only_wakes_def
    using a(1-5,11,12) b(1-5,11,12) by (intro conjI allI impI) simp_all
qed

lemma tick_sleeper_wakes:
  assumes pl: "placed s Q L" and r: "tp s \<in> Q" and p: "p \<in> set (L (OnList Sleeping))"
    and k: "locks s (RqLock (tp s)) = 0"
  shows "\<exists>t L'. tick_sleeper p s = Ret t \<and> placed t Q L' \<and> only_wakes Q s L t L' \<and>
    L' (OnList Sleeping) = (if last_tick s p then remove1 p (L (OnList Sleeping)) else L (OnList Sleeping))"
proof -
  let ?L = "if last_tick s p then join_from (tp s) (priority (procs s p)) Sleeping p L else L"
  obtain t where t: "tick_sleeper p s = Ret t" "placed t Q ?L" "locks t = locks s" "tp t = tp s"
    "curr t = curr s" "emergency_process t = emergency_process s"
    "\<And>q. data (procs t q) = data (ticked_proc s [p] q)"
    using tick_sleeper_ok [OF assms] by blast
  have i: "priority (procs s p) < 32" using placedD(2) [OF pl _ p] by (simp add: fits.simps)
  have "lasting (procs t q) = lasting (procs s q)" for q
    using lasting_data [OF t(7) [of q]] by (simp add: ticked_proc_def)
  moreover have "q \<notin> set (L (OnList Sleeping)) \<longrightarrow> p_state (procs t q) = p_state (procs s q)" for q
    using data_fields(8) [OF t(7) [of q]] p by (auto simp: ticked_proc_def)
  moreover have "crowd Q ?L = crowd Q L"
  proof (cases "last_tick s p")
    case True
    let ?z = "OnList Sleeping" and ?q = "OnQueue (tp s) (priority (procs s p))"
    have d: "distinct (L ?z)" by (rule linked_distinct [OF placedD(1) [OF pl]]) simp
    have "crowd Q M = set (M ?z) \<union> set (M ?q) \<union> (\<Union>x\<in>places Q - {?z, ?q}. set (M x))" for M
      using r i unfolding crowd_def by (auto simp: places_def)
    then show ?thesis using True d p by (simp add: join_from_def) blast
  qed simp
  moreover have "set (?L (OnList Sleeping)) \<subseteq> set (L (OnList Sleeping))"
    "length (?L (OnList Sleeping)) \<le> length (L (OnList Sleeping))"
    using set_remove1_subset [of p "L (OnList Sleeping)"] by (auto simp: join_from_def length_remove1)
  moreover have "set (L (OnQueue (tp s) j)) \<subseteq> set (?L (OnQueue (tp s) j))" for j
    by (auto simp: join_from_def)
  moreover have "w \<noteq> Sleeping \<longrightarrow> ?L (OnList w) = L (OnList w)" for w by (simp add: join_from_def)
  moreover have "r \<noteq> tp s \<longrightarrow> ?L (OnQueue r j) = L (OnQueue r j)" for r j by (simp add: join_from_def)
  ultimately have "only_wakes Q s L t ?L"
    unfolding only_wakes_def using t(3-6) by (intro conjI allI) assumption+
  then show ?thesis using t(1,2) by (intro exI [of _ t] exI [of _ ?L]) (simp add: join_from_def)
qed

lemma sleep_walk_wakes:
  assumes "placed s Q L" and "tp s \<in> Q" and "locks s (RqLock (tp s)) = 0"
    and "L (OnList Sleeping) = as @ rest" and "length rest \<le> n"
  shows "\<exists>t L'. each_list n tick_sleeper (hd (rest @ [0])) s = Ret t \<and> placed t Q L' \<and> only_wakes Q s L t L'"
  using assms
proof (induction rest arbitrary: s L as n)
  case Nil
  have "each_list n tick_sleeper 0 s = Ret s" by (cases n) simp_all
  then show ?case using Nil.prems(1) only_wakes_refl [of Q s L] by auto
next
  case (Cons p rest)
  then obtain m where n: "n = Suc m" "length rest \<le> m" by (cases n) auto
  have l: "linked s (OnList Sleeping) (as @ p # rest)"
    using placedD(1) [OF Cons.prems(1), of "OnList Sleeping"] Cons.prems(4) by simp
  have d: "distinct (as @ p # rest)" and p0: "p \<noteq> 0" using linked_distinct [OF l] linked_nonzero [OF l] by auto
  have nx: "p_next (procs s p) = hd (rest @ [0])"
    using dlist_split_fields(2) [of 0 "nxp s" "pvp s" _ as p rest] l
    by (cases rest) (auto simp: proc_links)
  have p: "p \<in> set (L (OnList Sleeping))" using Cons.prems(4) by simp
  obtain t M where t: "tick_sleeper p s = Ret t" "placed t Q M" "only_wakes Q s L t M"
    "M (OnList Sleeping) = (if last_tick s p then remove1 p (L (OnList Sleeping)) else L (OnList Sleeping))"
    using tick_sleeper_wakes [OF Cons.prems(1,2) p Cons.prems(3)] by blast
  have M: "M (OnList Sleeping) = (if last_tick s p then as else as @ [p]) @ rest"
    using t(4) Cons.prems(4) remove1_split [OF d] by simp
  have f: "tp t \<in> Q" "locks t (RqLock (tp t)) = 0"
    using t(3) Cons.prems(2,3) by (simp_all add: only_wakes_def)
  obtain u N where u: "each_list m tick_sleeper (hd (rest @ [0])) t = Ret u" "placed u Q N" "only_wakes Q t M u N"
    using Cons.IH [OF t(2) f M n(2)] by blast
  have "each_list n tick_sleeper (hd ((p # rest) @ [0])) s = Ret u" using p0 nx t(1) u(1) by (simp add: n)
  then show ?case using u(2) only_wakes_trans [OF t(3) u(3)] by blast
qed

text \<open>The whole list, with its lock.\<close>

lemma update_sleep_list_wakes:
  assumes "placed s Q L" and "calm s" and "tp s \<in> Q" and "length (L (OnList Sleeping)) \<le> walk_fuel"
  shows "\<exists>t L'. update_sleep_list s = Ret t \<and> placed t Q L' \<and> only_wakes Q s L t L'"
proof -
  define s1 where "s1 = s\<lparr>locks := (\<lambda>_. 0)(ListLock Sleeping := 1)\<rparr>"
  let ?Z = "L (OnList Sleeping)"
  have s1: "procs s1 = procs s" "rqs s1 = rqs s" "tp s1 = tp s" "curr s1 = curr s" "lists s1 = lists s"
    "emergency_process s1 = emergency_process s" "locks s1 = (\<lambda>_. 0)(ListLock Sleeping := 1)"
    by (simp_all add: s1_def curr_def)
  have a: "acquire (ListLock Sleeping) s = Ret s1" using assms(2) by (simp add: acquire_free calm_def s1_def)
  have pl: "placed s1 Q L" using assms(1) placed_cong [of s1 s Q L] by (simp add: s1_def)
  have "linked s (OnList Sleeping) ?Z" by (rule placedD(1) [OF assms(1)]) simp
  then have h: "lists s Sleeping = hd (?Z @ [0])" using dlist_head by (cases ?Z) (auto simp: dlist_def)
  have "tp s1 \<in> Q" "locks s1 (RqLock (tp s1)) = 0" "?Z = [] @ ?Z" using assms(3) by (simp_all add: s1)
  from sleep_walk_wakes [OF pl this assms(4)] obtain t L' where
    t: "each_list walk_fuel tick_sleeper (hd (?Z @ [0])) s1 = Ret t" "placed t Q L'" "only_wakes Q s1 L t L'"
    by blast
  let ?t = "release (ListLock Sleeping) t"
  have "update_sleep_list s = Ret ?t" using t(1) by (simp add: update_sleep_list_def a s1 h)
  moreover have "placed ?t Q L'" by (subst placed_cong [where s = t]) (simp_all add: field_upd t(2))
  moreover have "only_wakes Q s L ?t L'"
    using t(3) assms(2) by (auto simp: only_wakes_def s1 field_upd calm_def fun_eq_iff curr_def)
      (simp_all add: release_def)
  ultimately show ?thesis by blast
qed

section \<open>The sweep, whatever it finds\<close>

lemma sweep_keeps:
  assumes pl: "placed s Q L" and r: "tp s \<in> Q" and e: "emergency_ok s L"
  defines "t \<equiv> anti_starvation_sweeper s"
  shows "placed t Q L" and "emergency_ok t L" and "tp t = tp s" "procs t = procs s" "locks t = locks s"
    "curr t = curr s"
proof -
  let ?r = "tp s" and ?b = "lookup_bitmap (rqs s (tp s))"
  let ?f = "find (\<lambda>i. ?b AND shl1 (i + 32) \<noteq> 0 \<and> ?b AND shl1 i \<noteq> 0) (rev [0..<31])"
  let ?s = "case ?f of None \<Rightarrow> s | Some i \<Rightarrow> s\<lparr>emergency_process := circles (rqs s ?r) i\<rparr>"
  let ?g = "upd_rq ?r (\<lambda>x. x\<lparr>lookup_bitmap := lookup_bitmap x AND 0xFFFFFFFF\<rparr>)"
  have t: "t = (if drop_bit 32 ?b = 0 then s else ?g ?s)"
    unfolding t_def anti_starvation_sweeper_def Let_def by (simp split: option.split)
  have f: "procs ?s = procs s" "rqs ?s = rqs s" "lists ?s = lists s" "tp ?s = tp s" "locks ?s = locks s"
    by (simp_all split: option.split)
  have e': "emergency_ok ?s L"
  proof (cases ?f)
    case (Some i)
    then have i: "i < 31" "bit ?b i" by (auto simp: find_Some_iff shl1_test rev_nth)
    then have ne: "L (OnQueue ?r i) \<noteq> []" using placed_bit [OF pl r, of i] by simp
    then have "circles (rqs s ?r) i \<in> set (L (OnQueue ?r i))" using placed_head [OF pl r _ ne] i by simp
    then show ?thesis using Some i by (auto simp: emergency_ok_def intro!: exI [of _ i])
  qed (use e in simp)
  have "placed ?s Q L" using pl placed_cong [OF f(1-3)] by simp
  then have "placed (?g ?s) Q L"
    by (rule placed_bitmap) (simp only: bit_and_iff bit_low_mask simp_thms)
  then show "placed t Q L" using pl by (simp add: t)
  show "emergency_ok t L"
    using e e' by (simp add: t emergency_ok_def tp_upd) (simp add: upd_rq_def)
  show "tp t = tp s" "procs t = procs s" "locks t = locks s" "curr t = curr s"
    using f by (simp_all add: t upd_rq_def curr_def)
qed

section \<open>The interrupt\<close>

text \<open>A machine that can be interrupted: well formed, no lock held, an idle process ready.\<close>

definition ticking :: "u64 set \<Rightarrow> kstate \<Rightarrow> layout_of \<Rightarrow> bool" where
  "ticking Q s L \<longleftrightarrow> placed s Q L \<and> calm s \<and> tp s \<in> Q \<and> running_ok s L \<and> emergency_ok s L \<and>
     L (OnQueue (tp s) 31) \<noteq> [] \<and> length (L (OnList Sleeping)) \<le> walk_fuel"

lemma count_tick_ok:
  assumes "ticking Q s L"
  shows "ticking Q (count_tick s) L" and "tp (count_tick s) = tp s" and "curr (count_tick s) = curr s"
    and "lasting (procs (count_tick s) q) = lasting (procs s q)"
proof -
  let ?f = "\<lambda>p. p\<lparr>cpu_time := cpu_time p + 1,
       ticks_left := (if ticks_left p > 0 then ticks_left p - 1 else ticks_left p)\<rparr>"
  define s1 where "s1 = s\<lparr>ssip := False\<rparr>"
  have t: "count_tick s = upd_proc (curr s) ?f s1" unfolding count_tick_def s1_def by (simp add: curr_def)
  have s1: "procs s1 = procs s" "tp s1 = tp s" "curr s1 = curr s" "locks s1 = locks s" "rqs s1 = rqs s"
    "emergency_process s1 = emergency_process s" by (simp_all add: s1_def curr_def)
  have "placed s1 Q L" using assms placed_cong [of s1 s Q L] by (simp add: s1_def ticking_def)
  then have "placed (count_tick s) Q L" unfolding t by (rule placed_upd_proc) simp_all
  moreover show tp: "tp (count_tick s) = tp s" and cu: "curr (count_tick s) = curr s"
    using s1 by (simp_all add: t field_upd tp_upd curr_def)
  moreover have "emergency_process (count_tick s) = emergency_process s" "locks (count_tick s) = locks s"
    using s1 by (simp_all add: t upd_proc_def)
  moreover have "magic (procs (count_tick s) q) = magic (procs s q)"
    "p_state (procs (count_tick s) q) = p_state (procs s q)"
    "priority (procs (count_tick s) q) = priority (procs s q)" for q
    by (simp_all add: t upd_proc_def s1)
  ultimately show "ticking Q (count_tick s) L"
    using assms by (simp add: ticking_def running_ok_def emergency_ok_def calm_def)
  show "lasting (procs (count_tick s) q) = lasting (procs s q)"
    by (simp add: t upd_proc_def s1)
qed

lemma count_starvation_ok:
  assumes "ticking Q s L"
  shows "ticking Q (count_starvation s) L" and "tp (count_starvation s) = tp s"
    and "procs (count_starvation s) = procs s" and "curr (count_starvation s) = curr s"
proof -
  have plain: "ticking Q (upd_rq (tp s) (\<lambda>x. x\<lparr>starv_ticks := g x\<rparr>) u) L"
    "tp (upd_rq (tp s) (\<lambda>x. x\<lparr>starv_ticks := g x\<rparr>) u) = tp u"
    "procs (upd_rq (tp s) (\<lambda>x. x\<lparr>starv_ticks := g x\<rparr>) u) = procs u"
    "curr (upd_rq (tp s) (\<lambda>x. x\<lparr>starv_ticks := g x\<rparr>) u) = curr u" if u: "ticking Q u L" for g u
  proof -
    let ?u = "upd_rq (tp s) (\<lambda>x. x\<lparr>starv_ticks := g x\<rparr>) u"
    have l: "nxp ?u = nxp u" "pvp ?u = pvp u" "lists ?u = lists u" by (simp_all add: field_upd)
    have r: "circles (rqs ?u r) = circles (rqs u r)" "lookup_bitmap (rqs ?u r) = lookup_bitmap (rqs u r)"
      "curr_process (rqs ?u r) = curr_process (rqs u r)" for r by (simp_all add: upd_rq_def)
    show f: "tp ?u = tp u" "procs ?u = procs u" "curr ?u = curr u"
      using r(3) by (simp_all add: curr_def tp_upd field_upd)
    have "linked ?u x xs = linked u x xs" "fits ?u x q = fits u x q" for x xs q
      by (cases x; simp add: fits.simps l r f)+
    then have "placed ?u Q L = placed u Q L" by (simp add: placed_def)
    moreover have "locks ?u = locks u" "emergency_process ?u = emergency_process u"
      by (simp_all add: upd_rq_def)
    ultimately show "ticking Q ?u L"
      using u f by (simp add: ticking_def calm_def running_ok_def emergency_ok_def)
  qed
  define u where "u = upd_rq (tp s) (\<lambda>x. x\<lparr>starv_ticks := starv_ticks x + 1\<rparr>) s"
  define v where "v = anti_starvation_sweeper u"
  note U = plain [OF assms, where g = "\<lambda>x. starv_ticks x + 1", folded u_def]
  have c: "count_starvation s = (if starv_ticks (rqs u (tp s)) = 1000
      then upd_rq (tp s) (\<lambda>x. x\<lparr>starv_ticks := 0\<rparr>) v else u)"
    by (simp add: count_starvation_def Let_def u_def [symmetric] U(2) v_def)
  have pu: "placed u Q L" "tp u \<in> Q" "emergency_ok u L" using U(1) by (simp_all add: ticking_def)
  note sw = sweep_keeps [OF pu, folded v_def]
  have v: "ticking Q v L" using U(1) sw by (simp add: ticking_def calm_def running_ok_def)
  show "ticking Q (count_starvation s) L" "tp (count_starvation s) = tp s"
    "procs (count_starvation s) = procs s" "curr (count_starvation s) = curr s"
    using U sw plain [OF v, where g = "\<lambda>_. 0"] by (simp_all add: c)
qed

lemma update_sleep_list_ticking:
  assumes "ticking Q s L"
  shows "\<exists>t L'. update_sleep_list s = Ret t \<and> ticking Q t L' \<and> only_wakes Q s L t L'"
proof -
  have m: "placed s Q L" "calm s" "tp s \<in> Q" "running_ok s L" "emergency_ok s L"
    "L (OnQueue (tp s) 31) \<noteq> []" "length (L (OnList Sleeping)) \<le> walk_fuel"
    using assms by (simp_all add: ticking_def)
  obtain t L' where t: "update_sleep_list s = Ret t" "placed t Q L'" and w: "only_wakes Q s L t L'"
    using update_sleep_list_wakes [OF m(1-3,7)] by blast
  have f: "locks t = locks s" "tp t = tp s" "curr t = curr s" "emergency_process t = emergency_process s"
    "\<And>q. lasting (procs t q) = lasting (procs s q)"
    "\<And>q. q \<notin> set (L (OnList Sleeping)) \<Longrightarrow> p_state (procs t q) = p_state (procs s q)"
    "set (L' (OnList Sleeping)) \<subseteq> set (L (OnList Sleeping))"
    "length (L' (OnList Sleeping)) \<le> length (L (OnList Sleeping))"
    "\<And>i. set (L (OnQueue (tp s) i)) \<subseteq> set (L' (OnQueue (tp s) i))"
    "\<And>w. w \<noteq> Sleeping \<Longrightarrow> L' (OnList w) = L (OnList w)" "crowd Q L' = crowd Q L"
    "\<And>r i. r \<noteq> tp s \<Longrightarrow> L' (OnQueue r i) = L (OnQueue r i)"
    using w unfolding only_wakes_def by blast+
  let ?c = "curr s"
  have run: "priority (procs t ?c) < 32 \<and> ?c \<in> set (L' (OnQueue (tp s) (priority (procs t ?c))))"
    if one: "p_state (procs t ?c) = 1"
  proof (cases "?c \<in> set (L (OnList Sleeping))")
    case False
    then have "p_state (procs s ?c) = 1" using f(6) one by simp
    then show ?thesis
      using m(4) f(9) lasting_fields(1) [OF f(5)] by (auto simp: running_ok_def)
  next
    case True
    then have "?c \<in> crowd Q L'" unfolding f(11) by (auto simp: crowd_def intro!: bexI [of _ "OnList Sleeping"])
    then obtain x where x: "x \<in> places Q" "?c \<in> set (L' x)" by (auto simp: crowd_def)
    note fits = placedD(2) [OF t(2) x]
    show ?thesis
    proof (cases x)
      case (OnList w)
      then show ?thesis using fits one by (cases w) (auto simp: fits.simps)
    next
      case (OnQueue r i)
      have "r = tp s"
      proof (rule ccontr)
        assume "r \<noteq> tp s"
        then have "?c \<in> set (L x)" using x(2) f(12) OnQueue by simp
        then show False using placedD(3) [OF m(1) x(1), of "OnList Sleeping"] True OnQueue by auto
      qed
      then show ?thesis using fits x OnQueue by (simp add: fits.simps)
    qed
  qed
  have "running_ok t L'"
    using run m(4) f(2,3) lasting_fields(2) [OF f(5) [of ?c]] by (simp add: running_ok_def)
  moreover have "emergency_ok t L'" using m(5) f(2,4,9) by (auto simp: emergency_ok_def)
  moreover have "L' (OnQueue (tp t) 31) \<noteq> []" using m(6) f(2) f(9) [of 31] by auto
  ultimately have "ticking Q t L'" using m(2,3,7) f(1,2,8) t(2) by (simp add: ticking_def calm_def)
  then show ?thesis using t(1) w by blast
qed

lemma reschedule_ok:
  assumes "ticking Q s L"
  shows "\<exists>t L'. reschedule s = Ret t \<and> ticking Q t L' \<and> tp t = tp s \<and> p_state (procs t (curr t)) = 1 \<and>
    (\<forall>q. lasting (procs t q) = lasting (procs s q)) \<and> (\<forall>x. set (L' x) = set (L x)) \<and>
    (\<forall>w. L' (OnList w) = L (OnList w)) \<and> (\<forall>r i. r \<noteq> tp s \<longrightarrow> L' (OnQueue r i) = L (OnQueue r i))"
proof (cases "ticks_left (procs s (curr s)) = 0 \<or> p_state (procs s (curr s)) \<noteq> 1")
  case False
  then show ?thesis using assms by (intro exI [of _ s] exI [of _ L]) (simp add: reschedule_def)
next
  case True
  let ?L = "rotated s L"
  have m: "placed s Q L" "calm s" "tp s \<in> Q" "running_ok s L" "emergency_ok s L" "L (OnQueue (tp s) 31) \<noteq> []"
    using assms by (simp_all add: ticking_def)
  obtain t where t: "schedule s = Ret t" "placed t Q ?L" "calm t" "tp t = tp s"
    "p_state (procs t (curr t)) = 1" "emergency_process t = 0" "running_ok t ?L"
    "\<And>q. data (procs t q) = data ((\<lambda>x. if q = curr t then x\<lparr>p_state := 1\<rparr> else x)
       (if q = curr s \<and> p_state (procs s q) = 1
        then (procs s q)\<lparr>p_state := 0, ticks_left := time_slice (procs s q)\<rparr> else procs s q))"
    using schedule_ok [OF m] by blast
  have l: "?L (OnList w) = L (OnList w)" "r \<noteq> tp s \<Longrightarrow> ?L (OnQueue r i) = L (OnQueue r i)" for w r i
    by (simp_all add: rotated_def Let_def)
  have "ticking Q t ?L"
    using assms t(2-4,6,7) by (simp add: ticking_def emergency_ok_def l rotated_Nil)
  moreover have "lasting (procs t q) = lasting (procs s q)" for q
    using lasting_data [OF t(8) [of q]] by simp
  ultimately show ?thesis
    using True t(1,4,5) l by (intro exI [of _ t] exI [of _ ?L]) (simp add: reschedule_def rotated_set)
qed

text \<open>What one tick, and so any number of them, keeps.\<close>

definition tick_keeps :: "u64 set \<Rightarrow> kstate \<Rightarrow> layout_of \<Rightarrow> kstate \<Rightarrow> layout_of \<Rightarrow> bool" where
  "tick_keeps Q s L t L' \<longleftrightarrow> tp t = tp s \<and> crowd Q L' = crowd Q L \<and>
     (\<forall>q. lasting (procs t q) = lasting (procs s q)) \<and>
     set (L' (OnList Sleeping)) \<subseteq> set (L (OnList Sleeping)) \<and>
     (\<forall>w. w \<noteq> Sleeping \<longrightarrow> L' (OnList w) = L (OnList w)) \<and>
     (\<forall>r i. r \<noteq> tp s \<longrightarrow> L' (OnQueue r i) = L (OnQueue r i))"

lemma tick_keeps_trans: "tick_keeps Q s L t M \<Longrightarrow> tick_keeps Q t M u N \<Longrightarrow> tick_keeps Q s L u N"
  unfolding tick_keeps_def by (elim conjE, intro conjI allI impI) ((simp; fail) | (drule (1) order.trans, assumption) | blast)+

lemma software_interrupt_ok:
  assumes "ticking Q s L"
  shows "\<exists>t L'. software_interrupt s = Ret t \<and> ticking Q t L' \<and> p_state (procs t (curr t)) = 1 \<and>
    tick_keeps Q s L t L'"
proof -
  note c = count_tick_ok [OF assms]
  obtain u M where u: "update_sleep_list (count_tick s) = Ret u" "ticking Q u M" "only_wakes Q (count_tick s) L u M"
    using update_sleep_list_ticking [OF c(1)] by blast
  note d = count_starvation_ok [OF u(2)]
  obtain v N where v: "reschedule (count_starvation u) = Ret v" "ticking Q v N" "tp v = tp u"
    "p_state (procs v (curr v)) = 1" "\<And>q. lasting (procs v q) = lasting (procs u q)"
    "\<And>x. set (N x) = set (M x)" "\<And>w. N (OnList w) = M (OnList w)"
    "\<And>r i. r \<noteq> tp u \<Longrightarrow> N (OnQueue r i) = M (OnQueue r i)"
    using reschedule_ok [OF d(1)] unfolding d(2,3) by blast
  let ?t = "load_stvec v"
  have f: "procs ?t = procs v" "rqs ?t = rqs v" "lists ?t = lists v" "tp ?t = tp v" "locks ?t = locks v"
    "emergency_process ?t = emergency_process v" "curr ?t = curr v"
    by (simp_all add: load_stvec_def curr_def)
  have "ticking Q ?t N"
    using v(2) placed_cong [OF f(1-3), of Q N] f
    by (simp add: ticking_def calm_def running_ok_def emergency_ok_def)
  moreover have "tick_keeps Q s L ?t N"
    using u(3) v(3,5-8) c(2,4) f by (auto simp: tick_keeps_def only_wakes_def crowd_def)
  ultimately show ?thesis
    using u(1) v(1,4) f by (intro exI [of _ ?t] exI [of _ N]) (simp add: software_interrupt_def)
qed

fun ticks :: "nat \<Rightarrow> kstate \<Rightarrow> kstate outcome" where
  "ticks 0 s = Ret s"
| "ticks (Suc n) s = bindO (software_interrupt s) (ticks n)"

text \<open>
  C23. On a well-formed machine with an idle process, any number of timer interrupts in a row is
  served: none hangs, panics or stores through a null pointer, whatever the sweep finds and
  whoever sleeps, also the process that was just interrupted. The invariant of the lists holds
  after them, exactly one process runs, in the circle of its priority, and the processes are the
  same ones with the same ids, priorities and frames; a tick moves processes only from the sleepers to the
  hart's own circles.
\<close>

theorem ticks_always_served:
  assumes "ticking Q s L"
  shows "\<exists>t L'. ticks n s = Ret t \<and> ticking Q t L' \<and> tick_keeps Q s L t L' \<and>
    (0 < n \<longrightarrow> p_state (procs t (curr t)) = 1 \<and>
       (\<forall>i<32. \<forall>q\<in>set (L' (OnQueue (tp t) i)). q \<noteq> curr t \<longrightarrow> p_state (procs t q) = 0))"
  using assms
proof (induction n arbitrary: s L)
  case 0
  then show ?case by (intro exI [of _ s] exI [of _ L]) (simp add: tick_keeps_def)
next
  case (Suc n)
  obtain t M where t: "software_interrupt s = Ret t" "ticking Q t M" "p_state (procs t (curr t)) = 1"
    "tick_keeps Q s L t M" using software_interrupt_ok [OF Suc.prems] by blast
  have one: "p_state (procs t q) = 0" if "i < 32" "q \<in> set (M (OnQueue (tp t) i))" "q \<noteq> curr t" for i q
  proof -
    have "fits t (OnQueue (tp t) i) q" using t(2) that by (auto simp: ticking_def intro: placedD(2))
    then show ?thesis using that(3) by (auto simp: fits.simps curr_def)
  qed
  obtain u N where u: "ticks n t = Ret u" "ticking Q u N" "tick_keeps Q t M u N"
    "0 < n \<longrightarrow> p_state (procs u (curr u)) = 1 \<and>
       (\<forall>i<32. \<forall>q\<in>set (N (OnQueue (tp u) i)). q \<noteq> curr u \<longrightarrow> p_state (procs u q) = 0)"
    using Suc.IH [OF t(2)] by blast
  show ?case
  proof (cases n)
    case 0
    then show ?thesis using t one by (intro exI [of _ t] exI [of _ M]) simp
  next
    case (Suc m)
    have "ticks (Suc n) s = Ret u" using t(1) u(1) by simp
    then show ?thesis using u(2,4) tick_keeps_trans [OF t(4) u(3)] Suc by blast
  qed
qed

theorem ticks_always_served_witness:
  "\<exists>t. ticks 3 demo_ks = Ret t \<and> p_state (procs t (curr t)) = 1"
proof -
  have "ticking demo_Q demo_ks demo_L"
    using demo_placed demo_ok by (simp add: ticking_def walk_fuel_def)
  from ticks_always_served [OF this, of 3] show ?thesis by auto
qed

section \<open>How long a process sleeps\<close>

lemma below_two: "(n :: u32) < 2 \<longleftrightarrow> n = 0 \<or> n = 1"
proof -
  have "unat n < 2 \<longleftrightarrow> unat n = 0 \<or> unat n = 1" by arith
  then show ?thesis by (simp add: word_less_nat_alt word_unat_eq_iff)
qed

lemma count_tick_fields:
  "locks (count_tick s) = locks s" "tp (count_tick s) = tp s" "curr (count_tick s) = curr s"
  "ticks_left (procs (count_tick s) (curr s)) =
     (if ticks_left (procs s (curr s)) > 0 then ticks_left (procs s (curr s)) - 1 else 0)"
  "p_state (procs (count_tick s) q) = p_state (procs s q)"
  by (simp_all add: count_tick_def upd_proc_def curr_def word_neq_0_conv [symmetric])

lemma count_tick_placed: "placed s Q L \<Longrightarrow> placed (count_tick s) Q L"
  unfolding count_tick_def
  by (rule placed_upd_proc) (simp_all add: placed_cong [of "s\<lparr>ssip := False\<rparr>" s])

text \<open>A tick of the sleep list whose first member is the process that still has the processor.\<close>

lemma update_sleep_list_self:
  assumes pl: "placed s Q L" and c: "calm s" and r: "tp s \<in> Q"
    and Z: "L (OnList Sleeping) = curr s # rest" and len: "length rest < walk_fuel"
  shows "\<exists>t. update_sleep_list s = Ret t \<and>
    p_state (procs t (curr s)) = (if last_tick s (curr s) then 0 else p_state (procs s (curr s))) \<and>
    ticks_left (procs t (curr s)) \<in> {ticks_left (procs s (curr s)) - 1, 0}"
proof -
  let ?p = "curr s" and ?Z = "L (OnList Sleeping)"
  have f: "length ?Z \<le> walk_fuel" using Z len by simp
  obtain t where t: "update_sleep_list s = Ret t" "data (procs t ?p) = data (walked_proc s ?Z ?p)"
    using update_sleep_list_ok [OF pl c r f] by blast
  have "\<not> cut_before s ?Z" by (simp add: cut_before_def Z better_woken_def)
  then show ?thesis
    using t data_fields(8,11) [OF t(2)] by (simp add: walked_proc_def Z wakes_def ticks_after_def)
qed

text \<open>
  C24. The running process goes to sleep and takes the interrupt it has itself requested. The
  handler charges it one tick as the running process and one more as a sleeper, so with n = 2
  it is awake again at once, with n of 3 or more it has n - 2 ticks left, and with n of 0 or 1
  its count has wrapped to 2^32 - 1 (or is 0, and wraps on the next tick, when a better sleeper woke
  in the same tick): it sleeps on for four billion ticks.
\<close>

theorem sleep_loses_two_ticks:
  assumes "placed s Q L" and "calm s" and "tp s \<in> Q" and "i < 32"
    and "curr s \<in> set (L (OnQueue (tp s) i))" and "pid (procs s (curr s)) \<noteq> 0"
    and "length (L (OnList Sleeping)) < walk_fuel"
  shows "\<exists>u t. sleep_process (curr s) n s = Ret u \<and> ssip u \<and> curr u = curr s \<and>
    update_sleep_list (count_tick u) = Ret t \<and>
    (if n = 2 then p_state (procs t (curr s)) = 0
     else p_state (procs t (curr s)) = 4 \<and>
       ticks_left (procs t (curr s)) \<in> {if n < 2 then 0xFFFFFFFF else n - 2, 0})"
proof -
  let ?p = "curr s" and ?Z = "L (OnList Sleeping)"
  let ?L = "leave_for (tp s) i Sleeping ?p L"
  obtain u where u: "sleep_process ?p n s = Ret u" "placed u Q ?L" "calm u" "ssip u" "tp u = tp s" "curr u = ?p"
    "\<And>q. data (procs u q) = data (if q = ?p then (procs s ?p)\<lparr>p_state := 4, ticks_left := n\<rparr> else procs s q)"
    using block_on_ok [OF assms(1-6), where w = Sleeping and f = "\<lambda>x. x\<lparr>ticks_left := n\<rparr>"]
    by (auto simp: sleep_process_def)
  let ?c = "count_tick u"
  note f = count_tick_fields [of u, unfolded u(5,6)]
  have p: "ticks_left (procs u ?p) = n" "p_state (procs u ?p) = 4"
    using data_fields(8,11) [OF u(7) [of ?p]] by simp_all
  have "?L (OnList Sleeping) = curr ?c # ?Z" by (simp add: leave_for_def f)
  from update_sleep_list_self [OF count_tick_placed [OF u(2)] _ _ this assms(7)] u(3) assms(3)
  obtain t where t: "update_sleep_list ?c = Ret t"
    "p_state (procs t ?p) = (if last_tick ?c ?p then 0 else p_state (procs ?c ?p))"
    "ticks_left (procs t ?p) \<in> {ticks_left (procs ?c ?p) - 1, 0}"
    by (auto simp: f calm_def)
  have k: "ticks_left (procs ?c ?p) = (if n > 0 then n - 1 else 0)" using f(4) p by simp
  have two: "last_tick ?c ?p \<longleftrightarrow> n = 2" by (auto simp: last_tick_def k diff_eq_eq)
  have "ticks_left (procs ?c ?p) - 1 = (if n < 2 then 0xFFFFFFFF else n - 2)"
    by (cases "n = 0 \<or> n = 1") (auto simp: k below_two word_neq_0_conv [symmetric])
  then have "if n = 2 then p_state (procs t ?p) = 0
     else p_state (procs t ?p) = 4 \<and> ticks_left (procs t ?p) \<in> {if n < 2 then 0xFFFFFFFF else n - 2, 0}"
    using t(2,3) p(2) by (simp add: two f)
  then show ?thesis using u(1,4,6) t(1) by blast
qed

theorem sleep_loses_two_ticks_witness:
  "\<exists>u t. sleep_process 0x3000 1 demo_ks = Ret u \<and> update_sleep_list (count_tick u) = Ret t \<and>
     p_state (procs t 0x3000) = 4"
proof -
  have h: "(16 :: nat) < 32" "curr demo_ks \<in> set (demo_L (OnQueue (tp demo_ks) 16))"
    "pid (procs demo_ks (curr demo_ks)) \<noteq> 0" "length (demo_L (OnList Sleeping)) < walk_fuel"
    by (simp_all add: demo_procs_def demo_proc_def walk_fuel_def)
  from sleep_loses_two_ticks [OF demo_placed demo_ok(1,2) h, of 1] show ?thesis by auto
qed

end
