(* ===== verification/Dtb.thy ===== *)
theory Dtb
  imports Strings
begin

text \<open>
  The flattened device tree parsers of \<open>kernel/dtb.c\<close>. The blob is in memory at \<open>dtb\<close>; all its
  words are big-endian. The five parsers run the same loop over the structure block with
  different local variables, so the loop is one definition, \<open>dtb_walk\<close>, with what a parser
  does at a node's begin, at its end and at a property as arguments. \<open>fuel\<close> bounds the tokens
  and the lengths of strings.
\<close>

section \<open>Big-endian words\<close>

definition kswap_endian :: "u32 \<Rightarrow> u32" where
  "kswap_endian x = fold (\<lambda>i out. out OR push_bit (8 * i) (drop_bit (24 - 8 * i) x AND 0xFF)) [0..<4] 0"

definition be32 :: "memory \<Rightarrow> u64 \<Rightarrow> u32" where
  "be32 m a = kswap_endian (ld32 m a)"

definition be64 :: "memory \<Rightarrow> u64 \<Rightarrow> u64" where
  "be64 m a = push_bit 32 (ucast (be32 m a)) OR ucast (be32 m (a + 4))"

section \<open>What the parsers write\<close>

record meta =
  base_addr :: u64
  total_size :: u64

record board =
  ram :: meta
  uart :: meta
  clint :: meta
  plic :: meta
  timebase_freq :: u64
  context_idx :: u32
  harts :: u64

section \<open>The loop\<close>

text \<open>The length of a name and of a value, rounded up to whole words, in bytes.\<close>

definition name_skip :: "nat \<Rightarrow> u64" where
  "name_skip len = 4 * ucast (((of_nat len + 1 + 3 :: u32) AND NOT 3) div 4)"

definition value_skip :: "u32 \<Rightarrow> u64" where
  "value_skip len = 4 * ucast (((len + 3) AND NOT 3) div 4)"

fun dtb_walk ::
  "nat \<Rightarrow> nat \<Rightarrow> (nat \<Rightarrow> cstring \<Rightarrow> 's \<Rightarrow> 's outcome) \<Rightarrow> ('s \<Rightarrow> 's) \<Rightarrow>
   (nat \<Rightarrow> memory \<Rightarrow> cstring \<Rightarrow> u64 \<Rightarrow> u32 \<Rightarrow> 's \<Rightarrow> 's outcome) \<Rightarrow>
   memory \<Rightarrow> u64 \<Rightarrow> u64 \<Rightarrow> u64 \<Rightarrow> u64 \<Rightarrow> 's \<Rightarrow> 's outcome" where
  "dtb_walk 0 fuel on_begin on_end on_prop m strings end_tk end_dtb ptr s =
     (if ptr < end_tk \<and> ptr < end_dtb then Hang else Ret s)"
| "dtb_walk (Suc n) fuel on_begin on_end on_prop m strings end_tk end_dtb ptr s =
     (if ptr < end_tk \<and> ptr < end_dtb then
        (let token = be32 m ptr; ptr = ptr + 4 in
         if token = 1 then
           bindO (on_begin fuel (at m ptr) s) (\<lambda>s.
           bindO (kstrlen fuel (at m ptr)) (\<lambda>len.
           dtb_walk n fuel on_begin on_end on_prop m strings end_tk end_dtb (ptr + name_skip len) s))
         else if token = 2 then
           dtb_walk n fuel on_begin on_end on_prop m strings end_tk end_dtb ptr (on_end s)
         else if token = 3 then
           (let prop_len = be32 m ptr; prop_nameoff = be32 m (ptr + 4); ptr = ptr + 8 in
            bindO (on_prop fuel m (at m (strings + ucast prop_nameoff)) ptr prop_len s) (\<lambda>s.
            dtb_walk n fuel on_begin on_end on_prop m strings end_tk end_dtb (ptr + value_skip prop_len) s))
         else dtb_walk n fuel on_begin on_end on_prop m strings end_tk end_dtb ptr s)
      else Ret s)"

text \<open>The header: the loop runs when the magic number is right.\<close>

definition dtb_parse ::
  "nat \<Rightarrow> (nat \<Rightarrow> cstring \<Rightarrow> 's \<Rightarrow> 's outcome) \<Rightarrow> ('s \<Rightarrow> 's) \<Rightarrow>
   (nat \<Rightarrow> memory \<Rightarrow> cstring \<Rightarrow> u64 \<Rightarrow> u32 \<Rightarrow> 's \<Rightarrow> 's outcome) \<Rightarrow> memory \<Rightarrow> u64 \<Rightarrow> 's \<Rightarrow> 's outcome" where
  "dtb_parse fuel on_begin on_end on_prop m dtb s =
     (if be32 m dtb = 0xD00DFEED then
        (let parser_ptr_struct = dtb + ucast (be32 m (dtb + 8));
             parser_ptr_strings = dtb + ucast (be32 m (dtb + 12));
             end_dtb = dtb + ucast (be32 m (dtb + 4));
             end_tk_ptr = parser_ptr_struct + 4 * ucast (be32 m (dtb + 36) div 4)
         in dtb_walk fuel fuel on_begin on_end on_prop m parser_ptr_strings end_tk_ptr end_dtb
              parser_ptr_struct s)
      else Ret s)"

text \<open>A string test that is made only when \<open>c\<close> holds.\<close>

definition guarded :: "bool \<Rightarrow> bool outcome \<Rightarrow> bool outcome" where
  "guarded c t = (if c then t else Ret False)"

section \<open>RAM\<close>

definition ram_begin :: "nat \<Rightarrow> cstring \<Rightarrow> bool \<times> board \<Rightarrow> (bool \<times> board) outcome" where
  "ram_begin fuel name = (\<lambda>(inside, b).
     bindO (kstr_has_prefix fuel (lit ''memory'') name) (\<lambda>y. Ret (y, b)))"

definition ram_prop ::
  "nat \<Rightarrow> memory \<Rightarrow> cstring \<Rightarrow> u64 \<Rightarrow> u32 \<Rightarrow> bool \<times> board \<Rightarrow> (bool \<times> board) outcome" where
  "ram_prop fuel m name ptr prop_len = (\<lambda>(inside, b).
     bindO (guarded inside (kstrcmp fuel (lit ''reg'') name)) (\<lambda>y.
     Ret (inside, if y then b\<lparr>ram := \<lparr>base_addr = be64 m ptr, total_size = be64 m (ptr + 8)\<rparr>\<rparr> else b)))"

definition dtb_parser_ram :: "nat \<Rightarrow> memory \<Rightarrow> u64 \<Rightarrow> board \<Rightarrow> board outcome" where
  "dtb_parser_ram fuel m dtb b =
     bindO (dtb_parse fuel ram_begin id ram_prop m dtb (False, b)) (\<lambda>(_, b). Ret b)"

section \<open>Time base\<close>

text \<open>\<open>cpus_depth\<close> is 0 outside the cpus node and the depth below it inside.\<close>

definition time_begin :: "nat \<Rightarrow> cstring \<Rightarrow> nat \<times> board \<Rightarrow> (nat \<times> board) outcome" where
  "time_begin fuel name = (\<lambda>(d, b).
     bindO (kstr_has_prefix fuel (lit ''cpus'') name) (\<lambda>y.
     Ret (if y then 1 else if d > 0 then d + 1 else d, b)))"

definition cpus_end :: "nat \<times> board \<Rightarrow> nat \<times> board" where
  "cpus_end = (\<lambda>(d, b). (if d > 0 then d - 1 else d, b))"

definition time_prop ::
  "nat \<Rightarrow> memory \<Rightarrow> cstring \<Rightarrow> u64 \<Rightarrow> u32 \<Rightarrow> nat \<times> board \<Rightarrow> (nat \<times> board) outcome" where
  "time_prop fuel m name ptr prop_len = (\<lambda>(d, b).
     bindO (guarded (d > 0) (kstrcmp fuel (lit ''timebase-frequency'') name)) (\<lambda>y.
     Ret (d, if y then
         (if prop_len = 8 then b\<lparr>timebase_freq := be64 m ptr\<rparr>
          else b\<lparr>timebase_freq := ucast (be32 m ptr)\<rparr>)
       else b)))"

definition dtb_parser_time :: "nat \<Rightarrow> memory \<Rightarrow> u64 \<Rightarrow> board \<Rightarrow> board outcome" where
  "dtb_parser_time fuel m dtb b =
     bindO (dtb_parse fuel time_begin cpus_end time_prop m dtb (0, b)) (\<lambda>(_, b). Ret b)"

section \<open>Interrupt controller context\<close>

definition context_begin :: "nat \<Rightarrow> cstring \<Rightarrow> bool \<times> board \<Rightarrow> (bool \<times> board) outcome" where
  "context_begin fuel name = (\<lambda>(inside, b).
     bindO (kstr_has_prefix fuel (lit ''plic@'') name) (\<lambda>y. Ret (y, b)))"

text \<open>The first of the \<open>n\<close> pairs whose second word is 9, the supervisor external interrupt.\<close>

fun find_context :: "nat \<Rightarrow> u32 \<Rightarrow> u32 \<Rightarrow> memory \<Rightarrow> u64 \<Rightarrow> u32" where
  "find_context 0 i n m ptr = i"
| "find_context (Suc k) i n m ptr =
     (if i < n \<and> be32 m (ptr + 4 * ucast (i + (i + 1))) \<noteq> 9 then find_context k (i + 1) n m ptr else i)"

definition context_prop ::
  "nat \<Rightarrow> memory \<Rightarrow> cstring \<Rightarrow> u64 \<Rightarrow> u32 \<Rightarrow> bool \<times> board \<Rightarrow> (bool \<times> board) outcome" where
  "context_prop fuel m name ptr prop_len = (\<lambda>(inside, b).
     bindO (guarded inside (kstrcmp fuel (lit ''interrupts-extended'') name)) (\<lambda>y.
     if y then
       (let n = prop_len div 8; i = find_context (unat n) 0 n m ptr in
        if i < n then Ret (inside, b\<lparr>context_idx := i\<rparr>) else Panic 117 0)
     else Ret (inside, b)))"

definition dtb_parser_context :: "nat \<Rightarrow> memory \<Rightarrow> u64 \<Rightarrow> board \<Rightarrow> board outcome" where
  "dtb_parser_context fuel m dtb b =
     bindO (dtb_parse fuel context_begin id context_prop m dtb (False, b)) (\<lambda>(_, b). Ret b)"

section \<open>Harts\<close>

definition hart_begin :: "nat \<Rightarrow> cstring \<Rightarrow> nat \<times> board \<Rightarrow> (nat \<times> board) outcome" where
  "hart_begin fuel name = (\<lambda>(d, b).
     bindO (kstr_has_prefix fuel (lit ''cpus'') name) (\<lambda>y.
     if y then Ret (1, b)
     else if d > 0 then
       bindO (kstr_has_prefix fuel (lit ''cpu@'') name) (\<lambda>y.
       Ret (d + 1, if y then b\<lparr>harts := harts b + 1\<rparr> else b))
     else Ret (d, b)))"

definition hart_prop ::
  "nat \<Rightarrow> memory \<Rightarrow> cstring \<Rightarrow> u64 \<Rightarrow> u32 \<Rightarrow> nat \<times> board \<Rightarrow> (nat \<times> board) outcome" where
  "hart_prop fuel m name ptr prop_len s = Ret s"

definition dtb_parser_hart :: "nat \<Rightarrow> memory \<Rightarrow> u64 \<Rightarrow> board \<Rightarrow> board outcome" where
  "dtb_parser_hart fuel m dtb b =
     bindO (dtb_parse fuel hart_begin cpus_end hart_prop m dtb (0, b)) (\<lambda>(_, b). Ret b)"

section \<open>Devices\<close>

text \<open>Some string of a list of strings of \<open>str_len\<close> bytes starts with the target.\<close>

fun match_from :: "nat \<Rightarrow> nat \<Rightarrow> string \<Rightarrow> memory \<Rightarrow> u64 \<Rightarrow> u32 \<Rightarrow> u32 \<Rightarrow> bool outcome" where
  "match_from 0 fuel target m str str_len itr = (if itr < str_len then Hang else Ret False)"
| "match_from (Suc n) fuel target m str str_len itr =
     (if itr < str_len then
        bindO (kstr_has_prefix fuel (lit target) (at m (str + ucast itr))) (\<lambda>y.
        if y then Ret True
        else
          bindO (kstrlen fuel (at m (str + ucast itr))) (\<lambda>len.
          match_from n fuel target m str str_len (itr + of_nat len + 1)))
      else Ret False)"

definition dtb_compatible_match :: "nat \<Rightarrow> string \<Rightarrow> memory \<Rightarrow> u64 \<Rightarrow> u32 \<Rightarrow> bool outcome" where
  "dtb_compatible_match fuel target m str str_len = match_from fuel fuel target m str str_len 0"

record mmio_state =
  active_device :: nat
  dev_base :: u64
  dev_size :: u64
  curr_depth :: int
  dev_depth :: int
  found :: board

definition mmio_begin :: "nat \<Rightarrow> cstring \<Rightarrow> mmio_state \<Rightarrow> mmio_state outcome" where
  "mmio_begin fuel name s = Ret (s\<lparr>curr_depth := curr_depth s + 1\<rparr>)"

definition mmio_end :: "mmio_state \<Rightarrow> mmio_state" where
  "mmio_end s =
     (let d = \<lparr>base_addr = dev_base s, total_size = dev_size s\<rparr>;
          s = (if active_device s > 0 \<and> curr_depth s = dev_depth s then
                 s\<lparr>found := (if active_device s = 1 then found s\<lparr>uart := d\<rparr>
                             else if active_device s = 2 then found s\<lparr>clint := d\<rparr>
                             else if active_device s = 3 then found s\<lparr>plic := d\<rparr> else found s),
                   active_device := 0, dev_base := 0, dev_size := 0, dev_depth := 0\<rparr>
               else s)
      in s\<lparr>curr_depth := curr_depth s - 1\<rparr>)"

text \<open>A test for either of two names; the second is tried when the first fails.\<close>

definition match_either :: "nat \<Rightarrow> string \<Rightarrow> string \<Rightarrow> memory \<Rightarrow> u64 \<Rightarrow> u32 \<Rightarrow> bool outcome" where
  "match_either fuel t1 t2 m ptr len =
     bindO (dtb_compatible_match fuel t1 m ptr len) (\<lambda>y.
     if y then Ret True else dtb_compatible_match fuel t2 m ptr len)"

definition set_active :: "nat \<Rightarrow> bool \<Rightarrow> mmio_state \<Rightarrow> mmio_state" where
  "set_active k y s = (if y then s\<lparr>active_device := k, dev_depth := curr_depth s\<rparr> else s)"

definition mmio_compatible :: "nat \<Rightarrow> memory \<Rightarrow> u64 \<Rightarrow> u32 \<Rightarrow> mmio_state \<Rightarrow> mmio_state outcome" where
  "mmio_compatible fuel m ptr len s =
     bindO (dtb_compatible_match fuel ''ns16550a'' m ptr len) (\<lambda>y.
     let s = set_active 1 y s in
     bindO (match_either fuel ''sifive,clint0'' ''riscv,clint0'' m ptr len) (\<lambda>y.
     let s = set_active 2 y s in
     bindO (match_either fuel ''riscv,plic0'' ''sifive,plic-1.0.0'' m ptr len) (\<lambda>y.
     Ret (set_active 3 y s))))"

definition mmio_reg :: "memory \<Rightarrow> u64 \<Rightarrow> u32 \<Rightarrow> mmio_state \<Rightarrow> mmio_state" where
  "mmio_reg m ptr len s =
     (if len \<ge> 16 then s\<lparr>dev_base := be64 m ptr, dev_size := be64 m (ptr + 8)\<rparr>
      else if len \<ge> 8 then s\<lparr>dev_base := ucast (be32 m ptr), dev_size := ucast (be32 m (ptr + 4))\<rparr>
      else s)"

definition mmio_prop ::
  "nat \<Rightarrow> memory \<Rightarrow> cstring \<Rightarrow> u64 \<Rightarrow> u32 \<Rightarrow> mmio_state \<Rightarrow> mmio_state outcome" where
  "mmio_prop fuel m name ptr prop_len s =
     bindO (kstrcmp fuel (lit ''compatible'') name) (\<lambda>y.
     bindO (if y then mmio_compatible fuel m ptr prop_len s else Ret s) (\<lambda>s.
     bindO (kstrcmp fuel (lit ''reg'') name) (\<lambda>y.
     Ret (if y then mmio_reg m ptr prop_len s else s))))"

definition dtb_parser_mmio :: "nat \<Rightarrow> memory \<Rightarrow> u64 \<Rightarrow> board \<Rightarrow> board outcome" where
  "dtb_parser_mmio fuel m dtb b =
     bindO (dtb_parse fuel mmio_begin mmio_end mmio_prop m dtb
        \<lparr>active_device = 0, dev_base = 0, dev_size = 0, curr_depth = 0, dev_depth = 0, found = b\<rparr>)
       (\<lambda>s. Ret (found s))"

end
