(* ===== verification/DtbTokens.thy ===== *)
theory DtbTokens
  imports Dtb
begin

text \<open>
  The device tree blob as a sequence of tokens, and the interface of a parser: what it does at
  a token depends on the token only. A parser that meets the interface turns the loop over the
  bytes into the fold of its steps over the tokens.
\<close>

section \<open>Big-endian words\<close>

lemma bit_FF: "bit (0xFF :: 'a::len word) n \<longleftrightarrow> n < 8 \<and> n < LENGTH('a)"
proof -
  have "(0xFF :: 'a word) = mask 8" by (simp add: mask_eq_exp_minus_1)
  then show ?thesis by (simp only: bit_mask_iff) auto
qed

lemma bit_fold_or: "bit (fold (\<lambda>i out. out OR f i) xs a) n \<longleftrightarrow> bit a n \<or> (\<exists>i\<in>set xs. bit (f i) n)"
  by (induction xs arbitrary: a) (auto simp: bit_or_iff)

lemma bit_kswap_endian:
  assumes "n < 32"
  shows "bit (kswap_endian x) n \<longleftrightarrow> bit x (8 * (3 - n div 8) + n mod 8)"
proof -
  have b: "bit (push_bit (8 * i) (drop_bit (24 - 8 * i) x AND 0xFF)) n \<longleftrightarrow>
      i = n div 8 \<and> bit x (8 * (3 - n div 8) + n mod 8)" if "i < 4" for i
  proof -
    have "8 * i \<le> n \<and> n - 8 * i < 8 \<longleftrightarrow> i = n div 8" using assms by linarith
    moreover have "24 - 8 * (n div 8) + (n - 8 * (n div 8)) = 8 * (3 - n div 8) + n mod 8"
      using assms by (simp add: minus_mult_div_eq_mod diff_mult_distrib2)
    ultimately show ?thesis using assms
      unfolding bit_push_bit_iff bit_and_iff bit_drop_bit_eq bit_FF by auto
  qed
  have "n div 8 < 4" using assms by linarith
  then show ?thesis unfolding kswap_endian_def bit_fold_or using b by auto
qed

text \<open>The value of bytes, the most significant first.\<close>

fun be_value :: "u8 list \<Rightarrow> u64" where
  "be_value [] = 0"
| "be_value (x # xs) = push_bit (8 * length xs) (ucast x) OR be_value xs"

definition bytes_at :: "memory \<Rightarrow> u64 \<Rightarrow> u8 list \<Rightarrow> bool" where
  "bytes_at m a xs \<longleftrightarrow> (\<forall>i<length xs. m (a + of_nat i) = xs ! i)"


lemma div8_eq: "8 * k \<le> n \<Longrightarrow> (n div 8 = k) = (n < 8 * Suc k)" for n k :: nat
  by (auto simp: div_nat_eqI)

lemma bit_be_value:
  assumes "n < 64" and "length xs \<le> 8"
  shows "bit (be_value xs) n \<longleftrightarrow> n < 8 * length xs \<and> bit (xs ! (length xs - 1 - n div 8)) (n mod 8)"
  using assms
proof (induction xs)
  case (Cons x xs)
  show ?case
  proof (cases "n < 8 * length xs")
    case True
    then have "n div 8 < length xs" by linarith
    then have "length xs - n div 8 = Suc (length xs - 1 - n div 8)" by linarith
    then show ?thesis using Cons True by (simp add: bit_or_iff bit_push_bit_iff)
  next
    case False
    have q: "n < 8 * Suc (length xs) \<longleftrightarrow> n div 8 = length xs" using False by (intro div8_eq [symmetric]) simp
    have r: "n - 8 * length xs = n mod 8" if "n div 8 = length xs"
      unfolding that [symmetric] by (rule minus_mult_div_eq_mod)
    have z: "\<not> bit x (n - 8 * length xs)" if "\<not> n < 8 * Suc (length xs)"
      using that by (auto dest: bit_imp_le_length)
    have t: "\<not> bit (be_value xs) n" using Cons False by simp
    have "bit (be_value (x # xs)) n \<longleftrightarrow> bit x (n - 8 * length xs)"
      using t False Cons.prems by (auto simp: bit_or_iff bit_push_bit_iff bit_ucast_iff)
    also have "\<dots> \<longleftrightarrow> n < 8 * Suc (length xs) \<and> bit x (n mod 8)" using q r z by metis
    also have "\<dots> \<longleftrightarrow> n < 8 * length (x # xs) \<and> bit ((x # xs) ! (length (x # xs) - 1 - n div 8)) (n mod 8)"
      using q by auto
    finally show ?thesis .
  qed
qed simp

lemma be32_bytes:
  assumes "bytes_at m a xs" and "length xs = 4"
  shows "be32 m a = ucast (be_value xs)"
proof (rule bit_word_eqI)
  fix n assume n: "n < LENGTH(32)"
  then have n32: "n < 32" by simp
  let ?k = "8 * (3 - n div 8) + n mod 8"
  have k: "?k < 32" "?k div 8 = 3 - n div 8" "?k mod 8 = n mod 8" using n32 by auto
  have "bit (be32 m a) n \<longleftrightarrow> bit (m (a + of_nat (3 - n div 8))) (n mod 8)"
    using k n32 by (simp add: be32_def bit_kswap_endian ld32_def bit_ucast_iff bit_ld_bytes)
  moreover have "m (a + of_nat (3 - n div 8)) = xs ! (3 - n div 8)"
    using assms by (simp add: bytes_at_def)
  moreover have "bit (ucast (be_value xs) :: u32) n \<longleftrightarrow> bit (xs ! (3 - n div 8)) (n mod 8)"
    using n32 assms(2) by (simp add: bit_ucast_iff bit_be_value)
  ultimately show "bit (be32 m a) n \<longleftrightarrow> bit (ucast (be_value xs) :: u32) n" by simp
qed

lemma bytes_at_sub: "bytes_at m a v \<Longrightarrow> i + k \<le> length v \<Longrightarrow> bytes_at m (a + of_nat i) (take k (drop i v))"
  by (auto simp: bytes_at_def algebra_simps) (metis of_nat_add add.commute less_le_trans add_less_cancel_left)

lemma be64_bytes:
  assumes "bytes_at m a xs" and "length xs = 8"
  shows "be64 m a = be_value xs"
proof (rule bit_word_eqI)
  fix n assume "n < LENGTH(64)"
  then have n: "n < 64" by simp
  have h: "be32 m a = ucast (be_value (take 4 xs))"
    using be32_bytes [OF bytes_at_sub [OF assms(1), of 0 4]] assms(2) by simp
  have l: "be32 m (a + 4) = ucast (be_value (take 4 (drop 4 xs)))"
    using be32_bytes [OF bytes_at_sub [OF assms(1), of 4 4]] assms(2) by simp
  show "bit (be64 m a) n \<longleftrightarrow> bit (be_value xs) n"
  proof (cases "n < 32")
    case True
    then have "4 + (3 - n div 8) = 7 - n div 8" by linarith
    then show ?thesis using n True assms(2) l
      by (simp add: be64_def bit_or_iff bit_push_bit_iff bit_ucast_iff bit_be_value)
  next
    case False
    define j where "j = n - 32"
    have j: "n = j + 4 * 8" "j < 32" using False n by (simp_all add: j_def)
    have "n div 8 = 4 + j div 8" unfolding j(1) by (rule div_mult_self1) simp
    moreover have "n mod 8 = j mod 8" unfolding j(1) by (rule mod_mult_self1)
    ultimately have q: "n div 8 = j div 8 + 4" "n mod 8 = j mod 8" by simp_all
    have "j div 8 < 4" using j(2) by linarith
    then have k: "n - 32 < 32" "(n - 32) div 8 = n div 8 - 4" "(n - 32) mod 8 = n mod 8" "4 \<le> n div 8" "n div 8 < 8"
      unfolding q j_def [symmetric] using j(2) by simp_all
    have i: "4 - 1 - (n div 8 - 4) = 8 - 1 - n div 8" using k(4,5) by linarith
    have lt: "4 - 1 - (n div 8 - 4) < 4" by simp
    have len: "length (take 4 xs) = 4" using assms(2) by simp
    have "bit (be64 m a) n \<longleftrightarrow> bit (be32 m a) (n - 32)"
      using False n by (auto simp: be64_def bit_or_iff bit_push_bit_iff bit_ucast_iff dest: bit_imp_le_length)
    also have "\<dots> \<longleftrightarrow> bit (be_value (take 4 xs)) (n - 32)"
      unfolding h using k(1) by (simp add: bit_ucast_iff)
    also have "\<dots> \<longleftrightarrow> bit (take 4 xs ! (4 - 1 - (n div 8 - 4))) (n mod 8)"
      using bit_be_value [of "n - 32" "take 4 xs"] k(1) unfolding len k(2,3) by simp
    also have "\<dots> \<longleftrightarrow> bit (xs ! (8 - 1 - n div 8)) (n mod 8)"
      using nth_take [OF lt, of xs] unfolding i by simp
    also have "\<dots> \<longleftrightarrow> bit (be_value xs) n"
      using bit_be_value [of n xs] n unfolding assms(2) by simp
    finally show ?thesis .
  qed
qed

section \<open>Tokens\<close>

datatype dt_token = BeginT "u8 list" | EndT | PropT "u8 list" "u8 list" | OtherT u32

fun tok_size :: "dt_token \<Rightarrow> nat" where
  "tok_size (BeginT name) = 4 + 4 * ((length name + 4) div 4)"
| "tok_size EndT = 4"
| "tok_size (PropT name v) = 12 + 4 * ((length v + 3) div 4)"
| "tok_size (OtherT t) = 4"

fun tok_at :: "memory \<Rightarrow> u64 \<Rightarrow> u64 \<Rightarrow> dt_token \<Rightarrow> bool" where
  "tok_at m strs a (BeginT name) \<longleftrightarrow> be32 m a = 1 \<and> cstr (at m (a + 4)) name \<and> length name < 2 ^ 31"
| "tok_at m strs a EndT \<longleftrightarrow> be32 m a = 2"
| "tok_at m strs a (PropT name v) \<longleftrightarrow> be32 m a = 3 \<and> be32 m (a + 4) = of_nat (length v) \<and>
     length v < 2 ^ 31 \<and> cstr (at m (strs + ucast (be32 m (a + 8)))) name \<and> bytes_at m (a + 12) v"
| "tok_at m strs a (OtherT t) \<longleftrightarrow> be32 m a = t \<and> t \<notin> {1, 2, 3}"

fun laid_out :: "memory \<Rightarrow> u64 \<Rightarrow> nat \<Rightarrow> dt_token list \<Rightarrow> nat \<Rightarrow> bool" where
  "laid_out m strs a [] e \<longleftrightarrow> a = e"
| "laid_out m strs a (t # ts) e \<longleftrightarrow> tok_at m strs (of_nat a) t \<and> laid_out m strs (a + tok_size t) ts e"

lemma tok_size_pos: "4 \<le> tok_size t"
  by (cases t) simp_all

lemma laid_out_le: "laid_out m strs a ts e \<Longrightarrow> a + 4 * length ts \<le> e"
proof (induction ts arbitrary: a)
  case (Cons t ts)
  then show ?case using tok_size_pos [of t] by fastforce
qed simp

text \<open>A whole blob: the header, then the tokens fill the structure block.\<close>

definition dtb_blob :: "memory \<Rightarrow> u64 \<Rightarrow> dt_token list \<Rightarrow> bool" where
  "dtb_blob m dtb ts \<longleftrightarrow>
     (let start = dtb + ucast (be32 m (dtb + 8)); stop = start + 4 * ucast (be32 m (dtb + 36) div 4) in
      be32 m dtb = 0xD00DFEED \<and> stop \<le> dtb + ucast (be32 m (dtb + 4)) \<and>
      laid_out m (dtb + ucast (be32 m (dtb + 12))) (unat start) ts (unat stop))"

text \<open>Rounding to words.\<close>

lemma word_div4: "(x AND NOT 3) div 4 = (x :: u32) div 4"
proof -
  have d: "y div 4 = drop_bit 2 y" for y :: u32 by (simp add: drop_bit_eq_div)
  have m: "(3 :: u32) = mask 2" by (simp add: mask_eq_exp_minus_1)
  have "drop_bit 2 (x AND NOT (mask 2)) = drop_bit 2 x"
    by (rule bit_word_eqI) (auto simp: bit_and_iff bit_not_iff bit_drop_bit_eq bit_mask_iff dest: bit_imp_le_length)
  then show ?thesis by (simp only: d m)
qed

lemma ucast_of_unat: "unat (x :: u32) = k \<Longrightarrow> (ucast x :: u64) = of_nat k"
  by (auto simp: word_unat_eq_iff unsigned_ucast_eq unsigned_take_bit_eq)

lemma name_skip_eq: "len < 2 ^ 31 \<Longrightarrow> name_skip len = of_nat (4 * ((len + 4) div 4))"
proof -
  assume l: "len < 2 ^ 31"
  have "(of_nat len + 1 + 3 :: u32) = of_nat (len + 4)" by simp
  then have "unat ((of_nat len + 1 + 3 :: u32) div 4) = (len + 4) div 4"
    using l by (simp add: unat_div unat_of_nat del: of_nat_add)
  then have "ucast ((of_nat len + 1 + 3 :: u32) div 4) = (of_nat ((len + 4) div 4) :: u64)"
    by (rule ucast_of_unat)
  then show ?thesis unfolding name_skip_def word_div4 by simp
qed

lemma value_skip_eq: "len < 2 ^ 31 \<Longrightarrow> value_skip (of_nat len) = of_nat (4 * ((len + 3) div 4))"
proof -
  assume l: "len < 2 ^ 31"
  have "unat ((of_nat len + 3 :: u32) div 4) = (len + 3) div 4"
    using l by (simp add: unat_div unat_of_nat unat_word_ariths)
  then have "ucast ((of_nat len + 3 :: u32) div 4) = (of_nat ((len + 3) div 4) :: u64)"
    by (rule ucast_of_unat)
  then show ?thesis unfolding value_skip_def word_div4 by simp
qed

section \<open>The interface of a parser\<close>

text \<open>The bytes of strings a token makes the parser look at, which the fuel must exceed.\<close>

fun tok_text :: "dt_token \<Rightarrow> nat" where
  "tok_text (BeginT name) = length name"
| "tok_text (PropT name v) = length name + length v"
| "tok_text t = 0"

text \<open>
  What a parser relies on at a token may depend on its state (the node it is in): \<open>run_good\<close>
  says it holds at every token of a run.
\<close>

fun run_good :: "(dt_token \<Rightarrow> 's \<Rightarrow> 's outcome) \<Rightarrow> (dt_token \<Rightarrow> 's \<Rightarrow> bool) \<Rightarrow> dt_token list \<Rightarrow> 's \<Rightarrow> bool" where
  "run_good step good [] s \<longleftrightarrow> True"
| "run_good step good (t # ts) s \<longleftrightarrow> good t s \<and>
     (case step t s of Ret s' \<Rightarrow> run_good step good ts s' | _ \<Rightarrow> True)"

locale dtb_client =
  fixes on_begin :: "nat \<Rightarrow> cstring \<Rightarrow> 's \<Rightarrow> 's outcome"
    and on_end :: "'s \<Rightarrow> 's"
    and on_prop :: "nat \<Rightarrow> memory \<Rightarrow> cstring \<Rightarrow> u64 \<Rightarrow> u32 \<Rightarrow> 's \<Rightarrow> 's outcome"
    and step :: "dt_token \<Rightarrow> 's \<Rightarrow> 's outcome"
    and good :: "dt_token \<Rightarrow> 's \<Rightarrow> bool"
  assumes begin_step: "cstr p name \<Longrightarrow> length name < fuel \<Longrightarrow> on_begin fuel p s = step (BeginT name) s"
    and end_step: "step EndT s = Ret (on_end s)"
    and prop_step: "good (PropT name v) s \<Longrightarrow> cstr p name \<Longrightarrow> length name + length v < fuel \<Longrightarrow>
      bytes_at m ptr v \<Longrightarrow> length v < 2 ^ 31 \<Longrightarrow>
      on_prop fuel m p ptr (of_nat (length v)) s = step (PropT name v) s"
    and other_step: "step (OtherT t) s = Ret s"
begin

lemma walk_tokens:
  assumes "laid_out m strs a ts e" and "e < 2 ^ 64" and "unat end_tk = e" and "end_tk \<le> end_dtb"
    and "length ts \<le> n" and "run_good step good ts s" and "\<forall>t\<in>set ts. tok_text t < fuel"
  shows "dtb_walk n fuel on_begin on_end on_prop m strs end_tk end_dtb (of_nat a) s = forO ts step s"
  using assms(1,5-7)
proof (induction ts arbitrary: a n s)
  case Nil
  then have "of_nat a = end_tk" using assms(2,3) by (simp add: word_unat_eq_iff unat_of_nat)
  then show ?case by (cases n) simp_all
next
  case (Cons t ts)
  obtain k where n: "n = Suc k" "length ts \<le> k" using Cons.prems(2) by (cases n) auto
  have at: "tok_at m strs (of_nat a) t" and rest: "laid_out m strs (a + tok_size t) ts e"
    using Cons.prems(1) by simp_all
  have "a + 4 \<le> e" using laid_out_le [OF Cons.prems(1)] by simp
  then have "(of_nat a :: u64) < end_tk" using assms(2,3) by (simp add: word_less_nat_alt unat_of_nat)
  then have c: "(of_nat a :: u64) < end_tk \<and> (of_nat a :: u64) < end_dtb" using assms(4) by simp
  have g: "\<forall>t\<in>set ts. tok_text t < fuel" "tok_text t < fuel" "good t s" using Cons.prems(3,4) by simp_all
  have IH: "step t s = Ret s' \<Longrightarrow>
      dtb_walk k fuel on_begin on_end on_prop m strs end_tk end_dtb (of_nat (a + tok_size t)) s' = forO ts step s'" for s'
    using Cons.IH [OF rest n(2), of s'] g(1) Cons.prems(3) by simp
  then have IH': "bindO (step t s) (dtb_walk k fuel on_begin on_end on_prop m strs end_tk end_dtb (of_nat (a + tok_size t))) =
      bindO (step t s) (forO ts step)"
    by (cases "step t s") simp_all
  show ?case
  proof (cases t)
    case (BeginT name)
    then have nm: "cstr (at m (of_nat a + 4)) name" "length name < fuel" "length name < 2 ^ 31"
      and tk: "be32 m (of_nat a) = 1" using at g by simp_all
    have len: "kstrlen fuel (at m (of_nat a + 4)) = Ret (length name)"
      using strlen_from_ok [OF nm(1)] nm(2) by (simp add: kstrlen_def)
    have ptr: "of_nat a + 4 + name_skip (length name) = of_nat (a + tok_size t)"
      using BeginT by (simp add: name_skip_eq [OF nm(3)])
    show ?thesis
      using c IH' by (simp add: n BeginT tk len begin_step [OF nm(1,2)] ptr [unfolded BeginT]
        del: of_nat_add tok_size.simps)
  next
    case EndT
    then show ?thesis using c IH' at by (simp add: n end_step add.commute)
  next
    case (PropT name v)
    then have pv: "cstr (at m (strs + ucast (be32 m (of_nat a + 8)))) name" "length name + length v < fuel"
        "bytes_at m (of_nat a + 12) v" "length v < 2 ^ 31" "good (PropT name v) s"
      and tk: "be32 m (of_nat a) = 3" "be32 m (of_nat a + 4) = of_nat (length v)" using at g by simp_all
    have ptr: "of_nat a + 4 + 8 + value_skip (of_nat (length v)) = of_nat (a + tok_size t)"
      using PropT by (simp add: value_skip_eq [OF pv(4)])
    have off: "of_nat a + 4 + 4 = (of_nat a + 8 :: u64)" "of_nat a + 4 + 8 = (of_nat a + 12 :: u64)" by simp_all
    show ?thesis
      using c IH' by (simp add: n PropT tk off prop_step [OF pv(5,1,2,3,4)] ptr [unfolded PropT off(2)]
        del: of_nat_add tok_size.simps)
  next
    case (OtherT t')
    then show ?thesis using c IH' at by (simp add: n other_step add.commute)
  qed
qed

text \<open>A whole blob.\<close>

lemma parse_tokens:
  assumes "dtb_blob m dtb ts" and "length ts \<le> fuel" and "\<forall>t\<in>set ts. tok_text t < fuel"
    and "run_good step good ts s"
  shows "dtb_parse fuel on_begin on_end on_prop m dtb s = forO ts step s"
proof -
  define start stop where "start = dtb + ucast (be32 m (dtb + 8))" and "stop = start + 4 * ucast (be32 m (dtb + 36) div 4)"
  have b: "be32 m dtb = 0xD00DFEED" "stop \<le> dtb + ucast (be32 m (dtb + 4))"
      "laid_out m (dtb + ucast (be32 m (dtb + 12))) (unat start) ts (unat stop)"
    using assms(1) by (simp_all add: dtb_blob_def Let_def start_def stop_def)
  have "dtb_walk fuel fuel on_begin on_end on_prop m (dtb + ucast (be32 m (dtb + 12))) stop
      (dtb + ucast (be32 m (dtb + 4))) (of_nat (unat start)) s = forO ts step s"
    using walk_tokens [OF b(3) unat64_less refl b(2) assms(2,4,3)] .
  then show ?thesis using b(1) by (simp add: dtb_parse_def Let_def start_def stop_def)
qed

end

end
