(* ===== verification/DtbSpec.thy ===== *)
theory DtbSpec
  imports DtbTokens
begin

text \<open>
  The parsers of the device tree meet the interface of \<open>DtbTokens\<close>: each one is interpreted on
  its own step over tokens. A tree of nodes is the abstract view of a blob.
\<close>

section \<open>Names and values\<close>

lemma kstrcmp_lit:
  assumes "cstr p name" and "length name < fuel" and "CHR 0x00 \<notin> set t"
  shows "kstrcmp fuel (lit t) p = Ret (name = bytes_of t)"
  using strcmp_from_ok [OF cstr_lit [OF assms(3)] assms(1), of 0 fuel] assms(2)
  by (auto simp: kstrcmp_def)

lemma kstr_has_prefix_lit:
  assumes "cstr p name" and "length name < fuel" and "CHR 0x00 \<notin> set t"
  shows "kstr_has_prefix fuel (lit t) p = Ret (prefix (bytes_of t) name)"
  using prefix_from_ok [OF cstr_lit [OF assms(3)] assms(1), of 0 fuel] assms(2)
  by (simp add: kstr_has_prefix_def)

text \<open>The word and the double word at an offset of a value.\<close>

definition word_at :: "u8 list \<Rightarrow> nat \<Rightarrow> u64" where
  "word_at v i = be_value (take 4 (drop i v))"

definition dword_at :: "u8 list \<Rightarrow> nat \<Rightarrow> u64" where
  "dword_at v i = be_value (take 8 (drop i v))"

lemma be32_word_at: "bytes_at m a v \<Longrightarrow> i + 4 \<le> length v \<Longrightarrow> be32 m (a + of_nat i) = ucast (word_at v i)"
  unfolding word_at_def using be32_bytes [OF bytes_at_sub [of m a v i 4]] by simp

lemma be64_dword_at: "bytes_at m a v \<Longrightarrow> i + 8 \<le> length v \<Longrightarrow> be64 m (a + of_nat i) = dword_at v i"
  unfolding dword_at_def using be64_bytes [OF bytes_at_sub [of m a v i 8]] by simp

lemma u32_of_nat_eq: "n < 2 ^ 31 \<Longrightarrow> k < 2 ^ 31 \<Longrightarrow> (of_nat n :: u32) = of_nat k \<longleftrightarrow> n = k"
  by (simp add: word_unat_eq_iff unat_of_nat)

lemma u32_le_of_nat: "n < 2 ^ 31 \<Longrightarrow> k < 2 ^ 31 \<Longrightarrow> (of_nat n :: u32) \<le> of_nat k \<longleftrightarrow> n \<le> k"
  by (simp add: word_le_nat_alt unat_of_nat)

section \<open>RAM\<close>

fun ram_step :: "dt_token \<Rightarrow> bool \<times> board \<Rightarrow> (bool \<times> board) outcome" where
  "ram_step (BeginT name) (inside, b) = Ret (prefix (bytes_of ''memory'') name, b)"
| "ram_step (PropT name v) (inside, b) = Ret (inside,
     if inside \<and> name = bytes_of ''reg'' then b\<lparr>ram := \<lparr>base_addr = dword_at v 0, total_size = dword_at v 8\<rparr>\<rparr> else b)"
| "ram_step t s = Ret s"

fun ram_good :: "dt_token \<Rightarrow> bool \<times> board \<Rightarrow> bool" where
  "ram_good (PropT name v) (inside, b) \<longleftrightarrow> (inside \<and> name = bytes_of ''reg'' \<longrightarrow> 16 \<le> length v)"
| "ram_good t s \<longleftrightarrow> True"

interpretation ramc: dtb_client ram_begin id ram_prop ram_step ram_good
proof (unfold_locales, goal_cases)
  case (1 p name fuel s)
  then show ?case by (cases s) (simp add: ram_begin_def kstr_has_prefix_lit)
next
  case (3 name v s p fuel m ptr)
  obtain inside b where s: "s = (inside, b)" by (cases s)
  note c = kstrcmp_lit [OF 3(2), of fuel "''reg''"]
  show ?case using 3 c be64_dword_at [OF 3(4), of 0] be64_dword_at [OF 3(4), of 8]
    by (cases "inside \<and> name = bytes_of ''reg''") (auto simp: s ram_prop_def guarded_def)
qed simp_all

section \<open>Time base and harts\<close>

fun time_step :: "dt_token \<Rightarrow> nat \<times> board \<Rightarrow> (nat \<times> board) outcome" where
  "time_step (BeginT name) (d, b) = Ret (if prefix (bytes_of ''cpus'') name then 1 else if d > 0 then d + 1 else d, b)"
| "time_step EndT (d, b) = Ret (d - 1, b)"
| "time_step (PropT name v) (d, b) = Ret (d,
     if d > 0 \<and> name = bytes_of ''timebase-frequency'' then
       b\<lparr>timebase_freq := if length v = 8 then dword_at v 0 else word_at v 0\<rparr> else b)"
| "time_step t s = Ret s"

fun time_good :: "dt_token \<Rightarrow> nat \<times> board \<Rightarrow> bool" where
  "time_good (PropT name v) (d, b) \<longleftrightarrow> (d > 0 \<and> name = bytes_of ''timebase-frequency'' \<longrightarrow> 4 \<le> length v)"
| "time_good t s \<longleftrightarrow> True"

lemma word_at_small: "(ucast (ucast (word_at v i) :: u32) :: u64) = word_at v i"
proof (rule bit_word_eqI)
  fix n assume "n < LENGTH(64)"
  then have n: "n < 64" by simp
  have "bit (word_at v i) n \<longrightarrow> n < 32"
    using bit_be_value [of n "take 4 (drop i v)"] n by (auto simp: word_at_def)
  then show "bit (ucast (ucast (word_at v i) :: u32) :: u64) n = bit (word_at v i) n"
    using n by (auto simp: bit_ucast_iff)
qed

interpretation timec: dtb_client time_begin cpus_end time_prop time_step time_good
proof (unfold_locales, goal_cases)
  case (1 p name fuel s)
  then show ?case by (cases s) (simp add: time_begin_def kstr_has_prefix_lit)
next
  case (2 s)
  then show ?case by (cases s) (simp add: cpus_end_def)
next
  case (3 name v s p fuel m ptr)
  obtain d b where s: "s = (d, b)" by (cases s)
  note c = kstrcmp_lit [OF 3(2), of fuel "''timebase-frequency''"]
  show ?case using 3 c be64_dword_at [OF 3(4), of 0] be32_word_at [OF 3(4), of 0] u32_of_nat_eq [OF 3(5), of 8]
    by (cases "d > 0 \<and> name = bytes_of ''timebase-frequency''") (auto simp: s time_prop_def guarded_def word_at_small)
qed simp_all

fun hart_step :: "dt_token \<Rightarrow> nat \<times> board \<Rightarrow> (nat \<times> board) outcome" where
  "hart_step (BeginT name) (d, b) = Ret
     (if prefix (bytes_of ''cpus'') name then (1, b)
      else if d > 0 then (d + 1, if prefix (bytes_of ''cpu@'') name then b\<lparr>harts := harts b + 1\<rparr> else b)
      else (d, b))"
| "hart_step EndT (d, b) = Ret (d - 1, b)"
| "hart_step t s = Ret s"

interpretation hartc: dtb_client hart_begin cpus_end hart_prop hart_step "\<lambda>_ _. True"
proof (unfold_locales, goal_cases)
  case (1 p name fuel s)
  then show ?case by (cases s) (simp add: hart_begin_def kstr_has_prefix_lit)
next
  case (2 s)
  then show ?case by (cases s) (simp add: cpus_end_def)
qed (simp_all add: hart_prop_def)

section \<open>Interrupt controller context\<close>

fun context_step :: "dt_token \<Rightarrow> bool \<times> board \<Rightarrow> (bool \<times> board) outcome" where
  "context_step (BeginT name) (inside, b) = Ret (prefix (bytes_of ''plic@'') name, b)"
| "context_step (PropT name v) (inside, b) =
     (if inside \<and> name = bytes_of ''interrupts-extended'' then
        (case find (\<lambda>i. word_at v (8 * i + 4) = 9) [0..<length v div 8] of
           Some i \<Rightarrow> Ret (inside, b\<lparr>context_idx := of_nat i\<rparr>) | None \<Rightarrow> Panic 117 0)
      else Ret (inside, b))"
| "context_step t s = Ret s"

lemma word_at_9: "(ucast (word_at v i) :: u32) = 9 \<longleftrightarrow> word_at v i = 9"
proof
  assume "(ucast (word_at v i) :: u32) = 9"
  then have "(ucast (ucast (word_at v i) :: u32) :: u64) = ucast (9 :: u32)" by (rule arg_cong)
  then show "word_at v i = 9" unfolding word_at_small by simp
qed simp

lemma ucast_of_nat_small: "k < 2 ^ 31 \<Longrightarrow> (ucast (of_nat k :: u32) :: u64) = of_nat k"
  by (rule ucast_of_unat) (simp add: unat_of_nat)

lemma find_context_ok:
  assumes "bytes_at m ptr v" and "length v < 2 ^ 31" and "n = length v div 8" and "i + k = n"
  shows "find_context k (of_nat i) (of_nat n) m ptr =
    (case find (\<lambda>i. word_at v (8 * i + 4) = 9) [i..<n] of Some j \<Rightarrow> of_nat j | None \<Rightarrow> of_nat n)"
  using assms(4)
proof (induction k arbitrary: i)
  case (Suc k)
  have i: "i < n" "8 * i + 4 + 4 \<le> length v" "2 * i + 1 < 2 ^ 31" "i < 2 ^ 31" "n < 2 ^ 31"
    using Suc.prems assms(2,3) by simp_all
  have "(of_nat i + (of_nat i + 1) :: u32) = of_nat (2 * i + 1)" by simp
  then have "4 * ucast (of_nat i + (of_nat i + 1) :: u32) = 4 * (of_nat (2 * i + 1) :: u64)"
    using ucast_of_nat_small [OF i(3)] by (simp only:)
  also have "\<dots> = of_nat (8 * i + 4)" by simp
  finally have "4 * ucast (of_nat i + (of_nat i + 1) :: u32) = (of_nat (8 * i + 4) :: u64)" .
  then have w: "be32 m (ptr + 4 * ucast (of_nat i + (of_nat i + 1) :: u32)) = 9 \<longleftrightarrow> word_at v (8 * i + 4) = 9"
    using be32_word_at [OF assms(1) i(2)] word_at_9 by simp
  have lt: "(of_nat i :: u32) < of_nat n" using i by (simp add: word_less_nat_alt unat_of_nat)
  have "[i..<n] = i # [Suc i..<n]" using i(1) by (rule upt_conv_Cons)
  then show ?case using Suc.IH [of "Suc i"] Suc.prems lt w by (simp add: add.commute)
qed simp

interpretation contextc: dtb_client context_begin id context_prop context_step "\<lambda>_ _. True"
proof (unfold_locales, goal_cases)
  case (1 p name fuel s)
  then show ?case by (cases s) (simp add: context_begin_def kstr_has_prefix_lit)
next
  case (3 name v s p fuel m ptr)
  obtain inside b where s: "s = (inside, b)" by (cases s)
  note c = kstrcmp_lit [OF 3(2), of fuel "''interrupts-extended''"]
  let ?n = "length v div 8"
  have n: "of_nat (length v) div 8 = (of_nat ?n :: u32)" "?n < 2 ^ 31"
    using 3(5) by (simp_all add: word_unat_eq_iff unat_div unat_of_nat)
  have u: "unat (of_nat ?n :: u32) = ?n" using n(2) by (simp add: unat_of_nat)
  note f = find_context_ok [OF 3(4,5) refl, of 0 ?n]
  have lt: "j < ?n \<Longrightarrow> (of_nat j :: u32) < of_nat ?n" for j
    using n(2) by (simp add: word_less_nat_alt unat_of_nat)
  have inr: "find (\<lambda>i. word_at v (8 * i + 4) = 9) [0..<?n] = Some j \<Longrightarrow> j < ?n" for j
    by (auto simp: find_Some_iff)
  show ?case using 3 c f lt inr
    by (cases "inside \<and> name = bytes_of ''interrupts-extended''")
      (auto simp: s context_prop_def guarded_def n(1) u Let_def split: option.splits)
qed simp_all

section \<open>Devices\<close>

text \<open>The strings of a value that is a list of terminated strings.\<close>

fun strs_of :: "u8 list \<Rightarrow> u8 list list" where
  "strs_of [] = []"
| "strs_of (x # xs) = (if x = 0 then [] # strs_of xs else
     (case strs_of xs of [] \<Rightarrow> [[x]] | s # ss \<Rightarrow> (x # s) # ss))"

definition ended :: "u8 list \<Rightarrow> bool" where
  "ended v \<longleftrightarrow> v = [] \<or> last v = 0"

lemma strs_of_ended: "ended v \<Longrightarrow> v = concat (map (\<lambda>s. s @ [0]) (strs_of v)) \<and> (\<forall>s\<in>set (strs_of v). 0 \<notin> set s)"
proof (induction v rule: strs_of.induct)
  case (2 x xs)
  then have e: "ended xs" by (simp add: ended_def split: if_splits)
  show ?case
  proof (cases "x = 0")
    case True
    then show ?thesis using 2(1) e by simp
  next
    case False
    then have "xs \<noteq> []" using 2 by (auto simp: ended_def)
    then have "strs_of xs \<noteq> []" by (cases xs) (simp_all split: list.splits)
    then obtain s ss where ss: "strs_of xs = s # ss" by (cases "strs_of xs") simp_all
    then show ?thesis using 2(2) [OF False e] False by simp
  qed
qed simp

lemma cstr_in_value:
  assumes "bytes_at m str v" and "drop i v = s @ 0 # rest" and "0 \<notin> set s"
  shows "cstr (at m (str + of_nat i)) s"
proof -
  have i: "i + length s < length v" using arg_cong [OF assms(2), of length] by simp
  have "m (str + of_nat i + of_nat j) = (s @ 0 # rest) ! j" if "j \<le> length s" for j
  proof -
    have "i + j < length v" using i that by simp
    then have "m (str + of_nat (i + j)) = v ! (i + j)" using assms(1) unfolding bytes_at_def by blast
    then show ?thesis using arg_cong [OF assms(2), of "\<lambda>x. x ! j"] i that by (simp add: add.assoc)
  qed
  then show ?thesis using assms(3) by (simp add: cstr_def at_def nth_append)
qed

lemma match_from_ok:
  assumes "bytes_at m str v" and "length v < 2 ^ 31" and "CHR 0x00 \<notin> set t" and "length v < fuel"
    and "drop i v = concat (map (\<lambda>s. s @ [0]) ss)" and "\<forall>s\<in>set ss. 0 \<notin> set s" and "i \<le> length v"
    and "length v < i + n"
  shows "match_from n fuel t m str (of_nat (length v)) (of_nat i) = Ret (\<exists>s\<in>set ss. prefix (bytes_of t) s)"
  using assms(5-8)
proof (induction ss arbitrary: i n)
  case Nil
  then show ?case by (cases n) simp_all
next
  case (Cons s ss)
  have d: "drop i v = s @ 0 # concat (map (\<lambda>s. s @ [0]) ss)" using Cons.prems(1) by simp
  have i: "i + length s < length v" using arg_cong [OF d, of length] by simp
  have c: "cstr (at m (str + of_nat i)) s" using cstr_in_value [OF assms(1) d] Cons.prems(2) by simp
  have lt: "(of_nat i :: u32) < of_nat (length v)" using i assms(2) by (simp add: word_less_nat_alt unat_of_nat)
  have uc: "(ucast (of_nat i :: u32) :: u64) = of_nat i" by (rule ucast_of_nat_small) (use i assms(2) in simp)
  have f: "length s < fuel" using i assms(4) by simp
  have len: "kstrlen fuel (at m (str + of_nat i)) = Ret (length s)"
    using strlen_from_ok [OF c, of 0 fuel] f by (simp add: kstrlen_def)
  obtain k where n: "n = Suc k" using Cons.prems i by (cases n) auto
  have rest: "drop (i + length s + 1) v = concat (map (\<lambda>s. s @ [0]) ss)"
    using arg_cong [OF d, of "drop (length s + 1)"] by (simp add: add.commute add.left_commute)
  have eq: "of_nat i + of_nat (length s) + 1 = (of_nat (i + length s + 1) :: u32)" by simp
  have IH: "match_from k fuel t m str (of_nat (length v)) (of_nat (i + length s + 1)) =
      Ret (\<exists>s\<in>set ss. prefix (bytes_of t) s)"
    by (rule Cons.IH [OF rest]) (use Cons.prems i n in simp_all)
  show ?case unfolding n match_from.simps uc kstr_has_prefix_lit [OF c f assms(3)] len bindO.simps eq IH
    using lt by simp
qed

definition compatible_with :: "string \<Rightarrow> u8 list \<Rightarrow> bool" where
  "compatible_with t v \<longleftrightarrow> (\<exists>s\<in>set (strs_of v). prefix (bytes_of t) s)"

lemma dtb_compatible_match_ok:
  assumes "bytes_at m ptr v" and "length v < 2 ^ 31" and "CHR 0x00 \<notin> set t" and "length v < fuel" and "ended v"
  shows "dtb_compatible_match fuel t m ptr (of_nat (length v)) = Ret (compatible_with t v)"
  using match_from_ok [OF assms(1-4), of 0 "strs_of v" fuel] strs_of_ended [OF assms(5)] assms(4)
  by (simp add: dtb_compatible_match_def compatible_with_def)

definition compat_step :: "u8 list \<Rightarrow> mmio_state \<Rightarrow> mmio_state" where
  "compat_step v s =
     set_active 3 (compatible_with ''riscv,plic0'' v \<or> compatible_with ''sifive,plic-1.0.0'' v)
      (set_active 2 (compatible_with ''sifive,clint0'' v \<or> compatible_with ''riscv,clint0'' v)
        (set_active 1 (compatible_with ''ns16550a'' v) s))"

definition reg_step :: "u8 list \<Rightarrow> mmio_state \<Rightarrow> mmio_state" where
  "reg_step v s =
     (if 16 \<le> length v then s\<lparr>dev_base := dword_at v 0, dev_size := dword_at v 8\<rparr>
      else if 8 \<le> length v then s\<lparr>dev_base := word_at v 0, dev_size := word_at v 4\<rparr> else s)"

fun mmio_step :: "dt_token \<Rightarrow> mmio_state \<Rightarrow> mmio_state outcome" where
  "mmio_step (BeginT name) s = Ret (s\<lparr>curr_depth := curr_depth s + 1\<rparr>)"
| "mmio_step EndT s = Ret (mmio_end s)"
| "mmio_step (PropT name v) s = Ret
     (if name = bytes_of ''compatible'' then compat_step v s
      else if name = bytes_of ''reg'' then reg_step v s else s)"
| "mmio_step (OtherT t) s = Ret s"

fun mmio_good :: "dt_token \<Rightarrow> mmio_state \<Rightarrow> bool" where
  "mmio_good (PropT name v) s \<longleftrightarrow> (name = bytes_of ''compatible'' \<longrightarrow> ended v)"
| "mmio_good t s \<longleftrightarrow> True"

lemma mmio_reg_ok:
  assumes "bytes_at m ptr v" and "length v < 2 ^ 31"
  shows "mmio_reg m ptr (of_nat (length v)) s = reg_step v s"
proof -
  have le: "(16 :: u32) \<le> of_nat (length v) \<longleftrightarrow> 16 \<le> length v" "(8 :: u32) \<le> of_nat (length v) \<longleftrightarrow> 8 \<le> length v"
    using u32_le_of_nat [OF _ assms(2), of 16] u32_le_of_nat [OF _ assms(2), of 8] by simp_all
  show ?thesis unfolding mmio_reg_def reg_step_def le
    using be64_dword_at [OF assms(1), of 0] be64_dword_at [OF assms(1), of 8]
      be32_word_at [OF assms(1), of 0] be32_word_at [OF assms(1), of 4]
    by (simp add: word_at_small)
qed

interpretation mmioc: dtb_client mmio_begin mmio_end mmio_prop mmio_step mmio_good
proof (unfold_locales, goal_cases)
  case (3 name v s p fuel m ptr)
  note k = kstrcmp_lit [OF 3(2), of fuel "''compatible''"] kstrcmp_lit [OF 3(2), of fuel "''reg''"]
  have ne: "bytes_of ''compatible'' \<noteq> bytes_of ''reg''" by (simp add: bytes_of_def)
  have f: "length v < fuel" "length name < fuel" using 3(3) by simp_all
  have c: "dtb_compatible_match fuel t m ptr (of_nat (length v)) = Ret (compatible_with t v)"
    if "name = bytes_of ''compatible''" "CHR 0x00 \<notin> set t" for t
    using dtb_compatible_match_ok [OF 3(4,5) that(2) f(1)] 3(1) that(1) by simp
  have e: "match_either fuel t u m ptr (of_nat (length v)) = Ret (compatible_with t v \<or> compatible_with u v)"
    if "name = bytes_of ''compatible''" "CHR 0x00 \<notin> set t" "CHR 0x00 \<notin> set u" for t u
    using c [OF that(1,2)] c [OF that(1,3)] by (simp add: match_either_def)
  have "mmio_compatible fuel m ptr (of_nat (length v)) s = Ret (compat_step v s)" if "name = bytes_of ''compatible''"
    unfolding mmio_compatible_def compat_step_def using that by (simp add: c e Let_def)
  then show ?case unfolding mmio_prop_def using k f ne mmio_reg_ok [OF 3(4,5)] by auto
qed (simp_all add: mmio_begin_def)

end
