(* ===== verification/DtbEncode.thy ===== *)
theory DtbEncode
  imports DtbSpec
begin

text \<open>
  The device tree as a value, and the flattening of a tree into bytes as the device tree format
  defines it (header, structure block, strings block). Memory that holds the bytes of a tree
  holds its tokens, which is what the parsers of \<open>DtbSpec\<close> need.
\<close>

section \<open>Encoding words\<close>

definition be_bytes :: "u32 \<Rightarrow> u8 list" where
  "be_bytes x = [ucast (drop_bit 24 x), ucast (drop_bit 16 x), ucast (drop_bit 8 x), ucast x]"

lemma length_be_bytes [simp]: "length (be_bytes x) = 4"
  by (simp add: be_bytes_def)

lemma be_value_be_bytes: "ucast (be_value (be_bytes x)) = x"
proof (rule bit_word_eqI)
  fix n assume "n < LENGTH(32)"
  then have n: "n < 32" by simp
  have "\<forall>q\<in>{0, 1, 2, 3}. \<forall>r<8. bit (be_bytes x ! (3 - q)) r \<longleftrightarrow> bit x (8 * q + r)"
    by (auto simp: be_bytes_def bit_ucast_iff bit_drop_bit_eq)
  moreover have "n div 8 < 4" using n by linarith
  then have "n div 8 \<in> {0, 1, 2, 3}" by auto
  ultimately have "\<forall>r<8. bit (be_bytes x ! (3 - n div 8)) r \<longleftrightarrow> bit x (8 * (n div 8) + r)"
    by (rule bspec)
  then have "bit (be_bytes x ! (3 - n div 8)) (n mod 8) \<longleftrightarrow> bit x (8 * (n div 8) + n mod 8)"
    by (elim allE [of _ "n mod 8"] impE) simp_all
  then show "bit (ucast (be_value (be_bytes x)) :: u32) n \<longleftrightarrow> bit x n"
    using n bit_be_value [of n "be_bytes x"] by (simp add: bit_ucast_iff)
qed

lemma be32_be_bytes: "bytes_at m a (be_bytes x) \<Longrightarrow> be32 m a = x"
  using be32_bytes [of m a "be_bytes x"] be_value_be_bytes by simp

lemma bytes_at_append: "bytes_at m a (xs @ ys) \<longleftrightarrow> bytes_at m a xs \<and> bytes_at m (a + of_nat (length xs)) ys"
proof
  assume l: "bytes_at m a (xs @ ys)"
  then show "bytes_at m a xs \<and> bytes_at m (a + of_nat (length xs)) ys"
    using bytes_at_sub [OF l, of 0 "length xs"] bytes_at_sub [OF l, of "length xs" "length ys"] by simp
next
  assume r: "bytes_at m a xs \<and> bytes_at m (a + of_nat (length xs)) ys"
  show "bytes_at m a (xs @ ys)" unfolding bytes_at_def
  proof (intro allI impI)
    fix i assume i: "i < length (xs @ ys)"
    show "m (a + of_nat i) = (xs @ ys) ! i"
    proof (cases "i < length xs")
      case False
      then obtain j where j: "i = length xs + j" by (metis le_add_diff_inverse not_less)
      then have "m (a + of_nat (length xs) + of_nat j) = ys ! j" using r i by (simp add: bytes_at_def)
      then show ?thesis by (simp add: j add.assoc)
    qed (use r in \<open>simp add: bytes_at_def nth_append\<close>)
  qed
qed

lemma bytes_at_Nil [simp]: "bytes_at m a []"
  by (simp add: bytes_at_def)

lemma bytes_at_Cons: "bytes_at m a (x # xs) \<longleftrightarrow> m a = x \<and> bytes_at m (a + 1) xs"
  using bytes_at_append [of m a "[x]" xs] by (simp add: bytes_at_def)

section \<open>Encoding tokens\<close>

definition padded :: "u8 list \<Rightarrow> u8 list" where
  "padded xs = xs @ replicate (4 * ((length xs + 3) div 4) - length xs) 0"

lemma length_padded [simp]: "length (padded xs) = 4 * ((length xs + 3) div 4)"
proof -
  have "length xs \<le> 4 * ((length xs + 3) div 4)" by presburger
  then show ?thesis by (simp add: padded_def)
qed

fun enc_tok :: "(u8 list \<Rightarrow> u32) \<Rightarrow> dt_token \<Rightarrow> u8 list" where
  "enc_tok off (BeginT name) = be_bytes 1 @ padded (name @ [0])"
| "enc_tok off EndT = be_bytes 2"
| "enc_tok off (PropT k v) = be_bytes 3 @ be_bytes (of_nat (length v)) @ be_bytes (off k) @ padded v"
| "enc_tok off (OtherT t) = be_bytes t"

lemma length_enc_tok [simp]: "length (enc_tok off t) = tok_size t"
  by (cases t) simp_all

fun tok_ok :: "dt_token \<Rightarrow> bool" where
  "tok_ok (BeginT name) \<longleftrightarrow> 0 \<notin> set name"
| "tok_ok (OtherT t) \<longleftrightarrow> t \<notin> {1, 2, 3}"
| "tok_ok t \<longleftrightarrow> True"

fun tok_key :: "dt_token \<Rightarrow> u8 list list" where
  "tok_key (PropT k v) = [k]"
| "tok_key t = []"

lemma cstr_bytes: "bytes_at m a (s @ [0]) \<Longrightarrow> 0 \<notin> set s \<Longrightarrow> cstr (at m a) s"
  using cstr_in_value [of m a "s @ [0]" 0 s "[]"] by simp

lemma enc_tok_at:
  assumes "bytes_at m a (enc_tok off t)" and "tok_ok t" and "tok_size t < 2 ^ 31"
    and "\<forall>k\<in>set (tok_key t). cstr (at m (strs + ucast (off k))) k"
  shows "tok_at m strs a t"
proof (cases t)
  case (BeginT name)
  have b: "bytes_at m a (be_bytes 1)" "bytes_at m (a + 4) (name @ [0])"
    using assms(1) by (simp_all add: BeginT bytes_at_append bytes_at_Cons padded_def)
  show ?thesis using be32_be_bytes [OF b(1)] cstr_bytes [OF b(2)] assms(2,3) by (simp add: BeginT)
next
  case (PropT k v)
  have b: "bytes_at m a (be_bytes 3)" "bytes_at m (a + 4) (be_bytes (of_nat (length v)))"
      "bytes_at m (a + 8) (be_bytes (off k))" "bytes_at m (a + 12) v"
    using assms(1) by (simp_all add: PropT bytes_at_append padded_def add.assoc)
  show ?thesis using be32_be_bytes [OF b(1)] be32_be_bytes [OF b(2)] be32_be_bytes [OF b(3)] b(4) assms(3,4)
    by (simp add: PropT)
qed (use assms be32_be_bytes in auto)

lemma enc_laid_out:
  assumes "bytes_at m (of_nat a) (concat (map (enc_tok off) ts))" and "\<forall>t\<in>set ts. tok_ok t"
    and "sum_list (map tok_size ts) < 2 ^ 31"
    and "\<forall>k\<in>set (concat (map tok_key ts)). cstr (at m (strs + ucast (off k))) k"
  shows "laid_out m strs a ts (a + sum_list (map tok_size ts))"
  using assms
proof (induction ts arbitrary: a)
  case (Cons t ts)
  have b: "bytes_at m (of_nat a) (enc_tok off t)" "bytes_at m (of_nat (a + tok_size t)) (concat (map (enc_tok off) ts))"
    using Cons.prems(1) by (simp_all add: bytes_at_append)
  have "tok_at m strs (of_nat a) t" by (rule enc_tok_at [OF b(1)]) (use Cons.prems in simp_all)
  moreover have "laid_out m strs (a + tok_size t) ts (a + tok_size t + sum_list (map tok_size ts))"
    by (rule Cons.IH [OF b(2)]) (use Cons.prems in simp_all)
  ultimately show ?case by (simp add: add.assoc)
qed simp

section \<open>Encoding trees\<close>

datatype dt_node = Node "u8 list" "(u8 list \<times> u8 list) list" "dt_node list"

fun tokens_of :: "dt_node \<Rightarrow> dt_token list" where
  "tokens_of (Node name ps cs) =
     BeginT name # map (\<lambda>(k, v). PropT k v) ps @ concat (map tokens_of cs) @ [EndT]"

text \<open>Names and property keys are strings without a terminator inside.\<close>

fun tree_ok :: "dt_node \<Rightarrow> bool" where
  "tree_ok (Node name ps cs) \<longleftrightarrow> 0 \<notin> set name \<and> list_all (\<lambda>(k, v). 0 \<notin> set k) ps \<and> list_all tree_ok cs"

definition strings_block :: "u8 list list \<Rightarrow> u8 list" where
  "strings_block ks = concat (map (\<lambda>k. k @ [0]) ks)"

definition key_offset :: "u8 list list \<Rightarrow> u8 list \<Rightarrow> nat" where
  "key_offset ks k = length (strings_block (takeWhile (\<lambda>x. x \<noteq> k) ks))"

definition keys_of :: "dt_node \<Rightarrow> u8 list list" where
  "keys_of root = remdups (concat (map tok_key (tokens_of root)))"

text \<open>The last token of the structure block is 9, its end; the header has ten words.\<close>

definition blob_tokens :: "dt_node \<Rightarrow> dt_token list" where
  "blob_tokens root = tokens_of root @ [OtherT 9]"

definition struct_block :: "dt_node \<Rightarrow> u8 list" where
  "struct_block root =
     concat (map (enc_tok (\<lambda>k. of_nat (key_offset (keys_of root) k))) (blob_tokens root))"

definition flatten :: "dt_node \<Rightarrow> u8 list" where
  "flatten root =
     (let st = struct_block root; ss = strings_block (keys_of root) in
      be_bytes 0xD00DFEED @ be_bytes (of_nat (40 + length st + length ss)) @ be_bytes 40 @
      be_bytes (of_nat (40 + length st)) @ replicate 20 0 @ be_bytes (of_nat (length st)) @ st @ ss)"

lemma key_in_block:
  assumes "k \<in> set ks"
  shows "\<exists>rest. strings_block ks = strings_block (takeWhile (\<lambda>x. x \<noteq> k) ks) @ (k @ [0]) @ rest"
  using assms
proof (induction ks)
  case (Cons x ks)
  then show ?case by (cases "x = k") (auto simp: strings_block_def)
qed simp

lemma key_at:
  assumes "bytes_at m a (strings_block ks)" and "k \<in> set ks" and "0 \<notin> set k"
  shows "cstr (at m (a + of_nat (key_offset ks k))) k"
proof -
  obtain rest where "strings_block ks = strings_block (takeWhile (\<lambda>x. x \<noteq> k) ks) @ (k @ [0]) @ rest"
    using key_in_block [OF assms(2)] by blast
  with assms(1) have "bytes_at m (a + of_nat (key_offset ks k)) (k @ [0])"
    by (simp add: bytes_at_append bytes_at_Cons key_offset_def)
  then show ?thesis using assms(3) by (rule cstr_bytes)
qed

lemma key_offset_less: "k \<in> set ks \<Longrightarrow> key_offset ks k + length k < length (strings_block ks)"
  using key_in_block [of k ks] by (auto simp: key_offset_def)

lemma tree_ok_tokens:
  "tree_ok t \<Longrightarrow> \<forall>x\<in>set (tokens_of t). tok_ok x \<and> (\<forall>k\<in>set (tok_key x). 0 \<notin> set k)"
proof (induction t)
  case (Node name ps cs)
  have "\<forall>c\<in>set cs. \<forall>x\<in>set (tokens_of c). tok_ok x \<and> (\<forall>k\<in>set (tok_key x). 0 \<notin> set k)"
    using Node by (simp add: list_all_iff)
  then show ?case using Node.prems by (auto simp: list_all_iff)
qed

lemma length_struct_block: "length (struct_block root) = sum_list (map tok_size (blob_tokens root))"
  by (simp add: struct_block_def length_concat o_def)
text \<open>What it takes for a tree to fit into a blob, and memory that holds the blob.\<close>

definition holds_tree :: "memory \<Rightarrow> u64 \<Rightarrow> dt_node \<Rightarrow> bool" where
  "holds_tree m dtb root \<longleftrightarrow> tree_ok root \<and> bytes_at m dtb (flatten root) \<and>
     length (flatten root) < 2 ^ 31 \<and> unat dtb + length (flatten root) < 2 ^ 64"

lemma length_flatten:
  "length (flatten root) = 40 + length (struct_block root) + length (strings_block (keys_of root))"
  by (simp add: flatten_def Let_def)

lemma tokens_le: "sum_list (map tok_size ts) \<le> n \<Longrightarrow> length ts \<le> n"
proof -
  have "length ts \<le> sum_list (map tok_size ts)"
  proof (induction ts)
    case (Cons t ts)
    then show ?case using tok_size_pos [of t] by simp
  qed simp
  then show "sum_list (map tok_size ts) \<le> n \<Longrightarrow> length ts \<le> n" by simp
qed

lemma tok_sizes_dvd: "4 dvd sum_list (map tok_size ts)"
proof (induction ts)
  case (Cons t ts)
  moreover have "4 dvd tok_size t" by (cases t) (simp_all add: dvd_add)
  ultimately show ?case by simp
qed simp

text \<open>The strings a token makes the parsers look at are in the blob, so its length is fuel enough.\<close>

lemma tok_text_size: "tok_text t < tok_size t + (case t of PropT k v \<Rightarrow> length k | _ \<Rightarrow> 0)"
proof (cases t)
  case (BeginT name)
  have "length name < 4 + 4 * ((length name + 4) div 4)" by presburger
  then show ?thesis by (simp add: BeginT)
next
  case (PropT k v)
  have "length v < 12 + 4 * ((length v + 3) div 4)" by presburger
  then show ?thesis by (simp add: PropT)
qed simp_all

lemma flatten_blob:
  assumes "holds_tree m dtb root" and "length (flatten root) \<le> fuel"
  shows "dtb_blob m dtb (blob_tokens root)" and "length (blob_tokens root) \<le> fuel"
    and "\<forall>t\<in>set (blob_tokens root). tok_text t < fuel"
proof -
  define st ss where "st = struct_block root" and "ss = strings_block (keys_of root)"
  define ts where "ts = blob_tokens root"
  have h: "tree_ok root" "bytes_at m dtb (flatten root)" "40 + length st + length ss < 2 ^ 31"
      "unat dtb + (40 + length st + length ss) < 2 ^ 64" "40 + length st + length ss \<le> fuel"
    using assms by (simp_all add: holds_tree_def length_flatten st_def ss_def)
  have size: "sum_list (map tok_size ts) = length st" by (simp add: ts_def st_def length_struct_block)
  have keys: "set (concat (map tok_key ts)) = set (keys_of root)"
    by (simp add: ts_def blob_tokens_def keys_of_def)
  have ok: "\<forall>t\<in>set ts. tok_ok t" "\<forall>k\<in>set (keys_of root). 0 \<notin> set k"
    using tree_ok_tokens [OF h(1)] by (auto simp: ts_def blob_tokens_def keys_of_def)
  have b: "bytes_at m dtb (be_bytes 0xD00DFEED)" "bytes_at m (dtb + 4) (be_bytes (of_nat (40 + length st + length ss)))"
      "bytes_at m (dtb + 8) (be_bytes 40)" "bytes_at m (dtb + 12) (be_bytes (of_nat (40 + length st)))"
      "bytes_at m (dtb + 36) (be_bytes (of_nat (length st)))" "bytes_at m (dtb + 40) st"
      "bytes_at m (dtb + 40 + of_nat (length st)) ss"
    using h(2) by (simp_all add: flatten_def Let_def bytes_at_append add.assoc flip: st_def ss_def)
  note w = be32_be_bytes [OF b(1)] be32_be_bytes [OF b(2)] be32_be_bytes [OF b(3)] be32_be_bytes [OF b(4)]
    be32_be_bytes [OF b(5)]
  show "length (blob_tokens root) \<le> fuel" using tokens_le [of ts fuel] size h(5) by (simp flip: ts_def)
  show "\<forall>t\<in>set (blob_tokens root). tok_text t < fuel"
  proof
    fix t assume "t \<in> set (blob_tokens root)"
    then have t: "t \<in> set ts" by (simp add: ts_def)
    then have "tok_size t \<le> length st" unfolding size [symmetric] by (simp add: member_le_sum_list)
    moreover have "(case t of PropT k v \<Rightarrow> length k | _ \<Rightarrow> 0) \<le> length ss"
    proof (cases t)
      case (PropT k v)
      then have "k \<in> set (keys_of root)" using t unfolding keys [symmetric] by force
      then show ?thesis using key_offset_less [of k "keys_of root"] by (simp add: PropT ss_def)
    qed simp_all
    ultimately show "tok_text t < fuel" using tok_text_size [of t] h(5) by linarith
  qed
  have four: "4 dvd length st" unfolding size [symmetric] by (rule tok_sizes_dvd)
  then obtain q where q: "length st = 4 * q" by (elim dvdE)
  have "unat (of_nat (length st) :: u32) = 4 * q" unfolding q using h(3) q by (simp only: unat_of_nat) simp
  then have "unat ((of_nat (length st) :: u32) div 4) = q" by (simp add: unat_div)
  then have "(of_nat (length st) :: u32) div 4 = of_nat q" by (auto simp: word_unat_eq_iff)
  moreover have "(ucast (of_nat q :: u32) :: u64) = of_nat q" by (rule ucast_of_nat_small) (use h(3) q in simp)
  ultimately have len: "4 * ucast ((of_nat (length st) :: u32) div 4) = (of_nat (length st) :: u64)"
    by (simp add: q)
  have uc: "ucast (of_nat (40 + length st) :: u32) = (of_nat (40 + length st) :: u64)"
      "ucast (of_nat (40 + length st + length ss) :: u32) = (of_nat (40 + length st + length ss) :: u64)"
    by (rule ucast_of_nat_small; use h(3) in simp)+
  have start: "unat (dtb + 40) = unat dtb + 40" "dtb + 40 = of_nat (unat dtb + 40)"
    using h(4) by (simp_all add: unat_word_ariths)
  have stop: "unat (dtb + 40 + of_nat (length st)) = unat dtb + 40 + length st"
    using h(4) by (simp add: unat_word_ariths unat_of_nat)
  have "unat (dtb + of_nat (40 + length st + length ss)) = unat dtb + (40 + length st + length ss)"
    using h(4) by (simp add: unat_word_ariths unat_of_nat)
  then have le: "dtb + 40 + of_nat (length st) \<le> dtb + of_nat (40 + length st + length ss)"
    unfolding word_le_nat_alt stop by simp
  let ?strs = "dtb + of_nat (40 + length st)"
  have strs: "\<forall>k\<in>set (keys_of root). cstr (at m (?strs + ucast (of_nat (key_offset (keys_of root) k) :: u32))) k"
  proof
    fix k assume k: "k \<in> set (keys_of root)"
    have "key_offset (keys_of root) k < 2 ^ 31" using key_offset_less [OF k] h(3) by (simp add: ss_def)
    moreover have "bytes_at m ?strs (strings_block (keys_of root))" using b(7) by (simp add: ss_def add.assoc)
    ultimately show "cstr (at m (?strs + ucast (of_nat (key_offset (keys_of root) k) :: u32))) k"
      using key_at [OF _ k] ok(2) k by (simp add: ucast_of_nat_small)
  qed
  have "laid_out m ?strs (unat dtb + 40) ts (unat dtb + 40 + sum_list (map tok_size ts))"
  proof (rule enc_laid_out)
    show "bytes_at m (of_nat (unat dtb + 40)) (concat (map (enc_tok (\<lambda>k. of_nat (key_offset (keys_of root) k))) ts))"
      using b(6) unfolding start(2) [symmetric] by (simp add: st_def struct_block_def ts_def)
    show "sum_list (map tok_size ts) < 2 ^ 31" using size h(3) by simp
  qed (use ok strs keys in simp_all)
  then have "laid_out m ?strs (unat dtb + 40) ts (unat dtb + 40 + length st)" unfolding size .
  moreover have "ucast (40 :: u32) = (40 :: u64)" by simp
  ultimately show "dtb_blob m dtb (blob_tokens root)"
    unfolding dtb_blob_def Let_def w len uc ts_def by (simp only: stop start(1) le simp_thms)
qed

end
