(* ===== verification/DtbTree.thy ===== *)
theory DtbTree
  imports DtbEncode
begin

text \<open>
  The parsers as functions of the device tree. Two interfaces cover four parsers: a
  \<open>node_parser\<close> acts on one property of the nodes its name test selects (RAM and interrupt
  context), a \<open>cpus_parser\<close> acts on the nodes and properties of the cpus node (time base and
  harts).
\<close>

section \<open>Runs\<close>

lemma forO_Ret: "(\<And>x s. x \<in> set xs \<Longrightarrow> body x s = Ret (g x s)) \<Longrightarrow> forO xs body s = Ret (fold g xs s)"
  by (induction xs arbitrary: s) simp_all

lemma run_good_append: "run_good step good (xs @ ys) s \<longleftrightarrow>
   run_good step good xs s \<and> (case forO xs step s of Ret s' \<Rightarrow> run_good step good ys s' | _ \<Rightarrow> True)"
  by (induction xs arbitrary: s) (auto split: outcome.splits)

lemma run_good_True: "run_good step (\<lambda>_ _. True) ts s"
  by (induction ts arbitrary: s) (auto split: outcome.splits)

section \<open>Parsers of one property of selected nodes\<close>

text \<open>The values of a property in the nodes whose name is selected, in the order of the blob.\<close>

definition own_values :: "u8 list \<Rightarrow> (u8 list \<times> u8 list) list \<Rightarrow> u8 list list" where
  "own_values key ps = map snd (filter (\<lambda>(k, v). k = key) ps)"

fun named_values :: "(u8 list \<Rightarrow> bool) \<Rightarrow> u8 list \<Rightarrow> dt_node \<Rightarrow> u8 list list" where
  "named_values sel key (Node name ps cs) =
     (if sel name then own_values key ps else []) @ concat (map (named_values sel key) cs)"

locale node_parser =
  fixes sel :: "u8 list \<Rightarrow> bool" and key :: "u8 list" and act :: "u8 list \<Rightarrow> 'b \<Rightarrow> 'b outcome"
    and ok :: "u8 list \<Rightarrow> bool" and step :: "dt_token \<Rightarrow> bool \<times> 'b \<Rightarrow> (bool \<times> 'b) outcome"
    and good :: "dt_token \<Rightarrow> bool \<times> 'b \<Rightarrow> bool"
  assumes step_begin: "step (BeginT name) (i, b) = Ret (sel name, b)"
    and step_end: "step EndT s = Ret s"
    and step_other: "step (OtherT t) s = Ret s"
    and step_prop: "step (PropT k v) (i, b) =
      bindO (if i \<and> k = key then act v b else Ret b) (\<lambda>b. Ret (i, b))"
    and good_prop: "good (PropT k v) (i, b) \<longleftrightarrow> (i \<and> k = key \<longrightarrow> ok v)"
    and good_else: "good (BeginT name) s" "good EndT s" "good (OtherT t) s"
begin

lemmas steps = step_begin step_end step_other step_prop good_prop good_else

lemma props_run:
  "forO (map (\<lambda>(k, v). PropT k v) ps) step (i, b) =
     bindO (forO (if i then own_values key ps else []) act b) (\<lambda>b. Ret (i, b))"
proof (induction ps arbitrary: b)
  case (Cons p ps)
  then show ?case by (cases p; cases i) (simp_all add: steps own_values_def bindO_assoc)
qed (simp add: own_values_def)

lemma props_good:
  "\<forall>v\<in>set (if i then own_values key ps else []). ok v \<Longrightarrow>
     run_good step good (map (\<lambda>(k, v). PropT k v) ps) (i, b)"
  by (induction ps arbitrary: b) (auto simp: steps own_values_def split: outcome.splits if_splits)

lemma tree_run:
  "\<exists>j. \<forall>b. forO (tokens_of t) step (i, b) = bindO (forO (named_values sel key t) act b) (\<lambda>b. Ret (j, b))"
proof (induction t arbitrary: i)
  case (Node name ps cs)
  have "\<exists>j. \<forall>b. forO (concat (map tokens_of cs)) step (i, b) =
      bindO (forO (concat (map (named_values sel key) cs)) act b) (\<lambda>b. Ret (j, b))" for i
    using Node
  proof (induction cs arbitrary: i)
    case (Cons c cs)
    obtain j where j: "\<forall>b. forO (tokens_of c) step (i, b) = bindO (forO (named_values sel key c) act b) (\<lambda>b. Ret (j, b))"
      using Cons.prems [of c i] by auto
    obtain l where "\<forall>b. forO (concat (map tokens_of cs)) step (j, b) =
        bindO (forO (concat (map (named_values sel key) cs)) act b) (\<lambda>b. Ret (l, b))"
      using Cons.IH [of j] Cons.prems by auto
    then show ?case by (intro exI [of _ l]) (simp add: forO_append j bindO_assoc)
  qed auto
  from this [of "sel name"] obtain j where "\<forall>b. forO (concat (map tokens_of cs)) step (sel name, b) =
      bindO (forO (concat (map (named_values sel key) cs)) act b) (\<lambda>b. Ret (j, b))" by blast
  then show ?case
    by (intro exI [of _ j]) (simp add: forO_append steps props_run bindO_assoc)
qed

lemma children_good:
  assumes "\<forall>c\<in>set cs. \<forall>i b. run_good step good (tokens_of c) (i, b)"
  shows "run_good step good (concat (map tokens_of cs) @ [EndT]) (i, b)"
  using assms
  by (induction cs arbitrary: i b) (auto simp: run_good_append steps split: outcome.splits)

lemma tree_good:
  "\<forall>v\<in>set (named_values sel key t). ok v \<Longrightarrow> run_good step good (tokens_of t) (i, b)"
proof (induction t arbitrary: i b)
  case (Node name ps cs)
  have "\<forall>c\<in>set cs. \<forall>i b. run_good step good (tokens_of c) (i, b)"
    by (intro ballI allI Node.IH) (use Node.prems in auto)
  then have "run_good step good (concat (map tokens_of cs) @ [EndT]) (i, b)" for i b
    by (rule children_good)
  moreover have "run_good step good (map (\<lambda>(k, v). PropT k v) ps) (sel name, b)"
    by (rule props_good) (use Node.prems in auto)
  ultimately show ?case by (auto simp: run_good_append steps split: outcome.splits)
qed

lemma blob_run:
  "bindO (forO (blob_tokens t) step (i, b)) (\<lambda>(_, b). Ret b) = forO (named_values sel key t) act b"
proof -
  obtain j where "\<forall>b. forO (tokens_of t) step (i, b) = bindO (forO (named_values sel key t) act b) (\<lambda>b. Ret (j, b))"
    using tree_run by blast
  then show ?thesis by (simp add: blob_tokens_def forO_append steps bindO_assoc)
qed

lemma blob_good: "\<forall>v\<in>set (named_values sel key t). ok v \<Longrightarrow> run_good step good (blob_tokens t) (i, b)"
  using tree_good [of t i b] by (auto simp: blob_tokens_def run_good_append steps split: outcome.splits)

end

definition set_ram :: "u8 list \<Rightarrow> board \<Rightarrow> board" where
  "set_ram v b = b\<lparr>ram := \<lparr>base_addr = dword_at v 0, total_size = dword_at v 8\<rparr>\<rparr>"

interpretation ramn: node_parser "prefix (bytes_of ''memory'')" "bytes_of ''reg''"
  "\<lambda>v b. Ret (set_ram v b)" "\<lambda>v. 16 \<le> length v" ram_step ram_good
  by unfold_locales (simp_all add: set_ram_def)

text \<open>The first pair of a value whose second word is 9.\<close>

definition first_context :: "u8 list \<Rightarrow> nat option" where
  "first_context v = find (\<lambda>i. word_at v (8 * i + 4) = 9) [0..<length v div 8]"

definition set_context :: "u8 list \<Rightarrow> board \<Rightarrow> board outcome" where
  "set_context v b = (case first_context v of
     Some i \<Rightarrow> Ret (b\<lparr>context_idx := of_nat i\<rparr>) | None \<Rightarrow> Panic 117 0)"

interpretation contextn: node_parser "prefix (bytes_of ''plic@'')" "bytes_of ''interrupts-extended''"
  set_context "\<lambda>v. True" context_step "\<lambda>_ _. True"
  by unfold_locales (simp_all add: set_context_def first_context_def split: option.splits)

section \<open>Parsers of the cpus node\<close>

definition is_cpus :: "u8 list \<Rightarrow> bool" where
  "is_cpus name \<longleftrightarrow> prefix (bytes_of ''cpus'') name"

text \<open>A cpus node has no cpus node below it.\<close>

fun no_cpus :: "dt_node \<Rightarrow> bool" where
  "no_cpus (Node name ps cs) \<longleftrightarrow> \<not> is_cpus name \<and> list_all no_cpus cs"

fun flat_cpus :: "dt_node \<Rightarrow> bool" where
  "flat_cpus (Node name ps cs) \<longleftrightarrow> (if is_cpus name then list_all no_cpus cs else list_all flat_cpus cs)"

text \<open>What happens inside a cpus node: names of the nodes below it, and all properties.\<close>

datatype cpus_event = NameE "u8 list" | PropE "u8 list" "u8 list"

fun cpus_events :: "bool \<Rightarrow> dt_node \<Rightarrow> cpus_event list" where
  "cpus_events inside (Node name ps cs) =
     (if inside \<and> \<not> is_cpus name then [NameE name] else []) @
     (if inside \<or> is_cpus name then map (\<lambda>(k, v). PropE k v) ps else []) @
     concat (map (cpus_events (inside \<or> is_cpus name)) cs)"

locale cpus_parser =
  fixes event :: "cpus_event \<Rightarrow> 'b \<Rightarrow> 'b" and ok :: "cpus_event \<Rightarrow> bool"
    and step :: "dt_token \<Rightarrow> nat \<times> 'b \<Rightarrow> (nat \<times> 'b) outcome"
    and good :: "dt_token \<Rightarrow> nat \<times> 'b \<Rightarrow> bool"
  assumes step_begin: "step (BeginT name) (d, b) = Ret
      (if is_cpus name then (1, b) else if d > 0 then (d + 1, event (NameE name) b) else (d, b))"
    and step_end: "step EndT (d, b) = Ret (d - 1, b)"
    and step_prop: "step (PropT k v) (d, b) = Ret (d, if d > 0 then event (PropE k v) b else b)"
    and step_other: "step (OtherT t) s = Ret s"
    and good_prop: "ok (PropE k v) \<or> d = 0 \<Longrightarrow> good (PropT k v) (d, b)"
    and good_else: "good (BeginT name) s" "good EndT s" "good (OtherT t) s"
begin

lemmas steps = step_begin step_end step_other step_prop good_else

lemma props_run:
  "forO (map (\<lambda>(k, v). PropT k v) ps) step (d, b) =
     Ret (d, fold event (if d > 0 then map (\<lambda>(k, v). PropE k v) ps else []) b)"
  by (induction ps arbitrary: b) (auto simp: steps)

lemma props_good:
  "\<forall>(k, v)\<in>set ps. ok (PropE k v) \<or> d = 0 \<Longrightarrow> run_good step good (map (\<lambda>(k, v). PropT k v) ps) (d, b)"
  by (induction ps arbitrary: b) (auto simp: steps intro!: good_prop)

text \<open>The run of a subtree from depth \<open>d\<close>: its events happen and the depth is restored.\<close>

definition runs :: "nat \<Rightarrow> dt_node \<Rightarrow> bool" where
  "runs d t \<longleftrightarrow> (\<forall>b. forO (tokens_of t) step (d, b) = Ret (d, fold event (cpus_events (d > 0) t) b) \<and>
     run_good step good (tokens_of t) (d, b))"

lemma children_run:
  "\<forall>c\<in>set cs. runs d c \<Longrightarrow>
     forO (concat (map tokens_of cs)) step (d, b) = Ret (d, fold event (concat (map (cpus_events (d > 0)) cs)) b) \<and>
     run_good step good (concat (map tokens_of cs)) (d, b)"
  by (induction cs arbitrary: b) (simp_all add: forO_append run_good_append runs_def)

lemma inside_run: "no_cpus t \<Longrightarrow> 0 < d \<Longrightarrow> \<forall>e\<in>set (cpus_events True t). ok e \<Longrightarrow> runs d t"
proof (induction t arbitrary: d)
  case (Node name ps cs)
  have "\<forall>c\<in>set cs. runs (Suc d) c"
    by (intro ballI Node.IH) (use Node.prems in \<open>auto simp: list_all_iff\<close>)
  note c = children_run [OF this]
  have "run_good step good (map (\<lambda>(k, v). PropT k v) ps) (Suc d, b)" for b
    by (rule props_good) (use Node.prems in \<open>auto simp: image_iff\<close>)
  then show ?case using Node.prems c
    by (simp add: runs_def forO_append run_good_append steps props_run)
qed

lemma outside_run: "flat_cpus t \<Longrightarrow> \<forall>e\<in>set (cpus_events False t). ok e \<Longrightarrow> runs 0 t"
proof (induction t)
  case (Node name ps cs)
  show ?case
  proof (cases "is_cpus name")
    case True
    have "\<forall>c\<in>set cs. runs 1 c"
      by (intro ballI inside_run) (use Node.prems True in \<open>auto simp: list_all_iff\<close>)
    note c = children_run [OF this]
    have "run_good step good (map (\<lambda>(k, v). PropT k v) ps) (Suc 0, b)" for b
      by (rule props_good) (use Node.prems True in \<open>auto simp: image_iff\<close>)
    then show ?thesis using c True
      by (simp add: runs_def forO_append run_good_append steps props_run)
  next
    case False
    have "\<forall>c\<in>set cs. runs 0 c"
      by (intro ballI Node.IH) (use Node.prems False in \<open>auto simp: list_all_iff\<close>)
    note c = children_run [OF this]
    have "run_good step good (map (\<lambda>(k, v). PropT k v) ps) (0, b)" for b
      by (rule props_good) auto
    then show ?thesis using c False
      by (simp add: runs_def forO_append run_good_append steps props_run)
  qed
qed

lemma blob_run:
  assumes "flat_cpus t" and "\<forall>e\<in>set (cpus_events False t). ok e"
  shows "forO (blob_tokens t) step (0, b) = Ret (0, fold event (cpus_events False t) b)"
    and "run_good step good (blob_tokens t) (0, b)"
  using outside_run [OF assms]
  by (simp_all add: blob_tokens_def forO_append run_good_append runs_def steps)

end
definition set_time :: "u8 list \<Rightarrow> board \<Rightarrow> board" where
  "set_time v b = b\<lparr>timebase_freq := if length v = 8 then dword_at v 0 else word_at v 0\<rparr>"

definition time_key :: "u8 list" where
  "time_key = bytes_of ''timebase-frequency''"

fun time_event :: "cpus_event \<Rightarrow> board \<Rightarrow> board" where
  "time_event (NameE name) b = b"
| "time_event (PropE k v) b = (if k = time_key then set_time v b else b)"

fun time_ok :: "cpus_event \<Rightarrow> bool" where
  "time_ok (NameE name) \<longleftrightarrow> True"
| "time_ok (PropE k v) \<longleftrightarrow> (k = time_key \<longrightarrow> 4 \<le> length v)"

interpretation timen: cpus_parser time_event time_ok time_step time_good
  by unfold_locales (auto simp: is_cpus_def time_key_def set_time_def)

definition add_harts :: "nat \<Rightarrow> board \<Rightarrow> board" where
  "add_harts n b = b\<lparr>harts := harts b + of_nat n\<rparr>"

fun hart_event :: "cpus_event \<Rightarrow> board \<Rightarrow> board" where
  "hart_event (NameE name) b = (if prefix (bytes_of ''cpu@'') name then add_harts 1 b else b)"
| "hart_event (PropE k v) b = b"

interpretation hartn: cpus_parser hart_event "\<lambda>e. True" hart_step "\<lambda>_ _. True"
  by unfold_locales (auto simp: is_cpus_def add_harts_def)

text \<open>The nodes named \<open>cpu@...\<close> below a cpus node, and the values of the time base in one.\<close>

fun harts_in :: "bool \<Rightarrow> dt_node \<Rightarrow> nat" where
  "harts_in inside (Node name ps cs) =
     (if inside \<and> \<not> is_cpus name \<and> prefix (bytes_of ''cpu@'') name then 1 else 0) +
     sum_list (map (harts_in (inside \<or> is_cpus name)) cs)"

fun times_in :: "bool \<Rightarrow> dt_node \<Rightarrow> u8 list list" where
  "times_in inside (Node name ps cs) =
     (if inside \<or> is_cpus name then own_values time_key ps else []) @
     concat (map (times_in (inside \<or> is_cpus name)) cs)"

lemma add_harts_add: "add_harts n (add_harts k b) = add_harts (k + n) b"
  by (simp add: add_harts_def)

lemma add_harts_0 [simp]: "add_harts 0 b = b"
  by (simp add: add_harts_def)

lemma hart_props: "fold hart_event (map (\<lambda>(k, v). PropE k v) ps) b = b"
  by (induction ps) auto

lemma hart_events: "fold hart_event (cpus_events inside t) b = add_harts (harts_in inside t) b"
proof (induction t arbitrary: inside b)
  case (Node name ps cs)
  have "fold hart_event (concat (map (cpus_events i) cs)) b = add_harts (sum_list (map (harts_in i) cs)) b" for i b
    using Node
  proof (induction cs arbitrary: b)
    case (Cons c cs)
    then show ?case by (simp add: add_harts_add)
  qed simp
  then show ?case by (simp add: hart_props add_harts_add)
qed

lemma time_props: "fold time_event (map (\<lambda>(k, v). PropE k v) ps) b = fold set_time (own_values time_key ps) b"
  by (induction ps arbitrary: b) (auto simp: own_values_def)

lemma time_events: "fold time_event (cpus_events inside t) b = fold set_time (times_in inside t) b"
proof (induction t arbitrary: inside b)
  case (Node name ps cs)
  have "fold time_event (concat (map (cpus_events i) cs)) b = fold set_time (concat (map (times_in i) cs)) b" for i b
    using Node by (induction cs arbitrary: b) simp_all
  then show ?case by (simp add: time_props)
qed

lemma set_own_values: "v \<in> set (own_values key ps) \<longleftrightarrow> (key, v) \<in> set ps"
  by (force simp: own_values_def)

lemma time_ok_events:
  "\<forall>v\<in>set (times_in inside t). 4 \<le> length v \<Longrightarrow> \<forall>e\<in>set (cpus_events inside t). time_ok e"
proof (induction t arbitrary: inside)
  case (Node name ps cs)
  have "\<forall>c\<in>set cs. \<forall>e\<in>set (cpus_events (inside \<or> is_cpus name) c). time_ok e"
    by (intro ballI Node.IH [THEN bspec]) (use Node.prems in auto)
  moreover have "\<forall>(k, v)\<in>set ps. time_ok (PropE k v)" if "inside \<or> is_cpus name"
    using Node.prems that by (auto simp: set_own_values)
  ultimately show ?case by auto
qed

end
