(* ===== verification/DtbResult.thy ===== *)
theory DtbResult
  imports DtbTree
begin

text \<open>
  What the parsers of \<open>kernel/dtb.c\<close> compute on memory that holds the flattened bytes of a
  device tree, whatever the tree.
\<close>

section \<open>A board\<close>

definition demo_tree :: dt_node where
  "demo_tree = Node [] []
    [Node (bytes_of ''cpus'') [(bytes_of ''timebase-frequency'', [0, 152, 150, 128])]
      [Node (bytes_of ''cpu@0'') [(bytes_of ''reg'', [0, 0, 0, 0])] [], Node (bytes_of ''cpu@1'') [] []],
     Node (bytes_of ''memory@80000000'')
      [(bytes_of ''reg'', [0, 0, 0, 0, 128, 0, 0, 0, 0, 0, 0, 0, 8, 0, 0, 0])] [],
     Node (bytes_of ''plic@c000000'')
      [(bytes_of ''interrupts-extended'', [0, 0, 0, 1, 0, 0, 0, 11, 0, 0, 0, 1, 0, 0, 0, 9]),
       (bytes_of ''compatible'', bytes_of ''riscv,plic0'' @ [0]),
       (bytes_of ''reg'', [12, 0, 0, 0, 0, 96, 0, 0])] []]"

definition demo_mem :: memory where
  "demo_mem a = (let i = unat (a - 0x1000) in
     if i < length (flatten demo_tree) then flatten demo_tree ! i else 0)"

lemma demo_length: "length (flatten demo_tree) \<le> 400"
proof -
  have "sum_list (map tok_size (blob_tokens demo_tree)) \<le> 280" by code_simp
  moreover have "length (strings_block (keys_of demo_tree)) \<le> 60" by code_simp
  ultimately show ?thesis unfolding length_flatten length_struct_block by linarith
qed

lemma demo_holds: "holds_tree demo_mem 0x1000 demo_tree"
proof -
  have "tree_ok demo_tree" by code_simp
  moreover have "bytes_at demo_mem 0x1000 (flatten demo_tree)"
    using demo_length by (simp add: bytes_at_def demo_mem_def unat_of_nat)
  ultimately show ?thesis using demo_length by (simp add: holds_tree_def)
qed

section \<open>Byte order\<close>

text \<open>
  \<open>kswap_endian\<close> undoes itself, and reading a word from memory that holds its big-endian
  bytes gives the word back.
\<close>

theorem endian_roundtrip:
  "kswap_endian (kswap_endian x) = x \<and>
   be32 (\<lambda>a. if a - p < 4 then be_bytes x ! unat (a - p) else 0) p = x"
proof
  show "kswap_endian (kswap_endian x) = x"
  proof (rule bit_word_eqI)
    fix n assume "n < LENGTH(32)"
    then have n: "n < 32" by simp
    define j where "j = 8 * (3 - n div 8) + n mod 8"
    have "n div 8 < 4" using n by linarith
    then have j: "j < 32" "j div 8 = 3 - n div 8" "j mod 8 = n mod 8"
      unfolding j_def by (simp_all add: less_mult_imp_div_less)
    have "8 * (3 - j div 8) + j mod 8 = 8 * (n div 8) + n mod 8" using \<open>n div 8 < 4\<close> unfolding j(2,3) by simp
    also have "\<dots> = n" by simp
    finally have "8 * (3 - j div 8) + j mod 8 = n" .
    then show "bit (kswap_endian (kswap_endian x)) n = bit x n"
      using bit_kswap_endian [OF n, of "kswap_endian x"] bit_kswap_endian [OF j(1), of x]
      unfolding j_def [symmetric] by simp
  qed
next
  show "be32 (\<lambda>a. if a - p < 4 then be_bytes x ! unat (a - p) else 0) p = x"
    by (rule be32_be_bytes) (simp add: bytes_at_def word_less_nat_alt unat_of_nat)
qed

section \<open>The parsers\<close>

text \<open>
  C32. Counting harts: on the blob \<open>flatten\<close> writes for any tree in which no cpus node is inside another, the number
  of harts grows by the nodes named \<open>cpu@...\<close> below a cpus node, at any depth, and nothing
  else of the board changes.
\<close>

theorem hart_parser_correct:
  assumes "holds_tree m dtb root" and "length (flatten root) \<le> fuel" and "flat_cpus root"
  shows "dtb_parser_hart fuel m dtb b = Ret (b\<lparr>harts := harts b + of_nat (harts_in False root)\<rparr>)"
proof -
  note fb = flatten_blob [OF assms(1,2)]
  show ?thesis
    using hartc.parse_tokens [OF fb, of "(0, b)"] hartn.blob_run [OF assms(3)]
    by (simp add: dtb_parser_hart_def hart_events add_harts_def)
qed

theorem hart_parser_correct_witness:
  "\<forall>b. dtb_parser_hart 400 demo_mem 0x1000 b = Ret (b\<lparr>harts := harts b + 2\<rparr>)"
proof -
  have "flat_cpus demo_tree" by code_simp
  moreover have "harts_in False demo_tree = 2" by code_simp
  ultimately show ?thesis
    using hart_parser_correct [OF demo_holds demo_length] by simp
qed

text \<open>
  Finding RAM: on a blob of any tree whose memory nodes have \<open>reg\<close> values of at least two
  double words, base and size of RAM are those of the last \<open>reg\<close> of a node named \<open>memory...\<close>,
  read big-endian; the \<open>reg\<close> of other nodes and the rest of the board play no part.
\<close>

theorem ram_parser_correct:
  assumes "holds_tree m dtb root" and "length (flatten root) \<le> fuel"
    and "\<forall>v\<in>set (named_values (prefix (bytes_of ''memory'')) (bytes_of ''reg'') root). 16 \<le> length v"
  shows "dtb_parser_ram fuel m dtb b =
    (let vs = named_values (prefix (bytes_of ''memory'')) (bytes_of ''reg'') root in
     Ret (if vs = [] then b
       else b\<lparr>ram := \<lparr>base_addr = be_value (take 8 (last vs)), total_size = be_value (take 8 (drop 8 (last vs)))\<rparr>\<rparr>))"
proof -
  note fb = flatten_blob [OF assms(1,2)]
  have last: "fold set_ram vs b = (if vs = [] then b
      else b\<lparr>ram := \<lparr>base_addr = be_value (take 8 (last vs)), total_size = be_value (take 8 (drop 8 (last vs)))\<rparr>\<rparr>)" for vs
    by (induction vs arbitrary: b) (auto simp: set_ram_def dword_at_def)
  show ?thesis
    using ramc.parse_tokens [OF fb ramn.blob_good [OF assms(3)], of False b]
      ramn.blob_run [of root False b] forO_Ret [of _ "\<lambda>v b. Ret (set_ram v b)" set_ram]
    by (simp add: dtb_parser_ram_def last Let_def)
qed

theorem ram_parser_correct_witness:
  "\<forall>b. dtb_parser_ram 400 demo_mem 0x1000 b = Ret (b\<lparr>ram := \<lparr>base_addr = 0x80000000, total_size = 0x8000000\<rparr>\<rparr>)"
proof -
  have vs: "named_values (prefix (bytes_of ''memory'')) (bytes_of ''reg'') demo_tree =
      [[0, 0, 0, 0, 128, 0, 0, 0, 0, 0, 0, 0, 8, 0, 0, 0]]" by code_simp
  then show ?thesis
    using ram_parser_correct [OF demo_holds demo_length] by (simp add: Let_def)
qed

text \<open>
  C33. The supervisor context of the interrupt controller, on the blob \<open>flatten\<close> writes for any tree: for every \<open>interrupts-extended\<close> value
  of a node named \<open>plic@...\<close>, in the order of the blob, the parser stores the index of the
  first pair whose second word is 9, and panics with code 117 at the first value that has none;
  it reads no byte past a value and never hangs.
\<close>

theorem context_parser_correct:
  assumes "holds_tree m dtb root" and "length (flatten root) \<le> fuel"
  shows "dtb_parser_context fuel m dtb b =
    forO (named_values (prefix (bytes_of ''plic@'')) (bytes_of ''interrupts-extended'') root)
      (\<lambda>v b. case find (\<lambda>i. be_value (take 4 (drop (8 * i + 4) v)) = 9) [0..<length v div 8] of
         Some i \<Rightarrow> Ret (b\<lparr>context_idx := of_nat i\<rparr>) | None \<Rightarrow> Panic 117 0) b"
proof -
  note fb = flatten_blob [OF assms]
  have act: "set_context = (\<lambda>v b. case find (\<lambda>i. be_value (take 4 (drop (8 * i + 4) v)) = 9) [0..<length v div 8] of
         Some i \<Rightarrow> Ret (b\<lparr>context_idx := of_nat i\<rparr>) | None \<Rightarrow> Panic 117 0)"
    by (simp add: set_context_def first_context_def word_at_def fun_eq_iff)
  show ?thesis
    using contextc.parse_tokens [OF fb run_good_True, of "(False, b)"] contextn.blob_run [of root False b]
    by (simp add: dtb_parser_context_def act)
qed

theorem context_parser_correct_witness:
  "\<forall>b. dtb_parser_context 400 demo_mem 0x1000 b = Ret (b\<lparr>context_idx := 1\<rparr>)"
proof -
  have "named_values (prefix (bytes_of ''plic@'')) (bytes_of ''interrupts-extended'') demo_tree =
      [[0, 0, 0, 1, 0, 0, 0, 11, 0, 0, 0, 1, 0, 0, 0, 9]]" by code_simp
  moreover have "find (\<lambda>i. be_value (take 4 (drop (8 * i + 4) [0, 0, 0, 1, 0, 0, 0, 11, 0, 0, 0, 1, 0, 0, 0, 9])) = 9)
      [0..<2] = Some 1" by code_simp
  ultimately show ?thesis
    using context_parser_correct [OF demo_holds demo_length] by simp
qed

text \<open>
  The time base: on a blob of any tree in which no cpus node is inside another, the
  frequency is the last \<open>timebase-frequency\<close> in a cpus node or below it, one word or, when the
  value has eight bytes, a double word.
\<close>

theorem time_parser_correct:
  assumes "holds_tree m dtb root" and "length (flatten root) \<le> fuel" and "flat_cpus root"
    and "\<forall>v\<in>set (times_in False root). 4 \<le> length v"
  shows "dtb_parser_time fuel m dtb b =
    (let vs = times_in False root; v = last vs in
     Ret (if vs = [] then b else b\<lparr>timebase_freq := be_value (take (if length v = 8 then 8 else 4) v)\<rparr>))"
proof -
  note fb = flatten_blob [OF assms(1,2)]
  have last: "fold set_time vs b = (if vs = [] then b else
      b\<lparr>timebase_freq := be_value (take (if length (last vs) = 8 then 8 else 4) (last vs))\<rparr>)" for vs
    by (induction vs arbitrary: b) (auto simp: set_time_def dword_at_def word_at_def)
  note r = timen.blob_run [OF assms(3) time_ok_events [OF assms(4)]]
  show ?thesis
    using timec.parse_tokens [OF fb r(2), of b] r(1) [of b]
    by (simp add: dtb_parser_time_def time_events last Let_def)
qed

theorem time_parser_correct_witness:
  "\<forall>b. dtb_parser_time 400 demo_mem 0x1000 b = Ret (b\<lparr>timebase_freq := 10000000\<rparr>)"
proof -
  have "flat_cpus demo_tree" by code_simp
  moreover have "times_in False demo_tree = [[0, 152, 150, 128]]" by code_simp
  ultimately show ?thesis
    using time_parser_correct [OF demo_holds demo_length] by (simp add: Let_def)
qed

end
