(* ===== verification/LifeSpec.thy ===== *)
theory LifeSpec
  imports LifeOk SchedSpec
begin

text \<open>
  The properties of the life cycle: exiting, reaping, process ids and the protection of loaded
  segments.
\<close>

section \<open>Exit\<close>

text \<open>Every process that the exiting process can find: on its hart's circles and on the lists.\<close>

definition in_reach :: "layout_of \<Rightarrow> u64 \<Rightarrow> u64 set" where
  "in_reach L r = on_queue L r \<union> (\<Union>w. set (L (OnList w)))"

lemma UN_wlist: "(\<Union>w. f w) = f Blocked \<union> f Zombie \<union> f Sleeping \<union> f BlockedIpc \<union> f BlockedIpcSend"
proof
  show "(\<Union>w. f w) \<subseteq> f Blocked \<union> f Zombie \<union> f Sleeping \<union> f BlockedIpc \<union> f BlockedIpcSend"
  proof
    fix x assume "x \<in> (\<Union>w. f w)"
    then obtain w where "x \<in> f w" by blast
    then show "x \<in> f Blocked \<union> f Zombie \<union> f Sleeping \<union> f BlockedIpc \<union> f BlockedIpcSend" by (cases w) simp_all
  qed
qed blast

lemma in_reach_leave:
  assumes "i < 32" and "p \<in> set (L (OnQueue r i))" and "distinct (L (OnQueue r i))"
  shows "in_reach (leave_for r i w p L) r = in_reach L r"
proof -
  have "on_queue (leave_for r i w p L) r \<union> {p} = on_queue L r"
    using assms by (auto simp: on_queue_def leave_for_def split: if_splits)
  moreover have "p \<in> on_queue L r" using assms(1,2) by (auto simp: on_queue_def)
  moreover have "(\<Union>v. set (leave_for r i w p L (OnList v))) = insert p (\<Union>v. set (L (OnList v)))"
    by (auto simp: leave_for_def split: if_splits)
  ultimately show ?thesis by (auto simp: in_reach_def)
qed

lemma exit_orphans:
  assumes "calm s" and "placed s Q L" and "tp s \<in> Q" and "\<exists>j<hart s. closet_rq s j \<noteq> 0"
    and "\<And>x. length (L x) \<le> walk_fuel" and "n = pid (procs s (curr s))"
  shows "bindO (forO [0..<hart s] orphan_circles s)
    (\<lambda>s. bindO (forO [Blocked, Zombie, Sleeping, BlockedIpc, BlockedIpcSend] orphan_list s)
      (\<lambda>s. Ret (trigger_software_interrupt s))) =
    Ret (trigger_software_interrupt (reparent (in_reach L (tp s)) n s))"
proof -
  let ?B = "\<lambda>j. if closet_rq s j = 0 then {} else on_queue L (tp s)"
  have "(\<Union>j\<in>set [0..<hart s]. ?B j) = on_queue L (tp s)" using assms(4) by (auto split: if_splits)
  then have 1: "forO [0..<hart s] orphan_circles s = Ret (reparent (on_queue L (tp s)) n s)"
    using forO_reparent [of "[0..<hart s]" orphan_circles n s ?B "{}"]
      orphan_circles_ok [OF assms(1-3,5,6)] by simp
  let ?ws = "[Blocked, Zombie, Sleeping, BlockedIpc, BlockedIpcSend]"
  have "orphan_list w (reparent A n s) = Ret (reparent (A \<union> set (L (OnList w))) n s)" for w A
    by (rule orphan_list_ok [OF assms(1) placedD(1) [OF assms(2)] assms(5,6)]) simp
  then have "forO ?ws orphan_list (reparent A n s) = Ret (reparent (A \<union> (\<Union>w\<in>set ?ws. set (L (OnList w)))) n s)" for A
    by (rule forO_reparent)
  then have 2: "forO ?ws orphan_list (reparent A n s) = Ret (reparent (A \<union> (\<Union>w. set (L (OnList w)))) n s)" for A
    by (simp add: UN_wlist Un_assoc)
  show ?thesis unfolding 1 by (simp only: bindO.simps 2 in_reach_def)
qed

lemma exit_ok:
  assumes "placed s Q L" and "calm s" and "tp s \<in> Q" and "i < 32"
    and "curr s \<in> set (L (OnQueue (tp s) i))" and "pid (procs s (curr s)) \<noteq> 0"
    and "\<exists>j<hart s. closet_rq s j \<noteq> 0" and "\<forall>x. length (L x) < walk_fuel"
  shows "\<exists>t. exit_process code s = Ret t \<and> placed t Q (leave_for (tp s) i Zombie (curr s) L) \<and>
    calm t \<and> ssip t \<and> curr t = curr s \<and>
    (\<forall>q. data (procs t q) = data
      (let x = (if q = curr s then (procs s q)\<lparr>p_state := 3, exit_code := code\<rparr> else procs s q) in
       if q \<in> in_reach L (tp s) \<and> parent_pid x = pid (procs s (curr s)) then x\<lparr>parent_pid := 0\<rparr> else x))"
proof -
  let ?p = "curr s" and ?r = "tp s" and ?f = "\<lambda>x. x\<lparr>exit_code := code\<rparr>"
  let ?n = "pid (procs s ?p)" and ?M = "leave_for (tp s) i Zombie (curr s) L"
  have x: "OnQueue ?r i \<in> places Q" using assms(3,4) by simp
  have mg: "magic (procs s ?p) = PROCESS_MAGIC"
    using placedD(2) [OF assms(1) x assms(5)] by (simp add: fits.simps)
  define e where "e = (if emergency_process s = ?p then 0 else emergency_process s)"
  define s1 where "s1 = s\<lparr>emergency_process := e, locks := (\<lambda>_. 0)(ListLock Zombie := 1, RqLock ?r := 1)\<rparr>"
  have s1: "tp s1 = tp s" "procs s1 = procs s" "rqs s1 = rqs s" "curr s1 = curr s"
    "locks s1 = (\<lambda>_. 0)(ListLock Zombie := 1, RqLock ?r := 1)"
    by (simp_all add: s1_def curr_def)
  have pl1: "placed s1 Q L" using assms(1) placed_cong [of s1 s Q L] by (simp add: s1_def)
  note d = depart_ok [OF pl1, of i ?p ?f Zombie, unfolded s1, OF assms(3-5) keeps_simps(3)]
  define u where "u = release (ListLock Zombie) (depart Zombie ?f ?p s1)"
  have u: "tp u = ?r" "curr u = ?p" "calm u" "placed u Q ?M"
  proof -
    show "tp u = ?r" "curr u = ?p" "calm u" using d(3-5) by (auto simp: u_def calm_def field_upd curr_def)
    show "placed u Q ?M" unfolding u_def
      by (subst placed_cong [where s = "depart Zombie ?f ?p s1"]) (simp_all add: field_upd d(1))
  qed
  have du: "data (procs u q) = data (if q = ?p then (procs s q)\<lparr>p_state := 3, exit_code := code\<rparr> else procs s q)" for q
    using d(2) [of q] by (simp add: u_def field_upd)
  have n: "?n = pid (procs u (curr u))" using data_fields(5) [OF du [of ?p]] u(2) by simp
  have same: "hart u = hart s" "closet_rq u = closet_rq s"
    using list_push_fields(5) placed_leave(2) [OF pl1, of "tp s1" i ?p] assms(3-5)
    by (simp_all add: u_def depart_def same_data_def upd_proc_def release_def s1_def)
  have run: "exit_process code s = bindO (forO [0..<hart u] orphan_circles u)
    (\<lambda>s. bindO (forO [Blocked, Zombie, Sleeping, BlockedIpc, BlockedIpcSend] orphan_list s)
      (\<lambda>s. Ret (trigger_software_interrupt s)))"
  proof -
    let ?a = "s\<lparr>locks := (\<lambda>_. 0)(ListLock Zombie := 1)\<rparr>"
    let ?b = "s\<lparr>locks := (\<lambda>_. 0)(ListLock Zombie := 1, RqLock ?r := 1)\<rparr>"
    let ?v = "release (RqLock ?r) (rq_remove ?r ?p s1)"
    have a: "acquire (ListLock Zombie) s = Ret ?a" "acquire (RqLock (tp ?a)) ?a = Ret ?b"
      using assms(2) by (simp_all add: acquire_free calm_def)
    have g: "block_guard (curr ?b) ?b = Ret s1"
      using mg assms(6) by (simp add: block_guard_def s1_def e_def curr_def)
    have c: "curr ?v = ?p" "curr (list_push Zombie ?p ?v) = ?p"
      using placed_leave(2) [OF pl1, of "tp s1" i ?p] assms(3-5) list_push_fields(5) [of ?v Zombie ?p]
      by (simp_all add: same_data_fields(9) s1 curr_def field_upd) (simp_all add: same_data_def field_upd s1)
    have "u = release (ListLock Zombie) (upd_proc ?p (\<lambda>x. x\<lparr>p_state := 3, exit_code := code\<rparr>) (list_push Zombie ?p ?v))"
      by (simp add: u_def depart_def s1)
    moreover have "tp (rq_remove ?r ?p s1) = ?r" by (simp add: tp_surgery s1)
    ultimately show ?thesis unfolding exit_process_def a g Let_def bindO.simps s1(1,4) by (simp only: c)
  qed
  have len: "length (?M x) \<le> walk_fuel" for x
  proof -
    have "length (L x) < walk_fuel" "length (L (OnList Zombie)) < walk_fuel"
      "length (remove1 ?p (L (OnQueue ?r i))) \<le> length (L (OnQueue ?r i))" "length (L (OnQueue ?r i)) < walk_fuel"
      using assms(8) by (simp_all add: length_remove1)
    then show ?thesis by (auto simp: leave_for_def)
  qed
  have dist: "distinct (L (OnQueue ?r i))" by (rule linked_distinct [OF placedD(1) [OF assms(1) x]])
  define t where "t = trigger_software_interrupt (reparent (in_reach L ?r) ?n u)"
  have "exit_process code s = Ret t"
    unfolding run t_def using exit_orphans [OF u(3,4), of ?n] u(1,2) n assms(3,7) same len
      in_reach_leave [of i ?p L ?r Zombie, OF assms(4,5) dist] by simp
  moreover have "placed t Q ?M" unfolding t_def
    by (subst placed_cong [where s = "reparent (in_reach L ?r) ?n u"])
      (simp_all add: trigger_software_interrupt_def placed_reparent u(4))
  moreover have "calm t" "ssip t" "curr t = ?p"
    using u by (simp_all add: t_def trigger_software_interrupt_def calm_def) (simp add: curr_def reparent_def)
  moreover have "data (procs t q) = data
      (let x = (if q = ?p then (procs s q)\<lparr>p_state := 3, exit_code := code\<rparr> else procs s q) in
       if q \<in> in_reach L ?r \<and> parent_pid x = ?n then x\<lparr>parent_pid := 0\<rparr> else x)" for q
  proof -
    define X where "X = (if q = ?p then (procs s q)\<lparr>p_state := 3, exit_code := code\<rparr> else procs s q)"
    have X: "data (procs u q) = data X" unfolding X_def by (rule du)
    have "procs t q = (if q \<in> in_reach L ?r \<and> parent_pid (procs u q) = ?n
        then (procs u q)\<lparr>parent_pid := 0\<rparr> else procs u q)"
      by (simp add: t_def trigger_software_interrupt_def reparent_def)
    then show ?thesis unfolding X_def [symmetric] Let_def
      using X data_fields(6) [OF X] data_parent [OF X, of 0] by simp
  qed
  ultimately show ?thesis by blast
qed

text \<open>
  C34. Exit always returns on a well-formed machine: the running process leaves its circle for
  the front of the zombie list with its exit code recorded, every one of its children that is
  on a wait list or on the running hart's circles is handed to the idle process, no other
  process changes, no lock stays held and a reschedule is requested.
\<close>

theorem exit_process_correct:
  assumes "placed s Q L" and "calm s" and "tp s \<in> Q" and "i < 32"
    and "curr s \<in> set (L (OnQueue (tp s) i))" and "pid (procs s (curr s)) \<noteq> 0"
    and "\<exists>j<hart s. closet_rq s j \<noteq> 0" and "\<forall>x. length (L x) < walk_fuel"
  shows "\<exists>t. exit_process code s = Ret t \<and> placed t Q (leave_for (tp s) i Zombie (curr s) L) \<and>
    calm t \<and> ssip t \<and> curr t = curr s \<and>
    (\<forall>q. data (procs t q) = data
      (let x = (if q = curr s then (procs s q)\<lparr>p_state := 3, exit_code := code\<rparr> else procs s q) in
       if q \<in> in_reach L (tp s) \<and> parent_pid x = pid (procs s (curr s)) then x\<lparr>parent_pid := 0\<rparr> else x))"
  by (rule exit_ok [OF assms])

text \<open>
  The demo machine with a family: the running process 1 has a sleeping child, and a child that
  is ready on the second hart.
\<close>

definition family_procs :: "u64 \<Rightarrow> process" where
  "family_procs p =
     (if p = 0x3000 then demo_proc 1 16 1 0x3000 0x3000
      else if p = 0x4000 then (demo_proc 2 16 0 0x4000 0x4000)\<lparr>parent_pid := 1\<rparr>
      else if p = 0x5000 then (demo_proc 3 3 4 0 0)\<lparr>parent_pid := 1\<rparr>
      else demo_procs p)"

definition family_rq :: "u64 \<Rightarrow> runqueue" where
  "family_rq r =
     (if r = 0x1800 then (demo_rq r)\<lparr>circles := (\<lambda>i. if i = 31 then 0x6000 else if i = 16 then 0x4000 else 0),
        lookup_bitmap := shl1 31 OR shl1 16, process_count := 2\<rparr>
      else demo_rq r)"

definition demo_family :: kstate where
  "demo_family = demo_ks\<lparr>procs := family_procs, rqs := family_rq\<rparr>"

fun family_L :: layout_of where
  "family_L (OnQueue r i) =
     (if r = 0x1000 \<and> i = 31 then [0x2000] else if r = 0x1000 \<and> i = 16 then [0x3000]
      else if r = 0x1800 \<and> i = 31 then [0x6000] else if r = 0x1800 \<and> i = 16 then [0x4000] else [])"
| "family_L (OnList w) = (if w = Sleeping then [0x5000] else [])"

lemma family_fields [simp]:
  "procs demo_family = family_procs" "rqs demo_family = family_rq" "tp demo_family = 0x1000"
  "lists demo_family w = (if w = Sleeping then 0x5000 else 0)" "curr demo_family = 0x3000"
  "hart demo_family = 2" "closet_rq demo_family j = (if j = 0 then 0x1000 else if j = 1 then 0x1800 else 0)"
  "locks demo_family = (\<lambda>_. 0)"
  by (simp_all add: demo_family_def curr_def family_rq_def demo_rq_def)

lemma family_placed: "placed demo_family demo_Q family_L"
proof -
  have n: "nxp demo_family p = p_next (family_procs p)" "pvp demo_family p = p_prev (family_procs p)" for p
    by (simp_all add: nxp_def pvp_def)
  note defs = demo_Q_def family_rq_def demo_rq_def family_procs_def demo_procs_def demo_proc_def
  have "linked demo_family x (family_L x)" if "x \<in> places demo_Q" for x
    using that by (cases x) (auto simp: defs bit_or_iff bit_shl1 circ_def n dlist_def)
  moreover have "fits demo_family x p" if "x \<in> places demo_Q" "p \<in> set (family_L x)" for x p
    using that by (cases x) (auto simp: fits.simps defs split: if_splits)
  moreover have "set (family_L x) \<inter> set (family_L y) = {}" if "x \<noteq> y" for x y
    using that by (cases x; cases y) auto
  ultimately show ?thesis by (simp add: placed_def)
qed

lemma family_ok:
  "calm demo_family" "tp demo_family \<in> demo_Q" "curr demo_family \<in> set (family_L (OnQueue (tp demo_family) 16))"
  "pid (procs demo_family (curr demo_family)) \<noteq> 0" "\<exists>j<hart demo_family. closet_rq demo_family j \<noteq> 0"
  "\<forall>x. length (family_L x) < walk_fuel"
proof -
  have "length (family_L x) < walk_fuel" for x by (cases x) (simp_all add: walk_fuel_def)
  then show "\<forall>x. length (family_L x) < walk_fuel" by blast
  have "0 < hart demo_family \<and> closet_rq demo_family 0 \<noteq> 0" by simp
  then show "\<exists>j<hart demo_family. closet_rq demo_family j \<noteq> 0" by blast
qed (simp_all add: calm_def demo_Q_def family_procs_def demo_proc_def)

theorem exit_process_correct_witness:
  "\<exists>t. exit_process 7 demo_family = Ret t \<and> ssip t \<and> p_state (procs t 0x3000) = 3 \<and>
     exit_code (procs t 0x3000) = 7 \<and> parent_pid (procs t 0x5000) = 0"
proof -
  obtain t where t: "exit_process 7 demo_family = Ret t" "ssip t"
    "data (procs t 0x3000) = data (let x = (family_procs 0x3000)\<lparr>p_state := 3, exit_code := 7\<rparr> in
       if 0x3000 \<in> in_reach family_L 0x1000 \<and> parent_pid x = 1 then x\<lparr>parent_pid := 0\<rparr> else x)"
    "data (procs t 0x5000) = data (if 0x5000 \<in> in_reach family_L 0x1000 \<and> parent_pid (family_procs 0x5000) = 1
       then (family_procs 0x5000)\<lparr>parent_pid := 0\<rparr> else family_procs 0x5000)"
    using exit_process_correct [OF family_placed family_ok(1,2) _ family_ok(3-6), of 7]
    by (auto simp: family_procs_def demo_proc_def)
  have "0x5000 \<in> in_reach family_L 0x1000" by (auto simp: in_reach_def intro: exI [of _ Sleeping])
  moreover have "parent_pid (family_procs 0x3000) = 0" "parent_pid (family_procs 0x5000) = 1"
    by (simp_all add: family_procs_def demo_proc_def)
  ultimately show ?thesis
    using t(1,2) data_fields(8,19) [OF t(3)] data_fields(6) [OF t(4)] by simp
qed

text \<open>
  The loop over the harts looks at the running hart's circles each time: a child that is
  ready on another hart keeps the exited process as its parent, so the idle process will
  never reap it.
\<close>

theorem exit_misses_other_harts:
  assumes "placed s Q L" and "calm s" and "tp s \<in> Q" and "i < 32"
    and "curr s \<in> set (L (OnQueue (tp s) i))" and "pid (procs s (curr s)) \<noteq> 0"
    and "\<exists>j<hart s. closet_rq s j \<noteq> 0" and "\<forall>x. length (L x) < walk_fuel"
    and "r \<in> Q" and "r \<noteq> tp s" and "k < 32" and "q \<in> set (L (OnQueue r k))"
    and "parent_pid (procs s q) = pid (procs s (curr s))"
  shows "\<exists>t. exit_process code s = Ret t \<and> parent_pid (procs t q) = pid (procs s (curr s)) \<and>
    p_state (procs t (curr s)) = 3"
proof -
  have x: "OnQueue r k \<in> places Q" "OnQueue (tp s) i \<in> places Q" using assms by simp_all
  have other: "q \<notin> set (L y)" if "y \<in> places Q" "y \<noteq> OnQueue r k" for y
    using placedD(3) [OF assms(1) x(1) that] assms(12) by auto
  have "q \<notin> in_reach L (tp s)"
    using other assms(3,10) by (auto simp: in_reach_def on_queue_def)
  moreover have "q \<noteq> curr s" using other [OF x(2)] assms(5,10) by auto
  moreover obtain t where t: "exit_process code s = Ret t" "\<forall>q. data (procs t q) = data
      (let x = (if q = curr s then (procs s q)\<lparr>p_state := 3, exit_code := code\<rparr> else procs s q) in
       if q \<in> in_reach L (tp s) \<and> parent_pid x = pid (procs s (curr s)) then x\<lparr>parent_pid := 0\<rparr> else x)"
    using exit_ok [OF assms(1-8), of code] by blast
  ultimately have "data (procs t q) = data (procs s q)" by (simp add: Let_def)
  moreover have "p_state (procs t (curr s)) = 3"
    using data_fields(8) [OF spec [OF t(2), of "curr s"]] by (simp add: Let_def)
  ultimately show ?thesis using t(1) assms(13) data_fields(6) [of "procs t q" "procs s q"] by simp
qed

theorem exit_misses_other_harts_witness:
  "\<exists>t. exit_process 7 demo_family = Ret t \<and> parent_pid (procs t 0x4000) = 1 \<and> p_state (procs t 0x3000) = 3"
  using exit_misses_other_harts [OF family_placed family_ok(1,2) _ family_ok(3-6), of "0x1800" 16 "0x4000" 7]
  by (auto simp: demo_Q_def family_procs_def demo_proc_def)

end
