(* ===== verification/ReapSpec.thy ===== *)
theory ReapSpec
  imports LifeSpec
begin

text \<open>
  Reaping: which zombie \<open>wait_process\<close> takes, and when \<open>orphan_cleaner\<close> follows a null pointer.
\<close>

section \<open>The search\<close>

lemma find_child_ok:
  assumes "dpath (nxp s) (pvp s) v h xs 0" and "0 \<notin> set xs" and "length xs \<le> k"
  shows "find_child k n h s = Ret (case find (\<lambda>p. parent_pid (procs s p) = n) xs of Some p \<Rightarrow> p | None \<Rightarrow> 0)"
  using assms
proof (induction xs arbitrary: v h k)
  case Nil
  then show ?case by (cases k) simp_all
next
  case (Cons x xs)
  then obtain m where k: "k = Suc m" "length xs \<le> m" by (cases k) auto
  have h: "h = x" "x \<noteq> 0" "dpath (nxp s) (pvp s) x (nxp s x) xs 0" "0 \<notin> set xs" using Cons.prems by auto
  show ?case using Cons.IH [OF h(3,4) k(2)] h(1,2) by (simp add: k proc_links)
qed

lemma placed_unlink_plain:
  assumes "placed s Q L" and "p \<in> set (L (OnList w))"
  shows "placed (list_unlink w p s) Q (L(OnList w := remove1 p (L (OnList w))))"
proof -
  have "upd_proc p id s = s" by (simp add: upd_proc_def)
  then show ?thesis using placed_unlink [OF assms, of id] by simp
qed

text \<open>The demo machine with two zombies, the newer one a child of process 1.\<close>

definition zombie_ks :: kstate where
  "zombie_ks = demo_ks\<lparr>procs := demo_procs(
       0x7000 := (demo_proc 5 16 3 0x8000 0)\<lparr>parent_pid := 1\<rparr>, 0x8000 := demo_proc 6 16 3 0 0x7000),
     lists := (lists demo_ks)(Zombie := 0x7000)\<rparr>"

definition zombie_L :: layout_of where
  "zombie_L = demo_L(OnList Zombie := [0x7000, 0x8000])"

lemma zombie_ok:
  "calm zombie_ks" "procs zombie_ks = demo_procs(0x7000 := (demo_proc 5 16 3 0x8000 0)\<lparr>parent_pid := 1\<rparr>,
      0x8000 := demo_proc 6 16 3 0 0x7000)" "rqs zombie_ks = demo_rq" "curr zombie_ks = 0x3000"
    "lists zombie_ks w = (if w = Zombie then 0x7000 else if w = Sleeping then 0x5000 else 0)"
  by (simp_all add: zombie_ks_def calm_def) (simp add: curr_def demo_rq_def)

lemma zombie_placed: "placed zombie_ks demo_Q zombie_L"
proof -
  have n: "nxp zombie_ks p = p_next (procs zombie_ks p)" "pvp zombie_ks p = p_prev (procs zombie_ks p)" for p
    by (simp_all add: nxp_def pvp_def)
  have "linked zombie_ks x (zombie_L x)" if "x \<in> places demo_Q" for x
    using that by (cases x) (auto simp: demo_Q_def demo_rq_def bit_or_iff bit_shl1 circ_def n demo_procs_def
        demo_proc_def dlist_def zombie_ok zombie_L_def)
  moreover have "fits zombie_ks x p" if "x \<in> places demo_Q" "p \<in> set (zombie_L x)" for x p
    using that by (cases x) (auto simp: fits.simps demo_Q_def demo_procs_def demo_proc_def demo_rq_def zombie_ok zombie_L_def
        split: if_splits)
  moreover have "set (zombie_L x) \<inter> set (zombie_L y) = {}" if "x \<noteq> y" for x y
    using that by (cases x; cases y) (auto simp: zombie_L_def)
  ultimately show ?thesis by (simp add: placed_def)
qed

text \<open>
  C36. \<open>wait_process\<close> looks for the first zombie whose parent is the running process. With none it
  returns -1 and changes nothing but the interrupt enable. Otherwise exactly that zombie is
  unlinked, the invariant of the places holds without it and no process's data has changed
  when it is given to the reaper, and its exit code is the result, whatever the reaper does to the address space.
\<close>

theorem wait_process_first_child:
  assumes "placed s Q L" and "calm s" and "length (L (OnList Zombie)) \<le> walk_fuel"
  shows "case find (\<lambda>p. parent_pid (procs s p) = pid (procs s (curr s))) (L (OnList Zombie)) of
      None \<Rightarrow> wait_process s = Ret (- 1, s\<lparr>ssie := True\<rparr>)
    | Some p \<Rightarrow> \<exists>u. wait_process s =
          bindO (reap p u) (\<lambda>v. Ret (exit_code (procs s p), release (ListLock Zombie) (v\<lparr>ssie := True\<rparr>))) \<and>
        placed u Q (L(OnList Zombie := remove1 p (L (OnList Zombie)))) \<and>
        (\<forall>q. data (procs u q) = data (procs s q)) \<and> locks u = (\<lambda>_. 0)(ListLock Zombie := 1)"
proof -
  let ?xs = "L (OnList Zombie)" and ?n = "pid (procs s (curr s))"
  let ?s = "s\<lparr>locks := (\<lambda>_. 0)(ListLock Zombie := 1), ssie := False\<rparr>"
  have a: "acquire (ListLock Zombie) s = Ret (s\<lparr>locks := (\<lambda>_. 0)(ListLock Zombie := 1)\<rparr>)"
    using assms(2) by (simp add: acquire_free calm_def)
  have l: "linked s (OnList Zombie) ?xs" by (rule placedD(1) [OF assms(1)]) simp
  have s: "procs ?s = procs s" "curr ?s = curr s" "lists ?s = lists s" "nxp ?s = nxp s" "pvp ?s = pvp s"
    by (simp_all add: curr_def nxp_def pvp_def)
  have f: "find_child walk_fuel ?n (lists s Zombie) ?s =
      Ret (case find (\<lambda>p. parent_pid (procs s p) = ?n) ?xs of Some p \<Rightarrow> p | None \<Rightarrow> 0)"
    using find_child_ok [of ?s 0 "lists s Zombie" ?xs walk_fuel ?n] l assms(3) by (simp add: dlist_def s)
  show ?thesis
  proof (cases "find (\<lambda>p. parent_pid (procs s p) = ?n) ?xs")
    case None
    have z: "(\<lambda>_. 0 :: u64)(ListLock Zombie := 0) = (\<lambda>_. 0)" by (rule ext) simp
    have "wait_process s = Ret (- 1, release (ListLock Zombie) (?s\<lparr>ssie := True\<rparr>))"
      using f by (simp add: wait_process_def a Let_def s None)
    also have "release (ListLock Zombie) (?s\<lparr>ssie := True\<rparr>) = s\<lparr>ssie := True\<rparr>"
      using assms(2) by (cases s) (simp add: release_def spinlock_release_def calm_def z)
    finally show ?thesis using None by simp
  next
    case (Some p)
    then have p: "p \<in> set ?xs" by (auto simp: find_Some_iff)
    then have "p \<noteq> 0" using linked_nonzero [OF l] by auto
    define u where "u = list_unlink Zombie p ?s"
    have pl: "placed ?s Q L" using assms(1) placed_cong [of ?s s Q L] by simp
    have sd: "same_data ?s u" unfolding u_def by (rule list_unlink_fields(5))
    then have d: "data (procs u q) = data (procs s q)" "locks u = (\<lambda>_. 0)(ListLock Zombie := 1)" for q
      by (simp_all add: same_data_def)
    have "wait_process s = bindO (reap p u) (\<lambda>v. Ret (exit_code (procs u p), release (ListLock Zombie) (v\<lparr>ssie := True\<rparr>)))"
      using f \<open>p \<noteq> 0\<close> by (simp add: wait_process_def a Let_def s Some u_def)
    moreover have "exit_code (procs u p) = exit_code (procs s p)" using data_fields(19) [OF d(1)] .
    moreover have "placed u Q (L(OnList Zombie := remove1 p ?xs))"
      unfolding u_def by (rule placed_unlink_plain [OF pl p])
    ultimately show ?thesis using Some d by auto
  qed
qed

theorem wait_process_first_child_witness:
  "\<exists>u. wait_process zombie_ks =
       bindO (reap 0x7000 u) (\<lambda>v. Ret (0, release (ListLock Zombie) (v\<lparr>ssie := True\<rparr>))) \<and>
     placed u demo_Q (zombie_L(OnList Zombie := [0x8000]))"
proof -
  have "find (\<lambda>p. parent_pid (procs zombie_ks p) = pid (procs zombie_ks (curr zombie_ks))) (zombie_L (OnList Zombie)) =
      Some 0x7000" by (simp add: zombie_ok zombie_L_def demo_procs_def demo_proc_def)
  then show ?thesis
    using wait_process_first_child [OF zombie_placed zombie_ok(1)]
    by (auto simp: zombie_L_def walk_fuel_def zombie_ok demo_proc_def)
qed

text \<open>
  C39. \<open>orphan_cleaner\<close> unlinks without asking whether there is a successor: when the only
  orphan among the zombies is the last of several, it writes through a null pointer.
\<close>

theorem orphan_cleaner_faults:
  assumes "placed s Q L" and "calm s" and "L (OnList Zombie) = xs @ [p]" and "xs \<noteq> []"
    and "\<forall>q\<in>set xs. parent_pid (procs s q) \<noteq> 0" and "parent_pid (procs s p) = 0"
    and "length (xs @ [p]) \<le> walk_fuel"
  shows "orphan_cleaner s = Fault 488"
proof -
  define u where "u = s\<lparr>locks := (\<lambda>_. 0)(ListLock Zombie := 1)\<rparr>"
  have a: "acquire (ListLock Zombie) s = Ret u" using assms(2) by (simp add: acquire_free calm_def u_def)
  have n: "nxp u = nxp s" "pvp u = pvp s" "lists u = lists s" "procs u = procs s"
    by (simp_all add: nxp_def pvp_def u_def)
  have l: "dlist 0 (nxp s) (pvp s) (lists s Zombie) (xs @ [p])"
    using placedD(1) [OF assms(1), of "OnList Zombie"] by (simp add: assms(3))
  have np: "nxp s p = 0" using dlist_split_fields(2) [OF l] by simp
  have hd: "lists s Zombie \<noteq> p" using dlist_head [OF l] dlist_distinct [OF l] assms(4) by (cases xs) auto
  have walk: "each_list k clean_orphan h u = Fault 488"
    if "dpath (nxp s) (pvp s) v h (ys @ [p]) 0" "0 \<notin> set (ys @ [p])" "set ys \<subseteq> set xs" "length (ys @ [p]) \<le> k" for v h ys k
    using that
  proof (induction ys arbitrary: v h k)
    case Nil
    then obtain m where "k = Suc m" "h = p" "p \<noteq> 0" by (cases k) auto
    then show ?case using assms(6) hd np by (simp add: clean_orphan_def unlink_unchecked_def proc_links Let_def n)
  next
    case (Cons y ys)
    then obtain m where k: "k = Suc m" "length (ys @ [p]) \<le> m" by (cases k) auto
    have h: "h = y" "y \<noteq> 0" "dpath (nxp s) (pvp s) y (nxp s y) (ys @ [p]) 0" using Cons.prems by auto
    have "each_list m clean_orphan (nxp s y) u = Fault 488"
      by (rule Cons.IH [OF h(3)]) (use Cons.prems k in simp_all)
    moreover have "clean_orphan y u = Ret u" using Cons.prems(3) assms(5) by (simp add: clean_orphan_def n)
    ultimately show ?case using h(1,2) by (simp add: k Let_def proc_links n)
  qed
  have "each_list walk_fuel clean_orphan (lists s Zombie) u = Fault 488"
    by (rule walk [of 0 _ xs]) (use l assms(7) in \<open>simp_all add: dlist_def\<close>)
  then show ?thesis by (simp add: orphan_cleaner_def a n)
qed

theorem orphan_cleaner_faults_witness:
  "orphan_cleaner zombie_ks = Fault 488"
  using orphan_cleaner_faults [OF zombie_placed zombie_ok(1), of "[0x7000]" "0x8000"]
  by (simp add: zombie_ok zombie_L_def demo_proc_def walk_fuel_def)

end
