(* ===== verification/MsgSpec.thy ===== *)
theory MsgSpec
  imports RightsSpec
begin

text \<open>
  Messages: who may send to whom, what a delivery changes, and where the processes go that have
  to wait.
\<close>

section \<open>Rights to send\<close>

text \<open>The sender needs the write right on the receiver, the receiver the read right on the sender.\<close>

definition may_send :: "u64 \<Rightarrow> kstate \<Rightarrow> bool" where
  "may_send t s \<longleftrightarrow>
     bit (rights_of (curr s) (pid (procs s t)) s) 1 \<and> bit (rights_of t (pid (procs s (curr s))) s) 0"

lemma shift_small: "cap_shift n + 4 \<le> 64"
  using mod_less_divisor [of 16 "unat n"] by (simp add: cap_shift_eq)

lemma has_rights_bit:
  assumes "b < 4"
  shows "has_rights p n (push_bit b 1) s \<longleftrightarrow> bit (rights_of p n s) b"
proof -
  let ?k = "cap_shift n"
  have "push_bit ?k (push_bit b 1) = shl1 (?k + b)" by (simp only: shl1_def push_bit_push_bit)
  then have "has_rights p n (push_bit b 1) s \<longleftrightarrow> bit (load s (cap_cell p n s)) (?k + b)"
    using shift_small [of n] assms by (simp add: has_rights_def shl1_test)
  then show ?thesis using assms shift_small [of n]
    by (auto simp: rights_of_def bit_and_iff bit_drop_bit_eq bit_15 dest: bit_imp_le_length)
qed

lemma has_rights_some:
  assumes "b < 4" and "bit (rights_of p n s) b"
  shows "has_rights p n 15 s"
proof -
  have "bit (load s (cap_cell p n s)) (cap_shift n + b)"
    using assms by (simp add: rights_of_def bit_and_iff bit_drop_bit_eq)
  moreover have "bit (push_bit (cap_shift n) (15 :: u64)) (cap_shift n + b)"
    using assms(1) shift_small [of n] by (simp add: bit_push_bit_iff bit_15)
  ultimately have "bit (load s (cap_cell p n s) AND push_bit (cap_shift n) 15) (cap_shift n + b)"
    by (simp add: bit_and_iff)
  then show ?thesis unfolding has_rights_def by auto
qed

lemma has_rights_1_2:
  "has_rights p n 1 s \<longleftrightarrow> bit (rights_of p n s) 0" "has_rights p n 2 s \<longleftrightarrow> bit (rights_of p n s) 1"
  using has_rights_bit [of 0 p n s] has_rights_bit [of 1 p n s] by simp_all

section \<open>Places of the processes that are found\<close>

lemma searched_places: "lookup_ok s Q L \<Longrightarrow> x \<in> searched s \<Longrightarrow> x \<in> places Q"
  by (auto simp: searched_def hart_places_def lookup_ok_def)

lemma waiting_receiver:
  assumes "lookup_ok s Q L" and "found s L (searched s) n t" and "t \<noteq> 0" and "p_state (procs s t) = 5"
  shows "t \<in> set (L (OnList BlockedIpc))"
proof -
  obtain x where x: "x \<in> searched s" "t \<in> set (L x)" using assms(2,3) by (auto simp: found_def)
  have "placed s Q L" using assms(1) by (simp add: lookup_ok_def)
  then have "fits s x t"
    using placedD(2) [where s = s and Q = Q and L = L and x = x and p = t] searched_places [OF assms(1)] x by blast
  then show ?thesis using x(2) assms(4) by (cases x; rename_tac w; case_tac w) (auto simp: fits.simps)
qed

lemma frames_upd [simp]:
  "tframes (upd_proc p f s) = tframes s" "tframes (upd_rq r g s) = tframes s" "tframes (set_list w q s) = tframes s"
  "tframes (set_circle r i q s) = tframes s" "tframes (release l s) = tframes s" "tframes (set_next p q s) = tframes s"
  "tframes (set_prev p q s) = tframes s" "tframes (trigger_software_interrupt s) = tframes s"
  by (simp_all add: upd_proc_def upd_rq_def set_list_def set_circle_def release_def set_next_def set_prev_def
      trigger_software_interrupt_def)

lemma frames_surgery [simp]: "tframes (rq_remove r p s) = tframes s" "tframes (list_push w p s) = tframes s"
  by (simp_all add: rq_remove_def list_push_def Let_def)

lemma curr_upd [simp]: "curr (upd_tf a h s) = curr s" "curr (upd_proc p f s) = curr s"
  by (simp_all add: upd_tf_def upd_proc_def curr_def)

lemma block_on_frames: "block_on w c f p s = Ret t \<Longrightarrow> tframes t = tframes s"
  by (auto simp: block_on_def block_guard_def acquire_def Let_def split: if_splits)

section \<open>Delivery\<close>

definition message :: "u64 \<Rightarrow> u64 \<Rightarrow> kstate \<Rightarrow> nat \<Rightarrow> u64" where
  "message phys me s i = (if i = 0 then me else load s (phys + 8 * of_nat i))"

definition deliver :: "u64 \<Rightarrow> u64 \<Rightarrow> u64 \<Rightarrow> kstate \<Rightarrow> kstate outcome" where
  "deliver t phys me s =
     (let s = upd_proc t (\<lambda>p. p\<lparr>mailbox := (mailbox p)(0 := me)\<rparr>) (copy_to_mailbox t phys s) in
      bindO (if p_state (procs s t) = 5 then unblock_ipc_process t s else Ret s)
        (\<lambda>s. Ret (ret 1 (upd_proc t (\<lambda>p. p\<lparr>mailbox_status := 1\<rparr>) s))))"

definition delivered :: "u64 \<Rightarrow> u64 \<Rightarrow> u64 \<Rightarrow> kstate \<Rightarrow> kstate \<Rightarrow> bool" where
  "delivered t phys me s u \<longleftrightarrow>
     (\<forall>i<9. mailbox (procs u t) i = message phys me s i) \<and> mailbox_status (procs u t) = 1 \<and>
     p_state (procs u t) = (if p_state (procs s t) = 5 then 0 else p_state (procs s t)) \<and> reg 10 u = 1 \<and>
     (\<forall>q. q \<noteq> t \<and> q \<noteq> curr s \<longrightarrow> data (procs u q) = data (procs s q))"

lemma deliver_ok:
  assumes pl: "placed s Q L" and c: "calm s" and r: "tp s \<in> Q"
    and w: "p_state (procs s t) = 5 \<Longrightarrow> t \<in> set (L (OnList BlockedIpc))"
  shows "\<exists>u. deliver t phys me s = Ret u \<and> calm u \<and> curr u = curr s \<and> delivered t phys me s u \<and>
    placed u Q (if p_state (procs s t) = 5 then join_from (tp s) (priority (procs s t)) BlockedIpc t L else L)"
proof -
  define box where "box = (\<lambda>i. if i = 0 then me else if i < 9 then load s (phys + 8 * of_nat i) else mailbox (procs s t) i)"
  define s2 where "s2 = upd_proc t (\<lambda>p. p\<lparr>mailbox := box\<rparr>) s"
  have "upd_proc t (\<lambda>p. p\<lparr>mailbox := (mailbox p)(0 := me)\<rparr>) (copy_to_mailbox t phys s) = s2"
    by (simp add: copy_to_mailbox_def upd_proc_def s2_def box_def fun_upd_def if_distrib cong: if_cong)
  then have d: "deliver t phys me s = bindO (if p_state (procs s2 t) = 5 then unblock_ipc_process t s2 else Ret s2)
      (\<lambda>s. Ret (ret 1 (upd_proc t (\<lambda>p. p\<lparr>mailbox_status := 1\<rparr>) s)))"
    by (simp add: deliver_def Let_def)
  have s2: "procs s2 q = (if q = t then (procs s t)\<lparr>mailbox := box\<rparr> else procs s q)" "tp s2 = tp s" "curr s2 = curr s"
      "calm s2" "rqs s2 = rqs s" for q using c by (simp_all add: s2_def upd_proc_def curr_def calm_def)
  have pl2: "placed s2 Q L" unfolding s2_def by (rule placed_upd_proc [OF pl]) simp_all
  have box: "i < 9 \<Longrightarrow> box i = message phys me s i" for i by (simp add: box_def message_def)
  obtain v where v: "(if p_state (procs s2 t) = 5 then unblock_ipc_process t s2 else Ret s2) = Ret v"
    "placed v Q (if p_state (procs s t) = 5 then join_from (tp s) (priority (procs s t)) BlockedIpc t L else L)"
    "calm v" "curr v = curr s" "mailbox (procs v t) = box"
    "p_state (procs v t) = (if p_state (procs s t) = 5 then 0 else p_state (procs s t))"
    "\<forall>q. q \<noteq> t \<and> q \<noteq> curr s \<longrightarrow> data (procs v q) = data (procs s q)"
  proof (cases "p_state (procs s t) = 5")
    case True
    obtain v where v: "unblock_from BlockedIpc (state_code BlockedIpc) t s2 = Ret v"
      "placed v Q (join_from (tp s2) (priority (procs s2 t)) BlockedIpc t L)" "calm v" "curr v = curr s2"
      "\<And>q. data (procs v q) = data ((if q = t then (procs s2 t)\<lparr>p_state := 0\<rparr> else procs s2 q)
       \<lparr>ticks_left := (if q = curr s2 \<and> priority (procs s2 t) < priority (procs s2 (curr s2)) then 0 else ticks_left (procs s2 q))\<rparr>)"
      using unblock_from_ok [OF pl2 s2(4), of t BlockedIpc] r w [OF True] by (auto simp: s2(2))
    have "mailbox (procs v t) = box" "p_state (procs v t) = 0"
      using data_fields(14) [OF v(5) [of t]] data_fields(8) [OF v(5) [of t]] by (simp_all add: s2(1))
    moreover have "data (procs v q) = data (procs s q)" if "q \<noteq> t" "q \<noteq> curr s" for q
      using v(5) [of q] that by (simp add: s2)
    ultimately show ?thesis using that [of v] v(1-4) True by (simp add: unblock_ipc_process_def s2)
  next
    case False
    then show ?thesis using that [of s2] pl2 s2 by simp
  qed
  define u where "u = ret 1 (upd_proc t (\<lambda>p. p\<lparr>mailbox_status := 1\<rparr>) v)"
  have u: "procs u = procs (upd_proc t (\<lambda>p. p\<lparr>mailbox_status := 1\<rparr>) v)" "rqs u = rqs v" "lists u = lists v"
      "locks u = locks v" "tp u = tp v"
    by (simp_all add: u_def ret_def set_a0_def upd_tf_def upd_proc_def)
  have "deliver t phys me s = Ret u" by (simp add: d v(1) u_def)
  moreover have "placed u Q (if p_state (procs s t) = 5 then join_from (tp s) (priority (procs s t)) BlockedIpc t L else L)"
    by (subst placed_cong [where s = "upd_proc t (\<lambda>p. p\<lparr>mailbox_status := 1\<rparr>) v"])
      (simp_all add: u field_upd placed_upd_proc [OF v(2)])
  moreover have "calm u" "curr u = curr s" using v(3,4) by (simp_all add: calm_def u curr_def)
  moreover have "delivered t phys me s u"
    using v(5-7) box by (simp add: delivered_def u(1) upd_proc_def) (simp add: u_def reg_ret)
  ultimately show ?thesis by blast
qed

section \<open>A full mailbox\<close>

definition hold_back :: "u64 \<Rightarrow> kstate \<Rightarrow> kstate outcome" where
  "hold_back you s =
     block_ipc_send_process (curr s) (upd_proc (curr s) (\<lambda>p. p\<lparr>ipc_pending_pid := you\<rparr>)
       (upd_tf (p_tf (procs s (curr s))) (\<lambda>t. t\<lparr>epc := epc t - 4\<rparr>) s))"

definition held_back :: "u64 \<Rightarrow> kstate \<Rightarrow> kstate \<Rightarrow> bool" where
  "held_back you s u \<longleftrightarrow>
     (let me = curr s; f = p_tf (procs s me) in
      tframes u = (tframes s)(f := (tframes s f)\<lparr>epc := epc (tframes s f) - 4\<rparr>) \<and>
      data (procs u me) = data ((procs s me)\<lparr>ipc_pending_pid := you, p_state := 6\<rparr>) \<and>
      (\<forall>q. q \<noteq> me \<longrightarrow> data (procs u q) = data (procs s q)))"

lemma hold_back_ok:
  assumes pl: "placed s Q L" and c: "calm s" and r: "tp s \<in> Q" and i: "i < 32"
    and p: "curr s \<in> set (L (OnQueue (tp s) i))" and n: "pid (procs s (curr s)) \<noteq> 0"
  shows "\<exists>u. hold_back you s = Ret u \<and> calm u \<and> curr u = curr s \<and> held_back you s u \<and>
    placed u Q (leave_for (tp s) i BlockedIpcSend (curr s) L)"
proof -
  define s1 where "s1 = upd_tf (p_tf (procs s (curr s))) (\<lambda>t. t\<lparr>epc := epc t - 4\<rparr>) s"
  define s2 where "s2 = upd_proc (curr s) (\<lambda>p. p\<lparr>ipc_pending_pid := you\<rparr>) s1"
  have s1: "procs s1 = procs s" "rqs s1 = rqs s" "lists s1 = lists s" by (simp_all add: s1_def upd_tf_def)
  have "placed s1 Q L" using pl placed_cong [OF s1] by simp
  then have pl2: "placed s2 Q L" unfolding s2_def by (rule placed_upd_proc) simp_all
  have s2: "tp s2 = tp s" "curr s2 = curr s" "calm s2"
      "procs s2 q = (if q = curr s then (procs s q)\<lparr>ipc_pending_pid := you\<rparr> else procs s q)" for q
    using c by (simp_all add: s2_def s1_def upd_proc_def upd_tf_def curr_def calm_def)
  obtain u where u: "block_on BlockedIpcSend (state_code BlockedIpcSend) id (curr s) s2 = Ret u"
    "placed u Q (leave_for (tp s) i BlockedIpcSend (curr s) L)" "calm u" "curr u = curr s"
    "\<And>q. data (procs u q) = data (if q = curr s then id ((procs s2 (curr s))\<lparr>p_state := state_code BlockedIpcSend\<rparr>) else procs s2 q)"
    using block_on_ok [OF pl2 s2(3), where f = id and w = BlockedIpcSend and i = i and p = "curr s"] r i p n
    by (auto simp: s2)
  have h: "hold_back you s = block_on BlockedIpcSend (state_code BlockedIpcSend) id (curr s) s2"
    by (simp add: hold_back_def block_ipc_send_process_def s2_def s1_def)
  have "tframes u = tframes s2" by (rule block_on_frames [OF u(1)])
  then have "held_back you s u"
    using u(5) by (simp add: held_back_def Let_def s2(4)) (simp add: s2_def s1_def upd_tf_def)
  then show ?thesis using u h by auto
qed

section \<open>The call\<close>

definition receiver_address :: "kstate \<Rightarrow> u64" where
  "receiver_address s = uvm_translate (p_satp (procs s (curr s))) (reg 11 s) s"

lemma send_cases:
  assumes lk: "lookup_ok s Q L" and phys: "receiver_address s \<noteq> 0"
  shows "\<exists>t out. found s L (searched s) (reg 10 s) t \<and> sys_send_msg s =
    (if t = 0 then Ret (ret (- 1) s)
     else if \<not> may_send t s then Ret (ret (- 1) (s\<lparr>uart_out := uart_out s @ out\<rparr>))
     else if mailbox_status (procs s t) = 0
     then deliver t (receiver_address s) (pid (procs s (curr s))) s
     else hold_back (pid (procs s t)) s)"
proof -
  obtain t where t: "get_process_by_pid (reg 10 s) s = Ret (t, s)" "found s L (searched s) (reg 10 s) t"
    using lookup [OF lk] by blast
  have "calm s" using lk by (simp add: lookup_ok_def)
  note d = deny_ok [OF this]
  let ?me = "pid (procs s (curr s))" and ?you = "pid (procs s t)"
  obtain i1 i2 i3 where g: "sys_send_msg s =
    (if t = 0 then Ret (ret (- 1) s)
     else if \<not> has_rights (curr s) ?you 15 s then deny (curr s) i1 s
     else if \<not> has_rights (curr s) ?you 2 s then deny (curr s) i2 s
     else if \<not> has_rights t ?me 1 s then deny t i3 s
     else if mailbox_status (procs s t) = 0 then deliver t (receiver_address s) ?me s
     else hold_back ?you s)"
    by (simp only: sys_send_msg_def Let_def receiver_address_def [symmetric] phys if_False t(1) bindO.simps
        split_conv deliver_def hold_back_def curr_upd)
  have no: "\<not> may_send t s \<Longrightarrow> t \<noteq> 0 \<Longrightarrow> \<exists>p items. sys_send_msg s = deny p items s"
    unfolding g may_send_def has_rights_1_2 [symmetric] by auto
  have yes: "may_send t s \<Longrightarrow> has_rights (curr s) ?you 15 s"
    unfolding may_send_def using has_rights_some [of 1] by simp
  show ?thesis
  proof (cases "t \<noteq> 0 \<and> \<not> may_send t s")
    case True
    then obtain p items where "sys_send_msg s = deny p items s" using no by blast
    then show ?thesis using d [of p items] t(2) True by auto
  next
    case False
    then show ?thesis using t(2) yes
      by (intro exI [of _ t] exI [of _ "[]"]) (auto simp: g may_send_def has_rights_1_2)
  qed
qed

section \<open>Waking the senders\<close>

lemma find_sender_ok:
  assumes "dpath (nxp s) (pvp s) v h xs 0" and "0 \<notin> set xs" and "length xs \<le> k"
  shows "find_sender k n h s = Ret (case find (\<lambda>p. ipc_pending_pid (procs s p) = n) xs of Some p \<Rightarrow> p | None \<Rightarrow> 0)"
  using assms
proof (induction xs arbitrary: v h k)
  case Nil
  then show ?case by (cases k) simp_all
next
  case (Cons x xs)
  then obtain m where k: "k = Suc m" "length xs \<le> m" by (cases k) auto
  have h: "h = x" "x \<noteq> 0" "dpath (nxp s) (pvp s) x (nxp s x) xs 0" "0 \<notin> set xs" using Cons.prems by auto
  show ?case using Cons.IH [OF h(3,4) k(2)] h(1,2) by (simp add: k proc_links)
qed

lemma find_split:
  "find P xs = Some p \<Longrightarrow> \<exists>as bs. xs = as @ p # bs \<and> P p \<and> (\<forall>a\<in>set as. \<not> P a)"
proof (induction xs)
  case (Cons x xs)
  show ?case
  proof (cases "P x")
    case True
    then have "x # xs = [] @ p # xs \<and> P p \<and> (\<forall>a\<in>set []. \<not> P a)" using Cons.prems by simp
    then show ?thesis by blast
  next
    case False
    then obtain as bs where "xs = as @ p # bs" "P p" "\<forall>a\<in>set as. \<not> P a" using Cons by auto
    then have "x # xs = (x # as) @ p # bs \<and> P p \<and> (\<forall>a\<in>set (x # as). \<not> P a)" using False by simp
    then show ?thesis by blast
  qed
qed simp

lemma find_sender_locked [simp]: "find_sender k n p (s\<lparr>locks := l\<rparr>) = find_sender k n p s"
  by (induction k arbitrary: p) simp_all

definition senders :: "kstate \<Rightarrow> layout_of \<Rightarrow> u64 \<Rightarrow> u64 list" where
  "senders s L n = filter (\<lambda>p. ipc_pending_pid (procs s p) = n) (L (OnList BlockedIpcSend))"

text \<open>The layout after they have been woken, one after the other.\<close>

definition woken :: "kstate \<Rightarrow> u64 list \<Rightarrow> layout_of \<Rightarrow> layout_of" where
  "woken s ps L = fold (\<lambda>p L. join_from (tp s) (priority (procs s p)) BlockedIpcSend p L) ps L"

definition only_woken :: "u64 set \<Rightarrow> kstate \<Rightarrow> kstate \<Rightarrow> bool" where
  "only_woken W s u \<longleftrightarrow> (\<forall>q. \<exists>k. (q \<noteq> curr s \<longrightarrow> k = ticks_left (procs s q)) \<and>
     data (procs u q) = data ((if q \<in> W then (procs s q)\<lparr>p_state := 0\<rparr> else procs s q)\<lparr>ticks_left := k\<rparr>))"

lemma only_woken_refl: "only_woken {} s s"
  unfolding only_woken_def by (rule allI, rule_tac x = "ticks_left (procs s q)" in exI) simp

lemma only_woken_trans:
  assumes "only_woken W s t" and "only_woken V t u" and "curr t = curr s"
  shows "only_woken (W \<union> V) s u"
  unfolding only_woken_def
proof
  fix q
  obtain k where k: "q \<noteq> curr s \<longrightarrow> k = ticks_left (procs s q)"
    "data (procs t q) = data ((if q \<in> W then (procs s q)\<lparr>p_state := 0\<rparr> else procs s q)\<lparr>ticks_left := k\<rparr>)"
    using assms(1) unfolding only_woken_def by blast
  obtain j where j: "q \<noteq> curr s \<longrightarrow> j = ticks_left (procs t q)"
    "data (procs u q) = data ((if q \<in> V then (procs t q)\<lparr>p_state := 0\<rparr> else procs t q)\<lparr>ticks_left := j\<rparr>)"
    using assms(2) unfolding only_woken_def assms(3) by blast
  have t: "ticks_left (procs t q) = k" using data_fields(11) [OF k(2)] by simp
  note st = data_ticks [OF data_state [OF k(2)], of j 0] and tk = data_ticks [OF k(2), of j]
  have "data (procs u q) = data ((if q \<in> W \<union> V then (procs s q)\<lparr>p_state := 0\<rparr> else procs s q)\<lparr>ticks_left := j\<rparr>)"
    using j(2) st tk by (cases "q \<in> V"; cases "q \<in> W") simp_all
  then show "\<exists>k. (q \<noteq> curr s \<longrightarrow> k = ticks_left (procs s q)) \<and>
     data (procs u q) = data ((if q \<in> W \<union> V then (procs s q)\<lparr>p_state := 0\<rparr> else procs s q)\<lparr>ticks_left := k\<rparr>)"
    using j(1) t k(1) by (intro exI [of _ j]) auto
qed

lemma wake_senders_ok:
  assumes "placed s Q L" and "calm s" and "tp s \<in> Q" and "length (L (OnList BlockedIpcSend)) \<le> walk_fuel"
    and "length (senders s L (pid (procs s (curr s)))) < k"
  shows "\<exists>u. wake_senders k s = Ret u \<and>
    placed u Q (woken s (senders s L (pid (procs s (curr s)))) L) \<and> calm u \<and> curr u = curr s \<and>
    only_woken (set (senders s L (pid (procs s (curr s))))) s u"
  using assms
proof (induction k arbitrary: s L)
  case (Suc k)
  let ?n = "pid (procs s (curr s))" and ?xs = "L (OnList BlockedIpcSend)" and ?w = "OnList BlockedIpcSend"
  let ?P = "\<lambda>p. ipc_pending_pid (procs s p) = ?n"
  have l: "linked s ?w ?xs" by (rule placedD(1) [OF Suc.prems(1)]) simp
  have f: "find_sender walk_fuel ?n (lists s BlockedIpcSend) s = Ret (case find ?P ?xs of Some p \<Rightarrow> p | None \<Rightarrow> 0)"
    using find_sender_ok [of s 0 "lists s BlockedIpcSend" ?xs] l Suc.prems(4) by (auto simp: dlist_def)
  have cu: "curr (s\<lparr>locks := lk\<rparr>) = curr s" for lk by (simp add: curr_def)
  have w: "wake_senders (Suc k) s = (let ptr = (case find ?P ?xs of Some p \<Rightarrow> p | None \<Rightarrow> 0) in
      if ptr \<noteq> 0 then bindO (unblock_ipc_send_process ptr s) (wake_senders k) else Ret s)"
    using f by (simp add: acquire_calm [OF Suc.prems(2)] release_own [OF Suc.prems(2)] Let_def cu)
  show ?case
  proof (cases "find ?P ?xs")
    case None
    then have "senders s L ?n = []" by (auto simp: senders_def find_None_iff filter_empty_conv)
    moreover have "wake_senders (Suc k) s = Ret s" using w None by simp
    ultimately show ?thesis using Suc.prems(1,2) by (simp add: woken_def only_woken_refl del: wake_senders.simps)
  next
    case (Some p)
    then obtain as bs where xs: "?xs = as @ p # bs" "?P p" "\<forall>a\<in>set as. \<not> ?P a"
      using find_split [OF Some] by blast
    have p: "p \<in> set ?xs" "p \<noteq> 0" using xs(1) linked_nonzero [OF l] by auto
    let ?i = "priority (procs s p)"
    define L' where "L' = join_from (tp s) ?i BlockedIpcSend p L"
    obtain t where t: "unblock_from BlockedIpcSend (state_code BlockedIpcSend) p s = Ret t" "placed t Q L'" "calm t"
      "curr t = curr s" "tp t = tp s"
      "\<And>q. data (procs t q) = data ((if q = p then (procs s p)\<lparr>p_state := 0\<rparr> else procs s q)
       \<lparr>ticks_left := (if q = curr s \<and> priority (procs s p) < priority (procs s (curr s)) then 0 else ticks_left (procs s q))\<rparr>)"
      using unblock_from_ok [OF Suc.prems(1-3) p(1)] unfolding L'_def by blast
    have same: "pid (procs t q) = pid (procs s q)" "ipc_pending_pid (procs t q) = ipc_pending_pid (procs s q)"
      "priority (procs t q) = priority (procs s q)" for q
      using data_fields(5,9,15) [OF t(6) [of q]] by (simp_all split: if_splits)
    have tick: "only_woken {p} s t"
      unfolding only_woken_def
    proof
      fix q
      show "\<exists>k. (q \<noteq> curr s \<longrightarrow> k = ticks_left (procs s q)) \<and>
        data (procs t q) = data ((if q \<in> {p} then (procs s q)\<lparr>p_state := 0\<rparr> else procs s q)\<lparr>ticks_left := k\<rparr>)"
        by (rule exI [of _ "if q = curr s \<and> ?i < priority (procs s (curr s)) then 0 else ticks_left (procs s q)"])
          (use t(6) [of q] in auto)
    qed
    have "distinct (as @ p # bs)" using linked_distinct [OF l] xs(1) by simp
    then have L': "L' ?w = as @ bs" using xs(1) by (simp add: L'_def join_from_def remove1_split del: remove1_append)
    have none: "filter ?P as = []" using xs(3) by (auto simp: filter_empty_conv)
    have ss: "senders t L' ?n = filter ?P bs" "senders s L ?n = p # filter ?P bs"
      using xs(1,2) by (simp_all add: senders_def same L' none)
    have n: "pid (procs t (curr t)) = ?n" by (simp add: t(4) same)
    have "\<exists>u. wake_senders k t = Ret u \<and> placed u Q (woken t (filter ?P bs) L') \<and> calm u \<and> curr u = curr t \<and>
        only_woken (set (filter ?P bs)) t u"
      using Suc.IH [OF t(2,3)] t(5) Suc.prems(3-5) by (simp add: n ss L' xs(1))
    moreover have "woken t ps M = woken s ps M" for ps M by (simp add: woken_def t(5) same)
    moreover have "woken s (filter ?P bs) L' = woken s (senders s L ?n) L" by (simp add: ss woken_def L'_def)
    moreover have "set (senders s L ?n) = {p} \<union> set (filter ?P bs)" by (simp add: ss)
    moreover have "wake_senders (Suc k) s = wake_senders k t"
      using w Some p(2) t(1) by (simp add: unblock_ipc_send_process_def Let_def del: wake_senders.simps)
    ultimately show ?thesis using only_woken_trans [OF tick _ t(4)] t(4) by (auto simp del: wake_senders.simps)
  qed
qed simp

section \<open>Sending and receiving\<close>

text \<open>
  C26. Sending from a buffer that is mapped (the call with any other ends the process): the receiver is looked up by id; without one, or without the sender's write right
  on the receiver and the receiver's read right on the sender, the call answers -1 and changes
  nothing but the console. With both, an empty mailbox takes the nine words of the message with
  the true sender's id in the first, a receiver that waits for a message is made ready, and the
  answer is 1; with a full mailbox the sender goes to the list of blocked senders and its
  program counter back to the call, so that it sends again when it runs. Nothing else moves.
\<close>

theorem send_msg_correct:
  assumes lk: "lookup_ok s Q L" and r: "tp s \<in> Q" and phys: "receiver_address s \<noteq> 0" and i: "i < 32"
    and p: "curr s \<in> set (L (OnQueue (tp s) i))" and n: "pid (procs s (curr s)) \<noteq> 0"
  shows "\<exists>t out. found s L (searched s) (reg 10 s) t \<and>
    (if t = 0 then sys_send_msg s = Ret (ret (- 1) s)
     else if \<not> may_send t s then sys_send_msg s = Ret (ret (- 1) (s\<lparr>uart_out := uart_out s @ out\<rparr>))
     else \<exists>u. sys_send_msg s = Ret u \<and> calm u \<and> curr u = curr s \<and>
       (if mailbox_status (procs s t) = 0
        then delivered t (receiver_address s) (pid (procs s (curr s))) s u \<and>
          placed u Q (if p_state (procs s t) = 5 then join_from (tp s) (priority (procs s t)) BlockedIpc t L else L)
        else held_back (pid (procs s t)) s u \<and> placed u Q (leave_for (tp s) i BlockedIpcSend (curr s) L)))"
proof -
  obtain t out where t: "found s L (searched s) (reg 10 s) t" and e: "sys_send_msg s =
    (if t = 0 then Ret (ret (- 1) s)
     else if \<not> may_send t s then Ret (ret (- 1) (s\<lparr>uart_out := uart_out s @ out\<rparr>))
     else if mailbox_status (procs s t) = 0
     then deliver t (receiver_address s) (pid (procs s (curr s))) s
     else hold_back (pid (procs s t)) s)" using send_cases [OF lk phys] by blast
  have pl: "placed s Q L" and c: "calm s" using lk by (simp_all add: lookup_ok_def)
  have w: "t \<noteq> 0 \<Longrightarrow> p_state (procs s t) = 5 \<Longrightarrow> t \<in> set (L (OnList BlockedIpc))"
    using waiting_receiver [OF lk t] by blast
  note h = hold_back_ok [OF pl c r i p n, of "pid (procs s t)"]
  note d = deliver_ok [OF pl c r, of t "receiver_address s" "pid (procs s (curr s))"]
  show ?thesis
    by (rule exI [of _ t], rule exI [of _ out]) (use t w d h in \<open>auto simp: e\<close>)
qed

text \<open>Receiving takes the message and wakes the senders that wait for this mailbox.\<close>

definition taken :: "kstate \<Rightarrow> u64 \<Rightarrow> kstate" where
  "taken s phys = ret 1 (upd_proc (curr s) (\<lambda>p. p\<lparr>mailbox_status := 0\<rparr>) (copy_from_mailbox (curr s) phys s))"

lemma mem_upd [simp]:
  "mem (upd_proc p f s) = mem s" "mem (upd_rq r g s) = mem s" "mem (set_list w q s) = mem s"
  "mem (set_circle r i q s) = mem s" "mem (release l s) = mem s" "mem (set_next p q s) = mem s"
  "mem (set_prev p q s) = mem s" "mem (trigger_software_interrupt s) = mem s" "mem (upd_tf a h s) = mem s"
  by (simp_all add: upd_proc_def upd_rq_def set_list_def set_circle_def release_def set_next_def set_prev_def
      trigger_software_interrupt_def upd_tf_def)

text \<open>Waking touches no memory and no register of a trap frame.\<close>

definition regs :: "kstate \<Rightarrow> u64 \<Rightarrow> nat \<Rightarrow> u64" where
  "regs s a = u_context (tframes s a)"

lemma regs_upd [simp]:
  "regs (upd_proc p f s) = regs s" "regs (release l s) = regs s" "regs (trigger_software_interrupt s) = regs s"
  "regs (s\<lparr>locks := lk\<rparr>) = regs s"
  by (simp_all add: regs_def fun_eq_iff)

lemma wake_keeps:
  "mem (list_unlink w p s) = mem s" "regs (list_unlink w p s) = regs s"
  "mem (rq_insert r p s) = mem s" "regs (rq_insert r p s) = regs s"
  by (simp_all add: list_unlink_def rq_insert_def rq_link_def Let_def regs_def fun_eq_iff upd_tf_def)

lemma unblock_keeps: "unblock_from w c p s = Ret t \<Longrightarrow> mem t = mem s \<and> regs t = regs s"
  by (auto simp: unblock_from_def wake_from_def acquire_def Let_def preempt_if_higher_def wake_keeps split: if_splits)

lemma wake_senders_keeps: "wake_senders k s = Ret u \<Longrightarrow> mem u = mem s \<and> regs u = regs s"
proof (induction k arbitrary: s)
  case (Suc k)
  then obtain s1 ptr where s1: "acquire (ListLock BlockedIpcSend) s = Ret s1"
    and u: "(let s = release (ListLock BlockedIpcSend) s1 in
       if ptr \<noteq> 0 then bindO (unblock_ipc_send_process ptr s) (wake_senders k) else Ret s) = Ret u" by auto
  have "mem s1 = mem s \<and> regs s1 = regs s" using s1 by (auto simp: acquire_def regs_def fun_eq_iff)
  then show ?case
    using u unblock_keeps Suc.IH
    by (fastforce simp: Let_def unblock_ipc_send_process_def split: if_splits)
qed simp

lemma cells_apart: "i < 9 \<Longrightarrow> j < 9 \<Longrightarrow> i \<noteq> j \<Longrightarrow> apart (a + 8 * of_nat i) (a + 8 * of_nat j)"
proof -
  assume ij: "i < 9" "j < 9" "i \<noteq> j"
  have "8 \<le> (a + 8 * of_nat y) - (a + 8 * of_nat x)" if "x < 9" "y < 9" "x \<noteq> y" for x y :: nat
  proof -
    have "(a + 8 * of_nat y) - (a + 8 * of_nat x) = (8 * (of_nat y - of_nat x) :: u64)" by (simp add: algebra_simps)
    also have "8 \<le> \<dots>"
    proof (cases "x < y")
      case True
      then have e: "(8 * (of_nat y - of_nat x) :: u64) = of_nat (8 * (y - x))" by (simp add: of_nat_diff algebra_simps)
      show ?thesis unfolding e using that True by (simp add: word_le_nat_alt unat_of_nat del: of_nat_mult of_nat_diff)
    next
      case False
      then have "(8 * (of_nat y - of_nat x) :: u64) = - of_nat (8 * (x - y))" by (simp add: of_nat_diff algebra_simps)
      also have "\<dots> = of_nat (2 ^ 64 - 8 * (x - y))" using that by (simp add: of_nat_diff)
      finally have e: "(8 * (of_nat y - of_nat x) :: u64) = of_nat (2 ^ 64 - 8 * (x - y))" .
      have "8 \<le> 2 ^ 64 - 8 * (x - y)" "2 ^ 64 - 8 * (x - y) < 2 ^ 64" using that False by simp_all
      then show ?thesis unfolding e word_le_nat_alt by (simp only: unat_of_nat take_bit_nat_eq_self len_of_numeral_defs) simp
    qed
    finally show ?thesis .
  qed
  then show ?thesis using ij by (simp add: apart_def)
qed

lemma procs_store [simp]: "procs (store a v s) = procs s"
  by (simp add: store_def)

lemma load_store: "load (store a v s) a = v" "apart a b \<Longrightarrow> load (store a v s) b = load s b"
  by (simp_all add: load_def store_def)

lemma copied_cells:
  assumes "k < 9" and "set ks \<subseteq> {0..<9}"
  shows "load (fold (\<lambda>i s. store (a + 8 * of_nat i) (mailbox (procs s p) i) s) ks s) (a + 8 * of_nat k) =
      (if k \<in> set ks then mailbox (procs s p) k else load s (a + 8 * of_nat k))"
  using assms
proof (induction ks arbitrary: s)
  case (Cons i ks)
  have "load (store (a + 8 * of_nat i) v s) (a + 8 * of_nat k) = (if i = k then v else load s (a + 8 * of_nat k))" for v
    using Cons.prems cells_apart [of i k] by (cases "i = k") (simp_all add: load_store)
  then show ?case using Cons by auto
qed simp

lemma copied_message: "k < 9 \<Longrightarrow> load (copy_from_mailbox p a s) (a + 8 * of_nat k) = mailbox (procs s p) k"
  using copied_cells [of k "[0..<9]" a p s] by (simp add: copy_from_mailbox_def del: upt_rec_numeral)

lemma copy_other:
  "procs (copy_from_mailbox p a s) = procs s" "rqs (copy_from_mailbox p a s) = rqs s" "lists (copy_from_mailbox p a s) = lists s"
  "locks (copy_from_mailbox p a s) = locks s" "tp (copy_from_mailbox p a s) = tp s" "tframes (copy_from_mailbox p a s) = tframes s"
proof -
  let ?f = "fold (\<lambda>i s. store (a + 8 * of_nat i) (mailbox (procs s p) i) s)"
  have "procs (?f is s) = procs s \<and> rqs (?f is s) = rqs s \<and> lists (?f is s) = lists s \<and> locks (?f is s) = locks s \<and>
      tp (?f is s) = tp s \<and> tframes (?f is s) = tframes s" for "is"
    by (induction "is" arbitrary: s) (simp_all add: store_def)
  then show "procs (copy_from_mailbox p a s) = procs s" "rqs (copy_from_mailbox p a s) = rqs s" "lists (copy_from_mailbox p a s) = lists s"
    "locks (copy_from_mailbox p a s) = locks s" "tp (copy_from_mailbox p a s) = tp s" "tframes (copy_from_mailbox p a s) = tframes s"
    by (simp_all only: copy_from_mailbox_def)
qed

lemma curr_copy [simp]: "curr (copy_from_mailbox p a s) = curr s"
  by (simp add: curr_def copy_other)

text \<open>Receiving with a message in the mailbox.\<close>

lemma recv_full:
  assumes pl: "placed s Q L" and c: "calm s" and r: "tp s \<in> Q" and len: "length (L (OnList BlockedIpcSend)) < walk_fuel"
    and phys: "phys = uvm_translate (p_satp (procs s (curr s))) (reg 10 s) s" "phys \<noteq> 0"
    and full: "mailbox_status (procs s (curr s)) \<noteq> 0"
  shows "\<exists>u. sys_recv_msg s = Ret u \<and> calm u \<and> curr u = curr s \<and>
    (\<forall>k<9. load u (phys + 8 * of_nat k) = mailbox (procs s (curr s)) k) \<and>
    mailbox_status (procs u (curr s)) = 0 \<and> reg 10 u = 1 \<and>
    placed u Q (woken s (senders s L (pid (procs s (curr s)))) L)"
proof -
  let ?me = "curr s"
  define s1 where "s1 = copy_from_mailbox ?me phys s"
  define s2 where "s2 = ret 1 (upd_proc ?me (\<lambda>p. p\<lparr>mailbox_status := 0\<rparr>) s1)"
  have s1: "procs s1 = procs s" "rqs s1 = rqs s" "lists s1 = lists s" "locks s1 = locks s" "tp s1 = tp s" "tframes s1 = tframes s"
    by (simp_all add: s1_def copy_other)
  have s2: "procs s2 = procs (upd_proc ?me (\<lambda>p. p\<lparr>mailbox_status := 0\<rparr>) s1)" "rqs s2 = rqs s" "lists s2 = lists s"
    "locks s2 = locks s" "tp s2 = tp s" "mem s2 = mem s1"
    using s1 by (simp_all add: s2_def ret_def set_a0_def upd_tf_def upd_proc_def)
  have cu: "curr s2 = ?me" "curr s1 = ?me" using s2 s1 by (simp_all add: curr_def)
  have pl1: "placed s1 Q L" using pl placed_cong [OF s1(1-3)] by simp
  have "placed s2 Q L"
    by (subst placed_cong [where s = "upd_proc ?me (\<lambda>p. p\<lparr>mailbox_status := 0\<rparr>) s1"])
      (simp_all add: s2 s1 field_upd placed_upd_proc [OF pl1])
  moreover have "calm s2" using c by (simp add: calm_def s2)
  moreover have same: "pid (procs s2 q) = pid (procs s q)" "ipc_pending_pid (procs s2 q) = ipc_pending_pid (procs s q)"
    "priority (procs s2 q) = priority (procs s q)" "mailbox_status (procs s2 ?me) = 0" for q
    by (simp_all add: s2 s1 upd_proc_def)
  moreover have "length (senders s2 L (pid (procs s2 (curr s2)))) < walk_fuel"
    using len by (auto simp: senders_def intro: le_less_trans [OF length_filter_le])
  ultimately obtain u where u: "wake_senders walk_fuel s2 = Ret u"
    "placed u Q (woken s2 (senders s2 L (pid (procs s2 (curr s2)))) L)" "calm u" "curr u = curr s2"
    "only_woken (set (senders s2 L (pid (procs s2 (curr s2))))) s2 u"
    using wake_senders_ok [of s2 Q L walk_fuel] r s2(5) len by auto
  have "sys_recv_msg s = Ret u"
    using full phys u(1) by (simp add: sys_recv_msg_def Let_def s2_def s1_def)
  moreover have "load u (phys + 8 * of_nat k) = mailbox (procs s ?me) k" if "k < 9" for k
    using copied_message [OF that, of ?me phys s] wake_senders_keeps [OF u(1)] s2(6) by (simp add: load_def s1_def)
  moreover obtain j where j: "data (procs u ?me) = data ((if ?me \<in> set (senders s2 L (pid (procs s2 (curr s2))))
      then (procs s2 ?me)\<lparr>p_state := 0\<rparr> else procs s2 ?me)\<lparr>ticks_left := j\<rparr>)"
    using u(5) unfolding only_woken_def by blast
  moreover have "mailbox_status (procs u ?me) = 0" "p_tf (procs u ?me) = p_tf (procs s2 ?me)"
    using data_fields(2,16) [OF j] same(4) by (simp_all split: if_splits)
  moreover have "reg 10 u = 1"
  proof -
    have "reg 10 u = regs u (p_tf (procs u (curr u))) 10" by (simp add: reg_def regs_def)
    also have "\<dots> = regs s2 (p_tf (procs s2 ?me)) 10"
      using wake_senders_keeps [OF u(1)] \<open>p_tf (procs u ?me) = _\<close> by (simp add: u(4) cu)
    also have "\<dots> = reg 10 s2" by (simp add: reg_def regs_def cu)
    finally show ?thesis by (simp add: s2_def reg_ret)
  qed
  moreover have "woken s2 ps M = woken s ps M" for ps M unfolding woken_def s2(5) same(3) by (rule refl)
  moreover have "senders s2 L m = senders s L m" for m by (simp add: senders_def same)
  ultimately show ?thesis using u(2-4) full by (simp add: cu same)
qed

text \<open>
  C27. Receiving: an empty mailbox moves the caller to the list of blocked receivers, with its
  registers and its program counter as they were, so that it will not ask again when it is
  woken. Otherwise the nine words of the mailbox are at the translated address, the mailbox is
  empty, the answer is 1, and every process that was blocked on sending to the caller is made
  ready, in the order of the list; the call always returns.
\<close>

theorem recv_msg_correct:
  assumes pl: "placed s Q L" and c: "calm s" and r: "tp s \<in> Q" and i: "i < 32"
    and p: "curr s \<in> set (L (OnQueue (tp s) i))" and n: "pid (procs s (curr s)) \<noteq> 0"
    and len: "length (L (OnList BlockedIpcSend)) < walk_fuel"
    and phys: "phys = uvm_translate (p_satp (procs s (curr s))) (reg 10 s) s" "phys \<noteq> 0"
  shows "\<exists>u. sys_recv_msg s = Ret u \<and> calm u \<and> curr u = curr s \<and>
    (if mailbox_status (procs s (curr s)) = 0
     then placed u Q (leave_for (tp s) i BlockedIpc (curr s) L) \<and> tframes u = tframes s
     else (\<forall>k<9. load u (phys + 8 * of_nat k) = mailbox (procs s (curr s)) k) \<and>
       mailbox_status (procs u (curr s)) = 0 \<and> reg 10 u = 1 \<and>
       placed u Q (woken s (senders s L (pid (procs s (curr s)))) L))"
proof (cases "mailbox_status (procs s (curr s)) = 0")
  case True
  obtain u where u: "block_on BlockedIpc (state_code BlockedIpc) id (curr s) s = Ret u"
    "placed u Q (leave_for (tp s) i BlockedIpc (curr s) L)" "calm u" "curr u = curr s"
    using block_on_ok [OF pl c r i p n, of id BlockedIpc] by auto
  then have "sys_recv_msg s = Ret u"
    using True phys by (simp add: sys_recv_msg_def Let_def block_ipc_process_def)
  then show ?thesis using u True block_on_frames [OF u(1)] by auto
next
  case False
  then show ?thesis using recv_full [OF pl c r len phys False] by simp
qed

section \<open>An exchange\<close>

text \<open>
  Process 1 may write to process 2, which may read from it; page 0 of process 1 is at 0x53000, and
  a message waits in its mailbox. \<open>a0\<close> is the first argument of the call.
\<close>

definition post_ks :: "u64 \<Rightarrow> kstate" where
  "post_ks a0 = demo_ks\<lparr>procs := (\<lambda>p. (demo_procs p)\<lparr>capability_root := 16 * p, p_satp := 0x50,
       mailbox_status := if p = 0x3000 then 1 else 0, mailbox := (\<lambda>i. 7)\<rparr>),
     mem := (\<lambda>a. if a = 0x30001 then 0x02 else if a = 0x40000 then 0x10
       else if a = 0x50000 then 0x01 else if a = 0x50001 then 0x44 else if a = 0x50002 then 0x01
       else if a = 0x51000 then 0x01 else if a = 0x51001 then 0x48 else if a = 0x51002 then 0x01
       else if a = 0x52000 then 0x17 else if a = 0x52001 then 0x4C else if a = 0x52002 then 0x01 else 0),
     tframes := (\<lambda>_. \<lparr>u_context = (\<lambda>i. if i = 10 then a0 else 0),
       epc = 0, sstatus = 0, kernel_satp = 0, kernel_sp = 0, kernel_trap = 0, user_satp = 0, kernel_tp = 0\<rparr>)\<rparr>"

lemma post_ks_fields:
  "procs (post_ks a0) p = (demo_procs p)\<lparr>capability_root := 16 * p, p_satp := 0x50,
       mailbox_status := if p = 0x3000 then 1 else 0, mailbox := (\<lambda>i. 7)\<rparr>"
  "rqs (post_ks a0) = demo_rq" "locks (post_ks a0) = (\<lambda>_. 0)" "curr (post_ks a0) = 0x3000" "hart (post_ks a0) = 2"
  "closet_rq (post_ks a0) j = (if j = 0 then 0x1000 else if j = 1 then 0x1800 else 0)" "tp (post_ks a0) = 0x1000"
  "lists (post_ks a0) w = (if w = Sleeping then 0x5000 else 0)" "reg 10 (post_ks a0) = a0" "reg 11 (post_ks a0) = 0"
  by (simp_all add: post_ks_def reg_def) (simp add: curr_def demo_rq_def)

lemma post_ks_placed: "placed (post_ks a0) demo_Q demo_L"
proof -
  have n: "nxp (post_ks a0) = nxp demo_ks" "pvp (post_ks a0) = pvp demo_ks"
    by (simp_all add: nxp_def pvp_def post_ks_fields fun_eq_iff)
  have "linked (post_ks a0) x (demo_L x)" if "x \<in> places demo_Q" for x
    using placedD(1) [OF demo_placed that] by (cases x) (auto simp: post_ks_fields n)
  moreover have "fits (post_ks a0) x p" if "x \<in> places demo_Q" "p \<in> set (demo_L x)" for x p
    using placedD(2) [OF demo_placed that] by (cases x) (simp_all add: fits.simps post_ks_fields)
  ultimately show ?thesis using demo_placed by (simp add: placed_def)
qed

lemma post_ks_ok: "lookup_ok (post_ks a0) demo_Q demo_L" "calm (post_ks a0)" "tp (post_ks a0) \<in> demo_Q"
proof -
  have "length (demo_L x) \<le> walk_fuel" for x by (cases x) (simp_all add: walk_fuel_def)
  then show "lookup_ok (post_ks a0) demo_Q demo_L"
    using post_ks_placed by (simp add: lookup_ok_def calm_def post_ks_fields) (simp add: demo_Q_def)
  show "calm (post_ks a0)" "tp (post_ks a0) \<in> demo_Q" by (simp_all add: calm_def post_ks_fields demo_Q_def)
qed

lemma post_ks_words:
  "load (post_ks a0) 0x50000 = 0x14401" "load (post_ks a0) 0x51000 = 0x14801" "load (post_ks a0) 0x52000 = 0x14C17"
  "load (post_ks a0) 0x30000 = 0x200" "load (post_ks a0) 0x40000 = 0x10"
  by (simp_all add: load_def ld64_def ld_bytes_numeral post_ks_def)

lemma post_ks_address: "uvm_translate 0x50 0 (post_ks a0) = 0x53000"
proof -
  have "satp_root 0x50 = 0x50000" "vpn i 0 = 0" for i by (simp_all add: satp_root_def vpn_def)
  moreover have "pte_addr 0x14401 = 0x51000" "pte_addr 0x14801 = 0x52000" "pte_addr 0x14C17 = 0x53000"
    by (simp_all add: pte_addr_def)
  ultimately show ?thesis by (simp add: uvm_translate_def post_ks_words Let_def)
qed

theorem send_msg_correct_witness:
  "\<exists>u. sys_send_msg (post_ks 2) = Ret u \<and> mailbox (procs u 0x4000) 0 = 1 \<and>
    mailbox_status (procs u 0x4000) = 1 \<and> reg 10 u = 1"
proof -
  let ?s = "post_ks 2"
  have addr: "receiver_address ?s = 0x53000" by (simp add: receiver_address_def post_ks_fields post_ks_address)
  have nz: "receiver_address ?s \<noteq> 0" by (simp add: addr)
  have me: "curr ?s \<in> set (demo_L (OnQueue (tp ?s) 16))" "pid (procs ?s (curr ?s)) = 1"
    by (simp_all add: post_ks_fields demo_procs_def demo_proc_def)
  obtain t out where t: "found ?s demo_L (searched ?s) 2 t" and send:
    "(if t = 0 then sys_send_msg ?s = Ret (ret (- 1) ?s)
      else if \<not> may_send t ?s then sys_send_msg ?s = Ret (ret (- 1) (?s\<lparr>uart_out := uart_out ?s @ out\<rparr>))
      else \<exists>u. sys_send_msg ?s = Ret u \<and> calm u \<and> curr u = curr ?s \<and>
        (if mailbox_status (procs ?s t) = 0
         then delivered t (receiver_address ?s) (pid (procs ?s (curr ?s))) ?s u \<and>
           placed u demo_Q (if p_state (procs ?s t) = 5 then join_from (tp ?s) (priority (procs ?s t)) BlockedIpc t demo_L else demo_L)
         else held_back (pid (procs ?s t)) ?s u \<and> placed u demo_Q (leave_for (tp ?s) 16 BlockedIpcSend (curr ?s) demo_L)))"
    using send_msg_correct [OF post_ks_ok(1,3) nz _ me(1), unfolded post_ks_fields(9)] me(2) by auto
  have "OnQueue 0x1000 16 \<in> searched ?s" by (auto simp: searched_def hart_places_def post_ks_fields)
  moreover have "0x4000 \<in> set (demo_L (OnQueue 0x1000 16))" "pid (procs ?s 0x4000) = 2"
    by (simp_all add: post_ks_fields demo_procs_def demo_proc_def)
  ultimately have "t \<noteq> 0" using t unfolding found_def by metis
  then have "pid (procs ?s t) = 2" using t by (simp add: found_def)
  then have "t = 0x4000" by (auto simp: post_ks_fields demo_procs_def demo_proc_def split: if_splits)
  moreover have "rights_of 0x3000 2 ?s = 2" "rights_of 0x4000 1 ?s = 1"
    by (simp_all add: rights_nibble nibble_def cap_cell_def post_ks_fields post_ks_words)
  then have "may_send 0x4000 ?s"
    by (simp add: may_send_def post_ks_fields demo_procs_def demo_proc_def)
  ultimately show ?thesis
    using send me(2) by (auto simp: post_ks_fields(1) delivered_def message_def)
qed

theorem recv_msg_correct_witness:
  "\<exists>u. sys_recv_msg (post_ks 0) = Ret u \<and> load u 0x53008 = 7 \<and> mailbox_status (procs u 0x3000) = 0 \<and> reg 10 u = 1"
proof -
  let ?s = "post_ks 0"
  have me: "curr ?s \<in> set (demo_L (OnQueue (tp ?s) 16))" "pid (procs ?s (curr ?s)) \<noteq> 0"
    "0x53000 = uvm_translate (p_satp (procs ?s (curr ?s))) (reg 10 ?s) ?s"
    "length (demo_L (OnList BlockedIpcSend)) < walk_fuel" "mailbox_status (procs ?s (curr ?s)) \<noteq> 0"
    by (simp_all add: post_ks_fields demo_procs_def demo_proc_def post_ks_address walk_fuel_def)
  obtain u where "sys_recv_msg ?s = Ret u" "\<forall>k<9. load u (0x53000 + 8 * of_nat k) = mailbox (procs ?s (curr ?s)) k"
    "mailbox_status (procs u (curr ?s)) = 0" "reg 10 u = 1"
    using recv_msg_correct [OF post_ks_placed post_ks_ok(2,3) _ me(1,2,4,3)] me(5) by auto
  then show ?thesis by (auto simp: post_ks_fields dest: spec [of _ 1])
qed

end
