(* ===== verification/WhitelistSpec.thy ===== *)
theory WhitelistSpec
  imports RightsSpec
begin

text \<open>
  The whitelist of a process is an array of eight ids with a count. It implements a set of at most
  eight elements; the interface is a locale, interpreted on what the system call does to the
  process.
\<close>

section \<open>Sets of bounded size\<close>

locale capped_set =
  fixes invar :: "'s \<Rightarrow> bool" and members :: "'s \<Rightarrow> 'a set" and cap :: nat
    and add :: "'a \<Rightarrow> 's \<Rightarrow> 's option" and del :: "'a \<Rightarrow> 's \<Rightarrow> 's"
  assumes size: "invar s \<Longrightarrow> finite (members s) \<and> card (members s) \<le> cap"
    and add_invar: "invar s \<Longrightarrow> add x s = Some t \<Longrightarrow> invar t"
    and add_members: "invar s \<Longrightarrow> add x s = Some t \<Longrightarrow> members t = insert x (members s)"
    and add_full: "invar s \<Longrightarrow> add x s = None \<longleftrightarrow> x \<notin> members s \<and> card (members s) = cap"
    and del_invar: "invar s \<Longrightarrow> invar (del x s)"
    and del_members: "invar s \<Longrightarrow> members (del x s) = members s - {x}"
begin

text \<open>A request adds (True) or removes; a full set refuses.\<close>

definition request :: "bool \<Rightarrow> 'a \<Rightarrow> 's \<Rightarrow> 's" where
  "request b x s = (if b then case add x s of None \<Rightarrow> s | Some t \<Rightarrow> t else del x s)"

lemma request_invar: "invar s \<Longrightarrow> invar (request b x s)"
  by (auto simp: request_def add_invar del_invar split: option.split)

lemma request_members:
  assumes "invar s"
  shows "members (request b x s) =
    (if b then if x \<in> members s \<or> card (members s) < cap then insert x (members s) else members s
     else members s - {x})"
  using size [OF assms] add_full [OF assms, of x] add_members [OF assms]
  by (auto simp: request_def del_members [OF assms] split: option.split)

text \<open>Adding and removing an element that was not there changes nothing.\<close>

lemma add_del: "invar s \<Longrightarrow> x \<notin> members s \<Longrightarrow> members (request False x (request True x s)) = members s"
  by (auto simp: request_members request_invar)

end

section \<open>The array of a process\<close>

definition wl_ids :: "process \<Rightarrow> u64 set" where
  "wl_ids p = grant_whitelist p ` {0..<unat (active_grant p)}"

definition wl_ok :: "process \<Rightarrow> bool" where
  "wl_ok p \<longleftrightarrow> active_grant p \<le> 8 \<and> inj_on (grant_whitelist p) {0..<unat (active_grant p)}"

definition wl_find :: "u64 \<Rightarrow> process \<Rightarrow> nat option" where
  "wl_find n p = find (\<lambda>i. grant_whitelist p i = n) [0..<unat (active_grant p)]"

definition wl_add :: "u64 \<Rightarrow> process \<Rightarrow> process option" where
  "wl_add n p =
     (if wl_find n p \<noteq> None then Some p else if active_grant p = 8 then None
      else Some (p\<lparr>grant_whitelist := (grant_whitelist p)(unat (active_grant p) := n),
        active_grant := active_grant p + 1\<rparr>))"

definition wl_del :: "u64 \<Rightarrow> process \<Rightarrow> process" where
  "wl_del n p =
     (case wl_find n p of None \<Rightarrow> p
      | Some idx \<Rightarrow> let top = unat (active_grant p - 1) in
          p\<lparr>grant_whitelist := (grant_whitelist p)(idx := grant_whitelist p top, top := 0),
            active_grant := active_grant p - 1\<rparr>)"

lemma wl_find_None: "wl_find n p = None \<longleftrightarrow> n \<notin> wl_ids p"
  by (auto simp: wl_find_def wl_ids_def find_None_iff)

lemma wl_find_Some: "wl_find n p = Some i \<Longrightarrow> i < unat (active_grant p) \<and> grant_whitelist p i = n"
  by (auto simp: wl_find_def find_Some_iff)

lemma wl_count: "wl_ok p \<Longrightarrow> card (wl_ids p) = unat (active_grant p) \<and> unat (active_grant p) \<le> 8"
  by (simp add: wl_ok_def wl_ids_def card_image word_le_nat_alt)

lemma wl_finite: "finite (wl_ids p)"
  by (simp add: wl_ids_def)

lemma word_le_1: "(x :: u64) \<le> 1 \<longleftrightarrow> x = 0 \<or> x = 1"
  by (auto simp: word_le_nat_alt word_unat_eq_iff)

lemma word_eight: "(x :: u32) = 8 \<longleftrightarrow> unat x = 8"
  by (simp add: word_unat_eq_iff)

lemma wl_add_ok:
  assumes "wl_ok p" and "wl_add n p = Some q"
  shows "wl_ok q" and "wl_ids q = insert n (wl_ids p)"
proof -
  let ?k = "unat (active_grant p)"
  have k: "?k \<le> 8" using wl_count [OF assms(1)] by simp
  have "wl_ok q \<and> wl_ids q = insert n (wl_ids p)"
  proof (cases "wl_find n p")
    case None
    then have new: "n \<notin> grant_whitelist p ` {0..<?k}" by (simp add: wl_find_None wl_ids_def)
    have "active_grant p \<noteq> 8" using assms(2) None by (auto simp: wl_add_def)
    then have "?k \<noteq> 8" by (simp add: word_eight)
    then have "?k < 8" using k by simp
    then have s: "unat (active_grant p + 1) = Suc ?k" by (simp add: unat_word_ariths)
    have q: "grant_whitelist q = (grant_whitelist p)(?k := n)" "active_grant q = active_grant p + 1"
      using assms(2) None \<open>active_grant p \<noteq> 8\<close> by (auto simp: wl_add_def)
    have "inj_on ((grant_whitelist p)(?k := n)) {0..<Suc ?k}"
      using assms(1) new by (auto simp: wl_ok_def atLeast0_lessThan_Suc inj_on_def)
    then show ?thesis
      using s \<open>?k < 8\<close> by (auto simp: wl_ok_def wl_ids_def q word_le_nat_alt atLeast0_lessThan_Suc)
  next
    case (Some i)
    then have "n \<in> wl_ids p" using wl_find_None [of n p] by auto
    then show ?thesis using assms Some by (auto simp: wl_add_def)
  qed
  then show "wl_ok q" "wl_ids q = insert n (wl_ids p)" by simp_all
qed

lemma wl_del_ok:
  assumes "wl_ok p"
  shows "wl_ok (wl_del n p)" and "wl_ids (wl_del n p) = wl_ids p - {n}"
proof -
  have "wl_ok (wl_del n p) \<and> wl_ids (wl_del n p) = wl_ids p - {n}"
  proof (cases "wl_find n p")
    case None
    then show ?thesis using assms wl_find_None [of n p] by (simp add: wl_del_def)
  next
    case (Some i)
    let ?f = "grant_whitelist p"
    note i = wl_find_Some [OF Some]
    then obtain m where m: "unat (active_grant p) = Suc m" by (cases "unat (active_grant p)") auto
    have inj: "inj_on ?f {0..<Suc m}" using assms m by (simp add: wl_ok_def)
    have "active_grant p \<noteq> 0" using m by auto
    then have t: "unat (active_grant p - 1) = m" using m by (simp add: unat_minus_one)
    define f where "f = ?f(i := ?f m, m := 0)"
    have e: "f j = (if j = i then ?f m else ?f j)" if "j < m" for j using that by (auto simp: f_def)
    have ii: "i < Suc m" using i m by simp
    have "inj_on f {0..<m}"
    proof (rule inj_onI)
      fix a b assume ab: "a \<in> {0..<m}" "b \<in> {0..<m}" "f a = f b"
      define g where "g j = (if j = i then m else j)" for j
      have "?f (g a) = ?f (g b)" using ab e by (auto simp: g_def)
      then have "g a = g b" using inj ab by (auto simp: inj_on_def g_def)
      then show "a = b" using ab by (auto simp: g_def split: if_splits)
    qed
    moreover have "f ` {0..<m} = ?f ` {0..<Suc m} - {n}"
    proof (intro equalityI subsetI)
      fix x assume "x \<in> f ` {0..<m}"
      then obtain j where j: "j < m" "x = f j" by auto
      then show "x \<in> ?f ` {0..<Suc m} - {n}"
        using inj_onD [OF inj, of m i] inj_onD [OF inj, of j i] ii i by (cases "j = i") (auto simp: e)
    next
      fix x assume "x \<in> ?f ` {0..<Suc m} - {n}"
      then obtain j where "j < Suc m" "x = ?f j" "x \<noteq> n" by auto
      then have j: "j < Suc m" "x = ?f j" "j \<noteq> i" using i by auto
      then show "x \<in> f ` {0..<m}"
      proof (cases "j = m")
        case True
        then have "i < m" using j ii by simp
        then show ?thesis using j True e [of i] by (intro image_eqI [of _ _ i]) auto
      next
        case False
        then show ?thesis using j e [of j] by (intro image_eqI [of _ _ j]) auto
      qed
    qed
    moreover have "active_grant p - 1 \<le> 8"
      using wl_count [OF assms] m t by (simp add: word_le_nat_alt)
    ultimately show ?thesis
      using Some m t by (simp add: wl_del_def wl_ok_def wl_ids_def f_def Let_def)
  qed
  then show "wl_ok (wl_del n p)" "wl_ids (wl_del n p) = wl_ids p - {n}" by simp_all
qed

interpretation wl: capped_set wl_ok wl_ids 8 wl_add wl_del
proof
  fix s x
  assume s: "wl_ok s"
  show "wl_add x s = None \<longleftrightarrow> x \<notin> wl_ids s \<and> card (wl_ids s) = 8"
    using wl_find_None [of x s] wl_count [OF s] by (auto simp: wl_add_def word_eight)
qed (simp_all add: wl_add_ok wl_del_ok wl_count wl_finite)

section \<open>The system call\<close>

lemma whitelisted_find: "whitelisted p n s = wl_find n (procs s p)"
  by (simp add: whitelisted_def wl_find_def)

lemma upd_proc_id: "upd_proc p (\<lambda>_. procs s p) s = s"
  by (simp add: upd_proc_def)

lemma add_whitelist_eq:
  "add_whitelist n s =
     (case wl_add n (procs s (curr s)) of
        None \<Rightarrow> deny (curr s) [Text ''(Whitelist if already full)'', Chr 0x0A] s
      | Some t \<Rightarrow> Ret (ret 1 (upd_proc (curr s) (\<lambda>_. t) s)))"
  by (simp add: add_whitelist_def wl_add_def whitelisted_find upd_proc_id upd_proc_def)

lemma remove_whitelist_eq:
  "remove_whitelist n s = Ret (ret 1 (upd_proc (curr s) (wl_del n) s))"
  by (simp add: remove_whitelist_def wl_del_def whitelisted_find upd_proc_def Let_def split: option.split)

lemma procs_ret [simp]: "procs (ret v s) = procs s"
  by (simp add: ret_def set_a0_def upd_tf_def)

lemma update_whitelist_ok:
  assumes "calm s" and "wl_ok (procs s (curr s))"
  shows "\<exists>s'. sys_update_whitelist s = Ret s' \<and>
    (\<forall>q. procs s' q = (if q = curr s \<and> reg 11 s \<le> 1 then wl.request (reg 11 s = 1) (reg 10 s) (procs s q) else procs s q)) \<and>
    reg 10 s' = (if reg 11 s = 0 \<or> reg 11 s = 1 \<and> wl_add (reg 10 s) (procs s (curr s)) \<noteq> None then 1 else - 1)"
proof -
  note d = deny_ok [OF assms(1)]
  note le = word_le_1 [of "reg 11 s"]
  consider "reg 11 s = 1" | "reg 11 s = 0" | "reg 11 s \<noteq> 0" "reg 11 s \<noteq> 1" by blast
  then show ?thesis
  proof cases
    case 1
    show ?thesis
    proof (cases "wl_add (reg 10 s) (procs s (curr s))")
      case None
      obtain out where "sys_update_whitelist s = Ret (ret (- 1) (s\<lparr>uart_out := uart_out s @ out\<rparr>))"
        using d [of "curr s" "[Text ''(Whitelist if already full)'', Chr 0x0A]"] 1 None
        by (auto simp: sys_update_whitelist_def Let_def add_whitelist_eq)
      then show ?thesis using None 1 by (simp add: reg_ret wl.request_def)
    next
      case (Some t)
      then have "sys_update_whitelist s = Ret (ret 1 (upd_proc (curr s) (\<lambda>_. t) s))"
        using 1 by (simp add: sys_update_whitelist_def add_whitelist_eq)
      then show ?thesis using Some 1 by (simp add: reg_ret wl.request_def upd_proc_def)
    qed
  next
    case 2
    then have "sys_update_whitelist s = Ret (ret 1 (upd_proc (curr s) (wl_del (reg 10 s)) s))"
      by (simp add: sys_update_whitelist_def remove_whitelist_eq)
    then show ?thesis using 2 by (simp add: reg_ret wl.request_def upd_proc_def)
  next
    case 3
    obtain out where "sys_update_whitelist s = Ret (ret (- 1) (s\<lparr>uart_out := uart_out s @ out\<rparr>))"
      using d [of "curr s" "[Text ''(Unrecognized syscall argument.)'', Chr 0x0A]"] 3
      by (auto simp: sys_update_whitelist_def Let_def)
    then show ?thesis using 3 by (simp add: reg_ret le)
  qed
qed

text \<open>
  C30. The whitelist call implements a set of at most eight process ids: argument 1 inserts unless
  the set is full, argument 0 removes, the answer tells whether that was done, the invariant of
  the array (at most eight entries, no id twice) is kept, and no other process changes.
\<close>

theorem whitelist_is_a_set:
  assumes "calm s" and "wl_ok (procs s (curr s))"
  shows "\<exists>s'. sys_update_whitelist s = Ret s' \<and> wl_ok (procs s' (curr s)) \<and> (\<forall>q. q \<noteq> curr s \<longrightarrow> procs s' q = procs s q) \<and>
    (let W = wl_ids (procs s (curr s)); n = reg 10 s; room = (n \<in> W \<or> card W < 8) in
      wl_ids (procs s' (curr s)) =
        (if reg 11 s = 1 \<and> room then insert n W else if reg 11 s = 0 then W - {n} else W) \<and>
      reg 10 s' = (if reg 11 s = 0 \<or> reg 11 s = 1 \<and> room then 1 else - 1))"
proof -
  obtain s' where s': "sys_update_whitelist s = Ret s'"
    "\<forall>q. procs s' q = (if q = curr s \<and> reg 11 s \<le> 1 then wl.request (reg 11 s = 1) (reg 10 s) (procs s q) else procs s q)"
    "reg 10 s' = (if reg 11 s = 0 \<or> reg 11 s = 1 \<and> wl_add (reg 10 s) (procs s (curr s)) \<noteq> None then 1 else - 1)"
    using update_whitelist_ok [OF assms] by blast
  note le = word_le_1 [of "reg 11 s"]
  have room: "wl_add (reg 10 s) (procs s (curr s)) \<noteq> None \<longleftrightarrow>
      reg 10 s \<in> wl_ids (procs s (curr s)) \<or> card (wl_ids (procs s (curr s))) < 8"
    using wl.add_full [OF assms(2), of "reg 10 s"] wl.size [OF assms(2)] by auto
  show ?thesis
    using s'(1,2) s'(3) [unfolded room] wl.request_invar [OF assms(2)] wl.request_members [OF assms(2)] assms(2)
    by (auto simp: Let_def le)
qed

definition wl_ks :: kstate where
  "wl_ks = upd_proc 0x3000 (\<lambda>p. p\<lparr>active_grant := 2, grant_whitelist := (\<lambda>i. of_nat i + 2)\<rparr>) rights_ks"

theorem whitelist_is_a_set_witness:
  "\<exists>s'. sys_update_whitelist (upd_tf 0xA000 (\<lambda>t. t\<lparr>u_context := (u_context t)(11 := 0)\<rparr>) wl_ks) = Ret s' \<and>
    wl_ids (procs s' 0x3000) = {3}"
proof -
  let ?s = "upd_tf 0xA000 (\<lambda>t. t\<lparr>u_context := (u_context t)(11 := 0)\<rparr>) wl_ks"
  have c: "curr ?s = 0x3000" "procs ?s 0x3000 = (procs rights_ks 0x3000)\<lparr>active_grant := 2, grant_whitelist := (\<lambda>i. of_nat i + 2)\<rparr>"
    "locks ?s = (\<lambda>_. 0)"
    by (simp_all add: wl_ks_def upd_tf_def upd_proc_def curr_def rights_ks_fields) (simp add: rights_ks_def demo_rq_def)
  have two: "{0..<2 :: nat} = {0, 1}" by auto
  have w: "wl_ok (procs ?s (curr ?s))" "wl_ids (procs ?s 0x3000) = {2, 3}"
    by (auto simp: c wl_ok_def wl_ids_def two)
  have r: "reg 11 ?s = 0" "reg 10 ?s = 2"
    using rights_ks_fields(8) by (simp_all add: reg_def upd_tf_def wl_ks_def upd_proc_def curr_def rights_ks_fields)
      (simp_all add: rights_ks_def demo_rq_def demo_procs_def demo_proc_def)
  show ?thesis
    using whitelist_is_a_set [of ?s] w r c by (auto simp: calm_def Let_def)
qed

end
