(* ===== verification/User.thy ===== *)
theory User
  imports Syscall
begin

text \<open>
  The user side: the library of \<open>user/util.c\<close> over the calls of \<open>user/syscall.S\<close>, the shell of
  \<open>user/shell.c\<close> and the worker of \<open>user/worker.c\<close>. A program is the sequence of environment
  calls it makes; what the kernel answers is an argument.
\<close>

section \<open>Environment calls\<close>

text \<open>The number that goes to a7 and the arguments that are in a0, a1, ....\<close>

datatype request = Ecall nat "u64 list"

definition sys_write_call :: "u8 \<Rightarrow> request" where "sys_write_call c = Ecall 1 [ucast c]"
definition readc :: request where "readc = Ecall 2 []"
definition exit_call :: "u64 \<Rightarrow> request" where "exit_call code = Ecall 3 [code]"
definition getpid :: request where "getpid = Ecall 4 []"
definition yield :: request where "yield = Ecall 5 []"
text \<open>A 32-bit argument is extended by its sign in a 64-bit register.\<close>

definition sleep :: "u32 \<Rightarrow> request" where "sleep ticks = Ecall 6 [scast ticks]"
definition wait :: request where "wait = Ecall 7 []"
definition send_msg :: "u64 \<Rightarrow> u64 \<Rightarrow> request" where "send_msg dest_pid msg = Ecall 8 [dest_pid, msg]"
definition recv_msg :: "u64 \<Rightarrow> request" where "recv_msg buff = Ecall 9 [buff]"

definition grant_permit :: "u64 \<Rightarrow> u64 \<Rightarrow> u64 \<Rightarrow> request" where
  "grant_permit target_pid permission_pid rights = Ecall 10 [target_pid, permission_pid, rights]"

definition revoke_permit :: "u64 \<Rightarrow> u64 \<Rightarrow> request" where
  "revoke_permit target_pid permission_pid = Ecall 11 [target_pid, permission_pid]"

definition process_count :: request where "process_count = Ecall 12 []"

definition list_process :: "u64 \<Rightarrow> u64 \<Rightarrow> request" where
  "list_process pif number_of_process = Ecall 13 [pif, number_of_process]"

text \<open>\<open>count\<close> is the answer to the first call.\<close>

definition list_all_process :: "u64 \<Rightarrow> u64 \<Rightarrow> request list" where
  "list_all_process count pif = [process_count, list_process pif count]"

definition add_to_whitelist :: "u64 \<Rightarrow> request" where "add_to_whitelist p = Ecall 14 [p, 1]"
definition remove_from_whitelist :: "u64 \<Rightarrow> request" where "remove_from_whitelist p = Ecall 14 [p, 0]"

definition map_shared_page :: "u64 \<Rightarrow> u64 \<Rightarrow> u64 \<Rightarrow> u64 \<Rightarrow> request" where
  "map_shared_page target_pid caller_vaddr target_vaddr permission =
     Ecall 15 [target_pid, caller_vaddr, target_vaddr, permission]"

definition unmap_shared_page :: "u64 \<Rightarrow> u64 \<Rightarrow> request" where
  "unmap_shared_page target_pid target_vaddr = Ecall 16 [target_pid, target_vaddr]"

definition register_irq :: "u64 \<Rightarrow> request" where "register_irq irq_number = Ecall 17 [irq_number]"
definition probe_vaddr :: "u64 \<Rightarrow> request" where "probe_vaddr vaddr = Ecall 18 [vaddr]"

section \<open>The library\<close>

definition putc :: "u8 \<Rightarrow> request list" where
  "putc c = [sys_write_call c]"

definition puts :: "u8 list \<Rightarrow> request list" where
  "puts str = concat (map putc str)"

definition puth :: "u64 \<Rightarrow> request list" where
  "puth code = concat (map (\<lambda>i. let nibble = drop_bit (60 - i * 4) code AND 0xF in
     if nibble \<le> 9 then putc (ucast nibble + 0x30) else putc (ucast nibble - 10 + 0x41)) [0..<16])"

fun strcmp_loop :: "nat \<Rightarrow> nat \<Rightarrow> cstring \<Rightarrow> cstring \<Rightarrow> bool outcome" where
  "strcmp_loop 0 idx s1 s2 = Hang"
| "strcmp_loop (Suc n) idx s1 s2 =
     (if s1 idx \<noteq> s2 idx then Ret False
      else if s1 idx = 0 then Ret True
      else strcmp_loop n (idx + 1) s1 s2)"

definition strcmp :: "nat \<Rightarrow> cstring \<Rightarrow> cstring \<Rightarrow> bool outcome" where
  "strcmp fuel s1 s2 = strcmp_loop fuel 0 s1 s2"

section \<open>The shell\<close>

text \<open>
  What the kernel answers while a command runs; \<open>ps\<close> counts the processes once for its title and
  once more inside \<open>list_all_process\<close>.
\<close>

record process_row =
  row_pid :: u64
  row_parent :: u64
  row_state :: u32
  row_name :: "u8 list"
  row_priority :: u32
  row_cpu_time :: u64

record replies =
  my_pid :: u64
  msg_sender :: u64
  msg_type :: u64
  msg_data1 :: u64
  thread_count :: u64
  retrieved_count :: u64
  rows :: "process_row list"
  stack_addr :: u64

definition nl :: u8 where "nl = 0x0A"

definition text_line :: "string \<Rightarrow> u8 list" where
  "text_line str = bytes_of str @ [nl]"

definition bar_line :: "u8 list" where
  "bar_line = replicate 55 0x3D @ [nl]"

definition help_menu :: "request list" where
  "help_menu =
     puts bar_line @ puts (text_line ''HELP MENU'') @ puts bar_line @
     puts (text_line ''[+] help : Prints Help Menu'') @
     puts (text_line ''[+] clear : Clears Out Entier Screen'') @
     puts (text_line ''[+] getpid : Get Process ID of current running process'') @
     puts (text_line ''[+] recv : Recvieve Message from Mailbox'') @
     puts (text_line ''[+] ps : Lists all Processes with their details'') @ puts bar_line"

definition show_row :: "process_row \<Rightarrow> request list" where
  "show_row r =
     puts (bytes_of ''PID: '') @ puth (row_pid r) @ puts (bytes_of '' | Parent: '') @ puth (row_parent r) @
     puts (bytes_of '' | State: '') @ puth (ucast (row_state r)) @ puts (bytes_of '' | Name: '') @ puts (row_name r) @
     puts (bytes_of '' | Priority: '') @ puth (ucast (row_priority r)) @ puts (bytes_of '' | CPU Time: '') @
     puth (row_cpu_time r) @ putc nl"

definition run_getpid :: "replies \<Rightarrow> request list" where
  "run_getpid k = getpid # puth (my_pid k) @ putc nl"

definition run_recv :: "replies \<Rightarrow> request list" where
  "run_recv k = recv_msg (stack_addr k) #
     puts (bytes_of (''SENDER'' @ [CHR 0x27] @ ''S PID: '')) @ puth (msg_sender k) @ putc nl @
     puts (bytes_of ''TYPE OF MESSAGE: '') @ puth (msg_type k) @ putc nl @
     puts (bytes_of ''DATA RECIEVED: '') @ puth (msg_data1 k) @ putc nl"

definition run_ps :: "replies \<Rightarrow> request list" where
  "run_ps k = process_count #
     puts (nl # bytes_of ''[+] Total Active Threads: '') @ puth (thread_count k) @ putc nl @
     list_all_process (retrieved_count k) (stack_addr k) @ concat (map show_row (rows k))"

definition not_found :: "u8 list \<Rightarrow> request list" where
  "not_found cmd = puts (bytes_of ''[!] RexOS: command not found: '') @ puts cmd @ putc nl"

text \<open>The bytes of a string up to its terminator, of at most 64.\<close>

definition string_bytes :: "cstring \<Rightarrow> u8 list" where
  "string_bytes s = takeWhile (\<lambda>b. b \<noteq> 0) (map s [0..<64])"

definition cmd_parser :: "nat \<Rightarrow> replies \<Rightarrow> cstring \<Rightarrow> request list outcome" where
  "cmd_parser fuel k cmd =
     bindO (strcmp fuel cmd (lit ''help'')) (\<lambda>y. if y then Ret help_menu else
     bindO (strcmp fuel cmd (lit ''clear'')) (\<lambda>y. if y then Ret (puts [0x1B, 0x5B, 0x32, 0x4A, 0x1B, 0x5B, 0x48]) else
     bindO (strcmp fuel cmd (lit ''getpid'')) (\<lambda>y. if y then Ret (run_getpid k) else
     bindO (strcmp fuel cmd (lit ''recv'')) (\<lambda>y. if y then Ret (run_recv k) else
     bindO (strcmp fuel cmd (lit ''ps'')) (\<lambda>y. if y then Ret (run_ps k) else
     Ret (not_found (string_bytes cmd)))))))"

definition prompt :: "request list" where
  "prompt = puts (bytes_of ''RexOS> '')"

record shell_state =
  cmd_buffer :: cstring
  cmd_idx :: nat

definition CMD_MAX_LEN :: nat where "CMD_MAX_LEN = 64"

text \<open>What one key does; \<open>fuel\<close> bounds the comparison of the command with the known ones.\<close>

definition shell_key :: "nat \<Rightarrow> replies \<Rightarrow> u8 \<Rightarrow> shell_state \<Rightarrow> (request list \<times> shell_state) outcome" where
  "shell_key fuel k stroke sh =
     (if stroke = 0x08 \<or> stroke = 0x7F then
        (if cmd_idx sh > 0
         then Ret (putc 0x08 @ putc 0x20 @ putc 0x08, sh\<lparr>cmd_idx := cmd_idx sh - 1\<rparr>)
         else Ret ([], sh))
      else if stroke = 0x0D then
        (let sh = sh\<lparr>cmd_buffer := (cmd_buffer sh)(cmd_idx sh := 0)\<rparr> in
         bindO (cmd_parser fuel k (cmd_buffer sh)) (\<lambda>out.
         Ret (putc 0x0D @ putc nl @ out @ prompt, sh\<lparr>cmd_idx := 0\<rparr>)))
      else if cmd_idx sh < CMD_MAX_LEN - 1 then
        Ret (putc stroke, sh\<lparr>cmd_buffer := (cmd_buffer sh)(cmd_idx sh := stroke), cmd_idx := cmd_idx sh + 1\<rparr>)
      else Ret ([], sh))"

text \<open>The loop over the keys that arrive, with the answers for each.\<close>

fun shell :: "nat \<Rightarrow> (u8 \<times> replies) list \<Rightarrow> shell_state \<Rightarrow> (request list \<times> shell_state) outcome" where
  "shell fuel [] sh = Ret ([], sh)"
| "shell fuel ((stroke, k) # keys) sh =
     bindO (shell_key fuel k stroke sh) (\<lambda>(out, sh).
     bindO (shell fuel keys sh) (\<lambda>(rest, sh). Ret (readc # out @ rest, sh)))"

section \<open>The worker\<close>

text \<open>
  The nine words of the message: the type and the second data word are set, the others are what
  the stack held. The worker asks for its id and then takes turns.
\<close>

definition worker_message :: "(nat \<Rightarrow> u64) \<Rightarrow> nat \<Rightarrow> u64" where
  "worker_message stack = stack(1 := 3, 3 := 0xDEADBEEF)"

definition worker_start :: "request list" where
  "worker_start = [getpid]"

text \<open>One turn of the loop: \<open>status\<close> is the answer to the message, \<open>buff\<close> the message's address.\<close>

definition worker_turn :: "u64 \<Rightarrow> u64 \<Rightarrow> request list" where
  "worker_turn status buff =
     send_msg 1 buff #
     (if status = 1 then puts (text_line ''[WORKER] Payload Delivered !'') else []) @ [sleep 1000]"

end
