(* ===== verification/UserSpec.thy ===== *)
theory UserSpec
  imports User Trap
begin

text \<open>
  What the user side promises: the shell is an editor of one line of at most 63 bytes, and its
  library prints and compares as the kernel's does.
\<close>

section \<open>The library is the kernel's\<close>

lemma puts_calls: "puts str = map sys_write_call str"
  by (induction str) (simp_all add: puts_def putc_def)

lemma puth_calls: "puth code = map sys_write_call (hex_digits code)"
proof -
  have "puth code = concat (map (\<lambda>i. [sys_write_call (hex_digit (drop_bit (60 - i * 4) code AND 0xF))]) [0..<16])"
    unfolding puth_def by (rule arg_cong [of _ _ concat], rule map_cong) (simp_all add: hex_digit_def putc_def Let_def)
  then show ?thesis by (simp add: hex_digits_def o_def del: upt_rec_numeral)
qed

lemma strcmp_loop_kernel: "strcmp_loop fuel i s t = strcmp_from fuel i s t"
  by (induction fuel arbitrary: i) simp_all

lemma strcmp_kernel: "strcmp fuel s t = kstrcmp fuel s t"
  by (simp add: strcmp_def kstrcmp_def strcmp_loop_kernel)

section \<open>The shell as an editor of a line\<close>

text \<open>The command that a line stands for, as a choice on lists.\<close>

definition command :: "replies \<Rightarrow> u8 list \<Rightarrow> request list" where
  "command k cmd =
     (if cmd = bytes_of ''help'' then help_menu
      else if cmd = bytes_of ''clear'' then puts [0x1B, 0x5B, 0x32, 0x4A, 0x1B, 0x5B, 0x48]
      else if cmd = bytes_of ''getpid'' then run_getpid k
      else if cmd = bytes_of ''recv'' then run_recv k
      else if cmd = bytes_of ''ps'' then run_ps k
      else not_found cmd)"

definition edit :: "replies \<Rightarrow> u8 \<Rightarrow> u8 list \<Rightarrow> request list \<times> u8 list" where
  "edit k stroke line =
     (if stroke = 0x08 \<or> stroke = 0x7F then
        (if line = [] then ([], []) else (puts [0x08, 0x20, 0x08], butlast line))
      else if stroke = 0x0D then
        (puts [0x0D, nl] @ command k (takeWhile (\<lambda>b. b \<noteq> 0) line) @ prompt, [])
      else if length line < 63 then (puts [stroke], line @ [stroke])
      else ([], line))"

fun edit_all :: "(u8 \<times> replies) list \<Rightarrow> u8 list \<Rightarrow> request list \<times> u8 list" where
  "edit_all [] line = ([], line)"
| "edit_all ((stroke, k) # keys) line =
     (let (out, line) = edit k stroke line; (rest, line) = edit_all keys line
      in (readc # out @ rest, line))"

definition line_of :: "shell_state \<Rightarrow> u8 list" where
  "line_of sh = map (cmd_buffer sh) [0..<cmd_idx sh]"

lemma length_line [simp]: "length (line_of sh) = cmd_idx sh"
  by (simp add: line_of_def)

lemma bytes_of_text:
  "CHR 0x00 \<notin> set t \<Longrightarrow> cstr s xs \<Longrightarrow> length t < fuel \<Longrightarrow>
    strcmp fuel s (lit t) = Ret (xs = bytes_of t)"
  using strcmp_from_ok [of s xs "lit t" "bytes_of t" 0 fuel] cstr_lit [of t]
  by (simp add: strcmp_kernel kstrcmp_def bytes_of_def)

lemma cmd_parser_ok:
  assumes "cstr s xs" and "length xs < 64" and "7 \<le> fuel"
  shows "cmd_parser fuel k s = Ret (command k xs)"
proof -
  let ?n = "length xs"
  have "[0..<64] = [0..<?n] @ ?n # [Suc ?n..<64]"
    using upt_add_eq_append [of 0 ?n "64 - ?n"] upt_conv_Cons [of ?n 64] assms(2) by simp
  moreover have "map s [0..<?n] = xs" using assms(1) by (intro nth_equalityI) (simp_all add: cstr_def)
  ultimately have "map s [0..<64] = xs @ 0 # map s [Suc ?n..<64]"
    using assms(1) by (simp add: cstr_def)
  moreover have "takeWhile (\<lambda>b. b \<noteq> 0) (xs @ 0 # map s [Suc ?n..<64]) = xs"
    using assms(1) by (subst takeWhile_append2) (auto simp: cstr_def)
  ultimately have "string_bytes s = xs" by (simp add: string_bytes_def del: upt_rec_numeral)
  then show ?thesis
    using assms(3) by (simp add: cmd_parser_def command_def bytes_of_text [OF _ assms(1)])
qed

lemma line_string:
  "cstr ((cmd_buffer sh)(cmd_idx sh := 0)) (takeWhile (\<lambda>b. b \<noteq> 0) (line_of sh))"
proof -
  let ?l = "line_of sh" and ?n = "length (takeWhile (\<lambda>b. b \<noteq> 0) (line_of sh))"
  have le: "?n \<le> cmd_idx sh" using length_takeWhile_le [of _ ?l] by simp
  have z: "?n < cmd_idx sh \<Longrightarrow> cmd_buffer sh ?n = 0"
    using nth_length_takeWhile [of "\<lambda>b. b \<noteq> 0" ?l] by (simp add: line_of_def)
  have "i < ?n \<Longrightarrow> takeWhile (\<lambda>b. b \<noteq> 0) ?l ! i = cmd_buffer sh i" for i
    using le takeWhile_nth [of i "\<lambda>b. b \<noteq> 0" ?l] by (simp add: line_of_def)
  moreover have "0 \<notin> set (takeWhile (\<lambda>b. b \<noteq> 0) ?l)" by (auto dest: set_takeWhileD)
  ultimately show ?thesis using le z by (auto simp: cstr_def)
qed

lemma shell_key_ok:
  assumes "cmd_idx sh < 64" and "7 \<le> fuel"
  obtains sh' where "shell_key fuel k stroke sh = Ret (fst (edit k stroke (line_of sh)), sh')"
    and "line_of sh' = snd (edit k stroke (line_of sh))" and "cmd_idx sh' < 64"
    and "\<forall>i\<ge>64. cmd_buffer sh' i = cmd_buffer sh i"
proof -
  have short: "length (takeWhile (\<lambda>b. b \<noteq> 0) (line_of sh)) < 64"
    using length_takeWhile_le [of _ "line_of sh"] assms(1) by (metis length_line le_less_trans)
  note cmd = cmd_parser_ok [OF line_string short assms(2), of k]
  have empty: "line_of sh = [] \<longleftrightarrow> cmd_idx sh = 0" by (simp add: line_of_def)
  have last: "cmd_idx sh > 0 \<Longrightarrow> butlast (map (cmd_buffer sh) [0..<cmd_idx sh]) = map (cmd_buffer sh) [0..<cmd_idx sh - 1]"
    by (cases "cmd_idx sh") simp_all
  show ?thesis
    using assms(1) that
    by (cases "shell_key fuel k stroke sh")
      (auto simp: shell_key_def edit_def CMD_MAX_LEN_def cmd empty last puts_def putc_def
        line_of_def Let_def split: if_splits)
qed

lemma shell_ok:
  assumes "cmd_idx sh < 64" and "7 \<le> fuel"
  shows "\<exists>sh'. shell fuel keys sh = Ret (fst (edit_all keys (line_of sh)), sh') \<and>
    line_of sh' = snd (edit_all keys (line_of sh)) \<and> cmd_idx sh' < 64 \<and>
    (\<forall>i\<ge>64. cmd_buffer sh' i = cmd_buffer sh i)"
  using assms(1)
proof (induction keys arbitrary: sh)
  case (Cons key keys)
  obtain stroke k where key: "key = (stroke, k)" by force
  obtain sh1 where one: "shell_key fuel k stroke sh = Ret (fst (edit k stroke (line_of sh)), sh1)"
    "line_of sh1 = snd (edit k stroke (line_of sh))" "cmd_idx sh1 < 64"
    "\<forall>i\<ge>64. cmd_buffer sh1 i = cmd_buffer sh i"
    using shell_key_ok [OF Cons.prems assms(2)] .
  obtain sh' where "shell fuel keys sh1 = Ret (fst (edit_all keys (line_of sh1)), sh')"
    "line_of sh' = snd (edit_all keys (line_of sh1))" "cmd_idx sh' < 64"
    "\<forall>i\<ge>64. cmd_buffer sh' i = cmd_buffer sh1 i"
    using Cons.IH [OF one(3)] by auto
  then show ?case using one key by (auto simp: case_prod_unfold Let_def)
qed simp

text \<open>
  C31. The shell is an editor of one line: whatever keys arrive and whatever the kernel answers,
  it makes exactly the calls of the editor on lists, its buffer holds the editor's line, the
  line never exceeds 63 bytes, no byte outside the 64 of the buffer is written, and a carriage
  return runs the command named by the line up to its first zero byte. It never hangs.
\<close>

theorem shell_edits_a_line:
  assumes "cmd_idx sh < 64" and "7 \<le> fuel"
  shows "\<exists>sh'. shell fuel keys sh = Ret (fst (edit_all keys (line_of sh)), sh') \<and>
    line_of sh' = snd (edit_all keys (line_of sh)) \<and> cmd_idx sh' < 64 \<and>
    (\<forall>i\<ge>64. cmd_buffer sh' i = cmd_buffer sh i)"
  using shell_ok [OF assms] .

definition demo_keys :: "(u8 \<times> replies) list" where
  "demo_keys = map (\<lambda>c. (c, \<lparr>my_pid = 1, msg_sender = 0, msg_type = 0, msg_data1 = 0, thread_count = 2,
     retrieved_count = 2, rows = [], stack_addr = 0x1000\<rparr>)) (bytes_of ''hx'' @ [0x7F] @ bytes_of ''elp'' @ [0x0D])"

theorem shell_edits_a_line_witness:
  "\<exists>sh'. shell 7 demo_keys \<lparr>cmd_buffer = \<lambda>_. 0, cmd_idx = 0\<rparr> = Ret (fst (edit_all demo_keys []), sh') \<and>
    line_of sh' = []"
proof -
  have e: "line_of \<lparr>cmd_buffer = \<lambda>_. 0, cmd_idx = 0\<rparr> = []" by (simp add: line_of_def)
  have "snd (edit_all demo_keys []) = []" by code_simp
  then show ?thesis
    using shell_edits_a_line [of "\<lparr>cmd_buffer = \<lambda>_. 0, cmd_idx = 0\<rparr>" 7 demo_keys] e by auto
qed

end
