(* ===== verification/Boot.thy ===== *)
theory Boot
  imports Trap Dtb
begin

text \<open>
  Start of the system: \<open>kmain\<close> of \<open>kernel/main.c\<close> on the boot hart and \<open>smp_kmain\<close> of
  \<open>kernel/smp.c\<close> on the others, up to their idle loops. Writes to device registers are
  collected in the order they are made; what the devices read as is an argument.
\<close>

section \<open>State of the machine outside the kernel's structures\<close>

datatype device_write = W8 u64 u8 | W32 u64 u32 | W64 u64 u64

text \<open>
  One entry of \<open>global_closet\<close>: the stacks and the flag the start-up code of a hart waits for.
  Its run queue pointer is \<open>closet_rq\<close> of the kernel state.
\<close>

record closet =
  mmode_stack :: u64
  smode_stack :: u64
  closet_flag :: u64

record machine =
  board_info :: board
  device_writes :: "device_write list"
  closets :: "nat \<Rightarrow> closet"
  smp_ready :: u64

definition emit :: "device_write list \<Rightarrow> machine \<Rightarrow> machine" where
  "emit ws b = b\<lparr>device_writes := device_writes b @ ws\<rparr>"

abbreviation w8s :: "(u64 \<times> u8) list \<Rightarrow> device_write list" where
  "w8s \<equiv> map (\<lambda>(a, v). W8 a v)"

abbreviation w32s :: "(u64 \<times> u32) list \<Rightarrow> device_write list" where
  "w32s \<equiv> map (\<lambda>(a, v). W32 a v)"

abbreviation w64s :: "(u64 \<times> u64) list \<Rightarrow> device_write list" where
  "w64s \<equiv> map (\<lambda>(a, v). W64 a v)"

section \<open>Banner and prompt\<close>

text \<open>In the texts of the banner \<open>@\<close> stands for a backslash and \<open>#\<close> for the escape character.\<close>

definition banner_bytes :: "string \<Rightarrow> u8 list" where
  "banner_bytes t = map (\<lambda>c. if c = CHR ''@'' then 0x5C else if c = CHR ''#'' then 0x1B
     else if c = CHR ''$'' then 0x0A else of_nat (of_char c)) t"

definition banner_lines :: "string list" where
  "banner_lines =
     [''#[38;5;82;48;5;236m'', ''#[2J#[H'',
      '' ______               ____   _____$'',
      '' | ___ @             / __ @ /  ___|$'',
      '' | |_/ /___ _  _    | |  | |@ `--. $'',
      '' |    // _ @ @/ /   | |  | | `--. @$'',
      '' | |@ @  __/>  <    | |__| |/@__/ /$'',
      '' @_| @_@___/_/@_@    @____/ @____/ $'',
      ''$'', ''=======================================================$'',
      '' Native 64-bit RISC-V Microkernel - By DreadX$'',
      ''=======================================================$'', ''$'']"

definition print_banner :: "kstate \<Rightarrow> kstate outcome" where
  "print_banner = forO banner_lines (\<lambda>t. uart_puts (banner_bytes t))"

definition kernel_prompt :: "kstate \<Rightarrow> kstate outcome" where
  "kernel_prompt = uart_puts (bytes_of ''RexOS> '')"

section \<open>The boot hart\<close>

definition zero_runqueue :: runqueue where
  "zero_runqueue = \<lparr>circles = (\<lambda>_. 0), lookup_bitmap = 0, curr_process = 0, idle_process = 0,
     starv_ticks = 0, hart_id = 0, process_count = 0\<rparr>"

definition zero_process :: process where
  "zero_process = \<lparr>p_context = (\<lambda>_. 0), p_tf = 0, p_satp = 0, kstack = 0, pid = 0, parent_pid = 0,
     p_name = replicate 24 0, p_state = 0, priority = 0, time_slice = 0, ticks_left = 0, cpu_time = 0,
     capability_root = 0, mailbox = (\<lambda>_. 0), ipc_pending_pid = 0, mailbox_status = 0, active_grant = 0,
     grant_whitelist = (\<lambda>_. 0), p_next = 0, p_prev = 0, exit_code = 0, magic = 0\<rparr>"

text \<open>The device tree is read before anything else; the memory size only by \<open>kalloc_init\<close>.\<close>

definition read_board :: "nat \<Rightarrow> u64 \<Rightarrow> board \<Rightarrow> kstate \<Rightarrow> (board \<times> kstate) outcome" where
  "read_board fuel dtb b s =
     bindO (dtb_parser_mmio fuel (mem s) dtb b) (\<lambda>b.
     bindO (dtb_parser_time fuel (mem s) dtb b) (\<lambda>b.
     bindO (dtb_parser_context fuel (mem s) dtb b) (\<lambda>b.
     bindO (dtb_parser_hart fuel (mem s) dtb b) (\<lambda>b.
     Ret (b, s\<lparr>hart := unat (harts b)\<rparr>)))))"

definition boot_memory :: "nat \<Rightarrow> u64 \<Rightarrow> u64 \<Rightarrow> layout \<Rightarrow> board \<Rightarrow> kstate \<Rightarrow> (board \<times> kstate) outcome" where
  "boot_memory fuel dtb ca ly b s =
     bindO (dtb_parser_ram fuel (mem s) dtb b) (\<lambda>b.
     bindO (kalloc_init (bss_end ly) (s\<lparr>ram_base := base_addr (ram b), ram_size := total_size (ram b)\<rparr>)) (\<lambda>s.
     bindO (kvm_init ca ly (kvmalloc_init s)) (\<lambda>s. Ret (b, s))))"

text \<open>A run queue of its own for the hart, cleared, in the thread pointer.\<close>

definition new_runqueue :: "u64 \<Rightarrow> u64 \<Rightarrow> kstate \<Rightarrow> kstate outcome" where
  "new_runqueue ca hartid s =
     bindO (kvmalloc ca sizeof_runqueue s) (\<lambda>(r, s).
     if r = 0 then Fault 0
     else Ret (s\<lparr>rqs := (rqs s)(r := zero_runqueue\<lparr>hart_id := hartid\<rparr>), tp := r\<rparr>))"

text \<open>Stacks for the other harts, whose flags stay down.\<close>

definition closet_stacks :: "u64 \<Rightarrow> nat \<Rightarrow> machine \<times> kstate \<Rightarrow> (machine \<times> kstate) outcome" where
  "closet_stacks ca i bs = (case bs of (b, s) \<Rightarrow>
     bindO (kalloc 0 ca s) (\<lambda>(m, s).
     bindO (kalloc 0 ca s) (\<lambda>(t, s).
     Ret (b\<lparr>closets := (closets b)(i := \<lparr>mmode_stack = m + 4096, smode_stack = t + 4096, closet_flag = 0\<rparr>)\<rparr>,
          s\<lparr>closet_rq := (closet_rq s)(i := 0)\<rparr>))))"

text \<open>Raising a flag and waking the hart with an interprocessor interrupt.\<close>

definition release_hart :: "nat \<Rightarrow> machine \<Rightarrow> machine" where
  "release_hart i b = emit [W32 (base_addr (clint (board_info b)) + of_nat i * 4) 1]
     (b\<lparr>closets := (closets b)(i := (closets b i)\<lparr>closet_flag := 1\<rparr>)\<rparr>)"

definition boot_devices :: "u64 \<Rightarrow> machine \<Rightarrow> kstate \<Rightarrow> machine \<times> kstate" where
  "boot_devices now b s =
     (let bd = board_info b;
          (ws, s) = timer_init (base_addr (clint bd)) (timebase_freq bd) now s;
          b = emit (w64s ws) b;
          b = emit (w32s (plic_init (base_addr (plic bd)) (context_idx bd))) b;
          b = emit (w8s (uart_ier_enable (base_addr (uart bd)))) b
      in (b, s\<lparr>ssie := True\<rparr>))"

definition boot_closets :: "u64 \<Rightarrow> machine \<Rightarrow> kstate \<Rightarrow> (machine \<times> kstate) outcome" where
  "boot_closets ca b s =
     bindO (kvmalloc ca (of_nat (hart s) * 32) s) (\<lambda>(closet, s).
     if closet = 0 then Fault 24
     else
       bindO (forO [1..<hart s] (closet_stacks ca) (b, s)) (\<lambda>(b, s).
       Ret (b, s\<lparr>closet_rq := (closet_rq s)(0 := tp s)\<rparr>)))"

definition boot_programs ::
  "u64 \<Rightarrow> layout \<Rightarrow> entry_points \<Rightarrow> u64 \<Rightarrow> u64 \<Rightarrow> kstate \<Rightarrow> kstate outcome" where
  "boot_programs ca ly ep shell_elf worker_elf s =
     bindO (spawn_process ca ly ep shell_elf (bytes_of ''SHELL'') 32 16 s) (\<lambda>(p, s).
     bindO (spawn_process ca ly ep worker_elf (bytes_of ''WORKER'') 32 20 (s\<lparr>shell_ptr := p\<rparr>)) (\<lambda>(q, s).
     Ret s))"

text \<open>All of \<open>kmain\<close>; the boot hart then stays in \<open>oxomoco_loop\<close>.\<close>

definition kmain ::
  "nat \<Rightarrow> u64 \<Rightarrow> u64 \<Rightarrow> layout \<Rightarrow> entry_points \<Rightarrow> u64 \<Rightarrow> u64 \<Rightarrow> u64 \<Rightarrow> machine \<Rightarrow> kstate \<Rightarrow>
    (machine \<times> kstate) outcome" where
  "kmain fuel dtb ca ly ep shell_elf worker_elf now b s =
     bindO (read_board fuel dtb (board_info b) s) (\<lambda>(bd, s).
     let b = emit (w8s (uart_init (base_addr (uart bd)))) (b\<lparr>board_info := bd\<rparr>) in
     bindO (print_banner s) (\<lambda>s.
     bindO (kernel_prompt s) (\<lambda>s.
     bindO (boot_memory fuel dtb ca ly bd s) (\<lambda>(bd, s).
     let b = b\<lparr>board_info := bd\<rparr>;
         b = emit (w64s (disable_timer_interrupts (base_addr (clint bd)) 0)) b in
     bindO (new_runqueue ca 0 s) (\<lambda>s.
     bindO (scheduler_init ca ep s) (\<lambda>s.
     let (b, s) = boot_devices now b s in
     bindO (boot_closets ca b s) (\<lambda>(b, s).
     bindO (boot_programs ca ly ep shell_elf worker_elf s) (\<lambda>s.
     Ret ((fold release_hart [1..<hart s] b)\<lparr>smp_ready := 1\<rparr>, s)))))))))"

section \<open>The other harts\<close>

text \<open>The idle process of a hart, alone on the circle of the lowest priority.\<close>

definition idle_record :: "entry_points \<Rightarrow> u64 \<Rightarrow> u64 \<Rightarrow> u64 \<Rightarrow> process" where
  "idle_record ep p stack caps =
     zero_process\<lparr>magic := PROCESS_MAGIC, pid := 0, p_state := 1, priority := 31, time_slice := 128,
       ticks_left := 128, p_tf := 0, p_next := p, p_prev := p, kstack := stack,
       p_context := (\<lambda>_. 0)(0 := idle_entry ep, 1 := stack + 4096), capability_root := caps\<rparr>"

definition install_idle :: "u64 \<Rightarrow> kstate \<Rightarrow> kstate" where
  "install_idle p s =
     upd_rq (tp s) (\<lambda>x. x\<lparr>idle_process := p, curr_process := p, circles := (circles x)(31 := p),
       lookup_bitmap := lookup_bitmap x OR shl1 31, process_count := 1\<rparr>) s"

definition smp_kmain ::
  "u64 \<Rightarrow> entry_points \<Rightarrow> u64 \<Rightarrow> u64 \<Rightarrow> machine \<Rightarrow> kstate \<Rightarrow> (machine \<times> kstate) outcome" where
  "smp_kmain ca ep hartid now b s =
     (let bd = board_info b;
          b = emit (w64s (disable_timer_interrupts (base_addr (clint bd)) hartid)) b in
      bindO (new_runqueue ca hartid s) (\<lambda>s.
      let s = s\<lparr>closet_rq := (closet_rq s)(unat hartid := tp s)\<rparr> in
      bindO (kvmalloc ca sizeof_process s) (\<lambda>(p, s).
      if p = 0 then Fault 0
      else
        bindO (kalloc 0 ca s) (\<lambda>(stack, s).
        bindO (kalloc 2 ca s) (\<lambda>(caps, s).
        let s = clear_caps caps (upd_proc p (\<lambda>_. idle_record ep p stack caps) s);
            s = install_idle p s;
            (ws, s) = timer_init (base_addr (clint bd)) (timebase_freq bd) now s
        in Ret (emit (w64s ws) b, s\<lparr>ssie := True\<rparr>))))))"

end
