(* ===== verification/Lock.thy ===== *)
theory Lock
  imports Process
begin

text \<open>
  The spinlock of \<open>kernel/smp.S\<close> under all interleavings of the harts. In the other theories an
  operation runs to its end before another hart touches the same lists, and a held lock is
  \<open>Hang\<close>; that is justified here: the two instructions of the lock let one hart in at a time.
\<close>

section \<open>The machine\<close>

text \<open>
  Where a hart is: outside, at the \<open>amoswap\<close> of \<open>spinlock_acquire\<close>, at the \<open>bnez\<close> after it with
  the old value in t0, inside.
\<close>

datatype spot = Outside | At_swap | At_branch u64 | Inside

record lock_state =
  word :: u64
  spots :: "nat \<Rightarrow> spot"

definition move :: "nat \<Rightarrow> spot \<Rightarrow> lock_state \<Rightarrow> lock_state" where
  "move h x c = c\<lparr>spots := (spots c)(h := x)\<rparr>"

inductive lock_step :: "lock_state \<Rightarrow> lock_state \<Rightarrow> bool" where
  call: "spots c h = Outside \<Longrightarrow> lock_step c (move h At_swap c)"
| swap: "spots c h = At_swap \<Longrightarrow> lock_step c (move h (At_branch (word c)) (c\<lparr>word := 1\<rparr>))"
| again: "spots c h = At_branch v \<Longrightarrow> v \<noteq> 0 \<Longrightarrow> lock_step c (move h At_swap c)"
| enter: "spots c h = At_branch 0 \<Longrightarrow> lock_step c (move h Inside c)"
| leave: "spots c h = Inside \<Longrightarrow> lock_step c (move h Outside (c\<lparr>word := 0\<rparr>))"

inductive lock_reach :: "lock_state \<Rightarrow> bool" where
  boot: "lock_reach \<lparr>word = 0, spots = (\<lambda>_. Outside)\<rparr>"
| step: "lock_reach c \<Longrightarrow> lock_step c d \<Longrightarrow> lock_reach d"

section \<open>Mutual exclusion\<close>

text \<open>A hart owns the lock from the exchange that read 0 until it leaves.\<close>

definition owning :: "spot \<Rightarrow> bool" where
  "owning x \<longleftrightarrow> x = Inside \<or> x = At_branch 0"

definition owners :: "lock_state \<Rightarrow> nat set" where
  "owners c = {h. owning (spots c h)}"

definition lock_inv :: "lock_state \<Rightarrow> bool" where
  "lock_inv c \<longleftrightarrow> (if word c = 0 then owners c = {} else word c = 1 \<and> (\<exists>h. owners c = {h}))"

lemma owners_move [simp]: "owners (move h x c) = (if owning x then insert h (owners c) else owners c - {h})"
  by (auto simp: owners_def move_def)

lemma word_move [simp]: "word (move h x c) = word c" "owners (c\<lparr>word := v\<rparr>) = owners c"
  by (simp_all add: move_def owners_def)

lemma owners_spot: "h \<in> owners c \<longleftrightarrow> owning (spots c h)"
  by (simp add: owners_def)

lemma lock_inv_step: "lock_step c d \<Longrightarrow> lock_inv c \<Longrightarrow> lock_inv d"
proof (induction rule: lock_step.induct)
  case (call c h)
  then have "h \<notin> owners c" by (simp add: owners_spot owning_def)
  then show ?case using call by (simp add: lock_inv_def owning_def)
next
  case (swap c h)
  then have "h \<notin> owners c" by (simp add: owners_spot owning_def)
  then show ?case using swap by (auto simp: lock_inv_def owning_def)
next
  case (again c h v)
  then have "h \<notin> owners c" by (simp add: owners_spot owning_def)
  then show ?case using again by (simp add: lock_inv_def owning_def)
next
  case (enter c h)
  then have "h \<in> owners c" by (simp add: owners_spot owning_def)
  then show ?case using enter by (simp add: lock_inv_def owning_def insert_absorb split: if_splits)
next
  case (leave c h)
  then have "h \<in> owners c" by (simp add: owners_spot owning_def)
  then show ?case using leave by (auto simp: lock_inv_def owning_def split: if_splits)
qed

lemma lock_inv_reach: "lock_reach c \<Longrightarrow> lock_inv c"
proof (induction rule: lock_reach.induct)
  case boot
  show ?case by (simp add: lock_inv_def owners_def owning_def)
qed (rule lock_inv_step)

text \<open>
  C28. Mutual exclusion of the spinlock, for any number of harts and any interleaving: at most one
  hart is between \<open>spinlock_acquire\<close> and \<open>spinlock_release\<close>, the lock word is then 1, and when
  no hart is inside or about to enter it is 0, so that the next exchange wins the lock.
\<close>

theorem spinlock_mutual_exclusion:
  assumes "lock_reach c"
  shows "(spots c h = Inside \<and> spots c k = Inside \<longrightarrow> h = k) \<and>
    (spots c h = Inside \<longrightarrow> word c = 1 \<and> spinlock_acquire (word c) = Hang) \<and>
    ((\<forall>j. spots c j = Outside \<or> spots c j = At_swap) \<longrightarrow> spinlock_acquire (word c) = Ret 1)"
proof -
  note i = lock_inv_reach [OF assms, unfolded lock_inv_def]
  have "spots c j = Inside \<Longrightarrow> j \<in> owners c" for j by (simp add: owners_spot owning_def)
  moreover have "\<forall>j. spots c j = Outside \<or> spots c j = At_swap \<Longrightarrow> owners c = {}"
    by (auto simp: owners_def owning_def) (metis spot.distinct)+
  moreover have "h = k" if "h \<in> owners c" "k \<in> owners c" using i that by (auto split: if_splits)
  ultimately show ?thesis using i by (auto simp: spinlock_acquire_def split: if_splits)
qed

text \<open>Hart 3 is inside while hart 5 has read 1 and tries again.\<close>

definition contended :: lock_state where
  "contended = \<lparr>word = 1, spots = (\<lambda>_. Outside)(3 := Inside, 5 := At_swap)\<rparr>"

lemma contended_reach: "lock_reach contended"
proof -
  let ?s = "\<lambda>w x y. \<lparr>word = w, spots = (\<lambda>_. Outside)(3 := x, 5 := y)\<rparr>"
  have "lock_reach (?s 0 Outside Outside)" using boot by (simp add: fun_upd_idem)
  then have "lock_reach (?s 0 At_swap Outside)" using step [OF _ call [where h = 3]]
    by (fastforce simp: move_def fun_upd_twist)
  then have "lock_reach (?s 0 At_swap At_swap)" using step [OF _ call [where h = 5]]
    by (fastforce simp: move_def)
  then have "lock_reach (?s 1 (At_branch 0) At_swap)" using step [OF _ swap [where h = 3]]
    by (fastforce simp: move_def fun_upd_twist)
  then have "lock_reach (?s 1 (At_branch 0) (At_branch 1))" using step [OF _ swap [where h = 5]]
    by (fastforce simp: move_def)
  then have "lock_reach (?s 1 Inside (At_branch 1))" using step [OF _ enter [where h = 3]]
    by (fastforce simp: move_def fun_upd_twist)
  then show ?thesis using step [OF _ again [where h = 5 and v = 1]]
    by (fastforce simp: move_def contended_def)
qed

theorem spinlock_mutual_exclusion_witness:
  "spots contended 3 = Inside \<and> spinlock_acquire (word contended) = Hang"
  using spinlock_mutual_exclusion [OF contended_reach, of 3] by (simp add: contended_def)

end
