(* ===== verification/Spec2Isabelle.thy ===== *)
theory Spec2Isabelle
  imports VmSpec ElfSpec SpawnResult SlabResult TickSpec DtbResult ReapSpec PidSpec MsgSpec WhitelistSpec UserSpec Boot Lock
begin

text \<open>
  RexOS is a kernel for 64-bit RISC-V with Sv39 paging, a scheduler of thirty-two priorities on
  several harts, messages between processes guarded by rights, and a small user side (a library,
  a shell and a worker). This library translates its C code into functions and proves what the
  parts promise to each other.

  \<^bold>\<open>How the code is modelled.\<close> A pointer is its address, a 64-bit word (the kernel maps memory one
  to one); the C integers are words of their widths (\<open>u64\<close>, \<open>u32\<close>, \<open>u16\<close>, \<open>u8\<close>), so that sums and shifts wrap as
  on the machine. A routine takes the state and gives an \<open>outcome\<close>: \<open>Ret\<close> its result, \<open>Panic\<close> the
  code it hands to \<open>kpanic\<close>, \<open>Fault\<close> a wild access, \<open>Hang\<close> when a loop exceeds its fuel. The state
  is one record that grows with the components, each record extending the one before by the
  globals of its file: \<open>kmem\<close> (allocator), \<open>vmem\<close> (byte memory), \<open>slabs\<close> and \<open>kstate\<close>
  (processes, run queues, lists, rights tables, devices). \<open>struct process\<close> and \<open>struct page\<close> are objects in
  maps from addresses or indices; page tables, slabs, the device tree blob and the messages of
  user space are bytes of \<open>mem\<close>.

  \<^bold>\<open>The parts\<close>, in the order of the calls (file under src/, theory of the model, theories of its lemmas):
    \<^item> words, outcomes: \<open>Prelude\<close>; bytes of memory: \<open>Memory\<close>; doubly linked lists and circles as
      used by the allocator and the scheduler: \<open>DList\<close>; blocks of pages: \<open>Blocks\<close>.
    \<^item> kernel/kalloc.c, the buddy allocator: \<open>Kalloc\<close>; its invariant \<open>buddy_inv\<close> in \<open>KallocInv\<close>,
      the boot in \<open>KallocInit\<close>, its contract in \<open>KallocSpec\<close>, and the contract as an interface
      for the page tables, the locales \<open>page_grants\<close> and \<open>page_source\<close>, in \<open>Pages\<close>.
    \<^item> kernel/vm.c, page tables: \<open>PageTable\<close>; the walk of the hardware and the tree of tables
      in \<open>PageWalk\<close>, the mapping loop over any source of pages (locale \<open>table_pages\<close>) in \<open>PageMap\<close>, the properties in
      \<open>VmSpec\<close>, tables beside blocks that are held (another instance of the locale) in \<open>Beside\<close>. The slab allocator
      of the same file: \<open>Slab\<close>; its words in \<open>SlabMem\<close>, its invariant \<open>slab_ok\<close> in \<open>SlabInv\<close>, the steps in \<open>SlabAlloc\<close> and \<open>SlabNew\<close>,
      allocating in \<open>SlabSpec\<close>, releasing in \<open>SlabFree\<close>, the properties in \<open>SlabResult\<close>.
    \<^item> kernel/scheduler.c and .h, kernel/smp.h: the structures in \<open>Process\<close>, the scheduler in \<open>Sched\<close>,
      the life of a process in \<open>Lifecycle\<close>. The invariant \<open>placed\<close> of the lists in \<open>SchedInv\<close>; blocking and waking in
      \<open>SchedMove\<close>; dispatch in \<open>SchedRun\<close>; sweeps, stealing and sleepers in \<open>SchedWalk\<close>; properties in \<open>SchedSpec\<close>, \<open>LifeOk\<close>,
      \<open>LifeSpec\<close>, \<open>ReapSpec\<close> and \<open>PidSpec\<close>; whole timer interrupts, with the handler of \<open>Trap\<close>, in \<open>TickSpec\<close>; the loading of
      program images in \<open>ElfLoad\<close> (one segment) and \<open>ElfSpec\<close>. A whole \<open>spawn_process\<close>, through allocator, slabs, tables,
      loader, rights and run queue: memory that is held in \<open>SpawnMem\<close>, rights in \<open>SpawnCaps\<close>, the pieces of the code in \<open>SpawnSteps\<close>,
      \<open>SpawnImage\<close> and \<open>SpawnSpec\<close>, the invariant \<open>machine_ok\<close> and the property in \<open>SpawnResult\<close>.
    \<^item> kernel/main.c and .h: the system calls in \<open>Syscall\<close>, the trap handlers and idle loops in
      \<open>Trap\<close>, the start of the harts (with kernel/smp.c) in \<open>Boot\<close>. Looking processes up in
      \<open>FindSpec\<close>, rights in \<open>RightsSpec\<close>, messages in \<open>MsgSpec\<close>, whitelists in \<open>WhitelistSpec\<close>.
    \<^item> kernel/smp.S, the spinlock: \<open>Lock\<close>, model and properties.
    \<^item> kernel/string.c: \<open>Strings\<close>; kernel/uart.c and kernel/timer.c: \<open>Uart\<close>.
    \<^item> kernel/dtb.c, the parsers of the device tree: \<open>Dtb\<close>; a parser as a fold over tokens (locale
      \<open>dtb_client\<close>) in \<open>DtbTokens\<close> and \<open>DtbSpec\<close>; trees and their bytes in \<open>DtbEncode\<close>, parsers as functions
      of trees (locales \<open>node_parser\<close>, \<open>cpus_parser\<close>) in \<open>DtbTree\<close>, properties in \<open>DtbResult\<close>.
    \<^item> user/util.c, user/shell.c, user/worker.c, user/syscall.S: \<open>User\<close>, properties in \<open>UserSpec\<close>.

  \<^bold>\<open>What the lemmas show.\<close> The allocator keeps its blocks disjoint, fails only when no block is
  large enough, and frees what it gave; every run of calls from the boot on (\<open>booted\<close>, on RAM of a multiple of 8 MiB) is safe, and the
  kernel image and the allocator's arrays are never taken back as blocks; one class of double frees goes unnoticed. Objects of the slabs are disjoint
  and come and go one at a time. A mapping loop changes the
  hardware's translation of the mapped range and of nothing else, and keeps the tables a tree of pages the
  kernel owns; the kernel's own walk over the tables gives what the hardware gives (\<open>sv39\<close>) except that it checks neither the form of the
  address nor the permissions, so that it takes a pointer to the kernel stack of a process for one of the process; a loaded program shows the bytes of its image at its addresses, each segment in a block of its own. Spawning a process
  leaves a machine on which the next one can be spawned. The thirty-two circles of each hart, the four wait lists and the zombie list partition the live
  processes, whatever moves; priorities are strict, circles take turns, and the sweep ends
  starvation; any number of timer interrupts is served, though a sleeper pays for two ticks at once, and one that has just gone to sleep can
  lose its count to a better one that wakes. A lookup by id finds whoever is on a queue; rights on ids below 32768 are never created, only copied;
  a message carries the true id of its sender and wakes who waits for it. The parsers compute
  functions of the device tree that the blob flattens. At most one hart holds a lock. The shell edits one line.

  \<^bold>\<open>Fuel.\<close> Loops over lists and circles take fuel \<open>walk_fuel\<close> = 65536, more than the
  processes there can be with distinct ids below \<open>PID_MAX\<close> = 32768; the walk over the slabs of a cache
  takes \<open>ram_size\<close>, more than there are pages; a walk with as much fuel as the list
  is long ends, and the hypothesis \<open>placed\<close> of the properties bounds the lists by it. The search
  for an id has \<open>pid_fuel\<close> = 65536 steps, twice the ids. Loops over the device tree need as much fuel as
  the blob has bytes, loops over strings one more than the shorter string, the shell seven for a
  key. The properties state that these bounds suffice: none says only what happens \<open>if\<close> a routine
  returns.

  \<^bold>\<open>Locks and harts.\<close> In all theories but \<open>Lock\<close> a handler runs to its end on the hart \<open>tp\<close>; a lock is a flag
  of the state, and acquiring one that is held is \<open>Hang\<close>. \<open>Lock\<close> has the interleavings of the two instructions that
  make a lock, and shows that the code between them is exclusive.

  \<^bold>\<open>Not modelled.\<close> The assembly of start.S, vm.S, scheduler.S and timer.S: register saves, trap
  vectors, writes of control registers and the fence of the TLB, which the hardware walk over memory makes
  unobservable here. Trap frames and process records are objects apart from the bytes that pointers of user space reach, so a
  message over a trap frame is not followed further. A context switch is the pair of its two arguments. Device registers
  that are read are arguments, writes are lists of address and value in order. Of a leaf of the tables, the accessed and dirty bits
  and the reserved bits are not looked at. The device-tree properties are about blobs in the layout of \<open>flatten\<close>: the structure
  after the header, without memory reservations and empty tokens. The weak memory
  order of the harts, and interleavings inside the handlers.
\<close>

end
